(* ===== verification/DTN_Prelude.thy ===== *)
theory DTN_Prelude
  imports Main "HOL-Library.Word"
begin

unbundle bit_operations_syntax

text \<open>
  Shared vocabulary of the development: the machine types of the C++ code, the faults an
  assertion or a panic of the code stands for, and the generic facts on words, bytes and lists
  that the component theories use.

  \<^item> \<open>byte\<close>, \<open>u16\<close>, \<open>u32\<close>, \<open>u64\<close> are the code's \<open>u_char\<close> / \<open>u_int8_t\<close>, \<open>u_int16_t\<close>,
    \<open>u_int32_t\<close> and \<open>u_int64_t\<close>; a buffer with its length is a list of bytes.
  \<^item> A buffer offset or a length of type \<open>size_t\<close> is a \<open>nat\<close> where the code only compares it
    with the size of an object in memory, and a word where the code can wrap it around.
  \<^item> \<open>'a res\<close> is the outcome of code that contains \<open>ASSERT\<close>, \<open>PANIC\<close>, \<open>NOTREACHED\<close> or an
    access through an invalid pointer or index: \<open>Inl\<close> the fault, or \<open>Inr\<close> the result.
\<close>

type_synonym byte = "8 word"
type_synonym u16 = "16 word"
type_synonym u32 = "32 word"
type_synonym u64 = "64 word"
type_synonym bytes = "byte list"

datatype fault = ASSERT | PANIC | NOTREACHED | NOTIMPLEMENTED | OOB

type_synonym 'a res = "fault + 'a"

definition bindR :: "'a res \<Rightarrow> ('a \<Rightarrow> 'b res) \<Rightarrow> 'b res" where
  "bindR m f = (case m of Inl e \<Rightarrow> Inl e | Inr x \<Rightarrow> f x)"

definition assertR :: "bool \<Rightarrow> unit res" where
  "assertR b = (if b then Inr () else Inl ASSERT)"

text \<open>The difference of two numbers of type \<open>size_t\<close> (64 bits), which wraps around below 0.\<close>

definition size_diff :: "nat \<Rightarrow> nat \<Rightarrow> nat" where
  "size_diff a b = (if b \<le> a then a - b else 2 ^ 64 + a - b)"

lemma size_diff_le [simp]: "b \<le> a \<Longrightarrow> size_diff a b = a - b"
  by (simp add: size_diff_def)

named_theorems dtn_simps \<open>unfolding facts of the model's basic operations\<close>
named_theorems word_facts \<open>facts that move word arithmetic to nat\<close>

lemma bindR_Inr [simp]: "bindR (Inr x) f = f x"
  by (simp add: bindR_def)

lemma bindR_Inl [simp]: "bindR (Inl e) f = Inl e"
  by (simp add: bindR_def)

lemma bindR_eq_Inr: "bindR m f = Inr y \<longleftrightarrow> (\<exists>x. m = Inr x \<and> f x = Inr y)"
  by (cases m) simp_all

lemma assertR_True [simp]: "b \<Longrightarrow> assertR b = Inr ()"
  by (simp add: assertR_def)

lemma assertR_False [simp]: "\<not> b \<Longrightarrow> assertR b = Inl ASSERT"
  by (simp add: assertR_def)

lemma assertR_eq_Inr [simp]: "assertR b = Inr u \<longleftrightarrow> b"
  by (simp add: assertR_def)

subsection \<open>Words\<close>

lemma unat_drop_bit_7 [word_facts]: "unat (drop_bit 7 (w :: 'a::len word)) = unat w div 128"
  using unat_drop_bit_eq [of 7 w] by (simp add: drop_bit_nat_def)

lemma drop_bit_7_less: "drop_bit 7 (w :: 'a::len word) \<noteq> 0 \<Longrightarrow> unat (drop_bit 7 w) < unat w"
proof -
  assume "drop_bit 7 w \<noteq> 0"
  then have "0 < unat w" by (metis drop_bit_of_0 unat_gt_0)
  then show ?thesis by (simp add: unat_drop_bit_7)
qed

lemma and_7f: "w AND 0x7f = take_bit 7 (w :: 'a::len word)"
  by (simp add: take_bit_eq_mask mask_eq_exp_minus_1)

lemma bit_80: "bit (0x80 :: 'a::len word) n \<longleftrightarrow> n = 7 \<and> 7 < LENGTH('a)"
proof -
  have "(0x80 :: 'a word) = 2 ^ 7" by simp
  then show ?thesis by (simp only: bit_exp_iff) (auto simp: possible_bit_word)
qed

lemma push_drop_7: "push_bit 7 (drop_bit 7 (w :: u64)) OR (w AND 0x7f) = w"
  unfolding and_7f by (rule bit_eqI) (auto simp: bit_simps not_le)

lemma small_7: "drop_bit 7 (w :: u64) = 0 \<Longrightarrow> w AND 0x7f = w"
  using push_drop_7 [of w] by simp

lemma unat_less_u64 [simp]: "unat (w :: u64) < 18446744073709551616"
  using unsigned_less [of w] by simp

lemma unat_less_u32 [simp]: "unat (w :: u32) < 4294967296"
  using unsigned_less [of w] by simp

lemma unat_less_u16 [simp]: "unat (w :: u16) < 65536"
  using unsigned_less [of w] by simp

lemma unat_less_byte [simp]: "unat (w :: byte) < 256"
  using unsigned_less [of w] by simp

lemma unat_ucast_32_64 [simp]: "unat (ucast (w :: u32) :: u64) = unat w"
  using less_trans [OF unat_less_u32 [of w], of 18446744073709551616]
  by (simp add: unsigned_ucast_eq take_bit_nat_def)

lemma unat_ucast_8_64 [simp]: "unat (ucast (w :: byte) :: u64) = unat w"
  using less_trans [OF unat_less_byte [of w], of 18446744073709551616]
  by (simp add: unsigned_ucast_eq take_bit_nat_def)

lemma or_and_absorb: "(a OR b) AND b = (b :: 'a::len word)"
  by (rule bit_eqI) (auto simp: bit_simps)

subsection \<open>Lists\<close>

lemma take_length_append [simp]: "take (length xs) (xs @ ys) = xs"
  by simp

lemma drop_length_append [simp]: "drop (length xs) (xs @ ys) = ys"
  by simp

lemma drop_advance: "drop off buf = xs @ rest \<Longrightarrow> length xs = n \<Longrightarrow> drop (off + n) buf = rest"
  by (simp add: add.commute flip: drop_drop)

subsection \<open>Strings\<close>

text \<open>
  A \<open>std::string\<close> is the list of its bytes; \<open>lit\<close> turns a literal into bytes. \<open>strncmp_eq\<close> is
  the test \<open>strncmp(a, b, n) == 0\<close> on two C strings given by the bytes before their terminating
  NUL.
\<close>

definition lit :: "string \<Rightarrow> bytes" where
  "lit s = map of_char s"

fun strncmp_eq :: "bytes \<Rightarrow> bytes \<Rightarrow> nat \<Rightarrow> bool" where
  "strncmp_eq a b 0 = True"
| "strncmp_eq a b (Suc n) =
     (let x = (case a of [] \<Rightarrow> 0 | c # _ \<Rightarrow> c); y = (case b of [] \<Rightarrow> 0 | c # _ \<Rightarrow> c)
      in x = y \<and> (x = 0 \<or> strncmp_eq (tl a) (tl b) n))"

text \<open>The C string that starts at the head of a buffer; \<open>None\<close> when the buffer has no NUL.\<close>

definition c_string :: "bytes \<Rightarrow> bytes option" where
  "c_string bs = (if 0 \<in> set bs then Some (takeWhile (\<lambda>c. c \<noteq> 0) bs) else None)"

lemma strncmp_eq_prefix:
  "0 \<notin> set b \<Longrightarrow> n = length b \<Longrightarrow> 0 \<notin> set a \<Longrightarrow> strncmp_eq a b n \<longleftrightarrow> take n a = b"
proof (induction a b n rule: strncmp_eq.induct)
  case (1 a b)
  then show ?case by simp
next
  case (2 a b n)
  then obtain y ys where b: "b = y # ys" by (cases b) auto
  with 2 show ?case by (cases a) (auto simp: Let_def)
qed

lemma takeWhile_nul: "0 \<notin> set s \<Longrightarrow> takeWhile (\<lambda>c. c \<noteq> (0 :: byte)) (s @ 0 # rest) = s"
  by (induction s) auto

lemma c_string_append [simp]: "0 \<notin> set s \<Longrightarrow> c_string (s @ 0 # rest) = Some s"
  by (simp add: c_string_def takeWhile_nul)

end
