(* ===== verification/Endpoint.thy ===== *)
theory Endpoint
  imports DTN_Prelude
begin

text \<open>
  Endpoint identifiers: \<open>servlib/naming/EndpointID.h\<close> and \<open>EndpointID.cc\<close>. Parsing a URI is done
  by the library class \<open>oasys::URI\<close>, which is not part of the sources, and the scheme table is
  filled at run time: both are the parameter \<open>naming\<close> of the definitions. What the code itself
  does with them (the length limits, the order of the checks, the state left behind) is modelled.
\<close>

record uri =
  uri_text :: bytes
  uri_scheme :: bytes
  uri_ssp :: bytes
  uri_valid :: bool

text \<open>
  \<open>parse_uri\<close> is \<open>URI::assign\<close>; \<open>lookup_scheme\<close> is \<open>SchemeTable::lookup\<close> followed by the
  \<open>validate\<close> method of the scheme found.
\<close>

record naming =
  parse_uri :: "bytes \<Rightarrow> uri"
  lookup_scheme :: "bytes \<Rightarrow> (uri \<Rightarrow> bool) option"

record eid =
  eid_uri :: uri
  eid_known :: bool
  eid_valid :: bool

abbreviation eid_str :: "eid \<Rightarrow> bytes" where "eid_str e \<equiv> uri_text (eid_uri e)"
abbreviation eid_scheme :: "eid \<Rightarrow> bytes" where "eid_scheme e \<equiv> uri_scheme (eid_uri e)"
abbreviation eid_ssp :: "eid \<Rightarrow> bytes" where "eid_ssp e \<equiv> uri_ssp (eid_uri e)"

definition MAX_EID_PART_LENGTH :: nat where
  "MAX_EID_PART_LENGTH = 1023"

definition eid_validate :: "naming \<Rightarrow> uri \<Rightarrow> eid" where
  "eid_validate nm u =
     (if \<not> uri_valid u then \<lparr>eid_uri = u, eid_known = False, eid_valid = False\<rparr>
      else if length (uri_scheme u) > MAX_EID_PART_LENGTH
      then \<lparr>eid_uri = u, eid_known = False, eid_valid = False\<rparr>
      else if length (uri_ssp u) > MAX_EID_PART_LENGTH
      then \<lparr>eid_uri = u, eid_known = False, eid_valid = False\<rparr>
      else (case lookup_scheme nm (uri_scheme u) of
              None \<Rightarrow> \<lparr>eid_uri = u, eid_known = False, eid_valid = True\<rparr>
            | Some v \<Rightarrow> \<lparr>eid_uri = u, eid_known = True, eid_valid = v u\<rparr>))"

definition eid_assign :: "naming \<Rightarrow> bytes \<Rightarrow> eid" where
  "eid_assign nm s = eid_validate nm (parse_uri nm s)"

definition eid_assign2 :: "naming \<Rightarrow> bytes \<Rightarrow> bytes \<Rightarrow> eid" where
  "eid_assign2 nm scheme ssp = eid_assign nm (scheme @ lit '':'' @ ssp)"

definition eid_equals :: "eid \<Rightarrow> eid \<Rightarrow> bool" where
  "eid_equals a b \<longleftrightarrow> eid_str a = eid_str b"

definition NULL_EID :: "naming \<Rightarrow> eid" where
  "NULL_EID nm = eid_assign nm (lit ''dtn:none'')"

text \<open>\<open>EndpointID()\<close>: an identifier with an empty URI that is not valid.\<close>

definition eid_default :: eid where
  "eid_default =
     \<lparr>eid_uri = \<lparr>uri_text = [], uri_scheme = [], uri_ssp = [], uri_valid = False\<rparr>,
      eid_known = False, eid_valid = False\<rparr>"

subsection \<open>What the rest of the model relies on\<close>

text \<open>
  A well-formed identifier of the running system: its parts are non-empty and hold no NUL
  byte, and parsing \<open>scheme:ssp\<close> again gives the same identifier (URI parsing is stable on the
  URIs it produces).
\<close>

definition eid_ok :: "naming \<Rightarrow> eid \<Rightarrow> bool" where
  "eid_ok nm e \<longleftrightarrow>
     eid_valid e \<and> eid_scheme e \<noteq> [] \<and> eid_ssp e \<noteq> [] \<and>
     0 \<notin> set (eid_scheme e) \<and> 0 \<notin> set (eid_ssp e) \<and>
     eid_assign2 nm (eid_scheme e) (eid_ssp e) = e"

text \<open>
  A concrete instance of the parameter, used where a property needs a witness: a URI is split
  at its first colon, is valid when both parts are non-empty, and no scheme is registered.
\<close>

definition simple_parse :: "bytes \<Rightarrow> uri" where
  "simple_parse s =
     (let a = takeWhile (\<lambda>c. c \<noteq> 0x3a) s; b = drop (Suc (length a)) s
      in \<lparr>uri_text = s, uri_scheme = a, uri_ssp = b, uri_valid = (a \<noteq> [] \<and> b \<noteq> [])\<rparr>)"

definition simple_naming :: naming where
  "simple_naming = \<lparr>parse_uri = simple_parse, lookup_scheme = (\<lambda>_. None)\<rparr>"

lemma eid_uri_validate [simp]: "eid_uri (eid_validate nm u) = u"
  by (simp add: eid_validate_def split: option.splits)

lemma eid_valid_limits:
  "eid_valid (eid_assign nm s) \<Longrightarrow>
     uri_valid (parse_uri nm s) \<and>
     length (eid_scheme (eid_assign nm s)) \<le> MAX_EID_PART_LENGTH \<and>
     length (eid_ssp (eid_assign nm s)) \<le> MAX_EID_PART_LENGTH"
  by (auto simp: eid_assign_def eid_validate_def split: if_splits option.splits)

lemma eid_valid_simple:
  "eid_valid (eid_assign simple_naming s) \<longleftrightarrow>
     (let a = takeWhile (\<lambda>c. c \<noteq> 0x3a) s; b = drop (Suc (length a)) s
      in a \<noteq> [] \<and> b \<noteq> [] \<and> length a \<le> 1023 \<and> length b \<le> 1023)"
  by (auto simp: eid_assign_def eid_validate_def simple_naming_def simple_parse_def
      MAX_EID_PART_LENGTH_def Let_def)

end
