(* ===== verification/Dictionary.thy ===== *)
theory Dictionary
  imports Endpoint
begin

text \<open>
  The bundle dictionary: \<open>servlib/bundling/Dictionary.h\<close> and \<open>Dictionary.cc\<close>, a byte buffer of
  NUL-terminated strings into which endpoint identifiers are entered once and then referred to
  by offset.

  The record holds the filled-in part of \<open>dict_\<close> (its length is \<open>length_\<close>), the allocated size
  \<open>dict_length_\<close> and whether \<open>dict_\<close> is allocated at all. Reading a C string that is not
  terminated inside the filled-in part is the fault \<open>OOB\<close>. Lengths are \<open>nat\<close>: the parts of a
  valid endpoint identifier are at most 1023 bytes long, so the 32-bit counters of the code do
  not wrap before a bundle refers to two million of them.
\<close>

record dictionary =
  dict_buf :: bytes
  dict_cap :: nat
  dict_alloc :: bool

definition dict_empty :: dictionary where
  "dict_empty = \<lparr>dict_buf = [], dict_cap = 0, dict_alloc = False\<rparr>"

definition set_dict :: "dictionary \<Rightarrow> bytes \<Rightarrow> dictionary res" where
  "set_dict d bs =
     bindR (assertR (\<not> dict_alloc d))
       (\<lambda>_. Inr \<lparr>dict_buf = bs, dict_cap = length bs, dict_alloc = True\<rparr>)"

text \<open>
  The search loop, on the part of the buffer from \<open>*offset\<close> to \<open>length_\<close>. The result is the
  return value together with the final \<open>*offset\<close>.
\<close>

function dict_scan :: "bytes \<Rightarrow> bytes \<Rightarrow> nat \<Rightarrow> (bool \<times> nat) res" where
  "dict_scan str rest offset =
     (if rest = [] then Inr (False, offset)
      else case c_string rest of
        None \<Rightarrow> Inl OOB
      | Some entry \<Rightarrow>
          if strncmp_eq str entry (length entry) \<and> length str = length entry
          then Inr (True, offset)
          else dict_scan str (drop (length entry + 1) rest) (offset + (length entry + 1)))"
  by pat_completeness auto
termination
  by (relation "measure (\<lambda>(str, rest, offset). length rest)") auto

declare dict_scan.simps [simp del]

definition dict_get_offset :: "dictionary \<Rightarrow> bytes \<Rightarrow> (bool \<times> nat) res" where
  "dict_get_offset d str = dict_scan str (dict_buf d) 0"

text \<open>The growth loop of \<open>add_str\<close>: the allocated size doubles until \<open>need\<close> bytes fit.\<close>

function dict_grow :: "nat \<Rightarrow> nat \<Rightarrow> nat" where
  "dict_grow cap need =
     (let cap' = (if cap = 0 then 64 else cap * 2)
      in if cap' < need then dict_grow cap' need else cap')"
  by pat_completeness auto
termination
  by (relation "measure (\<lambda>(cap, need). need - cap)") (auto split: if_splits)

declare dict_grow.simps [simp del]

definition dict_add_str :: "dictionary \<Rightarrow> bytes \<Rightarrow> dictionary res" where
  "dict_add_str d str =
     bindR (dict_get_offset d str) (\<lambda>(found, _).
       if found then Inr d
       else
         let need = length (dict_buf d) + length str + 1;
             d' = (if dict_cap d < need
                   then d\<lparr>dict_cap := dict_grow (dict_cap d) need, dict_alloc := True\<rparr> else d)
         in Inr (d'\<lparr>dict_buf := dict_buf d' @ str @ [0]\<rparr>))"

definition dict_add_eid :: "dictionary \<Rightarrow> eid \<Rightarrow> dictionary res" where
  "dict_add_eid d e =
     bindR (dict_add_str d (eid_scheme e)) (\<lambda>d1. dict_add_str d1 (eid_ssp e))"

text \<open>
  \<open>get_offsets\<close>: the two offsets as they are assigned. When the scheme is not found, the second
  search does not run and its target keeps the value it had (\<open>ssp0\<close>).
\<close>

definition dict_get_offsets :: "dictionary \<Rightarrow> eid \<Rightarrow> nat \<Rightarrow> (bool \<times> nat \<times> nat) res" where
  "dict_get_offsets d e ssp0 =
     bindR (dict_get_offset d (eid_scheme e)) (\<lambda>(b1, o1).
       if \<not> b1 then Inr (False, o1, ssp0)
       else bindR (dict_get_offset d (eid_ssp e)) (\<lambda>(b2, o2). Inr (b2, o1, o2)))"

definition dict_cstr :: "dictionary \<Rightarrow> nat \<Rightarrow> bytes res" where
  "dict_cstr d offset =
     (case c_string (drop offset (dict_buf d)) of None \<Rightarrow> Inl OOB | Some s \<Rightarrow> Inr s)"

definition extract_eid32 :: "naming \<Rightarrow> dictionary \<Rightarrow> eid \<Rightarrow> u32 \<Rightarrow> u32 \<Rightarrow> (eid \<times> bool) res" where
  "extract_eid32 nm d e scheme_offset ssp_offset =
     (if dict_cap d = 0 then Inr (e, False)
      else if unat scheme_offset \<ge> dict_cap d - 1 then Inr (e, False)
      else if unat ssp_offset \<ge> dict_cap d - 1 then Inr (e, False)
      else
        bindR (dict_cstr d (unat scheme_offset)) (\<lambda>scheme.
        bindR (dict_cstr d (unat ssp_offset)) (\<lambda>ssp.
          let e' = eid_assign2 nm scheme ssp in Inr (e', eid_valid e'))))"

text \<open>The 64-bit overload assigns its offsets to 32-bit variables first.\<close>

definition extract_eid :: "naming \<Rightarrow> dictionary \<Rightarrow> eid \<Rightarrow> u64 \<Rightarrow> u64 \<Rightarrow> (eid \<times> bool) res" where
  "extract_eid nm d e scheme_offset ssp_offset =
     extract_eid32 nm d e (ucast scheme_offset) (ucast ssp_offset)"

subsection \<open>Abstract view: a list of distinct strings\<close>

definition dict_enc :: "bytes list \<Rightarrow> bytes" where
  "dict_enc ss = concat (map (\<lambda>s. s @ [0]) ss)"

fun str_offset :: "bytes list \<Rightarrow> bytes \<Rightarrow> nat option" where
  "str_offset [] s = None"
| "str_offset (t # ts) s =
     (if t = s then Some 0 else map_option (\<lambda>k. k + (length t + 1)) (str_offset ts s))"

definition str_add :: "bytes list \<Rightarrow> bytes \<Rightarrow> bytes list" where
  "str_add ss s = (if s \<in> set ss then ss else ss @ [s])"

definition dict_rel :: "dictionary \<Rightarrow> bytes list \<Rightarrow> bool" where
  "dict_rel d ss \<longleftrightarrow>
     dict_buf d = dict_enc ss \<and> distinct ss \<and> (\<forall>s \<in> set ss. 0 \<notin> set s) \<and>
     length (dict_buf d) \<le> dict_cap d"

subsection \<open>Lemmas\<close>

lemma dict_enc_simps [simp]:
  "dict_enc [] = []" "dict_enc (s # ss) = s @ 0 # dict_enc ss"
  "dict_enc (ss @ ts) = dict_enc ss @ dict_enc ts"
  by (simp_all add: dict_enc_def)

lemma dict_enc_eq_Nil [simp]: "dict_enc ss = [] \<longleftrightarrow> ss = []"
  by (cases ss) auto

lemma dict_scan_enc:
  "\<forall>t \<in> set ss. 0 \<notin> set t \<Longrightarrow> 0 \<notin> set s \<Longrightarrow>
     dict_scan s (dict_enc ss) k =
       Inr (case str_offset ss s of Some i \<Rightarrow> (True, k + i) | None \<Rightarrow> (False, k + length (dict_enc ss)))"
proof (induction ss arbitrary: k)
  case Nil
  then show ?case by (simp add: dict_scan.simps)
next
  case (Cons t ts)
  have cmp: "(strncmp_eq s t (length t) \<and> length s = length t) \<longleftrightarrow> t = s"
    using Cons.prems strncmp_eq_prefix [of t "length t" s] by auto
  show ?case
    using Cons cmp by (subst dict_scan.simps) (auto split: option.splits)
qed

lemma str_offset_None: "str_offset ss s = None \<longleftrightarrow> s \<notin> set ss"
  by (induction ss) auto

lemma str_offset_append: "s \<in> set ss \<Longrightarrow> str_offset (ss @ ts) s = str_offset ss s"
  by (induction ss) auto

lemma str_offset_drop:
  "str_offset ss s = Some k \<Longrightarrow> \<exists>rest. drop k (dict_enc ss) = s @ 0 # rest"
proof (induction ss arbitrary: k)
  case Nil
  then show ?case by simp
next
  case (Cons t ts)
  then show ?case by (auto split: if_splits)
qed

lemma str_offset_bound: "str_offset ss s = Some k \<Longrightarrow> k + length s < length (dict_enc ss)"
proof (induction ss arbitrary: k)
  case Nil
  then show ?case by simp
next
  case (Cons t ts)
  then show ?case by (fastforce split: if_splits)
qed

lemma dict_grow_ge: "need \<le> dict_grow cap need"
proof (induction cap need rule: dict_grow.induct)
  case (1 cap need)
  then show ?case by (subst dict_grow.simps) (auto simp: Let_def not_less)
qed

lemma dict_rel_empty: "dict_rel dict_empty []"
  by (simp add: dict_rel_def dict_empty_def)

lemma dict_get_offset_rel:
  "dict_rel d ss \<Longrightarrow> 0 \<notin> set s \<Longrightarrow>
     dict_get_offset d s =
       Inr (case str_offset ss s of Some i \<Rightarrow> (True, i) | None \<Rightarrow> (False, length (dict_buf d)))"
  by (simp add: dict_get_offset_def dict_rel_def dict_scan_enc split: option.splits)

lemma dict_add_str_rel:
  assumes r: "dict_rel d ss" and s: "0 \<notin> set s"
  shows "\<exists>d'. dict_add_str d s = Inr d' \<and> dict_rel d' (str_add ss s)"
proof (cases "s \<in> set ss")
  case True
  then obtain i where "str_offset ss s = Some i" by (metis option.exhaust str_offset_None)
  with True r s show ?thesis
    by (simp add: dict_add_str_def dict_get_offset_rel str_add_def)
next
  case False
  then have "str_offset ss s = None" by (simp add: str_offset_None)
  with False r s show ?thesis
    using dict_grow_ge [of "length (dict_buf d) + length s + 1" "dict_cap d"]
    by (auto simp: dict_add_str_def dict_get_offset_rel str_add_def dict_rel_def Let_def)
qed

lemma dict_cstr_rel:
  "dict_rel d ss \<Longrightarrow> str_offset ss s = Some k \<Longrightarrow> dict_cstr d k = Inr s"
proof -
  assume r: "dict_rel d ss" and k: "str_offset ss s = Some k"
  then have "0 \<notin> set s" by (metis dict_rel_def not_None_eq str_offset_None)
  moreover from str_offset_drop [OF k] obtain rest where "drop k (dict_enc ss) = s @ 0 # rest" by blast
  ultimately show "dict_cstr d k = Inr s" using r by (simp add: dict_cstr_def dict_rel_def)
qed

subsection \<open>The interface\<close>

locale string_table =
  fixes invar :: "'t \<Rightarrow> bool"
    and ok :: "'s \<Rightarrow> bool"
    and add :: "'t \<Rightarrow> 's \<Rightarrow> 't"
    and offset :: "'t \<Rightarrow> 's \<Rightarrow> nat option"
    and entry :: "'t \<Rightarrow> nat \<Rightarrow> 's option"
  assumes invar_add: "invar t \<Longrightarrow> ok s \<Longrightarrow> invar (add t s)"
    and offset_add: "invar t \<Longrightarrow> ok s \<Longrightarrow> offset (add t s) s \<noteq> None"
    and offset_stable: "invar t \<Longrightarrow> ok s \<Longrightarrow> offset t u = Some k \<Longrightarrow> offset (add t s) u = Some k"
    and entry_offset: "invar t \<Longrightarrow> ok u \<Longrightarrow> offset t u = Some k \<Longrightarrow> entry t k = Some u"
begin

lemma invar_fold: "invar t \<Longrightarrow> \<forall>s \<in> set ss. ok s \<Longrightarrow> invar (foldl add t ss)"
  by (induction ss arbitrary: t) (auto simp: invar_add)

lemma offset_fold_stable:
  "invar t \<Longrightarrow> \<forall>s \<in> set ss. ok s \<Longrightarrow> offset t u = Some k \<Longrightarrow> offset (foldl add t ss) u = Some k"
  by (induction ss arbitrary: t) (auto simp: invar_add offset_stable)

lemma offset_fold:
  "invar t \<Longrightarrow> \<forall>s \<in> set ss. ok s \<Longrightarrow> u \<in> set ss \<Longrightarrow> offset (foldl add t ss) u \<noteq> None"
proof (induction ss arbitrary: t)
  case Nil
  then show ?case by simp
next
  case (Cons s ss)
  show ?case
  proof (cases "u = s")
    case True
    then show ?thesis
      using Cons.prems offset_add [of t s] offset_fold_stable [of "add t s" ss s]
      by (auto simp: invar_add)
  next
    case False
    then show ?thesis using Cons by (auto simp: invar_add)
  qed
qed

lemma entry_fold:
  assumes "invar t" and "\<forall>s \<in> set ss. ok s" and "u \<in> set ss"
  obtains k where "offset (foldl add t ss) u = Some k" and "entry (foldl add t ss) k = Some u"
  using assms invar_fold offset_fold entry_offset by (metis not_None_eq)

end

definition dict_invar :: "dictionary \<Rightarrow> bool" where
  "dict_invar d \<longleftrightarrow> (\<exists>ss. dict_rel d ss)"

definition dict_add :: "dictionary \<Rightarrow> bytes \<Rightarrow> dictionary" where
  "dict_add d s = (case dict_add_str d s of Inl _ \<Rightarrow> d | Inr d' \<Rightarrow> d')"

definition dict_find :: "dictionary \<Rightarrow> bytes \<Rightarrow> nat option" where
  "dict_find d s = (case dict_get_offset d s of Inr (True, k) \<Rightarrow> Some k | _ \<Rightarrow> None)"

definition dict_entry :: "dictionary \<Rightarrow> nat \<Rightarrow> bytes option" where
  "dict_entry d k = (case dict_cstr d k of Inr s \<Rightarrow> Some s | Inl _ \<Rightarrow> None)"

lemma dict_find_rel: "dict_rel d ss \<Longrightarrow> 0 \<notin> set s \<Longrightarrow> dict_find d s = str_offset ss s"
  by (simp add: dict_find_def dict_get_offset_rel split: option.splits)

lemma dict_add_rel:
  assumes "dict_rel d ss" and "0 \<notin> set s"
  shows "dict_add_str d s = Inr (dict_add d s)" and "dict_rel (dict_add d s) (str_add ss s)"
  using dict_add_str_rel [OF assms] by (auto simp: dict_add_def)

interpretation dict: string_table dict_invar "\<lambda>s. 0 \<notin> set s" dict_add
    "\<lambda>d s. if 0 \<in> set s then None else dict_find d s" dict_entry
proof (unfold_locales, goal_cases)
  case (1 t s)
  then show ?case unfolding dict_invar_def using dict_add_rel by blast
next
  case (2 t s)
  then obtain ss where "dict_rel t ss" by (auto simp: dict_invar_def)
  with 2 show ?case
    using dict_find_rel [OF dict_add_rel(2)] by (simp add: str_offset_None str_add_def)
next
  case (3 t s u k)
  then obtain ss where r: "dict_rel t ss" by (auto simp: dict_invar_def)
  from 3 have u: "0 \<notin> set u" by (auto split: if_splits)
  with 3 r have "str_offset ss u = Some k" by (simp add: dict_find_rel)
  moreover from this have "u \<in> set ss" by (metis option.distinct(1) str_offset_None)
  ultimately show ?case
    using dict_find_rel [OF dict_add_rel(2) [OF r 3(2)] u] u
    by (simp add: str_add_def str_offset_append)
next
  case (4 t u k)
  then obtain ss where r: "dict_rel t ss" by (auto simp: dict_invar_def)
  with 4 show ?case
    by (simp add: dict_entry_def dict_find_rel dict_cstr_rel split: if_splits)
qed

subsection \<open>Endpoint identifiers in the dictionary\<close>

fun dict_add_eids :: "dictionary \<Rightarrow> eid list \<Rightarrow> dictionary res" where
  "dict_add_eids d [] = Inr d"
| "dict_add_eids d (e # es) = bindR (dict_add_eid d e) (\<lambda>d'. dict_add_eids d' es)"

definition eid_parts :: "eid list \<Rightarrow> bytes list" where
  "eid_parts es = concat (map (\<lambda>e. [eid_scheme e, eid_ssp e]) es)"

definition eid_clean :: "eid \<Rightarrow> bool" where
  "eid_clean e \<longleftrightarrow> 0 \<notin> set (eid_scheme e) \<and> 0 \<notin> set (eid_ssp e)"

lemma eid_ok_clean [simp]: "eid_ok nm e \<Longrightarrow> eid_clean e"
  by (simp add: eid_ok_def eid_clean_def)

lemma dict_add_eid_eq:
  assumes "dict_invar d" and "eid_clean e"
  shows "dict_add_eid d e = Inr (dict_add (dict_add d (eid_scheme e)) (eid_ssp e))"
  using assms dict_add_rel unfolding dict_invar_def dict_add_eid_def eid_clean_def by force

lemma dict_add_eids_eq:
  "dict_invar d \<Longrightarrow> \<forall>e \<in> set es. eid_clean e \<Longrightarrow>
     dict_add_eids d es = Inr (foldl dict_add d (eid_parts es))"
proof (induction es arbitrary: d)
  case Nil
  then show ?case by (simp add: eid_parts_def)
next
  case (Cons e es)
  then show ?case
    by (simp add: dict_add_eid_eq dict.invar_add eid_clean_def eid_parts_def)
qed

lemma dict_invar_empty [simp]: "dict_invar dict_empty"
  using dict_rel_empty dict_invar_def by blast

lemma dict_find_bound:
  assumes "dict_invar d" and "0 \<notin> set s" and "dict_find d s = Some k"
  shows "k + length s < length (dict_buf d)"
  using assms str_offset_bound by (auto simp: dict_invar_def dict_find_rel dict_rel_def)

lemma dict_get_offsets_find:
  assumes "dict_find d (eid_scheme e) = Some k1" and "dict_find d (eid_ssp e) = Some k2"
  shows "dict_get_offsets d e s0 = Inr (True, k1, k2)"
  using assms by (auto simp: dict_get_offsets_def dict_find_def split: sum.splits prod.splits bool.splits)

lemma extract_eid_received:
  assumes inv: "dict_invar d" and ok: "eid_ok nm e" and len: "length (dict_buf d) < 2 ^ 32"
    and k1: "dict_find d (eid_scheme e) = Some k1" and k2: "dict_find d (eid_ssp e) = Some k2"
  shows "extract_eid nm \<lparr>dict_buf = dict_buf d, dict_cap = length (dict_buf d), dict_alloc = True\<rparr>
           e0 (of_nat k1) (of_nat k2) = Inr (e, True)"
proof -
  let ?d = "\<lparr>dict_buf = dict_buf d, dict_cap = length (dict_buf d), dict_alloc = True\<rparr>"
  from ok have c: "0 \<notin> set (eid_scheme e)" "0 \<notin> set (eid_ssp e)"
      "eid_scheme e \<noteq> []" "eid_ssp e \<noteq> []" "eid_valid e"
      "eid_assign2 nm (eid_scheme e) (eid_ssp e) = e"
    by (auto simp: eid_ok_def)
  have b: "k1 + length (eid_scheme e) < length (dict_buf d)" "k2 + length (eid_ssp e) < length (dict_buf d)"
    using dict_find_bound inv c k1 k2 by blast+
  moreover from c have "0 < length (eid_scheme e)" "0 < length (eid_ssp e)" by simp_all
  ultimately have lt: "k1 < length (dict_buf d) - 1" "k2 < length (dict_buf d) - 1" by linarith+
  have u: "unat (ucast (of_nat k1 :: u64) :: u32) = k1" "unat (ucast (of_nat k2 :: u64) :: u32) = k2"
    using lt len by (simp_all add: unsigned_ucast_eq take_bit_nat_def unat_of_nat)
  have s: "dict_cstr ?d k1 = Inr (eid_scheme e)" "dict_cstr ?d k2 = Inr (eid_ssp e)"
    using dict.entry_offset [OF inv c(1), of k1] dict.entry_offset [OF inv c(2), of k2] c k1 k2
    by (auto simp: dict_entry_def dict_cstr_def split: option.splits)
  show ?thesis
    unfolding extract_eid_def extract_eid32_def u using s lt c by (auto simp: Let_def)
qed

lemma extract_eid_returns:
  assumes "bs \<noteq> []" and "last bs = 0" and "set_dict dict_empty bs = Inr d"
  shows "\<exists>e' b. extract_eid nm d e so po = Inr (e', b)"
proof -
  have d: "dict_buf d = bs" using assms(3) by (auto simp: set_dict_def dict_empty_def)
  have k: "\<exists>s. dict_cstr d k = Inr s" if "k < length bs" for k
  proof -
    have "last (drop k bs) = 0" and "drop k bs \<noteq> []" using that assms(2) by auto
    then have "0 \<in> set (drop k bs)" by (metis last_in_set)
    then show ?thesis by (simp add: dict_cstr_def d c_string_def)
  qed
  have s: "\<exists>s. dict_cstr d (unat (w :: u32)) = Inr s" if "unat w < length bs - 1" for w
  proof -
    from that have "unat w < length bs" by linarith
    then show ?thesis by (rule k)
  qed
  have c: "dict_cap d = length bs" using assms(3) by (auto simp: set_dict_def dict_empty_def)
  show ?thesis
    using s [of "ucast so"] s [of "ucast po"]
    by (auto simp: extract_eid_def extract_eid32_def c not_le Let_def)
qed

subsection \<open>Properties\<close>

text \<open>
  The dictionary refines a list of distinct strings. \<open>add_str\<close> succeeds, appends the string
  only if it is not yet present, and keeps every string of the dictionary NUL-terminated within
  the allocated buffer; \<open>get_offset\<close> then returns the position of the string in that list.
\<close>

theorem dict_add_str_refines:
  assumes "dict_rel d ss" and "0 \<notin> set s"
  shows "\<exists>d' k. dict_add_str d s = Inr d' \<and> dict_rel d' (str_add ss s) \<and>
           str_offset (str_add ss s) s = Some k \<and> dict_get_offset d' s = Inr (True, k)"
proof -
  from dict_add_str_rel [OF assms] obtain d' where d': "dict_add_str d s = Inr d'" "dict_rel d' (str_add ss s)"
    by blast
  have "s \<in> set (str_add ss s)" by (simp add: str_add_def)
  then obtain k where "str_offset (str_add ss s) s = Some k" by (metis option.exhaust str_offset_None)
  with d' assms(2) show ?thesis by (auto simp: dict_get_offset_rel)
qed

theorem dict_add_str_refines_witness:
  "\<exists>d' k. dict_add_str dict_empty (lit ''dtn'') = Inr d' \<and> dict_rel d' (str_add [] (lit ''dtn'')) \<and>
           str_offset (str_add [] (lit ''dtn'')) (lit ''dtn'') = Some k \<and>
           dict_get_offset d' (lit ''dtn'') = Inr (True, k)"
  by (rule dict_add_str_refines [OF dict_rel_empty]) (simp add: lit_def)

text \<open>
  C24: end-to-end use of the dictionary. After the sender has entered a list of endpoint
  identifiers, every one of them is found by \<open>get_offsets\<close>, and a receiver that loads the
  transmitted bytes with \<open>set_dict\<close> and looks the two offsets up with \<open>extract_eid\<close> obtains the
  same identifier.
\<close>

theorem dict_eid_roundtrip:
  assumes "\<forall>x \<in> set es. eid_ok nm x" and "e \<in> set es"
    and "dict_add_eids dict_empty es = Inr d" and "length (dict_buf d) < 2 ^ 32"
  shows "\<exists>k1 k2 d'. dict_get_offsets d e s0 = Inr (True, k1, k2) \<and>
           set_dict dict_empty (dict_buf d) = Inr d' \<and>
           extract_eid nm d' e0 (of_nat k1) (of_nat k2) = Inr (e, True)"
proof -
  have cl: "\<forall>x \<in> set es. eid_clean x" using assms(1) by auto
  then have ok: "\<forall>s \<in> set (eid_parts es). 0 \<notin> set s"
    by (auto simp: eid_parts_def eid_clean_def)
  have d: "d = foldl dict_add dict_empty (eid_parts es)"
    using assms(3) dict_add_eids_eq [OF dict_invar_empty cl] by simp
  have inv: "dict_invar d" unfolding d by (rule dict.invar_fold) (use ok in auto)
  have in1: "eid_scheme e \<in> set (eid_parts es)" and in2: "eid_ssp e \<in> set (eid_parts es)"
    using assms(2) by (auto simp: eid_parts_def)
  obtain k1 where k1: "dict_find d (eid_scheme e) = Some k1"
    using dict.offset_fold [OF dict_invar_empty ok in1] ok in1 unfolding d by auto
  obtain k2 where k2: "dict_find d (eid_ssp e) = Some k2"
    using dict.offset_fold [OF dict_invar_empty ok in2] ok in2 unfolding d by auto
  have "eid_ok nm e" using assms by blast
  from extract_eid_received [OF inv this assms(4) k1 k2, of e0] dict_get_offsets_find [OF k1 k2, of s0]
  show ?thesis by (auto simp: set_dict_def dict_empty_def)
qed

theorem dict_eid_roundtrip_witness:
  "let e = eid_assign simple_naming (lit ''dtn://a'') in
   \<exists>d k1 k2 d'. dict_add_eids dict_empty [e] = Inr d \<and> dict_get_offsets d e 0 = Inr (True, k1, k2) \<and>
           set_dict dict_empty (dict_buf d) = Inr d' \<and>
           extract_eid simple_naming d' e (of_nat k1) (of_nat k2) = Inr (e, True)"
proof -
  let ?e = "eid_assign simple_naming (lit ''dtn://a'')"
  have ok: "\<forall>x \<in> set [?e]. eid_ok simple_naming x"
    by (simp add: eid_ok_def eid_assign2_def eid_assign_def eid_validate_def simple_naming_def
        simple_parse_def MAX_EID_PART_LENGTH_def Let_def lit_def)
  have d: "dict_add_eids dict_empty [?e] = Inr \<lparr>dict_buf = lit ''dtn'' @ [0] @ lit ''//a'' @ [0], dict_cap = 64, dict_alloc = True\<rparr>"
    by (simp add: dict_add_eid_def dict_add_str_def dict_get_offset_def dict_scan.simps dict_empty_def
        eid_assign_def eid_validate_def simple_naming_def simple_parse_def MAX_EID_PART_LENGTH_def Let_def
        lit_def dict_grow.simps c_string_def)
  show ?thesis
    unfolding Let_def using dict_eid_roundtrip [OF ok _ d, of ?e 0 ?e] d by (simp add: lit_def)
qed

text \<open>
  Looking up an endpoint identifier in a received dictionary is memory safe. Once the
  dictionary is known to end with a NUL byte, \<open>extract_eid\<close> returns for all 64-bit offsets, and
  every string it reads ends inside the dictionary.
\<close>

theorem extract_eid_safe:
  assumes "bs \<noteq> []" and "last bs = 0" and "set_dict dict_empty bs = Inr d"
  shows "\<exists>e' b. extract_eid nm d e so po = Inr (e', b)"
  using assms by (rule extract_eid_returns)

theorem extract_eid_safe_witness:
  "\<exists>e' b. extract_eid simple_naming \<lparr>dict_buf = [0x61, 0], dict_cap = 2, dict_alloc = True\<rparr>
     (eid_assign simple_naming []) 0 7 = Inr (e', b)"
  by (rule extract_eid_safe [of "[0x61, 0]"]) (simp_all add: set_dict_def dict_empty_def)

text \<open>
  \<open>extract_eid\<close> looks only at the low 32 bits of the offsets on the wire, so an offset that
  is out of range by a multiple of \<open>2 ^ 32\<close> is not rejected but taken for a valid one.
\<close>

theorem extract_eid_truncates:
  "extract_eid nm d e (so + 0x100000000) (po + 0x100000000) = extract_eid nm d e so po"
proof -
  have "ucast (w + 0x100000000 :: u64) = (ucast w :: u32)" for w
  proof -
    have "unat (w + 0x100000000) mod 2 ^ 32 = unat w mod 2 ^ 32"
      by (simp add: unat_word_ariths mod_mod_cancel mod_simps)
    then show ?thesis
      by (simp add: word_unat_eq_iff unsigned_ucast_eq take_bit_nat_def)
  qed
  then show ?thesis by (simp add: extract_eid_def)
qed

end
