(* ===== verification/SDNV.thy ===== *)
theory SDNV
  imports DTN_Prelude
begin

unbundle bit_operations_syntax

text \<open>
  Self-describing numeric values: \<open>servlib/bundling/SDNV.cc\<close> and \<open>SDNV.h\<close>. An encoder is the
  list of bytes it writes at \<open>bp\<close> (\<open>None\<close> is the return value -1); a decoder takes the bytes
  from \<open>bp\<close> to \<open>bp + len\<close> and returns the final \<open>*val\<close> together with the number of bytes
  consumed (\<open>None\<close> is -1).
\<close>

definition MAX_LENGTH :: nat where
  "MAX_LENGTH = 10"

subsection \<open>SDNV::encode\<close>

text \<open>The first loop of \<open>encode\<close>, which counts the seven-bit groups of \<open>val\<close>.\<close>

function sdnv_val_len :: "u64 \<Rightarrow> nat" where
  "sdnv_val_len tmp =
     (if drop_bit 7 tmp \<noteq> 0 then Suc (sdnv_val_len (drop_bit 7 tmp)) else 1)"
  by pat_completeness auto
termination
  by (relation "measure unat") (auto dest: drop_bit_7_less)

text \<open>
  The second loop, which walks \<open>bp\<close> backwards: \<open>high\<close> is \<open>high_bit\<close> and \<open>acc\<close> is what is
  already written behind \<open>bp\<close>.
\<close>

function sdnv_fill :: "u64 \<Rightarrow> byte \<Rightarrow> bytes \<Rightarrow> bytes" where
  "sdnv_fill val high acc =
     (if drop_bit 7 val \<noteq> 0
      then sdnv_fill (drop_bit 7 val) 0x80 ((high OR ucast (val AND 0x7f)) # acc)
      else (high OR ucast (val AND 0x7f)) # acc)"
  by pat_completeness auto
termination
  by (relation "measure (\<lambda>(val, high, acc). unat val)") (auto dest: drop_bit_7_less)

declare sdnv_val_len.simps [simp del] sdnv_fill.simps [simp del]

definition sdnv_encode :: "u64 \<Rightarrow> nat \<Rightarrow> bytes option" where
  "sdnv_encode val len =
     (if len < sdnv_val_len val then None else Some (sdnv_fill val 0 []))"

text \<open>The three assertions of \<open>encode\<close> (\<open>bp == start\<close> after the backward loop is the last one).\<close>

definition sdnv_encode_asserts :: "u64 \<Rightarrow> bool" where
  "sdnv_encode_asserts val \<longleftrightarrow>
     0 < sdnv_val_len val \<and> sdnv_val_len val \<le> MAX_LENGTH \<and>
     length (sdnv_fill val 0 []) = sdnv_val_len val"

text \<open>\<open>encoding_len\<close> encodes into a scratch buffer of 16 bytes and returns the length used.\<close>

definition sdnv_encoding_len :: "u64 \<Rightarrow> nat res" where
  "sdnv_encoding_len val =
     (case sdnv_encode val 16 of
        None \<Rightarrow> Inl ASSERT
      | Some bs \<Rightarrow> if length bs = 0 then Inl ASSERT else Inr (length bs))"

subsection \<open>SDNV::decode\<close>

fun sdnv_decode_loop :: "bytes \<Rightarrow> u64 \<Rightarrow> nat \<Rightarrow> u64 \<times> nat option" where
  "sdnv_decode_loop [] val val_len = (val, None)"
| "sdnv_decode_loop (b # bs) val val_len =
     (let val' = push_bit 7 val OR ucast (b AND 0x7f) in
      if b AND 0x80 = 0 then (val', Some (Suc val_len))
      else sdnv_decode_loop bs val' (Suc val_len))"

definition sdnv_decode :: "bytes \<Rightarrow> u64 \<times> nat option" where
  "sdnv_decode bs =
     (case sdnv_decode_loop bs 0 0 of
        (val, None) \<Rightarrow> (val, None)
      | (val, Some val_len) \<Rightarrow>
          if val_len > MAX_LENGTH \<or> (val_len = MAX_LENGTH \<and> hd bs \<noteq> 0x81)
          then (val, None) else (val, Some val_len))"

text \<open>
  The 32-bit overload: the returned pair is \<open>*val\<close> (\<open>None\<close> when it is left unassigned) and the
  return value.
\<close>

definition sdnv_decode32 :: "bytes \<Rightarrow> u32 option \<times> nat option" where
  "sdnv_decode32 bs =
     (case sdnv_decode bs of (lval, ret) \<Rightarrow>
        if lval > 0xffffffff then (None, None) else (Some (ucast lval), ret))"

text \<open>\<open>SDNV::len\<close> reads on until a byte with a clear high bit; running off the buffer is \<open>None\<close>.\<close>

fun sdnv_len :: "bytes \<Rightarrow> nat option" where
  "sdnv_len [] = None"
| "sdnv_len (b # bs) = (if b AND 0x80 \<noteq> 0 then map_option Suc (sdnv_len bs) else Some 1)"

subsection \<open>What the encoding means\<close>

text \<open>
  The reference semantics: the number a sequence of seven-bit groups denotes (most significant
  group first), without any bound on its size, and the shape of a complete SDNV.
\<close>

definition sdnv_value_from :: "nat \<Rightarrow> bytes \<Rightarrow> nat" where
  "sdnv_value_from a bs = foldl (\<lambda>acc b. 128 * acc + unat (b AND 0x7f)) a bs"

definition sdnv_value :: "bytes \<Rightarrow> nat" where
  "sdnv_value bs = sdnv_value_from 0 bs"

text \<open>A byte sequence that ends at its first byte with a clear high bit.\<close>

definition sdnv_terminated :: "bytes \<Rightarrow> bool" where
  "sdnv_terminated bs \<longleftrightarrow>
     bs \<noteq> [] \<and> last bs AND 0x80 = 0 \<and> (\<forall>b \<in> set (butlast bs). b AND 0x80 \<noteq> 0)"

text \<open>The encoding itself, once the buffer is known to be large enough.\<close>

definition sdnv_bytes :: "u64 \<Rightarrow> bytes" where
  "sdnv_bytes v = sdnv_fill v 0 []"

subsection \<open>Lemmas\<close>

lemma fill_byte_low7: "(ucast ((0x80 OR ucast (w AND 0x7f) :: byte) AND 0x7f) :: u64) = (w :: u64) AND 0x7f"
  unfolding and_7f by (rule bit_eqI) (auto simp: bit_simps bit_80)

lemma last_byte_low7: "(ucast ((ucast (w AND 0x7f) :: byte) AND 0x7f) :: u64) = (w :: u64) AND 0x7f"
  unfolding and_7f by (rule bit_eqI) (auto simp: bit_simps bit_80)

lemma high_bit_set: "(0x80 OR b) AND 0x80 \<noteq> (0 :: byte)"
proof -
  have "bit ((0x80 OR b) AND 0x80) 7" by (simp add: bit_simps bit_80)
  then show ?thesis by (metis bit_0_eq bot_apply bot_bool_def)
qed

lemma high_bit_clear: "ucast ((w :: u64) AND 0x7f) AND 0x80 = (0 :: byte)"
proof -
  have "\<not> bit (ucast ((w :: u64) AND 0x7f) :: byte) 7"
    unfolding and_7f by (simp add: bit_simps)
  then show ?thesis
    by (intro bit_eqI) (auto simp only: bit_and_iff bit_80 bit_0_eq bot_apply bot_bool_def)
qed

lemma unat_low7: "unat ((b :: byte) AND 0x7f) < 128"
proof -
  have "unat (take_bit 7 b) = take_bit 7 (unat b)" by (simp add: unsigned_take_bit_eq)
  then show ?thesis unfolding and_7f by (simp add: take_bit_eq_mod)
qed

lemma shift_or_eq_plus:
  "push_bit 7 (v :: u64) OR ucast ((b :: byte) AND 0x7f) = push_bit 7 v + ucast (b AND 0x7f)"
proof -
  have "push_bit 7 v AND ucast (b AND 0x7f) = 0"
    unfolding and_7f by (rule bit_eqI) (auto simp: bit_simps)
  then show ?thesis by (simp add: disjunctive_add_eq_or)
qed

lemma unat_shift_or:
  "unat (push_bit 7 (v :: u64) OR ucast ((b :: byte) AND 0x7f)) =
     (128 * unat v + unat (b AND 0x7f)) mod 2 ^ 64"
proof -
  have p: "push_bit 7 v = 128 * v" by (simp add: push_bit_eq_mult)
  have u: "unat (ucast (b AND 0x7f) :: u64) = unat (b AND 0x7f)"
    by (simp add: unsigned_ucast_eq take_bit_nat_eq_self less_trans [OF unat_less_byte])
  show ?thesis
    unfolding shift_or_eq_plus unfolding p unat_word_ariths u by (simp add: mod_simps)
qed

lemma sdnv_val_len_pos [simp]: "0 < sdnv_val_len v"
  by (subst sdnv_val_len.simps) simp

lemma sdnv_val_len_nonzero [simp]: "sdnv_val_len v \<noteq> 0"
  using sdnv_val_len_pos [of v] by linarith

lemma sdnv_fill_append: "sdnv_fill v h (acc @ rest) = sdnv_fill v h acc @ rest"
proof (induction v h acc rule: sdnv_fill.induct)
  case (1 v h acc)
  then show ?case
    by (simp add: sdnv_fill.simps [of v])
qed

lemma length_sdnv_fill: "length (sdnv_fill v h acc) = sdnv_val_len v + length acc"
proof (induction v h acc rule: sdnv_fill.induct)
  case (1 v h acc)
  then show ?case
    by (simp add: sdnv_fill.simps [of v] sdnv_val_len.simps [of v])
qed

lemma sdnv_val_len_bound: "unat v < 128 ^ Suc n \<Longrightarrow> sdnv_val_len v \<le> Suc n"
proof (induction n arbitrary: v)
  case 0
  then have "drop_bit 7 v = 0"
    by (simp add: unat_eq_zero [symmetric] word_facts)
  then show ?case by (simp add: sdnv_val_len.simps [of v])
next
  case (Suc n)
  have "unat (drop_bit 7 v) < 128 ^ Suc n"
    using Suc.prems by (simp add: word_facts less_mult_imp_div_less mult.commute)
  then show ?case using Suc.IH by (subst sdnv_val_len.simps) simp
qed

lemma sdnv_val_len_lower: "128 ^ n \<le> unat v \<Longrightarrow> n < sdnv_val_len v"
proof (induction n arbitrary: v)
  case 0
  then show ?case by simp
next
  case (Suc n)
  have le: "128 ^ n \<le> unat (drop_bit 7 v)"
    using div_le_mono [OF Suc.prems, of 128] by (simp add: word_facts)
  then have "drop_bit 7 v \<noteq> 0" by (metis le_zero_eq power_not_zero unat_0 zero_neq_numeral)
  then show ?case using Suc.IH [OF le] by (subst sdnv_val_len.simps) simp
qed

lemma sdnv_val_len_le_10: "sdnv_val_len v \<le> 10"
  using sdnv_val_len_bound [of v 9] unat_less_u64 [of v] by simp

lemma decode_loop_fill:
  "sdnv_decode_loop (sdnv_fill v 0x80 acc) 0 0 = sdnv_decode_loop acc v (sdnv_val_len v)"
proof (induction v "0x80 :: byte" acc rule: sdnv_fill.induct)
  case (1 v acc)
  show ?case
  proof (cases "drop_bit 7 v = 0")
    case True
    then show ?thesis
      using fill_byte_low7 [of v]
      by (simp add: sdnv_fill.simps [of v] sdnv_val_len.simps [of v] high_bit_set small_7)
  next
    case False
    then show ?thesis
      using 1 by (simp add: sdnv_fill.simps [of v] sdnv_val_len.simps [of v] fill_byte_low7
          high_bit_set push_drop_7)
  qed
qed

lemma decode_loop_encode:
  "sdnv_decode_loop (sdnv_fill v 0 [] @ rest) 0 0 = (v, Some (sdnv_val_len v))"
proof (cases "drop_bit 7 v = 0")
  case True
  then show ?thesis
    using last_byte_low7 [of v] high_bit_clear [of v]
    by (simp add: sdnv_fill.simps [of v] sdnv_val_len.simps [of v] small_7)
next
  case False
  have "sdnv_fill v 0 [] @ rest = sdnv_fill (drop_bit 7 v) 0x80 (ucast (v AND 0x7f) # rest)"
    using False by (simp add: sdnv_fill.simps [of v] flip: sdnv_fill_append)
  then show ?thesis
    using False by (simp add: decode_loop_fill sdnv_val_len.simps [of v] last_byte_low7 high_bit_clear push_drop_7)
qed

lemma sdnv_value_from_simps [simp]:
  "sdnv_value_from a [] = a"
  "sdnv_value_from a (b # bs) = sdnv_value_from (128 * a + unat (b AND 0x7f)) bs"
  by (simp_all add: sdnv_value_from_def)

lemma sdnv_value_from_bound: "sdnv_value_from a bs < Suc a * 128 ^ length bs"
proof (induction bs arbitrary: a)
  case Nil
  then show ?case by simp
next
  case (Cons b bs)
  have "Suc (128 * a + unat (b AND 0x7f)) \<le> Suc a * 128"
    using unat_low7 [of b] by simp
  then have "Suc (128 * a + unat (b AND 0x7f)) * 128 ^ length bs \<le> Suc a * 128 * 128 ^ length bs"
    by (rule mult_le_mono1)
  with Cons.IH [of "128 * a + unat (b AND 0x7f)"] show ?case
    by (simp only: sdnv_value_from_simps length_Cons power_Suc mult.assoc)
qed

lemma sdnv_value_from_cong:
  "a mod m = c mod m \<Longrightarrow> sdnv_value_from a bs mod m = sdnv_value_from c bs mod m"
proof (induction bs arbitrary: a c)
  case Nil
  then show ?case by simp
next
  case (Cons b bs)
  have "(128 * a + unat (b AND 0x7f)) mod m = (128 * c + unat (b AND 0x7f)) mod m"
    by (rule mod_add_cong [OF mod_mult_cong [OF refl Cons.prems] refl])
  then show ?case unfolding sdnv_value_from_simps by (rule Cons.IH)
qed

lemma sdnv_decode_loop_Some:
  "sdnv_decode_loop bs v n = (w, Some m) \<Longrightarrow>
     \<exists>k. m = n + k \<and> k \<le> length bs \<and> sdnv_terminated (take k bs) \<and>
         unat w = sdnv_value_from (unat v) (take k bs) mod 2 ^ 64"
proof (induction bs v n rule: sdnv_decode_loop.induct)
  case (1 v n)
  then show ?case by simp
next
  case (2 b bs v n)
  let ?v = "push_bit 7 v OR ucast (b AND 0x7f) :: u64"
  show ?case
  proof (cases "b AND 0x80 = 0")
    case True
    with "2.prems" show ?thesis
      by (intro exI [of _ 1]) (auto simp: sdnv_terminated_def unat_shift_or)
  next
    case False
    with "2.prems" have "sdnv_decode_loop bs ?v (Suc n) = (w, Some m)" by simp
    from "2.IH" [OF refl False this] obtain k where
      k: "m = Suc n + k" "k \<le> length bs" "sdnv_terminated (take k bs)"
        "unat w = sdnv_value_from (unat ?v) (take k bs) mod 2 ^ 64" by blast
    have "unat w = sdnv_value_from (128 * unat v + unat (b AND 0x7f)) (take k bs) mod 2 ^ 64"
      unfolding k(4) by (rule sdnv_value_from_cong) (simp add: unat_shift_or)
    with k False show ?thesis
      by (intro exI [of _ "Suc k"]) (auto simp: sdnv_terminated_def)
  qed
qed

lemma sdnv_decode_loop_terminated:
  "sdnv_terminated bs \<Longrightarrow>
     \<exists>w. sdnv_decode_loop (bs @ rest) v n = (w, Some (n + length bs)) \<and>
         unat w = sdnv_value_from (unat v) bs mod 2 ^ 64"
proof (induction bs arbitrary: v n)
  case Nil
  then show ?case by (simp add: sdnv_terminated_def)
next
  case (Cons b bs)
  show ?case
  proof (cases "bs = []")
    case True
    with Cons.prems show ?thesis by (simp add: sdnv_terminated_def unat_shift_or)
  next
    case False
    with Cons.prems have hb: "b AND 0x80 \<noteq> 0" and t: "sdnv_terminated bs"
      by (auto simp: sdnv_terminated_def)
    have "sdnv_value_from (unat (push_bit 7 v OR ucast (b AND 0x7f))) bs mod 2 ^ 64 =
        sdnv_value_from (128 * unat v + unat (b AND 0x7f)) bs mod 2 ^ 64"
      by (rule sdnv_value_from_cong) (simp add: unat_shift_or)
    with Cons.IH [OF t, of "push_bit 7 v OR ucast (b AND 0x7f)" "Suc n"] hb show ?thesis by auto
  qed
qed

lemma sdnv_decode_eq_Some:
  "sdnv_decode bs = (w, Some n) \<longleftrightarrow>
     sdnv_decode_loop bs 0 0 = (w, Some n) \<and> n \<le> 10 \<and> (n = 10 \<longrightarrow> hd bs = 0x81)"
  by (auto simp: sdnv_decode_def MAX_LENGTH_def split: prod.splits option.splits if_splits)

lemma sdnv_value_fits:
  assumes "length xs \<le> 10" and "length xs = 10 \<longrightarrow> hd xs = 0x81"
  shows "sdnv_value xs < 2 ^ 64"
proof (cases "length xs = 10")
  case True
  then obtain ys where xs: "xs = 0x81 # ys" and l: "length ys = 9"
    using assms(2) by (cases xs) auto
  have "sdnv_value xs = sdnv_value_from 1 ys"
    by (simp add: sdnv_value_def xs)
  also have "\<dots> < Suc 1 * 128 ^ 9" using sdnv_value_from_bound [of 1 ys] l by simp
  finally show ?thesis by simp
next
  case False
  then have "length xs \<le> 9" using assms(1) by simp
  then have "(128 :: nat) ^ length xs \<le> 128 ^ 9" by (rule power_increasing) simp
  then show ?thesis using sdnv_value_from_bound [of 0 xs] by (simp add: sdnv_value_def)
qed

lemma hd_sdnv_fill:
  "hd (sdnv_fill v h acc) =
     (if sdnv_val_len v = 1 then h else 0x80) OR ucast (drop_bit (7 * (sdnv_val_len v - 1)) v AND 0x7f)"
proof (induction v h acc rule: sdnv_fill.induct)
  case (1 v h acc)
  show ?case
  proof (cases "drop_bit 7 v = 0")
    case True
    then show ?thesis by (simp add: sdnv_fill.simps [of v] sdnv_val_len.simps [of v])
  next
    case False
    let ?l = "sdnv_val_len (drop_bit 7 v)"
    have l: "0 < ?l" by simp
    have d: "drop_bit (7 * (?l - 1)) (drop_bit 7 v) = drop_bit (7 * ?l) v"
    proof -
      have "7 * (?l - 1) + 7 = 7 * ?l" using l by linarith
      then show ?thesis by (simp add: drop_bit_drop_bit)
    qed
    from False have "hd (sdnv_fill v h acc) = hd (sdnv_fill (drop_bit 7 v) 0x80 ((h OR ucast (v AND 0x7f)) # acc))"
      by (simp add: sdnv_fill.simps [of v])
    with 1 [OF False] d False l show ?thesis
      by (simp add: sdnv_val_len.simps [of v])
  qed
qed

lemma hd_sdnv_fill_10:
  assumes "sdnv_val_len v = 10"
  shows "hd (sdnv_fill v h acc) = 0x81"
proof -
  have "128 ^ 9 \<le> unat v"
    using sdnv_val_len_bound [of v 8] assms by (cases "unat v < 128 ^ Suc 8") simp_all
  then have "unat v div 2 ^ 63 = 1"
    using unat_less_u64 [of v] by (intro div_nat_eqI) simp_all
  then have "unat (drop_bit 63 v) = 1"
    using unat_drop_bit_eq [of 63 v] by (simp add: drop_bit_nat_def)
  then have "drop_bit 63 v = 1" by (metis unat_1 word_unat_eq_iff)
  then show ?thesis using hd_sdnv_fill [of v h acc] assms by simp
qed

lemma length_sdnv_bytes [simp]: "length (sdnv_bytes v) = sdnv_val_len v"
  by (simp add: sdnv_bytes_def length_sdnv_fill)

lemma sdnv_bytes_nonempty [simp]: "sdnv_bytes v \<noteq> []"
  by (metis length_0_conv length_sdnv_bytes less_numeral_extra(3) sdnv_val_len_pos)

lemma sdnv_decode_bytes [simp]: "sdnv_decode (sdnv_bytes v @ rest) = (v, Some (sdnv_val_len v))"
  using hd_sdnv_fill_10 [of v 0 "[]"] sdnv_val_len_le_10 [of v]
  by (simp add: sdnv_decode_eq_Some sdnv_bytes_def decode_loop_encode hd_append
      sdnv_bytes_nonempty [unfolded sdnv_bytes_def])

lemma sdnv_encode_eq: "sdnv_encode v len = (if sdnv_val_len v \<le> len then Some (sdnv_bytes v) else None)"
  by (simp add: sdnv_encode_def sdnv_bytes_def)

lemma sdnv_encoding_len_eq [simp]: "sdnv_encoding_len v = Inr (sdnv_val_len v)"
  using sdnv_val_len_le_10 [of v] by (simp add: sdnv_encoding_len_def sdnv_encode_eq)

lemma sdnv_decode_prefix:
  assumes "sdnv_decode bs = (w, Some n)"
  shows "n \<le> length bs" and "0 < n" and "sdnv_terminated (take n bs)"
    and "unat w = sdnv_value (take n bs)"
proof -
  from assms obtain l: "sdnv_decode_loop bs 0 0 = (w, Some n)" and n: "n \<le> 10"
    and h: "n = 10 \<longrightarrow> hd bs = 0x81" by (auto simp: sdnv_decode_eq_Some)
  from sdnv_decode_loop_Some [OF l] show nl: "n \<le> length bs" and t: "sdnv_terminated (take n bs)" by auto
  from t show "0 < n" by (cases n) (auto simp: sdnv_terminated_def)
  have "sdnv_value (take n bs) < 2 ^ 64"
    by (rule sdnv_value_fits) (use n h nl in \<open>auto simp: hd_take\<close>)
  moreover from sdnv_decode_loop_Some [OF l] have "unat w = sdnv_value (take n bs) mod 2 ^ 64"
    by (auto simp: sdnv_value_def)
  ultimately show "unat w = sdnv_value (take n bs)" by simp
qed

lemma sdnv_decode_iff:
  "sdnv_decode bs = (w, Some n) \<longleftrightarrow>
     n \<le> length bs \<and> n \<le> MAX_LENGTH \<and> sdnv_terminated (take n bs) \<and>
     (n = MAX_LENGTH \<longrightarrow> hd bs = 0x81) \<and> unat w = sdnv_value (take n bs)"
proof
  assume d: "sdnv_decode bs = (w, Some n)"
  then show "n \<le> length bs \<and> n \<le> MAX_LENGTH \<and> sdnv_terminated (take n bs) \<and>
     (n = MAX_LENGTH \<longrightarrow> hd bs = 0x81) \<and> unat w = sdnv_value (take n bs)"
    using sdnv_decode_prefix [OF d] by (auto simp: sdnv_decode_eq_Some MAX_LENGTH_def)
next
  assume r: "n \<le> length bs \<and> n \<le> MAX_LENGTH \<and> sdnv_terminated (take n bs) \<and>
     (n = MAX_LENGTH \<longrightarrow> hd bs = 0x81) \<and> unat w = sdnv_value (take n bs)"
  then obtain u where u: "sdnv_decode_loop bs 0 0 = (u, Some n)"
      "unat u = sdnv_value (take n bs) mod 2 ^ 64"
    using sdnv_decode_loop_terminated [of "take n bs" "drop n bs" 0 0]
    by (auto simp: sdnv_value_def min_absorb2)
  have "unat w < 2 ^ 64" by simp
  with r u(2) have "u = w" by (simp add: word_unat_eq_iff)
  with u(1) r show "sdnv_decode bs = (w, Some n)"
    by (simp add: sdnv_decode_eq_Some MAX_LENGTH_def)
qed

lemma sdnv_encode_minimal:
  assumes "sdnv_decode bs = (v, Some n)"
  shows "sdnv_val_len v \<le> n"
proof -
  have "unat v < 128 ^ n"
    using sdnv_decode_prefix [OF assms] sdnv_value_from_bound [of 0 "take n bs"]
    by (simp add: sdnv_value_def min_absorb2)
  then show ?thesis
    using sdnv_val_len_bound [of v "n - 1"] sdnv_decode_prefix(2) [OF assms] by simp
qed

lemma sdnv_len_terminated: "sdnv_terminated bs \<Longrightarrow> sdnv_len (bs @ rest) = Some (length bs)"
proof (induction bs)
  case Nil
  then show ?case by (simp add: sdnv_terminated_def)
next
  case (Cons b bs)
  then show ?case by (cases bs) (auto simp: sdnv_terminated_def)
qed

lemma sdnv_len_decode: "sdnv_decode bs = (w, Some n) \<Longrightarrow> sdnv_len bs = Some n"
  using sdnv_len_terminated [of "take n bs" "drop n bs"] sdnv_decode_prefix [of bs w n]
  by (simp add: min_absorb2)

lemma sdnv_value_bytes: "sdnv_value (sdnv_bytes v) = unat v"
  using sdnv_decode_prefix(4) [of "sdnv_bytes v" v "sdnv_val_len v"] sdnv_decode_bytes [of v "[]"]
  by simp

text \<open>Decoding depends only on the bytes it consumes: what a prefix of a buffer decodes to.\<close>

lemma sdnv_decode_take_Some:
  "sdnv_decode (take m bs) = (w, Some k) \<longleftrightarrow> k \<le> m \<and> sdnv_decode bs = (w, Some k)"
proof -
  have "hd (take m bs) = hd bs" if "k \<le> m" "k = MAX_LENGTH"
    using that by (cases m) (auto simp: MAX_LENGTH_def hd_take)
  then show ?thesis by (auto simp: sdnv_decode_iff min_absorb1)
qed

lemma sdnv_decode_take:
  assumes "sdnv_decode bs = (w, Some n)"
  shows "n \<le> m \<Longrightarrow> sdnv_decode (take m bs) = (w, Some n)"
    and "m < n \<Longrightarrow> \<exists>u. sdnv_decode (take m bs) = (u, None)"
proof -
  show "sdnv_decode (take m bs) = (w, Some n)" if "n \<le> m"
    using that assms by (simp add: sdnv_decode_take_Some)
  show "\<exists>u. sdnv_decode (take m bs) = (u, None)" if "m < n"
  proof (cases "sdnv_decode (take m bs)")
    case (Pair u r)
    with that assms show ?thesis
      using sdnv_decode_take_Some [of m bs u] by (cases r) auto
  qed
qed

lemma sdnv_decode_append:
  assumes "sdnv_decode bs = (w, Some n)"
  shows "sdnv_decode (bs @ rest) = (w, Some n)"
  using assms sdnv_decode_take_Some [of "length bs" "bs @ rest" w n] by simp

subsection \<open>Properties\<close>

text \<open>
  C19: whatever \<open>SDNV::encode\<close> writes, \<open>SDNV::decode\<close> reads back, consuming exactly the bytes
  written, also when other data follows in the buffer.
\<close>

theorem sdnv_roundtrip:
  "sdnv_encode v len = Some bs \<Longrightarrow> sdnv_decode (bs @ rest) = (v, Some (length bs))"
  by (auto simp: sdnv_encode_eq split: if_splits)

theorem sdnv_roundtrip_witness:
  "sdnv_encode 300 4 = Some [0x82, 0x2c] \<and>
   sdnv_decode ([0x82, 0x2c] @ [0xff]) = (300, Some (length [0x82, 0x2c :: byte]))"
proof -
  have e: "sdnv_encode 300 4 = Some [0x82, 0x2c]"
    by (simp add: sdnv_encode_def sdnv_val_len.simps sdnv_fill.simps)
  show ?thesis using e sdnv_roundtrip [OF e, of "[0xff]"] by simp
qed

text \<open>
  C20: \<open>SDNV::decode\<close> accepts exactly the complete SDNVs of at most ten bytes (a tenth byte
  only behind a leading 0x81), and the 64-bit value it stores is the unbounded value of the
  bytes consumed: no accepted encoding is truncated by the 64-bit accumulator.
\<close>

theorem sdnv_decode_exact:
  "sdnv_decode bs = (w, Some n) \<longleftrightarrow>
     n \<le> length bs \<and> n \<le> MAX_LENGTH \<and> sdnv_terminated (take n bs) \<and>
     (n = MAX_LENGTH \<longrightarrow> hd bs = 0x81) \<and> unat w = sdnv_value (take n bs)"
  by (rule sdnv_decode_iff)

theorem sdnv_decode_exact_witness:
  "sdnv_decode [0x82, 0x2c, 0x05] = (300, Some 2) \<and>
   sdnv_terminated (take 2 [0x82, 0x2c, 0x05]) \<and> sdnv_value (take 2 [0x82, 0x2c, 0x05]) = 300"
proof -
  have d: "sdnv_decode [0x82, 0x2c, 0x05] = (300, Some 2)"
    by (simp add: sdnv_decode_def MAX_LENGTH_def)
  show ?thesis using d sdnv_decode_exact [of "[0x82, 0x2c, 0x05]" 300 2] by simp
qed

text \<open>
  The assertions of \<open>SDNV::encode\<close> hold for every 64-bit value, \<open>SDNV::encoding_len\<close> never
  fails, and the length it reports is the number of seven-bit groups of the value: between 1 and
  10, and at most \<open>n + 1\<close> exactly when the value is below \<open>128 ^ (n + 1)\<close>.
\<close>

theorem sdnv_encoding_len_correct:
  "sdnv_encode_asserts v \<and>
   (\<exists>l. sdnv_encoding_len v = Inr l \<and> 1 \<le> l \<and> l \<le> MAX_LENGTH \<and>
        (\<forall>n. l \<le> Suc n \<longleftrightarrow> unat v < 128 ^ Suc n))"
proof -
  have "sdnv_val_len v \<le> Suc n \<longleftrightarrow> unat v < 128 ^ Suc n" for n
    using sdnv_val_len_bound [of v n] sdnv_val_len_lower [of "Suc n" v] by linarith
  then show ?thesis
    using sdnv_val_len_le_10 [of v] sdnv_val_len_pos [of v]
    by (simp add: sdnv_encode_asserts_def MAX_LENGTH_def length_sdnv_fill Suc_leI)
qed

text \<open>
  \<open>encode\<close> fails only for lack of space, and writes the shortest encoding: no byte sequence
  that \<open>decode\<close> accepts for the same value is shorter.
\<close>

theorem sdnv_encode_shortest:
  "(sdnv_encode v len = None \<longleftrightarrow> (\<forall>l. sdnv_encoding_len v = Inr l \<longrightarrow> len < l)) \<and>
   (sdnv_encode v len = Some bs \<longrightarrow> sdnv_decode xs = (v, Some n) \<longrightarrow> length bs \<le> n)"
  using sdnv_encode_minimal [of xs v n] by (auto simp: sdnv_encode_eq)

theorem sdnv_encode_shortest_witness:
  "sdnv_encode 5 1 = Some [5] \<and> sdnv_decode [0x80, 0x05] = (5, Some 2) \<and> length [5 :: byte] \<le> 2"
proof -
  have e: "sdnv_encode 5 1 = Some [5]"
    by (simp add: sdnv_encode_def sdnv_val_len.simps sdnv_fill.simps)
  have d: "sdnv_decode [0x80, 0x05] = (5, Some 2)"
    by (simp add: sdnv_decode_def MAX_LENGTH_def)
  show ?thesis using e d sdnv_encode_shortest [of 5 1 "[5]" "[0x80, 0x05]" 2] by blast
qed

end
