(* ===== verification/BlockInfo.thy ===== *)
theory BlockInfo
  imports Dictionary SDNV
begin

text \<open>
  Unparsed bundle blocks: \<open>servlib/bundling/BlockInfo.h\<close> and \<open>BlockInfo.cc\<close>.

  A block is owned by a block processor, which is named here by its \<open>block_type()\<close>. The contents
  buffer is an \<open>oasys::ScratchBuffer\<close> with 64 bytes of static space: the record keeps the bytes
  up to its length, and its capacity \<open>buf_len()\<close>. How much \<open>reserve\<close> really allocates is decided
  by that library class and is the parameter \<open>rsv\<close> of the definitions (old capacity and requested
  size to new capacity), of which the code only needs \<open>scratch_ok\<close>. A \<open>source_\<close> pointer is the
  position of the source block in the received or in the API block list. Cached per-processor
  data (\<open>locals_\<close>) is not part of the record.
\<close>

subsection \<open>Block types and flags\<close>

definition PRIMARY_BLOCK :: nat where "PRIMARY_BLOCK = 0x000"
definition PAYLOAD_BLOCK :: nat where "PAYLOAD_BLOCK = 0x001"
definition PREVIOUS_HOP_BLOCK :: nat where "PREVIOUS_HOP_BLOCK = 0x005"
definition METADATA_BLOCK :: nat where "METADATA_BLOCK = 0x008"
definition EXTENSION_SECURITY_BLOCK :: nat where "EXTENSION_SECURITY_BLOCK = 0x009"
definition AGE_BLOCK :: nat where "AGE_BLOCK = 0x00a"
definition QUERY_EXTENSION_BLOCK :: nat where "QUERY_EXTENSION_BLOCK = 0x00b"
definition SESSION_BLOCK :: nat where "SESSION_BLOCK = 0x00c"
definition SEQUENCE_ID_BLOCK :: nat where "SEQUENCE_ID_BLOCK = 0x010"
definition OBSOLETES_ID_BLOCK :: nat where "OBSOLETES_ID_BLOCK = 0x011"
definition API_EXTENSION_BLOCK :: nat where "API_EXTENSION_BLOCK = 0x100"
definition UNKNOWN_BLOCK :: nat where "UNKNOWN_BLOCK = 0x101"

lemmas block_types =
  PRIMARY_BLOCK_def PAYLOAD_BLOCK_def PREVIOUS_HOP_BLOCK_def METADATA_BLOCK_def
  EXTENSION_SECURITY_BLOCK_def AGE_BLOCK_def QUERY_EXTENSION_BLOCK_def SESSION_BLOCK_def
  SEQUENCE_ID_BLOCK_def OBSOLETES_ID_BLOCK_def API_EXTENSION_BLOCK_def UNKNOWN_BLOCK_def

definition BLOCK_FLAG_REPLICATE :: u64 where "BLOCK_FLAG_REPLICATE = 1"
definition BLOCK_FLAG_REPORT_ONERROR :: u64 where "BLOCK_FLAG_REPORT_ONERROR = 2"
definition BLOCK_FLAG_DISCARD_BUNDLE_ONERROR :: u64 where "BLOCK_FLAG_DISCARD_BUNDLE_ONERROR = 4"
definition BLOCK_FLAG_LAST_BLOCK :: u64 where "BLOCK_FLAG_LAST_BLOCK = 8"
definition BLOCK_FLAG_DISCARD_BLOCK_ONERROR :: u64 where "BLOCK_FLAG_DISCARD_BLOCK_ONERROR = 16"
definition BLOCK_FLAG_FORWARDED_UNPROCESSED :: u64 where "BLOCK_FLAG_FORWARDED_UNPROCESSED = 32"
definition BLOCK_FLAG_EID_REFS :: u64 where "BLOCK_FLAG_EID_REFS = 64"

lemmas block_flag_defs =
  BLOCK_FLAG_REPLICATE_def BLOCK_FLAG_REPORT_ONERROR_def BLOCK_FLAG_DISCARD_BUNDLE_ONERROR_def
  BLOCK_FLAG_LAST_BLOCK_def BLOCK_FLAG_DISCARD_BLOCK_ONERROR_def
  BLOCK_FLAG_FORWARDED_UNPROCESSED_def BLOCK_FLAG_EID_REFS_def

subsection \<open>One block\<close>

datatype block_ref = RecvBlock nat | ApiBlock nat

record block_info =
  bi_owner :: nat
  bi_source :: "block_ref option"
  bi_eid_list :: "eid list"
  bi_contents :: bytes
  bi_buf_len :: nat
  bi_data_length :: u32
  bi_data_offset :: u32
  bi_complete :: bool
  bi_reloaded :: bool

definition SCRATCH_LEN :: nat where
  "SCRATCH_LEN = 64"

definition scratch_ok :: "(nat \<Rightarrow> nat \<Rightarrow> nat) \<Rightarrow> bool" where
  "scratch_ok rsv \<longleftrightarrow> (\<forall>cap n. cap \<le> rsv cap n \<and> n \<le> rsv cap n)"

definition block_new :: "nat \<Rightarrow> block_ref option \<Rightarrow> block_info" where
  "block_new owner source =
     \<lparr>bi_owner = owner, bi_source = source, bi_eid_list = [], bi_contents = [],
      bi_buf_len = SCRATCH_LEN, bi_data_length = 0, bi_data_offset = 0,
      bi_complete = False, bi_reloaded = False\<rparr>"

definition bi_reserve :: "(nat \<Rightarrow> nat \<Rightarrow> nat) \<Rightarrow> nat \<Rightarrow> block_info \<Rightarrow> block_info" where
  "bi_reserve rsv n b = b\<lparr>bi_buf_len := rsv (bi_buf_len b) n\<rparr>"

text \<open>\<open>full_length()\<close> adds two 32-bit numbers and returns 32 bits.\<close>

definition bi_full_length :: "block_info \<Rightarrow> u32" where
  "bi_full_length b = bi_data_offset b + bi_data_length b"

definition bi_type :: "block_info \<Rightarrow> nat res" where
  "bi_type b =
     (if bi_owner b = PRIMARY_BLOCK then Inr PRIMARY_BLOCK
      else case bi_contents b of
        [] \<Rightarrow> Inr (bi_owner b)
      | c # _ \<Rightarrow>
          bindR (assertR (unat c = bi_owner b \<or>
                          bi_owner b \<in> {PREVIOUS_HOP_BLOCK, METADATA_BLOCK,
                            EXTENSION_SECURITY_BLOCK, SESSION_BLOCK, AGE_BLOCK,
                            QUERY_EXTENSION_BLOCK, SEQUENCE_ID_BLOCK, OBSOLETES_ID_BLOCK,
                            UNKNOWN_BLOCK, API_EXTENSION_BLOCK}))
            (\<lambda>_. Inr (unat c)))"

definition bi_flags :: "block_info \<Rightarrow> u64 res" where
  "bi_flags b =
     bindR (bi_type b) (\<lambda>t.
       if t = PRIMARY_BLOCK then Inr 0
       else case bi_contents b of
         [] \<Rightarrow> Inl OOB
       | _ # rest \<Rightarrow>
           (case sdnv_decode rest of
              (flags, Some _) \<Rightarrow> Inr flags
            | (_, None) \<Rightarrow> Inl ASSERT))"

definition bi_set_flag :: "u64 \<Rightarrow> block_info \<Rightarrow> block_info res" where
  "bi_set_flag flag b =
     bindR (sdnv_encoding_len flag) (\<lambda>n.
     bindR (assertR (1 + n \<le> length (bi_contents b))) (\<lambda>_.
       case sdnv_encode flag n of
         None \<Rightarrow> Inr b
       | Some bs \<Rightarrow>
           Inr (b\<lparr>bi_contents := take 1 (bi_contents b) @ bs @ drop (1 + n) (bi_contents b)\<rparr>)))"

definition bi_last_block :: "block_info \<Rightarrow> bool res" where
  "bi_last_block b =
     (if length (bi_contents b) < 2 then Inr False
      else bindR (bi_flags b) (\<lambda>flag. Inr (flag AND BLOCK_FLAG_LAST_BLOCK \<noteq> 0)))"

subsection \<open>Block lists\<close>

record block_vec =
  bv_blocks :: "block_info list"
  bv_dict :: dictionary
  bv_error_major :: u32
  bv_error_minor :: u32
  bv_error_debug :: u32

definition block_vec_new :: block_vec where
  "block_vec_new =
     \<lparr>bv_blocks = [], bv_dict = dict_empty, bv_error_major = 0, bv_error_minor = 0,
      bv_error_debug = 0\<rparr>"

definition bv_append_block :: "nat \<Rightarrow> block_ref option \<Rightarrow> block_vec \<Rightarrow> block_vec" where
  "bv_append_block owner source v = v\<lparr>bv_blocks := bv_blocks v @ [block_new owner source]\<rparr>"

fun find_block_list :: "nat \<Rightarrow> block_info list \<Rightarrow> block_info option res" where
  "find_block_list t [] = Inr None"
| "find_block_list t (b # bs) =
     bindR (bi_type b) (\<lambda>bt.
       if bt = t \<or> bi_owner b = t then Inr (Some b) else find_block_list t bs)"

definition bv_find_block :: "byte \<Rightarrow> block_vec \<Rightarrow> block_info option res" where
  "bv_find_block t v = find_block_list (unat t) (bv_blocks v)"

subsection \<open>The block lists of a bundle, one per outgoing link\<close>

type_synonym 'l link_block_set = "('l \<times> block_vec) list"

fun lbs_find_blocks :: "'l \<Rightarrow> 'l link_block_set \<Rightarrow> block_vec option" where
  "lbs_find_blocks l [] = None"
| "lbs_find_blocks l ((k, v) # es) = (if k = l then Some v else lbs_find_blocks l es)"

definition lbs_create_blocks :: "'l \<Rightarrow> 'l link_block_set \<Rightarrow> 'l link_block_set res" where
  "lbs_create_blocks l es =
     bindR (assertR (lbs_find_blocks l es = None)) (\<lambda>_. Inr (es @ [(l, block_vec_new)]))"

fun lbs_delete_blocks :: "'l \<Rightarrow> 'l link_block_set \<Rightarrow> 'l link_block_set res" where
  "lbs_delete_blocks l [] = Inl PANIC"
| "lbs_delete_blocks l ((k, v) # es) =
     (if k = l then Inr es
      else bindR (lbs_delete_blocks l es) (\<lambda>es'. Inr ((k, v) # es')))"

subsection \<open>Lemmas\<close>

lemma scratch_ok_ge: "scratch_ok rsv \<Longrightarrow> cap \<le> rsv cap n" "scratch_ok rsv \<Longrightarrow> n \<le> rsv cap n"
  by (simp_all add: scratch_ok_def)

lemma scratch_ok_max: "scratch_ok max"
  by (simp add: scratch_ok_def)

lemma bi_reserve_simps [simp]:
  "bi_owner (bi_reserve rsv n b) = bi_owner b"
  "bi_source (bi_reserve rsv n b) = bi_source b"
  "bi_eid_list (bi_reserve rsv n b) = bi_eid_list b"
  "bi_contents (bi_reserve rsv n b) = bi_contents b"
  "bi_data_length (bi_reserve rsv n b) = bi_data_length b"
  "bi_data_offset (bi_reserve rsv n b) = bi_data_offset b"
  "bi_complete (bi_reserve rsv n b) = bi_complete b"
  "bi_reloaded (bi_reserve rsv n b) = bi_reloaded b"
  "bi_buf_len (bi_reserve rsv n b) = rsv (bi_buf_len b) n"
  by (simp_all add: bi_reserve_def)

lemma block_new_simps [simp]:
  "bi_owner (block_new t s) = t" "bi_source (block_new t s) = s"
  "bi_eid_list (block_new t s) = []" "bi_contents (block_new t s) = []"
  "bi_buf_len (block_new t s) = 64" "bi_data_length (block_new t s) = 0"
  "bi_data_offset (block_new t s) = 0" "bi_complete (block_new t s) = False"
  "bi_reloaded (block_new t s) = False"
  by (simp_all add: block_new_def SCRATCH_LEN_def)

lemma bi_type_nonempty:
  "bi_owner b \<noteq> PRIMARY_BLOCK \<Longrightarrow> bi_type b = Inr t \<Longrightarrow> bi_contents b \<noteq> [] \<Longrightarrow>
     t = unat (hd (bi_contents b))"
  by (auto simp: bi_type_def bindR_eq_Inr split: list.splits if_splits)

lemma bi_flags_preamble:
  assumes "bi_type b = Inr t" "t \<noteq> PRIMARY_BLOCK" "bi_contents b = c # sdnv_bytes f @ rest"
  shows "bi_flags b = Inr f"
  using assms by (simp add: bi_flags_def)

lemma lbs_find_append:
  "lbs_find_blocks l (es @ fs) =
     (case lbs_find_blocks l es of None \<Rightarrow> lbs_find_blocks l fs | Some v \<Rightarrow> Some v)"
  by (induction l es rule: lbs_find_blocks.induct) auto

lemma lbs_find_None: "lbs_find_blocks l es = None \<longleftrightarrow> l \<notin> fst ` set es"
  by (induction l es rule: lbs_find_blocks.induct) auto

lemma lbs_delete_subset: "lbs_delete_blocks l es = Inr es' \<Longrightarrow> set es' \<subseteq> set es"
  by (induction l es arbitrary: es' rule: lbs_delete_blocks.induct)
    (auto simp: bindR_eq_Inr split: if_splits)

lemma lbs_delete_keys:
  "lbs_delete_blocks l es = Inr es' \<Longrightarrow> k \<in> fst ` set es' \<Longrightarrow> k \<in> fst ` set es"
  using lbs_delete_subset by fast

lemma lbs_delete_ok:
  "distinct (map fst es) \<Longrightarrow> l \<in> fst ` set es \<Longrightarrow>
     \<exists>es'. lbs_delete_blocks l es = Inr es' \<and> distinct (map fst es') \<and>
       (\<forall>k. lbs_find_blocks k es' = (if k = l then None else lbs_find_blocks k es))"
proof (induction l es rule: lbs_delete_blocks.induct)
  case (2 l k v es)
  show ?case
  proof (cases "k = l")
    case True
    with 2 show ?thesis by (auto simp: lbs_find_None image_iff)
  next
    case False
    with 2 obtain es' where "lbs_delete_blocks l es = Inr es'" "distinct (map fst es')"
      "\<forall>k. lbs_find_blocks k es' = (if k = l then None else lbs_find_blocks k es)"
      by auto
    moreover from this have "k \<notin> fst ` set es'"
      using 2 lbs_delete_keys [of l es es'] by auto
    ultimately show ?thesis using False by auto
  qed
qed auto

end
