(* ===== verification/Payload.thy ===== *)
theory Payload
  imports DTN_Prelude
begin

text \<open>
  Bundle payloads: \<open>servlib/bundling/BundlePayload.h\<close> and \<open>BundlePayload.cc\<close>. A payload lives in
  memory or in a file. For a file the code remembers where it believes the descriptor stands
  (\<open>cur_offset_\<close>) and seeks only when that differs from the offset it wants; the record keeps
  both that cache and the real position of the descriptor, so that the two can disagree.

  The environment decides two things, given by the argument \<open>io\<close>: whether the descriptor cache
  still holds the file when it is pinned (\<open>io_hit\<close>; when it does not, the file is reopened), and
  what uninitialised memory contains (\<open>io_junk\<close>). System calls succeed; a read at or past the end
  of the file leaves the rest of the caller's buffer as it was.
\<close>

datatype location = MEMORY | DISK | NODATA

record payload =
  pl_location :: location
  pl_length :: nat
  pl_data :: bytes
  pl_pos :: nat
  pl_cur_offset :: nat

record payload_io =
  io_hit :: bool
  io_junk :: byte

definition payload_init :: "location \<Rightarrow> payload" where
  "payload_init loc =
     \<lparr>pl_location = loc, pl_length = 0, pl_data = [], pl_pos = 0, pl_cur_offset = 0\<rparr>"

text \<open>POSIX \<open>write\<close> at a position (a gap is filled with zeros), and resizing a memory buffer.\<close>

definition write_at :: "nat \<Rightarrow> bytes \<Rightarrow> bytes \<Rightarrow> bytes" where
  "write_at pos bs f =
     (if bs = [] then f
      else take pos (f @ replicate (pos - length f) 0) @ bs @ drop (pos + length bs) f)"

definition resize :: "byte \<Rightarrow> nat \<Rightarrow> bytes \<Rightarrow> bytes" where
  "resize junk n xs = take n xs @ replicate (n - length xs) junk"

definition overlay :: "bytes \<Rightarrow> bytes \<Rightarrow> bytes" where
  "overlay xs buf = xs @ drop (length xs) buf"

subsection \<open>Operations\<close>

definition pl_set_length :: "payload_io \<Rightarrow> nat \<Rightarrow> payload \<Rightarrow> payload" where
  "pl_set_length io n p =
     (let p' = p\<lparr>pl_length := n\<rparr>
      in if pl_location p = MEMORY then p'\<lparr>pl_data := resize (io_junk io) n (pl_data p)\<rparr> else p')"

definition pl_pin_file :: "payload_io \<Rightarrow> payload \<Rightarrow> payload" where
  "pl_pin_file io p =
     (if pl_location p \<noteq> DISK then p
      else if \<not> io_hit io then p\<lparr>pl_pos := 0, pl_cur_offset := 0\<rparr> else p)"

definition pl_truncate :: "payload_io \<Rightarrow> nat \<Rightarrow> payload \<Rightarrow> payload res" where
  "pl_truncate io n p =
     bindR (assertR (n \<le> pl_length p)) (\<lambda>_.
       let p' = p\<lparr>pl_length := n, pl_cur_offset := n\<rparr>
       in case pl_location p of
            MEMORY \<Rightarrow> Inr (p'\<lparr>pl_data := resize (io_junk io) n (pl_data p)\<rparr>)
          | DISK \<Rightarrow> Inr ((pl_pin_file io p')\<lparr>pl_data := resize 0 n (pl_data p)\<rparr>)
          | NODATA \<Rightarrow> Inl NOTREACHED)"

text \<open>\<open>copy_file\<close> returns what it copies to the destination.\<close>

definition pl_copy_file :: "payload_io \<Rightarrow> payload \<Rightarrow> (bytes \<times> payload) res" where
  "pl_copy_file io p =
     bindR (assertR (pl_location p = DISK)) (\<lambda>_.
       let p' = pl_pin_file io p; out = take (pl_length p) (pl_data p)
       in Inr (out, p'\<lparr>pl_pos := length out\<rparr>))"

text \<open>
  \<open>replace_with_file\<close> on success: the new file is either a hard link that was reopened or a copy
  that was written through the reopened descriptor (\<open>linked = False\<close>, another file system).
\<close>

definition pl_replace_with_file :: "bool \<Rightarrow> bytes \<Rightarrow> payload \<Rightarrow> payload res" where
  "pl_replace_with_file linked new p =
     bindR (assertR (pl_location p = DISK)) (\<lambda>_.
       Inr (p\<lparr>pl_data := new, pl_length := length new, pl_pos := (if linked then 0 else length new)\<rparr>))"

definition pl_internal_write :: "bytes \<Rightarrow> nat \<Rightarrow> payload \<Rightarrow> payload res" where
  "pl_internal_write bp offset p =
     bindR (assertR (offset + length bp \<le> pl_length p)) (\<lambda>_.
       case pl_location p of
         MEMORY \<Rightarrow> Inr (p\<lparr>pl_data := write_at offset bp (pl_data p)\<rparr>)
       | DISK \<Rightarrow>
           (let p1 = (if pl_cur_offset p \<noteq> offset
                      then p\<lparr>pl_pos := offset, pl_cur_offset := offset\<rparr> else p)
            in Inr (p1\<lparr>pl_data := write_at (pl_pos p1) bp (pl_data p1),
                       pl_pos := pl_pos p1 + length bp,
                       pl_cur_offset := pl_cur_offset p1 + length bp\<rparr>))
       | NODATA \<Rightarrow> Inl NOTREACHED)"

definition pl_write_data :: "payload_io \<Rightarrow> bytes \<Rightarrow> nat \<Rightarrow> payload \<Rightarrow> payload res" where
  "pl_write_data io bp offset p =
     bindR (assertR (length bp + offset \<le> pl_length p)) (\<lambda>_.
       pl_internal_write bp offset (pl_pin_file io p))"

definition pl_set_data :: "payload_io \<Rightarrow> bytes \<Rightarrow> payload \<Rightarrow> payload res" where
  "pl_set_data io bp p = pl_write_data io bp 0 (pl_set_length io (length bp) p)"

definition pl_append_data :: "payload_io \<Rightarrow> bytes \<Rightarrow> payload \<Rightarrow> payload res" where
  "pl_append_data io bp p =
     (let old_length = pl_length p; p' = pl_set_length io (pl_length p + length bp) p
      in pl_internal_write bp old_length (pl_pin_file io p'))"

text \<open>\<open>read_data\<close> into \<open>buf\<close>, whose length is the requested length: the bytes and the payload.\<close>

definition pl_read_data :: "payload_io \<Rightarrow> nat \<Rightarrow> bytes \<Rightarrow> payload \<Rightarrow> (bytes \<times> payload) res" where
  "pl_read_data io offset buf p =
     bindR (assertR (offset + length buf \<le> pl_length p)) (\<lambda>_.
       case pl_location p of
         MEMORY \<Rightarrow> Inr (overlay (take (length buf) (drop offset (pl_data p))) buf, p)
       | DISK \<Rightarrow>
           (let p1 = pl_pin_file io p;
                p2 = (if offset \<noteq> pl_cur_offset p1 then p1\<lparr>pl_pos := offset\<rparr> else p1);
                got = take (length buf) (drop (pl_pos p2) (pl_data p2))
            in Inr (overlay got buf,
                    p2\<lparr>pl_pos := pl_pos p2 + length got, pl_cur_offset := offset + length buf\<rparr>))
       | NODATA \<Rightarrow> Inl NOTREACHED)"

definition pl_write_from :: "payload_io \<Rightarrow> payload \<Rightarrow> nat \<Rightarrow> nat \<Rightarrow> nat \<Rightarrow> payload \<Rightarrow> (payload \<times> payload) res" where
  "pl_write_from io src src_offset len dst_offset p =
     bindR (assertR (dst_offset + len \<le> pl_length p)) (\<lambda>_.
     bindR (assertR (src_offset + len \<le> pl_length src)) (\<lambda>_.
     bindR (pl_read_data io src_offset (replicate len (io_junk io)) src) (\<lambda>(bp, src').
     bindR (pl_internal_write bp dst_offset (pl_pin_file io p)) (\<lambda>p'. Inr (p', src')))))"

subsection \<open>The invariant of the descriptor cache and the stored bytes\<close>

text \<open>
  \<open>pl_synced\<close>: the believed position is the real one. \<open>pl_filled n\<close>: the first \<open>n\<close> bytes have
  been written. \<open>pl_bytes\<close> is the payload a reader is entitled to.
\<close>

definition pl_synced :: "payload \<Rightarrow> bool" where
  "pl_synced p \<longleftrightarrow>
     (case pl_location p of
        MEMORY \<Rightarrow> length (pl_data p) = pl_length p
      | DISK \<Rightarrow> pl_cur_offset p = pl_pos p
      | NODATA \<Rightarrow> False)"

definition pl_whole :: "payload \<Rightarrow> bool" where
  "pl_whole p \<longleftrightarrow> pl_synced p \<and> pl_length p \<le> length (pl_data p)"

definition pl_bytes :: "payload \<Rightarrow> bytes" where
  "pl_bytes p = take (pl_length p) (pl_data p)"

subsection \<open>Lemmas\<close>

lemma write_at_append: "length f = n \<Longrightarrow> write_at n bs f = f @ bs"
  by (simp add: write_at_def)

lemma length_write_at [simp]:
  "pos + length bs \<le> length f \<Longrightarrow> length (write_at pos bs f) = length f"
  by (simp add: write_at_def)

lemma nth_write_at:
  "pos + length bs \<le> length f \<Longrightarrow> i < length f \<Longrightarrow>
     write_at pos bs f ! i = (if pos \<le> i \<and> i < pos + length bs then bs ! (i - pos) else f ! i)"
  by (auto simp: write_at_def nth_append)

lemma take_write_at:
  "pos + length bs \<le> n \<Longrightarrow> n \<le> length f \<Longrightarrow> take n (write_at pos bs f) = write_at pos bs (take n f)"
  by (rule nth_equalityI) (auto simp: nth_write_at)

lemma write_at_commute:
  "a + length xs \<le> b \<Longrightarrow> b + length ys \<le> length f \<Longrightarrow>
     write_at b ys (write_at a xs f) = write_at a xs (write_at b ys f)"
  by (rule nth_equalityI) (simp_all add: nth_write_at)

lemma write_at_same: "pos + length bs \<le> length f \<Longrightarrow> take (length bs) (drop pos (write_at pos bs f)) = bs"
  by (simp add: write_at_def)

lemma overlay_full [simp]: "length xs = length buf \<Longrightarrow> overlay xs buf = xs"
  by (simp add: overlay_def)

lemma pl_pin_simps [simp]:
  "pl_location (pl_pin_file io p) = pl_location p" "pl_length (pl_pin_file io p) = pl_length p"
  "pl_data (pl_pin_file io p) = pl_data p" "pl_bytes (pl_pin_file io p) = pl_bytes p"
  by (simp_all add: pl_pin_file_def pl_bytes_def)

lemma pl_synced_pin [simp]: "pl_synced p \<Longrightarrow> pl_synced (pl_pin_file io p)"
  by (auto simp: pl_synced_def pl_pin_file_def split: location.splits)

lemma pl_whole_pin [simp]: "pl_whole p \<Longrightarrow> pl_whole (pl_pin_file io p)"
  by (simp add: pl_whole_def)

lemma pl_whole_length: "pl_whole p \<Longrightarrow> length (pl_bytes p) = pl_length p"
  by (simp add: pl_whole_def pl_bytes_def)

lemma pl_internal_write_synced:
  assumes "pl_synced p" "offset + length bp \<le> pl_length p"
  shows "\<exists>p'. pl_internal_write bp offset p = Inr p' \<and> pl_synced p' \<and>
    pl_location p' = pl_location p \<and> pl_length p' = pl_length p \<and>
    pl_data p' = write_at offset bp (pl_data p)"
  using assms
  by (cases "pl_location p")
    (auto simp: pl_internal_write_def pl_synced_def Let_def)

lemma pl_write_data_whole:
  assumes "pl_whole p" "offset + length bp \<le> pl_length p"
  shows "\<exists>p'. pl_write_data io bp offset p = Inr p' \<and> pl_whole p' \<and> pl_length p' = pl_length p \<and>
    pl_location p' = pl_location p \<and> pl_bytes p' = write_at offset bp (pl_bytes p)"
proof -
  have "pl_synced (pl_pin_file io p)" using assms(1) by (simp add: pl_whole_def)
  from pl_internal_write_synced [OF this] assms(2) obtain p' where
    "pl_internal_write bp offset (pl_pin_file io p) = Inr p'" "pl_synced p'"
    "pl_location p' = pl_location p" "pl_length p' = pl_length p"
    "pl_data p' = write_at offset bp (pl_data p)" by auto
  with assms show ?thesis
    by (auto simp: pl_write_data_def pl_whole_def pl_bytes_def take_write_at add.commute)
qed

lemma pl_read_data_whole:
  assumes "pl_whole p" "offset + length buf \<le> pl_length p"
  shows "\<exists>p'. pl_read_data io offset buf p = Inr (take (length buf) (drop offset (pl_bytes p)), p') \<and>
    pl_whole p' \<and> pl_length p' = pl_length p \<and> pl_bytes p' = pl_bytes p"
proof -
  have d: "length (take (length buf) (drop offset (pl_data p))) = length buf"
    "take (length buf) (drop offset (pl_bytes p)) = take (length buf) (drop offset (pl_data p))"
    using assms by (auto simp: pl_whole_def pl_bytes_def drop_take min_def)
  have s: "pl_synced (pl_pin_file io p)" using assms(1) by (simp add: pl_whole_def)
  show ?thesis
  proof (cases "pl_location p")
    case MEMORY
    with d assms show ?thesis by (simp add: pl_read_data_def)
  next
    case DISK
    with d s assms show ?thesis
      by (auto simp: pl_read_data_def pl_whole_def pl_synced_def pl_bytes_def Let_def)
  next
    case NODATA
    with assms show ?thesis by (simp add: pl_whole_def pl_synced_def)
  qed
qed

lemma pl_grow_write:
  assumes "pl_whole p"
  shows "\<exists>p'. pl_internal_write bs (pl_length p) (pl_pin_file io (pl_set_length io (pl_length p + length bs) p))
      = Inr p' \<and> pl_synced p' \<and> pl_location p' = pl_location p \<and>
      pl_length p' = pl_length p + length bs \<and> pl_length p' \<le> length (pl_data p') \<and>
      pl_bytes p' = pl_bytes p @ bs"
proof -
  let ?p = "pl_pin_file io (pl_set_length io (pl_length p + length bs) p)"
  have l: "pl_length p \<le> length (pl_data p)" using assms by (simp add: pl_whole_def)
  have n: "pl_length ?p = pl_length p + length bs" "pl_location ?p = pl_location p"
    by (simp_all add: pl_set_length_def Let_def)
  have s: "pl_synced ?p" using assms
    by (intro pl_synced_pin)
      (auto simp: pl_whole_def pl_synced_def pl_set_length_def Let_def resize_def split: location.splits)
  have w: "take (pl_length p + length bs) (write_at (pl_length p) bs (pl_data ?p)) = pl_bytes p @ bs"
    "pl_length p + length bs \<le> length (write_at (pl_length p) bs (pl_data ?p)) \<or> bs = []"
    using l by (auto simp: write_at_def pl_set_length_def pl_bytes_def Let_def resize_def)
  have z: "bs = [] \<Longrightarrow> pl_length p \<le> length (write_at (pl_length p) bs (pl_data ?p))"
    using l by (simp add: write_at_def pl_set_length_def Let_def resize_def)
  from pl_internal_write_synced [OF s, of "pl_length p" bs] n w z show ?thesis
    by (auto simp: pl_bytes_def)
qed

lemma pl_append_data_whole:
  assumes "pl_whole p"
  shows "\<exists>p'. pl_append_data io bs p = Inr p' \<and> pl_whole p' \<and> pl_location p' = pl_location p \<and>
      pl_length p' = pl_length p + length bs \<and> pl_bytes p' = pl_bytes p @ bs"
  using pl_grow_write [OF assms, of bs io] by (auto simp: pl_append_data_def pl_whole_def Let_def)

lemma pl_extend_whole:
  assumes "pl_whole p"
  shows "\<exists>p'. pl_write_data io bs (pl_length p) (pl_set_length io (pl_length p + length bs) p) = Inr p' \<and>
      pl_whole p' \<and> pl_location p' = pl_location p \<and>
      pl_length p' = pl_length p + length bs \<and> pl_bytes p' = pl_bytes p @ bs"
proof -
  have "pl_length (pl_set_length io (pl_length p + length bs) p) = pl_length p + length bs"
    by (simp add: pl_set_length_def Let_def)
  with pl_grow_write [OF assms, of bs io] show ?thesis
    by (auto simp: pl_write_data_def pl_whole_def)
qed

lemma pl_whole_init: "loc \<noteq> NODATA \<Longrightarrow> pl_whole (payload_init loc) \<and> pl_bytes (payload_init loc) = []"
  by (cases loc) (auto simp: pl_whole_def pl_synced_def payload_init_def pl_bytes_def)

subsection \<open>The payload as a store of bytes\<close>

text \<open>
  What the clients of a payload rely on: writes inside the length succeed and change exactly
  the range they name, and reads return it. A sequence of writes that tile the store leaves the
  concatenation, which is how reassembly uses it.
\<close>

locale byte_store =
  fixes inv :: "'s \<Rightarrow> bool" and len :: "'s \<Rightarrow> nat" and abs :: "'s \<Rightarrow> bytes"
    and wr :: "bytes \<Rightarrow> nat \<Rightarrow> 's \<Rightarrow> 's res" and rd :: "nat \<Rightarrow> bytes \<Rightarrow> 's \<Rightarrow> (bytes \<times> 's) res"
  assumes inv_len: "inv s \<Longrightarrow> length (abs s) = len s"
    and wr_ok: "inv s \<Longrightarrow> off + length bs \<le> len s \<Longrightarrow>
      \<exists>s'. wr bs off s = Inr s' \<and> inv s' \<and> len s' = len s \<and> abs s' = write_at off bs (abs s)"
    and rd_ok: "inv s \<Longrightarrow> off + length buf \<le> len s \<Longrightarrow>
      \<exists>s'. rd off buf s = Inr (take (length buf) (drop off (abs s)), s') \<and> inv s' \<and>
        len s' = len s \<and> abs s' = abs s"
begin

lemma read_after_write:
  assumes "inv s" "off + length bs \<le> len s" "length buf = length bs"
  shows "\<exists>s' s''. wr bs off s = Inr s' \<and> rd off buf s' = Inr (bs, s'') \<and> inv s'' \<and> abs s'' = abs s'"
proof -
  from wr_ok [OF assms(1,2)] obtain s' where s': "wr bs off s = Inr s'" "inv s'" "len s' = len s"
    "abs s' = write_at off bs (abs s)" by blast
  moreover from s' assms have "off + length buf \<le> len s'" by simp
  ultimately show ?thesis
    using rd_ok [of s' off buf] write_at_same [of off bs "abs s"] assms inv_len [of s] by auto
qed

lemma write_commute:
  assumes "inv s" "off1 + length bs1 \<le> off2" "off2 + length bs2 \<le> len s"
  shows "\<exists>s1 s2 t1 t2. wr bs1 off1 s = Inr s1 \<and> wr bs2 off2 s1 = Inr s2 \<and>
    wr bs2 off2 s = Inr t1 \<and> wr bs1 off1 t1 = Inr t2 \<and> abs s2 = abs t2"
proof -
  have l: "off1 + length bs1 \<le> len s" using assms by simp
  from wr_ok [OF assms(1) l] obtain s1 where s1: "wr bs1 off1 s = Inr s1" "inv s1" "len s1 = len s"
    "abs s1 = write_at off1 bs1 (abs s)" by blast
  from wr_ok [OF assms(1,3)] obtain t1 where t1: "wr bs2 off2 s = Inr t1" "inv t1" "len t1 = len s"
    "abs t1 = write_at off2 bs2 (abs s)" by blast
  from wr_ok [of s1 off2 bs2] s1 assms obtain s2 where s2: "wr bs2 off2 s1 = Inr s2"
    "abs s2 = write_at off2 bs2 (abs s1)" by auto
  from wr_ok [of t1 off1 bs1] t1 l obtain t2 where t2: "wr bs1 off1 t1 = Inr t2"
    "abs t2 = write_at off1 bs1 (abs t1)" by auto
  have "write_at off2 bs2 (write_at off1 bs1 (abs s)) = write_at off1 bs1 (write_at off2 bs2 (abs s))"
    using assms inv_len [of s] by (simp add: write_at_commute)
  with s1 t1 s2 t2 show ?thesis by auto
qed

end

interpretation pl: byte_store pl_whole pl_length pl_bytes "pl_write_data io" "pl_read_data io"
  for io
proof
  show "length (pl_bytes s) = pl_length s" if "pl_whole s" for s
    using that by (rule pl_whole_length)
  show "\<exists>s'. pl_write_data io bs off s = Inr s' \<and> pl_whole s' \<and> pl_length s' = pl_length s \<and>
      pl_bytes s' = write_at off bs (pl_bytes s)"
    if "pl_whole s" "off + length bs \<le> pl_length s" for s off bs
    using pl_write_data_whole [OF that] by blast
  show "\<exists>s'. pl_read_data io off buf s = Inr (take (length buf) (drop off (pl_bytes s)), s') \<and>
      pl_whole s' \<and> pl_length s' = pl_length s \<and> pl_bytes s' = pl_bytes s"
    if "pl_whole s" "off + length buf \<le> pl_length s" for s off buf
    using pl_read_data_whole [OF that] by blast
qed

fun append_all :: "payload_io \<Rightarrow> bytes list \<Rightarrow> payload \<Rightarrow> payload res" where
  "append_all io [] p = Inr p"
| "append_all io (bs # bss) p = bindR (pl_append_data io bs p) (append_all io bss)"

lemma append_all_whole:
  "pl_whole p \<Longrightarrow> \<exists>p'. append_all io bss p = Inr p' \<and> pl_whole p' \<and>
     pl_bytes p' = pl_bytes p @ concat bss"
proof (induction bss arbitrary: p)
  case (Cons bs bss)
  from pl_append_data_whole [OF Cons.prems, of io bs] obtain p1 where
    "pl_append_data io bs p = Inr p1" "pl_whole p1" "pl_bytes p1 = pl_bytes p @ bs" by blast
  with Cons.IH [of p1] show ?case by auto
qed simp

subsection \<open>Properties\<close>

text \<open>
  C25: on a payload whose bytes are all present and whose descriptor cache is right, a write
  inside the length succeeds, changes exactly the named range, keeps the invariant, and a read
  of that range returns the bytes written, in memory and on disk, whether or not the
  descriptor had to be reopened.
\<close>

theorem payload_write_read:
  assumes "pl_whole p" "offset + length bs \<le> pl_length p" "length buf = length bs"
  shows "\<exists>p' p''. pl_write_data io bs offset p = Inr p' \<and> pl_whole p' \<and>
           pl_bytes p' = write_at offset bs (pl_bytes p) \<and>
           pl_read_data io' offset buf p' = Inr (bs, p'') \<and> pl_whole p'' \<and> pl_bytes p'' = pl_bytes p'"
proof -
  from pl.wr_ok [OF assms(1,2)] obtain p' where w: "pl_write_data io bs offset p = Inr p'"
    "pl_whole p'" "pl_length p' = pl_length p" "pl_bytes p' = write_at offset bs (pl_bytes p)" by blast
  with assms have r: "take (length buf) (drop offset (pl_bytes p')) = bs"
    by (simp add: write_at_same pl_whole_length)
  from w assms pl.rd_ok [of p' offset buf io'] r show ?thesis by auto
qed

theorem payload_write_read_witness:
  "\<exists>p' p''. pl_write_data \<lparr>io_hit = True, io_junk = 7\<rparr> [9, 8] 1
      \<lparr>pl_location = DISK, pl_length = 4, pl_data = [1, 2, 3, 4], pl_pos = 4, pl_cur_offset = 4\<rparr> = Inr p' \<and>
    pl_bytes p' = [1, 9, 8, 4] \<and>
    pl_read_data \<lparr>io_hit = False, io_junk = 7\<rparr> 1 [0, 0] p' = Inr ([9, 8], p'')"
proof -
  let ?p = "\<lparr>pl_location = DISK, pl_length = 4, pl_data = [1, 2, 3, 4], pl_pos = 4, pl_cur_offset = 4\<rparr> :: payload"
  have "pl_whole ?p" by (simp add: pl_whole_def pl_synced_def)
  moreover have "write_at 1 [9, 8] (pl_bytes ?p) = [1, 9, 8, 4]"
    by (simp add: write_at_def pl_bytes_def)
  ultimately show ?thesis
    using payload_write_read [of ?p 1 "[9, 8]" "[0, 0]" "\<lparr>io_hit = True, io_junk = 7\<rparr>"
        "\<lparr>io_hit = False, io_junk = 7\<rparr>"] by auto
qed

text \<open>
  From an empty payload in memory or on disk, any sequence of \<open>append_data\<close> calls succeeds
  and leaves exactly the concatenation of the appended pieces.
\<close>

theorem payload_append_concat:
  "loc \<noteq> NODATA \<Longrightarrow>
     \<exists>p'. append_all io bss (payload_init loc) = Inr p' \<and> pl_bytes p' = concat bss \<and>
       pl_length p' = length (concat bss)"
  using append_all_whole [of "payload_init loc" io bss] pl_whole_init [of loc]
  by (metis append_Nil pl_whole_length)

theorem payload_append_concat_witness:
  "\<exists>p'. append_all \<lparr>io_hit = True, io_junk = 7\<rparr> [[1, 2], [], [3]] (payload_init DISK) = Inr p' \<and>
     pl_bytes p' = [1, 2, 3] \<and> pl_length p' = 3"
  using payload_append_concat [of DISK "\<lparr>io_hit = True, io_junk = 7\<rparr>" "[[1, 2], [], [3]]"]
  by (simp add: eval_nat_numeral)

text \<open>
  \<open>truncate\<close> moves the believed position but not the descriptor. Appending to a payload file
  that was truncated below the position of its cached descriptor writes the new bytes at the old
  position: the payload then reads as zeros and a prefix of the new bytes, instead of the new
  bytes.
\<close>

theorem truncate_append_misplaced:
  assumes "pl_location p = DISK" "pl_whole p" "io_hit io" "n < pl_pos p" "n \<le> pl_length p" "bs \<noteq> []"
  shows "\<exists>p1 p2. pl_truncate io n p = Inr p1 \<and> pl_bytes p1 = take n (pl_bytes p) \<and>
    pl_append_data io bs p1 = Inr p2 \<and>
    pl_data p2 = take n (pl_bytes p) @ replicate (pl_pos p - n) 0 @ bs \<and>
    pl_length p2 = n + length bs"
proof -
  let ?p1 = "p\<lparr>pl_length := n, pl_cur_offset := n, pl_data := take n (pl_data p)\<rparr>"
  have t: "pl_truncate io n p = Inr ?p1"
    using assms by (simp add: pl_truncate_def pl_pin_file_def resize_def pl_whole_def Let_def)
  have b: "take n (pl_bytes p) = take n (pl_data p)" "length (take n (pl_data p)) = n"
    using assms by (auto simp: pl_bytes_def pl_whole_def min_def)
  have "pl_append_data io bs ?p1 =
    Inr (?p1\<lparr>pl_length := n + length bs, pl_pos := pl_pos p + length bs, pl_cur_offset := n + length bs,
      pl_data := take n (pl_data p) @ replicate (pl_pos p - n) 0 @ bs\<rparr>)"
    using assms b
    by (simp add: pl_append_data_def pl_set_length_def pl_pin_file_def pl_internal_write_def
        write_at_def Let_def)
  with t b show ?thesis by (auto simp: pl_bytes_def)
qed

theorem truncate_append_misplaced_witness:
  "\<exists>p1 p2. pl_truncate \<lparr>io_hit = True, io_junk = 7\<rparr> 1
      \<lparr>pl_location = DISK, pl_length = 3, pl_data = [1, 2, 3], pl_pos = 3, pl_cur_offset = 3\<rparr> = Inr p1 \<and>
    pl_append_data \<lparr>io_hit = True, io_junk = 7\<rparr> [9] p1 = Inr p2 \<and> pl_bytes p2 = [1, 0] \<and>
    pl_data p2 = [1, 0, 0, 9]"
proof -
  let ?p = "\<lparr>pl_location = DISK, pl_length = 3, pl_data = [1, 2, 3], pl_pos = 3, pl_cur_offset = 3\<rparr> :: payload"
  have "pl_whole ?p" by (simp add: pl_whole_def pl_synced_def)
  then obtain p1 p2 where "pl_truncate \<lparr>io_hit = True, io_junk = 7\<rparr> 1 ?p = Inr p1"
    "pl_append_data \<lparr>io_hit = True, io_junk = 7\<rparr> [9] p1 = Inr p2"
    "pl_data p2 = take 1 (pl_bytes ?p) @ replicate 2 0 @ [9]" "pl_length p2 = 2"
    using truncate_append_misplaced [of ?p "\<lparr>io_hit = True, io_junk = 7\<rparr>" 1 "[9]"] by auto
  then show ?thesis by (simp add: pl_bytes_def eval_nat_numeral)
qed

text \<open>
  \<open>replace_with_file\<close> across file systems copies through the payload's own descriptor and
  leaves it at the end of the file while \<open>cur_offset_\<close> still says 0. While the descriptor stays
  cached, the next read of the whole payload from offset 0 does not seek and returns nothing of
  the payload: the caller's buffer is unchanged. When the file was hard-linked instead, the same
  read returns the payload.
\<close>

theorem replace_with_file_read:
  "pl_replace_with_file linked new (payload_init DISK) = Inr p \<Longrightarrow> io_hit io \<Longrightarrow>
     length buf = length new \<Longrightarrow>
     \<exists>p'. pl_read_data io 0 buf p = Inr (if linked then new else buf, p')"
  by (auto simp: pl_replace_with_file_def payload_init_def pl_read_data_def pl_pin_file_def
      overlay_def Let_def)

theorem replace_with_file_read_witness:
  "(\<exists>p p'. pl_replace_with_file False [1, 2] (payload_init DISK) = Inr p \<and>
     pl_read_data \<lparr>io_hit = True, io_junk = 7\<rparr> 0 [5, 5] p = Inr ([5, 5], p')) \<and>
   (\<exists>p p'. pl_replace_with_file True [1, 2] (payload_init DISK) = Inr p \<and>
     pl_read_data \<lparr>io_hit = True, io_junk = 7\<rparr> 0 [5, 5] p = Inr ([1, 2], p'))"
proof -
  have e: "\<exists>p. pl_replace_with_file l [1, 2] (payload_init DISK) = Inr p" for l
    by (simp add: pl_replace_with_file_def payload_init_def)
  from e [of False] e [of True] obtain p q where
    pq: "pl_replace_with_file False [1, 2] (payload_init DISK) = Inr p"
    "pl_replace_with_file True [1, 2] (payload_init DISK) = Inr q" by blast
  from replace_with_file_read [OF pq(1), of "\<lparr>io_hit = True, io_junk = 7\<rparr>" "[5, 5]"]
    replace_with_file_read [OF pq(2), of "\<lparr>io_hit = True, io_junk = 7\<rparr>" "[5, 5]"] pq
  show ?thesis by auto
qed

end
