(* ===== verification/Timestamp.thy ===== *)
theory Timestamp
  imports SDNV
begin

text \<open>
  Bundle creation timestamps: \<open>servlib/bundling/BundleTimestamp.h\<close> and \<open>.cc\<close>, and the two-SDNV
  wire form of a timestamp in \<open>servlib/bundling/BundleProtocol.cc\<close>. A timestamp is a pair of
  64-bit numbers, ordered by seconds and then by sequence number; the order of the code is made
  the \<open>linorder\<close> of the type.
\<close>

datatype timestamp = Timestamp (seconds: u64) (seqno: u64)

definition ts_equal :: "timestamp \<Rightarrow> timestamp \<Rightarrow> bool" where
  "ts_equal a b \<longleftrightarrow> seconds a = seconds b \<and> seqno a = seqno b"

definition ts_less :: "timestamp \<Rightarrow> timestamp \<Rightarrow> bool" where
  "ts_less a b =
     (if seconds a < seconds b then True
      else if seconds a > seconds b then False
      else seqno a < seqno b)"

definition ts_greater :: "timestamp \<Rightarrow> timestamp \<Rightarrow> bool" where
  "ts_greater a b =
     (if seconds a > seconds b then True
      else if seconds a < seconds b then False
      else seqno a > seqno b)"

instantiation timestamp :: linorder
begin

definition less_timestamp :: "timestamp \<Rightarrow> timestamp \<Rightarrow> bool" where
  "less_timestamp a b = ts_less a b"

definition less_eq_timestamp :: "timestamp \<Rightarrow> timestamp \<Rightarrow> bool" where
  "less_eq_timestamp a b = (ts_less a b \<or> ts_equal a b)"

instance
  by standard
    (auto simp: less_timestamp_def less_eq_timestamp_def ts_less_def ts_equal_def
      intro: timestamp.expand split: if_splits)

end

subsection \<open>The clock\<close>

definition TIMEVAL_CONVERSION :: u32 where
  "TIMEVAL_CONVERSION = 946684800"

text \<open>
  The argument is \<open>now.tv_sec\<close> as a 64-bit number. The assertion looks at its low 32 bits; the
  subtraction is done at 64 bits and then returned as a \<open>u_int32_t\<close>.
\<close>

definition get_current_time :: "u64 \<Rightarrow> u32 res" where
  "get_current_time tv_sec =
     bindR (assertR (TIMEVAL_CONVERSION \<le> ucast tv_sec))
       (\<lambda>_. Inr (ucast (tv_sec - ucast TIMEVAL_CONVERSION)))"

definition check_local_clock :: "u64 \<Rightarrow> bool" where
  "check_local_clock tv_sec = (if (ucast tv_sec :: u32) < TIMEVAL_CONVERSION then False else True)"

subsection \<open>Wire format\<close>

text \<open>\<open>set_timestamp\<close>: the bytes written to a buffer of \<open>len\<close> bytes, \<open>None\<close> for -1.\<close>

definition set_timestamp :: "nat \<Rightarrow> timestamp \<Rightarrow> bytes option" where
  "set_timestamp len tv =
     (case sdnv_encode (seconds tv) len of
        None \<Rightarrow> None
      | Some sec_bytes \<Rightarrow>
          (case sdnv_encode (seqno tv) (len - length sec_bytes) of
             None \<Rightarrow> None
           | Some seqno_bytes \<Rightarrow> Some (sec_bytes @ seqno_bytes)))"

text \<open>
  \<open>get_timestamp\<close>: the updated \<open>*tv\<close> and the number of bytes read (\<open>None\<close> for -1). The seconds
  are stored before the sequence number is decoded.
\<close>

definition get_timestamp :: "timestamp \<Rightarrow> bytes \<Rightarrow> timestamp \<times> nat option" where
  "get_timestamp tv ts =
     (case sdnv_decode ts of
        (_, None) \<Rightarrow> (tv, None)
      | (tmp, Some sec_size) \<Rightarrow>
          (case sdnv_decode (drop sec_size ts) of
             (_, None) \<Rightarrow> (Timestamp tmp (seqno tv), None)
           | (tmp', Some seqno_size) \<Rightarrow> (Timestamp tmp tmp', Some (sec_size + seqno_size))))"

definition ts_encoding_len :: "timestamp \<Rightarrow> nat res" where
  "ts_encoding_len tv =
     bindR (sdnv_encoding_len (seconds tv)) (\<lambda>a.
     bindR (sdnv_encoding_len (seqno tv)) (\<lambda>b. Inr (a + b)))"

subsection \<open>Lemmas\<close>

definition ts_bytes :: "timestamp \<Rightarrow> bytes" where
  "ts_bytes tv = sdnv_bytes (seconds tv) @ sdnv_bytes (seqno tv)"

definition ts_len :: "timestamp \<Rightarrow> nat" where
  "ts_len tv = sdnv_val_len (seconds tv) + sdnv_val_len (seqno tv)"

lemma length_ts_bytes [simp]: "length (ts_bytes tv) = ts_len tv"
  by (simp add: ts_bytes_def ts_len_def)

lemma ts_len_pos [simp]: "0 < ts_len tv"
  by (simp add: ts_len_def)

lemma ts_encoding_len_eq [simp]: "ts_encoding_len tv = Inr (ts_len tv)"
  by (simp add: ts_encoding_len_def ts_len_def)

lemma set_timestamp_eq: "set_timestamp len tv = (if ts_len tv \<le> len then Some (ts_bytes tv) else None)"
  by (auto simp: set_timestamp_def sdnv_encode_eq ts_len_def ts_bytes_def)

lemma drop_sdnv_bytes: "drop (sdnv_val_len v) (sdnv_bytes v @ rest) = rest"
  by (metis drop_length_append length_sdnv_bytes)

lemma get_timestamp_bytes [simp]: "get_timestamp tv0 (ts_bytes tv @ rest) = (tv, Some (ts_len tv))"
  by (simp add: get_timestamp_def ts_bytes_def ts_len_def drop_sdnv_bytes)

lemma get_timestamp_consumed:
  "get_timestamp tv bs = (tv', Some n) \<Longrightarrow> 0 < n \<and> n \<le> length bs"
  using sdnv_decode_prefix
  by (fastforce simp: get_timestamp_def split: prod.splits option.splits)

subsection \<open>Properties\<close>

text \<open>
  A timestamp written by \<open>set_timestamp\<close> occupies exactly \<open>ts_encoding_len\<close> bytes and is
  read back unchanged by \<open>get_timestamp\<close>, whatever follows it in the buffer and whatever the
  target held before.
\<close>

theorem timestamp_roundtrip:
  "set_timestamp len tv = Some bs \<Longrightarrow>
     ts_encoding_len tv = Inr (length bs) \<and> get_timestamp tv0 (bs @ rest) = (tv, Some (length bs))"
  by (auto simp: set_timestamp_eq split: if_splits)

theorem timestamp_roundtrip_witness:
  "set_timestamp 20 (Timestamp 5 200) = Some [5, 0x81, 0x48] \<and>
   get_timestamp (Timestamp 0 0) ([5, 0x81, 0x48] @ [7]) = (Timestamp 5 200, Some (length [5, 0x81, 0x48 :: byte]))"
proof -
  have e: "set_timestamp 20 (Timestamp 5 200) = Some [5, 0x81, 0x48]"
    by (simp add: set_timestamp_def sdnv_encode_def sdnv_val_len.simps sdnv_fill.simps)
  show ?thesis using e timestamp_roundtrip [OF e, of "Timestamp 0 0" "[7]"] by blast
qed

text \<open>
  The clock conversion. From 1 January 2000 until the 32-bit epoch ends, \<open>get_current_time\<close>
  returns exactly the seconds since 2000 and \<open>check_local_clock\<close> agrees that the clock is usable;
  \<open>get_current_time\<close> aborts precisely when the low 32 bits of the clock are below the conversion
  constant, the case \<open>check_local_clock\<close> reports.
\<close>

theorem get_current_time_correct:
  "(get_current_time tv = Inl ASSERT \<longleftrightarrow> \<not> check_local_clock tv) \<and>
   (check_local_clock tv \<longleftrightarrow> 946684800 \<le> unat tv mod 2 ^ 32) \<and>
   (946684800 \<le> unat tv \<longrightarrow> unat tv < 2 ^ 32 \<longrightarrow>
      (\<exists>r. get_current_time tv = Inr r \<and> unat r = unat tv - 946684800))"
proof -
  have u: "unat (ucast tv :: u32) = unat tv mod 2 ^ 32"
    by (simp add: unsigned_ucast_eq take_bit_nat_def)
  have c: "check_local_clock tv \<longleftrightarrow> 946684800 \<le> unat tv mod 2 ^ 32"
    unfolding check_local_clock_def TIMEVAL_CONVERSION_def word_less_nat_alt u by auto
  have g: "get_current_time tv = Inl ASSERT \<longleftrightarrow> \<not> check_local_clock tv"
    by (auto simp: get_current_time_def check_local_clock_def assertR_def not_le)
  have "unat (ucast (tv - 946684800) :: u32) = unat tv - 946684800"
    if "946684800 \<le> unat tv" "unat tv < 2 ^ 32"
  proof -
    have "unat (tv - 946684800) = unat tv - 946684800"
      using that by (simp add: unat_sub word_le_nat_alt)
    then show ?thesis using that by (simp add: unsigned_ucast_eq take_bit_nat_def)
  qed
  with g c show ?thesis
    by (auto simp: get_current_time_def check_local_clock_def assertR_def not_le TIMEVAL_CONVERSION_def
        split: if_splits)
qed

theorem get_current_time_correct_witness:
  "check_local_clock 1000000000 \<and> \<not> check_local_clock 5 \<and>
   (\<exists>r. get_current_time 1000000000 = Inr r \<and> unat r = 53315200)"
  using get_current_time_correct [of 1000000000] get_current_time_correct [of 5] by simp

end
