(* ===== verification/SequenceID.thy ===== *)
theory SequenceID
  imports Endpoint
begin

text \<open>
  Sequence vectors: \<open>servlib/bundling/SequenceID.h\<close> and \<open>SequenceID.cc\<close>. A vector maps endpoints to
  counters or to identifiers; a missing entry counts as zero. The state table of
  \<open>compare_one_way\<close> is read with the indices the code computes, and an index outside a row of the
  table is the fault \<open>OOB\<close>.
\<close>

datatype seq_type = EMPTY | COUNTER | IDENTIFIER

datatype comp_t = LT | EQ | GT | NEQ | ILL

record seq_entry =
  se_eid :: eid
  se_type :: seq_type
  se_counter :: u64
  se_identifier :: bytes

type_synonym sequence_id = "seq_entry list"

definition seq_null_entry :: seq_entry where
  "seq_null_entry = \<lparr>se_eid = eid_default, se_type = EMPTY, se_counter = 0, se_identifier = []\<rparr>"

definition counter_entry :: "eid \<Rightarrow> u64 \<Rightarrow> seq_entry" where
  "counter_entry e c = \<lparr>se_eid = e, se_type = COUNTER, se_counter = c, se_identifier = []\<rparr>"

definition identifier_entry :: "eid \<Rightarrow> bytes \<Rightarrow> seq_entry" where
  "identifier_entry e s = \<lparr>se_eid = e, se_type = IDENTIFIER, se_counter = 0, se_identifier = s\<rparr>"

definition seq_add_counter :: "eid \<Rightarrow> u64 \<Rightarrow> sequence_id \<Rightarrow> sequence_id" where
  "seq_add_counter e c v = v @ [counter_entry e c]"

definition seq_add_identifier :: "eid \<Rightarrow> bytes \<Rightarrow> sequence_id \<Rightarrow> sequence_id" where
  "seq_add_identifier e s v = v @ [identifier_entry e s]"

fun get_entry :: "sequence_id \<Rightarrow> eid \<Rightarrow> seq_entry" where
  "get_entry [] e = seq_null_entry"
| "get_entry (x # xs) e = (if eid_equals (se_eid x) e then x else get_entry xs e)"

definition get_counter :: "sequence_id \<Rightarrow> eid \<Rightarrow> u64" where
  "get_counter v e = se_counter (get_entry v e)"

definition get_identifier :: "sequence_id \<Rightarrow> eid \<Rightarrow> bytes" where
  "get_identifier v e = se_identifier (get_entry v e)"

subsection \<open>Comparison\<close>

definition compare_entries :: "seq_entry \<Rightarrow> seq_entry \<Rightarrow> comp_t" where
  "compare_entries left right =
     (if se_type left = COUNTER \<or> se_type left = EMPTY then
        (if se_type right = IDENTIFIER then NEQ
         else if se_counter left = se_counter right then EQ
         else if se_counter left < se_counter right then LT
         else GT)
      else if se_type right \<noteq> IDENTIFIER then NEQ
      else if se_identifier left \<noteq> se_identifier right then NEQ
      else EQ)"

text \<open>The enumeration values plus one, as the code uses them to index the table.\<close>

fun comp_index :: "comp_t \<Rightarrow> nat" where
  "comp_index LT = 0" | "comp_index EQ = 1" | "comp_index GT = 2" | "comp_index NEQ = 3" | "comp_index ILL = 1000"

definition states :: "comp_t list list" where
  "states = [[LT, LT, NEQ], [LT, EQ, GT], [NEQ, GT, GT], [NEQ, NEQ, NEQ]]"

definition next_state :: "comp_t \<Rightarrow> comp_t \<Rightarrow> comp_t res" where
  "next_state cur_state cur_comp =
     (if comp_index cur_state < 4 \<and> comp_index cur_comp < 3
      then Inr (states ! comp_index cur_state ! comp_index cur_comp) else Inl OOB)"

fun compare_loop :: "sequence_id \<Rightarrow> sequence_id \<Rightarrow> seq_entry list \<Rightarrow> comp_t \<Rightarrow> comp_t res" where
  "compare_loop lv rv [] cur_state = Inr cur_state"
| "compare_loop lv rv (i # is) cur_state =
     bindR (next_state cur_state (compare_entries (get_entry lv (se_eid i)) (get_entry rv (se_eid i)))) (\<lambda>s.
       if s = NEQ then Inr NEQ else compare_loop lv rv is s)"

definition compare_one_way :: "sequence_id \<Rightarrow> sequence_id \<Rightarrow> comp_t \<Rightarrow> comp_t res" where
  "compare_one_way lv rv cur_state = compare_loop lv rv lv cur_state"

definition seq_compare :: "sequence_id \<Rightarrow> sequence_id \<Rightarrow> comp_t res" where
  "seq_compare v other =
     (if v = [] \<and> other = [] then Inr EQ
      else
        bindR (compare_one_way other v EQ) (\<lambda>s.
        bindR (assertR (s \<noteq> ILL)) (\<lambda>_.
          if s \<noteq> NEQ
          then compare_one_way v other (case s of LT \<Rightarrow> GT | GT \<Rightarrow> LT | _ \<Rightarrow> EQ)
          else Inr s)))"

definition seq_le :: "sequence_id \<Rightarrow> sequence_id \<Rightarrow> bool res" where
  "seq_le v other = bindR (seq_compare v other) (\<lambda>c. Inr (c = LT \<or> c = EQ))"

subsection \<open>Update\<close>

fun seq_find :: "eid \<Rightarrow> sequence_id \<Rightarrow> nat option" where
  "seq_find e [] = None"
| "seq_find e (x # xs) = (if eid_equals e (se_eid x) then Some 0 else map_option Suc (seq_find e xs))"

definition update_entry :: "seq_entry \<Rightarrow> sequence_id \<Rightarrow> sequence_id res" where
  "update_entry other_entry v =
     (case seq_find (se_eid other_entry) v of
        None \<Rightarrow>
          (case se_type other_entry of
             COUNTER \<Rightarrow> Inr (seq_add_counter (se_eid other_entry) (se_counter other_entry) v)
           | IDENTIFIER \<Rightarrow> Inr (seq_add_identifier (se_eid other_entry) (se_identifier other_entry) v)
           | EMPTY \<Rightarrow> Inl NOTREACHED)
      | Some k \<Rightarrow>
          let my_entry = v ! k
          in if se_type other_entry \<noteq> se_type my_entry then Inl PANIC
             else if se_type other_entry = COUNTER \<and> se_counter other_entry > se_counter my_entry
             then Inr (v[k := my_entry\<lparr>se_counter := se_counter other_entry\<rparr>])
             else if se_type other_entry = IDENTIFIER \<and> se_identifier other_entry \<noteq> se_identifier my_entry
             then Inr (v[k := my_entry\<lparr>se_identifier := se_identifier other_entry\<rparr>])
             else Inr v)"

fun seq_update :: "sequence_id \<Rightarrow> sequence_id \<Rightarrow> sequence_id res" where
  "seq_update v [] = Inr v"
| "seq_update v (x # xs) = bindR (update_entry x v) (\<lambda>v'. seq_update v' xs)"

subsection \<open>Lemmas\<close>

definition counters_only :: "sequence_id \<Rightarrow> bool" where
  "counters_only v \<longleftrightarrow> list_all (\<lambda>x. se_type x = COUNTER) v"

text \<open>
  A comparison state says which strict inequalities have been seen; the state table adds one
  comparison to it.
\<close>

definition seen :: "bool \<Rightarrow> bool \<Rightarrow> comp_t" where
  "seen l g = (if l then if g then NEQ else LT else if g then GT else EQ)"

lemma seen_pointwise:
  fixes f g :: "'a \<Rightarrow> u64"
  shows "seen (\<exists>e. f e < g e) (\<exists>e. g e < f e) =
    (if \<forall>e. f e = g e then EQ else if \<forall>e. f e \<le> g e then LT else if \<forall>e. g e \<le> f e then GT else NEQ)"
proof -
  have "(\<exists>e. f e < g e) \<longleftrightarrow> \<not> (\<forall>e. g e \<le> f e)" "(\<exists>e. g e < f e) \<longleftrightarrow> \<not> (\<forall>e. f e \<le> g e)"
    "(\<forall>e. f e = g e) \<longleftrightarrow> (\<forall>e. f e \<le> g e) \<and> (\<forall>e. g e \<le> f e)"
    by (auto simp: not_le order.eq_iff)
  then show ?thesis unfolding seen_def by argo
qed

lemma get_entry_type: "counters_only v \<Longrightarrow> se_type (get_entry v e) \<noteq> IDENTIFIER"
  by (induction v) (auto simp: counters_only_def seq_null_entry_def)

lemma compare_counters:
  assumes "counters_only v" "counters_only w"
  shows "compare_entries (get_entry v e) (get_entry w e) =
    seen (get_counter v e < get_counter w e) (get_counter w e < get_counter v e)"
  using get_entry_type [OF assms(1), of e] get_entry_type [OF assms(2), of e]
  by (cases "se_type (get_entry v e)") (auto simp: compare_entries_def seen_def get_counter_def)

lemma next_state_seen:
  "\<not> (l' \<and> g') \<Longrightarrow> next_state (seen l g) (seen l' g') = Inr (seen (l \<or> l') (g \<or> g'))"
  by (simp add: next_state_def seen_def states_def)

lemma seen_eq_NEQ [simp]: "seen l g = NEQ \<longleftrightarrow> l \<and> g" "seen l g \<noteq> ILL"
  by (simp_all add: seen_def)

lemma compare_loop_counters:
  assumes "counters_only v" "counters_only w"
  shows "compare_loop v w xs (seen l g) =
    Inr (seen (l \<or> (\<exists>x \<in> set xs. get_counter v (se_eid x) < get_counter w (se_eid x)))
              (g \<or> (\<exists>x \<in> set xs. get_counter w (se_eid x) < get_counter v (se_eid x))))"
proof (induction xs arbitrary: l g)
  case (Cons x xs)
  let ?l = "get_counter v (se_eid x) < get_counter w (se_eid x)" and ?g = "get_counter w (se_eid x) < get_counter v (se_eid x)"
  have "next_state (seen l g) (compare_entries (get_entry v (se_eid x)) (get_entry w (se_eid x))) =
      Inr (seen (l \<or> ?l) (g \<or> ?g))"
    unfolding compare_counters [OF assms] by (rule next_state_seen) auto
  then show ?case using Cons [of "l \<or> ?l" "g \<or> ?g"] by (auto simp: seen_def)
qed simp

lemma get_counter_absent:
  "\<forall>x \<in> set v. \<not> eid_equals (se_eid x) e \<Longrightarrow> get_counter v e = 0"
  by (induction v) (simp_all add: get_counter_def seq_null_entry_def)

lemma get_entry_cong: "eid_equals a b \<Longrightarrow> get_entry v a = get_entry v b"
  by (induction v) (auto simp: eid_equals_def)

lemma counter_differs:
  assumes "\<And>a. \<not> P a a"
  shows "(\<exists>e. P (get_counter v e) (get_counter w e)) \<longleftrightarrow>
    (\<exists>x \<in> set w \<union> set v. P (get_counter v (se_eid x)) (get_counter w (se_eid x)))"
proof (intro iffI; elim exE bexE)
  fix e assume p: "P (get_counter v e) (get_counter w e)"
  then have "\<exists>x \<in> set w \<union> set v. eid_equals (se_eid x) e"
    using get_counter_absent [of v e] get_counter_absent [of w e] assms by (metis UnCI)
  then obtain x where x: "x \<in> set w \<union> set v" "eid_equals (se_eid x) e" by blast
  then have "get_counter u (se_eid x) = get_counter u e" for u
    using get_entry_cong by (simp add: get_counter_def)
  with p x(1) show "\<exists>x \<in> set w \<union> set v. P (get_counter v (se_eid x)) (get_counter w (se_eid x))"
    by (intro bexI [of _ x]) simp_all
qed blast

lemma seq_compare_counters:
  assumes "counters_only v" "counters_only w"
  shows "seq_compare v w = Inr (seen (\<exists>e. get_counter v e < get_counter w e) (\<exists>e. get_counter w e < get_counter v e))"
proof -
  let ?l = "\<lambda>xs. \<exists>x \<in> set xs. get_counter v (se_eid x) < get_counter w (se_eid x)"
  let ?g = "\<lambda>xs. \<exists>x \<in> set xs. get_counter w (se_eid x) < get_counter v (se_eid x)"
  have ex: "(\<exists>e. get_counter v e < get_counter w e) \<longleftrightarrow> ?l w \<or> ?l v"
    "(\<exists>e. get_counter w e < get_counter v e) \<longleftrightarrow> ?g w \<or> ?g v"
    using counter_differs [of "(<)" v w] counter_differs [of "(>)" v w] by auto
  have e: "EQ = seen False False" and i: "(case seen l g of LT \<Rightarrow> GT | GT \<Rightarrow> LT | _ \<Rightarrow> EQ) = seen g l" if "\<not> (l \<and> g)" for l g
    using that by (auto simp: seen_def)
  show ?thesis
  proof (cases "v = [] \<and> w = []")
    case True
    then show ?thesis by (simp add: seq_compare_def seen_def)
  next
    case False
    have one: "compare_one_way w v EQ = Inr (seen (?g w) (?l w))"
      using compare_loop_counters [OF assms(2,1), of w False False] by (simp add: compare_one_way_def seen_def)
    show ?thesis
    proof (cases "?g w \<and> ?l w")
      case True
      with one False ex show ?thesis by (auto simp: seq_compare_def seen_def)
    next
      case n: False
      have "compare_one_way v w (seen (?l w) (?g w)) = Inr (seen (?l w \<or> ?l v) (?g w \<or> ?g v))"
        using compare_loop_counters [OF assms, of v "?l w" "?g w"] by (simp add: compare_one_way_def)
      with one n False i [of "?g w" "?l w"] show ?thesis
        unfolding ex by (auto simp: seq_compare_def)
    qed
  qed
qed

lemma seq_find_get:
  "seq_find e v = None \<Longrightarrow> \<forall>x \<in> set v. \<not> eid_equals (se_eid x) e"
  "seq_find e v = Some k \<Longrightarrow> k < length v \<and> get_entry v e = v ! k \<and> eid_equals (se_eid (v ! k)) e"
  by (induction v arbitrary: k) (auto simp: eid_equals_def split: if_splits)

lemma get_entry_append:
  "get_entry (v @ [x]) e = (if \<exists>y \<in> set v. eid_equals (se_eid y) e then get_entry v e else get_entry [x] e)"
  by (induction v) auto

lemma get_entry_update:
  assumes "seq_find e v = Some k" "se_eid y = se_eid (v ! k)"
  shows "get_entry (v[k := y]) d = (if eid_equals e d then y else get_entry v d)"
  using assms
proof (induction v arbitrary: k)
  case (Cons x v)
  show ?case
  proof (cases "eid_equals e (se_eid x)")
    case True
    with Cons.prems show ?thesis by (auto simp: eid_equals_def)
  next
    case False
    with Cons.prems obtain j where j: "k = Suc j" "seq_find e v = Some j" by auto
    with Cons False show ?thesis by (auto simp: eid_equals_def)
  qed
qed simp

text \<open>One step of the update raises one counter.\<close>

lemma update_entry_counter:
  assumes "counters_only v" "se_type x = COUNTER"
  shows "\<exists>v'. update_entry x v = Inr v' \<and> counters_only v' \<and>
    (\<forall>e. get_counter v' e = (if eid_equals (se_eid x) e then max (get_counter v e) (se_counter x) else get_counter v e))"
proof (cases "seq_find (se_eid x) v")
  case None
  note absent = seq_find_get(1) [OF None]
  have "get_counter (seq_add_counter (se_eid x) (se_counter x) v) e =
      (if eid_equals (se_eid x) e then max (get_counter v e) (se_counter x) else get_counter v e)" for e
  proof (cases "eid_equals (se_eid x) e")
    case True
    then have "\<forall>y \<in> set v. \<not> eid_equals (se_eid y) e" using absent by (auto simp: eid_equals_def)
    with True get_counter_absent [OF this] show ?thesis
      by (simp add: seq_add_counter_def get_counter_def get_entry_append counter_entry_def)
  next
    case False
    then show ?thesis using get_counter_absent [of v e]
      by (auto simp: seq_add_counter_def get_counter_def get_entry_append counter_entry_def seq_null_entry_def)
  qed
  with None assms show ?thesis
    by (auto simp: update_entry_def counters_only_def seq_add_counter_def counter_entry_def)
next
  case (Some k)
  note k = seq_find_get(2) [OF Some]
  let ?y = "(v ! k)\<lparr>se_counter := se_counter x\<rparr>"
  have t: "se_type (v ! k) = COUNTER" using assms(1) k by (simp add: counters_only_def list_all_length)
  show ?thesis
  proof (cases "se_counter x > se_counter (v ! k)")
    case True
    have "counters_only (v[k := ?y])"
      using assms(1) t by (auto simp: counters_only_def list_all_iff dest!: set_update_subset_insert [THEN subsetD])
    moreover have "get_counter (v[k := ?y]) e =
        (if eid_equals (se_eid x) e then max (get_counter v e) (se_counter x) else get_counter v e)" for e
      using get_entry_update [OF Some, of ?y e] get_entry_cong [of "se_eid x" e v] k True
      by (cases "eid_equals (se_eid x) e") (simp_all add: get_counter_def max.absorb2 order.strict_implies_order)
    ultimately show ?thesis using Some assms(2) t True by (simp add: update_entry_def)
  next
    case False
    have "eid_equals (se_eid x) e \<Longrightarrow> get_counter v e = se_counter (v ! k)" for e
      using get_entry_cong [of "se_eid x" e v] k by (simp add: get_counter_def)
    with False assms Some t show ?thesis by (auto simp: update_entry_def max_def)
  qed
qed

lemma seq_update_counters:
  "counters_only v \<Longrightarrow> counters_only w \<Longrightarrow> distinct (map (\<lambda>x. eid_str (se_eid x)) w) \<Longrightarrow>
     \<exists>u. seq_update v w = Inr u \<and> counters_only u \<and> (\<forall>e. get_counter u e = max (get_counter v e) (get_counter w e))"
proof (induction w arbitrary: v)
  case Nil
  then show ?case by (auto simp: get_counter_def seq_null_entry_def)
next
  case (Cons x w)
  from Cons.prems have x: "se_type x = COUNTER" "counters_only w" "distinct (map (\<lambda>x. eid_str (se_eid x)) w)"
    by (simp_all add: counters_only_def)
  from update_entry_counter [OF Cons.prems(1) x(1)] obtain v' where
    v': "update_entry x v = Inr v'" "counters_only v'"
      "\<forall>e. get_counter v' e = (if eid_equals (se_eid x) e then max (get_counter v e) (se_counter x) else get_counter v e)"
    by blast
  from Cons.IH [OF v'(2) x(2,3)] obtain u where
    u: "seq_update v' w = Inr u" "counters_only u" "\<forall>e. get_counter u e = max (get_counter v' e) (get_counter w e)" by blast
  have "get_counter u e = max (get_counter v e) (get_counter (x # w) e)" for e
  proof (cases "eid_equals (se_eid x) e")
    case True
    then have "\<forall>y \<in> set w. \<not> eid_equals (se_eid y) e" using Cons.prems(3) by (force simp: eid_equals_def)
    from get_counter_absent [OF this] True u v' show ?thesis by (simp add: get_counter_def)
  next
    case False
    then show ?thesis using u v' by (simp add: get_counter_def)
  qed
  with u v' show ?case by auto
qed

subsection \<open>Properties\<close>

text \<open>
  C22: the comparison of two vectors of counters is the componentwise order. For every endpoint an
  absent entry counts as zero; \<open>compare\<close> answers \<open>EQ\<close> when all counters agree, \<open>LT\<close> (\<open>GT\<close>) when
  none is greater (smaller) and one is smaller (greater), and \<open>NEQ\<close> when both kinds occur. The
  two passes over the vectors and the state table never leave the table.
\<close>

theorem seq_compare_correct:
  assumes "counters_only v" "counters_only w"
  shows "seq_compare v w = Inr
    (if \<forall>e. get_counter v e = get_counter w e then EQ
     else if \<forall>e. get_counter v e \<le> get_counter w e then LT
     else if \<forall>e. get_counter w e \<le> get_counter v e then GT
     else NEQ)"
  unfolding seq_compare_counters [OF assms] seen_pointwise by (rule refl)

theorem seq_compare_correct_witness:
  "seq_compare [counter_entry eid_default 3] [] = Inr GT"
proof -
  have "counters_only [counter_entry eid_default 3]" "counters_only []"
    by (simp_all add: counters_only_def counter_entry_def)
  moreover have c: "get_counter [counter_entry eid_default 3] e = (if eid_equals eid_default e then 3 else 0)" "get_counter [] e = 0" for e
    by (simp_all add: get_counter_def counter_entry_def seq_null_entry_def)
  moreover have "eid_equals eid_default eid_default" by (simp add: eid_equals_def)
  ultimately show ?thesis using seq_compare_correct [of "[counter_entry eid_default 3]" "[]"] by (auto split: if_splits)
qed

text \<open>
  \<open>update\<close> is the least upper bound of two vectors of counters. It passes its type check, the
  counter of every endpoint becomes the greater of the two, and the comparison function of the
  code agrees: the result is at least each argument.
\<close>

theorem seq_update_max:
  assumes "counters_only v" "counters_only w" "distinct (map (\<lambda>x. eid_str (se_eid x)) w)"
  shows "\<exists>u. seq_update v w = Inr u \<and> counters_only u \<and>
     (\<forall>e. get_counter u e = max (get_counter v e) (get_counter w e)) \<and>
     seq_le v u = Inr True \<and> seq_le w u = Inr True"
proof -
  from seq_update_counters [OF assms] obtain u where u: "seq_update v w = Inr u" "counters_only u"
    "\<forall>e. get_counter u e = max (get_counter v e) (get_counter w e)" by blast
  have "seq_le x u = Inr True" if "counters_only x" "\<forall>e. get_counter x e \<le> get_counter u e" for x
    using seq_compare_counters [OF that(1) u(2)] that(2) unfolding seen_pointwise seq_le_def by auto
  with u assms show ?thesis by auto
qed

theorem seq_update_max_witness:
  "\<exists>u. seq_update [counter_entry eid_default 3] [counter_entry eid_default 5] = Inr u \<and> get_counter u eid_default = 5"
proof -
  have c: "counters_only [counter_entry eid_default n]" "get_counter [counter_entry eid_default n] eid_default = n" for n
    by (simp_all add: counters_only_def counter_entry_def get_counter_def eid_equals_def)
  obtain u where "seq_update [counter_entry eid_default 3] [counter_entry eid_default 5] = Inr u"
    "get_counter u eid_default = max 3 5"
    using seq_update_max [OF c(1) [of 3] c(1) [of 5]] c(2) by auto
  then show ?thesis by (simp add: max_def word_le_nat_alt)
qed

text \<open>
  Two vectors with different identifiers for an endpoint index the state table outside its
  rows. A comparison result \<open>NEQ\<close> is used as a column, and the rows have columns only for
  \<open>LT\<close>, \<open>EQ\<close> and \<open>GT\<close>.
\<close>

theorem seq_compare_identifiers_oob:
  assumes "x \<noteq> y"
  shows "seq_compare [identifier_entry e x] [identifier_entry e y] = Inl OOB"
  using assms
  by (simp add: seq_compare_def compare_one_way_def identifier_entry_def compare_entries_def eid_equals_def next_state_def)

theorem seq_compare_identifiers_oob_witness:
  "seq_compare [identifier_entry eid_default [1]] [identifier_entry eid_default [2]] = Inl OOB"
  by (rule seq_compare_identifiers_oob) simp

end
