(* ===== verification/Bundle.thy ===== *)
theory Bundle
  imports BlockInfo Payload Timestamp SequenceID
begin

text \<open>
  The bundle object: the data members of \<open>servlib/bundling/Bundle.h\<close> that the modelled code reads
  or writes, its initialisation and the copy of its metadata in \<open>Bundle.cc\<close>. The clock and the next bundle
  identifier are arguments of the initialisation.
\<close>

record dtn_bundle =
  b_bundleid :: u32
  b_is_fragment :: bool
  b_is_admin :: bool
  b_do_not_fragment :: bool
  b_in_datastore :: bool
  b_custody_requested :: bool
  b_local_custody :: bool
  b_singleton_dest :: bool
  b_priority :: byte
  b_receive_rcpt :: bool
  b_custody_rcpt :: bool
  b_forward_rcpt :: bool
  b_delivery_rcpt :: bool
  b_deletion_rcpt :: bool
  b_app_acked_rcpt :: bool
  b_orig_length :: u32
  b_frag_offset :: u32
  b_expiration :: u64
  b_creation_ts :: timestamp
  b_extended_id :: timestamp
  b_age :: u64
  b_owner :: bytes
  b_session_flags :: byte
  b_session_eid :: eid
  b_sequence_id :: sequence_id
  b_obsoletes_id :: sequence_id
  b_source :: eid
  b_dest :: eid
  b_custodian :: eid
  b_replyto :: eid
  b_prevhop :: eid
  b_fragmented_incoming :: bool
  b_freed :: bool
  b_payload :: payload
  b_recv_blocks :: block_vec
  b_api_blocks :: block_vec

definition COS_BULK :: byte where "COS_BULK = 0"
definition COS_NORMAL :: byte where "COS_NORMAL = 1"
definition COS_EXPEDITED :: byte where "COS_EXPEDITED = 2"

definition bundle_init :: "u64 \<Rightarrow> u32 \<Rightarrow> location \<Rightarrow> dtn_bundle res" where
  "bundle_init tv_sec bid loc =
     bindR (get_current_time tv_sec) (\<lambda>now.
       let ts = Timestamp (ucast now) (ucast bid)
       in Inr \<lparr>b_bundleid = bid, b_is_fragment = False, b_is_admin = False,
            b_do_not_fragment = False, b_in_datastore = False, b_custody_requested = False,
            b_local_custody = False, b_singleton_dest = True, b_priority = COS_NORMAL,
            b_receive_rcpt = False, b_custody_rcpt = False, b_forward_rcpt = False,
            b_delivery_rcpt = False, b_deletion_rcpt = False, b_app_acked_rcpt = False,
            b_orig_length = 0, b_frag_offset = 0, b_expiration = 0, b_creation_ts = ts,
            b_extended_id = ts, b_age = 0, b_owner = [], b_session_flags = 0, b_session_eid = eid_default, b_sequence_id = [], b_obsoletes_id = [],
            b_source = eid_default, b_dest = eid_default, b_custodian = eid_default,
            b_replyto = eid_default, b_prevhop = eid_default,
            b_fragmented_incoming = False, b_freed = False, b_payload = payload_init loc,
            b_recv_blocks = block_vec_new, b_api_blocks = block_vec_new\<rparr>)"

definition copy_metadata :: "dtn_bundle \<Rightarrow> dtn_bundle \<Rightarrow> dtn_bundle" where
  "copy_metadata b new_bundle = new_bundle\<lparr>
     b_is_admin := b_is_admin b,
     b_is_fragment := b_is_fragment b,
     b_do_not_fragment := b_do_not_fragment b,
     b_source := b_source b,
     b_dest := b_dest b,
     b_custodian := b_custodian b,
     b_replyto := b_replyto b,
     b_priority := b_priority b,
     b_custody_requested := b_custody_requested b,
     b_local_custody := False,
     b_singleton_dest := b_singleton_dest b,
     b_custody_rcpt := b_custody_rcpt b,
     b_receive_rcpt := b_receive_rcpt b,
     b_forward_rcpt := b_forward_rcpt b,
     b_delivery_rcpt := b_delivery_rcpt b,
     b_deletion_rcpt := b_deletion_rcpt b,
     b_app_acked_rcpt := b_app_acked_rcpt b,
     b_creation_ts := b_creation_ts b,
     b_expiration := b_expiration b,
     b_age := b_age b\<rparr>"

definition receipt_requested :: "dtn_bundle \<Rightarrow> bool" where
  "receipt_requested b \<longleftrightarrow>
     b_receive_rcpt b \<or> b_custody_rcpt b \<or> b_forward_rcpt b \<or> b_delivery_rcpt b \<or> b_deletion_rcpt b"

end
