(* ===== verification/BlockProcessor.thy ===== *)
theory BlockProcessor
  imports Bundle
begin

text \<open>
  The generic block processor: \<open>servlib/bundling/BlockProcessor.cc\<close>. Parsing and generating the
  preamble every block but the primary has (type byte, flags, endpoint references, length),
  consuming a block that arrives in pieces, producing it again, and the generic checks.

  \<open>int\<close> results of the code are integers; a negative result is the error of a handler. The
  receiving functions return the updated block. Where the code reads through a pointer before
  the start of its buffer the result is \<open>OOB\<close>.
\<close>

lemma sdnv_decode_shorter:
  "(v, Some n) = sdnv_decode (drop off buf) \<Longrightarrow> length buf - (off + n + m) < length buf - off"
  using sdnv_decode_prefix [of "drop off buf" v n] by auto

subsection \<open>consume_preamble\<close>

definition PREAMBLE_FIXED_LENGTH :: nat where
  "PREAMBLE_FIXED_LENGTH = 1"

text \<open>
  The loop over the endpoint references. \<open>i\<close> is the 32-bit loop counter, compared with the
  64-bit count. \<open>None\<close> is a partial preamble.
\<close>

function preamble_eids ::
  "naming \<Rightarrow> dictionary \<Rightarrow> u64 \<Rightarrow> bytes \<Rightarrow> u32 \<Rightarrow> nat \<Rightarrow> eid list \<Rightarrow> (eid list \<times> nat) option res"
where
  "preamble_eids nm dict eid_ref_count buf i buf_offset eid_list =
     (if ucast i < eid_ref_count then
        (case sdnv_decode (drop buf_offset buf) of
           (_, None) \<Rightarrow> Inr None
         | (scheme_offset, Some n1) \<Rightarrow>
             (case sdnv_decode (drop (buf_offset + n1) buf) of
                (_, None) \<Rightarrow> Inr None
              | (ssp_offset, Some n2) \<Rightarrow>
                  (case extract_eid nm dict eid_default scheme_offset ssp_offset of
                     Inl f \<Rightarrow> Inl f
                   | Inr (eid, _) \<Rightarrow>
                       preamble_eids nm dict eid_ref_count buf (i + 1) (buf_offset + n1 + n2)
                         (eid_list @ [eid]))))
      else Inr (Some (eid_list, buf_offset)))"
  by pat_completeness auto
termination
proof (relation "measure (\<lambda>(nm, dict, c, buf, i, off, l). length buf - off)", goal_cases)
  case 1
  show ?case by simp
next
  case 2
  then show ?case
    by (simp del: not_less) (metis length_drop sdnv_decode_shorter)
qed

declare preamble_eids.simps [simp del]

text \<open>
  Decoding the buffered bytes: what was found, and \<open>*flagp\<close> when the flags were decoded.
\<close>

datatype preamble =
  PreamblePartial
| PreambleOverflow
| PreambleDone (pre_eids: "eid list") (pre_length: u64) (pre_offset: nat)

definition parse_preamble :: "naming \<Rightarrow> dictionary \<Rightarrow> eid list \<Rightarrow> bytes \<Rightarrow> (u64 option \<times> preamble) res" where
  "parse_preamble nm dict block_eids buf =
     (if length buf \<le> PREAMBLE_FIXED_LENGTH then Inr (None, PreamblePartial)
      else case sdnv_decode (drop PREAMBLE_FIXED_LENGTH buf) of
        (_, None) \<Rightarrow> Inr (None, PreamblePartial)
      | (flags, Some n) \<Rightarrow>
          bindR (assertR (block_eids = [])) (\<lambda>_.
          let off = PREAMBLE_FIXED_LENGTH + n;
              eids = (if flags AND BLOCK_FLAG_EID_REFS \<noteq> 0 then
                        (case sdnv_decode (drop off buf) of
                           (_, None) \<Rightarrow> Inr None
                         | (eid_ref_count, Some m) \<Rightarrow>
                             preamble_eids nm dict eid_ref_count buf 0 (off + m) [])
                      else Inr (Some ([], off)))
          in bindR eids (\<lambda>r. case r of
               None \<Rightarrow> Inr (Some flags, PreamblePartial)
             | Some (eid_list, off') \<Rightarrow>
                 (case sdnv_decode (drop off' buf) of
                    (_, None) \<Rightarrow> Inr (Some flags, PreamblePartial)
                  | (block_len, Some k) \<Rightarrow>
                      if block_len > 0xFFFFFFFF then Inr (Some flags, PreambleOverflow)
                      else Inr (Some flags, PreambleDone eid_list block_len (off' + k))))))"

definition consume_preamble ::
  "(nat \<Rightarrow> nat \<Rightarrow> nat) \<Rightarrow> naming \<Rightarrow> dictionary \<Rightarrow> block_info \<Rightarrow> bytes \<Rightarrow>
     (int \<times> u64 option \<times> block_info) res"
where
  "consume_preamble rsv nm dict block buf =
     bindR (assertR (\<not> bi_complete block)) (\<lambda>_.
     bindR (assertR (bi_data_offset block = 0)) (\<lambda>_.
       let len = length buf;
           block = (if bi_buf_len block - length (bi_contents block) = 0
                    then bi_reserve rsv (length (bi_contents block) + 64) block else block);
           max_preamble = bi_buf_len block;
           prev_consumed = length (bi_contents block);
           tocopy = min len (max_preamble - prev_consumed)
       in
       bindR (assertR (max_preamble > prev_consumed)) (\<lambda>_.
         let contents = bi_contents block @ take tocopy buf;
             block = block\<lparr>bi_contents := contents\<rparr>
         in
         bindR (parse_preamble nm dict (bi_eid_list block) contents) (\<lambda>(flagp, r).
           case r of
             PreamblePartial \<Rightarrow>
               bindR (assertR (tocopy = len)) (\<lambda>_. Inr (int len, flagp, block))
           | PreambleOverflow \<Rightarrow> Inr (- 1, flagp, block)
           | PreambleDone eid_list block_len buf_offset \<Rightarrow>
               Inr (int buf_offset - int prev_consumed, flagp,
                    block\<lparr>bi_data_length := ucast block_len,
                          bi_data_offset := of_nat buf_offset,
                          bi_contents := take buf_offset contents,
                          bi_eid_list := eid_list\<rparr>)))))"

subsection \<open>generate_preamble\<close>

text \<open>
  One \<open>SDNV::encode\<close> into the work buffer, followed by \<open>ptr += sdnv_len; len -= sdnv_len\<close>. The
  result of a failed encoding is -1, so that the pointer moves back over the last byte.
\<close>

definition work_sdnv :: "u64 \<Rightarrow> bytes \<times> nat \<Rightarrow> bytes \<times> nat" where
  "work_sdnv v w =
     (case sdnv_encode v (snd w) of
        Some bs \<Rightarrow> (fst w @ bs, snd w - length bs)
      | None \<Rightarrow> (butlast (fst w), snd w + 1))"

fun preamble_work :: "eid list \<Rightarrow> dictionary \<Rightarrow> bytes \<times> nat \<Rightarrow> nat \<Rightarrow> ((bytes \<times> nat) \<times> dictionary) res" where
  "preamble_work [] dict w ssp0 = Inr (w, dict)"
| "preamble_work (e # es) dict w ssp0 =
     bindR (dict_add_eid dict e) (\<lambda>dict1.
     bindR (dict_get_offsets dict1 e ssp0) (\<lambda>(_, scheme_offset, ssp_offset).
       preamble_work es dict1
         (work_sdnv (of_nat ssp_offset) (work_sdnv (of_nat scheme_offset) w)) ssp_offset))"

definition WORK_LEN :: nat where
  "WORK_LEN = 1000"

text \<open>
  The result is the block and the dictionary. The final contents are the type byte, the flags,
  the endpoint references and the length; \<open>data_length\<close> is cut to 32 bits when it is stored.
\<close>

definition generate_preamble ::
  "dictionary \<Rightarrow> block_info \<Rightarrow> byte \<Rightarrow> u64 \<Rightarrow> u64 \<Rightarrow> (block_info \<times> dictionary) res"
where
  "generate_preamble dict block t flags data_length =
     (let eid_count = length (bi_eid_list block);
          flags = (if eid_count > 0 then flags OR BLOCK_FLAG_EID_REFS else flags)
      in
      bindR (if eid_count > 0
             then preamble_work (bi_eid_list block) dict (work_sdnv (of_nat eid_count) ([], WORK_LEN)) 0
             else Inr (([], WORK_LEN), dict)) (\<lambda>((work, _), dict').
      bindR (sdnv_encoding_len flags) (\<lambda>flag_sdnv_len.
      bindR (sdnv_encoding_len data_length) (\<lambda>length_sdnv_len.
      bindR (assertR (bi_contents block = [])) (\<lambda>_.
        let offset = PREAMBLE_FIXED_LENGTH + flag_sdnv_len + length work + length_sdnv_len
        in
        bindR (assertR (bi_buf_len block \<ge> offset)) (\<lambda>_.
          case (sdnv_encode flags flag_sdnv_len, sdnv_encode data_length length_sdnv_len) of
            (Some fb, Some lb) \<Rightarrow>
              Inr (block\<lparr>bi_contents := t # fb @ work @ lb,
                         bi_data_length := ucast data_length,
                         bi_data_offset := of_nat offset\<rparr>, dict')
          | _ \<Rightarrow> Inl ASSERT))))))"

subsection \<open>The other handlers of the base class\<close>

text \<open>
  \<open>consume\<close>: the size of the remainder is a 32-bit length minus a buffer length, computed in
  64 bits.
\<close>

definition block_consume_data ::
  "(nat \<Rightarrow> nat \<Rightarrow> nat) \<Rightarrow> block_info \<Rightarrow> bytes \<Rightarrow> int \<Rightarrow> (int \<times> block_info) res"
where
  "block_consume_data rsv block buf consumed =
     bindR (assertR (bi_data_length block = 0 \<or>
                     unat (bi_full_length block) > length (bi_contents block))) (\<lambda>_.
       let block = bi_reserve rsv (unat (bi_full_length block)) block;
           rcvd = length (bi_contents block);
           remainder = unat (ucast (bi_full_length block) - of_nat rcvd :: u64);
           block' = (if length buf \<ge> remainder then block\<lparr>bi_complete := True\<rparr> else block);
           tocopy = (if length buf \<ge> remainder then remainder else length buf)
       in Inr (consumed + int tocopy,
               block'\<lparr>bi_contents := bi_contents block @ take tocopy buf\<rparr>))"

definition block_consume ::
  "(nat \<Rightarrow> nat \<Rightarrow> nat) \<Rightarrow> naming \<Rightarrow> dictionary \<Rightarrow> block_info \<Rightarrow> bytes \<Rightarrow> (int \<times> block_info) res"
where
  "block_consume rsv nm dict block buf =
     bindR (assertR (\<not> bi_complete block)) (\<lambda>_.
     bindR (if bi_data_offset block = 0 then consume_preamble rsv nm dict block buf
            else Inr (0, None, block)) (\<lambda>(cc, _, block).
       if cc = - 1 then Inr (- 1, block)
       else if cc < 0 then Inl OOB
       else
         let buf = drop (nat cc) buf
         in
         bindR (if bi_data_offset block = 0 then assertR (buf = []) else Inr ()) (\<lambda>_.
           let block = (if bi_data_offset block \<noteq> 0 \<and> bi_data_length block = 0
                        then block\<lparr>bi_complete := True\<rparr> else block)
           in if buf = [] then Inr (cc, block)
              else block_consume_data rsv block buf cc)))"

definition block_validate :: "bool \<Rightarrow> block_info \<Rightarrow> bool res" where
  "block_validate is_admin block =
     (if \<not> is_admin then Inr True
      else bindR (bi_type block) (\<lambda>t.
        if t = PRIMARY_BLOCK then Inr True
        else bindR (bi_flags block) (\<lambda>flags.
          Inr (flags AND BLOCK_FLAG_REPORT_ONERROR = 0))))"

definition block_reload_post_process :: "block_info \<Rightarrow> block_info" where
  "block_reload_post_process block = block\<lparr>bi_reloaded := True\<rparr>"

datatype list_owner = LIST_NONE | LIST_RECEIVED | LIST_API | LIST_EXT | LIST_XMIT

definition block_prepare :: "nat \<Rightarrow> block_ref option \<Rightarrow> list_owner \<Rightarrow> block_vec \<Rightarrow> block_vec res" where
  "block_prepare owner source lst xmit_blocks =
     (if lst = LIST_RECEIVED then Inr (bv_append_block owner source xmit_blocks)
      else case bv_blocks xmit_blocks of
        [] \<Rightarrow> Inl OOB
      | b # bs \<Rightarrow>
          bindR (bi_type b) (\<lambda>t.
          bindR (assertR (t = PRIMARY_BLOCK)) (\<lambda>_.
            Inr (xmit_blocks\<lparr>bv_blocks := b # block_new owner source # bs\<rparr>))))"

definition block_finalize :: "bool \<Rightarrow> block_info \<Rightarrow> unit res" where
  "block_finalize is_admin block =
     (if \<not> is_admin then Inr ()
      else bindR (bi_type block) (\<lambda>t.
        if t = PRIMARY_BLOCK then Inr ()
        else bindR (bi_flags block) (\<lambda>flags.
          assertR (flags AND BLOCK_FLAG_REPORT_ONERROR = 0))))"

definition block_produce :: "block_info \<Rightarrow> nat \<Rightarrow> nat \<Rightarrow> bytes res" where
  "block_produce block offset len =
     bindR (assertR (offset < length (bi_contents block))) (\<lambda>_.
     bindR (assertR (length (bi_contents block) \<ge> offset + len)) (\<lambda>_.
       Inr (take len (drop offset (bi_contents block)))))"

text \<open>
  \<open>process\<close>: the bytes of the target block that the callback is given.
\<close>

definition block_process :: "block_info \<Rightarrow> nat \<Rightarrow> nat \<Rightarrow> bytes res" where
  "block_process target_block offset len =
     bindR (assertR (offset < length (bi_contents target_block))) (\<lambda>_.
     bindR (assertR (length (bi_contents target_block) \<ge> offset + len)) (\<lambda>_.
       Inr (take len (drop offset (bi_contents target_block)))))"

text \<open>
  \<open>init_block\<close>: the data is copied behind the preamble. The buffer is set to the (32-bit)
  full length, while the copy uses \<open>len\<close>: when they differ the copy runs past the buffer.
\<close>

definition init_block ::
  "(nat \<Rightarrow> nat \<Rightarrow> nat) \<Rightarrow> dictionary \<Rightarrow> block_info \<Rightarrow> byte \<Rightarrow> byte \<Rightarrow> bytes \<Rightarrow>
     (block_info \<times> dictionary) res"
where
  "init_block rsv dict block t flags bp =
     bindR (generate_preamble dict block t (ucast flags) (of_nat (length bp))) (\<lambda>(block, dict').
     bindR (assertR (bi_data_offset block \<noteq> 0)) (\<lambda>_.
       let block = bi_reserve rsv (unat (bi_full_length block)) block
       in if unat (bi_full_length block) = unat (bi_data_offset block) + length bp
          then Inr (block\<lparr>bi_contents := bi_contents block @ bp\<rparr>, dict')
          else Inl OOB))"

subsection \<open>The preamble as bytes\<close>

text \<open>
  The wire form: the references of a list of identifiers under a dictionary, and the whole
  preamble.
\<close>

definition eid_ref :: "dictionary \<Rightarrow> eid \<Rightarrow> bytes" where
  "eid_ref d e =
     sdnv_bytes (of_nat (the (dict_find d (eid_scheme e)))) @
     sdnv_bytes (of_nat (the (dict_find d (eid_ssp e))))"

definition eid_refs :: "dictionary \<Rightarrow> eid list \<Rightarrow> bytes" where
  "eid_refs d es = concat (map (eid_ref d) es)"

definition dict_knows :: "dictionary \<Rightarrow> eid \<Rightarrow> bool" where
  "dict_knows d e \<longleftrightarrow> dict_find d (eid_scheme e) \<noteq> None \<and> dict_find d (eid_ssp e) \<noteq> None"

definition eid_field :: "dictionary \<Rightarrow> eid list \<Rightarrow> bytes" where
  "eid_field d es = (if es = [] then [] else sdnv_bytes (of_nat (length es)) @ eid_refs d es)"

definition preamble_flags :: "eid list \<Rightarrow> u64 \<Rightarrow> u64" where
  "preamble_flags es flags = (if es = [] then flags else flags OR BLOCK_FLAG_EID_REFS)"

definition preamble_bytes :: "dictionary \<Rightarrow> eid list \<Rightarrow> byte \<Rightarrow> u64 \<Rightarrow> u64 \<Rightarrow> bytes" where
  "preamble_bytes d es t flags n =
     t # sdnv_bytes (preamble_flags es flags) @ eid_field d es @ sdnv_bytes n"

definition dict_rx :: "dictionary \<Rightarrow> dictionary" where
  "dict_rx d = \<lparr>dict_buf = dict_buf d, dict_cap = length (dict_buf d), dict_alloc = True\<rparr>"

subsection \<open>Lemmas: generating\<close>

lemma eid_refs_simps [simp]:
  "eid_refs d [] = []" "eid_refs d (e # es) = eid_ref d e @ eid_refs d es"
  by (simp_all add: eid_refs_def)

lemma work_sdnv_fits:
  "sdnv_val_len v \<le> k \<Longrightarrow> work_sdnv v (w, k) = (w @ sdnv_bytes v, k - sdnv_val_len v)"
  by (simp add: work_sdnv_def sdnv_encode_eq)

lemma dict_find_stable:
  assumes "dict_invar d" "0 \<notin> set s" "\<forall>t \<in> set ss. 0 \<notin> set t" "dict_find d s = Some k"
  shows "dict_find (foldl dict_add d ss) s = Some k"
  using dict.offset_fold_stable [OF assms(1,3), of s k] assms by simp

lemma dict_find_added:
  assumes "dict_invar d" "0 \<notin> set s"
  obtains k where "dict_find (dict_add d s) s = Some k"
  using dict.offset_add [OF assms] assms by auto

lemma eid_parts_Cons [simp]:
  "eid_parts [] = []" "eid_parts (e # es) = eid_scheme e # eid_ssp e # eid_parts es"
  by (simp_all add: eid_parts_def)

lemma eid_parts_clean: "\<forall>e \<in> set es. eid_clean e \<Longrightarrow> \<forall>s \<in> set (eid_parts es). 0 \<notin> set s"
  by (auto simp: eid_parts_def eid_clean_def)

lemma dict_add_eid_known:
  assumes "dict_invar d" "eid_clean e"
  obtains d1 k1 k2 where "dict_add_eid d e = Inr d1" "d1 = foldl dict_add d (eid_parts [e])"
    "dict_invar d1" "dict_find d1 (eid_scheme e) = Some k1" "dict_find d1 (eid_ssp e) = Some k2"
proof -
  let ?d1 = "dict_add (dict_add d (eid_scheme e)) (eid_ssp e)"
  have c: "0 \<notin> set (eid_scheme e)" "0 \<notin> set (eid_ssp e)" using assms by (auto simp: eid_clean_def)
  have i: "dict_invar (dict_add d (eid_scheme e))" by (rule dict.invar_add [OF assms(1) c(1)])
  obtain k1 where k: "dict_find (dict_add d (eid_scheme e)) (eid_scheme e) = Some k1"
    by (rule dict_find_added [OF assms(1) c(1)])
  obtain k2 where k2: "dict_find ?d1 (eid_ssp e) = Some k2" by (rule dict_find_added [OF i c(2)])
  have k1: "dict_find ?d1 (eid_scheme e) = Some k1"
    using dict_find_stable [OF i c(1), of "[eid_ssp e]"] c k by simp
  have i1: "dict_invar ?d1" by (rule dict.invar_add [OF i c(2)])
  have p: "?d1 = foldl dict_add d (eid_parts [e])" by simp
  show ?thesis by (rule that [OF dict_add_eid_eq [OF assms] p i1 k1 k2])
qed

lemma preamble_work_eq:
  "dict_invar d \<Longrightarrow> \<forall>e \<in> set es. eid_clean e \<Longrightarrow> d' = foldl dict_add d (eid_parts es) \<Longrightarrow>
     length (eid_refs d' es) \<le> k \<Longrightarrow>
     preamble_work es d (w, k) s0 = Inr ((w @ eid_refs d' es, k - length (eid_refs d' es)), d')"
proof (induction es arbitrary: d w k s0)
  case (Cons e es)
  from Cons.prems(2) have c: "eid_clean e" "\<forall>x \<in> set es. eid_clean x" by auto
  from dict_add_eid_known [OF Cons.prems(1) c(1)] obtain d1 k1 k2 where
    d1: "dict_add_eid d e = Inr d1" "d1 = foldl dict_add d (eid_parts [e])" "dict_invar d1"
    and k: "dict_find d1 (eid_scheme e) = Some k1" "dict_find d1 (eid_ssp e) = Some k2" by metis
  have d': "d' = foldl dict_add d1 (eid_parts es)" using Cons.prems(3) d1(2) by simp
  have n: "0 \<notin> set (eid_scheme e)" "0 \<notin> set (eid_ssp e)" using c(1) by (auto simp: eid_clean_def)
  have s: "dict_find d' (eid_scheme e) = Some k1" "dict_find d' (eid_ssp e) = Some k2"
    unfolding d' using dict_find_stable [OF d1(3) _ eid_parts_clean [OF c(2)]] k n by auto
  then have r: "eid_ref d' e = sdnv_bytes (of_nat k1) @ sdnv_bytes (of_nat k2)"
    by (simp add: eid_ref_def)
  show ?case
    using Cons.prems(4) Cons.IH [OF d1(3) c(2) d'] r d1(1) dict_get_offsets_find [OF k]
    by (simp add: work_sdnv_fits)
qed simp

lemma dict_knows_added:
  assumes "dict_invar d" "\<forall>e \<in> set es. eid_clean e" "e \<in> set es"
  shows "dict_knows (foldl dict_add d (eid_parts es)) e"
proof -
  have "eid_scheme e \<in> set (eid_parts es)" "eid_ssp e \<in> set (eid_parts es)"
    using assms(3) by (auto simp: eid_parts_def)
  then show ?thesis
    using dict.offset_fold [OF assms(1) eid_parts_clean [OF assms(2)]] assms(2,3)
    by (force simp: dict_knows_def eid_clean_def)
qed

lemma generate_preamble_eq:
  fixes d d' es
  assumes "dict_invar d" "\<forall>e \<in> set es. eid_clean e" "d' = foldl dict_add d (eid_parts es)"
    and "bi_eid_list b = es" "bi_contents b = []"
    and "length (preamble_bytes d' es t flags n) \<le> bi_buf_len b"
    and "length (eid_field d' es) \<le> WORK_LEN"
  shows "generate_preamble d b t flags n =
    Inr (b\<lparr>bi_contents := preamble_bytes d' es t flags n, bi_data_length := ucast n,
           bi_data_offset := of_nat (length (preamble_bytes d' es t flags n))\<rparr>, d')"
proof -
  have w: "(if length es > 0
             then preamble_work es d (work_sdnv (of_nat (length es)) ([], WORK_LEN)) 0
             else Inr (([], WORK_LEN), d)) = Inr ((eid_field d' es, WORK_LEN - length (eid_field d' es)), d')"
    using assms preamble_work_eq [OF assms(1,2,3)]
    by (cases "es = []") (auto simp: eid_field_def work_sdnv_fits)
  show ?thesis
    using w assms
    by (auto simp: generate_preamble_def preamble_bytes_def preamble_flags_def Let_def sdnv_encode_eq
        PREAMBLE_FIXED_LENGTH_def add_ac)
qed

subsection \<open>Lemmas: parsing\<close>

lemma dict_knows_bound:
  assumes "dict_invar d" "eid_clean e" "dict_knows d e" "length (dict_buf d) < 2 ^ 32"
  obtains k1 k2 where "dict_find d (eid_scheme e) = Some k1" "dict_find d (eid_ssp e) = Some k2"
    "eid_ref d e = sdnv_bytes (of_nat k1) @ sdnv_bytes (of_nat k2)"
  using assms that by (auto simp: dict_knows_def eid_ref_def)

lemma preamble_eids_parse:
  "dict_invar d \<Longrightarrow> length (dict_buf d) < 2 ^ 32 \<Longrightarrow> \<forall>e \<in> set es. eid_ok nm e \<and> dict_knows d e \<Longrightarrow>
     unat cnt = unat i + length es \<Longrightarrow> unat i + length es < 2 ^ 32 \<Longrightarrow>
     drop off buf = eid_refs d es @ rest \<Longrightarrow>
     preamble_eids nm (dict_rx d) cnt buf i off acc = Inr (Some (acc @ es, off + length (eid_refs d es)))"
proof (induction es arbitrary: i off acc)
  case Nil
  then have "\<not> ucast i < cnt" by (simp add: word_less_nat_alt)
  then show ?case by (simp add: preamble_eids.simps)
next
  case (Cons e es)
  have e: "eid_ok nm e" "dict_knows d e" using Cons.prems by auto
  obtain k1 k2 where k: "dict_find d (eid_scheme e) = Some k1" "dict_find d (eid_ssp e) = Some k2"
    and r: "eid_ref d e = sdnv_bytes (of_nat k1) @ sdnv_bytes (of_nat k2)"
    using dict_knows_bound [OF Cons.prems(1) eid_ok_clean [OF e(1)] e(2) Cons.prems(2)] by metis
  have lt: "ucast i < cnt" using Cons.prems(4) by (simp add: word_less_nat_alt)
  have i1: "unat (i + 1) = unat i + 1" using Cons.prems(5) by (simp add: unat_word_ariths)
  have d2: "drop (off + sdnv_val_len (of_nat k1)) buf = sdnv_bytes (of_nat k2) @ eid_refs d es @ rest"
    by (rule drop_advance [of off buf "sdnv_bytes (of_nat k1)"]) (use Cons.prems(6) r in simp_all)
  have d3: "drop (off + sdnv_val_len (of_nat k1) + sdnv_val_len (of_nat k2)) buf = eid_refs d es @ rest"
    by (rule drop_advance [OF d2]) simp
  have ex: "extract_eid nm (dict_rx d) eid_default (of_nat k1) (of_nat k2) = Inr (e, True)"
    unfolding dict_rx_def by (rule extract_eid_received [OF Cons.prems(1) e(1) Cons.prems(2) k])
  have "preamble_eids nm (dict_rx d) cnt buf i off acc =
    preamble_eids nm (dict_rx d) cnt buf (i + 1) (off + sdnv_val_len (of_nat k1) + sdnv_val_len (of_nat k2)) (acc @ [e])"
    by (subst preamble_eids.simps) (use Cons.prems(6) r lt d2 ex in simp)
  also have "\<dots> = Inr (Some ((acc @ [e]) @ es, off + sdnv_val_len (of_nat k1) + sdnv_val_len (of_nat k2) + length (eid_refs d es)))"
    by (rule Cons.IH) (use Cons.prems i1 d3 in auto)
  finally show ?case using r by (simp add: add_ac)
qed

lemma eid_refs_bit: "(flags OR BLOCK_FLAG_EID_REFS) AND BLOCK_FLAG_EID_REFS \<noteq> 0"
  by (simp add: or_and_absorb BLOCK_FLAG_EID_REFS_def)

lemma parse_preamble_bytes:
  assumes "dict_invar d" "length (dict_buf d) < 2 ^ 32" "\<forall>e \<in> set es. eid_ok nm e \<and> dict_knows d e"
    and "length es < 2 ^ 32" and "es = [] \<Longrightarrow> flags AND BLOCK_FLAG_EID_REFS = 0" and "n \<le> 0xFFFFFFFF"
  shows "parse_preamble nm (dict_rx d) [] (preamble_bytes d es t flags n @ rest) =
    Inr (Some (preamble_flags es flags), PreambleDone es n (length (preamble_bytes d es t flags n)))"
proof -
  let ?f = "preamble_flags es flags" and ?buf = "preamble_bytes d es t flags n @ rest"
  have d1: "drop 1 ?buf = sdnv_bytes ?f @ eid_field d es @ sdnv_bytes n @ rest"
    by (simp add: preamble_bytes_def)
  have d2: "drop (1 + sdnv_val_len ?f) ?buf = eid_field d es @ sdnv_bytes n @ rest"
    by (rule drop_advance [OF d1]) simp
  have n0: "\<not> n > 0xFFFFFFFF" using assms(6) by simp
  show ?thesis
  proof (cases "es = []")
    case True
    then show ?thesis
      using d1 d2 assms(5) n0
      by (simp add: parse_preamble_def PREAMBLE_FIXED_LENGTH_def Let_def preamble_bytes_def
          preamble_flags_def eid_field_def drop_sdnv_bytes)
  next
    case False
    let ?c = "of_nat (length es) :: u64"
    have d3: "drop (1 + sdnv_val_len ?f) ?buf = sdnv_bytes ?c @ eid_refs d es @ sdnv_bytes n @ rest"
      using False d2 by (simp add: eid_field_def)
    have d4: "drop (1 + sdnv_val_len ?f + sdnv_val_len ?c) ?buf = eid_refs d es @ sdnv_bytes n @ rest"
      by (rule drop_advance [OF d3]) simp
    have uc: "unat ?c = unat (0 :: u32) + length es"
      using assms(4) by (simp add: unat_of_nat)
    have e: "preamble_eids nm (dict_rx d) ?c ?buf 0 (1 + sdnv_val_len ?f + sdnv_val_len ?c) [] =
      Inr (Some (es, 1 + sdnv_val_len ?f + sdnv_val_len ?c + length (eid_refs d es)))"
      using preamble_eids_parse [OF assms(1,2,3) uc _ d4, of "[]"] assms(4) by simp
    have d5: "drop (1 + sdnv_val_len ?f + sdnv_val_len ?c + length (eid_refs d es)) ?buf = sdnv_bytes n @ rest"
      by (rule drop_advance [OF d4]) simp
    have l: "length (preamble_bytes d es t flags n) =
      1 + sdnv_val_len ?f + sdnv_val_len ?c + length (eid_refs d es) + sdnv_val_len n"
      using False by (simp add: preamble_bytes_def eid_field_def)
    have len: "\<not> length ?buf \<le> 1" using l by simp
    have fl: "?f AND BLOCK_FLAG_EID_REFS \<noteq> 0" using False eid_refs_bit by (simp add: preamble_flags_def)
    have dc: "sdnv_decode (drop 1 ?buf) = (?f, Some (sdnv_val_len ?f))"
      "sdnv_decode (drop (1 + sdnv_val_len ?f) ?buf) = (?c, Some (sdnv_val_len ?c))"
      "sdnv_decode (drop (1 + sdnv_val_len ?f + sdnv_val_len ?c + length (eid_refs d es)) ?buf) = (n, Some (sdnv_val_len n))"
      unfolding d1 d3 d5 by simp_all
    show ?thesis
      unfolding parse_preamble_def PREAMBLE_FIXED_LENGTH_def
      using len fl n0 e dc l by (simp add: Let_def del: One_nat_def)
  qed
qed

subsection \<open>Lemmas: prefixes\<close>

lemma drop_take_decode:
  assumes "sdnv_decode (drop off buf) = (v, Some n)"
  shows "off + n \<le> m \<Longrightarrow> sdnv_decode (drop off (take m buf)) = (v, Some n)"
    and "m < off + n \<Longrightarrow> \<exists>u. sdnv_decode (drop off (take m buf)) = (u, None)"
    and "off + n \<le> length buf" "0 < n"
proof -
  show "off + n \<le> m \<Longrightarrow> sdnv_decode (drop off (take m buf)) = (v, Some n)"
    using sdnv_decode_take(1) [OF assms, of "m - off"] by (simp add: drop_take)
  show "m < off + n \<Longrightarrow> \<exists>u. sdnv_decode (drop off (take m buf)) = (u, None)"
    using sdnv_decode_take(2) [OF assms, of "m - off"] sdnv_decode_prefix(2) [OF assms]
    by (cases "off \<le> m") (auto simp: drop_take)
  show "off + n \<le> length buf" "0 < n" using sdnv_decode_prefix [OF assms] by auto
qed

lemma preamble_eids_prefix:
  "preamble_eids nm d cnt buf i off acc = Inr (Some (l, off')) \<Longrightarrow> off \<le> length buf \<Longrightarrow>
     off \<le> off' \<and> off' \<le> length buf \<and>
     (off' \<le> m \<longrightarrow> preamble_eids nm d cnt (take m buf) i off acc = Inr (Some (l, off'))) \<and>
     (off \<le> m \<longrightarrow> m < off' \<longrightarrow> preamble_eids nm d cnt (take m buf) i off acc = Inr None)"
proof (induction nm d cnt buf i off acc rule: preamble_eids.induct)
  case (1 nm d cnt buf i off acc)
  show ?case
  proof (cases "ucast i < cnt")
    case False
    with 1 show ?thesis by (simp add: preamble_eids.simps)
  next
    case True
    with 1(2) obtain v1 n1 v2 n2 e b where
      dc: "sdnv_decode (drop off buf) = (v1, Some n1)" "sdnv_decode (drop (off + n1) buf) = (v2, Some n2)"
      "extract_eid nm d eid_default v1 v2 = Inr (e, b)"
      and r: "preamble_eids nm d cnt buf (i + 1) (off + n1 + n2) (acc @ [e]) = Inr (Some (l, off'))"
      by (subst (asm) preamble_eids.simps) (auto split: prod.splits option.splits sum.splits)
    note p1 = drop_take_decode [OF dc(1)] and p2 = drop_take_decode [OF dc(2)]
    have ih: "off + n1 + n2 \<le> off' \<and> off' \<le> length buf \<and>
     (off' \<le> m \<longrightarrow> preamble_eids nm d cnt (take m buf) (i + 1) (off + n1 + n2) (acc @ [e]) = Inr (Some (l, off'))) \<and>
     (off + n1 + n2 \<le> m \<longrightarrow> m < off' \<longrightarrow>
        preamble_eids nm d cnt (take m buf) (i + 1) (off + n1 + n2) (acc @ [e]) = Inr None)"
      by (rule "1.IH" [OF True dc(1) [symmetric] refl dc(2) [symmetric] refl dc(3) refl r p2(3)])
    have step: "preamble_eids nm d cnt (take m buf) i off acc =
        preamble_eids nm d cnt (take m buf) (i + 1) (off + n1 + n2) (acc @ [e])"
      if "off + n1 + n2 \<le> m"
      using that True p1(1) [of m] p2(1) [of m] dc(3) by (subst preamble_eids.simps) simp
    have short: "preamble_eids nm d cnt (take m buf) i off acc = Inr None"
      if m: "m < off + n1 + n2"
    proof (cases "m < off + n1")
      case lt: True
      with p1(2) obtain u where "sdnv_decode (drop off (take m buf)) = (u, None)" by blast
      with True show ?thesis by (subst preamble_eids.simps) simp
    next
      case False
      with p1(1) have "sdnv_decode (drop off (take m buf)) = (v1, Some n1)" by simp
      moreover from p2(2) m obtain u where "sdnv_decode (drop (off + n1) (take m buf)) = (u, None)" by blast
      ultimately show ?thesis using True by (subst preamble_eids.simps) simp
    qed
    show ?thesis
    proof (cases "off + n1 + n2 \<le> m")
      case True
      with ih step [OF True] show ?thesis by auto
    next
      case False
      with ih short show ?thesis by auto
    qed
  qed
qed

lemma parse_preamble_prefix:
  assumes "parse_preamble nm d [] buf = Inr (f, PreambleDone es n off)"
  shows "off \<le> length buf" and "2 < off"
    and "off \<le> m \<Longrightarrow> parse_preamble nm d [] (take m buf) = Inr (f, PreambleDone es n off)"
    and "m < off \<Longrightarrow> \<exists>f'. parse_preamble nm d [] (take m buf) = Inr (f', PreamblePartial)"
    and "n \<le> 0xFFFFFFFF"
proof -
  from assms obtain fl n1 where len: "\<not> length buf \<le> 1" and
    d1: "sdnv_decode (drop 1 buf) = (fl, Some n1)"
    by (auto simp: parse_preamble_def PREAMBLE_FIXED_LENGTH_def split: if_splits prod.splits option.splits)
  define eids where "eids = (\<lambda>b. if fl AND BLOCK_FLAG_EID_REFS \<noteq> 0 then
      (case sdnv_decode (drop (1 + n1) b) of
         (_, None) \<Rightarrow> Inr None
       | (cnt, Some k) \<Rightarrow> preamble_eids nm d cnt b 0 (1 + n1 + k) [])
      else Inr (Some ([], 1 + n1)))"
  have parse: "parse_preamble nm d [] b = bindR (eids b) (\<lambda>r. case r of
               None \<Rightarrow> Inr (Some fl, PreamblePartial)
             | Some (eid_list, off') \<Rightarrow>
                 (case sdnv_decode (drop off' b) of
                    (_, None) \<Rightarrow> Inr (Some fl, PreamblePartial)
                  | (block_len, Some k) \<Rightarrow>
                      if block_len > 0xFFFFFFFF then Inr (Some fl, PreambleOverflow)
                      else Inr (Some fl, PreambleDone eid_list block_len (off' + k))))"
    if "\<not> length b \<le> 1" "sdnv_decode (drop 1 b) = (fl, Some n1)" for b
    using that by (simp add: parse_preamble_def PREAMBLE_FIXED_LENGTH_def eids_def Let_def del: One_nat_def)
  obtain a off0 where e0: "eids buf = Inr (Some (a, off0))"
    using assms unfolding parse [OF len d1] by (cases "eids buf") (auto split: option.split_asm)
  obtain v r where vr: "sdnv_decode (drop off0 buf) = (v, r)" by (cases "sdnv_decode (drop off0 buf)")
  from assms obtain off' n2 where e: "eids buf = Inr (Some (es, off'))"
    and d2: "sdnv_decode (drop off' buf) = (n, Some n2)" and off: "off = off' + n2"
    and f: "f = Some fl" and n: "\<not> n > 0xFFFFFFFF"
    unfolding parse [OF len d1] using e0 vr by (cases r) (auto split: if_split_asm)
  note p1 = drop_take_decode [OF d1] and p2 = drop_take_decode [OF d2]
  have e_pre: "1 + n1 \<le> off' \<and> (off' \<le> m \<longrightarrow> eids (take m buf) = Inr (Some (es, off'))) \<and>
    (1 + n1 \<le> m \<longrightarrow> m < off' \<longrightarrow> eids (take m buf) = Inr None)" for m
  proof (cases "fl AND BLOCK_FLAG_EID_REFS = 0")
    case True
    with e show ?thesis by (auto simp: eids_def)
  next
    case False
    with e obtain cnt k where c: "sdnv_decode (drop (1 + n1) buf) = (cnt, Some k)"
      and pe: "preamble_eids nm d cnt buf 0 (1 + n1 + k) [] = Inr (Some (es, off'))"
      by (auto simp: eids_def split: prod.splits option.splits)
    note pc = drop_take_decode [OF c]
    have pp: "1 + n1 + k \<le> off'"
      "off' \<le> m \<Longrightarrow> preamble_eids nm d cnt (take m buf) 0 (1 + n1 + k) [] = Inr (Some (es, off'))"
      "1 + n1 + k \<le> m \<Longrightarrow> m < off' \<Longrightarrow> preamble_eids nm d cnt (take m buf) 0 (1 + n1 + k) [] = Inr None"
      using preamble_eids_prefix [OF pe pc(3), of m] by auto
    show ?thesis
    proof (cases "1 + n1 + k \<le> m")
      case True
      with pc(1) have "eids (take m buf) = preamble_eids nm d cnt (take m buf) 0 (1 + n1 + k) []"
        using False by (simp add: eids_def)
      with pp True show ?thesis by auto
    next
      case lt: False
      then obtain u where "sdnv_decode (drop (1 + n1) (take m buf)) = (u, None)" using pc(2) by force
      then have "eids (take m buf) = Inr None" using False by (simp add: eids_def)
      with pp(1) lt show ?thesis by auto
    qed
  qed
  show "off \<le> length buf" using p2(3) off by simp
  show "2 < off" using p1(4) p2(4) e_pre [of 0] off by linarith
  show "n \<le> 0xFFFFFFFF" using n by simp
  show "parse_preamble nm d [] (take m buf) = Inr (f, PreambleDone es n off)" if m: "off \<le> m"
  proof -
    have "\<not> length (take m buf) \<le> 1" using m off p2(4) e_pre [of m] p1(4) len by (auto simp: min_def)
    moreover have "sdnv_decode (drop 1 (take m buf)) = (fl, Some n1)"
      using p1(1) [of m] m off e_pre [of m] by simp
    ultimately show ?thesis
      using parse [of "take m buf"] e_pre [of m] p2(1) [of m] m off n f by simp
  qed
  show "\<exists>f'. parse_preamble nm d [] (take m buf) = Inr (f', PreamblePartial)" if m: "m < off"
  proof (cases "1 + n1 \<le> m")
    case True
    have "\<not> length (take m buf) \<le> 1" using True p1(4) len by simp
    note pm = parse [OF this p1(1) [OF True]]
    show ?thesis
    proof (cases "m < off'")
      case lt: True
      with e_pre [of m] True have "eids (take m buf) = Inr None" by simp
      then show ?thesis unfolding pm by simp
    next
      case False
      with e_pre [of m] have "eids (take m buf) = Inr (Some (es, off'))" by simp
      moreover from p2(2) m off obtain u where "sdnv_decode (drop off' (take m buf)) = (u, None)" by blast
      ultimately show ?thesis unfolding pm by simp
    qed
  next
    case False
    then obtain u where "sdnv_decode (drop 1 (take m buf)) = (u, None)" using p1(2) by force
    then show ?thesis by (simp add: parse_preamble_def PREAMBLE_FIXED_LENGTH_def)
  qed
qed

subsection \<open>Receiving a block in pieces\<close>

text \<open>
  \<open>wire_block\<close>: \<open>pre\<close> parses, whatever follows, as a complete preamble for \<open>data\<close>, and fits the
  static buffer.
  \<open>rx_block\<close>: the state of a block after the first bytes \<open>bs\<close> of \<open>pre @ data\<close> have arrived.
\<close>

definition wire_block :: "naming \<Rightarrow> dictionary \<Rightarrow> bytes \<Rightarrow> eid list \<Rightarrow> bytes \<Rightarrow> bool" where
  "wire_block nm d pre es data \<longleftrightarrow>
     (\<exists>f. \<forall>rest. parse_preamble nm d [] (pre @ rest) =
        Inr (f, PreambleDone es (of_nat (length data)) (length pre))) \<and>
     length pre \<le> SCRATCH_LEN \<and> length pre + length data < 2 ^ 32"

definition rx_block :: "nat \<Rightarrow> bytes \<Rightarrow> eid list \<Rightarrow> bytes \<Rightarrow> bytes \<Rightarrow> block_info \<Rightarrow> bool" where
  "rx_block owner pre es data bs b \<longleftrightarrow>
     bi_owner b = owner \<and> SCRATCH_LEN \<le> bi_buf_len b \<and> bi_contents b = bs \<and>
     (if length bs < length pre
      then bi_data_offset b = 0 \<and> \<not> bi_complete b \<and> bi_eid_list b = []
      else bi_data_offset b = of_nat (length pre) \<and> bi_data_length b = of_nat (length data) \<and>
        bi_eid_list b = es \<and> (bi_complete b \<longleftrightarrow> length bs = length pre + length data))"

lemma wire_block_length: "wire_block nm d pre es data \<Longrightarrow> 2 < length pre"
  unfolding wire_block_def using parse_preamble_prefix(2) by blast

lemma rx_block_new:
  assumes "wire_block nm d pre es data"
  shows "rx_block owner pre es data [] (block_new owner src)"
proof -
  have "pre \<noteq> []" using wire_block_length [OF assms] by auto
  then show ?thesis by (simp add: rx_block_def SCRATCH_LEN_def)
qed

lemma bi_full_length_reserve [simp]: "bi_full_length (bi_reserve rsv n b) = bi_full_length b"
  by (simp add: bi_full_length_def)

lemma unat_of_nat_u32: "n < 2 ^ 32 \<Longrightarrow> unat (of_nat n :: u32) = n"
  by (simp add: unat_of_nat)

lemma of_nat_ucast_u32: "ucast (of_nat n :: u64) = (of_nat n :: u32)"
proof -
  have "n mod 2 ^ 64 mod 2 ^ 32 = n mod (2 ^ 32 :: nat)" by (rule mod_mod_cancel) simp
  then show ?thesis by (simp add: word_unat_eq_iff unsigned_ucast_eq take_bit_nat_def unat_of_nat)
qed

lemma block_consume_data_eq:
  assumes "bi_data_offset b = of_nat p" "bi_data_length b = of_nat n" "p + n < 2 ^ 32"
    and "p \<le> length (bi_contents b)" "length (bi_contents b) \<le> p + n"
    and "n = 0 \<or> length (bi_contents b) < p + n"
  shows "block_consume_data rsv b c cc =
    (let r = p + n - length (bi_contents b)
     in Inr (cc + int (min (length c) r),
        (if r \<le> length c then (bi_reserve rsv (p + n) b)\<lparr>bi_complete := True\<rparr>
         else bi_reserve rsv (p + n) b)\<lparr>bi_contents := bi_contents b @ take r c\<rparr>))"
proof -
  have u: "unat (bi_full_length b) = p + n"
    using assms(1-3) by (simp add: bi_full_length_def unat_of_nat_u32 flip: of_nat_add)
  have "of_nat (length (bi_contents b)) \<le> (ucast (bi_full_length b) :: u64)"
    using assms(3,5) u by (simp add: word_le_nat_alt unat_of_nat)
  then have r: "unat (ucast (bi_full_length b) - of_nat (length (bi_contents b)) :: u64) = p + n - length (bi_contents b)"
    using assms(3,5) u by (simp add: unat_sub unat_of_nat)
  have a: "bi_data_length b = 0 \<or> unat (bi_full_length b) > length (bi_contents b)"
    using assms(2,6) u by auto
  show ?thesis
    using a r u by (simp add: block_consume_data_def Let_def min_def)
qed

lemma wire_block_prefix:
  assumes "wire_block nm d pre es data"
  shows "\<exists>f. \<forall>s m. (length pre \<le> m \<longrightarrow> parse_preamble nm d [] (take m (pre @ s)) =
      Inr (f, PreambleDone es (of_nat (length data)) (length pre))) \<and>
    (m < length pre \<longrightarrow> (\<exists>f'. parse_preamble nm d [] (take m (pre @ s)) = Inr (f', PreamblePartial)))"
proof -
  from assms obtain f where "\<forall>s. parse_preamble nm d [] (pre @ s) =
    Inr (f, PreambleDone es (of_nat (length data)) (length pre))" by (auto simp: wire_block_def)
  then show ?thesis using parse_preamble_prefix(3,4) by blast
qed

lemma consume_preamble_step:
  assumes w: "wire_block nm d pre es data" and b: "rx_block owner pre es data bs b"
    and lt: "length bs < length pre" and c: "bs @ c = take (length bs + length c) (pre @ data @ rest)"
  shows "length bs + length c < length pre \<Longrightarrow>
      \<exists>f. consume_preamble rsv nm d b c = Inr (int (length c), f, b\<lparr>bi_contents := bs @ c\<rparr>)"
    and "length pre \<le> length bs + length c \<Longrightarrow>
      \<exists>f. consume_preamble rsv nm d b c = Inr (int (length pre) - int (length bs), f,
        b\<lparr>bi_contents := pre, bi_data_length := of_nat (length data),
          bi_data_offset := of_nat (length pre), bi_eid_list := es\<rparr>)"
proof -
  from b lt have s: "SCRATCH_LEN \<le> bi_buf_len b" "bi_contents b = bs" "bi_data_offset b = 0"
    "\<not> bi_complete b" "bi_eid_list b = []" by (auto simp: rx_block_def)
  have p: "length pre \<le> bi_buf_len b" using w s(1) by (simp add: wire_block_def)
  define k where "k = min (length c) (bi_buf_len b - length bs)"
  have k: "bs @ take k c = take (length bs + k) (pre @ data @ rest)"
  proof -
    have "bs @ take k c = take (length bs + k) (bs @ c)" by simp
    also have "\<dots> = take (length bs + k) (pre @ data @ rest)"
      unfolding c take_take by (rule arg_cong2 [of _ _ _ _ take]) (simp_all add: k_def)
    finally show ?thesis .
  qed
  from wire_block_prefix [OF w] obtain f where
    f: "length pre \<le> m \<Longrightarrow> parse_preamble nm d [] (take m (pre @ data @ rest)) =
        Inr (f, PreambleDone es (of_nat (length data)) (length pre))"
      "m < length pre \<Longrightarrow> \<exists>f'. parse_preamble nm d [] (take m (pre @ data @ rest)) = Inr (f', PreamblePartial)"
    for m by blast
  have nz: "\<not> bi_buf_len b - length bs = 0" "length bs < bi_buf_len b" using p lt by auto
  show "\<exists>f. consume_preamble rsv nm d b c = Inr (int (length c), f, b\<lparr>bi_contents := bs @ c\<rparr>)"
    if l: "length bs + length c < length pre"
  proof -
    have kc: "k = length c" using l p by (simp add: k_def)
    from f(2) [of "length bs + k"] l kc obtain f' where
      "parse_preamble nm d [] (bs @ take k c) = Inr (f', PreamblePartial)" unfolding k by auto
    then show ?thesis
      using s nz kc by (auto simp: consume_preamble_def Let_def simp flip: k_def)
  qed
  show "\<exists>f. consume_preamble rsv nm d b c = Inr (int (length pre) - int (length bs), f,
        b\<lparr>bi_contents := pre, bi_data_length := of_nat (length data),
          bi_data_offset := of_nat (length pre), bi_eid_list := es\<rparr>)"
    if l: "length pre \<le> length bs + length c"
  proof -
    have kp: "length pre \<le> length bs + k" using l p by (simp add: k_def)
    have t: "take (length pre) (bs @ take k c) = pre" unfolding k using kp by (simp add: min_def)
    have u: "ucast (of_nat (length data) :: u64) = (of_nat (length data) :: u32)"
      by (simp add: of_nat_ucast_u32)
    have "parse_preamble nm d [] (bs @ take k c) =
        Inr (f, PreambleDone es (of_nat (length data)) (length pre))"
      unfolding k by (rule f(1) [OF kp])
    then show ?thesis
      using s nz t u by (auto simp: consume_preamble_def Let_def simp flip: k_def)
  qed
qed

lemma of_nat_u32_eq_0: "n < 2 ^ 32 \<Longrightarrow> (of_nat n :: u32) = 0 \<longleftrightarrow> n = 0"
  using unat_of_nat_u32 [of n] by (auto simp: word_unat_eq_iff)

lemma rx_block_data:
  assumes w: "wire_block nm d pre es data" and rs: "scratch_ok rsv" and ne: "c \<noteq> []"
    and b: "rx_block owner pre es data bs b \<or>
      (data = [] \<and> bs = pre \<and> rx_block owner pre es data bs (b\<lparr>bi_complete := True\<rparr>))"
    and l: "length pre \<le> length bs" "length bs < length pre + length data \<or> data = [] \<and> bs = pre"
    and c: "bs @ c = take (length bs + length c) (pre @ data @ rest)"
  shows "\<exists>b'. block_consume_data rsv b c cc =
      Inr (cc + int (min (length c) (length pre + length data - length bs)), b') \<and>
    rx_block owner pre es data (take (length pre + length data) (bs @ c)) b'"
proof -
  let ?L = "length pre + length data"
  have lim: "?L < 2 ^ 32" using w by (simp add: wire_block_def)
  have s: "bi_owner b = owner" "SCRATCH_LEN \<le> bi_buf_len b" "bi_contents b = bs"
    "bi_data_offset b = of_nat (length pre)" "bi_data_length b = of_nat (length data)" "bi_eid_list b = es"
    using b l by (auto simp: rx_block_def)
  have nc: "length bs < ?L \<Longrightarrow> \<not> bi_complete b" using b l by (auto simp: rx_block_def)
  have e: "block_consume_data rsv b c cc =
    (let r = ?L - length bs
     in Inr (cc + int (min (length c) r),
        (if r \<le> length c then (bi_reserve rsv ?L b)\<lparr>bi_complete := True\<rparr>
         else bi_reserve rsv ?L b)\<lparr>bi_contents := bs @ take r c\<rparr>))"
    using block_consume_data_eq [OF s(4,5) lim, of rsv c cc] l s(3) by auto
  have t: "bs @ take (?L - length bs) c = take ?L (bs @ c)" using l by auto
  have "SCRATCH_LEN \<le> rsv (bi_buf_len b) ?L" using s(2) scratch_ok_ge(1) [OF rs] le_trans by blast
  then show ?thesis
    unfolding e Let_def t [symmetric] using s l nc by (auto simp: rx_block_def min_def)
qed

lemma block_consume_step:
  assumes w: "wire_block nm d pre es data" and rs: "scratch_ok rsv"
    and b: "rx_block owner pre es data bs b" "\<not> bi_complete b"
    and l: "length bs \<le> length pre + length data"
    and c: "bs @ c = take (length bs + length c) (pre @ data @ rest)"
  shows "\<exists>b'. block_consume rsv nm d b c =
      Inr (int (min (length c) (length pre + length data - length bs)), b') \<and>
    rx_block owner pre es data (take (length pre + length data) (bs @ c)) b'"
proof -
  let ?L = "length pre + length data"
  have lim: "?L < 2 ^ 32" and p0: "2 < length pre"
    using w wire_block_length [OF w] by (simp_all add: wire_block_def)
  then have off: "(of_nat (length pre) :: u32) \<noteq> 0"
    and dl: "(of_nat (length data) :: u32) = 0 \<longleftrightarrow> data = []" by (auto simp: of_nat_u32_eq_0)
  consider (partial) "length bs + length c < length pre" |
    (finish) "length bs < length pre" "length pre \<le> length bs + length c" |
    (body) "length pre \<le> length bs" by linarith
  then show ?thesis
  proof cases
    case partial
    then have lt: "length bs < length pre" by simp
    from consume_preamble_step(1) [OF w b(1) lt c partial, of rsv] obtain f where
      "consume_preamble rsv nm d b c = Inr (int (length c), f, b\<lparr>bi_contents := bs @ c\<rparr>)" by blast
    with b partial show ?thesis by (auto simp: block_consume_def rx_block_def Let_def)
  next
    case finish
    let ?b = "b\<lparr>bi_contents := pre, bi_data_length := of_nat (length data),
          bi_data_offset := of_nat (length pre), bi_eid_list := es\<rparr>"
    let ?c = "drop (length pre - length bs) c"
    from consume_preamble_step(2) [OF w b(1) finish(1) c finish(2), of rsv] obtain f where
      f: "consume_preamble rsv nm d b c = Inr (int (length pre) - int (length bs), f, ?b)" by blast
    have o: "bi_data_offset b = 0" using b finish by (simp add: rx_block_def)
    have pre: "take (length pre) (bs @ c) = pre" using c finish by (simp add: min_def)
    have bc: "bs @ c = pre @ ?c" using pre finish append_take_drop_id [of "length pre" "bs @ c"] by simp
    have c': "pre @ ?c = take (length pre + length ?c) (pre @ data @ rest)"
      using c bc finish by (metis length_append)
    define b1 where "b1 = (if data = [] then ?b\<lparr>bi_complete := True\<rparr> else ?b)"
    have rx: "rx_block owner pre es data pre b1" using b by (auto simp: b1_def rx_block_def)
    have st: "block_consume rsv nm d b c =
      (if ?c = [] then Inr (int (length pre - length bs), b1)
       else block_consume_data rsv b1 ?c (int (length pre - length bs)))"
      using b(2) o f off dl finish by (auto simp: block_consume_def b1_def Let_def nat_diff_distrib)
    show ?thesis
    proof (cases "?c = []")
      case True
      with st rx bc finish show ?thesis by (auto simp: min_def)
    next
      case False
      from rx_block_data [OF w rs False disjI1 [OF rx] _ _ c', of "int (length pre - length bs)"] st False bc finish
      show ?thesis by (fastforce simp: min_def)
    qed
  next
    case body
    with b l have lt: "length bs < ?L" by (auto simp: rx_block_def)
    then have dne: "data \<noteq> []" using body by auto
    have o: "bi_data_offset b \<noteq> 0" "bi_data_length b \<noteq> 0" using b body off dl dne by (auto simp: rx_block_def)
    show ?thesis
    proof (cases "c = []")
      case True
      with b l o show ?thesis by (auto simp: block_consume_def)
    next
      case False
      have "block_consume rsv nm d b c = block_consume_data rsv b c 0"
        using b(2) o False by (simp add: block_consume_def Let_def)
      with rx_block_data [OF w rs False disjI1 [OF b(1)] body disjI1 [OF lt] c, of 0] show ?thesis by simp
    qed
  qed
qed

text \<open>A block that arrives in the pieces \<open>cs\<close>, each given to \<open>consume\<close> in turn.\<close>

fun consume_chunks ::
  "(nat \<Rightarrow> nat \<Rightarrow> nat) \<Rightarrow> naming \<Rightarrow> dictionary \<Rightarrow> block_info \<Rightarrow> bytes list \<Rightarrow> (int \<times> block_info) res"
where
  "consume_chunks rsv nm d b [] = Inr (0, b)"
| "consume_chunks rsv nm d b (c # cs) =
     bindR (block_consume rsv nm d b c) (\<lambda>(cc, b').
     bindR (consume_chunks rsv nm d b' cs) (\<lambda>(cc', b''). Inr (cc + cc', b'')))"

lemma consume_chunks_complete:
  assumes w: "wire_block nm d pre es data" and rs: "scratch_ok rsv"
  shows "rx_block owner pre es data bs b \<Longrightarrow> bs @ concat cs = pre @ data \<Longrightarrow> \<forall>c \<in> set cs. c \<noteq> [] \<Longrightarrow>
    \<exists>b'. consume_chunks rsv nm d b cs = Inr (int (length (concat cs)), b') \<and>
      rx_block owner pre es data (pre @ data) b'"
proof (induction cs arbitrary: bs b)
  case (Cons c cs)
  have eq: "bs @ c @ concat cs = pre @ data" using Cons.prems by simp
  then have len: "length bs + length c + length (concat cs) = length pre + length data"
    by (metis add.assoc length_append)
  have "0 < length c" using Cons.prems(3) by simp
  then have "length bs < length pre + length data" using len by linarith
  then have nc: "\<not> bi_complete b" and l: "length bs \<le> length pre + length data"
    using Cons.prems(1) by (auto simp: rx_block_def split: if_splits)
  have t: "bs @ c = take (length bs + length c) (pre @ data @ [])"
    using arg_cong [OF eq, of "take (length bs + length c)"] by simp
  have t2: "take (length pre + length data) (bs @ c) = bs @ c" using len by simp
  have m: "min (length c) (length pre + length data - length bs) = length c" using len by linarith
  from block_consume_step [OF w rs Cons.prems(1) nc l t] obtain b1 where
    b1: "block_consume rsv nm d b c = Inr (int (length c), b1)" "rx_block owner pre es data (bs @ c) b1"
    unfolding m t2 by blast
  from Cons.IH [OF b1(2)] eq Cons.prems(3) obtain b' where
    "consume_chunks rsv nm d b1 cs = Inr (int (length (concat cs)), b')"
    "rx_block owner pre es data (pre @ data) b'" by auto
  with b1 show ?case by simp
qed simp

lemma wire_block_preamble:
  assumes "dict_invar d" "length (dict_buf d) < 2 ^ 32" "\<forall>e \<in> set es. eid_ok nm e \<and> dict_knows d e"
    and "es = [] \<Longrightarrow> flags AND BLOCK_FLAG_EID_REFS = 0"
    and "length (preamble_bytes d es t flags (of_nat (length data))) \<le> SCRATCH_LEN"
    and "length data < 2 ^ 32 - SCRATCH_LEN"
  shows "wire_block nm (dict_rx d) (preamble_bytes d es t flags (of_nat (length data))) es data"
proof -
  have "length es \<le> length (eid_refs d es)"
  proof (induction es)
    case (Cons e es)
    have "1 \<le> length (eid_ref d e)" by (simp add: eid_ref_def Suc_le_eq)
    then have "1 + length es \<le> length (eid_ref d e) + length (eid_refs d es)"
      using Cons by (rule add_mono)
    then show ?case by simp
  qed simp
  then have "length es \<le> SCRATCH_LEN"
    using assms(5) by (cases "es = []") (auto simp: preamble_bytes_def eid_field_def)
  then have le: "length es < 2 ^ 32" by (simp add: SCRATCH_LEN_def)
  have n: "(of_nat (length data) :: u64) \<le> 0xFFFFFFFF"
    using assms(6) by (simp add: word_le_nat_alt unat_of_nat)
  from parse_preamble_bytes [OF assms(1-3) le assms(4) n] assms(5,6) show ?thesis
    by (auto simp: wire_block_def SCRATCH_LEN_def)
qed

lemma eid_field_stable:
  assumes "dict_invar d" "\<forall>s \<in> set ss. 0 \<notin> set s" "\<forall>e \<in> set es. eid_clean e \<and> dict_knows d e"
  shows "eid_field (foldl dict_add d ss) es = eid_field d es"
    and "\<forall>e \<in> set es. dict_knows (foldl dict_add d ss) e"
proof -
  have r: "eid_ref (foldl dict_add d ss) e = eid_ref d e \<and> dict_knows (foldl dict_add d ss) e"
    if "e \<in> set es" for e
    using that assms dict_find_stable [OF assms(1) _ assms(2)]
    by (fastforce simp: eid_ref_def dict_knows_def eid_clean_def)
  then show "\<forall>e \<in> set es. dict_knows (foldl dict_add d ss) e" by blast
  from r have "eid_refs (foldl dict_add d ss) es = eid_refs d es"
    by (simp add: eid_refs_def cong: map_cong)
  then show "eid_field (foldl dict_add d ss) es = eid_field d es" by (simp add: eid_field_def)
qed

lemma init_block_eq:
  fixes d d' es
  assumes "dict_invar d" "\<forall>e \<in> set es. eid_clean e" "d' = foldl dict_add d (eid_parts es)"
    and "bi_eid_list b = es" "bi_contents b = []" "SCRATCH_LEN \<le> bi_buf_len b"
    and "length (preamble_bytes d' es t (ucast flags) (of_nat (length data))) \<le> SCRATCH_LEN"
    and "length data < 2 ^ 32 - SCRATCH_LEN"
  shows "\<exists>b'. init_block rsv d b t flags data = Inr (b', d') \<and>
    bi_contents b' = preamble_bytes d' es t (ucast flags) (of_nat (length data)) @ data \<and>
    bi_data_length b' = of_nat (length data) \<and>
    bi_data_offset b' = of_nat (length (preamble_bytes d' es t (ucast flags) (of_nat (length data)))) \<and>
    bi_owner b' = bi_owner b \<and> bi_eid_list b' = es"
proof -
  let ?p = "preamble_bytes d' es t (ucast flags) (of_nat (length data))"
  have f: "length (eid_field d' es) \<le> WORK_LEN"
    using assms(7) by (simp add: preamble_bytes_def SCRATCH_LEN_def WORK_LEN_def)
  have g: "generate_preamble d b t (ucast flags) (of_nat (length data)) =
    Inr (b\<lparr>bi_contents := ?p, bi_data_length := of_nat (length data), bi_data_offset := of_nat (length ?p)\<rparr>, d')"
    using generate_preamble_eq [OF assms(1-5) _ f, of t "ucast flags" "of_nat (length data)"] assms(6,7)
    by (simp add: of_nat_ucast_u32)
  have l: "length ?p + length data < 2 ^ 32" "length ?p < 2 ^ 32" "?p \<noteq> []"
    using assms(7,8) by (auto simp: SCRATCH_LEN_def preamble_bytes_def)
  then have "unat (of_nat (length ?p) + of_nat (length data) :: u32) = length ?p + length data"
    using unat_of_nat_u32 [of "length ?p + length data"] by (simp only: of_nat_add)
  moreover have "(of_nat (length ?p) :: u32) \<noteq> 0" using l of_nat_u32_eq_0 by simp
  moreover have "unat (of_nat (length ?p) :: u32) = length ?p" using l unat_of_nat_u32 by blast
  ultimately show ?thesis
    using g assms(4) by (simp add: init_block_def bi_full_length_def Let_def bi_reserve_def)
qed


lemma dict_add_example:
  "eid_scheme e = lit ''dtn'' \<Longrightarrow> eid_ssp e = lit ''//a'' \<Longrightarrow>
     dict_add_eids dict_empty [e] =
       Inr \<lparr>dict_buf = lit ''dtn'' @ 0 # lit ''//a'' @ [0], dict_cap = 64, dict_alloc = True\<rparr>"
  by (simp add: dict_add_eid_def dict_add_str_def dict_get_offset_def dict_scan.simps dict_empty_def
      Let_def lit_def dict_grow.simps c_string_def)

subsection \<open>Properties\<close>

text \<open>
  C13: a block survives transmission. When the sender's block (endpoint references, flags and
  data) has a preamble that fits the 64-byte static buffer, \<open>init_block\<close> succeeds; and a receiver
  that loads the final dictionary of the bundle and is given the block's bytes in any number of
  non-empty pieces, cut anywhere, consumes all of them, and ends with a complete block with the
  same contents, the same endpoint identifiers and the same data length and offset. The
  dictionary may have grown (by \<open>ss\<close>) after this block was generated.
\<close>

theorem block_transmission:
  assumes "dict_invar d0" "\<forall>e \<in> set es. eid_ok nm e" "bi_eid_list b = es" "bi_contents b = []"
    and "SCRATCH_LEN \<le> bi_buf_len b" "scratch_ok rsv"
    and "length (preamble_bytes (foldl dict_add d0 (eid_parts es)) es t (ucast flags) (of_nat (length data)))
           \<le> SCRATCH_LEN"
    and "length data < 2 ^ 32 - SCRATCH_LEN" "flags AND 64 = 0"
    and "\<forall>s \<in> set ss. 0 \<notin> set s"
    and "length (dict_buf (foldl dict_add d0 (eid_parts es @ ss))) < 2 ^ 32"
  shows "\<exists>b1 d1. init_block rsv d0 b t flags data = Inr (b1, d1) \<and>
    (\<forall>cs. concat cs = bi_contents b1 \<longrightarrow> (\<forall>c \<in> set cs. c \<noteq> []) \<longrightarrow>
      (\<exists>b2. consume_chunks rsv nm (dict_rx (foldl dict_add d1 ss)) (block_new owner src) cs =
               Inr (int (length (bi_contents b1)), b2) \<and>
         bi_complete b2 \<and> bi_contents b2 = bi_contents b1 \<and> bi_eid_list b2 = es \<and>
         bi_data_length b2 = bi_data_length b1 \<and> bi_data_offset b2 = bi_data_offset b1))"
proof -
  let ?d1 = "foldl dict_add d0 (eid_parts es)" and ?n = "of_nat (length data) :: u64"
  let ?d2 = "foldl dict_add ?d1 ss"
  let ?pre = "preamble_bytes ?d1 es t (ucast flags) ?n"
  have cl: "\<forall>e \<in> set es. eid_clean e" using assms(2) by auto
  have i1: "dict_invar ?d1" using dict.invar_fold [OF assms(1) eid_parts_clean [OF cl]] .
  have i2: "dict_invar ?d2" using dict.invar_fold [OF i1 assms(10)] .
  have k1: "\<forall>e \<in> set es. eid_clean e \<and> dict_knows ?d1 e"
    using dict_knows_added [OF assms(1) cl] cl by blast
  note st = eid_field_stable [OF i1 assms(10) k1]
  have pre2: "preamble_bytes ?d2 es t (ucast flags) ?n = ?pre" using st(1) by (simp add: preamble_bytes_def)
  have fl: "ucast flags AND BLOCK_FLAG_EID_REFS = 0"
  proof -
    have "ucast flags AND BLOCK_FLAG_EID_REFS = (ucast (flags AND 64) :: u64)"
      by (rule bit_eqI) (auto simp: bit_simps BLOCK_FLAG_EID_REFS_def bit_numeral_rec
          dest: bit_imp_le_length)
    then show ?thesis using assms(9) by simp
  qed
  have w: "wire_block nm (dict_rx ?d2) ?pre es data"
    using wire_block_preamble [OF i2, of es nm "ucast flags" t data] st(2) assms(2,7,8,11) fl pre2 by simp
  from init_block_eq [OF assms(1) cl refl assms(3,4,5,7,8), of rsv] obtain b1 where
    b1: "init_block rsv d0 b t flags data = Inr (b1, ?d1)" "bi_contents b1 = ?pre @ data"
    "bi_data_length b1 = of_nat (length data)" "bi_data_offset b1 = of_nat (length ?pre)" by blast
  have "\<exists>b2. consume_chunks rsv nm (dict_rx ?d2) (block_new owner src) cs = Inr (int (length (bi_contents b1)), b2) \<and>
         bi_complete b2 \<and> bi_contents b2 = bi_contents b1 \<and> bi_eid_list b2 = es \<and>
         bi_data_length b2 = bi_data_length b1 \<and> bi_data_offset b2 = bi_data_offset b1"
    if cs: "concat cs = bi_contents b1" "\<forall>c \<in> set cs. c \<noteq> []" for cs
    using consume_chunks_complete [OF w assms(6) rx_block_new [OF w], of cs owner src] cs b1
    by (auto simp: rx_block_def)
  with b1(1) show ?thesis by blast
qed

theorem block_transmission_witness:
  "let e = eid_assign simple_naming (lit ''dtn://a'');
       b = (block_new 2 None)\<lparr>bi_eid_list := [e]\<rparr> in
   \<exists>b1 d1 b2. init_block max dict_empty b 2 0 [1, 2, 3] = Inr (b1, d1) \<and>
     bi_contents b1 = [2, 0x40, 1, 0, 4, 3, 1, 2, 3] \<and>
     consume_chunks max simple_naming (dict_rx d1) (block_new 2 None)
       [[2, 0x40, 1], [0, 4, 3, 1, 2], [3]] = Inr (9, b2) \<and>
     bi_complete b2 \<and> bi_contents b2 = bi_contents b1 \<and> bi_eid_list b2 = [e]"
proof -
  let ?e = "eid_assign simple_naming (lit ''dtn://a'')"
  let ?b = "(block_new 2 None)\<lparr>bi_eid_list := [?e]\<rparr>"
  let ?d = "\<lparr>dict_buf = lit ''dtn'' @ 0 # lit ''//a'' @ [0], dict_cap = 64, dict_alloc = True\<rparr>"
  have es: "eid_scheme ?e = lit ''dtn''" "eid_ssp ?e = lit ''//a''"
    by (simp_all add: eid_assign_def simple_naming_def simple_parse_def Let_def lit_def)
  have ok: "\<forall>x \<in> set [?e]. eid_ok simple_naming x"
    by (simp add: eid_ok_def eid_assign2_def eid_assign_def eid_validate_def simple_naming_def
        simple_parse_def MAX_EID_PART_LENGTH_def Let_def lit_def)
  then have cl: "\<forall>x \<in> set [?e]. eid_clean x" by auto
  have "dict_add_eids dict_empty [?e] = Inr ?d" by (rule dict_add_example [OF es])
  then have d: "foldl dict_add dict_empty (eid_parts [?e]) = ?d"
    unfolding dict_add_eids_eq [OF dict_invar_empty cl] by (rule sum.inject(2) [THEN iffD1])
  have f: "dict_find ?d (lit ''dtn'') = Some 0" "dict_find ?d (lit ''//a'') = Some 4"
    by (simp_all add: dict_find_def dict_get_offset_def dict_scan.simps c_string_def lit_def)
  have sb: "sdnv_bytes 0x40 = [0x40]" "sdnv_bytes 1 = [1]" "sdnv_bytes 0 = [0]" "sdnv_bytes 4 = [4]"
    "sdnv_bytes 3 = [3]" by (simp_all add: sdnv_bytes_def sdnv_fill.simps)
  have p: "preamble_bytes ?d [?e] 2 (ucast (0 :: byte)) (of_nat (length [1, 2, 3 :: byte])) = [2, 0x40, 1, 0, 4, 3]"
    by (simp add: preamble_bytes_def preamble_flags_def eid_field_def eid_ref_def es f
        BLOCK_FLAG_EID_REFS_def sb)
  have r: "\<exists>b1 d1. init_block max dict_empty ?b 2 0 [1, 2, 3] = Inr (b1, d1) \<and>
    (\<forall>cs. concat cs = bi_contents b1 \<longrightarrow> (\<forall>c \<in> set cs. c \<noteq> []) \<longrightarrow>
      (\<exists>b2. consume_chunks max simple_naming (dict_rx (foldl dict_add d1 [])) (block_new 2 None) cs =
               Inr (int (length (bi_contents b1)), b2) \<and>
         bi_complete b2 \<and> bi_contents b2 = bi_contents b1 \<and> bi_eid_list b2 = [?e] \<and>
         bi_data_length b2 = bi_data_length b1 \<and> bi_data_offset b2 = bi_data_offset b1))"
    by (rule block_transmission [OF dict_invar_empty ok])
      (use d p in \<open>simp_all add: SCRATCH_LEN_def scratch_ok_max lit_def\<close>)
  have c: "\<exists>b'. init_block max dict_empty ?b 2 0 [1, 2, 3] = Inr (b', ?d) \<and>
      bi_contents b' = [2, 0x40, 1, 0, 4, 3, 1, 2, 3]"
    using init_block_eq [OF dict_invar_empty cl d [symmetric], of ?b 2 0 "[1, 2, 3]" max] p
    by (auto simp: SCRATCH_LEN_def)
  from r c obtain b1 where b1: "init_block max dict_empty ?b 2 0 [1, 2, 3] = Inr (b1, ?d)"
    "bi_contents b1 = [2, 0x40, 1, 0, 4, 3, 1, 2, 3]"
    and rx: "\<exists>b2. consume_chunks max simple_naming (dict_rx ?d) (block_new 2 None)
        [[2, 0x40, 1], [0, 4, 3, 1, 2], [3]] = Inr (9, b2) \<and>
      bi_complete b2 \<and> bi_contents b2 = bi_contents b1 \<and> bi_eid_list b2 = [?e]"
    by (fastforce dest: spec [of _ "[[2, 0x40, 1], [0, 4, 3, 1, 2], [3 :: byte]]"])
  then show ?thesis unfolding Let_def by blast
qed

text \<open>
  A block length near the 32-bit limit stops the daemon. When a received preamble announces a
  data length whose sum with the preamble length reaches \<open>2 ^ 32\<close>, the 32-bit \<open>full_length()\<close>
  wraps around, and the first data byte after the preamble makes \<open>consume\<close> fail its assertion,
  although the same length passes the check of \<open>consume_preamble\<close>.
\<close>

theorem consume_length_wraps:
  assumes "parse_preamble nm d [] (pre @ c) = Inr (f, PreambleDone es n (length pre))"
    and "2 ^ 32 \<le> length pre + unat n" "length pre + length c \<le> SCRATCH_LEN" "c \<noteq> []"
  shows "block_consume rsv nm d (block_new owner src) (pre @ c) = Inl ASSERT"
proof -
  let ?b = "(block_new owner src)\<lparr>bi_contents := pre, bi_data_length := ucast n,
    bi_data_offset := of_nat (length pre), bi_eid_list := es\<rparr>"
  have n: "n \<le> 0xFFFFFFFF" and l: "2 < length pre"
    using parse_preamble_prefix(2,5) [OF assms(1)] by auto
  have un: "unat n < 2 ^ 32" using n by (simp add: word_le_nat_alt)
  have sp: "length pre < 2 ^ 32" using assms(3) by (simp add: SCRATCH_LEN_def)
  have u: "unat (ucast n :: u32) = unat n" using un by (simp add: unsigned_ucast_eq take_bit_nat_def)
  have up: "unat (of_nat (length pre) :: u32) = length pre" using sp unat_of_nat_u32 by blast
  have "unat (bi_full_length ?b) = (length pre + unat n) mod 2 ^ 32"
    by (simp add: bi_full_length_def unat_word_ariths u up)
  also have "\<dots> = length pre + unat n - 2 ^ 32" using assms(2) un sp by (simp add: le_mod_geq)
  also have "\<dots> < length pre" using assms(2) un by linarith
  finally have fl: "\<not> unat (bi_full_length ?b) > length (bi_contents ?b)" by simp
  have nz: "(ucast n :: u32) \<noteq> 0" using u assms(2) sp by (auto simp: word_unat_eq_iff)
  have off: "(of_nat (length pre) :: u32) \<noteq> 0" using sp l by (auto simp: of_nat_u32_eq_0)
  have cp: "consume_preamble rsv nm d (block_new owner src) (pre @ c) = Inr (int (length pre), f, ?b)"
    using assms(1,3) by (simp add: consume_preamble_def Let_def SCRATCH_LEN_def)
  show ?thesis
    using cp fl nz off assms(4) by (simp add: block_consume_def block_consume_data_def Let_def)
qed

theorem consume_length_wraps_witness:
  "block_consume max simple_naming dict_empty (block_new 2 None)
     [2, 0, 0x8f, 0xff, 0xff, 0xff, 0x7f, 1] = Inl ASSERT"
proof -
  have "parse_preamble simple_naming dict_empty [] ([2, 0, 0x8f, 0xff, 0xff, 0xff, 0x7f] @ [1]) =
      Inr (Some 0, PreambleDone [] 0xFFFFFFFF (length [2, 0, 0x8f, 0xff, 0xff, 0xff, 0x7f :: byte]))"
    by code_simp
  from consume_length_wraps [OF this, of max 2 None] show ?thesis by (simp add: SCRATCH_LEN_def)
qed

text \<open>
  A preamble that does not parse within the static buffer stops the daemon. If a new block
  receives more than 64 bytes of which the first 64 are no complete preamble (an endless or
  oversized SDNV, or too many endpoint references), \<open>consume\<close> fails its assertion instead of
  extending the buffer or reporting a protocol error.
\<close>

theorem consume_preamble_overrun:
  assumes "parse_preamble nm d [] (take 64 c) = Inr (f, PreamblePartial)" and "64 < length c"
  shows "block_consume rsv nm d (block_new owner src) c = Inl ASSERT"
  using assms by (simp add: block_consume_def consume_preamble_def Let_def)

theorem consume_preamble_overrun_witness:
  "block_consume max simple_naming dict_empty (block_new 2 None) (2 # replicate 64 0x80) = Inl ASSERT"
proof -
  have "parse_preamble simple_naming dict_empty [] (take 64 (2 # replicate 64 0x80)) =
      Inr (None, PreamblePartial)"
    by code_simp
  from consume_preamble_overrun [OF this, of max 2 None] show ?thesis by simp
qed

end
