(* ===== verification/PrimaryBlock.thy ===== *)
theory PrimaryBlock
  imports BlockProcessor
begin

text \<open>
  The primary block: \<open>servlib/bundling/PrimaryBlockProcessor.h\<close> and \<open>.cc\<close>. Formatting and parsing
  of the processing flags, the length computation, generation and consumption of the block, and
  the checks on a received primary block. The conversions of the C library used for compressed
  \<open>ipn\<close> identifiers (decimal \<open>printf\<close> and \<open>scanf\<close>) are modelled on byte strings.
\<close>

subsection \<open>Decimal numbers\<close>

fun dec :: "nat \<Rightarrow> bytes" where
  "dec n = (if n < 10 then [of_nat (48 + n)] else dec (n div 10) @ [of_nat (48 + n mod 10)])"

declare dec.simps [simp del]

definition is_digit :: "byte \<Rightarrow> bool" where
  "is_digit c \<longleftrightarrow> 48 \<le> c \<and> c \<le> 57"

definition is_space :: "byte \<Rightarrow> bool" where
  "is_space c \<longleftrightarrow> c = 32 \<or> (9 \<le> c \<and> c \<le> 13)"

definition dec_value :: "bytes \<Rightarrow> nat" where
  "dec_value ds = foldl (\<lambda>a c. 10 * a + (unat c - 48)) 0 ds"

text \<open>
  \<open>%llu\<close> of \<open>scanf\<close>: white space is skipped, a sign is accepted, the value saturates and is
  negated modulo \<open>2 ^ 64\<close> after a minus sign. The result is the value and the rest of the input.
\<close>

definition scan_u64 :: "bytes \<Rightarrow> (u64 \<times> bytes) option" where
  "scan_u64 s =
     (let s1 = dropWhile is_space s;
          neg = (case s1 of c # _ \<Rightarrow> c = 0x2d | [] \<Rightarrow> False);
          s2 = (case s1 of c # r \<Rightarrow> if c = 0x2d \<or> c = 0x2b then r else s1 | [] \<Rightarrow> []);
          ds = takeWhile is_digit s2;
          v = (if dec_value ds < 2 ^ 64 then of_nat (dec_value ds) else - 1 :: u64)
      in if ds = [] then None
         else Some (if neg \<and> dec_value ds < 2 ^ 64 then - v else v, drop (length ds) s2))"

subsection \<open>Flags\<close>

definition BUNDLE_IS_FRAGMENT :: u64 where "BUNDLE_IS_FRAGMENT = 1"
definition BUNDLE_IS_ADMIN :: u64 where "BUNDLE_IS_ADMIN = 2"
definition BUNDLE_DO_NOT_FRAGMENT :: u64 where "BUNDLE_DO_NOT_FRAGMENT = 4"
definition BUNDLE_CUSTODY_XFER_REQUESTED :: u64 where "BUNDLE_CUSTODY_XFER_REQUESTED = 8"
definition BUNDLE_SINGLETON_DESTINATION :: u64 where "BUNDLE_SINGLETON_DESTINATION = 16"
definition BUNDLE_ACK_BY_APP :: u64 where "BUNDLE_ACK_BY_APP = 32"

definition STATUS_RECEIVED :: u64 where "STATUS_RECEIVED = 0x4000"
definition STATUS_CUSTODY_ACCEPTED :: u64 where "STATUS_CUSTODY_ACCEPTED = 0x8000"
definition STATUS_FORWARDED :: u64 where "STATUS_FORWARDED = 0x10000"
definition STATUS_DELIVERED :: u64 where "STATUS_DELIVERED = 0x20000"
definition STATUS_DELETED :: u64 where "STATUS_DELETED = 0x40000"

lemmas primary_flag_defs =
  BUNDLE_IS_FRAGMENT_def BUNDLE_IS_ADMIN_def BUNDLE_DO_NOT_FRAGMENT_def
  BUNDLE_CUSTODY_XFER_REQUESTED_def BUNDLE_SINGLETON_DESTINATION_def BUNDLE_ACK_BY_APP_def
  STATUS_RECEIVED_def STATUS_CUSTODY_ACCEPTED_def STATUS_FORWARDED_def STATUS_DELIVERED_def
  STATUS_DELETED_def

definition flag_if :: "bool \<Rightarrow> u64 \<Rightarrow> u64" where
  "flag_if c f = (if c then f else 0)"

definition format_bundle_flags :: "dtn_bundle \<Rightarrow> u64" where
  "format_bundle_flags b =
     flag_if (b_is_fragment b) BUNDLE_IS_FRAGMENT OR
     flag_if (b_is_admin b) BUNDLE_IS_ADMIN OR
     flag_if (b_do_not_fragment b) BUNDLE_DO_NOT_FRAGMENT OR
     flag_if (b_custody_requested b) BUNDLE_CUSTODY_XFER_REQUESTED OR
     flag_if (b_singleton_dest b) BUNDLE_SINGLETON_DESTINATION OR
     flag_if (b_app_acked_rcpt b) BUNDLE_ACK_BY_APP"

definition parse_bundle_flags :: "u64 \<Rightarrow> dtn_bundle \<Rightarrow> dtn_bundle" where
  "parse_bundle_flags flags b = b\<lparr>
     b_is_fragment := flags AND BUNDLE_IS_FRAGMENT \<noteq> 0,
     b_is_admin := flags AND BUNDLE_IS_ADMIN \<noteq> 0,
     b_do_not_fragment := flags AND BUNDLE_DO_NOT_FRAGMENT \<noteq> 0,
     b_custody_requested := flags AND BUNDLE_CUSTODY_XFER_REQUESTED \<noteq> 0,
     b_singleton_dest := flags AND BUNDLE_SINGLETON_DESTINATION \<noteq> 0,
     b_app_acked_rcpt := flags AND BUNDLE_ACK_BY_APP \<noteq> 0\<rparr>"

definition format_cos_flags :: "dtn_bundle \<Rightarrow> u64" where
  "format_cos_flags b = push_bit 7 (ucast (b_priority b AND 3))"

definition parse_cos_flags :: "u64 \<Rightarrow> dtn_bundle \<Rightarrow> dtn_bundle" where
  "parse_cos_flags cos_flags b = b\<lparr>b_priority := ucast (drop_bit 7 cos_flags AND 3)\<rparr>"

definition format_srr_flags :: "dtn_bundle \<Rightarrow> u64" where
  "format_srr_flags b =
     flag_if (b_receive_rcpt b) STATUS_RECEIVED OR
     flag_if (b_custody_rcpt b) STATUS_CUSTODY_ACCEPTED OR
     flag_if (b_forward_rcpt b) STATUS_FORWARDED OR
     flag_if (b_delivery_rcpt b) STATUS_DELIVERED OR
     flag_if (b_deletion_rcpt b) STATUS_DELETED"

text \<open>\<open>parse_srr_flags\<close> only ever sets: a receipt flag that was already set stays set.\<close>

definition parse_srr_flags :: "u64 \<Rightarrow> dtn_bundle \<Rightarrow> dtn_bundle" where
  "parse_srr_flags srr_flags b = b\<lparr>
     b_receive_rcpt := (srr_flags AND STATUS_RECEIVED \<noteq> 0 \<or> b_receive_rcpt b),
     b_custody_rcpt := (srr_flags AND STATUS_CUSTODY_ACCEPTED \<noteq> 0 \<or> b_custody_rcpt b),
     b_forward_rcpt := (srr_flags AND STATUS_FORWARDED \<noteq> 0 \<or> b_forward_rcpt b),
     b_delivery_rcpt := (srr_flags AND STATUS_DELIVERED \<noteq> 0 \<or> b_delivery_rcpt b),
     b_deletion_rcpt := (srr_flags AND STATUS_DELETED \<noteq> 0 \<or> b_deletion_rcpt b)\<rparr>"

subsection \<open>Compressed identifiers\<close>

definition make_ipn :: "u64 \<Rightarrow> u64 \<Rightarrow> bytes" where
  "make_ipn e path =
     (if e = 0 then lit ''dtn:none''
      else if path > 0 then lit ''ipn://'' @ dec (unat e) @ lit ''/'' @ dec (unat path)
      else lit ''ipn://'' @ dec (unat e))"

text \<open>
  \<open>get_ipn\<close>: the return value and the two targets, which keep their old values \<open>ieid0\<close>, \<open>itag0\<close>
  where \<open>sscanf\<close> does not assign them. The argument is the C string of the identifier.
\<close>

definition get_ipn :: "bytes \<Rightarrow> u64 \<Rightarrow> u64 \<Rightarrow> bool \<times> u64 \<times> u64" where
  "get_ipn temp ieid0 itag0 =
     (if temp = lit ''dtn:none'' then (True, 0, 0)
      else if take 6 temp \<noteq> lit ''ipn://'' then (False, ieid0, itag0)
      else case scan_u64 (drop 6 temp) of
        None \<Rightarrow> (False, ieid0, itag0)
      | Some (ieid, rest) \<Rightarrow>
          (case rest of
             c # rest' \<Rightarrow>
               if c = 0x2f
               then (case scan_u64 rest' of
                       None \<Rightarrow> (True, ieid, itag0)
                     | Some (itag, _) \<Rightarrow> (True, ieid, itag))
               else (True, ieid, itag0)
           | [] \<Rightarrow> (True, ieid, itag0)))"

definition c_str :: "eid \<Rightarrow> bytes" where
  "c_str e = takeWhile (\<lambda>c. c \<noteq> 0) (eid_str e)"

subsection \<open>Generating the block\<close>

record primary_block =
  p_version :: byte
  p_processing_flags :: u64
  p_block_length :: u64
  p_dest_scheme_offset :: u64
  p_dest_ssp_offset :: u64
  p_source_scheme_offset :: u64
  p_source_ssp_offset :: u64
  p_replyto_scheme_offset :: u64
  p_replyto_ssp_offset :: u64
  p_custodian_scheme_offset :: u64
  p_custodian_ssp_offset :: u64
  p_creation_time :: u64
  p_creation_sequence :: u64
  p_lifetime :: u64
  p_dictionary_length :: u64

definition primary_zero :: primary_block where
  "primary_zero =
     \<lparr>p_version = 0, p_processing_flags = 0, p_block_length = 0, p_dest_scheme_offset = 0,
      p_dest_ssp_offset = 0, p_source_scheme_offset = 0, p_source_ssp_offset = 0,
      p_replyto_scheme_offset = 0, p_replyto_ssp_offset = 0, p_custodian_scheme_offset = 0,
      p_custodian_ssp_offset = 0, p_creation_time = 0, p_creation_sequence = 0, p_lifetime = 0,
      p_dictionary_length = 0\<rparr>"

definition primary_offsets :: "primary_block \<Rightarrow> u64 list" where
  "primary_offsets p =
     [p_dest_scheme_offset p, p_dest_ssp_offset p, p_source_scheme_offset p, p_source_ssp_offset p,
      p_replyto_scheme_offset p, p_replyto_ssp_offset p, p_custodian_scheme_offset p,
      p_custodian_ssp_offset p]"

text \<open>The sum of the \<open>SDNV::encoding_len\<close> of a list of values.\<close>

fun sdnv_total :: "u64 list \<Rightarrow> nat res" where
  "sdnv_total [] = Inr 0"
| "sdnv_total (v # vs) =
     bindR (sdnv_encoding_len v) (\<lambda>a. bindR (sdnv_total vs) (\<lambda>r. Inr (a + r)))"

text \<open>
  The offsets: \<open>None\<close> when the destination is an \<open>ipn\<close> identifier that cannot be parsed.
\<close>

definition primary_get_offsets :: "dictionary \<Rightarrow> dtn_bundle \<Rightarrow> primary_block \<Rightarrow> primary_block option res" where
  "primary_get_offsets dict b p =
     (if strncmp_eq (c_str (b_dest b)) (lit ''ipn'') 3 then
        (case get_ipn (c_str (b_dest b)) (p_dest_scheme_offset p) (p_dest_ssp_offset p) of
           (False, _, _) \<Rightarrow> Inr None
         | (True, d1, d2) \<Rightarrow>
             (case (get_ipn (c_str (b_source b)) (p_source_scheme_offset p) (p_source_ssp_offset p),
                    get_ipn (c_str (b_replyto b)) (p_replyto_scheme_offset p) (p_replyto_ssp_offset p),
                    get_ipn (c_str (b_custodian b)) (p_custodian_scheme_offset p) (p_custodian_ssp_offset p)) of
                ((_, s1, s2), (_, r1, r2), (_, c1, c2)) \<Rightarrow>
                  Inr (Some (p\<lparr>p_dest_scheme_offset := d1, p_dest_ssp_offset := d2,
                     p_source_scheme_offset := s1, p_source_ssp_offset := s2,
                     p_replyto_scheme_offset := r1, p_replyto_ssp_offset := r2,
                     p_custodian_scheme_offset := c1, p_custodian_ssp_offset := c2,
                     p_dictionary_length := 0\<rparr>))))
      else
        bindR (dict_get_offsets dict (b_dest b) (unat (p_dest_ssp_offset p))) (\<lambda>(_, d1, d2).
        bindR (dict_get_offsets dict (b_source b) (unat (p_source_ssp_offset p))) (\<lambda>(_, s1, s2).
        bindR (dict_get_offsets dict (b_replyto b) (unat (p_replyto_ssp_offset p))) (\<lambda>(_, r1, r2).
        bindR (dict_get_offsets dict (b_custodian b) (unat (p_custodian_ssp_offset p))) (\<lambda>(_, c1, c2).
          Inr (Some (p\<lparr>p_dest_scheme_offset := of_nat d1, p_dest_ssp_offset := of_nat d2,
             p_source_scheme_offset := of_nat s1, p_source_ssp_offset := of_nat s2,
             p_replyto_scheme_offset := of_nat r1, p_replyto_ssp_offset := of_nat r2,
             p_custodian_scheme_offset := of_nat c1, p_custodian_ssp_offset := of_nat c2,
             p_dictionary_length := of_nat (length (dict_buf dict))\<rparr>)))))))"

definition CURRENT_VERSION :: byte where
  "CURRENT_VERSION = 6"

definition get_primary_len :: "dictionary \<Rightarrow> dtn_bundle \<Rightarrow> primary_block \<Rightarrow> (nat \<times> primary_block) res" where
  "get_primary_len dict b p0 =
     (let p = p0\<lparr>p_dictionary_length := 0, p_block_length := 0\<rparr>
      in bindR (primary_get_offsets dict b p) (\<lambda>r.
        case r of
          None \<Rightarrow> Inr (0, p)
        | Some p \<Rightarrow>
            bindR (sdnv_total (primary_offsets p)) (\<lambda>l1.
            bindR (sdnv_total [seconds (b_creation_ts b), seqno (b_creation_ts b), b_expiration b,
                               p_dictionary_length p]) (\<lambda>l2.
            bindR (if b_is_fragment b
                   then sdnv_total [ucast (b_frag_offset b), ucast (b_orig_length b)]
                   else Inr 0) (\<lambda>l3.
              let block_length = l1 + l2 + unat (p_dictionary_length p) + l3;
                  flags = format_bundle_flags b OR format_cos_flags b OR format_srr_flags b
              in
              bindR (sdnv_encoding_len flags) (\<lambda>l4.
              bindR (sdnv_encoding_len (of_nat block_length)) (\<lambda>l5.
                Inr (1 + l4 + l5 + block_length,
                     p\<lparr>p_block_length := of_nat block_length, p_processing_flags := flags,
                        p_version := CURRENT_VERSION,
                        p_creation_time := seconds (b_creation_ts b),
                        p_creation_sequence := seqno (b_creation_ts b),
                        p_lifetime := b_expiration b\<rparr>))))))))"

text \<open>
  \<open>PBP_WRITE_SDNV\<close>: the bytes written so far and the signed count of bytes left, which becomes a
  \<open>size_t\<close> when it is passed to \<open>SDNV::encode\<close>.
\<close>

definition pbp_write :: "u64 \<Rightarrow> bytes \<times> int \<Rightarrow> (bytes \<times> int) res" where
  "pbp_write v w =
     (case sdnv_encode v (nat (snd w mod 2 ^ 64)) of
        None \<Rightarrow> Inl ASSERT
      | Some bs \<Rightarrow> bindR (assertR (length bs > 0)) (\<lambda>_. Inr (fst w @ bs, snd w - int (length bs))))"

fun pbp_writes :: "u64 list \<Rightarrow> bytes \<times> int \<Rightarrow> (bytes \<times> int) res" where
  "pbp_writes [] w = Inr w"
| "pbp_writes (v # vs) w = bindR (pbp_write v w) (pbp_writes vs)"

definition generate_primary ::
  "(nat \<Rightarrow> nat \<Rightarrow> nat) \<Rightarrow> dictionary \<Rightarrow> dtn_bundle \<Rightarrow> block_info \<Rightarrow> block_info res"
where
  "generate_primary rsv dict b block =
     bindR (get_primary_len dict b primary_zero) (\<lambda>(primary_len, p).
       let block = (bi_reserve rsv primary_len block)\<lparr>bi_data_length := of_nat primary_len\<rparr>
       in
       bindR (pbp_writes
                ([p_processing_flags p, p_block_length p] @ primary_offsets p @
                 [seconds (b_creation_ts b), seqno (b_creation_ts b), b_expiration b,
                  p_dictionary_length p]) ([CURRENT_VERSION], int primary_len - 1)) (\<lambda>(w, len).
       bindR (let n = unat (p_dictionary_length p)
              in pbp_writes (if b_is_fragment b then [ucast (b_frag_offset b), ucast (b_orig_length b)] else [])
                   (w @ take n (dict_buf dict), len - int n)) (\<lambda>(w', len').
       bindR (assertR (len' = 0)) (\<lambda>_. Inr (block\<lparr>bi_contents := w'\<rparr>)))))"

definition primary_prepare :: "dtn_bundle \<Rightarrow> block_ref option \<Rightarrow> block_vec \<Rightarrow> block_vec res" where
  "primary_prepare b source xmit_blocks =
     bindR (assertR (bv_blocks xmit_blocks = [])) (\<lambda>_.
     bindR (dict_add_eids (bv_dict xmit_blocks) [b_dest b, b_source b, b_replyto b, b_custodian b]) (\<lambda>d.
       Inr (xmit_blocks\<lparr>bv_dict := d, bv_blocks := block_new PRIMARY_BLOCK source # bv_blocks xmit_blocks\<rparr>)))"

definition primary_generate :: "bool \<Rightarrow> unit res" where
  "primary_generate is_last = assertR (\<not> is_last)"

subsection \<open>Consuming the block\<close>

fun pbp_reads :: "nat \<Rightarrow> bytes \<Rightarrow> (u64 list \<times> bytes) option" where
  "pbp_reads 0 buf = Some ([], buf)"
| "pbp_reads (Suc n) buf =
     (case sdnv_decode buf of
        (_, None) \<Rightarrow> None
      | (v, Some k) \<Rightarrow> map_option (\<lambda>(vs, r). (v # vs, r)) (pbp_reads n (drop k buf)))"

definition primary_eids ::
  "naming \<Rightarrow> bytes \<Rightarrow> u64 list \<Rightarrow> dtn_bundle \<Rightarrow> dtn_bundle res"
where
  "primary_eids nm dictionary offs b =
     (if dictionary = [] then
        Inr (b\<lparr>b_source := eid_assign nm (make_ipn (offs ! 2) (offs ! 3)),
              b_dest := eid_assign nm (make_ipn (offs ! 0) (offs ! 1)),
              b_replyto := eid_assign nm (make_ipn (offs ! 4) (offs ! 5)),
              b_custodian := eid_assign nm (make_ipn (offs ! 6) (offs ! 7))\<rparr>)
      else
        bindR (set_dict (bv_dict (b_recv_blocks b)) dictionary) (\<lambda>d.
        bindR (extract_eid nm d (b_source b) (offs ! 2) (offs ! 3)) (\<lambda>(src, _).
        bindR (extract_eid nm d (b_dest b) (offs ! 0) (offs ! 1)) (\<lambda>(dst, _).
        bindR (extract_eid nm d (b_replyto b) (offs ! 4) (offs ! 5)) (\<lambda>(rep, _).
        bindR (extract_eid nm d (b_custodian b) (offs ! 6) (offs ! 7)) (\<lambda>(cus, _).
          Inr (b\<lparr>b_source := src, b_dest := dst, b_replyto := rep, b_custodian := cus,
                b_recv_blocks := (b_recv_blocks b)\<lparr>bv_dict := d\<rparr>\<rparr>)))))))"

definition primary_fragment :: "bytes \<Rightarrow> dtn_bundle \<Rightarrow> bool \<times> dtn_bundle" where
  "primary_fragment buf b =
     (if \<not> b_is_fragment b then (True, b)
      else case sdnv_decode buf of
        (_, None) \<Rightarrow> (False, b)
      | (v, Some n) \<Rightarrow>
          if v > 0xffffffff then (False, b)
          else
            let b = b\<lparr>b_frag_offset := ucast v\<rparr>
            in case sdnv_decode (drop n buf) of
                 (_, None) \<Rightarrow> (False, b)
               | (v', Some _) \<Rightarrow>
                   if v' > 0xffffffff then (False, b) else (True, b\<lparr>b_orig_length := ucast v'\<rparr>))"

text \<open>
  Parsing a complete block: whether it was accepted, and the bundle as it is left behind. The
  check on the end of the dictionary reads the byte before it when the dictionary is empty.
\<close>

definition primary_parse :: "naming \<Rightarrow> block_info \<Rightarrow> dtn_bundle \<Rightarrow> (bool \<times> dtn_bundle) res" where
  "primary_parse nm block b =
     (let contents = bi_contents block in
      bindR (assertR (unat (bi_full_length block) = length contents)) (\<lambda>_.
      case contents of
        [] \<Rightarrow> Inl OOB
      | version # buf \<Rightarrow>
          if version \<noteq> CURRENT_VERSION then Inr (False, b)
          else case pbp_reads 2 buf of
            None \<Rightarrow> Inr (False, b)
          | Some (hdr, buf) \<Rightarrow>
              let flags = hdr ! 0;
                  b = parse_srr_flags flags (parse_cos_flags flags (parse_bundle_flags flags b))
              in
              bindR (assertR (length buf = unat (bi_data_length block))) (\<lambda>_.
              case pbp_reads 12 buf of
                None \<Rightarrow> Inr (False, b)
              | Some (vs, buf) \<Rightarrow>
                  let b = b\<lparr>b_creation_ts := Timestamp (vs ! 8) (vs ! 9), b_expiration := vs ! 10\<rparr>;
                      dictionary_length = unat (vs ! 11)
                  in
                  if length buf < dictionary_length then Inr (False, b)
                  else if contents ! (length contents - length buf + dictionary_length - 1) \<noteq> 0
                  then Inr (False, b)
                  else
                    bindR (primary_eids nm (take dictionary_length buf) (take 8 vs) b) (\<lambda>b.
                      Inr (primary_fragment (drop dictionary_length buf) b)))))"

definition primary_consume ::
  "(nat \<Rightarrow> nat \<Rightarrow> nat) \<Rightarrow> naming \<Rightarrow> dtn_bundle \<Rightarrow> block_info \<Rightarrow> bytes \<Rightarrow> (int \<times> dtn_bundle \<times> block_info) res"
where
  "primary_consume rsv nm b block buf =
     bindR (assertR (\<not> bi_complete block)) (\<lambda>_.
     bindR (block_consume rsv nm (bv_dict (b_recv_blocks b)) block buf) (\<lambda>(cc, block).
       if cc = - 1 then Inr (- 1, b, block)
       else if \<not> bi_complete block
       then bindR (assertR (cc = int (length buf))) (\<lambda>_. Inr (cc, b, block))
       else bindR (primary_parse nm block b) (\<lambda>(ok, b). Inr (if ok then cc else - 1, b, block))))"

subsection \<open>Validating\<close>

definition primary_validate :: "naming \<Rightarrow> dtn_bundle \<Rightarrow> bool" where
  "primary_validate nm b =
     (if \<not> (eid_valid (b_source b) \<and> eid_valid (b_dest b) \<and> eid_valid (b_custodian b) \<and>
            eid_valid (b_replyto b)) then False
      else if eid_equals (b_source b) (NULL_EID nm) \<and>
              (receipt_requested b \<or> b_app_acked_rcpt b \<or> b_custody_requested b \<or> \<not> b_do_not_fragment b)
      then False
      else if b_is_admin b \<and>
              (b_custody_requested b \<or> b_receive_rcpt b \<or> b_custody_rcpt b \<or> b_forward_rcpt b \<or>
               b_delivery_rcpt b \<or> b_deletion_rcpt b \<or> b_app_acked_rcpt b)
      then False
      else True)"

subsection \<open>Lemmas: flags\<close>

definition processing_flags :: "dtn_bundle \<Rightarrow> u64" where
  "processing_flags b = format_bundle_flags b OR format_cos_flags b OR format_srr_flags b"

definition parse_flags :: "u64 \<Rightarrow> dtn_bundle \<Rightarrow> dtn_bundle" where
  "parse_flags f b = parse_srr_flags f (parse_cos_flags f (parse_bundle_flags f b))"

lemma bit_exp_u64: "bit (2 ^ m :: u64) n \<longleftrightarrow> n = m \<and> m < 64"
  by (auto simp: bit_exp_iff possible_bit_word)

lemma primary_flags_exp:
  "BUNDLE_IS_FRAGMENT = 2 ^ 0" "BUNDLE_IS_ADMIN = 2 ^ 1" "BUNDLE_DO_NOT_FRAGMENT = 2 ^ 2"
  "BUNDLE_CUSTODY_XFER_REQUESTED = 2 ^ 3" "BUNDLE_SINGLETON_DESTINATION = 2 ^ 4"
  "BUNDLE_ACK_BY_APP = 2 ^ 5" "STATUS_RECEIVED = 2 ^ 14" "STATUS_CUSTODY_ACCEPTED = 2 ^ 15"
  "STATUS_FORWARDED = 2 ^ 16" "STATUS_DELIVERED = 2 ^ 17" "STATUS_DELETED = 2 ^ 18"
  by (simp_all add: primary_flag_defs)

lemma bit_flag_if: "bit (flag_if c f) n \<longleftrightarrow> c \<and> bit f n"
  by (simp add: flag_if_def)

lemma bit_3: "bit (3 :: 'a::len word) k \<longleftrightarrow> (k = 0 \<or> k = 1) \<and> k < LENGTH('a)"
proof -
  have "(3 :: 'a word) = mask 2" by (simp add: mask_eq_exp_minus_1)
  then show ?thesis by (simp only: bit_mask_iff possible_bit_word) auto
qed

lemma bit_3_int: "bit (3 :: int) k \<longleftrightarrow> k = 0 \<or> k = 1"
proof -
  have "(3 :: int) = mask 2" by (simp add: mask_eq_exp_minus_1)
  then show ?thesis by (simp only: bit_mask_iff) (auto simp: possible_bit_def)
qed

lemma bit_cos: "bit (format_cos_flags b) n \<longleftrightarrow> n = 7 \<and> bit (b_priority b) 0 \<or> n = 8 \<and> bit (b_priority b) 1"
proof -
  have "bit (format_cos_flags b) n \<longleftrightarrow> 7 \<le> n \<and> n < 64 \<and> bit (b_priority b) (n - 7) \<and> (n - 7 = 0 \<or> n - 7 = 1)"
    by (auto simp: format_cos_flags_def bit_push_bit_iff bit_ucast_iff bit_and_iff bit_3 bit_3_int possible_bit_word)
  also have "\<dots> \<longleftrightarrow> n = 7 \<and> bit (b_priority b) 0 \<or> n = 8 \<and> bit (b_priority b) 1"
  proof (cases "n = 7 \<or> n = 8")
    case False
    then have "\<not> (7 \<le> n \<and> (n - 7 = 0 \<or> n - 7 = 1))" by linarith
    with False show ?thesis by blast
  qed auto
  finally show ?thesis .
qed

lemma bit_processing_flags:
  "bit (processing_flags b) n \<longleftrightarrow>
     (b_is_fragment b \<and> n = 0) \<or> (b_is_admin b \<and> n = 1) \<or> (b_do_not_fragment b \<and> n = 2) \<or>
     (b_custody_requested b \<and> n = 3) \<or> (b_singleton_dest b \<and> n = 4) \<or> (b_app_acked_rcpt b \<and> n = 5) \<or>
     (n = 7 \<and> bit (b_priority b) 0) \<or> (n = 8 \<and> bit (b_priority b) 1) \<or>
     (b_receive_rcpt b \<and> n = 14) \<or> (b_custody_rcpt b \<and> n = 15) \<or> (b_forward_rcpt b \<and> n = 16) \<or>
     (b_delivery_rcpt b \<and> n = 17) \<or> (b_deletion_rcpt b \<and> n = 18)"
proof -
  have l: "(0 :: nat) < 64" "(1 :: nat) < 64" "(2 :: nat) < 64" "(3 :: nat) < 64" "(4 :: nat) < 64"
    "(5 :: nat) < 64" "(14 :: nat) < 64" "(15 :: nat) < 64" "(16 :: nat) < 64" "(17 :: nat) < 64"
    "(18 :: nat) < 64" by simp_all
  show ?thesis
    by (simp only: processing_flags_def format_bundle_flags_def format_srr_flags_def bit_or_iff bit_cos
        bit_flag_if primary_flags_exp bit_exp_u64 l disj_assoc simp_thms)
qed

lemma and_flag: "(f AND 2 ^ n = (0 :: u64)) \<longleftrightarrow> \<not> bit f n"
  by (rule and_exp_eq_0_iff_not_bit)

lemma processing_flags_no_eid_refs: "processing_flags b AND BLOCK_FLAG_EID_REFS = 0"
proof -
  have e: "BLOCK_FLAG_EID_REFS = 2 ^ 6" by (simp add: BLOCK_FLAG_EID_REFS_def)
  show ?thesis unfolding e and_flag by (simp add: bit_processing_flags)
qed

lemma priority_roundtrip:
  "ucast (drop_bit 7 (processing_flags b) AND 3 :: u64) = b_priority b AND 3"
proof (rule bit_eqI)
  fix n assume "possible_bit TYPE(byte) n"
  then have n: "n < 8" by (simp add: possible_bit_word)
  have "bit (ucast (drop_bit 7 (processing_flags b) AND 3 :: u64) :: byte) n \<longleftrightarrow>
      bit (processing_flags b) (7 + n) \<and> (n = 0 \<or> n = 1)"
    using n by (auto simp: bit_ucast_iff bit_and_iff bit_drop_bit_eq bit_3 bit_3_int possible_bit_word)
  also have "\<dots> \<longleftrightarrow> bit (b_priority b) n \<and> (n = 0 \<or> n = 1)"
    by (cases "n = 0"; cases "n = 1") (simp_all add: bit_processing_flags)
  also have "\<dots> \<longleftrightarrow> bit (b_priority b AND 3) n" using n by (auto simp: bit_and_iff bit_3 bit_3_int)
  finally show "bit (ucast (drop_bit 7 (processing_flags b) AND 3 :: u64) :: byte) n \<longleftrightarrow> bit (b_priority b AND 3) n" .
qed

lemma parse_flags_processing:
  "parse_flags (processing_flags b) b0 = b0\<lparr>
     b_is_fragment := b_is_fragment b, b_is_admin := b_is_admin b,
     b_do_not_fragment := b_do_not_fragment b, b_custody_requested := b_custody_requested b,
     b_singleton_dest := b_singleton_dest b, b_app_acked_rcpt := b_app_acked_rcpt b,
     b_priority := b_priority b AND 3,
     b_receive_rcpt := b_receive_rcpt b \<or> b_receive_rcpt b0,
     b_custody_rcpt := b_custody_rcpt b \<or> b_custody_rcpt b0,
     b_forward_rcpt := b_forward_rcpt b \<or> b_forward_rcpt b0,
     b_delivery_rcpt := b_delivery_rcpt b \<or> b_delivery_rcpt b0,
     b_deletion_rcpt := b_deletion_rcpt b \<or> b_deletion_rcpt b0\<rparr>"
  unfolding parse_flags_def parse_srr_flags_def parse_cos_flags_def parse_bundle_flags_def
    primary_flags_exp and_flag priority_roundtrip
  by (simp add: bit_processing_flags)

subsection \<open>Lemmas: decimal numbers\<close>

lemma dec_digits: "\<forall>c \<in> set (dec n). is_digit c"
proof (induction n rule: dec.induct)
  case (1 n)
  have d: "is_digit (of_nat (48 + k))" if "k < 10" for k
    using that by (simp add: is_digit_def word_le_nat_alt unat_of_nat del: of_nat_add)
  show ?case using 1 d [of n] d [of "n mod 10"] by (subst dec.simps) auto
qed

lemma dec_no_nul: "0 \<notin> set (dec n)" "42 \<notin> set (dec n)"
  using dec_digits [of n] by (auto simp: is_digit_def)

lemma dec_nonempty [simp]: "dec n \<noteq> []"
  by (subst dec.simps) simp

lemma dec_value_append: "dec_value (xs @ [c]) = 10 * dec_value xs + (unat c - 48)"
  by (simp add: dec_value_def)

lemma dec_value_dec: "dec_value (dec n) = n"
proof (induction n rule: dec.induct)
  case (1 n)
  have u: "unat (of_nat (48 + k) :: byte) - 48 = k" if "k < 10" for k
    using that by (simp add: unat_of_nat del: of_nat_add)
  show ?case
  proof (cases "n < 10")
    case True
    then show ?thesis using u [of n] by (subst dec.simps) (simp add: dec_value_def)
  next
    case False
    then show ?thesis using 1 u [of "n mod 10"] by (subst dec.simps) (simp add: dec_value_append)
  qed
qed

lemma length_dec: "n < 10 ^ Suc k \<Longrightarrow> length (dec n) \<le> Suc k"
proof (induction k arbitrary: n)
  case 0
  then show ?case by (subst dec.simps) simp
next
  case (Suc k)
  then have "n div 10 < 10 ^ Suc k" by (simp add: less_mult_imp_div_less)
  from Suc.IH [OF this] show ?case by (subst dec.simps) simp
qed

lemma scan_dec:
  assumes "n < 2 ^ 64" "rest = [] \<or> \<not> is_digit (hd rest)"
  shows "scan_u64 (dec n @ rest) = Some (of_nat n, rest)"
proof -
  obtain c cs where c: "dec n = c # cs" by (cases "dec n") auto
  then have dc: "is_digit c" using dec_digits [of n] by auto
  then have ns: "\<not> is_space c" "c \<noteq> 0x2d" "c \<noteq> 0x2b"
    by (auto simp: is_digit_def is_space_def word_le_nat_alt word_unat_eq_iff)
  have "takeWhile is_digit (dec n @ rest) = dec n"
    using dec_digits [of n] assms(2) by (cases rest) (auto simp: takeWhile_append)
  then have t: "takeWhile is_digit (c # cs @ rest) = c # cs" using c by simp
  have v: "dec_value (c # cs) = n" using dec_value_dec [of n] c by simp
  show ?thesis unfolding c using ns t v assms(1) by (simp add: scan_u64_def Let_def)
qed

lemma ipn_prefix: "take 6 (lit ''ipn://'' @ s) = lit ''ipn://''" "drop 6 (lit ''ipn://'' @ s) = s"
  "lit ''ipn://'' @ s \<noteq> lit ''dtn:none''"
  by (simp_all add: lit_def)

lemma get_make_ipn:
  assumes "e \<noteq> 0"
  shows "get_ipn (make_ipn e path) x 0 = (True, e, path)"
proof -
  have e: "unat e < 2 ^ 64" "unat path < 2 ^ 64" using unsigned_less [of e] unsigned_less [of path] by simp_all
  have s: "\<not> is_digit 0x2f" by (simp add: is_digit_def)
  show ?thesis
  proof (cases "path > 0")
    case True
    have "scan_u64 (dec (unat e) @ 0x2f # dec (unat path)) = Some (e, 0x2f # dec (unat path))"
      using scan_dec [OF e(1), of "0x2f # dec (unat path)"] s by simp
    moreover have "scan_u64 (dec (unat path)) = Some (path, [])"
      using scan_dec [OF e(2), of "[]"] by simp
    moreover have "make_ipn e path = lit ''ipn://'' @ dec (unat e) @ 0x2f # dec (unat path)"
      using assms True by (simp add: make_ipn_def lit_def)
    ultimately show ?thesis by (simp only: get_ipn_def ipn_prefix) simp
  next
    case False
    have "scan_u64 (dec (unat e)) = Some (e, [])" using scan_dec [OF e(1), of "[]"] by simp
    moreover have "make_ipn e path = lit ''ipn://'' @ dec (unat e)" "path = 0"
      using assms False by (simp_all add: make_ipn_def word_gt_0)
    ultimately show ?thesis by (simp only: get_ipn_def ipn_prefix) simp
  qed
qed

lemma length_make_ipn: "length (make_ipn e path) \<le> 47"
proof -
  have "unat v < 10 ^ Suc 19" for v :: u64
    using less_trans [OF unat_less_u64 [of v], of "10 ^ Suc 19"] by simp
  from length_dec [OF this] have d: "length (dec (unat v)) \<le> 20" for v :: u64 by simp
  show ?thesis using d [of e] d [of path] by (simp add: make_ipn_def lit_def)
qed

subsection \<open>Lemmas: the block as bytes\<close>

definition sdnvs :: "u64 list \<Rightarrow> bytes" where
  "sdnvs vs = concat (map sdnv_bytes vs)"

definition dict_offset :: "dictionary \<Rightarrow> bytes \<Rightarrow> u64" where
  "dict_offset d s = of_nat (the (dict_find d s))"

definition eid_offsets :: "dictionary \<Rightarrow> dtn_bundle \<Rightarrow> u64 list" where
  "eid_offsets d b = concat (map (\<lambda>e. [dict_offset d (eid_scheme e), dict_offset d (eid_ssp e)])
     [b_dest b, b_source b, b_replyto b, b_custodian b])"

definition primary_values :: "dtn_bundle \<Rightarrow> u64 list \<Rightarrow> u64 \<Rightarrow> u64 list" where
  "primary_values b offs n = offs @ [seconds (b_creation_ts b), seqno (b_creation_ts b), b_expiration b, n]"

definition frag_values :: "dtn_bundle \<Rightarrow> u64 list" where
  "frag_values b = (if b_is_fragment b then [ucast (b_frag_offset b), ucast (b_orig_length b)] else [])"

text \<open>The body of a primary block with the offsets \<open>offs\<close> and the dictionary \<open>db\<close>.\<close>

definition primary_body :: "dtn_bundle \<Rightarrow> u64 list \<Rightarrow> bytes \<Rightarrow> bytes" where
  "primary_body b offs db =
     sdnvs (primary_values b offs (of_nat (length db))) @ db @ sdnvs (frag_values b)"

definition primary_pre :: "dtn_bundle \<Rightarrow> u64 list \<Rightarrow> bytes \<Rightarrow> bytes" where
  "primary_pre b offs db =
     CURRENT_VERSION # sdnv_bytes (processing_flags b) @
       sdnv_bytes (of_nat (length (primary_body b offs db)))"

lemma sdnvs_simps [simp]: "sdnvs [] = []" "sdnvs (v # vs) = sdnv_bytes v @ sdnvs vs"
  "sdnvs (vs @ ws) = sdnvs vs @ sdnvs ws"
  by (simp_all add: sdnvs_def)

lemma sdnv_total_eq: "sdnv_total vs = Inr (length (sdnvs vs))"
  by (induction vs) simp_all

lemma pbp_writes_eq:
  "0 \<le> k \<Longrightarrow> int (length (sdnvs vs)) + k < 2 ^ 64 \<Longrightarrow>
     pbp_writes vs (w, int (length (sdnvs vs)) + k) = Inr (w @ sdnvs vs, k)"
proof (induction vs arbitrary: w)
  case (Cons v vs)
  let ?n = "int (length (sdnvs (v # vs))) + k"
  have m: "nat (?n mod 2 ^ 64) = length (sdnvs (v # vs)) + nat k"
    using Cons.prems by simp
  have e: "sdnv_encode v (nat (?n mod 2 ^ 64)) = Some (sdnv_bytes v)"
    unfolding m by (simp add: sdnv_encode_eq)
  have "pbp_write v (w, ?n) = Inr (w @ sdnv_bytes v, int (length (sdnvs vs)) + k)"
    unfolding pbp_write_def snd_conv fst_conv e by simp
  with Cons show ?case by simp
qed simp

lemma pbp_reads_eq: "pbp_reads (length vs) (sdnvs vs @ rest) = Some (vs, rest)"
  by (induction vs) (simp_all add: drop_sdnv_bytes)

lemma length_primary_pre: "length (primary_pre b offs db) \<le> 21"
  using sdnv_val_len_le_10 [of "processing_flags b"]
    sdnv_val_len_le_10 [of "of_nat (length (primary_body b offs db))"]
  by (simp add: primary_pre_def)

lemma length_sdnvs: "length (sdnvs vs) \<le> 10 * length vs"
proof (induction vs)
  case (Cons v vs)
  then show ?case using sdnv_val_len_le_10 [of v] by simp
qed simp

lemma length_primary_body:
  "length offs = 8 \<Longrightarrow> length (primary_body b offs db) \<le> 140 + length db"
  using length_sdnvs [of "primary_values b offs (of_nat (length db))"] length_sdnvs [of "frag_values b"]
  by (simp add: primary_body_def primary_values_def frag_values_def split: if_splits)

text \<open>
  What \<open>get_primary_len\<close> and \<open>generate_primary\<close> do once the offsets are known, with or without a
  dictionary.
\<close>

lemma generate_primary_offsets:
  assumes off: "primary_get_offsets d b primary_zero = Inr (Some p)"
    and db: "db = take (unat (p_dictionary_length p)) (dict_buf d)"
      "unat (p_dictionary_length p) = length db" and len: "length db < 2 ^ 31"
  shows "generate_primary rsv d b block =
    Inr ((bi_reserve rsv (length (primary_pre b (primary_offsets p) db @ primary_body b (primary_offsets p) db)) block)
      \<lparr>bi_data_length := of_nat (length (primary_pre b (primary_offsets p) db @ primary_body b (primary_offsets p) db)),
       bi_contents := primary_pre b (primary_offsets p) db @ primary_body b (primary_offsets p) db\<rparr>)"
proof -
  let ?body = "primary_body b (primary_offsets p) db" and ?f = "processing_flags b"
  let ?vals = "primary_values b (primary_offsets p) (p_dictionary_length p)"
  let ?N = "1 + sdnv_val_len ?f + sdnv_val_len (of_nat (length ?body)) + length ?body"
  have n: "of_nat (length db) = p_dictionary_length p" by (simp flip: db(2))
  have body: "?body = sdnvs ?vals @ db @ sdnvs (frag_values b)" by (simp add: primary_body_def n)
  define q where "q = p\<lparr>p_block_length := of_nat (length ?body), p_processing_flags := ?f,
    p_version := CURRENT_VERSION, p_creation_time := seconds (b_creation_ts b),
    p_creation_sequence := seqno (b_creation_ts b), p_lifetime := b_expiration b\<rparr>"
  have z: "primary_zero\<lparr>p_dictionary_length := 0, p_block_length := 0\<rparr> = primary_zero"
    by (simp add: primary_zero_def)
  have l3: "(if b_is_fragment b then sdnv_total [ucast (b_frag_offset b), ucast (b_orig_length b)]
      else Inr 0) = Inr (length (sdnvs (frag_values b)))"
    by (simp add: sdnv_total_eq frag_values_def)
  have bl: "length (sdnvs (primary_offsets p)) + length (sdnvs [seconds (b_creation_ts b), seqno (b_creation_ts b),
      b_expiration b, p_dictionary_length p]) + unat (p_dictionary_length p) + length (sdnvs (frag_values b)) =
      length ?body" by (simp add: body primary_values_def db(2))
  have g: "get_primary_len d b primary_zero = Inr (?N, q)"
    unfolding get_primary_len_def z Let_def off bindR_Inr option.case l3
    unfolding sdnv_total_eq bindR_Inr bl sdnv_encoding_len_eq
    by (simp add: processing_flags_def q_def)
  have q: "p_processing_flags q = ?f" "p_block_length q = of_nat (length ?body)"
    "primary_offsets q = primary_offsets p" "p_dictionary_length q = p_dictionary_length p"
    by (simp_all add: q_def primary_offsets_def)
  have lo: "length (primary_offsets p) = 8" by (simp add: primary_offsets_def)
  have lb: "length ?body \<le> 140 + length db" by (rule length_primary_body [OF lo])
  have lf: "sdnv_val_len ?f \<le> 10" "sdnv_val_len (of_nat (length ?body)) \<le> 10"
    by (rule sdnv_val_len_le_10)+
  have w1: "pbp_writes ([?f, of_nat (length ?body)] @ ?vals) ([CURRENT_VERSION], int ?N - 1) =
      Inr (CURRENT_VERSION # sdnvs ([?f, of_nat (length ?body)] @ ?vals), int (length db + length (sdnvs (frag_values b))))"
  proof -
    have e: "int ?N - 1 = int (length (sdnvs ([?f, of_nat (length ?body)] @ ?vals))) +
        int (length db + length (sdnvs (frag_values b)))"
      by (simp add: body)
    have "int ?N - 1 < 2 ^ 64" using lb lf len by simp
    then show ?thesis unfolding e by (subst pbp_writes_eq) simp_all
  qed
  have w2: "pbp_writes (frag_values b) (w, int (length db + length (sdnvs (frag_values b))) - int (length db)) =
      Inr (w @ sdnvs (frag_values b), 0)" for w
  proof -
    have "int (length (sdnvs (frag_values b))) + 0 < 2 ^ 64"
      using length_sdnvs [of "frag_values b"] by (simp add: frag_values_def split: if_splits)
    from pbp_writes_eq [OF _ this, of w] show ?thesis by simp
  qed
  have fv: "(if b_is_fragment b then [ucast (b_frag_offset b), ucast (b_orig_length b)] else []) = frag_values b"
    by (simp add: frag_values_def)
  have vv: "[?f, of_nat (length ?body)] @ primary_offsets p @ [seconds (b_creation_ts b), seqno (b_creation_ts b),
      b_expiration b, p_dictionary_length p] = [?f, of_nat (length ?body)] @ ?vals"
    by (simp add: primary_values_def)
  have pre: "length (primary_pre b (primary_offsets p) db @ ?body) = ?N"
    by (simp add: primary_pre_def)
  have t: "take (length db) (dict_buf d) = db" using db by simp
  show ?thesis
    unfolding generate_primary_def g bindR_Inr prod.case q vv fv Let_def w1 db(2) t w2 pre
    by (simp add: primary_pre_def body)
qed

lemma primary_get_offsets_dict:
  assumes "\<not> strncmp_eq (c_str (b_dest b)) (lit ''ipn'') 3"
    and "\<forall>e \<in> {b_dest b, b_source b, b_replyto b, b_custodian b}. dict_knows d e"
    and "length (dict_buf d) < 2 ^ 31"
  shows "\<exists>p. primary_get_offsets d b primary_zero = Inr (Some p) \<and> primary_offsets p = eid_offsets d b \<and>
    unat (p_dictionary_length p) = length (dict_buf d)"
proof -
  have g: "dict_get_offsets d e s0 = Inr (True, the (dict_find d (eid_scheme e)), the (dict_find d (eid_ssp e)))"
    if "dict_knows d e" for e s0
    using that dict_get_offsets_find [of d e] by (auto simp: dict_knows_def)
  have "unat (of_nat (length (dict_buf d)) :: u64) = length (dict_buf d)"
    using assms(3) by (simp add: unat_of_nat)
  then show ?thesis
    using assms(1,2)
    by (simp add: primary_get_offsets_def g primary_offsets_def eid_offsets_def dict_offset_def)
qed

subsection \<open>Lemmas: parsing the block\<close>

lemma sdnv_bytes_0: "sdnv_bytes 0 = [0]"
  by (simp add: sdnv_bytes_def sdnv_fill.simps)

lemma nth_last_append: "xs \<noteq> [] \<Longrightarrow> (xs @ ys) ! (length xs - 1) = last xs"
  by (simp add: nth_append last_conv_nth)

lemma primary_fragment_eq:
  assumes "b_is_fragment b2 = b_is_fragment b"
  shows "primary_fragment (sdnvs (frag_values b)) b2 =
    (True, if b_is_fragment b then b2\<lparr>b_frag_offset := b_frag_offset b, b_orig_length := b_orig_length b\<rparr> else b2)"
proof -
  have u: "\<not> (ucast v :: u64) > 0xffffffff" "ucast (ucast v :: u64) = v" for v :: u32
  proof -
    have "unat v < 4294967296" by (rule unat_less_u32)
    then have "\<not> 4294967295 < unat v" by linarith
    then show "\<not> (ucast v :: u64) > 0xffffffff" by (simp add: word_less_nat_alt)
    show "ucast (ucast v :: u64) = v"
      by (rule bit_eqI) (auto simp: bit_ucast_iff dest: bit_imp_le_length)
  qed
  have d: "sdnv_decode (sdnv_bytes v) = (v, Some (sdnv_val_len v))" for v
    using sdnv_decode_bytes [of v "[]"] by simp
  show ?thesis
    using assms by (simp add: primary_fragment_def frag_values_def u d Let_def drop_sdnv_bytes)
qed

definition with_times :: "dtn_bundle \<Rightarrow> dtn_bundle \<Rightarrow> dtn_bundle" where
  "with_times b b0 = (parse_flags (processing_flags b) b0)
     \<lparr>b_creation_ts := b_creation_ts b, b_expiration := b_expiration b\<rparr>"

lemma primary_parse_bytes:
  assumes c: "bi_contents block = primary_pre b offs db @ primary_body b offs db"
    and fl: "unat (bi_full_length block) = length (primary_pre b offs db @ primary_body b offs db)"
    and dl: "unat (bi_data_length block) = length (primary_body b offs db)"
    and o: "length offs = 8" and db: "length db < 2 ^ 31" "db = [] \<or> last db = 0"
    and e: "primary_eids nm db offs (with_times b b0) = Inr b2"
  shows "primary_parse nm block b0 = Inr (primary_fragment (sdnvs (frag_values b)) b2)"
proof -
  let ?body = "primary_body b offs db" and ?f = "processing_flags b"
  let ?vals = "primary_values b offs (of_nat (length db))" and ?rest = "db @ sdnvs (frag_values b)"
  have r1: "pbp_reads 2 (sdnv_bytes ?f @ sdnv_bytes (of_nat (length ?body)) @ ?body) =
      Some ([?f, of_nat (length ?body)], ?body)"
    using pbp_reads_eq [of "[?f, of_nat (length ?body)]" ?body] by (simp add: eval_nat_numeral)
  have l12: "length ?vals = 12" using o by (simp add: primary_values_def)
  have r2: "pbp_reads 12 ?body = Some (?vals, ?rest)"
    using pbp_reads_eq [of ?vals ?rest] unfolding l12 by (simp add: primary_body_def)
  have v: "?vals ! 8 = seconds (b_creation_ts b)" "?vals ! 9 = seqno (b_creation_ts b)"
    "?vals ! 10 = b_expiration b" "?vals ! 11 = of_nat (length db)" "take 8 ?vals = offs"
    using o by (simp_all add: primary_values_def nth_append)
  have n: "unat (?vals ! 11) = length db" using v(4) db(1) by (simp add: unat_of_nat)
  let ?xs = "primary_pre b offs db @ sdnvs ?vals @ db"
  have last_vals: "last (sdnvs ?vals) = 0" if "db = []"
    using that by (simp add: primary_values_def sdnv_bytes_0)
  have vne: "sdnvs ?vals \<noteq> []" by (simp add: primary_values_def)
  have lx: "last ?xs = 0" using db(2) last_vals vne by (cases "db = []") auto
  have ct: "primary_pre b offs db @ ?body = ?xs @ sdnvs (frag_values b)" by (simp add: primary_body_def)
  have ix: "length (primary_pre b offs db @ ?body) - length ?rest + length db - 1 = length ?xs - 1"
    by (simp add: primary_body_def)
  have z: "(primary_pre b offs db @ ?body) ! (length (primary_pre b offs db @ ?body) - length ?rest + length db - 1) = 0"
    unfolding ix unfolding ct by (rule trans [OF nth_last_append lx]) (simp add: primary_pre_def)
  have w: "(parse_srr_flags ?f (parse_cos_flags ?f (parse_bundle_flags ?f b0)))
      \<lparr>b_creation_ts := Timestamp (?vals ! 8) (?vals ! 9), b_expiration := ?vals ! 10\<rparr> = with_times b b0"
    by (simp add: with_times_def parse_flags_def v)
  have hd: "primary_pre b offs db @ ?body =
      CURRENT_VERSION # sdnv_bytes ?f @ sdnv_bytes (of_nat (length ?body)) @ ?body"
    by (simp add: primary_pre_def)
  have nlt: "\<not> length ?rest < length db" "take (length db) ?rest = db"
    "drop (length db) ?rest = sdnvs (frag_values b)" by simp_all
  have h0: "[?f, of_nat (length ?body)] ! 0 = ?f" by simp
  have a1: "assertR (unat (bi_full_length block) = length (bi_contents block)) = Inr ()"
    and a2: "assertR (length ?body = unat (bi_data_length block)) = Inr ()"
    using fl c dl by simp_all
  show ?thesis
    unfolding primary_parse_def Let_def a1 bindR_Inr
    unfolding c hd list.case r1 option.case prod.case h0 a2 bindR_Inr r2 n w v(5) nlt
    using z e unfolding hd by simp
qed

subsection \<open>Lemmas: receiving the block\<close>

lemma parse_preamble_plain:
  assumes "flags AND BLOCK_FLAG_EID_REFS = 0" "n \<le> 0xFFFFFFFF"
  shows "parse_preamble nm d [] (t # sdnv_bytes flags @ sdnv_bytes n @ rest) =
    Inr (Some flags, PreambleDone [] n (1 + sdnv_val_len flags + sdnv_val_len n))"
proof -
  have d: "drop (Suc (sdnv_val_len flags)) (t # sdnv_bytes flags @ sdnv_bytes n @ rest) = sdnv_bytes n @ rest"
    by simp
  show ?thesis
    using assms d by (simp add: parse_preamble_def PREAMBLE_FIXED_LENGTH_def Let_def not_less)
qed

lemma wire_block_primary:
  assumes "length (primary_body b offs db) < 2 ^ 32 - 21"
  shows "wire_block nm d (primary_pre b offs db) [] (primary_body b offs db)"
proof -
  let ?n = "length (primary_body b offs db)"
  have n: "(of_nat ?n :: u64) \<le> 0xFFFFFFFF" using assms by (simp add: word_le_nat_alt unat_of_nat)
  have "parse_preamble nm d [] (primary_pre b offs db @ rest) =
    Inr (Some (processing_flags b), PreambleDone [] (of_nat ?n) (length (primary_pre b offs db)))" for rest
    using parse_preamble_plain [OF processing_flags_no_eid_refs n] by (simp add: primary_pre_def)
  then show ?thesis
    using length_primary_pre [of b offs db] assms by (auto simp: wire_block_def SCRATCH_LEN_def)
qed

text \<open>The primary block of a bundle that arrives in the pieces \<open>cs\<close>.\<close>

fun primary_chunks ::
  "(nat \<Rightarrow> nat \<Rightarrow> nat) \<Rightarrow> naming \<Rightarrow> dtn_bundle \<Rightarrow> block_info \<Rightarrow> bytes list \<Rightarrow>
     (int \<times> dtn_bundle \<times> block_info) res"
where
  "primary_chunks rsv nm b block [] = Inr (0, b, block)"
| "primary_chunks rsv nm b block (c # cs) =
     bindR (primary_consume rsv nm b block c) (\<lambda>(cc, b, block).
     bindR (primary_chunks rsv nm b block cs) (\<lambda>(cc', b, block). Inr (cc + cc', b, block)))"

lemma primary_chunks_complete:
  assumes w: "wire_block nm (bv_dict (b_recv_blocks b0)) pre [] body" and rs: "scratch_ok rsv"
    and p: "\<And>blk. rx_block PRIMARY_BLOCK pre [] body (pre @ body) blk \<Longrightarrow> primary_parse nm blk b0 = Inr (True, b1)"
  shows "rx_block PRIMARY_BLOCK pre [] body bs blk \<Longrightarrow> bs @ concat cs = pre @ body \<Longrightarrow> \<forall>c \<in> set cs. c \<noteq> [] \<Longrightarrow>
    cs \<noteq> [] \<Longrightarrow>
    \<exists>blk'. primary_chunks rsv nm b0 blk cs = Inr (int (length (concat cs)), b1, blk') \<and>
      rx_block PRIMARY_BLOCK pre [] body (pre @ body) blk'"
proof (induction cs arbitrary: bs blk)
  case (Cons c cs)
  let ?d = "bv_dict (b_recv_blocks b0)"
  have eq: "bs @ c @ concat cs = pre @ body" using Cons.prems by simp
  then have len: "length bs + length c + length (concat cs) = length pre + length body"
    by (metis add.assoc length_append)
  have "0 < length c" using Cons.prems(3) by simp
  then have "length bs < length pre + length body" using len by linarith
  then have nc: "\<not> bi_complete blk" and l: "length bs \<le> length pre + length body"
    using Cons.prems(1) by (auto simp: rx_block_def split: if_splits)
  have t: "bs @ c = take (length bs + length c) (pre @ body @ [])"
    using arg_cong [OF eq, of "take (length bs + length c)"] by simp
  have t2: "take (length pre + length body) (bs @ c) = bs @ c" using len by simp
  have m: "min (length c) (length pre + length body - length bs) = length c" using len by linarith
  from block_consume_step [OF w rs Cons.prems(1) nc l t] obtain k1 where
    k1: "block_consume rsv nm ?d blk c = Inr (int (length c), k1)" "rx_block PRIMARY_BLOCK pre [] body (bs @ c) k1"
    unfolding m t2 by blast
  show ?case
  proof (cases "cs = []")
    case True
    with eq have f: "bs @ c = pre @ body" by simp
    then have "bi_complete k1" using k1(2) wire_block_length [OF w]
      by (auto simp: rx_block_def split: if_splits dest: arg_cong [of _ _ length])
    with True f k1 p nc show ?thesis by (auto simp: primary_consume_def)
  next
    case False
    then obtain x xs where "cs = x # xs" by (cases cs) auto
    then have "0 < length (concat cs)" using Cons.prems(3) by simp
    then have "\<not> bi_complete k1" using k1(2) len by (auto simp: rx_block_def split: if_splits)
    then have "primary_consume rsv nm b0 blk c = Inr (int (length c), b0, k1)"
      using k1(1) nc by (simp add: primary_consume_def)
    moreover from Cons.IH [OF k1(2)] eq Cons.prems(3) False obtain blk' where
      "primary_chunks rsv nm b0 k1 cs = Inr (int (length (concat cs)), b1, blk')"
      "rx_block PRIMARY_BLOCK pre [] body (pre @ body) blk'" by auto
    ultimately show ?thesis by simp
  qed
qed simp

lemma rx_block_lengths:
  assumes "rx_block owner pre es data (pre @ data) blk" "length pre + length data < 2 ^ 32"
  shows "bi_contents blk = pre @ data" "unat (bi_full_length blk) = length (pre @ data)"
    "unat (bi_data_length blk) = length data"
proof -
  have l: "bi_contents blk = pre @ data" "bi_data_offset blk = of_nat (length pre)"
    "bi_data_length blk = of_nat (length data)" using assms(1) by (auto simp: rx_block_def)
  from l(1) show "bi_contents blk = pre @ data" .
  show "unat (bi_full_length blk) = length (pre @ data)"
    using assms(2) l unat_of_nat_u32 [of "length pre + length data"]
    by (simp only: bi_full_length_def of_nat_add length_append)
  show "unat (bi_data_length blk) = length data" using assms(2) l by (simp add: unat_of_nat_u32)
qed

lemma eid_offsets_nth:
  "length (eid_offsets d b) = 8"
  "eid_offsets d b ! 0 = dict_offset d (eid_scheme (b_dest b))"
  "eid_offsets d b ! Suc 0 = dict_offset d (eid_ssp (b_dest b))"
  "eid_offsets d b ! 2 = dict_offset d (eid_scheme (b_source b))"
  "eid_offsets d b ! 3 = dict_offset d (eid_ssp (b_source b))"
  "eid_offsets d b ! 4 = dict_offset d (eid_scheme (b_replyto b))"
  "eid_offsets d b ! 5 = dict_offset d (eid_ssp (b_replyto b))"
  "eid_offsets d b ! 6 = dict_offset d (eid_scheme (b_custodian b))"
  "eid_offsets d b ! 7 = dict_offset d (eid_ssp (b_custodian b))"
  by (simp_all add: eid_offsets_def)

lemma extract_eid_offset:
  assumes "dict_invar d" "eid_ok nm e" "dict_knows d e" "length (dict_buf d) < 2 ^ 31"
  shows "extract_eid nm (dict_rx d) e0 (dict_offset d (eid_scheme e)) (dict_offset d (eid_ssp e)) = Inr (e, True)"
  using assms extract_eid_received [OF assms(1,2)] by (auto simp: dict_offset_def dict_knows_def dict_rx_def)

lemma primary_eids_dict:
  assumes inv: "dict_invar d" "length (dict_buf d) < 2 ^ 31" "dict_buf d \<noteq> []"
    and k: "\<forall>e \<in> {b_dest b, b_source b, b_replyto b, b_custodian b}. eid_ok nm e \<and> dict_knows d e"
    and r: "bv_dict (b_recv_blocks b0) = dict_empty"
  shows "primary_eids nm (dict_buf d) (eid_offsets d b) b0 =
    Inr (b0\<lparr>b_source := b_source b, b_dest := b_dest b, b_replyto := b_replyto b, b_custodian := b_custodian b,
      b_recv_blocks := (b_recv_blocks b0)\<lparr>bv_dict := dict_rx d\<rparr>\<rparr>)"
proof -
  have s: "set_dict dict_empty (dict_buf d) = Inr (dict_rx d)"
    by (simp add: set_dict_def dict_empty_def dict_rx_def)
  have x: "extract_eid nm (dict_rx d) e0 (dict_offset d (eid_scheme e)) (dict_offset d (eid_ssp e)) = Inr (e, True)"
    if "e \<in> {b_dest b, b_source b, b_replyto b, b_custodian b}" for e e0
    using extract_eid_offset [OF inv(1) _ _ inv(2)] k that by blast
  show ?thesis
    using inv(3) by (simp add: primary_eids_def r s eid_offsets_nth x)
qed

lemma dict_invar_last: "dict_invar d \<Longrightarrow> dict_buf d = [] \<or> last (dict_buf d) = 0"
proof -
  have "dict_enc ss = [] \<or> last (dict_enc ss) = 0" for ss by (induction ss) auto
  then show "dict_invar d \<Longrightarrow> dict_buf d = [] \<or> last (dict_buf d) = 0"
    unfolding dict_invar_def dict_rel_def by metis
qed

lemma dict_knows_nonempty:
  assumes "dict_invar d" "dict_knows d e" "eid_clean e"
  shows "dict_buf d \<noteq> []"
  using assms dict_find_bound [OF assms(1), of "eid_scheme e"] by (auto simp: dict_knows_def eid_clean_def)

lemma pbp_reads_suffix:
  "pbp_reads n buf = Some (vs, r) \<Longrightarrow> length vs = n \<and> (\<exists>k. r = drop k buf \<and> k \<le> length buf \<and> (0 < n \<longrightarrow> 0 < k))"
proof (induction n arbitrary: buf vs r)
  case (Suc n)
  then obtain v k vs' where d: "sdnv_decode buf = (v, Some k)" and p: "pbp_reads n (drop k buf) = Some (vs', r)"
    and vs: "vs = v # vs'" by (auto split: prod.splits option.splits)
  from Suc.IH [OF p] obtain j where "length vs' = n" "r = drop j (drop k buf)" "j \<le> length (drop k buf)" by blast
  moreover have "k \<le> length buf" "0 < k" using sdnv_decode_prefix [OF d] by auto
  ultimately show ?case using vs by (auto simp: add.commute intro!: exI [of _ "j + k"])
qed (auto intro: exI [of _ 0])

lemma primary_eids_total:
  assumes "bv_dict (b_recv_blocks b) = dict_empty" "db = [] \<or> last db = 0"
  shows "\<exists>b'. primary_eids nm db offs b = Inr b'"
proof (cases "db = []")
  case False
  obtain d where d: "set_dict dict_empty db = Inr d" by (auto simp: set_dict_def dict_empty_def)
  have x: "\<exists>e' ok. extract_eid nm d e so po = Inr (e', ok)" for e so po
    using extract_eid_returns [OF False _ d] assms(2) False by blast
  obtain e1 k1 where x1: "extract_eid nm d (b_source b) (offs ! 2) (offs ! 3) = Inr (e1, k1)" using x by blast
  obtain e2 k2 where x2: "extract_eid nm d (b_dest b) (offs ! 0) (offs ! 1) = Inr (e2, k2)" using x by blast
  obtain e3 k3 where x3: "extract_eid nm d (b_replyto b) (offs ! 4) (offs ! 5) = Inr (e3, k3)" using x by blast
  obtain e4 k4 where x4: "extract_eid nm d (b_custodian b) (offs ! 6) (offs ! 7) = Inr (e4, k4)" using x by blast
  show ?thesis using False d x1 x2 x3 x4 assms(1) by (simp add: primary_eids_def)
qed (simp add: primary_eids_def)

lemma parse_flags_recv [simp]: "b_recv_blocks (parse_srr_flags f (parse_cos_flags f (parse_bundle_flags f b))) = b_recv_blocks b"
  by (simp add: parse_srr_flags_def parse_cos_flags_def parse_bundle_flags_def)

text \<open>Once the lengths agree, parsing arbitrary received bytes does not fail an assertion.\<close>

lemma primary_parse_total:
  assumes c: "bi_contents blk = v # buf" and fl: "unat (bi_full_length blk) = Suc (length buf)"
    and r: "\<And>hdr rest. pbp_reads 2 buf = Some (hdr, rest) \<Longrightarrow> length rest = unat (bi_data_length blk)"
    and d: "bv_dict (b_recv_blocks b) = dict_empty"
  shows "\<exists>ok b'. primary_parse nm blk b = Inr (ok, b')"
proof (cases "v = CURRENT_VERSION \<and> pbp_reads 2 buf \<noteq> None")
  case False
  then have "v \<noteq> CURRENT_VERSION \<or> pbp_reads 2 buf = None" by blast
  then show ?thesis using c fl by (elim disjE) (auto simp: primary_parse_def Let_def)
next
  case True
  then obtain hdr rest where h: "pbp_reads 2 buf = Some (hdr, rest)" by auto
  have v: "v = CURRENT_VERSION" using True by blast
  define b1 where "b1 = parse_srr_flags (hdr ! 0) (parse_cos_flags (hdr ! 0) (parse_bundle_flags (hdr ! 0) b))"
  show ?thesis
  proof (cases "pbp_reads 12 rest")
    case None
    then show ?thesis using c fl v h r [OF h] by (auto simp: primary_parse_def Let_def)
  next
    case (Some p)
    obtain vs buf2 where s: "pbp_reads 12 rest = Some (vs, buf2)" using Some by (cases p) auto
    define b2 where "b2 = b1\<lparr>b_creation_ts := Timestamp (vs ! 8) (vs ! 9), b_expiration := vs ! 10\<rparr>"
    define n where "n = unat (vs ! 11)"
    define ok where "ok \<longleftrightarrow> n \<le> length buf2 \<and> (v # buf) ! (Suc (length buf) - length buf2 + n - 1) = 0"
    have e: "primary_parse nm blk b = (if \<not> ok then Inr (False, b2) else
        bindR (primary_eids nm (take n buf2) (take 8 vs) b2) (\<lambda>b. Inr (primary_fragment (drop n buf2) b)))"
      using c fl v h r [OF h] s
      by (auto simp: primary_parse_def Let_def b1_def b2_def n_def ok_def)
    show ?thesis
    proof (cases ok)
      case True
      from pbp_reads_suffix [OF h] pbp_reads_suffix [OF s] obtain xs where xs: "v # buf = xs @ buf2"
        by (metis append_Cons append_take_drop_id append.assoc)
      have i: "Suc (length buf) - length buf2 = length xs"
        using arg_cong [OF xs, of length] by simp
      have "take n buf2 = [] \<or> last (take n buf2) = 0"
      proof (cases "n = 0 \<or> buf2 = []")
        case False
        have "n \<le> length buf2" using True by (simp add: ok_def)
        with False have "last (take n buf2) = buf2 ! (n - 1)"
          by (simp add: last_conv_nth min_absorb2)
        moreover have "(xs @ buf2) ! (length xs + n - 1) = buf2 ! (n - 1)"
          using False nth_append_length_plus [of xs buf2 "n - 1"] by (cases n) simp_all
        ultimately show ?thesis using True unfolding ok_def i xs by simp
      qed auto
      moreover have "bv_dict (b_recv_blocks b2) = dict_empty" using d by (simp add: b2_def b1_def)
      ultimately obtain b3 where "primary_eids nm (take n buf2) (take 8 vs) b2 = Inr b3"
        using primary_eids_total by blast
      then show ?thesis using e True by (cases "primary_fragment (drop n buf2) b3") auto
    qed (use e in auto)
  qed
qed

definition same_header :: "dtn_bundle \<Rightarrow> dtn_bundle \<Rightarrow> bool" where
  "same_header b b' \<longleftrightarrow>
     b_is_fragment b' = b_is_fragment b \<and> b_is_admin b' = b_is_admin b \<and>
     b_do_not_fragment b' = b_do_not_fragment b \<and> b_custody_requested b' = b_custody_requested b \<and>
     b_singleton_dest b' = b_singleton_dest b \<and> b_app_acked_rcpt b' = b_app_acked_rcpt b \<and>
     b_priority b' = b_priority b \<and> b_receive_rcpt b' = b_receive_rcpt b \<and>
     b_custody_rcpt b' = b_custody_rcpt b \<and> b_forward_rcpt b' = b_forward_rcpt b \<and>
     b_delivery_rcpt b' = b_delivery_rcpt b \<and> b_deletion_rcpt b' = b_deletion_rcpt b \<and>
     b_creation_ts b' = b_creation_ts b \<and> b_expiration b' = b_expiration b \<and>
     b_source b' = b_source b \<and> b_dest b' = b_dest b \<and> b_replyto b' = b_replyto b \<and>
     b_custodian b' = b_custodian b \<and>
     (b_is_fragment b \<longrightarrow> b_frag_offset b' = b_frag_offset b \<and> b_orig_length b' = b_orig_length b)"

lemma same_header_received:
  assumes "b_priority b < 4" "\<not> receipt_requested b0"
    and "b1 = (with_times b b0)\<lparr>b_source := b_source b, b_dest := b_dest b, b_replyto := b_replyto b,
      b_custodian := b_custodian b, b_recv_blocks := rb\<rparr>"
    and "b2 = (if b_is_fragment b then b1\<lparr>b_frag_offset := b_frag_offset b, b_orig_length := b_orig_length b\<rparr> else b1)"
  shows "same_header b b2"
proof -
  have "b_priority b AND 3 = b_priority b"
  proof (rule bit_eqI)
    fix n assume "possible_bit TYPE(byte) n"
    have "b_priority b = take_bit 2 (b_priority b)" using assms(1)
      by (simp add: word_unat_eq_iff unsigned_take_bit_eq take_bit_nat_eq_self word_less_nat_alt)
    then have "bit (b_priority b) n \<Longrightarrow> n < 2" by (metis bit_take_bit_iff)
    then show "bit (b_priority b AND 3) n = bit (b_priority b) n"
      by (auto simp: bit_and_iff bit_3 less_2_cases_iff)
  qed
  then show ?thesis
    using assms(2-) by (auto simp: same_header_def with_times_def parse_flags_processing receipt_requested_def)
qed

lemma parse_preamble_empty_refs:
  assumes "f AND BLOCK_FLAG_EID_REFS \<noteq> 0" "n \<le> 0xFFFFFFFF"
  shows "parse_preamble nm d [] (t # sdnv_bytes f @ sdnv_bytes 0 @ sdnv_bytes n @ rest) =
    Inr (Some f, PreambleDone [] n (2 + sdnv_val_len f + sdnv_val_len n))"
proof -
  let ?buf = "t # sdnv_bytes f @ sdnv_bytes 0 @ sdnv_bytes n @ rest"
  have d: "drop (Suc (sdnv_val_len f)) ?buf = sdnv_bytes 0 @ sdnv_bytes n @ rest"
    "drop (Suc (Suc (sdnv_val_len f))) ?buf = sdnv_bytes n @ rest"
    by (simp_all add: sdnv_bytes_0)
  have z: "sdnv_val_len 0 = 1" using length_sdnv_bytes [of 0] by (simp add: sdnv_bytes_0)
  have e: "preamble_eids nm d 0 buf 0 off [] = Inr (Some ([], off))" for buf off
    by (simp add: preamble_eids.simps)
  show ?thesis
    using assms d e z
    by (simp add: parse_preamble_def PREAMBLE_FIXED_LENGTH_def Let_def not_less)
qed

lemma primary_consume_whole:
  assumes w: "wire_block nm (bv_dict (b_recv_blocks b0)) pre [] body" and rs: "scratch_ok rsv"
  shows "\<exists>blk. rx_block PRIMARY_BLOCK pre [] body (pre @ body) blk \<and>
    primary_consume rsv nm b0 (block_new PRIMARY_BLOCK None) (pre @ body) =
      bindR (primary_parse nm blk b0) (\<lambda>(ok, b). Inr (if ok then int (length (pre @ body)) else - 1, b, blk))"
proof -
  have t: "[] @ (pre @ body) = take (length [] + length (pre @ body)) (pre @ body @ [])" by simp
  from block_consume_step [OF w rs rx_block_new [OF w, of PRIMARY_BLOCK None] _ _ t] obtain blk where
    b: "block_consume rsv nm (bv_dict (b_recv_blocks b0)) (block_new PRIMARY_BLOCK None) (pre @ body) =
      Inr (int (length (pre @ body)), blk)" "rx_block PRIMARY_BLOCK pre [] body (pre @ body) blk" by auto
  then have "bi_complete blk" by (auto simp: rx_block_def)
  with b show ?thesis 
    by (intro exI [of _ blk]) (cases "primary_parse nm blk b0", auto simp: primary_consume_def)
qed

lemma get_ipn_False: "get_ipn t x y = (False, u, v) \<Longrightarrow> u = x \<and> v = y"
  by (auto simp: get_ipn_def split: if_splits option.splits prod.splits list.splits)

lemma ipn_strncmp: "e \<noteq> 0 \<Longrightarrow> strncmp_eq (make_ipn e path) (lit ''ipn'') 3"
  by (simp add: make_ipn_def lit_def eval_nat_numeral)

text \<open>
  The block of a bundle under a dictionary that knows its identifiers: the bytes written, and the
  bundle that the receiver ends with when they arrive in a bundle \<open>b0\<close>.
\<close>

definition primary_head :: "dictionary \<Rightarrow> dtn_bundle \<Rightarrow> bytes" where
  "primary_head d b = primary_pre b (eid_offsets d b) (dict_buf d)"

definition primary_tail :: "dictionary \<Rightarrow> dtn_bundle \<Rightarrow> bytes" where
  "primary_tail d b = primary_body b (eid_offsets d b) (dict_buf d)"

definition primary_fits :: "naming \<Rightarrow> dictionary \<Rightarrow> dtn_bundle \<Rightarrow> bool" where
  "primary_fits nm d b \<longleftrightarrow> dict_invar d \<and> length (dict_buf d) < 2 ^ 31 \<and>
     (\<forall>e \<in> {b_dest b, b_source b, b_replyto b, b_custodian b}. eid_ok nm e \<and> dict_knows d e) \<and>
     \<not> strncmp_eq (c_str (b_dest b)) (lit ''ipn'') 3 \<and> b_priority b < 4"

definition received_primary :: "dictionary \<Rightarrow> dtn_bundle \<Rightarrow> dtn_bundle \<Rightarrow> dtn_bundle" where
  "received_primary d b b0 =
     (let b1 = (with_times b b0)\<lparr>b_source := b_source b, b_dest := b_dest b, b_replyto := b_replyto b,
        b_custodian := b_custodian b, b_recv_blocks := (b_recv_blocks (with_times b b0))\<lparr>bv_dict := dict_rx d\<rparr>\<rparr>
      in if b_is_fragment b then b1\<lparr>b_frag_offset := b_frag_offset b, b_orig_length := b_orig_length b\<rparr> else b1)"

lemma primary_lengths:
  assumes "length (dict_buf d) < 2 ^ 31"
  shows "length (primary_tail d b) < 2 ^ 32 - 21" "length (primary_head d b) \<le> 21"
    "length (primary_head d b) + length (primary_tail d b) < 2 ^ 32"
  using length_primary_body [OF eid_offsets_nth(1) [of d b], of b "dict_buf d"]
    length_primary_pre [of b "eid_offsets d b" "dict_buf d"] assms
  by (simp_all add: primary_head_def primary_tail_def)

lemma generate_primary_dict:
  assumes "primary_fits nm d b"
  shows "generate_primary rsv d b block =
    Inr ((bi_reserve rsv (length (primary_head d b @ primary_tail d b)) block)
      \<lparr>bi_data_length := of_nat (length (primary_head d b @ primary_tail d b)),
       bi_contents := primary_head d b @ primary_tail d b\<rparr>)"
proof -
  have a: "length (dict_buf d) < 2 ^ 31" "\<not> strncmp_eq (c_str (b_dest b)) (lit ''ipn'') 3"
    "\<forall>e \<in> {b_dest b, b_source b, b_replyto b, b_custodian b}. dict_knows d e"
    using assms by (auto simp: primary_fits_def)
  from primary_get_offsets_dict [OF a(2,3,1)] obtain p where
    p: "primary_get_offsets d b primary_zero = Inr (Some p)" "primary_offsets p = eid_offsets d b"
      "unat (p_dictionary_length p) = length (dict_buf d)" by blast
  have t: "dict_buf d = take (unat (p_dictionary_length p)) (dict_buf d)" using p(3) by simp
  show ?thesis
    using generate_primary_offsets [OF p(1) t p(3) a(1), of rsv block]
    by (simp add: p(2) primary_head_def primary_tail_def)
qed

lemma wire_block_primary_dict:
  "primary_fits nm d b \<Longrightarrow> wire_block nm' dict (primary_head d b) [] (primary_tail d b)"
  unfolding primary_head_def primary_tail_def
  by (rule wire_block_primary) (use primary_lengths(1) [of d b] in \<open>simp add: primary_tail_def primary_fits_def\<close>)

lemma primary_parse_dict:
  assumes "primary_fits nm d b" "bv_dict (b_recv_blocks b0) = dict_empty"
    and rx: "rx_block PRIMARY_BLOCK (primary_head d b) [] (primary_tail d b) (primary_head d b @ primary_tail d b) k"
  shows "primary_parse nm k b0 = Inr (True, received_primary d b b0)"
proof -
  have a: "dict_invar d" "length (dict_buf d) < 2 ^ 31"
    "\<forall>e \<in> {b_dest b, b_source b, b_replyto b, b_custodian b}. eid_ok nm e \<and> dict_knows d e"
    using assms by (simp_all add: primary_fits_def)
  define b1 where "b1 = (with_times b b0)\<lparr>b_source := b_source b, b_dest := b_dest b, b_replyto := b_replyto b,
      b_custodian := b_custodian b, b_recv_blocks := (b_recv_blocks (with_times b b0))\<lparr>bv_dict := dict_rx d\<rparr>\<rparr>"
  have ne: "dict_buf d \<noteq> []" using dict_knows_nonempty [OF a(1), of "b_dest b"] a(3) by auto
  have rw: "bv_dict (b_recv_blocks (with_times b b0)) = dict_empty"
    using assms(2) by (simp add: with_times_def parse_flags_processing)
  have e: "primary_eids nm (dict_buf d) (eid_offsets d b) (with_times b b0) = Inr b1"
    unfolding b1_def by (rule primary_eids_dict [OF a(1,2) ne a(3) rw])
  have f: "b_is_fragment b1 = b_is_fragment b" by (simp add: b1_def with_times_def parse_flags_processing)
  note l = rx_block_lengths [OF rx primary_lengths(3) [OF a(2)], unfolded primary_head_def primary_tail_def]
  have p: "primary_parse nm k b0 = Inr (primary_fragment (sdnvs (frag_values b)) b1)"
    by (rule primary_parse_bytes [OF l eid_offsets_nth(1) a(2) dict_invar_last [OF a(1)] e])
  show ?thesis
    unfolding p primary_fragment_eq [OF f] by (simp add: received_primary_def b1_def Let_def)
qed

lemma received_primary_simps [simp]:
  "b_recv_blocks (received_primary d b b0) = (b_recv_blocks b0)\<lparr>bv_dict := dict_rx d\<rparr>"
  "b_payload (received_primary d b b0) = b_payload b0"
  by (simp_all add: received_primary_def with_times_def parse_flags_processing Let_def)

lemma same_header_primary:
  "primary_fits nm d b \<Longrightarrow> \<not> receipt_requested b0 \<Longrightarrow> same_header b (received_primary d b b0)"
  unfolding received_primary_def Let_def
  by (rule same_header_received [OF _ _ refl refl]) (simp_all add: primary_fits_def)

subsection \<open>Concrete values for the witnesses\<close>

definition example_eid :: eid where
  "example_eid = eid_assign simple_naming (lit ''dtn://a'')"

definition example_dict :: dictionary where
  "example_dict = \<lparr>dict_buf = lit ''dtn'' @ 0 # lit ''//a'' @ [0], dict_cap = 64, dict_alloc = True\<rparr>"

definition example_bundle :: "eid \<Rightarrow> dtn_bundle" where
  "example_bundle e =
     (case bundle_init 1000000000 7 MEMORY of
        Inr b \<Rightarrow> b\<lparr>b_source := example_eid, b_dest := e, b_replyto := example_eid,
                    b_custodian := example_eid, b_is_fragment := True, b_frag_offset := 300,
                    b_orig_length := 1000, b_custody_rcpt := True, b_expiration := 3600\<rparr>)"

definition example_receiver :: dtn_bundle where
  "example_receiver = (case bundle_init 1000000000 8 MEMORY of Inr b \<Rightarrow> b)"

lemma example_bundle_simps:
  "b_source (example_bundle e) = example_eid" "b_dest (example_bundle e) = e"
  "b_replyto (example_bundle e) = example_eid" "b_custodian (example_bundle e) = example_eid"
  "b_priority (example_bundle e) = 1"
  by (simp_all add: example_bundle_def bundle_init_def get_current_time_def TIMEVAL_CONVERSION_def
      Let_def COS_NORMAL_def)

lemma example_receiver_simps:
  "bv_dict (b_recv_blocks example_receiver) = dict_empty" "\<not> receipt_requested example_receiver"
  by (simp_all add: example_receiver_def bundle_init_def get_current_time_def TIMEVAL_CONVERSION_def
      Let_def block_vec_new_def receipt_requested_def)

lemma example_eid_simps:
  "eid_scheme example_eid = lit ''dtn''" "eid_ssp example_eid = lit ''//a''"
  "eid_str example_eid = lit ''dtn://a''" "eid_ok simple_naming example_eid"
  by (simp_all add: example_eid_def eid_ok_def eid_assign2_def eid_assign_def eid_validate_def
      simple_naming_def simple_parse_def MAX_EID_PART_LENGTH_def Let_def lit_def)

lemma example_dict_simps:
  "dict_invar example_dict" "dict_knows example_dict example_eid" "length (dict_buf example_dict) = 8"
proof -
  have cl: "\<forall>x \<in> set [example_eid]. eid_clean x" using example_eid_simps(4) by auto
  have d: "foldl dict_add dict_empty (eid_parts [example_eid]) = example_dict"
    using dict_add_example [OF example_eid_simps(1,2)] dict_add_eids_eq [OF dict_invar_empty cl]
    by (simp only: example_dict_def sum.inject(2))
  show "dict_invar example_dict"
    using dict.invar_fold [OF dict_invar_empty eid_parts_clean [OF cl]] unfolding d .
  show "dict_knows example_dict example_eid"
    using dict_knows_added [OF dict_invar_empty cl, of example_eid] unfolding d by simp
  show "length (dict_buf example_dict) = 8" by (simp add: example_dict_def lit_def)
qed

subsection \<open>Properties\<close>

text \<open>
  C9: the primary block survives transmission. For a bundle whose four endpoint identifiers are
  well formed and entered in the dictionary of the outgoing block list (and whose destination is
  not an \<open>ipn\<close> identifier), \<open>generate_primary\<close> passes all its assertions, in particular the length
  computed beforehand is the length written; and a receiver given the bytes of the block in any
  number of non-empty pieces ends with a complete block and a bundle with the same processing
  flags, priority, identifiers, creation timestamp, lifetime and fragment fields.
\<close>

theorem primary_roundtrip:
  assumes "dict_invar d" "length (dict_buf d) < 2 ^ 31" "scratch_ok rsv"
    and "\<forall>e \<in> {b_dest b, b_source b, b_replyto b, b_custodian b}. eid_ok nm e \<and> dict_knows d e"
    and "\<not> strncmp_eq (c_str (b_dest b)) (lit ''ipn'') 3" "b_priority b < 4"
    and "bv_dict (b_recv_blocks b0) = dict_empty" "\<not> receipt_requested b0"
  shows "\<exists>blk. generate_primary rsv d b (block_new PRIMARY_BLOCK None) = Inr blk \<and>
    unat (bi_full_length blk) = length (bi_contents blk) \<and>
    (\<forall>cs. cs \<noteq> [] \<longrightarrow> (\<forall>c \<in> set cs. c \<noteq> []) \<longrightarrow> concat cs = bi_contents blk \<longrightarrow>
      (\<exists>b1 blk1. primary_chunks rsv nm b0 (block_new PRIMARY_BLOCK None) cs =
           Inr (int (length (bi_contents blk)), b1, blk1) \<and>
         bi_complete blk1 \<and> bi_contents blk1 = bi_contents blk \<and> same_header b b1 \<and>
         dict_buf (bv_dict (b_recv_blocks b1)) = dict_buf d))"
proof -
  let ?pre = "primary_head d b" and ?body = "primary_tail d b" and ?b1 = "received_primary d b b0"
  have fits: "primary_fits nm d b" using assms by (simp add: primary_fits_def)
  obtain blk where blk: "generate_primary rsv d b (block_new PRIMARY_BLOCK None) = Inr blk"
    "bi_contents blk = ?pre @ ?body" "unat (bi_full_length blk) = length (?pre @ ?body)"
    using generate_primary_dict [OF fits, of rsv "block_new PRIMARY_BLOCK None"] primary_lengths(3) [OF assms(2), of b]
      unat_of_nat_u32 [of "length (?pre @ ?body)"]
    by (auto simp: bi_full_length_def simp del: of_nat_add)
  note w = wire_block_primary_dict [OF fits, of nm "bv_dict (b_recv_blocks b0)"]
  show ?thesis
  proof (intro exI [of _ blk] conjI allI impI)
    fix cs assume cs: "cs \<noteq> []" "\<forall>c \<in> set cs. c \<noteq> []" "concat cs = bi_contents blk"
    have "[] @ concat cs = ?pre @ ?body" using cs(3) blk(2) by simp
    from primary_chunks_complete [OF w assms(3) primary_parse_dict [OF fits assms(7)] rx_block_new [OF w] this cs(2,1)]
    obtain k where
      k: "primary_chunks rsv nm b0 (block_new PRIMARY_BLOCK None) cs = Inr (int (length (concat cs)), ?b1, k)"
      "rx_block PRIMARY_BLOCK ?pre [] ?body (?pre @ ?body) k" by blast
    then show "\<exists>b1 blk1. primary_chunks rsv nm b0 (block_new PRIMARY_BLOCK None) cs =
           Inr (int (length (bi_contents blk)), b1, blk1) \<and>
         bi_complete blk1 \<and> bi_contents blk1 = bi_contents blk \<and> same_header b b1 \<and>
         dict_buf (bv_dict (b_recv_blocks b1)) = dict_buf d"
      using same_header_primary [OF fits assms(8)] cs(3) blk(2) by (auto simp: rx_block_def dict_rx_def)
  qed (use blk in simp_all)
qed

theorem primary_roundtrip_witness:
  "\<exists>blk b1 blk1. generate_primary max example_dict (example_bundle example_eid) (block_new PRIMARY_BLOCK None) = Inr blk \<and>
     primary_chunks max simple_naming example_receiver (block_new PRIMARY_BLOCK None)
       [take 5 (bi_contents blk), drop 5 (bi_contents blk)] =
       Inr (int (length (bi_contents blk)), b1, blk1) \<and>
     same_header (example_bundle example_eid) b1"
proof -
  have k: "\<forall>e \<in> {b_dest (example_bundle example_eid), b_source (example_bundle example_eid),
      b_replyto (example_bundle example_eid), b_custodian (example_bundle example_eid)}.
      eid_ok simple_naming e \<and> dict_knows example_dict e"
    using example_eid_simps(4) example_dict_simps(2) by (simp add: example_bundle_simps)
  have n: "\<not> strncmp_eq (c_str (b_dest (example_bundle example_eid))) (lit ''ipn'') 3"
    by (simp add: example_bundle_simps example_eid_simps c_str_def lit_def numeral_3_eq_3)
  have p: "b_priority (example_bundle example_eid) < 4" by (simp add: example_bundle_simps)
  have l: "length (dict_buf example_dict) < 2 ^ 31" by (simp add: example_dict_simps)
  have len: "\<exists>blk. generate_primary max example_dict (example_bundle example_eid) (block_new PRIMARY_BLOCK None) = Inr blk \<and>
      5 < length (bi_contents blk)"
  proof -
    have "case generate_primary max example_dict (example_bundle example_eid) (block_new PRIMARY_BLOCK None) of
        Inl _ \<Rightarrow> False | Inr blk \<Rightarrow> 5 < length (bi_contents blk)" by code_simp
    then show ?thesis by (auto split: sum.split_asm)
  qed
  from primary_roundtrip [OF example_dict_simps(1) l scratch_ok_max k n p example_receiver_simps] len
  obtain blk where blk: "generate_primary max example_dict (example_bundle example_eid) (block_new PRIMARY_BLOCK None) = Inr blk"
    "5 < length (bi_contents blk)" and rx: "\<forall>cs. cs \<noteq> [] \<longrightarrow> (\<forall>c \<in> set cs. c \<noteq> []) \<longrightarrow> concat cs = bi_contents blk \<longrightarrow>
      (\<exists>b1 blk1. primary_chunks max simple_naming example_receiver (block_new PRIMARY_BLOCK None) cs =
           Inr (int (length (bi_contents blk)), b1, blk1) \<and>
         bi_complete blk1 \<and> bi_contents blk1 = bi_contents blk \<and> same_header (example_bundle example_eid) b1 \<and>
         dict_buf (bv_dict (b_recv_blocks b1)) = dict_buf example_dict)" by auto
  from rx [rule_format, of "[take 5 (bi_contents blk), drop 5 (bi_contents blk)]"] blk show ?thesis by force
qed

text \<open>
  The processing flags. Parsing the flags word formatted from a bundle sets in the
  receiving bundle exactly the sender's six bundle flags and the two low bits of its priority,
  and turns on exactly the sender's receipt flags (it never turns one off); and a formatted flags
  word never has the bit that means "endpoint references follow" in other blocks.
\<close>

theorem primary_flags_roundtrip:
  "parse_srr_flags f (parse_cos_flags f (parse_bundle_flags f b0)) = b0\<lparr>
     b_is_fragment := b_is_fragment b, b_is_admin := b_is_admin b,
     b_do_not_fragment := b_do_not_fragment b, b_custody_requested := b_custody_requested b,
     b_singleton_dest := b_singleton_dest b, b_app_acked_rcpt := b_app_acked_rcpt b,
     b_priority := b_priority b AND 3,
     b_receive_rcpt := b_receive_rcpt b \<or> b_receive_rcpt b0,
     b_custody_rcpt := b_custody_rcpt b \<or> b_custody_rcpt b0,
     b_forward_rcpt := b_forward_rcpt b \<or> b_forward_rcpt b0,
     b_delivery_rcpt := b_delivery_rcpt b \<or> b_delivery_rcpt b0,
     b_deletion_rcpt := b_deletion_rcpt b \<or> b_deletion_rcpt b0\<rparr> \<and>
   f AND BLOCK_FLAG_EID_REFS = 0"
  if "f = format_bundle_flags b OR format_cos_flags b OR format_srr_flags b"
  using parse_flags_processing [of b b0] processing_flags_no_eid_refs [of b] that
  by (simp only: parse_flags_def processing_flags_def)

theorem primary_flags_roundtrip_witness:
  "\<exists>b. bundle_init 1000000000 7 MEMORY = Inr b \<and>
    (let f = format_bundle_flags b OR format_cos_flags b OR format_srr_flags b
     in f AND BLOCK_FLAG_EID_REFS = 0 \<and> b_singleton_dest (parse_srr_flags f (parse_cos_flags f (parse_bundle_flags f b))))"
proof -
  obtain b where b: "bundle_init 1000000000 7 MEMORY = Inr b" and s: "b_singleton_dest b"
    by (simp add: bundle_init_def get_current_time_def TIMEVAL_CONVERSION_def Let_def)
  from primary_flags_roundtrip [OF refl, of b b] s b show ?thesis by (simp add: Let_def)
qed

text \<open>
  Compressed \<open>ipn\<close> identifiers. Formatting a node and service number and scanning the text
  again gives the same two numbers, for all 64-bit values with a non-zero node number, and the
  text always fits the 52-byte buffer it is written to.
\<close>

theorem ipn_roundtrip:
  "e \<noteq> 0 \<Longrightarrow> get_ipn (make_ipn e path) x 0 = (True, e, path) \<and> length (make_ipn e path) < 52"
  using get_make_ipn [of e path x] length_make_ipn [of e path] by simp

theorem ipn_roundtrip_witness:
  "get_ipn (make_ipn 977 18446744073709551615) 3 0 = (True, 977, 18446744073709551615) \<and>
   make_ipn 977 42 = lit ''ipn://977/42''"
  using ipn_roundtrip [of 977 18446744073709551615 3] by (simp add: make_ipn_def dec.simps lit_def)

text \<open>
  A reserved flag stops the receiver. Bit 6 is unused in the flags of a primary block, but
  the generic preamble code reads it as the presence of endpoint references. A peer that sets it
  and adds an empty reference list gets its block accepted by the generic code and then makes
  \<open>PrimaryBlockProcessor::consume\<close> fail its assertion on the remaining length.
\<close>

theorem primary_unused_flag_aborts:
  assumes "f AND BLOCK_FLAG_EID_REFS \<noteq> 0" "length data < 2 ^ 32 - SCRATCH_LEN" "scratch_ok rsv"
  shows "primary_consume rsv nm b0 (block_new PRIMARY_BLOCK None)
     (CURRENT_VERSION # sdnv_bytes f @ sdnv_bytes 0 @ sdnv_bytes (of_nat (length data)) @ data) = Inl ASSERT"
proof -
  let ?n = "of_nat (length data) :: u64"
  let ?pre = "CURRENT_VERSION # sdnv_bytes f @ sdnv_bytes 0 @ sdnv_bytes ?n"
  have n: "?n \<le> 0xFFFFFFFF" using assms(2) by (simp add: word_le_nat_alt unat_of_nat SCRATCH_LEN_def)
  have z: "sdnv_val_len 0 = 1" using length_sdnv_bytes [of 0] by (simp add: sdnv_bytes_0)
  have lp: "length ?pre = 2 + sdnv_val_len f + sdnv_val_len ?n" using z by simp
  then have lp64: "length ?pre \<le> SCRATCH_LEN"
    using sdnv_val_len_le_10 [of f] sdnv_val_len_le_10 [of ?n] by (simp add: SCRATCH_LEN_def)
  have "parse_preamble nm (bv_dict (b_recv_blocks b0)) [] (?pre @ rest) =
      Inr (Some f, PreambleDone [] ?n (length ?pre))" for rest
    using parse_preamble_empty_refs [OF assms(1) n, of nm _ CURRENT_VERSION rest] unfolding lp by simp
  then have w: "wire_block nm (bv_dict (b_recv_blocks b0)) ?pre [] data"
    using lp64 assms(2) by (auto simp: wire_block_def)
  from primary_consume_whole [OF w assms(3)] obtain blk where
    rx: "rx_block PRIMARY_BLOCK ?pre [] data (?pre @ data) blk"
    and c: "primary_consume rsv nm b0 (block_new PRIMARY_BLOCK None) (?pre @ data) =
      bindR (primary_parse nm blk b0) (\<lambda>(ok, b). Inr (if ok then int (length (?pre @ data)) else - 1, b, blk))"
    by blast
  have l: "length ?pre + length data < 2 ^ 32" using lp64 assms(2) by (simp add: SCRATCH_LEN_def)
  note bl = rx_block_lengths [OF rx l]
  have r: "pbp_reads 2 (sdnv_bytes f @ sdnv_bytes 0 @ sdnv_bytes ?n @ data) = Some ([f, 0], sdnv_bytes ?n @ data)"
    using pbp_reads_eq [of "[f, 0]" "sdnv_bytes ?n @ data"] by (simp add: eval_nat_numeral)
  have "length (sdnv_bytes ?n @ data) \<noteq> unat (bi_data_length blk)" using bl(3) by simp
  then have "primary_parse nm blk b0 = Inl ASSERT"
    using bl r by (simp add: primary_parse_def Let_def)
  then show ?thesis using c by simp
qed

theorem primary_unused_flag_aborts_witness:
  "\<exists>b. bundle_init 1000000000 7 MEMORY = Inr b \<and>
     primary_consume max simple_naming b (block_new PRIMARY_BLOCK None) [6, 0x40, 0, 0] = Inl ASSERT"
proof -
  obtain b where b: "bundle_init 1000000000 7 MEMORY = Inr b"
    by (simp add: bundle_init_def get_current_time_def TIMEVAL_CONVERSION_def Let_def)
  have "sdnv_bytes 0x40 = [0x40]" "sdnv_bytes 0 = [0]" by (simp_all add: sdnv_bytes_def sdnv_fill.simps)
  with b primary_unused_flag_aborts [where f = "0x40" and data = "[]" and rsv = max and nm = simple_naming and ?b0.0 = b]
  show ?thesis
    by (simp add: BLOCK_FLAG_EID_REFS_def SCRATCH_LEN_def scratch_ok_max CURRENT_VERSION_def)
qed



text \<open>
  Mixed identifiers are lost. When the destination is an \<open>ipn\<close> identifier, the block is
  written without a dictionary, and an identifier in another scheme cannot be represented: the
  failure of \<open>get_ipn\<close> is ignored, and the receiver sees the null endpoint \<open>dtn:none\<close> as the
  source of the bundle.
\<close>

theorem primary_ipn_source_lost:
  assumes "c_str (b_dest b) = make_ipn e path" "e \<noteq> 0" "\<not> fst (get_ipn (c_str (b_source b)) 0 0)"
    and "scratch_ok rsv" "bv_dict (b_recv_blocks b0) = dict_empty"
  shows "\<exists>blk b1 blk1. generate_primary rsv d b (block_new PRIMARY_BLOCK None) = Inr blk \<and>
    primary_consume rsv nm b0 (block_new PRIMARY_BLOCK None) (bi_contents blk) =
      Inr (int (length (bi_contents blk)), b1, blk1) \<and>
    b_dest b1 = eid_assign nm (make_ipn e path) \<and> b_source b1 = NULL_EID nm"
proof -
  obtain r1 r2 r3 where r: "get_ipn (c_str (b_replyto b)) 0 0 = (r1, r2, r3)" by (cases "get_ipn (c_str (b_replyto b)) 0 0")
  obtain c1 c2 c3 where c: "get_ipn (c_str (b_custodian b)) 0 0 = (c1, c2, c3)" by (cases "get_ipn (c_str (b_custodian b)) 0 0")
  have s: "get_ipn (c_str (b_source b)) 0 0 = (False, 0, 0)"
    using assms(3) get_ipn_False by (cases "get_ipn (c_str (b_source b)) 0 0") auto
  let ?o = "[e, path, 0, 0, r2, r3, c2, c3]"
  define p where "p = primary_zero\<lparr>p_dest_scheme_offset := e, p_dest_ssp_offset := path,
      p_source_scheme_offset := 0, p_source_ssp_offset := 0, p_replyto_scheme_offset := r2,
      p_replyto_ssp_offset := r3, p_custodian_scheme_offset := c2, p_custodian_ssp_offset := c3,
      p_dictionary_length := 0\<rparr>"
  have zp: "p_dest_scheme_offset primary_zero = 0" "p_dest_ssp_offset primary_zero = 0"
    "p_source_scheme_offset primary_zero = 0" "p_source_ssp_offset primary_zero = 0"
    "p_replyto_scheme_offset primary_zero = 0" "p_replyto_ssp_offset primary_zero = 0"
    "p_custodian_scheme_offset primary_zero = 0" "p_custodian_ssp_offset primary_zero = 0"
    by (simp_all add: primary_zero_def)
  have g: "primary_get_offsets d b primary_zero = Inr (Some p)"
    using ipn_strncmp [OF assms(2), of path] get_make_ipn [OF assms(2), of path 0] r c s assms(1)
    by (simp add: primary_get_offsets_def p_def zp)
  have o: "primary_offsets p = ?o" "unat (p_dictionary_length p) = length ([] :: bytes)"
    "[] = take (unat (p_dictionary_length p)) (dict_buf d)"
    by (simp_all add: p_def primary_offsets_def)
  let ?pre = "primary_pre b ?o []" and ?body = "primary_body b ?o []"
  from generate_primary_offsets [OF g o(3,2), of rsv "block_new PRIMARY_BLOCK None"] obtain blk where
    blk: "generate_primary rsv d b (block_new PRIMARY_BLOCK None) = Inr blk" "bi_contents blk = ?pre @ ?body"
    by (auto simp: o(1))
  have l: "length ?body < 2 ^ 32 - 21" "length ?pre + length ?body < 2 ^ 32"
    using length_primary_body [of ?o b "[]"] length_primary_pre [of b ?o "[]"] by simp_all
  have w: "wire_block nm (bv_dict (b_recv_blocks b0)) ?pre [] ?body" by (rule wire_block_primary [OF l(1)])
  from primary_consume_whole [OF w assms(4)] obtain k where
    k: "rx_block PRIMARY_BLOCK ?pre [] ?body (?pre @ ?body) k"
    "primary_consume rsv nm b0 (block_new PRIMARY_BLOCK None) (?pre @ ?body) =
      bindR (primary_parse nm k b0) (\<lambda>(ok, b). Inr (if ok then int (length (?pre @ ?body)) else - 1, b, k))"
    by blast
  define b1 where "b1 = (with_times b b0)\<lparr>b_source := eid_assign nm (make_ipn 0 0), b_dest := eid_assign nm (make_ipn e path),
      b_replyto := eid_assign nm (make_ipn r2 r3), b_custodian := eid_assign nm (make_ipn c2 c3)\<rparr>"
  have e: "primary_eids nm [] ?o (with_times b b0) = Inr b1"
    by (simp add: primary_eids_def b1_def eval_nat_numeral)
  have f: "b_is_fragment b1 = b_is_fragment b" by (simp add: b1_def with_times_def parse_flags_processing)
  have "primary_parse nm k b0 = Inr (True, if b_is_fragment b
      then b1\<lparr>b_frag_offset := b_frag_offset b, b_orig_length := b_orig_length b\<rparr> else b1)"
    using primary_parse_bytes [OF rx_block_lengths [OF k(1) l(2)] _ _ _ e] primary_fragment_eq [OF f] by simp
  with k blk show ?thesis
    by (auto simp: b1_def make_ipn_def NULL_EID_def)
qed

theorem primary_ipn_source_lost_witness:
  "\<exists>blk b1 blk1. generate_primary max example_dict
       (example_bundle (eid_assign simple_naming (lit ''ipn://977/42''))) (block_new PRIMARY_BLOCK None) = Inr blk \<and>
     primary_consume max simple_naming example_receiver (block_new PRIMARY_BLOCK None) (bi_contents blk) =
       Inr (int (length (bi_contents blk)), b1, blk1) \<and> b_source b1 = NULL_EID simple_naming"
proof -
  let ?b = "example_bundle (eid_assign simple_naming (lit ''ipn://977/42''))"
  have d: "c_str (b_dest ?b) = make_ipn 977 42"
    by (simp add: example_bundle_simps c_str_def eid_assign_def simple_naming_def simple_parse_def Let_def
        make_ipn_def dec.simps lit_def)
  have s: "\<not> fst (get_ipn (c_str (b_source ?b)) 0 0)"
    by (simp add: example_bundle_simps example_eid_simps c_str_def get_ipn_def lit_def)
  have e: "(977 :: u64) \<noteq> 0" by simp
  from primary_ipn_source_lost [OF d e s scratch_ok_max example_receiver_simps(1), of example_dict simple_naming]
  show ?thesis by blast
qed

end
