(* ===== verification/Fragment.thy ===== *)
theory Fragment
  imports PrimaryBlock
begin

text \<open>
  Fragmentation and reassembly: \<open>servlib/bundling/FragmentState.cc\<close> and \<open>FragmentManager.cc\<close>, with
  the length functions of \<open>BundleProtocol.cc\<close> they use. A \<open>new Bundle()\<close> is an argument of the
  function that creates it (a sequence of bundles where a loop creates several). Sizes that the
  code computes by subtraction are 64-bit words, because they can wrap around; running totals of
  lengths of existing payloads are natural numbers. Posting an event is returning it.
\<close>

subsection \<open>The fragments of one bundle\<close>

record frag_state =
  fs_bundle :: dtn_bundle
  fs_fragments :: "dtn_bundle list"

definition frag_len :: "dtn_bundle \<Rightarrow> nat" where
  "frag_len f = pl_length (b_payload f)"

definition frag_off :: "dtn_bundle \<Rightarrow> nat" where
  "frag_off f = unat (b_frag_offset f)"

text \<open>
  \<open>BundleList::insert_sorted\<close> with \<open>SORT_FRAG_OFFSET\<close>, and \<open>add_bundle\<close>'s refusal of bundles that
  are being freed or are already on the list.
\<close>

fun insert_frag :: "dtn_bundle \<Rightarrow> dtn_bundle list \<Rightarrow> dtn_bundle list" where
  "insert_frag b [] = [b]"
| "insert_frag b (x # xs) = (if b_frag_offset x > b_frag_offset b then b # x # xs else x # insert_frag b xs)"

definition add_fragment :: "dtn_bundle \<Rightarrow> frag_state \<Rightarrow> frag_state" where
  "add_fragment f st =
     (if b_freed f then st
      else if b_bundleid f \<in> b_bundleid ` set (fs_fragments st) then st
      else st\<lparr>fs_fragments := insert_frag f (fs_fragments st)\<rparr>)"

definition erase_fragment :: "dtn_bundle \<Rightarrow> frag_state \<Rightarrow> bool \<times> frag_state" where
  "erase_fragment f st =
     (if b_bundleid f \<in> b_bundleid ` set (fs_fragments st)
      then (True, st\<lparr>fs_fragments := filter (\<lambda>x. b_bundleid x \<noteq> b_bundleid f) (fs_fragments st)\<rparr>)
      else (False, st))"

text \<open>The loop of \<open>check_completed\<close>; \<open>None\<close> is the early \<open>return false\<close> at a hole.\<close>

fun check_loop :: "nat \<Rightarrow> nat \<Rightarrow> dtn_bundle list \<Rightarrow> nat option res" where
  "check_loop total_len done_up_to [] = Inr (Some done_up_to)"
| "check_loop total_len done_up_to (f # fs) =
     bindR (assertR (b_is_fragment f)) (\<lambda>_.
       if unat (b_orig_length f) \<noteq> total_len then Inl PANIC
       else if done_up_to = frag_off f then check_loop total_len (done_up_to + frag_len f) fs
       else if done_up_to < frag_off f then Inr None
       else if done_up_to > frag_off f + frag_len f then check_loop total_len done_up_to fs
       else if done_up_to > frag_off f
       then check_loop total_len (done_up_to + (frag_len f - (done_up_to - frag_off f))) fs
       else Inl NOTREACHED)"

definition check_completed :: "frag_state \<Rightarrow> bool res" where
  "check_completed st =
     (let total_len = pl_length (b_payload (fs_bundle st))
      in bindR (check_loop total_len 0 (fs_fragments st)) (\<lambda>r.
           Inr (case r of None \<Rightarrow> False | Some done_up_to \<Rightarrow> done_up_to = total_len)))"

subsection \<open>Lengths of block lists\<close>

definition total_length :: "block_info list \<Rightarrow> nat" where
  "total_length blocks = sum_list (map (\<lambda>b. unat (bi_full_length b)) blocks)"

fun payload_offset :: "block_info list \<Rightarrow> nat res" where
  "payload_offset [] = Inr 0"
| "payload_offset (b # bs) =
     bindR (bi_type b) (\<lambda>t.
       if t = PAYLOAD_BLOCK then Inr (unat (bi_data_offset b))
       else bindR (payload_offset bs) (\<lambda>n. Inr (unat (bi_full_length b) + n)))"

subsection \<open>Creating a fragment\<close>

text \<open>
  The loop over the transmitted blocks: the blocks copied to the new bundle (the received blocks
  they came from) and the remaining \<open>length\<close>. \<open>recv\<close> and \<open>api\<close> are the lists a source pointer
  leads to.
\<close>

definition deref_block :: "block_info list \<Rightarrow> block_info list \<Rightarrow> block_ref \<Rightarrow> block_info res" where
  "deref_block recv api r =
     (case r of
        RecvBlock i \<Rightarrow> if i < length recv then Inr (recv ! i) else Inl OOB
      | ApiBlock i \<Rightarrow> if i < length api then Inr (api ! i) else Inl OOB)"

definition copy_this_block :: "block_info \<Rightarrow> nat \<Rightarrow> bool \<Rightarrow> bool \<Rightarrow> bool \<Rightarrow> bool res" where
  "copy_this_block b t found_payload first is_last =
     (if t = PRIMARY_BLOCK \<or> t = PAYLOAD_BLOCK \<or> \<not> found_payload \<and> first \<or> found_payload \<and> is_last \<or>
         bi_source b = None then Inr True
      else bindR (bi_flags b) (\<lambda>f. Inr (f AND BLOCK_FLAG_REPLICATE \<noteq> 0)))"

fun fragment_blocks ::
  "block_info list \<Rightarrow> block_info list \<Rightarrow> bool \<Rightarrow> bool \<Rightarrow> block_info list \<Rightarrow> bool \<Rightarrow> block_info list \<Rightarrow> u64 \<Rightarrow>
     (block_info list \<times> u64) res"
where
  "fragment_blocks recv api first is_last [] found_payload out len = Inr (out, len)"
| "fragment_blocks recv api first is_last (b # bs) found_payload out len =
     bindR (bi_type b) (\<lambda>t.
     bindR (copy_this_block b t found_payload first is_last) (\<lambda>copy.
       if \<not> copy then fragment_blocks recv api first is_last bs found_payload out len
       else
         bindR (case bi_source b of
                  None \<Rightarrow> Inr out
                | Some r \<Rightarrow> bindR (deref_block recv api r) (\<lambda>x. Inr (out @ [x]))) (\<lambda>out'.
           if t = PAYLOAD_BLOCK then fragment_blocks recv api first is_last bs True out' len
           else fragment_blocks recv api first is_last bs found_payload out'
                  (len - of_nat (length (bi_contents b))))))"

definition sdnv_len64 :: "u64 \<Rightarrow> u64" where
  "sdnv_len64 v = (case sdnv_encoding_len v of Inr n \<Rightarrow> of_nat n | Inl _ \<Rightarrow> 0)"

text \<open>
  The length of the fragment's payload, from what the blocks have left of \<open>length\<close>.
\<close>

definition fragment_length :: "dtn_bundle \<Rightarrow> u64 \<Rightarrow> u64 \<Rightarrow> bool \<Rightarrow> u64" where
  "fragment_length b offset len0 first =
     (let plen = of_nat (pl_length (b_payload b)) :: u64;
          len = (if \<not> b_is_fragment b then len0 - sdnv_len64 plen - sdnv_len64 offset
                 else len0 - (sdnv_len64 (ucast (b_frag_offset b) + offset) -
                              sdnv_len64 (ucast (b_frag_offset b))))
      in if offset + len \<ge> plen
         then let l = plen - offset
              in if first then (if l mod 2 = 0 then l div 2 else l div 2 + 1) else l
         else len)"

definition create_fragment ::
  "payload_io \<Rightarrow> dtn_bundle \<Rightarrow> dtn_bundle \<Rightarrow> block_info list \<Rightarrow> u64 \<Rightarrow> u64 \<Rightarrow> bool \<Rightarrow> bool \<Rightarrow>
     (dtn_bundle \<times> dtn_bundle) res"
where
  "create_fragment io nb bundle xmit_blocks offset len first is_last =
     (let fragment = (copy_metadata bundle nb)\<lparr>b_is_fragment := True, b_do_not_fragment := False\<rparr>
      in
      bindR (fragment_blocks (bv_blocks (b_recv_blocks bundle)) (bv_blocks (b_api_blocks bundle)) first is_last
               xmit_blocks False [] len) (\<lambda>(blocks, len1).
        let fragment = fragment\<lparr>b_recv_blocks := (b_recv_blocks fragment)\<lparr>bv_blocks :=
              bv_blocks (b_recv_blocks fragment) @ blocks\<rparr>\<rparr>;
            fragment =
              (if \<not> b_is_fragment bundle
               then fragment\<lparr>b_orig_length := of_nat (pl_length (b_payload bundle)), b_frag_offset := ucast offset\<rparr>
               else fragment\<lparr>b_orig_length := b_orig_length bundle,
                             b_frag_offset := ucast (ucast (b_frag_offset bundle) + offset :: u64)\<rparr>);
            flen = fragment_length bundle offset len1 first;
            p = pl_set_length io (unat flen) (b_payload fragment)
        in
        bindR (pl_write_from io (b_payload bundle) (unat offset) (unat flen) 0 p) (\<lambda>(p', src').
          Inr (fragment\<lparr>b_payload := p'\<rparr>, bundle\<lparr>b_payload := src'\<rparr>))))"

subsection \<open>Proactive fragmentation\<close>

text \<open>The lengths of the blocks of a first and of a last fragment.\<close>

fun first_last_len :: "block_info list \<Rightarrow> bool \<Rightarrow> u64 \<Rightarrow> u64 \<Rightarrow> (u64 \<times> u64) res" where
  "first_last_len [] found_payload first_len last_len = Inr (first_len, last_len)"
| "first_last_len (b # bs) found_payload first_len last_len =
     bindR (bi_type b) (\<lambda>t.
       let n = of_nat (length (bi_contents b))
       in if t = PRIMARY_BLOCK then first_last_len bs found_payload (first_len + n) (last_len + n)
          else if t = PAYLOAD_BLOCK then first_last_len bs True first_len last_len
          else
            bindR (bi_flags b) (\<lambda>f.
              if f AND BLOCK_FLAG_REPLICATE \<noteq> 0 \<or> bi_source b = None
              then first_last_len bs found_payload (first_len + n) (last_len + n)
              else if found_payload then first_last_len bs found_payload first_len (last_len + n)
              else first_last_len bs found_payload (first_len + n) last_len))"

text \<open>
  The \<open>do ... while\<close> loop, with a bound on the number of iterations: \<open>None\<close> when the bound is
  reached before \<open>todo\<close> is 0. \<open>fresh k\<close> is the \<open>k\<close>-th new bundle.
\<close>

fun fragment_loop ::
  "nat \<Rightarrow> payload_io \<Rightarrow> (nat \<Rightarrow> dtn_bundle) \<Rightarrow> block_info list \<Rightarrow> u64 \<Rightarrow> u64 \<Rightarrow> dtn_bundle \<Rightarrow> u64 \<Rightarrow> u64 \<Rightarrow>
     bool \<Rightarrow> bool \<Rightarrow> dtn_bundle list \<Rightarrow> (dtn_bundle \<times> dtn_bundle list) option res"
where
  "fragment_loop 0 io fresh blocks max_length last_len bundle offset todo first is_last frags = Inr None"
| "fragment_loop (Suc n) io fresh blocks max_length last_len bundle offset todo first is_last frags =
     (let is_last' = (is_last \<or> \<not> first \<and> todo + last_len \<le> max_length)
      in
      bindR (create_fragment io (fresh (length frags)) bundle blocks offset max_length first is_last') (\<lambda>(f, bundle').
        let k = of_nat (frag_len f) :: u64; todo' = todo - k
        in if todo' > 0
           then fragment_loop n io fresh blocks max_length last_len bundle' (offset + k) todo' False is_last' (frags @ [f])
           else Inr (Some (bundle', frags @ [f]))))"

text \<open>
  The whole function: \<open>tbl\<close> is \<open>fragment_table_\<close>, \<open>blocks\<close> the block list of the link. The result
  \<open>None\<close> is the \<open>NULL\<close> of a refusal; the outer option is the iteration bound.
\<close>

definition get_hash_key :: "dtn_bundle \<Rightarrow> bytes" where
  "get_hash_key b =
     dec (unat (seconds (b_creation_ts b))) @ lit ''.'' @ dec (unat (seqno (b_creation_ts b))) @
     c_str (b_source b) @ c_str (b_dest b)"

type_synonym frag_table = "bytes \<Rightarrow> frag_state option"

definition proactively_fragment ::
  "nat \<Rightarrow> payload_io \<Rightarrow> (nat \<Rightarrow> dtn_bundle) \<Rightarrow> block_info list \<Rightarrow> u64 \<Rightarrow> dtn_bundle \<Rightarrow> frag_table \<Rightarrow>
     (dtn_bundle list option \<times> frag_table) option res"
where
  "proactively_fragment n io fresh blocks max_length bundle tbl =
     (let payload_len = of_nat (pl_length (b_payload bundle)) :: u64;
          state = (if \<not> b_is_fragment bundle then Some \<lparr>fs_bundle = bundle, fs_fragments = []\<rparr>
                   else tbl (get_hash_key bundle))
      in
      if payload_len \<le> 1 then Inr (Some (None, tbl))
      else
        bindR (first_last_len blocks False 0 0) (\<lambda>(first_len0, last_len0).
          let extra = (if b_is_fragment bundle then sdnv_len64 (ucast (b_orig_length bundle))
                       else sdnv_len64 (payload_len * 2));
              first_len = first_len0 + extra; last_len = last_len0 + extra
          in
          if first_len \<ge> max_length \<or> last_len \<ge> max_length then Inr (Some (None, tbl))
          else
            (case state of
               None \<Rightarrow> Inl OOB
             | Some st \<Rightarrow>
                 bindR (fragment_loop n io fresh blocks max_length last_len bundle 0 payload_len True False []) (\<lambda>r.
                   case r of
                     None \<Rightarrow> Inr None
                   | Some (bundle', frags) \<Rightarrow>
                       let st0 = st\<lparr>fs_bundle := (if b_is_fragment bundle then fs_bundle st else bundle')\<rparr>;
                           st' = foldl (\<lambda>s f. add_fragment f s) st0 frags
                       in Inr (Some (Some frags, tbl(get_hash_key (List.last frags) \<mapsto> st')))))))"

definition get_fragment_state :: "dtn_bundle \<Rightarrow> frag_table \<Rightarrow> frag_state option" where
  "get_fragment_state b tbl = tbl (get_hash_key b)"

definition erase_fragment_state :: "frag_state \<Rightarrow> frag_table \<Rightarrow> frag_table" where
  "erase_fragment_state st tbl = tbl(get_hash_key (fs_bundle st) := None)"

subsection \<open>Reactive fragmentation\<close>

text \<open>
  On the receiving side, a bundle of which only a part arrived becomes a fragment. The result is
  the return value and the bundle.
\<close>

definition try_to_convert_to_fragment :: "payload_io \<Rightarrow> dtn_bundle \<Rightarrow> (bool \<times> dtn_bundle) res" where
  "try_to_convert_to_fragment io b =
     bindR (bv_find_block (of_nat PAYLOAD_BLOCK) (b_recv_blocks b)) (\<lambda>r.
       case r of
         None \<Rightarrow> Inr (False, b)
       | Some pb \<Rightarrow>
           if bi_data_offset pb = 0 then Inr (False, b)
           else if b_do_not_fragment b then Inr (False, b)
           else
             let payload_len = unat (bi_data_length pb); payload_rcvd = pl_length (b_payload b)
             in if payload_len \<le> 1 then Inr (False, b)
             else
               bindR (if payload_rcvd \<ge> payload_len
                      then
                        bindR (assertR (bi_complete pb \<or> payload_len = 0)) (\<lambda>_.
                        bindR (bi_last_block pb) (\<lambda>l.
                          if l then Inr None
                          else
                            let lb = last (bv_blocks (b_recv_blocks b))
                            in bindR (if bi_data_offset lb \<noteq> 0 \<and> bi_complete lb then bi_last_block lb
                                      else Inr False) (\<lambda>whole.
                              if whole then Inr None
                              else bindR (pl_truncate io (payload_rcvd - 1) (b_payload b)) (\<lambda>p.
                                Inr (Some (b\<lparr>b_payload := p\<rparr>))))))
                      else Inr (Some b)) (\<lambda>r.
                 case r of
                   None \<Rightarrow> Inr (False, b)
                 | Some b \<Rightarrow>
                     let b = (if \<not> b_is_fragment b
                              then b\<lparr>b_is_fragment := True, b_orig_length := of_nat payload_len, b_frag_offset := 0\<rparr>
                              else b)
                     in Inr (True, b\<lparr>b_fragmented_incoming := True\<rparr>)))"

text \<open>
  On the sending side, the part that was not sent becomes a new bundle. The result is the new
  bundle (\<open>None\<close> for \<open>return false\<close>) and the bundle.
\<close>

definition try_to_reactively_fragment ::
  "payload_io \<Rightarrow> dtn_bundle \<Rightarrow> dtn_bundle \<Rightarrow> block_info list \<Rightarrow> nat \<Rightarrow> (dtn_bundle option \<times> dtn_bundle) res"
where
  "try_to_reactively_fragment io nb b blocks bytes_sent =
     (if b_do_not_fragment b then Inr (None, b)
      else
        bindR (payload_offset blocks) (\<lambda>po.
          if bytes_sent \<le> po then Inr (None, b)
          else if bytes_sent \<ge> total_length blocks then Inr (None, b)
          else
            bindR (find_block_list PAYLOAD_BLOCK blocks) (\<lambda>pb.
              let payload_len = pl_length (b_payload b);
                  payload_sent = min payload_len (bytes_sent - po)
              in if payload_len \<le> 1 then Inr (None, b)
              else
                bindR (if payload_sent \<ge> payload_len
                       then (case pb of
                               None \<Rightarrow> Inl OOB
                             | Some k \<Rightarrow> bindR (bi_last_block k) (\<lambda>l.
                                 bindR (assertR (\<not> l)) (\<lambda>_. Inr (payload_len - 1, 1))))
                       else Inr (payload_sent, payload_len - payload_sent)) (\<lambda>(off, len).
                bindR (create_fragment io nb b blocks (of_nat off) (of_nat len) False True) (\<lambda>(tail, b').
                  Inr (Some tail, b'))))))"

subsection \<open>Reassembly\<close>

text \<open>The blocks of a fragment up to and including its payload block, and those after it.\<close>

fun blocks_to_payload :: "block_info list \<Rightarrow> block_info list res" where
  "blocks_to_payload [] = Inr []"
| "blocks_to_payload (b # bs) =
     bindR (bi_type b) (\<lambda>t.
       if t = PAYLOAD_BLOCK then Inr [b] else bindR (blocks_to_payload bs) (\<lambda>r. Inr (b # r)))"

fun blocks_after_payload :: "block_info list \<Rightarrow> bool \<Rightarrow> block_info list res" where
  "blocks_after_payload [] seen_payload = Inr []"
| "blocks_after_payload (b # bs) seen_payload =
     bindR (bi_type b) (\<lambda>t.
     bindR (blocks_after_payload bs (seen_payload \<or> t = PAYLOAD_BLOCK)) (\<lambda>r.
       Inr (if seen_payload then b # r else r)))"

definition reassembly_new :: "payload_io \<Rightarrow> dtn_bundle \<Rightarrow> dtn_bundle \<Rightarrow> frag_state" where
  "reassembly_new io nb fragment =
     (let b = (copy_metadata fragment nb)\<lparr>b_is_fragment := False\<rparr>
      in \<lparr>fs_bundle = b\<lparr>b_payload := pl_set_length io (unat (b_orig_length fragment)) (b_payload b)\<rparr>,
          fs_fragments = []\<rparr>)"

definition reassembly_blocks :: "dtn_bundle \<Rightarrow> dtn_bundle \<Rightarrow> dtn_bundle res" where
  "reassembly_blocks fragment b =
     (let frag_blocks = bv_blocks (b_recv_blocks fragment)
      in
      bindR (if frag_off fragment = 0
             then bindR (blocks_to_payload frag_blocks) (\<lambda>pre.
               Inr (pre @ bv_blocks (b_recv_blocks b)))
             else Inr (bv_blocks (b_recv_blocks b))) (\<lambda>bs.
      bindR (if frag_off fragment + frag_len fragment = unat (b_orig_length fragment)
             then bindR (blocks_after_payload frag_blocks False) (\<lambda>post. Inr (bs @ post))
             else Inr bs) (\<lambda>bs'.
        Inr (b\<lparr>b_recv_blocks := (b_recv_blocks b)\<lparr>bv_blocks := bs'\<rparr>\<rparr>))))"

text \<open>
  \<open>process_for_reassembly\<close>: the table, and the bundle and fragments of the
  \<open>ReassemblyCompletedEvent\<close> when one is posted.
\<close>

definition process_for_reassembly ::
  "payload_io \<Rightarrow> dtn_bundle \<Rightarrow> dtn_bundle \<Rightarrow> frag_table \<Rightarrow>
     (frag_table \<times> (dtn_bundle \<times> dtn_bundle list) option) res"
where
  "process_for_reassembly io nb fragment tbl =
     bindR (assertR (b_is_fragment fragment)) (\<lambda>_.
       let key = get_hash_key fragment;
           st = (case tbl key of None \<Rightarrow> reassembly_new io nb fragment | Some st \<Rightarrow> st);
           st = add_fragment fragment st;
           fraglen = frag_len fragment
       in
       bindR (pl_write_from io (b_payload fragment) 0 fraglen (frag_off fragment) (b_payload (fs_bundle st)))
         (\<lambda>(p, _).
       bindR (reassembly_blocks fragment ((fs_bundle st)\<lparr>b_payload := p\<rparr>)) (\<lambda>b.
         let st = st\<lparr>fs_bundle := b\<rparr>
         in
         bindR (check_completed st) (\<lambda>complete.
           if \<not> complete then Inr (tbl(key \<mapsto> st), None)
           else Inr (tbl(key := None), Some (b, fs_fragments st))))))"

definition delete_obsoleted_fragments :: "dtn_bundle \<Rightarrow> frag_table \<Rightarrow> frag_table \<times> dtn_bundle list" where
  "delete_obsoleted_fragments b tbl =
     (case tbl (get_hash_key b) of
        None \<Rightarrow> (tbl, [])
      | Some st \<Rightarrow> (tbl(get_hash_key b := None), rev (fs_fragments st)))"

definition delete_fragment :: "dtn_bundle \<Rightarrow> frag_table \<Rightarrow> frag_table res" where
  "delete_fragment fragment tbl =
     bindR (assertR (b_is_fragment fragment)) (\<lambda>_.
       case tbl (get_hash_key fragment) of
         None \<Rightarrow> Inr tbl
       | Some st \<Rightarrow>
           (case erase_fragment fragment st of
              (False, _) \<Rightarrow> Inr tbl
            | (True, st') \<Rightarrow>
                Inr (if fs_fragments st' = [] then tbl(get_hash_key fragment := None)
                     else tbl(get_hash_key fragment \<mapsto> st'))))"

subsection \<open>Lemmas: coverage\<close>

text \<open>The byte positions of the original payload that a list of fragments carries.\<close>

definition covered :: "dtn_bundle list \<Rightarrow> nat \<Rightarrow> bool" where
  "covered fs i \<longleftrightarrow> (\<exists>f \<in> set fs. frag_off f \<le> i \<and> i < frag_off f + frag_len f)"

definition frag_ok :: "nat \<Rightarrow> dtn_bundle \<Rightarrow> bool" where
  "frag_ok n f \<longleftrightarrow> b_is_fragment f \<and> unat (b_orig_length f) = n \<and> frag_off f + frag_len f \<le> n"

abbreviation frags_sorted :: "dtn_bundle list \<Rightarrow> bool" where
  "frags_sorted fs \<equiv> sorted (map frag_off fs)"

lemma covered_simps [simp]:
  "covered [] i = False"
  "covered (f # fs) i \<longleftrightarrow> (frag_off f \<le> i \<and> i < frag_off f + frag_len f) \<or> covered fs i"
  by (auto simp: covered_def)

lemma set_insert_frag [simp]: "set (insert_frag f fs) = insert f (set fs)"
  by (induction fs) auto

lemma frags_sorted_insert: "frags_sorted fs \<Longrightarrow> frags_sorted (insert_frag f fs)"
  by (induction fs) (auto simp: frag_off_def word_less_nat_alt)

lemma covered_insert [simp]: "covered (insert_frag f fs) i \<longleftrightarrow> covered (f # fs) i"
  by (auto simp: covered_def)

text \<open>
  The loop on a sorted suffix of the fragments, when everything before it ends at or before
  \<open>d\<close>: it stops at a position no fragment carries, or it has covered everything up to the last
  end.
\<close>

lemma check_loop_correct:
  "frags_sorted fs \<Longrightarrow> \<forall>f \<in> set fs. frag_ok n f \<Longrightarrow> d \<le> n \<Longrightarrow>
     \<exists>r. check_loop n d fs = Inr r \<and>
       (case r of
          None \<Rightarrow> \<exists>i. d \<le> i \<and> i < n \<and> \<not> covered fs i
        | Some e \<Rightarrow> d \<le> e \<and> e \<le> n \<and> (\<forall>i. d \<le> i \<longrightarrow> i < e \<longrightarrow> covered fs i) \<and> (\<forall>i. e \<le> i \<longrightarrow> \<not> covered fs i))"
proof (induction fs arbitrary: d)
  case (Cons f fs)
  have s: "frags_sorted fs" "\<forall>x \<in> set fs. frag_ok n x" and f: "frag_ok n f"
    and ge: "\<forall>x \<in> set fs. frag_off f \<le> frag_off x" using Cons.prems by auto
  note ih = Cons.IH [OF s]
  consider (hole) "d < frag_off f" | (skip) "frag_off f + frag_len f < d" |
    (join) "frag_off f \<le> d" "d \<le> frag_off f + frag_len f" by linarith
  then show ?case
  proof cases
    case hole
    then have "check_loop n d (f # fs) = Inr None" using f by (simp add: frag_ok_def)
    moreover have "\<not> covered (f # fs) d" using hole ge by (force simp: covered_def)
    moreover have "d < n" using hole f by (simp add: frag_ok_def)
    ultimately show ?thesis by (intro exI [of _ None]) auto
  next
    case skip
    then have "check_loop n d (f # fs) = check_loop n d fs" using f by (auto simp: frag_ok_def)
    moreover from ih [OF Cons.prems(3)] obtain r where "check_loop n d fs = Inr r"
      "case r of None \<Rightarrow> \<exists>i. d \<le> i \<and> i < n \<and> \<not> covered fs i
        | Some e \<Rightarrow> d \<le> e \<and> e \<le> n \<and> (\<forall>i. d \<le> i \<longrightarrow> i < e \<longrightarrow> covered fs i) \<and> (\<forall>i. e \<le> i \<longrightarrow> \<not> covered fs i)"
      by blast
    ultimately show ?thesis using skip by (intro exI [of _ r]) (auto split: option.splits)
  next
    case join
    let ?e = "frag_off f + frag_len f"
    have "check_loop n d (f # fs) = check_loop n ?e fs" using join f by (auto simp: frag_ok_def add.commute)
    moreover from ih [of ?e] f obtain r where r: "check_loop n ?e fs = Inr r"
      "case r of None \<Rightarrow> \<exists>i. ?e \<le> i \<and> i < n \<and> \<not> covered fs i
        | Some e \<Rightarrow> ?e \<le> e \<and> e \<le> n \<and> (\<forall>i. ?e \<le> i \<longrightarrow> i < e \<longrightarrow> covered fs i) \<and> (\<forall>i. e \<le> i \<longrightarrow> \<not> covered fs i)"
      by (auto simp: frag_ok_def)
    moreover have "case r of None \<Rightarrow> \<exists>i. d \<le> i \<and> i < n \<and> \<not> covered (f # fs) i
        | Some e \<Rightarrow> d \<le> e \<and> e \<le> n \<and> (\<forall>i. d \<le> i \<longrightarrow> i < e \<longrightarrow> covered (f # fs) i) \<and>
            (\<forall>i. e \<le> i \<longrightarrow> \<not> covered (f # fs) i)"
    proof (cases r)
      case None
      with r(2) obtain i where "?e \<le> i" "i < n" "\<not> covered fs i" by auto
      then show ?thesis using None join by (auto intro!: exI [of _ i])
    next
      case (Some e)
      with r(2) join show ?thesis by (auto simp: not_less) (meson not_le_imp_less)
    qed
    ultimately show ?thesis by auto
  qed
qed simp

lemma check_completed_iff:
  assumes "frags_sorted (fs_fragments st)" "\<forall>f \<in> set (fs_fragments st). frag_ok n f"
    and "pl_length (b_payload (fs_bundle st)) = n"
  shows "check_completed st = Inr (\<forall>i < n. covered (fs_fragments st) i)"
proof -
  from check_loop_correct [OF assms(1,2), of 0] obtain r where r: "check_loop n 0 (fs_fragments st) = Inr r"
    "case r of None \<Rightarrow> \<exists>i. 0 \<le> i \<and> i < n \<and> \<not> covered (fs_fragments st) i
     | Some e \<Rightarrow> 0 \<le> e \<and> e \<le> n \<and> (\<forall>i. 0 \<le> i \<longrightarrow> i < e \<longrightarrow> covered (fs_fragments st) i) \<and>
         (\<forall>i. e \<le> i \<longrightarrow> \<not> covered (fs_fragments st) i)" by blast
  show ?thesis
  proof (cases r)
    case None
    with r assms(3) show ?thesis by (auto simp: check_completed_def)
  next
    case (Some e)
    with r(2) have "e \<le> n" "\<forall>i < e. covered (fs_fragments st) i" "\<not> covered (fs_fragments st) e" by simp_all
    then have "(e = n) \<longleftrightarrow> (\<forall>i < n. covered (fs_fragments st) i)" using le_neq_implies_less by blast
    with r(1) Some assms(3) show ?thesis by (simp add: check_completed_def)
  qed
qed

subsection \<open>Lemmas: reassembly\<close>

lemma nth_write_at_gen:
  "i < length f \<or> pos \<le> i \<and> i < pos + length bs \<Longrightarrow>
     i < length (write_at pos bs f) \<and>
     write_at pos bs f ! i = (if pos \<le> i \<and> i < pos + length bs then bs ! (i - pos) else f ! i)"
  by (auto simp: write_at_def nth_append min_def)

lemma pl_write_from_synced:
  assumes "pl_whole src" "src_offset + len \<le> pl_length src" "pl_synced p" "dst_offset + len \<le> pl_length p"
  shows "\<exists>p' src'. pl_write_from io src src_offset len dst_offset p = Inr (p', src') \<and>
    pl_synced p' \<and> pl_location p' = pl_location p \<and> pl_length p' = pl_length p \<and>
    pl_data p' = write_at dst_offset (take len (drop src_offset (pl_bytes src))) (pl_data p) \<and>
    pl_whole src' \<and> pl_length src' = pl_length src \<and> pl_bytes src' = pl_bytes src"
proof -
  let ?bs = "take len (drop src_offset (pl_bytes src))"
  from pl_read_data_whole [OF assms(1), of src_offset "replicate len (io_junk io)" io] assms(2)
  obtain src' where s: "pl_read_data io src_offset (replicate len (io_junk io)) src = Inr (?bs, src')"
    "pl_whole src'" "pl_length src' = pl_length src" "pl_bytes src' = pl_bytes src" by auto
  have l: "length ?bs = len" using pl_whole_length [OF assms(1)] assms(2) by simp
  from pl_internal_write_synced [of "pl_pin_file io p" dst_offset ?bs] assms(3,4) l
  obtain p' where "pl_internal_write ?bs dst_offset (pl_pin_file io p) = Inr p'" "pl_synced p'"
    "pl_location p' = pl_location p" "pl_length p' = pl_length p"
    "pl_data p' = write_at dst_offset ?bs (pl_data p)" by auto
  with s assms show ?thesis by (auto simp: pl_write_from_def)
qed

text \<open>
  A fragment of the bundle with payload \<open>orig\<close>: it carries the bytes of its range, and its blocks
  can be read. \<open>reasm_inv\<close>: every position a received fragment carries is already in place.
\<close>

definition fragment_of :: "bytes \<Rightarrow> dtn_bundle \<Rightarrow> bool" where
  "fragment_of orig f \<longleftrightarrow>
     frag_ok (length orig) f \<and> \<not> b_freed f \<and> pl_whole (b_payload f) \<and>
     pl_bytes (b_payload f) = take (frag_len f) (drop (frag_off f) orig) \<and>
     (\<forall>x \<in> set (bv_blocks (b_recv_blocks f)). \<exists>t. bi_type x = Inr t)"

definition reasm_inv :: "bytes \<Rightarrow> frag_state \<Rightarrow> bool" where
  "reasm_inv orig st \<longleftrightarrow>
     frags_sorted (fs_fragments st) \<and> (\<forall>f \<in> set (fs_fragments st). frag_ok (length orig) f) \<and>
     pl_synced (b_payload (fs_bundle st)) \<and> pl_length (b_payload (fs_bundle st)) = length orig \<and>
     \<not> b_is_fragment (fs_bundle st) \<and>
     (\<forall>i. covered (fs_fragments st) i \<longrightarrow>
        i < length (pl_data (b_payload (fs_bundle st))) \<and> pl_data (b_payload (fs_bundle st)) ! i = orig ! i)"

lemma reasm_inv_new:
  assumes "fragment_of orig f" "b_payload nb = payload_init loc" "loc \<noteq> NODATA"
  shows "reasm_inv orig (reassembly_new io nb f)" "fs_fragments (reassembly_new io nb f) = []"
  using assms
  by (cases loc; auto simp: reasm_inv_def reassembly_new_def fragment_of_def frag_ok_def Let_def
      copy_metadata_def payload_init_def pl_set_length_def pl_synced_def resize_def)+

lemma reasm_inv_complete:
  assumes "reasm_inv orig st" "\<forall>i < length orig. covered (fs_fragments st) i"
  shows "pl_whole (b_payload (fs_bundle st))" "pl_bytes (b_payload (fs_bundle st)) = orig"
proof -
  let ?p = "b_payload (fs_bundle st)"
  have c: "i < length (pl_data ?p) \<and> pl_data ?p ! i = orig ! i" if "i < length orig" for i
    using assms that by (simp add: reasm_inv_def)
  then have l: "length orig \<le> length (pl_data ?p)" by (meson linorder_not_le order_less_irrefl)
  with assms(1) show "pl_whole ?p" by (simp add: reasm_inv_def pl_whole_def)
  from l c assms(1) show "pl_bytes ?p = orig"
    by (intro nth_equalityI) (simp_all add: reasm_inv_def pl_bytes_def)
qed

lemma blocks_to_payload_ok:
  "\<forall>x \<in> set bs. \<exists>t. bi_type x = Inr t \<Longrightarrow> \<exists>r. blocks_to_payload bs = Inr r"
  by (induction bs) auto

lemma blocks_after_payload_ok:
  "\<forall>x \<in> set bs. \<exists>t. bi_type x = Inr t \<Longrightarrow> \<exists>r. blocks_after_payload bs s = Inr r"
proof (induction bs arbitrary: s)
  case (Cons b bs)
  then obtain t where t: "bi_type b = Inr t" by auto
  from Cons obtain r where "blocks_after_payload bs (s \<or> t = PAYLOAD_BLOCK) = Inr r" by fastforce
  with t show ?case by simp
qed simp

lemma reassembly_blocks_ok:
  assumes "fragment_of orig f"
  shows "\<exists>bs. reassembly_blocks f b = Inr (b\<lparr>b_recv_blocks := (b_recv_blocks b)\<lparr>bv_blocks := bs\<rparr>\<rparr>)"
proof -
  have ok: "\<forall>x \<in> set (bv_blocks (b_recv_blocks f)). \<exists>t. bi_type x = Inr t" using assms by (simp add: fragment_of_def)
  from blocks_to_payload_ok [OF ok] blocks_after_payload_ok [OF ok, of False]
  show ?thesis by (auto simp: reassembly_blocks_def Let_def intro: exI [of _ "bv_blocks (b_recv_blocks b)"])
qed

lemma covered_add_fragment:
  "\<not> b_freed f \<Longrightarrow> b_bundleid f \<notin> b_bundleid ` set (fs_fragments st) \<Longrightarrow>
     fs_fragments (add_fragment f st) = insert_frag f (fs_fragments st) \<and>
     fs_bundle (add_fragment f st) = fs_bundle st"
  by (simp add: add_fragment_def)

text \<open>One arriving fragment, once the state it is added to is known.\<close>

lemma reassembly_step:
  assumes inv: "reasm_inv orig st" and f: "fragment_of orig f"
    and new: "b_bundleid f \<notin> b_bundleid ` set (fs_fragments st)"
    and st: "st = (case tbl (get_hash_key f) of None \<Rightarrow> reassembly_new io nb f | Some s \<Rightarrow> s)"
  shows "\<exists>st'. reasm_inv orig st' \<and> fs_fragments st' = insert_frag f (fs_fragments st) \<and>
     process_for_reassembly io nb f tbl =
       Inr (if \<forall>i < length orig. covered (fs_fragments st') i
            then (tbl(get_hash_key f := None), Some (fs_bundle st', fs_fragments st'))
            else (tbl(get_hash_key f \<mapsto> st'), None))"
proof -
  let ?p = "b_payload (fs_bundle st)" and ?n = "length orig"
  have ff: "frag_ok ?n f" "\<not> b_freed f" "pl_whole (b_payload f)"
    "pl_bytes (b_payload f) = take (frag_len f) (drop (frag_off f) orig)" using f by (simp_all add: fragment_of_def)
  then have fl: "frag_off f + frag_len f \<le> ?n" "b_is_fragment f" by (simp_all add: frag_ok_def)
  note add = covered_add_fragment [OF ff(2) new]
  have p0: "pl_synced ?p" "pl_length ?p = ?n" using inv by (simp_all add: reasm_inv_def)
  from pl_write_from_synced [OF ff(3), of 0 "frag_len f" ?p "frag_off f" io] p0 fl
  obtain p' src' where w: "pl_write_from io (b_payload f) 0 (frag_len f) (frag_off f) ?p = Inr (p', src')"
    "pl_synced p'" "pl_length p' = ?n"
    "pl_data p' = write_at (frag_off f) (take (frag_len f) (drop (frag_off f) orig)) (pl_data ?p)"
    using ff(4) by (auto simp: frag_len_def)
  from reassembly_blocks_ok [OF f, of "(fs_bundle st)\<lparr>b_payload := p'\<rparr>"] obtain b where
    b: "reassembly_blocks f ((fs_bundle st)\<lparr>b_payload := p'\<rparr>) = Inr b" "b_payload b = p'"
      "b_is_fragment b = b_is_fragment (fs_bundle st)" by auto
  let ?st = "\<lparr>fs_bundle = b, fs_fragments = insert_frag f (fs_fragments st)\<rparr>"
  have inv': "reasm_inv orig ?st"
    unfolding reasm_inv_def
  proof (intro conjI allI impI)
    show "frags_sorted (fs_fragments ?st)" using inv by (simp add: reasm_inv_def frags_sorted_insert)
    show "\<forall>x \<in> set (fs_fragments ?st). frag_ok ?n x" using inv ff(1) by (simp add: reasm_inv_def)
    show "pl_synced (b_payload (fs_bundle ?st))" "pl_length (b_payload (fs_bundle ?st)) = ?n"
      "\<not> b_is_fragment (fs_bundle ?st)" using b w inv by (simp_all add: reasm_inv_def)
    fix i assume "covered (fs_fragments ?st) i"
    then have c: "frag_off f \<le> i \<and> i < frag_off f + frag_len f \<or> covered (fs_fragments st) i" by simp
    with inv fl have "i < length (pl_data ?p) \<or> frag_off f \<le> i \<and> i < frag_off f + frag_len f"
      by (auto simp: reasm_inv_def)
    with fl nth_write_at_gen [of i "pl_data ?p" "frag_off f" "take (frag_len f) (drop (frag_off f) orig)"] c inv
    show "i < length (pl_data (b_payload (fs_bundle ?st)))"
      "pl_data (b_payload (fs_bundle ?st)) ! i = orig ! i"
      by (auto simp: b w reasm_inv_def min_def)
  qed
  then have "check_completed ?st = Inr (\<forall>i < ?n. covered (fs_fragments ?st) i)"
    by (intro check_completed_iff) (simp_all add: reasm_inv_def)
  moreover have "add_fragment f st\<lparr>fs_bundle := b\<rparr> = ?st" using add by (cases "add_fragment f st") simp
  moreover have "process_for_reassembly io nb f tbl =
      bindR (check_completed (add_fragment f st\<lparr>fs_bundle := b\<rparr>)) (\<lambda>complete.
        if \<not> complete then Inr (tbl(get_hash_key f \<mapsto> add_fragment f st\<lparr>fs_bundle := b\<rparr>), None)
        else Inr (tbl(get_hash_key f := None), Some (b, fs_fragments (add_fragment f st\<lparr>fs_bundle := b\<rparr>))))"
    unfolding process_for_reassembly_def st [symmetric] Let_def using w(1) b(1) add fl(2) by simp
  ultimately show ?thesis using inv' by (intro exI [of _ ?st]) (simp del: covered_insert)
qed

text \<open>
  A sequence of arriving fragments, with the events they post. \<open>fresh f\<close> is the bundle that is
  created if \<open>f\<close> is the first of its bundle.
\<close>

fun reassemble ::
  "payload_io \<Rightarrow> (dtn_bundle \<Rightarrow> dtn_bundle) \<Rightarrow> frag_table \<Rightarrow> dtn_bundle list \<Rightarrow>
     (frag_table \<times> (dtn_bundle \<times> dtn_bundle list) option list) res"
where
  "reassemble io fresh tbl [] = Inr (tbl, [])"
| "reassemble io fresh tbl (f # fs) =
     bindR (process_for_reassembly io (fresh f) f tbl) (\<lambda>(tbl', ev).
     bindR (reassemble io fresh tbl' fs) (\<lambda>(tbl'', evs). Inr (tbl'', ev # evs)))"

definition received :: "bytes \<Rightarrow> frag_table \<Rightarrow> dtn_bundle list" where
  "received k tbl = (case tbl k of None \<Rightarrow> [] | Some st \<Rightarrow> fs_fragments st)"

definition table_inv :: "bytes \<Rightarrow> bytes \<Rightarrow> frag_table \<Rightarrow> bool" where
  "table_inv orig k tbl \<longleftrightarrow> (\<forall>st. tbl k = Some st \<longrightarrow> reasm_inv orig st)"

lemma reassembly_table_step:
  assumes t: "table_inv orig k tbl" and f: "fragment_of orig f" "get_hash_key f = k"
    and new: "b_bundleid f \<notin> b_bundleid ` set (received k tbl)"
    and nb: "b_payload nb = payload_init loc" "loc \<noteq> NODATA"
  shows "\<exists>st'. reasm_inv orig st' \<and> fs_fragments st' = insert_frag f (received k tbl) \<and>
     process_for_reassembly io nb f tbl =
       Inr (if \<forall>i < length orig. covered (f # received k tbl) i
            then (tbl(k := None), Some (fs_bundle st', fs_fragments st'))
            else (tbl(k \<mapsto> st'), None))"
proof -
  define st where "st = (case tbl (get_hash_key f) of None \<Rightarrow> reassembly_new io nb f | Some s \<Rightarrow> s)"
  have i: "reasm_inv orig st" and r: "fs_fragments st = received k tbl"
    using t f reasm_inv_new [OF f(1) nb] by (auto simp: st_def received_def table_inv_def split: option.splits)
  from r new have n: "b_bundleid f \<notin> b_bundleid ` set (fs_fragments st)" by simp
  from reassembly_step [where tbl = tbl and io = io and nb = nb, OF i f(1) n st_def] obtain st' where
    st': "reasm_inv orig st'" "fs_fragments st' = insert_frag f (fs_fragments st)"
      "process_for_reassembly io nb f tbl =
       Inr (if \<forall>i < length orig. covered (fs_fragments st') i
            then (tbl(get_hash_key f := None), Some (fs_bundle st', fs_fragments st'))
            else (tbl(get_hash_key f \<mapsto> st'), None))" by blast
  show ?thesis
    using st' r f(2) by (intro exI [of _ st']) simp
qed

lemma distinct_insert_frag:
  "distinct (map b_bundleid (insert_frag f fs @ gs)) \<longleftrightarrow> distinct (map b_bundleid (f # fs @ gs))"
  by (induction fs) auto

lemma reassemble_prefix:
  assumes "\<forall>f. b_payload (fresh f) = payload_init loc" "loc \<noteq> NODATA"
  shows "table_inv orig k tbl \<Longrightarrow> \<forall>f \<in> set fs. fragment_of orig f \<and> get_hash_key f = k \<Longrightarrow>
    distinct (map b_bundleid (received k tbl @ fs)) \<Longrightarrow>
    \<exists>i < length orig. \<not> covered (received k tbl @ fs) i \<Longrightarrow>
    \<exists>tbl'. reassemble io fresh tbl fs = Inr (tbl', replicate (length fs) None) \<and> table_inv orig k tbl' \<and>
      set (received k tbl') = set (received k tbl @ fs) \<and>
      distinct (map b_bundleid (received k tbl')) \<and> (\<forall>k'. k' \<noteq> k \<longrightarrow> tbl' k' = tbl k')"
proof (induction fs arbitrary: tbl)
  case (Cons f fs)
  let ?r = "received k tbl"
  from Cons.prems have f: "fragment_of orig f" "get_hash_key f = k" "b_bundleid f \<notin> b_bundleid ` set ?r"
    by auto
  from reassembly_table_step [OF Cons.prems(1) f, of "fresh f" loc io] assms obtain st' where st': "reasm_inv orig st'"
    "fs_fragments st' = insert_frag f ?r"
    "process_for_reassembly io (fresh f) f tbl =
       Inr (if \<forall>i < length orig. covered (f # ?r) i then (tbl(k := None), Some (fs_bundle st', fs_fragments st'))
            else (tbl(k \<mapsto> st'), None))" by blast
  have "\<not> (\<forall>i < length orig. covered (f # ?r) i)"
    using Cons.prems(4) by (auto simp: covered_def)
  with st' have p: "process_for_reassembly io (fresh f) f tbl = Inr (tbl(k \<mapsto> st'), None)" by auto
  let ?t = "tbl(k \<mapsto> st')"
  have r: "received k ?t = insert_frag f ?r" using st' by (simp add: received_def)
  have "distinct (map b_bundleid (received k ?t @ fs))"
    using Cons.prems(3) distinct_insert_frag [of f ?r fs] r by auto
  moreover have "table_inv orig k ?t" using st' by (simp add: table_inv_def)
  moreover have "\<exists>i < length orig. \<not> covered (received k ?t @ fs) i"
    using Cons.prems(4) r by (auto simp: covered_def)
  moreover have "\<forall>f \<in> set fs. fragment_of orig f \<and> get_hash_key f = k" using Cons.prems(2) by simp
  ultimately obtain tbl' where "reassemble io fresh ?t fs = Inr (tbl', replicate (length fs) None)"
    "table_inv orig k tbl'" "set (received k tbl') = set (received k ?t @ fs)"
    "distinct (map b_bundleid (received k tbl'))" "\<forall>k'. k' \<noteq> k \<longrightarrow> tbl' k' = ?t k'"
    using Cons.IH [of ?t] by blast
  then show ?case using p r by auto
qed simp

lemma reassemble_append:
  "reassemble io fresh tbl (xs @ ys) =
     bindR (reassemble io fresh tbl xs) (\<lambda>(t, e). bindR (reassemble io fresh t ys) (\<lambda>(t', e'). Inr (t', e @ e')))"
  by (induction xs arbitrary: tbl) (auto simp: bindR_def split: sum.splits prod.splits)

subsection \<open>Lemmas: proactive fragmentation\<close>

text \<open>
  A transmitted block the loop can copy: its type and flags can be read and its source pointer,
  if it has one, leads to a block of the bundle.
\<close>

definition block_ok :: "block_info list \<Rightarrow> block_info list \<Rightarrow> block_info \<Rightarrow> bool" where
  "block_ok recv api b \<longleftrightarrow>
     (case (bi_type b, bi_flags b) of (Inr _, Inr _) \<Rightarrow> True | _ \<Rightarrow> False) \<and>
     (case bi_source b of
        None \<Rightarrow> True
      | Some (RecvBlock i) \<Rightarrow> i < length recv
      | Some (ApiBlock i) \<Rightarrow> i < length api)"

definition blocks_size :: "block_info list \<Rightarrow> nat" where
  "blocks_size bs = sum_list (map (\<lambda>b. length (bi_contents b)) bs)"

lemma block_okD:
  assumes "block_ok recv api b"
  obtains t f where "bi_type b = Inr t" "bi_flags b = Inr f"
  using assms by (auto simp: block_ok_def split: sum.splits)

lemma block_ok_deref:
  "block_ok recv api b \<Longrightarrow> bi_source b = Some r \<Longrightarrow>
     \<exists>x. deref_block recv api r = Inr x \<and> x \<in> set recv \<union> set api"
  by (auto simp: block_ok_def deref_block_def split: block_ref.splits)

lemma copy_this_block_ok:
  "block_ok recv api b \<Longrightarrow> \<exists>c. copy_this_block b t p f l = Inr c"
  by (auto simp: copy_this_block_def elim: block_okD)

lemma fragment_blocks_ok:
  "\<forall>b \<in> set bs. block_ok recv api b \<Longrightarrow>
     \<exists>out' s. fragment_blocks recv api first is_last bs p out len = Inr (out', len - of_nat s) \<and>
       s \<le> blocks_size bs \<and> set out' \<subseteq> set out \<union> set recv \<union> set api"
proof (induction bs arbitrary: p out len)
  case (Cons b bs)
  then have ok: "block_ok recv api b" and
    ih: "\<And>p out len. \<exists>out' s. fragment_blocks recv api first is_last bs p out len = Inr (out', len - of_nat s) \<and>
       s \<le> blocks_size bs \<and> set out' \<subseteq> set out \<union> set recv \<union> set api" by simp_all
  from ok obtain t f where t: "bi_type b = Inr t" "bi_flags b = Inr f" by (rule block_okD)
  from copy_this_block_ok [OF ok] obtain c where c: "copy_this_block b t p first is_last = Inr c" by blast
  have "\<exists>o1. (case bi_source b of None \<Rightarrow> Inr out
      | Some r \<Rightarrow> bindR (deref_block recv api r) (\<lambda>x. Inr (out @ [x]))) = Inr o1 \<and>
      set o1 \<subseteq> set out \<union> set recv \<union> set api"
    using block_ok_deref [OF ok] by (cases "bi_source b") fastforce+
  then obtain o1 where o1: "(case bi_source b of None \<Rightarrow> Inr out
      | Some r \<Rightarrow> bindR (deref_block recv api r) (\<lambda>x. Inr (out @ [x]))) = Inr o1"
      "set o1 \<subseteq> set out \<union> set recv \<union> set api" by blast
  let ?n = "length (bi_contents b)"
  show ?case
  proof (cases "c \<and> t \<noteq> PAYLOAD_BLOCK")
    case True
    from ih [of p o1 "len - of_nat ?n"] obtain out' s where
      "fragment_blocks recv api first is_last bs p o1 (len - of_nat ?n) = Inr (out', len - of_nat ?n - of_nat s)"
      "s \<le> blocks_size bs" "set out' \<subseteq> set o1 \<union> set recv \<union> set api" by blast
    with True t c o1 show ?thesis
      by (intro exI [of _ out'] exI [of _ "?n + s"]) (auto simp: blocks_size_def algebra_simps)
  next
    case False
    from ih [of "if c then True else p" "if c then o1 else out" len] obtain out' s where
      "fragment_blocks recv api first is_last bs (if c then True else p) (if c then o1 else out) len =
         Inr (out', len - of_nat s)"
      "s \<le> blocks_size bs" "set out' \<subseteq> set (if c then o1 else out) \<union> set recv \<union> set api" by blast
    with False t c o1 show ?thesis
      by (intro exI [of _ out'] exI [of _ s]) (auto simp: blocks_size_def split: if_splits)
  qed
qed (auto intro: exI [of _ 0])

lemma unat_minus: "b \<le> unat (a :: u64) \<Longrightarrow> unat (a - of_nat b) = unat a - b"
  by (metis le_unat_uoi unat_sub word_le_nat_alt)

lemma sdnv_len64_eq: "sdnv_len64 v = of_nat (sdnv_val_len v)"
  by (simp add: sdnv_len64_def)

text \<open>
  The fragment's payload length, when more than 20 bytes are left for it (two SDNVs take at most
  10 each): at least one byte, within the payload, and less than all of it for a first fragment.
\<close>

lemma fragment_length_eq:
  assumes "\<not> b_is_fragment b" and p: "pl_length (b_payload b) = p" "p < 2 ^ 32"
    and o: "unat offset < p" and l: "20 < unat len" "unat len < 2 ^ 63"
  shows "unat (fragment_length b offset len first) =
    (let l = unat len - sdnv_val_len (of_nat p :: u64) - sdnv_val_len offset; d = p - unat offset
     in if p \<le> unat offset + l then if first then (d + 1) div 2 else d else l)"
proof -
  let ?a = "sdnv_val_len (of_nat p :: u64)" and ?b = "sdnv_val_len offset"
  let ?l = "len - of_nat ?a - of_nat ?b" and ?d = "of_nat p - offset"
  have "?a \<le> 10" "?b \<le> 10" by (rule sdnv_val_len_le_10)+
  then have ul: "unat ?l = unat len - ?a - ?b"
    using l unat_minus [of ?a len] unat_minus [of ?b "len - of_nat ?a"] by linarith
  have up: "unat (of_nat p :: u64) = p" using p(2) by (simp add: unat_of_nat)
  have us: "unat (offset + ?l) = unat offset + unat ?l"
    using ul l o p(2) by (intro unat_add_lem [THEN iffD1]) simp
  have ud: "unat ?d = p - unat offset"
    using o up by (subst unat_sub) (simp_all add: word_le_nat_alt)
  have uh: "unat (if ?d mod 2 = 0 then ?d div 2 else ?d div 2 + 1) = (unat ?d + 1) div 2"
  proof (cases "?d mod 2 = 0")
    case True
    then have "unat ?d mod 2 = 0" using unat_mod_distrib [of ?d 2] by simp
    with True show ?thesis by (simp add: unat_div_distrib) presburger
  next
    case False
    then have "unat ?d mod 2 \<noteq> 0"
      using unat_mod_distrib [of ?d 2] by (simp add: unat_eq_0 [symmetric] del: unat_eq_0)
    moreover have "unat (?d div 2 + 1) = unat ?d div 2 + 1"
      using ud p(2) by (subst unat_add_lem [THEN iffD1]) (simp_all add: unat_div_distrib)
    ultimately show ?thesis using False by simp presburger
  qed
  show ?thesis
    using assms(1) p(1) uh up us ul ud
    by (simp add: fragment_length_def sdnv_len64_eq Let_def word_le_nat_alt)
qed

lemma fragment_length_bounds:
  assumes "\<not> b_is_fragment b" "pl_length (b_payload b) = p" "p < 2 ^ 32"
    and "unat offset < p" "20 < unat len" "unat len < 2 ^ 63" "first \<Longrightarrow> unat offset + 1 < p"
  shows "0 < unat (fragment_length b offset len first)"
    and "unat offset + unat (fragment_length b offset len first) \<le> p"
    and "first \<Longrightarrow> unat offset + unat (fragment_length b offset len first) < p"
  using fragment_length_eq [OF assms(1-6), of first] sdnv_val_len_le_10 [of "of_nat p"]
    sdnv_val_len_le_10 [of offset] assms
  by (auto simp: Let_def split: if_splits)

text \<open>
  \<open>fresh_ok\<close>: a bundle as \<open>new Bundle()\<close> leaves it. \<open>frag_ready\<close>: a bundle that is not itself a
  fragment, with blocks that can be copied and a limit that leaves more than 20 bytes beside them.
  \<open>makes_fragment\<close>: what one turn of the loop must produce; \<open>tiles\<close>: the fragments follow one
  another from an offset to the end of the payload.
\<close>

definition fresh_ok :: "location \<Rightarrow> dtn_bundle \<Rightarrow> bool" where
  "fresh_ok loc nb \<longleftrightarrow>
     loc \<noteq> NODATA \<and> b_payload nb = payload_init loc \<and> \<not> b_freed nb \<and> bv_blocks (b_recv_blocks nb) = []"

definition readable :: "block_info \<Rightarrow> bool" where
  "readable b \<longleftrightarrow> (case bi_type b of Inr _ \<Rightarrow> True | Inl _ \<Rightarrow> False)"

definition frag_ready :: "dtn_bundle \<Rightarrow> block_info list \<Rightarrow> u64 \<Rightarrow> bool" where
  "frag_ready b blocks max_length \<longleftrightarrow>
     \<not> b_is_fragment b \<and> pl_whole (b_payload b) \<and> pl_length (b_payload b) < 2 ^ 32 \<and>
     list_all (block_ok (bv_blocks (b_recv_blocks b)) (bv_blocks (b_api_blocks b))) blocks \<and>
     list_all readable (bv_blocks (b_recv_blocks b)) \<and> list_all readable (bv_blocks (b_api_blocks b)) \<and>
     blocks_size blocks + 20 < unat max_length \<and> unat max_length < 2 ^ 63"

definition makes_fragment :: "bytes \<Rightarrow> bytes \<Rightarrow> dtn_bundle \<Rightarrow> nat \<Rightarrow> dtn_bundle \<Rightarrow> bool" where
  "makes_fragment orig key nb off f \<longleftrightarrow>
     fragment_of orig f \<and> frag_off f = off \<and> 0 < frag_len f \<and> b_bundleid f = b_bundleid nb \<and>
     get_hash_key f = key"

fun tiles :: "bytes \<Rightarrow> bytes \<Rightarrow> (nat \<Rightarrow> dtn_bundle) \<Rightarrow> nat \<Rightarrow> nat \<Rightarrow> dtn_bundle list \<Rightarrow> bool" where
  "tiles orig key fresh k off [] = (off = length orig)"
| "tiles orig key fresh k off (f # fs) =
     (makes_fragment orig key (fresh k) off f \<and> tiles orig key fresh (Suc k) (off + frag_len f) fs)"

lemma unat_ucast_64_32: "unat w < 2 ^ 32 \<Longrightarrow> unat (ucast (w :: u64) :: u32) = unat w"
  by (simp add: unsigned_ucast_eq take_bit_nat_def)

lemma readable_iff: "readable b \<longleftrightarrow> (\<exists>t. bi_type b = Inr t)"
  by (cases "bi_type b") (simp_all add: readable_def)

lemma get_hash_key_cong:
  "b_creation_ts a = b_creation_ts b \<Longrightarrow> b_source a = b_source b \<Longrightarrow> b_dest a = b_dest b \<Longrightarrow>
     get_hash_key a = get_hash_key b"
  by (simp add: get_hash_key_def)

lemma frag_ready_payload:
  assumes "frag_ready b blocks m" "pl_whole p" "pl_length p = pl_length (b_payload b)"
  shows "frag_ready (b\<lparr>b_payload := p\<rparr>) blocks m"
  using assms by (simp add: frag_ready_def)

text \<open>The payload of a new fragment: set its length, then copy the bytes.\<close>

lemma new_payload_copy:
  assumes "pl_whole src" "off + n \<le> pl_length src" "loc \<noteq> NODATA"
  shows "\<exists>p' src'. pl_write_from io src off n 0 (pl_set_length io n (payload_init loc)) = Inr (p', src') \<and>
    pl_whole p' \<and> pl_length p' = n \<and> pl_bytes p' = take n (drop off (pl_bytes src)) \<and>
    pl_whole src' \<and> pl_length src' = pl_length src \<and> pl_bytes src' = pl_bytes src"
proof -
  let ?p = "pl_set_length io n (payload_init loc)" and ?bs = "take n (drop off (pl_bytes src))"
  have s: "pl_synced ?p" "pl_length ?p = n" using assms(3)
    by (cases loc; simp add: pl_set_length_def payload_init_def pl_synced_def resize_def Let_def)+
  have l: "length ?bs = n" using pl_whole_length [OF assms(1)] assms(2) by simp
  have "pl_data ?p = [] \<or> length (pl_data ?p) = n"
    by (simp add: pl_set_length_def payload_init_def resize_def Let_def)
  then have "write_at 0 ?bs (pl_data ?p) = ?bs" using l by (cases "?bs = []") (auto simp: write_at_def)
  with pl_write_from_synced [OF assms(1,2) s(1), of 0 io] s(2) l show ?thesis
    by (force simp: pl_whole_def pl_bytes_def)
qed

lemma pl_write_from_length: "pl_write_from io src a n d p = Inr (p', src') \<Longrightarrow> pl_length p' = pl_length p"
  by (cases "pl_location p") (auto simp: pl_write_from_def bindR_eq_Inr pl_internal_write_def Let_def)

lemma create_fragment_length:
  assumes "create_fragment io nb b blocks offset m first is_last = Inr (f, b')"
    and "fragment_blocks (bv_blocks (b_recv_blocks b)) (bv_blocks (b_api_blocks b)) first is_last blocks False [] m
           = Inr (out, m')"
  shows "frag_len f = unat (fragment_length b offset m' first)"
proof -
  let ?n = "unat (fragment_length b offset m' first)"
  from assms obtain p0 p' src' where "pl_write_from io (b_payload b) (unat offset) ?n 0 (pl_set_length io ?n p0) = Inr (p', src')"
    "frag_len f = pl_length p'"
    by (auto simp: create_fragment_def Let_def bindR_eq_Inr frag_len_def)
  then show ?thesis using pl_write_from_length by (fastforce simp: pl_set_length_def Let_def)
qed

lemma create_fragment_ok:
  assumes r: "frag_ready b blocks m" and nb: "fresh_ok loc nb"
    and o: "unat offset < pl_length (b_payload b)" and f1: "first \<Longrightarrow> unat offset + 1 < pl_length (b_payload b)"
  shows "\<exists>f p'. create_fragment io nb b blocks offset m first is_last = Inr (f, b\<lparr>b_payload := p'\<rparr>) \<and>
    pl_whole p' \<and> pl_length p' = pl_length (b_payload b) \<and> pl_bytes p' = pl_bytes (b_payload b) \<and>
    makes_fragment (pl_bytes (b_payload b)) (get_hash_key b) nb (unat offset) f \<and>
    (first \<longrightarrow> unat offset + frag_len f < pl_length (b_payload b))"
proof -
  let ?p = "b_payload b" and ?recv = "bv_blocks (b_recv_blocks b)" and ?api = "bv_blocks (b_api_blocks b)"
  have rr: "\<not> b_is_fragment b" "pl_whole ?p" "pl_length ?p < 2 ^ 32" "\<forall>x \<in> set blocks. block_ok ?recv ?api x"
    "blocks_size blocks + 20 < unat m" "unat m < 2 ^ 63" "\<forall>x \<in> set ?recv \<union> set ?api. readable x"
    using r by (auto simp: frag_ready_def list_all_iff)
  from fragment_blocks_ok [OF rr(4), of first is_last False "[]" m] obtain out s where
    out: "fragment_blocks ?recv ?api first is_last blocks False [] m = Inr (out, m - of_nat s)"
      "s \<le> blocks_size blocks" "set out \<subseteq> set ?recv \<union> set ?api" by auto
  let ?l = "m - of_nat s" and ?n = "unat (fragment_length b offset (m - of_nat s) first)"
  have l: "20 < unat ?l" "unat ?l < 2 ^ 63" using out(2) rr(5,6) unat_minus [of s m] by linarith+
  note fl = fragment_length_bounds [where first = first, OF rr(1) refl rr(3) o l f1]
  have loc: "loc \<noteq> NODATA" "b_payload nb = payload_init loc" "\<not> b_freed nb" "bv_blocks (b_recv_blocks nb) = []"
    using nb by (simp_all add: fresh_ok_def)
  from new_payload_copy [OF rr(2) fl(2) loc(1), where io = io] obtain p' src' where
    w: "pl_write_from io ?p (unat offset) ?n 0 (pl_set_length io ?n (payload_init loc)) = Inr (p', src')"
      "pl_whole p'" "pl_length p' = ?n" "pl_bytes p' = take ?n (drop (unat offset) (pl_bytes ?p))"
      "pl_whole src'" "pl_length src' = pl_length ?p" "pl_bytes src' = pl_bytes ?p"
    by blast
  let ?f = "(copy_metadata b nb)\<lparr>b_is_fragment := True, b_do_not_fragment := False,
      b_recv_blocks := (b_recv_blocks nb)\<lparr>bv_blocks := out\<rparr>,
      b_orig_length := of_nat (pl_length ?p), b_frag_offset := ucast offset, b_payload := p'\<rparr>"
  have c: "create_fragment io nb b blocks offset m first is_last = Inr (?f, b\<lparr>b_payload := src'\<rparr>)"
    using out(1) w(1) rr(1) loc by (simp add: create_fragment_def Let_def copy_metadata_def)
  have off: "frag_off ?f = unat offset" using o rr(3) by (simp add: frag_off_def unat_ucast_64_32)
  have len: "frag_len ?f = ?n" using w(3) by (simp add: frag_len_def)
  have bid: "b_bundleid ?f = b_bundleid nb" by (simp add: copy_metadata_def)
  have key: "get_hash_key ?f = get_hash_key b" by (rule get_hash_key_cong) (simp_all add: copy_metadata_def)
  have "b_freed (copy_metadata b nb) = b_freed nb" by (simp add: copy_metadata_def)
  moreover have ol: "unat (of_nat (pl_length ?p) :: u32) = pl_length ?p" using rr(3) by (simp add: unat_of_nat)
  moreover have "\<forall>x \<in> set out. \<exists>t. bi_type x = Inr t"
    using out(3) rr(7) by (auto simp: readable_iff)
  moreover have "frag_ok (length (pl_bytes ?p)) ?f"
    using off len fl(2) pl_whole_length [OF rr(2)] ol by (simp add: frag_ok_def)
  ultimately have "fragment_of (pl_bytes ?p) ?f"
    unfolding fragment_of_def using w(2,4) off len loc(3) by simp
  then have "makes_fragment (pl_bytes ?p) (get_hash_key b) nb (unat offset) ?f"
    unfolding makes_fragment_def using off len fl(1) key bid by simp
  with c w(5-7) fl(3) len show ?thesis by (intro exI [of _ ?f] exI [of _ src']) simp
qed

lemma fragment_loop_step:
  assumes r: "frag_ready b blocks m" and nb: "fresh_ok loc (fresh (length frags))"
    and o: "unat offset < pl_length (b_payload b)" and f1: "first \<Longrightarrow> unat offset + 1 < pl_length (b_payload b)"
  shows "\<exists>f p' lst. fragment_loop (Suc n) io fresh blocks m last_len b offset
      (of_nat (pl_length (b_payload b) - unat offset)) first is_last frags =
      (if unat offset + frag_len f < pl_length (b_payload b)
       then fragment_loop n io fresh blocks m last_len (b\<lparr>b_payload := p'\<rparr>) (of_nat (unat offset + frag_len f))
              (of_nat (pl_length p' - (unat offset + frag_len f))) False lst (frags @ [f])
       else Inr (Some (b\<lparr>b_payload := p'\<rparr>, frags @ [f]))) \<and>
    pl_whole p' \<and> pl_length p' = pl_length (b_payload b) \<and> pl_bytes p' = pl_bytes (b_payload b) \<and>
    makes_fragment (pl_bytes (b_payload b)) (get_hash_key b) (fresh (length frags)) (unat offset) f \<and>
    (first \<longrightarrow> unat offset + frag_len f < pl_length (b_payload b))"
proof -
  let ?p = "pl_length (b_payload b)" and ?todo = "of_nat (pl_length (b_payload b) - unat offset) :: u64"
  define lst where "lst = (is_last \<or> \<not> first \<and> ?todo + last_len \<le> m)"
  from create_fragment_ok [where first = first, OF r nb o f1, of io lst] obtain f p' where
    f: "create_fragment io (fresh (length frags)) b blocks offset m first lst = Inr (f, b\<lparr>b_payload := p'\<rparr>)"
      "pl_whole p'" "pl_length p' = ?p" "pl_bytes p' = pl_bytes (b_payload b)"
      "makes_fragment (pl_bytes (b_payload b)) (get_hash_key b) (fresh (length frags)) (unat offset) f"
      "first \<longrightarrow> unat offset + frag_len f < ?p" by blast
  have w: "pl_whole (b_payload b)" "?p < 2 ^ 32" using r by (simp_all add: frag_ready_def)
  have le: "unat offset + frag_len f \<le> ?p"
    using f(5) pl_whole_length [OF w(1)] by (simp add: makes_fragment_def fragment_of_def frag_ok_def)
  have td: "?todo - of_nat (frag_len f) = of_nat (?p - (unat offset + frag_len f))"
    using le o by (simp add: of_nat_diff)
  have pos: "(of_nat (?p - (unat offset + frag_len f)) :: u64) > 0 \<longleftrightarrow> unat offset + frag_len f < ?p"
  proof -
    have "unat (of_nat x :: u64) = x" if "x < 2 ^ 32" for x using that by (simp add: unat_of_nat)
    from this [of "?p - (unat offset + frag_len f)"] w(2) show ?thesis
      by (simp only: word_less_nat_alt unat_0) linarith
  qed
  have off: "offset + of_nat (frag_len f) = of_nat (unat offset + frag_len f)" by simp
  have "fragment_loop (Suc n) io fresh blocks m last_len b offset ?todo first is_last frags =
      (if unat offset + frag_len f < ?p
       then fragment_loop n io fresh blocks m last_len (b\<lparr>b_payload := p'\<rparr>) (of_nat (unat offset + frag_len f))
              (of_nat (?p - (unat offset + frag_len f))) False lst (frags @ [f])
       else Inr (Some (b\<lparr>b_payload := p'\<rparr>, frags @ [f])))"
    unfolding fragment_loop.simps Let_def lst_def [symmetric] f(1) bindR_Inr prod.case td pos off by (rule refl)
  then show ?thesis using f by (intro exI [of _ f] exI [of _ p'] exI [of _ lst]) simp
qed

lemma fragment_loop_tiles:
  assumes "\<forall>k. fresh_ok loc (fresh k)"
  shows "frag_ready b blocks m \<Longrightarrow> off < pl_length (b_payload b) \<Longrightarrow> (first \<Longrightarrow> off + 1 < pl_length (b_payload b)) \<Longrightarrow>
    pl_length (b_payload b) - off \<le> n \<Longrightarrow>
    \<exists>p' fs. fragment_loop n io fresh blocks m last_len b (of_nat off)
        (of_nat (pl_length (b_payload b) - off)) first is_last frags = Inr (Some (b\<lparr>b_payload := p'\<rparr>, frags @ fs)) \<and>
      pl_whole p' \<and> pl_length p' = pl_length (b_payload b) \<and> pl_bytes p' = pl_bytes (b_payload b) \<and>
      tiles (pl_bytes (b_payload b)) (get_hash_key b) fresh (length frags) off fs \<and> (if first then 2 else 1) \<le> length fs"
proof (induction n arbitrary: b off first is_last frags)
  case (Suc n)
  let ?p = "pl_length (b_payload b)"
  have w: "pl_whole (b_payload b)" "?p < 2 ^ 32" using Suc.prems(1) by (simp_all add: frag_ready_def)
  have uo: "unat (of_nat off :: u64) = off" using Suc.prems(2) w(2) by (simp add: unat_of_nat)
  from fragment_loop_step [OF Suc.prems(1), of loc fresh frags "of_nat off" first n io last_len is_last]
    assms Suc.prems(2,3) obtain f p' lst where
    s: "fragment_loop (Suc n) io fresh blocks m last_len b (of_nat off) (of_nat (?p - off)) first is_last frags =
      (if off + frag_len f < ?p
       then fragment_loop n io fresh blocks m last_len (b\<lparr>b_payload := p'\<rparr>) (of_nat (off + frag_len f))
              (of_nat (pl_length p' - (off + frag_len f))) False lst (frags @ [f])
       else Inr (Some (b\<lparr>b_payload := p'\<rparr>, frags @ [f])))"
    and p': "pl_whole p'" "pl_length p' = ?p" "pl_bytes p' = pl_bytes (b_payload b)"
    and f: "makes_fragment (pl_bytes (b_payload b)) (get_hash_key b) (fresh (length frags)) off f"
      "first \<longrightarrow> off + frag_len f < ?p"
    unfolding uo by blast
  from f(1) have fl: "0 < frag_len f" "off + frag_len f \<le> ?p"
    using pl_whole_length [OF w(1)] by (auto simp: makes_fragment_def fragment_of_def frag_ok_def)
  show ?case
  proof (cases "off + frag_len f < ?p")
    case True
    let ?b = "b\<lparr>b_payload := p'\<rparr>"
    have key: "get_hash_key ?b = get_hash_key b" by (rule get_hash_key_cong) simp_all
    have "frag_ready ?b blocks m" by (rule frag_ready_payload [OF Suc.prems(1) p'(1,2)])
    moreover have "off + frag_len f < pl_length (b_payload ?b)" "pl_length (b_payload ?b) - (off + frag_len f) \<le> n"
      using True p'(2) fl(1) Suc.prems(4) by auto
    ultimately obtain p'' fs where
      "fragment_loop n io fresh blocks m last_len ?b (of_nat (off + frag_len f))
         (of_nat (pl_length (b_payload ?b) - (off + frag_len f))) False lst (frags @ [f]) =
         Inr (Some (?b\<lparr>b_payload := p''\<rparr>, (frags @ [f]) @ fs))"
      "pl_whole p''" "pl_length p'' = pl_length (b_payload ?b)" "pl_bytes p'' = pl_bytes (b_payload ?b)"
      "tiles (pl_bytes (b_payload ?b)) (get_hash_key ?b) fresh (length (frags @ [f])) (off + frag_len f) fs"
      "1 \<le> length fs"
      using Suc.IH [of ?b "off + frag_len f" False lst "frags @ [f]"] by auto
    with s True p' f(1) key show ?thesis
      by (intro exI [of _ p''] exI [of _ "f # fs"]) simp
  next
    case False
    with fl have "off + frag_len f = length (pl_bytes (b_payload b))" using pl_whole_length [OF w(1)] by simp
    with s False p' f show ?thesis
      by (intro exI [of _ p'] exI [of _ "[f]"]) simp
  qed
qed simp

lemma tiles_off_ge: "tiles orig key fresh k off fs \<Longrightarrow> f \<in> set fs \<Longrightarrow> off \<le> frag_off f"
  by (induction fs arbitrary: k off) (auto simp: makes_fragment_def, fastforce)

lemma tiles_made:
  "tiles orig key fresh k off fs \<Longrightarrow> f \<in> set fs \<Longrightarrow> fragment_of orig f \<and> get_hash_key f = key"
  by (induction fs arbitrary: k off) (auto simp: makes_fragment_def)

lemma tiles_covered:
  "tiles orig key fresh k off fs \<Longrightarrow> off \<le> i \<Longrightarrow> i < length orig \<Longrightarrow> covered fs i"
proof (induction fs arbitrary: k off)
  case (Cons f fs)
  then show ?case using Cons.IH [of "Suc k" "off + frag_len f"]
    by (cases "i < off + frag_len f") (simp_all add: makes_fragment_def)
qed simp

lemma tiles_disjoint:
  "tiles orig key fresh k off fs \<Longrightarrow> f \<in> set fs \<Longrightarrow> g \<in> set fs \<Longrightarrow> frag_off g \<le> frag_off f \<Longrightarrow>
     frag_off f < frag_off g + frag_len g \<Longrightarrow> g = f"
proof (induction fs arbitrary: k off)
  case (Cons x fs)
  then have x: "frag_off x = off" "0 < frag_len x" and t: "tiles orig key fresh (Suc k) (off + frag_len x) fs"
    by (auto simp: makes_fragment_def)
  note ge = tiles_off_ge [OF t]
  consider "f = x" "g = x" | "f = x" "g \<in> set fs" | "g = x" "f \<in> set fs" | "f \<in> set fs" "g \<in> set fs"
    using Cons.prems by auto
  then show ?case
  proof cases
    case 2
    with ge [of g] x Cons.prems show ?thesis by simp
  next
    case 3
    with ge [of f] x Cons.prems show ?thesis by simp
  next
    case 4
    with Cons.IH [OF t] Cons.prems show ?thesis by simp
  qed simp
qed simp

lemma tiles_length: "tiles orig key fresh k off fs \<Longrightarrow> off + length fs \<le> length orig"
proof (induction fs arbitrary: k off)
  case (Cons f fs)
  then show ?case using Cons.IH [of "Suc k" "off + frag_len f"] by (simp add: makes_fragment_def)
qed simp

lemma tiles_ids:
  "tiles orig key fresh k off fs \<Longrightarrow>
     map b_bundleid fs = map (\<lambda>j. b_bundleid (fresh j)) [k ..< k + length fs]"
proof (induction fs arbitrary: k off)
  case (Cons f fs)
  then show ?case using Cons.IH [of "Suc k" "off + frag_len f"]
    by (simp add: makes_fragment_def upt_conv_Cons del: upt_Suc)
qed simp

lemma tiles_distinct:
  assumes "tiles orig key fresh 0 0 fs" "inj_on (\<lambda>j. b_bundleid (fresh j)) {..< length orig}"
  shows "distinct (map b_bundleid fs)"
proof -
  from tiles_length [OF assms(1)] have "inj_on (\<lambda>j. b_bundleid (fresh j)) {0 ..< length fs}"
    by (intro inj_on_subset [OF assms(2)]) auto
  then show ?thesis by (simp add: tiles_ids [OF assms(1)] distinct_map)
qed

lemma tiles_bytes:
  "tiles orig key fresh k off fs \<Longrightarrow> concat (map (\<lambda>f. pl_bytes (b_payload f)) fs) = drop off orig"
proof (induction fs arbitrary: k off)
  case (Cons f fs)
  then have "pl_bytes (b_payload f) = take (frag_len f) (drop off orig)"
    by (simp add: makes_fragment_def fragment_of_def)
  moreover have "concat (map (\<lambda>f. pl_bytes (b_payload f)) fs) = drop (off + frag_len f) orig"
    using Cons.IH [of "Suc k" "off + frag_len f"] Cons.prems by simp
  ultimately show ?case using append_take_drop_id [of "frag_len f" "drop off orig"] by (simp add: add.commute)
qed simp

text \<open>When the fragments arrive one by one, a hole remains until the last of them.\<close>

lemma tiles_hole:
  assumes "tiles orig key fresh k off fs" "set (gs @ [g]) = set fs" "g \<notin> set gs"
  shows "frag_off g < length orig \<and> \<not> covered gs (frag_off g)"
proof -
  have g: "g \<in> set fs" using assms(2) by auto
  then have "0 < frag_len g"
    using assms(1) by (induction fs arbitrary: k off) (auto simp: makes_fragment_def)
  moreover have "frag_off g + frag_len g \<le> length orig"
    using tiles_made [OF assms(1) g] by (simp add: fragment_of_def frag_ok_def)
  moreover have "\<not> covered gs (frag_off g)"
    using tiles_disjoint [OF assms(1) g] assms(2,3) by (auto simp: covered_def)
  ultimately show ?thesis by simp
qed

lemma reassemble_last:
  assumes nb: "\<forall>f. b_payload (fresh f) = payload_init loc" "loc \<noteq> NODATA"
    and fs: "\<forall>f \<in> set (gs @ [g]). fragment_of orig f \<and> get_hash_key f = k" "distinct (map b_bundleid (gs @ [g]))"
    and t: "tbl k = None" and hole: "i < length orig" "\<not> covered gs i"
    and full: "\<forall>i < length orig. covered (gs @ [g]) i"
  shows "\<exists>b frs. reassemble io fresh tbl (gs @ [g]) = Inr (tbl, replicate (length gs) None @ [Some (b, frs)]) \<and>
     pl_whole (b_payload b) \<and> pl_bytes (b_payload b) = orig \<and> \<not> b_is_fragment b \<and>
     set frs = set (gs @ [g]) \<and> frags_sorted frs"
proof -
  have r: "received k tbl = []" using t by (simp add: received_def)
  have "table_inv orig k tbl" using t by (simp add: table_inv_def)
  with reassemble_prefix [OF nb, of orig k tbl gs io] fs hole r obtain tbl' where
    p: "reassemble io fresh tbl gs = Inr (tbl', replicate (length gs) None)" "table_inv orig k tbl'"
      "set (received k tbl') = set gs" "\<forall>k'. k' \<noteq> k \<longrightarrow> tbl' k' = tbl k'" by auto
  have g: "fragment_of orig g" "get_hash_key g = k" "b_bundleid g \<notin> b_bundleid ` set (received k tbl')"
    using fs p(3) by auto
  have c: "\<forall>i < length orig. covered (g # received k tbl') i" using full p(3) by (auto simp: covered_def)
  from reassembly_table_step [OF p(2) g, of "fresh g" loc io] nb c obtain st where
    st: "reasm_inv orig st" "fs_fragments st = insert_frag g (received k tbl')"
      "process_for_reassembly io (fresh g) g tbl' = Inr (tbl'(k := None), Some (fs_bundle st, fs_fragments st))"
    by auto
  have "tbl'(k := None) = tbl" using p(4) t by auto
  moreover note reasm_inv_complete [OF st(1)]
  ultimately show ?thesis using p st c by (auto simp: reassemble_append reasm_inv_def)
qed

lemma first_last_len_ok:
  "\<forall>x \<in> set bs. block_ok recv api x \<Longrightarrow>
     \<exists>a c. first_last_len bs p x y = Inr (x + of_nat a, y + of_nat c) \<and> a \<le> blocks_size bs \<and> c \<le> blocks_size bs"
proof (induction bs arbitrary: p x y)
  case Nil
  show ?case by (intro exI [of _ 0]) simp
next
  case (Cons b bs)
  then have ok: "block_ok recv api b" and ih: "\<And>p x y. \<exists>a c. first_last_len bs p x y = Inr (x + of_nat a, y + of_nat c) \<and>
       a \<le> blocks_size bs \<and> c \<le> blocks_size bs" by simp_all
  from ok obtain t f where t: "bi_type b = Inr t" "bi_flags b = Inr f" by (rule block_okD)
  let ?n = "length (bi_contents b)"
  have sz: "blocks_size (b # bs) = ?n + blocks_size bs" by (simp add: blocks_size_def)
  have step: "\<exists>a c. first_last_len (b # bs) p x y = Inr (x + of_nat a, y + of_nat c) \<and>
       a \<le> blocks_size (b # bs) \<and> c \<le> blocks_size (b # bs)"
    if "first_last_len (b # bs) p x y = first_last_len bs q (x + of_nat i) (y + of_nat j)" "i \<le> ?n" "j \<le> ?n" for q i j
  proof -
    from ih [of q "x + of_nat i" "y + of_nat j"] obtain a c where
      "first_last_len bs q (x + of_nat i) (y + of_nat j) = Inr (x + of_nat i + of_nat a, y + of_nat j + of_nat c)"
      "a \<le> blocks_size bs" "c \<le> blocks_size bs" by blast
    with that show ?thesis by (intro exI [of _ "i + a"] exI [of _ "j + c"]) (simp add: sz add.assoc)
  qed
  consider "t = PRIMARY_BLOCK \<or> t \<noteq> PAYLOAD_BLOCK \<and> (f AND BLOCK_FLAG_REPLICATE \<noteq> 0 \<or> bi_source b = None)"
    | "t \<noteq> PRIMARY_BLOCK" "t = PAYLOAD_BLOCK"
    | "t \<noteq> PRIMARY_BLOCK" "t \<noteq> PAYLOAD_BLOCK" "f AND BLOCK_FLAG_REPLICATE = 0" "bi_source b \<noteq> None" by blast
  then show ?case
  proof cases
    case 1
    then show ?thesis using t by (intro step [of p ?n ?n]) (auto simp: Let_def)
  next
    case 2
    then show ?thesis using t by (intro step [of True 0 0]) (auto simp: Let_def)
  next
    case 3
    then show ?thesis using t step [of p 0 ?n] step [of p ?n 0] by (cases p) (auto simp: Let_def)
  qed
qed

lemma proactively_fragment_tiles:
  assumes r: "frag_ready b blocks m" and p: "2 \<le> pl_length (b_payload b)" "pl_length (b_payload b) \<le> n"
    and nb: "\<forall>k. fresh_ok loc (fresh k)"
  shows "\<exists>frags st'. proactively_fragment n io fresh blocks m b tbl =
      Inr (Some (Some frags, tbl(get_hash_key b \<mapsto> st'))) \<and> 2 \<le> length frags \<and>
      tiles (pl_bytes (b_payload b)) (get_hash_key b) fresh 0 0 frags"
proof -
  let ?p = "pl_length (b_payload b)" and ?recv = "bv_blocks (b_recv_blocks b)" and ?api = "bv_blocks (b_api_blocks b)"
  have rr: "\<not> b_is_fragment b" "?p < 2 ^ 32" "\<forall>x \<in> set blocks. block_ok ?recv ?api x"
    "blocks_size blocks + 20 < unat m" using r by (auto simp: frag_ready_def list_all_iff)
  have up: "unat (of_nat ?p :: u64) = ?p" using rr(2) by (simp add: unat_of_nat)
  from first_last_len_ok [OF rr(3), of False 0 0] obtain a c where
    l: "first_last_len blocks False 0 0 = Inr (of_nat a, of_nat c)" "a \<le> blocks_size blocks" "c \<le> blocks_size blocks"
    by auto
  let ?e = "sdnv_val_len (of_nat ?p * 2 :: u64)"
  have small: "\<not> m \<le> of_nat x + of_nat ?e" if "x \<le> blocks_size blocks" for x
  proof -
    have "x + ?e < unat m" using that rr(4) sdnv_val_len_le_10 [of "of_nat ?p * 2"] by linarith
    moreover have "unat (of_nat (x + ?e) :: u64) \<le> x + ?e" by (simp only: unat_of_nat mod_less_eq_dividend)
    ultimately show ?thesis by (simp add: word_le_nat_alt)
  qed
  from fragment_loop_tiles [OF nb r, of 0 True n io "of_nat c + of_nat ?e" False "[]"] p obtain p' frags where
    f: "fragment_loop n io fresh blocks m (of_nat c + of_nat ?e) b 0 (of_nat ?p) True False [] =
         Inr (Some (b\<lparr>b_payload := p'\<rparr>, frags))" "2 \<le> length frags"
      "tiles (pl_bytes (b_payload b)) (get_hash_key b) fresh 0 0 frags" by auto
  have "List.last frags \<in> set frags" using f(2) by (intro last_in_set) auto
  then have "get_hash_key (List.last frags) = get_hash_key b" using tiles_made [OF f(3)] by blast
  moreover have "\<not> (of_nat ?p :: u64) \<le> 1" using p up by (simp add: word_le_nat_alt)
  ultimately show ?thesis
    using f l small [OF l(2)] small [OF l(3)] rr(1)
    by (auto simp: proactively_fragment_def Let_def sdnv_len64_eq)
qed

lemma foldl_add_fragment:
  "frags_sorted (fs_fragments st) \<Longrightarrow> distinct (map b_bundleid (fs_fragments st @ fs)) \<Longrightarrow> \<forall>f \<in> set fs. \<not> b_freed f \<Longrightarrow>
     (let st' = foldl (\<lambda>s f. add_fragment f s) st fs
      in frags_sorted (fs_fragments st') \<and> set (fs_fragments st') = set (fs_fragments st) \<union> set fs \<and>
         fs_bundle st' = fs_bundle st)"
proof (induction fs arbitrary: st)
  case (Cons f fs)
  have "b_bundleid f \<notin> b_bundleid ` set (fs_fragments st)" "\<not> b_freed f" using Cons.prems by auto
  note add = covered_add_fragment [OF this(2,1)]
  have "distinct (map b_bundleid (fs_fragments (add_fragment f st) @ fs))"
    using Cons.prems(2) distinct_insert_frag [of f "fs_fragments st" fs] add by auto
  from Cons.IH [of "add_fragment f st", OF _ this] Cons.prems(1,3) add frags_sorted_insert
  show ?case by (simp add: Let_def)
qed simp

subsection \<open>Concrete values for the witnesses\<close>

definition sample_payload :: "bytes \<Rightarrow> payload" where
  "sample_payload bs = \<lparr>pl_location = MEMORY, pl_length = length bs, pl_data = bs, pl_pos = 0, pl_cur_offset = 0\<rparr>"

definition sample_bundle :: dtn_bundle where
  "sample_bundle = example_receiver\<lparr>b_payload := sample_payload [1, 2, 3]\<rparr>"

definition sample_blocks :: "block_info list" where
  "sample_blocks =
     [(block_new PRIMARY_BLOCK None)\<lparr>bi_contents := replicate 5 0\<rparr>,
      (block_new PAYLOAD_BLOCK None)\<lparr>bi_contents := [1, 8, 3], bi_data_offset := 3, bi_data_length := 3\<rparr>]"

definition sample_fragment :: "u32 \<Rightarrow> u32 \<Rightarrow> bytes \<Rightarrow> dtn_bundle" where
  "sample_fragment n off bs = example_receiver\<lparr>b_bundleid := n, b_is_fragment := True, b_orig_length := 3,
     b_frag_offset := off, b_payload := sample_payload bs\<rparr>"

definition sample_io :: payload_io where
  "sample_io = \<lparr>io_hit = True, io_junk = 0\<rparr>"

lemma example_receiver_fields:
  "\<not> b_is_fragment example_receiver" "\<not> b_freed example_receiver" "\<not> b_do_not_fragment example_receiver"
  "b_payload example_receiver = payload_init MEMORY"
  "bv_blocks (b_recv_blocks example_receiver) = []" "bv_blocks (b_api_blocks example_receiver) = []"
  by (simp_all add: example_receiver_def bundle_init_def get_current_time_def TIMEVAL_CONVERSION_def
      Let_def block_vec_new_def)

lemma sample_payload_simps [simp]:
  "pl_length (sample_payload bs) = length bs" "pl_bytes (sample_payload bs) = bs" "pl_whole (sample_payload bs)"
  by (simp_all add: sample_payload_def pl_bytes_def pl_whole_def pl_synced_def)

lemma sample_fragment_of:
  "unat off + length bs \<le> 3 \<Longrightarrow> length orig = 3 \<Longrightarrow> bs = take (length bs) (drop (unat off) orig) \<Longrightarrow>
     fragment_of orig (sample_fragment n off bs)"
  by (simp add: fragment_of_def frag_ok_def sample_fragment_def frag_off_def frag_len_def example_receiver_fields)

lemma sample_fragment_key: "get_hash_key (sample_fragment n off bs) = get_hash_key example_receiver"
  by (rule get_hash_key_cong) (simp_all add: sample_fragment_def)

lemma sample_covered:
  "covered [sample_fragment n off bs] i \<longleftrightarrow> unat off \<le> i \<and> i < unat off + length bs"
  by (simp add: sample_fragment_def frag_off_def frag_len_def)

lemmas sample_simps = sample_bundle_def sample_blocks_def example_receiver_fields block_new_def bi_type_def
  bi_flags_def PRIMARY_BLOCK_def PAYLOAD_BLOCK_def sdnv_decode_def MAX_LENGTH_def

lemma sample_ready: "frag_ready sample_bundle sample_blocks 30"
  by (simp add: frag_ready_def block_ok_def blocks_size_def sample_simps)

subsection \<open>Properties\<close>

text \<open>
  C15: a bundle is complete exactly when its fragments cover it. Whatever the order in which the
  fragments are added and however they overlap, \<open>check_completed\<close> answers true if every byte
  position of the original payload lies in one of the fragments, and false if one position is
  missing. (Each fragment is within the original payload and is recorded once.)
\<close>

theorem check_completed_covers:
  assumes "pl_length (b_payload b) = n" "\<forall>f \<in> set fs. frag_ok n f \<and> \<not> b_freed f" "distinct (map b_bundleid fs)"
  shows "check_completed (foldl (\<lambda>st f. add_fragment f st) \<lparr>fs_bundle = b, fs_fragments = []\<rparr> fs) =
           Inr (\<forall>i < n. covered fs i)"
proof -
  let ?st = "foldl (\<lambda>st f. add_fragment f st) \<lparr>fs_bundle = b, fs_fragments = []\<rparr> fs"
  have st: "frags_sorted (fs_fragments ?st)" "set (fs_fragments ?st) = set fs" "fs_bundle ?st = b"
    using foldl_add_fragment [of "\<lparr>fs_bundle = b, fs_fragments = []\<rparr>" fs] assms by (simp_all add: Let_def)
  then have "covered (fs_fragments ?st) = covered fs" by (simp add: covered_def fun_eq_iff)
  with check_completed_iff [OF st(1), of n] st assms show ?thesis by simp
qed

theorem check_completed_covers_witness:
  "check_completed (foldl (\<lambda>st f. add_fragment f st) \<lparr>fs_bundle = sample_bundle, fs_fragments = []\<rparr>
     [sample_fragment 8 1 [2, 3], sample_fragment 9 0 [1, 2]]) = Inr True"
proof -
  have "\<forall>i < 3. covered [sample_fragment 8 1 [2, 3], sample_fragment 9 0 [1, 2]] i"
    by (auto simp: sample_fragment_def frag_off_def frag_len_def)
  with check_completed_covers [of sample_bundle 3 "[sample_fragment 8 1 [2, 3], sample_fragment 9 0 [1, 2]]"]
  show ?thesis
    by (simp add: sample_bundle_def sample_fragment_def frag_ok_def frag_off_def frag_len_def example_receiver_fields)
qed

text \<open>
  C14: reassembly restores the original payload. Fragments of one bundle, of any lengths, possibly
  overlapping, arrive in any order at a node that has no state for the bundle yet. As long as a
  byte is missing no event is posted; the fragment that fills the last hole makes
  \<open>process_for_reassembly\<close> post exactly one event, whose bundle is not a fragment, carries the
  original payload and lists all the fragments in order of their offsets; the table is then as it
  was before the first fragment.
\<close>

theorem reassembly_any_order:
  assumes "\<forall>f. b_payload (fresh f) = payload_init loc" "loc \<noteq> NODATA"
    and "\<forall>f \<in> set (fs @ [g]). fragment_of orig f \<and> get_hash_key f = k" "distinct (map b_bundleid (fs @ [g]))"
    and "tbl k = None" "i < length orig" "\<not> covered fs i" "\<forall>i < length orig. covered (fs @ [g]) i"
  shows "\<exists>b frs. reassemble io fresh tbl (fs @ [g]) = Inr (tbl, replicate (length fs) None @ [Some (b, frs)]) \<and>
     pl_whole (b_payload b) \<and> pl_bytes (b_payload b) = orig \<and> \<not> b_is_fragment b \<and>
     set frs = set (fs @ [g]) \<and> frags_sorted frs"
  by (rule reassemble_last [where fresh = fresh and tbl = tbl and k = k, OF assms])

theorem reassembly_any_order_witness:
  "\<exists>b frs. reassemble sample_io (\<lambda>_. example_receiver) (\<lambda>_. None)
       ([sample_fragment 8 1 [2, 3]] @ [sample_fragment 9 0 [1, 2]]) =
       Inr (\<lambda>_. None, [None, Some (b, frs)]) \<and> pl_bytes (b_payload b) = [1, 2, 3]"
proof -
  let ?f = "sample_fragment 8 1 [2, 3]" and ?g = "sample_fragment 9 0 [1, 2]"
  have a: "\<forall>f \<in> set ([?f] @ [?g]). fragment_of [1, 2, 3] f \<and> get_hash_key f = get_hash_key example_receiver"
    by (simp add: sample_fragment_of sample_fragment_key)
  have d: "distinct (map b_bundleid ([?f] @ [?g]))" by (simp add: sample_fragment_def)
  have c: "\<not> covered [?f] 0" "\<forall>i < length [1 :: byte, 2, 3]. covered ([?f] @ [?g]) i"
    by (auto simp: sample_fragment_def frag_off_def frag_len_def)
  from reassembly_any_order [of "\<lambda>_. example_receiver" MEMORY "[?f]" ?g "[1, 2, 3]" "get_hash_key example_receiver"
      "\<lambda>_. None" 0 sample_io] a d c
  show ?thesis by (auto simp: example_receiver_fields)
qed

text \<open>
  C6: fragmentation and reassembly are inverse. Let a bundle that is not a fragment be fragmented
  for a link whose limit leaves more than 20 bytes beside its blocks. The loop ends (within as
  many turns as the payload has bytes) with at least two fragments whose payloads, in order,
  are the payload; and if these fragments arrive elsewhere in any order, each once, the last one
  completes the bundle with the payload that was sent.
\<close>

theorem fragment_roundtrip:
  assumes "frag_ready b blocks m" "2 \<le> pl_length (b_payload b)" "pl_length (b_payload b) \<le> n"
    and "\<forall>k. fresh_ok loc (fresh k)" "inj_on (\<lambda>k. b_bundleid (fresh k)) {..< pl_length (b_payload b)}"
    and "\<forall>f. b_payload (fresh' f) = payload_init loc'" "loc' \<noteq> NODATA" "tbl' (get_hash_key b) = None"
  shows "\<exists>frags st. proactively_fragment n io fresh blocks m b tbl =
       Inr (Some (Some frags, tbl(get_hash_key b \<mapsto> st))) \<and> 2 \<le> length frags \<and>
     concat (map (\<lambda>f. pl_bytes (b_payload f)) frags) = pl_bytes (b_payload b) \<and>
     (\<forall>gs g. distinct (gs @ [g]) \<longrightarrow> set (gs @ [g]) = set frags \<longrightarrow>
        (\<exists>r frs. reassemble io' fresh' tbl' (gs @ [g]) = Inr (tbl', replicate (length gs) None @ [Some (r, frs)]) \<and>
           pl_bytes (b_payload r) = pl_bytes (b_payload b)))"
proof -
  let ?o = "pl_bytes (b_payload b)" and ?k = "get_hash_key b"
  have l: "length ?o = pl_length (b_payload b)"
    using assms(1) by (intro pl_whole_length) (simp add: frag_ready_def)
  from proactively_fragment_tiles [OF assms(1-4)] obtain frags st where
    f: "proactively_fragment n io fresh blocks m b tbl = Inr (Some (Some frags, tbl(?k \<mapsto> st)))"
      "2 \<le> length frags" "tiles ?o ?k fresh 0 0 frags" by blast
  have d: "distinct (map b_bundleid frags)" by (rule tiles_distinct [OF f(3)]) (simp add: l assms(5))
  have "\<exists>r frs. reassemble io' fresh' tbl' (gs @ [g]) = Inr (tbl', replicate (length gs) None @ [Some (r, frs)]) \<and>
      pl_bytes (b_payload r) = ?o" if g: "distinct (gs @ [g])" "set (gs @ [g]) = set frags" for gs g
  proof -
    have "inj_on b_bundleid (set (gs @ [g]))" using d g(2) by (simp add: distinct_map)
    then have "distinct (map b_bundleid (gs @ [g]))" using g(1) by (simp only: distinct_map)
    moreover have "frag_off g < length ?o" "\<not> covered gs (frag_off g)"
      using tiles_hole [OF f(3) g(2)] g(1) by simp_all
    moreover have "\<forall>i < length ?o. covered (gs @ [g]) i"
      using tiles_covered [OF f(3)] g(2) by (simp add: covered_def del: set_append)
    moreover have "\<forall>f \<in> set (gs @ [g]). fragment_of ?o f \<and> get_hash_key f = ?k"
      using tiles_made [OF f(3)] g(2) by blast
    ultimately show ?thesis using reassemble_last [where fresh = fresh' and tbl = tbl' and k = ?k, OF assms(6,7) _ _ assms(8)] by blast
  qed
  then show ?thesis using f tiles_bytes [OF f(3)] by auto
qed

theorem fragment_roundtrip_witness:
  "\<exists>frags tbl'. proactively_fragment 3 sample_io (\<lambda>k. example_receiver\<lparr>b_bundleid := of_nat k\<rparr>) sample_blocks 30
     sample_bundle (\<lambda>_. None) = Inr (Some (Some frags, tbl')) \<and>
     concat (map (\<lambda>f. pl_bytes (b_payload f)) frags) = [1, 2, 3]"
proof -
  let ?fresh = "\<lambda>k. example_receiver\<lparr>b_bundleid := of_nat k\<rparr>"
  have p: "pl_length (b_payload sample_bundle) = 3" "pl_bytes (b_payload sample_bundle) = [1, 2, 3]"
    by (simp_all add: sample_bundle_def)
  have "\<forall>k. fresh_ok MEMORY (?fresh k)" by (simp add: fresh_ok_def example_receiver_fields)
  moreover have "inj_on (\<lambda>k. b_bundleid (?fresh k)) {..< 3}"
    by (auto simp: inj_on_def numeral_3_eq_3 less_Suc_eq)
  ultimately show ?thesis
    using fragment_roundtrip [OF sample_ready, of 3 MEMORY ?fresh "\<lambda>_. example_receiver" MEMORY
        "\<lambda>_. None" sample_io "\<lambda>_. None" sample_io] p
    by (auto simp: example_receiver_fields)
qed

text \<open>
  The reactively created tail is too short. When a transmission breaks off inside the payload
  of a bundle that is not a fragment, \<open>try_to_reactively_fragment\<close> passes the number of unsent
  payload bytes as the length of the whole fragment, from which \<open>create_fragment\<close> subtracts the
  lengths of the blocks and of two header fields. The tail starts at the right offset but ends
  before the end of the payload: its last bytes are in no fragment.
\<close>

theorem reactive_tail_short:
  assumes "frag_ready b blocks (of_nat (pl_length (b_payload b) - sent))" "fresh_ok loc nb" "\<not> b_do_not_fragment b"
    and "payload_offset blocks = Inr po" "find_block_list PAYLOAD_BLOCK blocks = Inr pb"
    and "0 < sent" "sent < pl_length (b_payload b)" "po + sent < total_length blocks"
  shows "\<exists>tail b'. try_to_reactively_fragment io nb b blocks (po + sent) = Inr (Some tail, b') \<and>
     frag_off tail = sent \<and> frag_off tail + frag_len tail < pl_length (b_payload b)"
proof -
  let ?p = "pl_length (b_payload b)" and ?m = "of_nat (pl_length (b_payload b) - sent) :: u64"
  have p: "?p < 2 ^ 32" "\<not> b_is_fragment b" and ok: "\<forall>x \<in> set blocks. block_ok (bv_blocks (b_recv_blocks b)) (bv_blocks (b_api_blocks b)) x"
    and sz: "blocks_size blocks + 20 < unat ?m"
    using assms(1) by (auto simp: frag_ready_def list_all_iff)
  have um: "unat ?m = ?p - sent" and us: "unat (of_nat sent :: u64) = sent"
    using p(1) assms(7) by (simp_all only: unat_of_nat) auto
  from create_fragment_ok [where first = False, OF assms(1,2), of "of_nat sent" io True] us assms(7) obtain f p' where
    f: "create_fragment io nb b blocks (of_nat sent) ?m False True = Inr (f, b\<lparr>b_payload := p'\<rparr>)"
      "makes_fragment (pl_bytes (b_payload b)) (get_hash_key b) nb sent f" by auto
  from fragment_blocks_ok [OF ok, of False True False "[]" ?m] obtain out s where
    out: "fragment_blocks (bv_blocks (b_recv_blocks b)) (bv_blocks (b_api_blocks b)) False True blocks False [] ?m =
      Inr (out, ?m - of_nat s)" "s \<le> blocks_size blocks" by blast
  have "frag_len f = unat (fragment_length b (of_nat sent) (?m - of_nat s) False)"
    by (rule create_fragment_length [OF f(1) out(1)])
  moreover have "sent + unat (fragment_length b (of_nat sent) (?m - of_nat s) False) < ?p"
  proof -
    have ul: "unat (?m - of_nat s) = ?p - sent - s" using unat_minus [of s ?m] out(2) sz um by simp
    define x where "x = sdnv_val_len (of_nat ?p :: u64)"
    define y where "y = sdnv_val_len (of_nat sent :: u64)"
    have "0 < x" "x \<le> 10" "y \<le> 10" using sdnv_val_len_le_10 by (simp_all add: x_def y_def)
    moreover have "unat (fragment_length b (of_nat sent) (?m - of_nat s) False) =
        (let l = ?p - sent - s - x - y; d = ?p - sent in if ?p \<le> sent + l then d else l)"
      using fragment_length_eq [OF p(2) refl p(1), of "of_nat sent" "?m - of_nat s" False] ul us um sz out(2) p(1) assms(7)
      unfolding x_def y_def by (simp add: Let_def add.assoc)
    ultimately show ?thesis using sz um out(2) assms(7) by (simp add: Let_def)
  qed
  ultimately show ?thesis
    using assms f by (simp add: try_to_reactively_fragment_def makes_fragment_def)
qed

theorem reactive_tail_short_witness:
  "\<exists>tail b'. try_to_reactively_fragment sample_io example_receiver
       (example_receiver\<lparr>b_payload := sample_payload (replicate 100 7)\<rparr>)
       [(block_new PRIMARY_BLOCK None)\<lparr>bi_contents := replicate 5 0, bi_data_offset := 5\<rparr>,
        (block_new PAYLOAD_BLOCK None)\<lparr>bi_contents := [1, 8, 100], bi_data_offset := 3, bi_data_length := 100\<rparr>]
       (8 + 10) = Inr (Some tail, b') \<and> frag_off tail = 10 \<and> frag_off tail + frag_len tail < 100"
proof -
  let ?b = "example_receiver\<lparr>b_payload := sample_payload (replicate 100 7)\<rparr>"
  let ?bs = "[(block_new PRIMARY_BLOCK None)\<lparr>bi_contents := replicate 5 0, bi_data_offset := 5\<rparr>,
        (block_new PAYLOAD_BLOCK None)\<lparr>bi_contents := [1, 8, 100], bi_data_offset := 3, bi_data_length := 100\<rparr>]"
  let ?pb = "(block_new PAYLOAD_BLOCK None)\<lparr>bi_contents := [1, 8, 100], bi_data_offset := 3, bi_data_length := 100\<rparr>"
  have r: "frag_ready ?b ?bs (of_nat (pl_length (b_payload ?b) - 10))"
    by (simp add: frag_ready_def block_ok_def blocks_size_def sample_simps)
  have "payload_offset ?bs = Inr 8" "find_block_list PAYLOAD_BLOCK ?bs = Inr (Some ?pb)" "total_length ?bs = 108"
    by (simp_all add: sample_simps bi_full_length_def total_length_def)
  with reactive_tail_short [OF r, of MEMORY example_receiver 8 "Some ?pb" sample_io] show ?thesis
    by (simp add: fresh_ok_def example_receiver_fields)
qed


text \<open>
  A fragment that reaches past the end of its bundle stops the daemon. The code that writes a
  fragment into the payload under reassembly asserts that it fits, and nothing checks the offset
  and length of a received fragment against the original length it announces.
\<close>

theorem reassembly_overrun_asserts:
  assumes "b_is_fragment f" "tbl (get_hash_key f) = None" "unat (b_orig_length f) < frag_off f + frag_len f"
  shows "process_for_reassembly io nb f tbl = Inl ASSERT"
  using assms
  by (simp add: process_for_reassembly_def Let_def add_fragment_def reassembly_new_def pl_write_from_def
      pl_set_length_def frag_len_def)

theorem reassembly_overrun_asserts_witness:
  "process_for_reassembly sample_io example_receiver (sample_fragment 8 2 [9, 9]) (\<lambda>_. None) = Inl ASSERT"
  by (rule reassembly_overrun_asserts) (simp_all add: sample_fragment_def frag_off_def frag_len_def)

text \<open>
  Two different bundles can share a fragment table entry. The key concatenates the source and
  the destination without a separator, so fragments of bundles between different endpoints, sent
  at the same time with the same sequence number, are collected in the same state.
\<close>

theorem get_hash_key_ambiguous:
  "\<exists>b b'. get_hash_key b = get_hash_key b' \<and> eid_str (b_source b) \<noteq> eid_str (b_source b') \<and>
     eid_str (b_dest b) \<noteq> eid_str (b_dest b')"
proof -
  let ?e = "\<lambda>s. eid_default\<lparr>eid_uri := \<lparr>uri_text = lit s, uri_scheme = [], uri_ssp = [], uri_valid = True\<rparr>\<rparr>"
  let ?b = "example_receiver\<lparr>b_source := ?e ''dtn:a'', b_dest := ?e ''bdtn:c''\<rparr>"
  let ?b' = "example_receiver\<lparr>b_source := ?e ''dtn:ab'', b_dest := ?e ''dtn:c''\<rparr>"
  have "get_hash_key ?b = get_hash_key ?b'"
    by (simp add: get_hash_key_def c_str_def eid_default_def lit_def)
  then show ?thesis by (intro exI [of _ ?b] exI [of _ ?b']) (simp add: eid_default_def lit_def)
qed

end
