(* ===== verification/ExtBlocks.thy ===== *)
theory ExtBlocks
  imports PrimaryBlock Fragment
begin

text \<open>
  The block processors other than the primary one: \<open>PayloadBlockProcessor.cc\<close>,
  \<open>UnknownBlockProcessor.cc\<close>, \<open>PreviousHopBlockProcessor.cc\<close>, \<open>SessionBlockProcessor.cc\<close>,
  \<open>AgeBlockProcessor.cc\<close>, \<open>SequenceIDBlockProcessor.cc\<close> and \<open>APIBlockProcessor.cc\<close> of
  \<open>servlib/bundling\<close>. Each overrides some methods of \<open>BlockProcessor\<close> and inherits the others.

  What these methods read besides their arguments is the record \<open>bp_env\<close>: the buffer growth and
  the naming of the other theories, the payload store, the node's own identifier, the option of
  the outgoing link, the parameters of the age block and the time a bundle has been held.
\<close>

record bp_env =
  env_rsv :: "nat \<Rightarrow> nat \<Rightarrow> nat"
  env_naming :: naming
  env_io :: payload_io
  env_local_eid :: eid
  env_prevhop_hdr :: bool
  env_age_outbound_enabled :: bool
  env_age_inbound_processing :: bool
  env_age_zero_creation_ts_time :: bool
  env_elapsed_ms :: u32

text \<open>The reasons the validation methods report; \<open>block->data()\<close> up to the length of the data.\<close>

definition REASON_NO_ADDTL_INFO :: byte where "REASON_NO_ADDTL_INFO = 0x00"
definition REASON_BLOCK_UNINTELLIGIBLE :: byte where "REASON_BLOCK_UNINTELLIGIBLE = 0x08"

record reasons =
  reception_reason :: byte
  deletion_reason :: byte

definition bi_data :: "block_info \<Rightarrow> bytes" where
  "bi_data block = take (unat (bi_data_length block)) (drop (unat (bi_data_offset block)) (bi_contents block))"

abbreviation LAST_FLAG :: "bool \<Rightarrow> u64" where
  "LAST_FLAG is_last \<equiv> (if is_last then BLOCK_FLAG_LAST_BLOCK else 0)"

subsection \<open>The payload block\<close>

definition payload_consume_data ::
  "payload_io \<Rightarrow> dtn_bundle \<Rightarrow> block_info \<Rightarrow> bytes \<Rightarrow> int \<Rightarrow> (int \<times> dtn_bundle \<times> block_info) res"
where
  "payload_consume_data io b block buf consumed =
     (if bi_data_offset block = 0 then bindR (assertR (buf = [])) (\<lambda>_. Inr (consumed, b, block))
      else if pl_location (b_payload b) = NODATA then Inr (consumed, b, block\<lparr>bi_complete := True\<rparr>)
      else if bi_data_length block = 0 then Inr (consumed, b, block\<lparr>bi_complete := True\<rparr>)
      else if buf = [] then Inr (consumed, b, block)
      else
        bindR (assertR (length (bi_contents block) = unat (bi_data_offset block))) (\<lambda>_.
        bindR (assertR (unat (bi_data_length block) > pl_length (b_payload b))) (\<lambda>_.
          let rcvd = pl_length (b_payload b);
              remainder = unat (bi_data_length block) - rcvd;
              block' = (if length buf \<ge> remainder then block\<lparr>bi_complete := True\<rparr> else block);
              tocopy = (if length buf \<ge> remainder then remainder else length buf)
          in bindR (pl_write_data io (take tocopy buf) rcvd (pl_set_length io (rcvd + tocopy) (b_payload b))) (\<lambda>p.
               Inr (consumed + int tocopy, b\<lparr>b_payload := p\<rparr>, block')))))"

definition payload_consume :: "bp_env \<Rightarrow> dtn_bundle \<Rightarrow> block_info \<Rightarrow> bytes \<Rightarrow> (int \<times> dtn_bundle \<times> block_info) res" where
  "payload_consume env b block buf =
     (if bi_data_offset block = 0
      then
        bindR (consume_preamble (env_rsv env) (env_naming env) (bv_dict (b_recv_blocks b)) block buf) (\<lambda>(cc, _, block).
          if cc = - 1 then Inr (- 1, b, block)
          else if cc < 0 then Inl OOB
          else
            bindR (assertR (pl_length (b_payload b) = 0)) (\<lambda>_.
              payload_consume_data (env_io env) b block (drop (nat cc) buf) cc))
      else payload_consume_data (env_io env) b block buf 0)"

text \<open>A failed validation sets the deletion reason.\<close>

definition base_validate :: "dtn_bundle \<Rightarrow> block_info \<Rightarrow> reasons \<Rightarrow> (bool \<times> reasons) res" where
  "base_validate b block rs =
     bindR (block_validate (b_is_admin b) block) (\<lambda>ok.
       Inr (ok, if ok then rs else rs\<lparr>deletion_reason := REASON_BLOCK_UNINTELLIGIBLE\<rparr>))"

definition payload_validate :: "dtn_bundle \<Rightarrow> block_info \<Rightarrow> reasons \<Rightarrow> (bool \<times> reasons) res" where
  "payload_validate b block rs =
     bindR (base_validate b block rs) (\<lambda>(ok, rs).
       if \<not> ok then Inr (False, rs)
       else if \<not> bi_complete block \<and>
               (bi_data_offset block = 0 \<or>
                bi_data_length block \<noteq> 0 \<and> pl_length (b_payload b) = 0 \<or>
                b_do_not_fragment b)
       then Inr (False, rs\<lparr>deletion_reason := REASON_BLOCK_UNINTELLIGIBLE\<rparr>)
       else Inr (True, rs))"

definition payload_generate ::
  "dtn_bundle \<Rightarrow> dictionary \<Rightarrow> block_info \<Rightarrow> bool \<Rightarrow> (block_info \<times> dictionary) res"
where
  "payload_generate b dict block is_last =
     generate_preamble dict block (of_nat PAYLOAD_BLOCK) (LAST_FLAG is_last)
       (of_nat (pl_length (b_payload b)))"

text \<open>\<open>produce\<close> into the buffer \<open>buf\<close>, whose length is the requested one.\<close>

definition payload_produce ::
  "payload_io \<Rightarrow> dtn_bundle \<Rightarrow> block_info \<Rightarrow> bytes \<Rightarrow> nat \<Rightarrow> (bytes \<times> dtn_bundle) res"
where
  "payload_produce io b block buf offset =
     (let doff = unat (bi_data_offset block);
          n1 = (if offset < doff then min (length buf) (doff - offset) else 0);
          pre = take n1 (drop offset (bi_contents block));
          offset' = offset + n1;
          rest = drop n1 buf
      in if rest = [] then Inr (pre, b)
         else
           let poff = offset' - doff;
               tocopy = min (length rest) (size_diff (pl_length (b_payload b)) poff)
           in bindR (pl_read_data io poff (take tocopy rest) (b_payload b)) (\<lambda>(bs, p).
                Inr (pre @ bs @ drop tocopy rest, b\<lparr>b_payload := p\<rparr>)))"

subsection \<open>Blocks of unknown type\<close>

definition unknown_prepare ::
  "block_info list \<Rightarrow> block_info list \<Rightarrow> block_vec \<Rightarrow> block_ref option \<Rightarrow> list_owner \<Rightarrow> (bool \<times> block_vec) res"
where
  "unknown_prepare recv api xmit source lst =
     (case source of
        None \<Rightarrow> Inl ASSERT
      | Some r \<Rightarrow>
          bindR (deref_block recv api r) (\<lambda>src.
          bindR (assertR (bi_owner src = UNKNOWN_BLOCK)) (\<lambda>_.
          bindR (bi_flags src) (\<lambda>flags.
            if flags AND BLOCK_FLAG_DISCARD_BLOCK_ONERROR \<noteq> 0 then Inr (False, xmit)
            else bindR (block_prepare UNKNOWN_BLOCK source lst xmit) (\<lambda>x. Inr (True, x))))))"

text \<open>The flags of a copied block are kept in 8 bits.\<close>

definition copied_flags :: "u64 \<Rightarrow> bool \<Rightarrow> byte" where
  "copied_flags flags is_last =
     (let f = ucast flags :: byte
      in if is_last then f OR ucast BLOCK_FLAG_LAST_BLOCK else f AND NOT (ucast BLOCK_FLAG_LAST_BLOCK))"

definition unknown_generate ::
  "(nat \<Rightarrow> nat \<Rightarrow> nat) \<Rightarrow> block_info list \<Rightarrow> block_info list \<Rightarrow> dictionary \<Rightarrow> block_info \<Rightarrow> bool \<Rightarrow>
     (block_info \<times> dictionary) res"
where
  "unknown_generate rsv recv api dict block is_last =
     (case bi_source block of
        None \<Rightarrow> Inl ASSERT
      | Some r \<Rightarrow>
          bindR (deref_block recv api r) (\<lambda>src.
          bindR (assertR (bi_owner src = UNKNOWN_BLOCK)) (\<lambda>_.
          bindR (bi_flags src) (\<lambda>sf.
          bindR (assertR (sf AND BLOCK_FLAG_DISCARD_BUNDLE_ONERROR = 0)) (\<lambda>_.
          bindR (assertR (sf AND BLOCK_FLAG_DISCARD_BLOCK_ONERROR = 0)) (\<lambda>_.
          bindR (assertR (bi_contents src \<noteq> [])) (\<lambda>_.
          bindR (assertR (bi_data_offset src \<noteq> 0)) (\<lambda>_.
            let flags = copied_flags sf is_last OR ucast BLOCK_FLAG_FORWARDED_UNPROCESSED;
                block = block\<lparr>bi_eid_list := bi_eid_list src\<rparr>
            in
            bindR (bi_type src) (\<lambda>t.
            bindR (generate_preamble dict block (of_nat t) (ucast flags) (ucast (bi_data_length src))) (\<lambda>(block, dict).
            bindR (assertR (bi_data_length block = bi_data_length src)) (\<lambda>_.
              let block = bi_reserve rsv (unat (bi_full_length block)) block
              in if length (bi_data src) = unat (bi_data_length src)
                 then Inr (block\<lparr>bi_contents := bi_contents block @ bi_data src\<rparr>, dict)
                 else Inl OOB)))))))))))"

definition unknown_validate :: "dtn_bundle \<Rightarrow> block_info \<Rightarrow> reasons \<Rightarrow> (bool \<times> reasons) res" where
  "unknown_validate b block rs =
     bindR (base_validate b block rs) (\<lambda>(ok, rs).
       if \<not> ok then Inr (False, rs)
       else
         bindR (bi_flags block) (\<lambda>f.
           let rs = (if f AND BLOCK_FLAG_REPORT_ONERROR \<noteq> 0
                     then rs\<lparr>reception_reason := REASON_BLOCK_UNINTELLIGIBLE\<rparr> else rs)
           in if f AND BLOCK_FLAG_DISCARD_BUNDLE_ONERROR \<noteq> 0
              then Inr (False, rs\<lparr>deletion_reason := REASON_BLOCK_UNINTELLIGIBLE\<rparr>)
              else Inr (True, rs)))"

subsection \<open>Extension blocks with a parsed value\<close>

text \<open>
  The common part of the \<open>consume\<close> methods below: the generic \<open>consume\<close>, and, once the block is
  complete, the parsing of its data. The result of \<open>parse\<close> says whether the data was accepted.
\<close>

definition ext_consume ::
  "bp_env \<Rightarrow> (dtn_bundle \<Rightarrow> block_info \<Rightarrow> (bool \<times> dtn_bundle) res) \<Rightarrow> dtn_bundle \<Rightarrow> block_info \<Rightarrow> bytes \<Rightarrow>
     (int \<times> dtn_bundle \<times> block_info) res"
where
  "ext_consume env parse b block buf =
     bindR (block_consume (env_rsv env) (env_naming env) (bv_dict (b_recv_blocks b)) block buf) (\<lambda>(cc, block).
       if cc = - 1 then Inr (- 1, b, block)
       else if \<not> bi_complete block
       then bindR (assertR (cc = int (length buf))) (\<lambda>_. Inr (cc, b, block))
       else bindR (parse b block) (\<lambda>(ok, b). Inr (if ok then cc else - 1, b, block)))"

text \<open>A preamble followed by the block's own data.\<close>

definition generate_with_data ::
  "(nat \<Rightarrow> nat \<Rightarrow> nat) \<Rightarrow> dictionary \<Rightarrow> block_info \<Rightarrow> byte \<Rightarrow> u64 \<Rightarrow> bytes \<Rightarrow> (block_info \<times> dictionary) res"
where
  "generate_with_data rsv dict block t flags data =
     bindR (generate_preamble dict block t flags (of_nat (length data))) (\<lambda>(block, dict).
       let block = bi_reserve rsv (unat (bi_data_offset block) + length data) block
       in Inr (block\<lparr>bi_contents := bi_contents block @ data\<rparr>, dict))"

subsubsection \<open>Previous hop\<close>

definition prevhop_parse :: "naming \<Rightarrow> dtn_bundle \<Rightarrow> block_info \<Rightarrow> (bool \<times> dtn_bundle) res" where
  "prevhop_parse nm b block =
     (let e = eid_assign nm (bi_data block) in Inr (eid_valid e, b\<lparr>b_prevhop := e\<rparr>))"

definition prevhop_consume :: "bp_env \<Rightarrow> dtn_bundle \<Rightarrow> block_info \<Rightarrow> bytes \<Rightarrow> (int \<times> dtn_bundle \<times> block_info) res" where
  "prevhop_consume env = ext_consume env (prevhop_parse (env_naming env))"

definition prevhop_prepare :: "bp_env \<Rightarrow> block_vec \<Rightarrow> block_ref option \<Rightarrow> list_owner \<Rightarrow> (bool \<times> block_vec) res" where
  "prevhop_prepare env xmit source lst =
     (if \<not> env_prevhop_hdr env then Inr (False, xmit)
      else bindR (block_prepare PREVIOUS_HOP_BLOCK source lst xmit) (\<lambda>x. Inr (True, x)))"

definition prevhop_generate :: "bp_env \<Rightarrow> dictionary \<Rightarrow> block_info \<Rightarrow> bool \<Rightarrow> (block_info \<times> dictionary) res" where
  "prevhop_generate env dict block is_last =
     bindR (assertR (env_prevhop_hdr env)) (\<lambda>_.
       generate_with_data (env_rsv env) dict block (of_nat PREVIOUS_HOP_BLOCK)
         (BLOCK_FLAG_DISCARD_BUNDLE_ONERROR OR LAST_FLAG is_last) (eid_str (env_local_eid env)))"

subsubsection \<open>Session\<close>

text \<open>\<open>consume\<close> reads the first byte of the data whether or not there is one.\<close>

definition session_parse :: "dtn_bundle \<Rightarrow> block_info \<Rightarrow> (bool \<times> dtn_bundle) res" where
  "session_parse b block =
     (case bi_eid_list block of
        [e] \<Rightarrow>
          (case bi_data block of
             [] \<Rightarrow> Inl OOB
           | c # _ \<Rightarrow> Inr (True, b\<lparr>b_session_eid := e, b_session_flags := c\<rparr>))
      | _ \<Rightarrow> Inr (False, b))"

definition session_consume :: "bp_env \<Rightarrow> dtn_bundle \<Rightarrow> block_info \<Rightarrow> bytes \<Rightarrow> (int \<times> dtn_bundle \<times> block_info) res" where
  "session_consume env = ext_consume env session_parse"

definition session_prepare ::
  "naming \<Rightarrow> dtn_bundle \<Rightarrow> block_vec \<Rightarrow> block_ref option \<Rightarrow> list_owner \<Rightarrow> (bool \<times> block_vec) res"
where
  "session_prepare nm b xmit source lst =
     (if eid_str (b_session_eid b) = [] then Inr (True, xmit)
      else
        bindR (assertR (\<not> eid_equals (b_session_eid b) (NULL_EID nm))) (\<lambda>_.
        bindR (block_prepare SESSION_BLOCK source lst xmit) (\<lambda>x. Inr (True, x))))"

definition session_generate ::
  "bp_env \<Rightarrow> dtn_bundle \<Rightarrow> dictionary \<Rightarrow> block_info \<Rightarrow> bool \<Rightarrow> (block_info \<times> dictionary) res"
where
  "session_generate env b dict block is_last =
     bindR (assertR (eid_str (b_session_eid b) \<noteq> [])) (\<lambda>_.
       generate_with_data (env_rsv env) dict
         (block\<lparr>bi_eid_list := bi_eid_list block @ [b_session_eid b]\<rparr>) (of_nat SESSION_BLOCK)
         (BLOCK_FLAG_DISCARD_BUNDLE_ONERROR OR BLOCK_FLAG_REPORT_ONERROR OR LAST_FLAG is_last)
         [b_session_flags b])"

subsubsection \<open>Age\<close>

text \<open>An age that cannot be decoded is only logged; the value decoded so far is stored.\<close>

definition age_parse :: "bool \<Rightarrow> dtn_bundle \<Rightarrow> block_info \<Rightarrow> (bool \<times> dtn_bundle) res" where
  "age_parse zero_ts b block =
     (let b = b\<lparr>b_age := fst (sdnv_decode (bi_data block))\<rparr>
      in Inr (True, if zero_ts then b\<lparr>b_creation_ts := Timestamp 0 (seqno (b_creation_ts b))\<rparr> else b))"

definition age_consume :: "bp_env \<Rightarrow> dtn_bundle \<Rightarrow> block_info \<Rightarrow> bytes \<Rightarrow> (int \<times> dtn_bundle \<times> block_info) res" where
  "age_consume env = ext_consume env (age_parse (env_age_zero_creation_ts_time env))"

definition age_prepare ::
  "bp_env \<Rightarrow> dtn_bundle \<Rightarrow> block_vec \<Rightarrow> block_ref option \<Rightarrow> list_owner \<Rightarrow> (bool \<times> block_vec) res"
where
  "age_prepare env b xmit source lst =
     (if \<not> env_age_outbound_enabled env then Inr (False, xmit)
      else
        bindR (bv_find_block (of_nat AGE_BLOCK) (b_api_blocks b)) (\<lambda>r.
          if r \<noteq> None then Inr (False, xmit)
          else bindR (block_prepare AGE_BLOCK source lst xmit) (\<lambda>x. Inr (True, x))))"

definition age_generate ::
  "bp_env \<Rightarrow> dtn_bundle \<Rightarrow> dictionary \<Rightarrow> block_info \<Rightarrow> bool \<Rightarrow> (block_info \<times> dictionary) res"
where
  "age_generate env b dict block is_last =
     (let flags = BLOCK_FLAG_REPLICATE OR BLOCK_FLAG_DISCARD_BUNDLE_ONERROR OR LAST_FLAG is_last;
          age = ucast (env_elapsed_ms env div 1000) + b_age b
      in
      bindR (sdnv_encoding_len age) (\<lambda>n.
        case sdnv_encode age n of
          None \<Rightarrow> Inl ASSERT
        | Some bs \<Rightarrow> generate_with_data (env_rsv env) dict block (of_nat AGE_BLOCK) flags bs))"

subsubsection \<open>Sequence and obsoletes identifiers\<close>

definition block_sequence_id :: "nat \<Rightarrow> dtn_bundle \<Rightarrow> sequence_id" where
  "block_sequence_id t b = (if t = SEQUENCE_ID_BLOCK then b_sequence_id b else b_obsoletes_id b)"

definition set_block_sequence_id :: "nat \<Rightarrow> sequence_id \<Rightarrow> dtn_bundle \<Rightarrow> dtn_bundle" where
  "set_block_sequence_id t v b =
     (if t = SEQUENCE_ID_BLOCK then b\<lparr>b_sequence_id := v\<rparr> else b\<lparr>b_obsoletes_id := v\<rparr>)"

definition seqid_prepare ::
  "nat \<Rightarrow> dtn_bundle \<Rightarrow> block_vec \<Rightarrow> block_ref option \<Rightarrow> list_owner \<Rightarrow> (bool \<times> block_vec) res"
where
  "seqid_prepare t b xmit source lst =
     (if block_sequence_id t b = [] then Inr (True, xmit)
      else bindR (block_prepare t source lst xmit) (\<lambda>x. Inr (True, x)))"

text \<open>The length of the data, then the data: a type byte, and a counter or a counted string.\<close>

fun seqid_length :: "sequence_id \<Rightarrow> nat res" where
  "seqid_length [] = Inr 0"
| "seqid_length (x # xs) =
     bindR (case se_type x of
              COUNTER \<Rightarrow> sdnv_encoding_len (se_counter x)
            | IDENTIFIER \<Rightarrow> bindR (sdnv_encoding_len (of_nat (length (se_identifier x)))) (\<lambda>n. Inr (n + length (se_identifier x)))
            | EMPTY \<Rightarrow> Inl NOTREACHED) (\<lambda>n.
     bindR (seqid_length xs) (\<lambda>m. Inr (Suc n + m)))"

fun seqid_write :: "sequence_id \<Rightarrow> nat \<Rightarrow> bytes res" where
  "seqid_write [] len = bindR (assertR (len = 0)) (\<lambda>_. Inr [])"
| "seqid_write (x # xs) len =
     (let t = (case se_type x of EMPTY \<Rightarrow> 0 | COUNTER \<Rightarrow> 1 | IDENTIFIER \<Rightarrow> 2) :: byte; len = len - 1
      in if se_type x = COUNTER
         then (case sdnv_encode (se_counter x) len of
                 None \<Rightarrow> Inl ASSERT
               | Some bs \<Rightarrow> bindR (seqid_write xs (len - length bs)) (\<lambda>r. Inr (t # bs @ r)))
         else (case sdnv_encode (of_nat (length (se_identifier x))) len of
                 None \<Rightarrow> Inl ASSERT
               | Some bs \<Rightarrow>
                   bindR (assertR (len - length bs \<ge> length (se_identifier x))) (\<lambda>_.
                   bindR (seqid_write xs (len - length bs - length (se_identifier x))) (\<lambda>r.
                     Inr (t # bs @ se_identifier x @ r)))))"

definition seqid_generate ::
  "nat \<Rightarrow> (nat \<Rightarrow> nat \<Rightarrow> nat) \<Rightarrow> dtn_bundle \<Rightarrow> dictionary \<Rightarrow> block_info \<Rightarrow> bool \<Rightarrow> (block_info \<times> dictionary) res"
where
  "seqid_generate t rsv b dict block is_last =
     (let v = block_sequence_id t b
      in
      bindR (seqid_length v) (\<lambda>len.
      bindR (seqid_write v len) (\<lambda>data.
        generate_with_data rsv dict (block\<lparr>bi_eid_list := bi_eid_list block @ map se_eid v\<rparr>) (of_nat t)
          (BLOCK_FLAG_REPLICATE OR LAST_FLAG is_last) data)))"

text \<open>
  The loop over the endpoints of the block. The code decrements the remaining length before it
  looks at it: running out of data is an access outside the block.
\<close>

fun seqid_read :: "eid list \<Rightarrow> bytes \<Rightarrow> sequence_id \<Rightarrow> (bool \<times> sequence_id) res" where
  "seqid_read [] data v = Inr (True, v)"
| "seqid_read (e # es) [] v = Inl OOB"
| "seqid_read (e # es) (t # data) v =
     (if t = 1
      then (case sdnv_decode data of
              (_, None) \<Rightarrow> Inr (False, v)
            | (c, Some n) \<Rightarrow> seqid_read es (drop n data) (seq_add_counter e c v))
      else if t = 2
      then (case sdnv_decode data of
              (_, None) \<Rightarrow> Inr (False, v)
            | (l, Some n) \<Rightarrow>
                if unat l \<le> length (drop n data)
                then seqid_read es (drop (n + unat l) data) (seq_add_identifier e (take (unat l) (drop n data)) v)
                else Inl OOB)
      else Inr (False, v))"

definition seqid_parse :: "nat \<Rightarrow> dtn_bundle \<Rightarrow> block_info \<Rightarrow> (bool \<times> dtn_bundle) res" where
  "seqid_parse t b block =
     (if bi_eid_list block = [] then Inr (False, b)
      else
        bindR (seqid_read (bi_eid_list block) (bi_data block) (block_sequence_id t b)) (\<lambda>(ok, v).
          Inr (ok, set_block_sequence_id t v b)))"

definition seqid_consume ::
  "nat \<Rightarrow> bp_env \<Rightarrow> dtn_bundle \<Rightarrow> block_info \<Rightarrow> bytes \<Rightarrow> (int \<times> dtn_bundle \<times> block_info) res"
where
  "seqid_consume t env = ext_consume env (seqid_parse t)"

subsubsection \<open>Blocks from the application interface\<close>

definition api_consume :: "dtn_bundle \<Rightarrow> block_info \<Rightarrow> bytes \<Rightarrow> (int \<times> dtn_bundle \<times> block_info) res" where
  "api_consume b block buf = Inr (- 1, b, block)"

definition api_generate ::
  "(nat \<Rightarrow> nat \<Rightarrow> nat) \<Rightarrow> block_info list \<Rightarrow> block_info list \<Rightarrow> dictionary \<Rightarrow> block_info \<Rightarrow> bool \<Rightarrow>
     (block_info \<times> dictionary) res"
where
  "api_generate rsv recv api dict block is_last =
     (case bi_source block of
        None \<Rightarrow> Inl ASSERT
      | Some r \<Rightarrow>
          bindR (deref_block recv api r) (\<lambda>src.
          bindR (assertR (bi_owner src = API_EXTENSION_BLOCK)) (\<lambda>_.
          bindR (assertR (bi_contents src \<noteq> [])) (\<lambda>_.
          bindR (assertR (bi_data_offset src \<noteq> 0)) (\<lambda>_.
          bindR (bi_flags src) (\<lambda>sf.
          bindR (bi_type src) (\<lambda>t.
          bindR (generate_preamble dict block (of_nat t) (ucast (copied_flags sf is_last))
                   (ucast (bi_data_length src))) (\<lambda>(block, dict).
          bindR (assertR (bi_data_offset block = bi_data_offset src)) (\<lambda>_.
          bindR (assertR (bi_data_length block = bi_data_length src)) (\<lambda>_.
            let block = bi_reserve rsv (unat (bi_full_length block)) block
            in if length (bi_data src) = unat (bi_data_length src)
               then Inr (block\<lparr>bi_contents := bi_contents block @ bi_data src\<rparr>, dict)
               else Inl OOB))))))))))"

subsection \<open>Lemmas: receiving the payload\<close>

text \<open>
  The payload block and the payload after the bytes \<open>bs\<close> of \<open>pre @ data\<close> have arrived: the block
  keeps only the preamble, the data goes to the payload.
\<close>

definition rx_payload :: "bytes \<Rightarrow> bytes \<Rightarrow> bytes \<Rightarrow> payload \<Rightarrow> block_info \<Rightarrow> bool" where
  "rx_payload pre data bs p blk \<longleftrightarrow>
     pl_whole p \<and>
     (if length bs < length pre
      then rx_block PAYLOAD_BLOCK pre [] data bs blk \<and> pl_length p = 0
      else bi_owner blk = PAYLOAD_BLOCK \<and> bi_contents blk = pre \<and> bi_data_offset blk = of_nat (length pre) \<and>
        bi_data_length blk = of_nat (length data) \<and> pl_bytes p = drop (length pre) bs \<and>
        (bi_complete blk \<longleftrightarrow> length bs = length pre + length data))"

lemma append_eq_take: "pre @ x = take (length (pre @ x)) (pre @ y) \<Longrightarrow> x = take (length x) y"
  by simp

lemma payload_consume_data_step:
  assumes lim: "length pre + length data < 2 ^ 32" and pre: "pre \<noteq> []"
    and blk: "bi_contents blk = pre" "bi_data_offset blk = of_nat (length pre)" "bi_data_length blk = of_nat (length data)"
      "bi_owner blk = PAYLOAD_BLOCK" "\<not> bi_complete blk"
    and p: "pl_whole (b_payload b)" "pl_bytes (b_payload b) = take k data" "k \<le> length data" "k < length data \<or> data = []"
    and c: "c = take (length c) (drop k data @ rest)"
  shows "\<exists>p' blk'. payload_consume_data io b blk c cc =
      Inr (cc + int (min (length c) (length data - k)), b\<lparr>b_payload := p'\<rparr>, blk') \<and>
    rx_payload pre data (pre @ take (k + length c) data) p' blk'"
proof -
  have loc: "pl_location (b_payload b) \<noteq> NODATA" using p(1) by (auto simp: pl_whole_def pl_synced_def)
  have off: "bi_data_offset blk \<noteq> 0" using blk(2) lim pre by (simp add: of_nat_u32_eq_0)
  have plen: "pl_length (b_payload b) = k" using pl_whole_length [OF p(1)] p(2,3) by simp
  have ud: "unat (bi_data_length blk) = length data" "unat (bi_data_offset blk) = length pre"
    using blk lim by (simp_all add: unat_of_nat_u32)
  show ?thesis
  proof (cases "data = []")
    case True
    with off loc blk p lim show ?thesis
      by (intro exI [of _ "b_payload b"] exI [of _ "blk\<lparr>bi_complete := True\<rparr>"])
        (simp add: payload_consume_data_def rx_payload_def)
  next
    case data: False
    then have dl: "bi_data_length blk \<noteq> 0" using blk(3) lim by (simp add: of_nat_u32_eq_0)
    show ?thesis
    proof (cases "c = []")
      case True
      with off loc blk p dl data show ?thesis
        by (intro exI [of _ "b_payload b"] exI [of _ blk]) (auto simp: payload_consume_data_def rx_payload_def)
    next
      case False
      define t where "t = min (length c) (length data - k)"
      have tc: "take t c = take t (drop k data)"
      proof -
        have "take t c = take t (take (length c) (drop k data @ rest))" using c by simp
        also have "\<dots> = take t (drop k data)" by (simp add: t_def min_def)
        finally show ?thesis .
      qed
      have tt: "(if length data - k \<le> length c then length data - k else length c) = t" by (simp add: t_def min_def)
      have tl: "length (take t c) = t" by (simp add: t_def)
      from pl_extend_whole [OF p(1), where bs = "take t c" and io = io] obtain p' where
        p': "pl_write_data io (take t c) k (pl_set_length io (k + t) (b_payload b)) = Inr p'" "pl_whole p'"
          "pl_bytes p' = take k data @ take t c" using plen p(2) tl by auto
      have bytes: "pl_bytes p' = take (k + length c) data"
        using p'(3) tc p(3) by (simp add: t_def take_add min_def)
      let ?blk = "if length data - k \<le> length c then blk\<lparr>bi_complete := True\<rparr> else blk"
      have "payload_consume_data io b blk c cc = Inr (cc + int t, b\<lparr>b_payload := p'\<rparr>, ?blk)"
        using off loc dl False blk(1) ud plen p(4) data p'(1) by (simp add: payload_consume_data_def Let_def tt)
      moreover have "rx_payload pre data (pre @ take (k + length c) data) p' ?blk"
        using p'(2) bytes blk p(3,4) data by (auto simp: rx_payload_def min_def)
      ultimately show ?thesis by (auto simp: t_def)
    qed
  qed
qed

lemma payload_consume_step:
  assumes w: "wire_block (env_naming env) (bv_dict (b_recv_blocks b)) pre [] data"
    and rx: "rx_payload pre data bs (b_payload b) blk" and l: "length bs < length pre + length data"
    and c: "bs @ c = take (length bs + length c) (pre @ data @ rest)"
  shows "\<exists>p' blk'. payload_consume env b blk c =
      Inr (int (min (length c) (length pre + length data - length bs)), b\<lparr>b_payload := p'\<rparr>, blk') \<and>
    rx_payload pre data (take (length pre + length data) (bs @ c)) p' blk'"
proof -
  let ?L = "length pre + length data"
  have lim: "?L < 2 ^ 32" using w by (simp add: wire_block_def)
  have ne: "pre \<noteq> []" using wire_block_length [OF w] by auto
  have whole: "pl_whole (b_payload b)" using rx by (simp add: rx_payload_def)
  consider (partial) "length bs + length c < length pre" |
    (finish) "length bs < length pre" "length pre \<le> length bs + length c" |
    (body) "length pre \<le> length bs" by linarith
  then show ?thesis
  proof cases
    case partial
    then have lt: "length bs < length pre" by simp
    with rx have r: "rx_block PAYLOAD_BLOCK pre [] data bs blk" "pl_length (b_payload b) = 0"
      by (simp_all add: rx_payload_def)
    from consume_preamble_step(1) [OF w r(1) lt c partial, of "env_rsv env"] obtain f where
      f: "consume_preamble (env_rsv env) (env_naming env) (bv_dict (b_recv_blocks b)) blk c =
        Inr (int (length c), f, blk\<lparr>bi_contents := bs @ c\<rparr>)" by blast
    have o: "bi_data_offset blk = 0" using r(1) lt by (simp add: rx_block_def)
    show ?thesis
      using f o r partial whole
      by (intro exI [of _ "b_payload b"] exI [of _ "blk\<lparr>bi_contents := bs @ c\<rparr>"])
        (auto simp: payload_consume_def payload_consume_data_def rx_payload_def rx_block_def)
  next
    case finish
    then have r: "rx_block PAYLOAD_BLOCK pre [] data bs blk" "pl_length (b_payload b) = 0"
      using rx by (simp_all add: rx_payload_def)
    let ?b = "blk\<lparr>bi_contents := pre, bi_data_length := of_nat (length data),
          bi_data_offset := of_nat (length pre), bi_eid_list := []\<rparr>"
    let ?cc = "int (length pre) - int (length bs)"
    define e where "e = drop (length pre - length bs) c"
    have el: "length e = length bs + length c - length pre" using finish by (simp add: e_def)
    from consume_preamble_step(2) [OF w r(1) finish(1) c finish(2), of "env_rsv env"] obtain f where
      f: "consume_preamble (env_rsv env) (env_naming env) (bv_dict (b_recv_blocks b)) blk c = Inr (?cc, f, ?b)" by blast
    have o: "bi_data_offset blk = 0" "\<not> bi_complete blk" "bi_owner blk = PAYLOAD_BLOCK"
      using r(1) finish by (simp_all add: rx_block_def)
    have pre: "take (length pre) (bs @ c) = pre" using c finish by (simp add: min_def)
    have bc: "bs @ c = pre @ e"
      using pre finish append_take_drop_id [of "length pre" "bs @ c"] by (simp add: e_def)
    have cdata: "e = take (length e) (drop 0 data @ rest)"
    proof -
      have "pre @ e = take (length (pre @ e)) (pre @ data @ rest)" using c bc by (metis length_append)
      then have "e = take (length e) (data @ rest)" by (rule append_eq_take)
      then show ?thesis unfolding drop_0 .
    qed
    have b0: "pl_bytes (b_payload b) = take 0 data" using r(2) by (simp add: pl_bytes_def)
    have pc: "payload_consume env b blk c = payload_consume_data (env_io env) b ?b e ?cc"
      using f o r(2) finish by (simp add: payload_consume_def nat_diff_distrib e_def)
    have bb: "bi_contents ?b = pre" "bi_data_offset ?b = of_nat (length pre)" "bi_data_length ?b = of_nat (length data)"
      "bi_owner ?b = PAYLOAD_BLOCK" "\<not> bi_complete ?b" using o by simp_all
    have z: "0 \<le> length data" "0 < length data \<or> data = []" by simp_all
    from payload_consume_data_step [OF lim ne bb whole b0 z cdata, of "env_io env" ?cc]
    obtain p' blk' where s: "payload_consume env b blk c =
        Inr (?cc + int (min (length e) (length data)), b\<lparr>b_payload := p'\<rparr>, blk')"
      "rx_payload pre data (pre @ take (length e) data) p' blk'" unfolding pc by auto
    have "take ?L (bs @ c) = pre @ take (length e) data"
    proof -
      have "take ?L (bs @ c) = pre @ take (length data) e" unfolding bc by simp
      also have "take (length data) e = take (length e) data"
        using arg_cong [OF cdata, of "take (length data)"] by (simp add: min_def)
      finally show ?thesis .
    qed
    moreover have "?cc + int (min (length e) (length data)) = int (min (length c) (?L - length bs))"
      using finish el by auto
    ultimately show ?thesis using s by metis
  next
    case body
    with rx l have r: "bi_owner blk = PAYLOAD_BLOCK" "bi_contents blk = pre" "bi_data_offset blk = of_nat (length pre)"
        "bi_data_length blk = of_nat (length data)" "pl_bytes (b_payload b) = drop (length pre) bs" "\<not> bi_complete blk"
      by (auto simp: rx_payload_def)
    define k where "k = length bs - length pre"
    have bs: "bs = pre @ take k data"
    proof -
      have "bs = take (length bs) (bs @ c)" by simp
      also have "\<dots> = take (length bs) (pre @ data @ rest)"
        unfolding c take_take by (simp only: min.absorb1 le_add1)
      finally show ?thesis using body l by (simp add: k_def)
    qed
    have k: "k < length data" "k \<le> length data" using l body by (simp_all add: k_def)
    have cdata: "c = take (length c) (drop k data @ rest)"
    proof -
      have "c = drop (length bs) (bs @ c)" by simp
      also have "\<dots> = drop (length bs) (take (length bs + length c) (pre @ data @ rest))" using c by simp
      also have "\<dots> = take (length c) (drop k data @ rest)" using body l by (simp add: drop_take k_def add.commute)
      finally show ?thesis .
    qed
    have off: "bi_data_offset blk \<noteq> 0" using r(3) lim ne by (simp add: of_nat_u32_eq_0)
    have "pl_bytes (b_payload b) = take k data" using r(5) bs by simp
    from payload_consume_data_step [OF lim ne r(2,3,4,1,6) whole this k(2) disjI1 [OF k(1)] cdata, of "env_io env" 0]
    obtain p' blk' where "payload_consume env b blk c =
        Inr (int (min (length c) (length data - k)), b\<lparr>b_payload := p'\<rparr>, blk')"
      "rx_payload pre data (pre @ take (k + length c) data) p' blk'" using off by (auto simp: payload_consume_def)
    moreover have "take ?L (bs @ c) = pre @ take (k + length c) data"
    proof -
      have "take ?L (bs @ c) = take (min ?L (length bs + length c)) (pre @ data @ rest)" unfolding c take_take ..
      also have "\<dots> = pre @ take (k + length c) data" using body by (simp add: k_def min_def)
      finally show ?thesis .
    qed
    ultimately show ?thesis using body by (auto simp: k_def)
  qed
qed

subsection \<open>Lemmas: sequence identifiers\<close>

definition seq_entry_ok :: "seq_entry \<Rightarrow> bool" where
  "seq_entry_ok x \<longleftrightarrow>
     se_type x = COUNTER \<and> se_identifier x = [] \<or>
     se_type x = IDENTIFIER \<and> se_counter x = 0 \<and> length (se_identifier x) < 2 ^ 63"

definition seq_entry_bytes :: "seq_entry \<Rightarrow> bytes" where
  "seq_entry_bytes x =
     (if se_type x = COUNTER then 1 # sdnv_bytes (se_counter x)
      else 2 # sdnv_bytes (of_nat (length (se_identifier x))) @ se_identifier x)"

lemma seqid_length_bytes:
  "list_all seq_entry_ok v \<Longrightarrow> seqid_length v = Inr (length (concat (map seq_entry_bytes v)))"
  by (induction v) (auto simp: seq_entry_ok_def seq_entry_bytes_def)

lemma seqid_write_bytes:
  "list_all seq_entry_ok v \<Longrightarrow>
     seqid_write v (length (concat (map seq_entry_bytes v))) = Inr (concat (map seq_entry_bytes v))"
  by (induction v) (auto simp: seq_entry_ok_def seq_entry_bytes_def sdnv_encode_eq Let_def)

lemma seqid_read_bytes:
  "list_all seq_entry_ok v \<Longrightarrow> seqid_read (map se_eid v) (concat (map seq_entry_bytes v)) w = Inr (True, w @ v)"
proof (induction v arbitrary: w)
  case (Cons x v)
  then have ih: "\<And>w. seqid_read (map se_eid v) (concat (map seq_entry_bytes v)) w = Inr (True, w @ v)"
    and x: "seq_entry_ok x" by simp_all
  from x show ?case unfolding seq_entry_ok_def
  proof (elim disjE conjE)
    assume t: "se_type x = COUNTER" "se_identifier x = []"
    then have "counter_entry (se_eid x) (se_counter x) = x" by (simp add: counter_entry_def)
    moreover have "seq_entry_bytes x = 1 # sdnv_bytes (se_counter x)" using t by (simp add: seq_entry_bytes_def)
    ultimately show ?thesis using t ih by (simp add: seq_add_counter_def)
  next
    assume t: "se_type x = IDENTIFIER" "se_counter x = 0" "length (se_identifier x) < 2 ^ 63"
    then have "identifier_entry (se_eid x) (se_identifier x) = x" by (simp add: identifier_entry_def)
    moreover have "unat (of_nat (length (se_identifier x)) :: u64) = length (se_identifier x)"
      using t(3) by (simp add: unat_of_nat)
    moreover have "seq_entry_bytes x = 2 # sdnv_bytes (of_nat (length (se_identifier x))) @ se_identifier x"
      using t by (simp add: seq_entry_bytes_def)
    ultimately show ?thesis using t ih by (simp add: seq_add_identifier_def)
  qed
qed simp

subsection \<open>Properties\<close>

text \<open>
  A sequence vector survives its block. For a vector of well-formed entries the length computed
  beforehand is the length written, no assertion of the writing loop fails, and the reading loop,
  given the endpoints of the block and these bytes, appends exactly the same entries.
\<close>

theorem seqid_data_roundtrip:
  assumes "list_all seq_entry_ok v"
  shows "\<exists>data. seqid_length v = Inr (length data) \<and> seqid_write v (length data) = Inr data \<and>
    seqid_read (map se_eid v) data w = Inr (True, w @ v)"
  using seqid_length_bytes [OF assms] seqid_write_bytes [OF assms] seqid_read_bytes [OF assms] by blast

theorem seqid_data_roundtrip_witness:
  "\<exists>data. seqid_write [counter_entry eid_default 300, identifier_entry eid_default [7]] (length data) = Inr data \<and>
    seqid_read [eid_default, eid_default] data [] =
      Inr (True, [counter_entry eid_default 300, identifier_entry eid_default [7]])"
proof -
  let ?v = "[counter_entry eid_default 300, identifier_entry eid_default [7]]"
  have "list_all seq_entry_ok ?v" by (simp add: seq_entry_ok_def counter_entry_def identifier_entry_def)
  moreover have "map se_eid ?v = [eid_default, eid_default]" by (simp add: counter_entry_def identifier_entry_def)
  ultimately show ?thesis using seqid_data_roundtrip [of ?v "[]"] by auto
qed

text \<open>
  A block that lists more endpoints than it has data makes the reading loop run off the end of
  the block.
\<close>

lemma seqid_read_overrun: "seqid_parse t b (block\<lparr>bi_eid_list := [e], bi_data_length := 0\<rparr>) = Inl OOB"
  by (simp add: seqid_parse_def bi_data_def)

lemma session_parse_overrun: "session_parse b (block\<lparr>bi_eid_list := [e], bi_data_length := 0\<rparr>) = Inl OOB"
  by (simp add: session_parse_def bi_data_def)

end
