(* ===== verification/BundleProtocol.thy ===== *)
theory BundleProtocol
  imports ExtBlocks
begin

text \<open>
  The bundle protocol as the composition of the block processors:
  \<open>servlib/bundling/BundleProtocol.cc\<close>. A processor is a record of its methods; the registered
  processors are a table from type codes. The block a method works on is an element of a list of
  the bundle; the methods here take it and return it, and the caller stores it back.

  The processor of metadata blocks keeps objects of its own and is an argument (\<open>md\<close>), as is the
  final step that appends generated metadata (\<open>md_gen\<close>). The security processors are compiled only
  with \<open>BSP_ENABLED\<close> and the query processor only with \<open>BPQ_ENABLED\<close>; the model is the program
  without them.
\<close>

record bproc =
  bp_consume :: "dtn_bundle \<Rightarrow> block_info \<Rightarrow> bytes \<Rightarrow> (int \<times> dtn_bundle \<times> block_info) res"
  bp_validate :: "dtn_bundle \<Rightarrow> block_info \<Rightarrow> reasons \<Rightarrow> (bool \<times> reasons) res"
  bp_prepare :: "dtn_bundle \<Rightarrow> block_vec \<Rightarrow> block_ref option \<Rightarrow> list_owner \<Rightarrow> (bool \<times> block_vec) res"
  bp_generate :: "dtn_bundle \<Rightarrow> dictionary \<Rightarrow> block_info \<Rightarrow> bool \<Rightarrow> (bool \<times> block_info \<times> dictionary) res"
  bp_finalize :: "dtn_bundle \<Rightarrow> block_info \<Rightarrow> bool res"
  bp_produce :: "dtn_bundle \<Rightarrow> block_info \<Rightarrow> bytes \<Rightarrow> nat \<Rightarrow> (bytes \<times> dtn_bundle) res"

type_synonym registry = "nat \<Rightarrow> bproc option"

subsection \<open>The processors\<close>

definition bp_success :: "(block_info \<times> dictionary) res \<Rightarrow> (bool \<times> block_info \<times> dictionary) res" where
  "bp_success r = bindR r (\<lambda>(block, dict). Inr (True, block, dict))"

definition base_finalize :: "dtn_bundle \<Rightarrow> block_info \<Rightarrow> bool res" where
  "base_finalize b block = bindR (block_finalize (b_is_admin b) block) (\<lambda>_. Inr True)"

definition base_produce :: "dtn_bundle \<Rightarrow> block_info \<Rightarrow> bytes \<Rightarrow> nat \<Rightarrow> (bytes \<times> dtn_bundle) res" where
  "base_produce b block buf offset = bindR (block_produce block offset (length buf)) (\<lambda>bs. Inr (bs, b))"

definition base_consume :: "bp_env \<Rightarrow> dtn_bundle \<Rightarrow> block_info \<Rightarrow> bytes \<Rightarrow> (int \<times> dtn_bundle \<times> block_info) res" where
  "base_consume env b block buf =
     bindR (block_consume (env_rsv env) (env_naming env) (bv_dict (b_recv_blocks b)) block buf) (\<lambda>(cc, block).
       Inr (cc, b, block))"

definition primary_processor :: "bp_env \<Rightarrow> bproc" where
  "primary_processor env = \<lparr>
     bp_consume = primary_consume (env_rsv env) (env_naming env),
     bp_validate = (\<lambda>b block rs.
       let ok = primary_validate (env_naming env) b
       in Inr (ok, if ok then rs else rs\<lparr>deletion_reason := REASON_BLOCK_UNINTELLIGIBLE\<rparr>)),
     bp_prepare = (\<lambda>b xmit source lst. bindR (primary_prepare b source xmit) (\<lambda>x. Inr (True, x))),
     bp_generate = (\<lambda>b dict block is_last. bindR (primary_generate is_last) (\<lambda>_. Inr (True, block, dict))),
     bp_finalize = base_finalize,
     bp_produce = base_produce\<rparr>"

definition payload_processor :: "bp_env \<Rightarrow> bproc" where
  "payload_processor env = \<lparr>
     bp_consume = payload_consume env,
     bp_validate = payload_validate,
     bp_prepare = (\<lambda>b xmit source lst. bindR (block_prepare PAYLOAD_BLOCK source lst xmit) (\<lambda>x. Inr (True, x))),
     bp_generate = (\<lambda>b dict block is_last. bp_success (payload_generate b dict block is_last)),
     bp_finalize = base_finalize,
     bp_produce = payload_produce (env_io env)\<rparr>"

text \<open>The remaining processors inherit \<open>finalize\<close> and \<open>produce\<close>, and all but one \<open>validate\<close>.\<close>

definition ext_processor ::
  "(dtn_bundle \<Rightarrow> block_info \<Rightarrow> bytes \<Rightarrow> (int \<times> dtn_bundle \<times> block_info) res) \<Rightarrow>
   (dtn_bundle \<Rightarrow> block_vec \<Rightarrow> block_ref option \<Rightarrow> list_owner \<Rightarrow> (bool \<times> block_vec) res) \<Rightarrow>
   (dtn_bundle \<Rightarrow> dictionary \<Rightarrow> block_info \<Rightarrow> bool \<Rightarrow> (block_info \<times> dictionary) res) \<Rightarrow> bproc"
where
  "ext_processor cons prep gen = \<lparr>
     bp_consume = cons, bp_validate = base_validate, bp_prepare = prep,
     bp_generate = (\<lambda>b dict block is_last. bp_success (gen b dict block is_last)),
     bp_finalize = base_finalize, bp_produce = base_produce\<rparr>"

definition prevhop_processor :: "bp_env \<Rightarrow> bproc" where
  "prevhop_processor env =
     ext_processor (prevhop_consume env) (\<lambda>b. prevhop_prepare env) (\<lambda>b. prevhop_generate env)"

definition session_processor :: "bp_env \<Rightarrow> bproc" where
  "session_processor env =
     ext_processor (session_consume env) (session_prepare (env_naming env)) (session_generate env)"

definition age_processor :: "bp_env \<Rightarrow> bproc" where
  "age_processor env = ext_processor (age_consume env) (age_prepare env) (age_generate env)"

definition seqid_processor :: "nat \<Rightarrow> bp_env \<Rightarrow> bproc" where
  "seqid_processor t env =
     ext_processor (seqid_consume t env) (seqid_prepare t) (seqid_generate t (env_rsv env))"

definition unknown_processor :: "bp_env \<Rightarrow> bproc" where
  "unknown_processor env =
     (ext_processor
        (base_consume env)
        (\<lambda>b. unknown_prepare (bv_blocks (b_recv_blocks b)) (bv_blocks (b_api_blocks b)))
        (\<lambda>b. unknown_generate (env_rsv env) (bv_blocks (b_recv_blocks b)) (bv_blocks (b_api_blocks b))))
     \<lparr>bp_validate := unknown_validate\<rparr>"

subsection \<open>The table\<close>

definition register_processor :: "nat \<Rightarrow> bproc \<Rightarrow> registry \<Rightarrow> registry res" where
  "register_processor t bp procs = bindR (assertR (procs t = None)) (\<lambda>_. Inr (procs(t \<mapsto> bp)))"

text \<open>
  \<open>find_processor\<close> returns the processor as the type code it was created with, which is what a
  block records as its owner; \<open>processor\<close> is the object for that code.
\<close>

definition find_processor :: "bp_env \<Rightarrow> registry \<Rightarrow> byte \<Rightarrow> nat" where
  "find_processor env procs t =
     (let ret = procs (unat t)
      in if unat t = 10 \<and> \<not> env_age_inbound_processing env then UNKNOWN_BLOCK
         else if ret = None then UNKNOWN_BLOCK
         else unat t)"

definition processor :: "bp_env \<Rightarrow> registry \<Rightarrow> nat \<Rightarrow> bproc" where
  "processor env procs owner = (case procs owner of Some bp \<Rightarrow> bp | None \<Rightarrow> unknown_processor env)"

fun register_all :: "(nat \<times> bproc) list \<Rightarrow> registry \<Rightarrow> registry res" where
  "register_all [] procs = Inr procs"
| "register_all ((t, bp) # bps) procs = bindR (register_processor t bp procs) (register_all bps)"

definition init_default_processors :: "bp_env \<Rightarrow> bproc \<Rightarrow> registry res" where
  "init_default_processors env md =
     register_all
       [(PRIMARY_BLOCK, primary_processor env), (PAYLOAD_BLOCK, payload_processor env),
        (PREVIOUS_HOP_BLOCK, prevhop_processor env), (METADATA_BLOCK, md),
        (SESSION_BLOCK, session_processor env),
        (SEQUENCE_ID_BLOCK, seqid_processor SEQUENCE_ID_BLOCK env),
        (OBSOLETES_ID_BLOCK, seqid_processor OBSOLETES_ID_BLOCK env),
        (AGE_BLOCK, age_processor env)] (\<lambda>_. None)"

subsection \<open>Consuming a bundle\<close>

definition recv_append :: "nat \<Rightarrow> dtn_bundle \<Rightarrow> dtn_bundle" where
  "recv_append owner b = b\<lparr>b_recv_blocks := bv_append_block owner None (b_recv_blocks b)\<rparr>"

definition recv_store :: "block_info list \<Rightarrow> block_info \<Rightarrow> dtn_bundle \<Rightarrow> dtn_bundle" where
  "recv_store front info b = b\<lparr>b_recv_blocks := (b_recv_blocks b)\<lparr>bv_blocks := front @ [info]\<rparr>\<rparr>"

text \<open>
  The loop; its first argument bounds the number of turns (\<open>None\<close>: bound reached). The result is
  the number of bytes consumed or -1, \<open>*last\<close>, and the bundle.
\<close>

fun consume_loop ::
  "nat \<Rightarrow> bp_env \<Rightarrow> registry \<Rightarrow> dtn_bundle \<Rightarrow> bytes \<Rightarrow> int \<Rightarrow> (int \<times> bool \<times> dtn_bundle) option res"
where
  "consume_loop n env procs b [] consumed = Inr (Some (consumed, False, b))"
| "consume_loop 0 env procs b (d # ds) consumed = Inr None"
| "consume_loop (Suc n) env procs b (d # ds) consumed =
     (let blocks = bv_blocks (b_recv_blocks b);
          b = (if bi_complete (last blocks) then recv_append (find_processor env procs d) b else b);
          blocks = bv_blocks (b_recv_blocks b);
          info = last blocks
      in
      bindR (bp_consume (processor env procs (bi_owner info)) b info (d # ds)) (\<lambda>(cc, b, info).
        let b = recv_store (butlast blocks) info b
        in if cc < 0 then Inr (Some (- 1, False, b))
           else
             let data = drop (nat cc) (d # ds)
             in if bi_complete info
                then bindR (bi_flags info) (\<lambda>f.
                       if f AND BLOCK_FLAG_LAST_BLOCK \<noteq> 0 then Inr (Some (consumed + cc, True, b))
                       else consume_loop n env procs b data (consumed + cc))
                else bindR (assertR (data = [])) (\<lambda>_. consume_loop n env procs b data (consumed + cc))))"

definition bundle_consume ::
  "nat \<Rightarrow> bp_env \<Rightarrow> registry \<Rightarrow> dtn_bundle \<Rightarrow> bytes \<Rightarrow> (int \<times> bool \<times> dtn_bundle) option res"
where
  "bundle_consume n env procs b data =
     (let b = (if bv_blocks (b_recv_blocks b) = [] then recv_append (find_processor env procs (of_nat PRIMARY_BLOCK)) b
               else b)
      in consume_loop n env procs b data 0)"

subsection \<open>Validating a received bundle\<close>

definition validate_block ::
  "bp_env \<Rightarrow> registry \<Rightarrow> dtn_bundle \<Rightarrow> block_info \<Rightarrow> bool \<Rightarrow> reasons \<Rightarrow> (bool \<times> reasons) res"
where
  "validate_block env procs b x is_last rs =
     bindR (bp_validate (processor env procs (bi_owner x)) b x rs) (\<lambda>(ok, rs).
       if \<not> ok then Inr (False, rs)
       else
         bindR (bi_last_block x) (\<lambda>l.
           if (if is_last then \<not> l \<and> \<not> b_fragmented_incoming b else l)
           then Inr (False, rs\<lparr>deletion_reason := REASON_BLOCK_UNINTELLIGIBLE\<rparr>)
           else Inr (True, rs)))"

text \<open>
  The loop over the blocks, with the blocks already passed and the number of primary and payload
  blocks among them. A last block without a complete preamble is dropped, and the block before it
  is checked again, now as the last one. The result is the verdict, the reasons, the remaining
  blocks and the two numbers.
\<close>

fun validate_loop ::
  "bp_env \<Rightarrow> registry \<Rightarrow> dtn_bundle \<Rightarrow> block_info list \<Rightarrow> block_info list \<Rightarrow> nat \<Rightarrow> nat \<Rightarrow> reasons \<Rightarrow>
     (bool \<times> reasons \<times> block_info list \<times> nat \<times> nat) res"
where
  "validate_loop env procs b passed [] prim pay rs = Inr (True, rs, passed, prim, pay)"
| "validate_loop env procs b passed (x # xs) prim pay rs =
     (let bad = rs\<lparr>deletion_reason := REASON_BLOCK_UNINTELLIGIBLE\<rparr>
      in
      if bi_data_offset x = 0
      then
        (if xs \<noteq> [] then Inr (False, bad, passed @ x # xs, prim, pay)
         else if length passed < 2 then Inr (False, bad, passed, prim, pay)
         else bindR (validate_block env procs b (last passed) True rs) (\<lambda>(ok, rs). Inr (ok, rs, passed, prim, pay)))
      else
        bindR (bi_type x) (\<lambda>t.
          let prim = (if t = PRIMARY_BLOCK then Suc prim else prim);
              pay = (if t = PAYLOAD_BLOCK then Suc pay else pay)
          in
          bindR (validate_block env procs b x (xs = []) rs) (\<lambda>(ok, rs).
            if \<not> ok then Inr (False, rs, passed @ x # xs, prim, pay)
            else validate_loop env procs b (passed @ [x]) xs prim pay rs)))"

definition bundle_validate :: "bp_env \<Rightarrow> registry \<Rightarrow> dtn_bundle \<Rightarrow> reasons \<Rightarrow> (bool \<times> reasons \<times> dtn_bundle) res" where
  "bundle_validate env procs b rs =
     (let bad = rs\<lparr>deletion_reason := REASON_BLOCK_UNINTELLIGIBLE\<rparr>
      in case bv_blocks (b_recv_blocks b) of
        [] \<Rightarrow> Inr (False, bad, b)
      | [_] \<Rightarrow> Inr (False, bad, b)
      | x # xs \<Rightarrow>
          bindR (bi_type x) (\<lambda>t.
            if t \<noteq> PRIMARY_BLOCK then Inr (False, bad, b)
            else
              bindR (validate_loop env procs b [] (x # xs) 0 0 rs) (\<lambda>(ok, rs, blocks, prim, pay).
                let b = b\<lparr>b_recv_blocks := (b_recv_blocks b)\<lparr>bv_blocks := blocks\<rparr>\<rparr>
                in if \<not> ok then Inr (False, rs, b)
                   else if prim \<noteq> 1 then Inr (False, rs\<lparr>deletion_reason := REASON_BLOCK_UNINTELLIGIBLE\<rparr>, b)
                   else if pay > 1 then Inr (False, rs\<lparr>deletion_reason := REASON_BLOCK_UNINTELLIGIBLE\<rparr>, b)
                   else Inr (True, rs, b))))"

subsection \<open>Preparing and generating the blocks for a link\<close>

text \<open>
  A \<open>None\<close> inside the result is the jump to \<open>fail\<close>, after which the block list of the link is
  deleted and the function returns \<open>NULL\<close> (or 0).
\<close>

fun prepare_received ::
  "bp_env \<Rightarrow> registry \<Rightarrow> dtn_bundle \<Rightarrow> (nat \<Rightarrow> block_ref) \<Rightarrow> list_owner \<Rightarrow> nat \<Rightarrow> block_info list \<Rightarrow> block_vec \<Rightarrow>
     block_vec option res"
where
  "prepare_received env procs b ref lst i [] xmit = Inr (Some xmit)"
| "prepare_received env procs b ref lst i (x # xs) xmit =
     bindR (if lst = LIST_RECEIVED \<and> b_fragmented_incoming b
            then bindR (bv_find_block (of_nat PAYLOAD_BLOCK) xmit) (\<lambda>r. Inr (r \<noteq> None))
            else Inr False) (\<lambda>skip.
       if skip then prepare_received env procs b ref lst (Suc i) xs xmit
       else
         bindR (bp_prepare (processor env procs (bi_owner x)) b xmit (Some (ref i)) lst) (\<lambda>(ok, xmit).
           if \<not> ok then Inr None else prepare_received env procs b ref lst (Suc i) xs xmit))"

fun prepare_registered :: "bp_env \<Rightarrow> registry \<Rightarrow> dtn_bundle \<Rightarrow> nat list \<Rightarrow> block_vec \<Rightarrow> block_vec res" where
  "prepare_registered env procs b [] xmit = Inr xmit"
| "prepare_registered env procs b (i # is) xmit =
     (let bp = find_processor env procs (of_nat i)
      in if bp = UNKNOWN_BLOCK then prepare_registered env procs b is xmit
         else
           bindR (bv_find_block (of_nat i) xmit) (\<lambda>r.
             if r \<noteq> None then prepare_registered env procs b is xmit
             else bindR (bp_prepare (processor env procs bp) b xmit None LIST_NONE) (\<lambda>(_, xmit).
               prepare_registered env procs b is xmit)))"

definition prepare_primary_payload :: "bp_env \<Rightarrow> registry \<Rightarrow> dtn_bundle \<Rightarrow> block_vec \<Rightarrow> block_vec option res" where
  "prepare_primary_payload env procs b xmit =
     bindR (bp_prepare (processor env procs (find_processor env procs (of_nat PRIMARY_BLOCK))) b xmit None LIST_NONE)
       (\<lambda>(ok, xmit).
         if \<not> ok then Inr None
         else
           bindR (bp_prepare (processor env procs (find_processor env procs (of_nat PAYLOAD_BLOCK))) b xmit None LIST_NONE)
             (\<lambda>(ok, xmit). Inr (if ok then Some xmit else None)))"

definition prepare_blocks ::
  "bp_env \<Rightarrow> registry \<Rightarrow> (dtn_bundle \<Rightarrow> block_vec \<Rightarrow> block_vec) \<Rightarrow> dtn_bundle \<Rightarrow> block_vec option res"
where
  "prepare_blocks env procs md_gen b =
     bindR (case bv_blocks (b_recv_blocks b) of
              [] \<Rightarrow> prepare_primary_payload env procs b block_vec_new
            | x # xs \<Rightarrow>
                bindR (bi_type x) (\<lambda>t.
                bindR (assertR (t = PRIMARY_BLOCK)) (\<lambda>_.
                  prepare_received env procs b RecvBlock LIST_RECEIVED 0 (x # xs) block_vec_new))) (\<lambda>r.
       case r of
         None \<Rightarrow> Inr None
       | Some xmit \<Rightarrow>
           bindR (prepare_received env procs b ApiBlock LIST_API 0 (bv_blocks (b_api_blocks b)) xmit) (\<lambda>r.
             case r of
               None \<Rightarrow> Inr None
             | Some xmit \<Rightarrow>
                 bindR (bv_find_block (of_nat AGE_BLOCK) (b_api_blocks b)) (\<lambda>_.
                 bindR (prepare_registered env procs b [0 ..< 256] xmit) (\<lambda>xmit.
                 bindR (assertR (find_processor env procs (of_nat METADATA_BLOCK) = METADATA_BLOCK)) (\<lambda>_.
                   Inr (Some (md_gen b xmit)))))))"

fun generate_loop ::
  "bp_env \<Rightarrow> registry \<Rightarrow> dtn_bundle \<Rightarrow> dictionary \<Rightarrow> block_info list \<Rightarrow> (block_info list \<times> dictionary) option res"
where
  "generate_loop env procs b dict [] = Inr (Some ([], dict))"
| "generate_loop env procs b dict (x # xs) =
     bindR (bp_generate (processor env procs (bi_owner x)) b dict x (xs = [])) (\<lambda>(ok, x, dict).
       if \<not> ok then Inr None
       else
         bindR (bi_flags x) (\<lambda>f.
         bindR (assertR ((f AND BLOCK_FLAG_LAST_BLOCK \<noteq> 0) = (xs = []))) (\<lambda>_.
         bindR (generate_loop env procs b dict xs) (\<lambda>r.
           Inr (map_option (\<lambda>(ys, dict). (x # ys, dict)) r)))))"

fun finalize_loop :: "bp_env \<Rightarrow> registry \<Rightarrow> dtn_bundle \<Rightarrow> block_info list \<Rightarrow> bool res" where
  "finalize_loop env procs b [] = Inr True"
| "finalize_loop env procs b (x # xs) =
     bindR (bp_finalize (processor env procs (bi_owner x)) b x) (\<lambda>ok.
       if ok then finalize_loop env procs b xs else Inr False)"

definition generate_blocks ::
  "bp_env \<Rightarrow> registry \<Rightarrow> dtn_bundle \<Rightarrow> block_vec \<Rightarrow> (nat \<times> block_vec) option res"
where
  "generate_blocks env procs b xmit =
     bindR (assertR (2 \<le> length (bv_blocks xmit))) (\<lambda>_.
     bindR (bi_type (hd (bv_blocks xmit))) (\<lambda>t.
     bindR (assertR (t = PRIMARY_BLOCK)) (\<lambda>_.
     bindR (generate_loop env procs b (bv_dict xmit) (bv_blocks xmit)) (\<lambda>r.
       case r of
         None \<Rightarrow> Inr None
       | Some (blocks, dict) \<Rightarrow>
           bindR (assertR (bi_owner (hd blocks) = find_processor env procs (of_nat PRIMARY_BLOCK))) (\<lambda>_.
           bindR (generate_primary (env_rsv env) dict b (hd blocks)) (\<lambda>primary.
             let xmit = xmit\<lparr>bv_blocks := primary # tl blocks, bv_dict := dict\<rparr>
             in bindR (finalize_loop env procs b (rev (bv_blocks xmit))) (\<lambda>ok.
                  Inr (if ok then Some (total_length (bv_blocks xmit), xmit) else None)))))))) "

subsection \<open>Producing the bytes of a bundle\<close>

fun skip_blocks :: "block_info list \<Rightarrow> nat \<Rightarrow> (block_info list \<times> nat) res" where
  "skip_blocks [] offset = Inl ASSERT"
| "skip_blocks (x # xs) offset =
     (if offset \<ge> unat (bi_full_length x) then skip_blocks xs (offset - unat (bi_full_length x))
      else Inr (x # xs, offset))"

text \<open>
  The loop writes over the caller's buffer \<open>data\<close>; the result is what was written, \<open>*last\<close>, and
  the bundle, whose payload file may have moved.
\<close>

fun produce_loop ::
  "bp_env \<Rightarrow> registry \<Rightarrow> dtn_bundle \<Rightarrow> block_info list \<Rightarrow> bytes \<Rightarrow> nat \<Rightarrow> (bytes \<times> bool \<times> dtn_bundle) res"
where
  "produce_loop env procs b [] data offset = Inl ASSERT"
| "produce_loop env procs b (x # xs) data offset =
     (let remainder = unat (bi_full_length x) - offset;
          tocopy = min (length data) remainder
      in
      bindR (bp_produce (processor env procs (bi_owner x)) b x (take tocopy data) offset) (\<lambda>(out, b).
        let data = drop tocopy data
        in if data = []
           then
             bindR (if tocopy = remainder then bi_flags x else Inr 0) (\<lambda>f.
               if f AND BLOCK_FLAG_LAST_BLOCK \<noteq> 0
               then bindR (assertR (xs = [])) (\<lambda>_. Inr (out, True, b))
               else Inr (out, False, b))
           else
             bindR (assertR (tocopy = remainder)) (\<lambda>_.
             bindR (bi_flags x) (\<lambda>f.
               if f AND BLOCK_FLAG_LAST_BLOCK \<noteq> 0
               then bindR (assertR (xs = [])) (\<lambda>_. Inr (out, True, b))
               else bindR (produce_loop env procs b xs data 0) (\<lambda>(out', l, b). Inr (out @ out', l, b))))))"

definition bundle_produce ::
  "bp_env \<Rightarrow> registry \<Rightarrow> dtn_bundle \<Rightarrow> block_info list \<Rightarrow> bytes \<Rightarrow> nat \<Rightarrow> (bytes \<times> bool \<times> dtn_bundle) res"
where
  "bundle_produce env procs b blocks data offset =
     (if data = [] then Inr ([], False, b)
      else bindR (skip_blocks blocks offset) (\<lambda>(rest, offset). produce_loop env procs b rest data offset))"

subsection \<open>Other operations\<close>

text \<open>The type of an administrative record, from the first 16 bytes of the payload.\<close>

datatype admin_type = ADMIN_STATUS_REPORT | ADMIN_CUSTODY_SIGNAL | ADMIN_ANNOUNCE

definition get_admin_type :: "payload_io \<Rightarrow> dtn_bundle \<Rightarrow> (admin_type option \<times> dtn_bundle) res" where
  "get_admin_type io b =
     (if \<not> b_is_admin b then Inr (None, b)
      else
        bindR (pl_read_data io 0 (replicate 16 (io_junk io)) (b_payload b)) (\<lambda>(bp, p).
          let t = drop_bit 4 (hd bp)
          in Inr (if t = 1 then Some ADMIN_STATUS_REPORT
                  else if t = 2 then Some ADMIN_CUSTODY_SIGNAL
                  else if t = 5 then Some ADMIN_ANNOUNCE
                  else None, b\<lparr>b_payload := p\<rparr>)))"

subsection \<open>Lemmas: receiving a sequence of blocks\<close>

text \<open>
  What the receiving loop relies on for one block that is to arrive as the bytes \<open>wire\<close>: \<open>rx bs\<close>
  describes the bundle and the block after the prefix \<open>bs\<close>. A step takes what it needs of the
  piece it is given and no more; the description does not depend on the list of received blocks;
  the block is complete exactly at the end and its flags then say whether it is the last one.
\<close>

locale block_receiver =
  fixes cons :: "dtn_bundle \<Rightarrow> block_info \<Rightarrow> bytes \<Rightarrow> (int \<times> dtn_bundle \<times> block_info) res"
    and owner :: nat and wire :: bytes and is_last :: bool
    and rx :: "bytes \<Rightarrow> dtn_bundle \<Rightarrow> block_info \<Rightarrow> bool"
  assumes rx_step: "rx bs b blk \<Longrightarrow> length bs < length wire \<Longrightarrow> c \<noteq> [] \<Longrightarrow>
      bs @ c = take (length bs + length c) (wire @ rest) \<Longrightarrow>
      \<exists>b' blk'. cons b blk c = Inr (int (min (length c) (length wire - length bs)), b', blk') \<and>
        rx (take (length wire) (bs @ c)) b' blk'"
    and rx_owner: "rx bs b blk \<Longrightarrow> bi_owner blk = owner"
    and rx_complete: "rx bs b blk \<Longrightarrow> bi_complete blk \<longleftrightarrow> length bs = length wire"
    and rx_flags: "rx wire b blk \<Longrightarrow> \<exists>f. bi_flags blk = Inr f \<and> (f AND BLOCK_FLAG_LAST_BLOCK \<noteq> 0 \<longleftrightarrow> is_last)"
    and rx_length: "rx wire b blk \<Longrightarrow> unat (bi_full_length blk) = length wire"
    and rx_frame: "rx bs (b\<lparr>b_recv_blocks := (b_recv_blocks b)\<lparr>bv_blocks := xs\<rparr>\<rparr>) blk \<longleftrightarrow> rx bs b blk"
    and wire_nonempty: "wire \<noteq> []"
begin

lemma rx_store: "rx bs (recv_store front x b) blk \<longleftrightarrow> rx bs b blk"
  using rx_frame by (simp add: recv_store_def)

lemma rx_append: "rx bs (recv_append o1 b) blk \<longleftrightarrow> rx bs b blk"
  using rx_frame by (simp add: recv_append_def bv_append_block_def)

end

text \<open>
  A receiver is given by its owner, its bytes, whether it is the last, and its description. In a
  chain every receiver hands over to the next, whose type code selects its owner.
\<close>

record receiver =
  rc_owner :: nat
  rc_wire :: bytes
  rc_last :: bool
  rc_rx :: "bytes \<Rightarrow> dtn_bundle \<Rightarrow> block_info \<Rightarrow> bool"

definition receives :: "bp_env \<Rightarrow> registry \<Rightarrow> receiver \<Rightarrow> bool" where
  "receives env procs r \<longleftrightarrow>
     block_receiver (bp_consume (processor env procs (rc_owner r))) (rc_owner r) (rc_wire r) (rc_last r) (rc_rx r)"

definition hands_over :: "bp_env \<Rightarrow> registry \<Rightarrow> receiver \<Rightarrow> receiver \<Rightarrow> bool" where
  "hands_over env procs r r' \<longleftrightarrow>
     find_processor env procs (hd (rc_wire r')) = rc_owner r' \<and>
     (\<forall>b blk. rc_rx r (rc_wire r) b blk \<longrightarrow> rc_rx r' [] b (block_new (rc_owner r') None))"

fun chain :: "bp_env \<Rightarrow> registry \<Rightarrow> receiver list \<Rightarrow> bool" where
  "chain env procs [] = False"
| "chain env procs [r] = (receives env procs r \<and> rc_last r)"
| "chain env procs (r # r' # rs) =
     (receives env procs r \<and> \<not> rc_last r \<and> hands_over env procs r r' \<and> chain env procs (r' # rs))"

definition blocks_done :: "receiver list \<Rightarrow> block_info list \<Rightarrow> bool" where
  "blocks_done rs xs \<longleftrightarrow>
     list_all2 (\<lambda>r x. bi_owner x = rc_owner r \<and> bi_complete x \<and> unat (bi_full_length x) = length (rc_wire r)) rs xs"

text \<open>
  Between two calls: the first \<open>bs\<close> bytes of the block of \<open>r\<close> have arrived; when that is nothing,
  the block may not have been created yet.
\<close>

definition rx_at :: "receiver list \<Rightarrow> bytes \<Rightarrow> receiver \<Rightarrow> dtn_bundle \<Rightarrow> bool" where
  "rx_at passed bs r b \<longleftrightarrow>
     (\<exists>front blk. bv_blocks (b_recv_blocks b) = front @ [blk] \<and> blocks_done passed front \<and>
        rc_rx r bs b blk \<and> length bs < length (rc_wire r)) \<or>
     (bs = [] \<and> passed \<noteq> [] \<and> blocks_done passed (bv_blocks (b_recv_blocks b)) \<and>
        rc_rx r [] b (block_new (rc_owner r) None))"

definition rx_end :: "receiver list \<Rightarrow> receiver \<Rightarrow> dtn_bundle \<Rightarrow> bool" where
  "rx_end passed r b \<longleftrightarrow>
     (\<exists>front blk. bv_blocks (b_recv_blocks b) = front @ [blk] \<and> blocks_done passed front \<and>
        rc_rx r (rc_wire r) b blk)"

lemma chain_receives: "chain env procs (r # rs) \<Longrightarrow> receives env procs r"
  by (cases rs) auto

lemma chain_last: "chain env procs (r # rs) \<Longrightarrow> rc_last r \<longleftrightarrow> rs = []"
  by (cases rs) auto

lemma blocks_done_snoc:
  "blocks_done passed front \<Longrightarrow> bi_owner blk = rc_owner r \<Longrightarrow> bi_complete blk \<Longrightarrow>
   unat (bi_full_length blk) = length (rc_wire r) \<Longrightarrow> blocks_done (passed @ [r]) (front @ [blk])"
  by (simp add: blocks_done_def list_all2_appendI)

text \<open>One turn of the loop.\<close>

lemma consume_turn:
  assumes ch: "chain env procs (r # rs)" and st: "rx_at passed bs r b"
    and own: "passed \<noteq> [] \<Longrightarrow> find_processor env procs (hd (rc_wire r)) = rc_owner r"
    and d: "bs @ d # ds = take (length bs + length (d # ds)) (rc_wire r @ rest)"
  shows "\<exists>b' front blk. bv_blocks (b_recv_blocks b') = front @ [blk] \<and> blocks_done passed front \<and>
     rc_rx r (take (length (rc_wire r)) (bs @ d # ds)) b' blk \<and>
     consume_loop (Suc n) env procs b (d # ds) k =
       (let m = length (rc_wire r) - length bs
        in if length (d # ds) < m then Inr (Some (k + int (length (d # ds)), False, b'))
           else if rs = [] then Inr (Some (k + int m, True, b'))
           else consume_loop n env procs b' (drop m (d # ds)) (k + int m))"
proof -
  let ?w = "rc_wire r" and ?c = "d # ds"
  define m where "m = length ?w - length bs"
  have R: "block_receiver (bp_consume (processor env procs (rc_owner r))) (rc_owner r) ?w (rc_last r) (rc_rx r)"
    using chain_receives [OF ch] by (simp add: receives_def)
  note step = block_receiver.rx_step [OF R] and complete = block_receiver.rx_complete [OF R]
    and owner = block_receiver.rx_owner [OF R]
  define b1 where "b1 = (if bi_complete (last (bv_blocks (b_recv_blocks b)))
    then recv_append (find_processor env procs d) b else b)"
  have "\<exists>front blk. bv_blocks (b_recv_blocks b1) = front @ [blk] \<and> blocks_done passed front \<and>
      rc_rx r bs b1 blk \<and> length bs < length ?w"
    using st unfolding rx_at_def
  proof (elim disjE exE conjE)
    fix front blk
    assume f: "bv_blocks (b_recv_blocks b) = front @ [blk]" "blocks_done passed front" "rc_rx r bs b blk" "length bs < length ?w"
    then have "b1 = b" using complete [OF f(3)] by (simp add: b1_def)
    with f show ?thesis by blast
  next
    assume f: "bs = []" "passed \<noteq> []" "blocks_done passed (bv_blocks (b_recv_blocks b))" "rc_rx r [] b (block_new (rc_owner r) None)"
    have ne: "?w \<noteq> []" by (rule block_receiver.wire_nonempty [OF R])
    have "d = hd ?w" using d f(1) ne by (cases ?w) auto
    then have "find_processor env procs d = rc_owner r" using own [OF f(2)] by simp
    moreover have "bi_complete (last (bv_blocks (b_recv_blocks b)))"
      using f(2,3) by (cases passed rule: rev_cases) (auto simp: blocks_done_def list_all2_append1 list_all2_Cons1)
    ultimately have b1: "b1 = recv_append (rc_owner r) b" by (simp add: b1_def)
    show ?thesis
      using f ne block_receiver.rx_append [OF R, of "[]" "rc_owner r" b]
      by (intro exI [of _ "bv_blocks (b_recv_blocks b)"] exI [of _ "block_new (rc_owner r) None"])
        (simp add: b1 recv_append_def bv_append_block_def)
  qed
  then obtain front blk where f: "bv_blocks (b_recv_blocks b1) = front @ [blk]" "blocks_done passed front"
    "rc_rx r bs b1 blk" "length bs < length ?w" by blast
  from step [OF f(3,4) _ d] obtain b2 blk2 where
    s: "bp_consume (processor env procs (rc_owner r)) b1 blk ?c = Inr (int (min (length ?c) m), b2, blk2)"
      "rc_rx r (take (length ?w) (bs @ ?c)) b2 blk2" by (auto simp: m_def)
  let ?b' = "recv_store front blk2 b2"
  have rx: "rc_rx r (take (length ?w) (bs @ ?c)) ?b' blk2" using s(2) block_receiver.rx_store [OF R] by simp
  have "length (bs @ ?c) = length bs + length ?c" by simp
  then have cmp: "bi_complete blk2 \<longleftrightarrow> m \<le> length ?c" using complete [OF s(2)] f(4) by (auto simp: m_def)
  have loop: "consume_loop (Suc n) env procs b ?c k =
      (let data = drop (min (length ?c) m) ?c
       in if bi_complete blk2
          then bindR (bi_flags blk2) (\<lambda>f.
                 if f AND BLOCK_FLAG_LAST_BLOCK \<noteq> 0 then Inr (Some (k + int (min (length ?c) m), True, ?b'))
                 else consume_loop n env procs ?b' data (k + int (min (length ?c) m)))
          else bindR (assertR (data = [])) (\<lambda>_. consume_loop n env procs ?b' data (k + int (min (length ?c) m))))"
    unfolding consume_loop.simps Let_def b1_def [symmetric] f(1) last_snoc butlast_snoc owner [OF f(3)] s(1)
      bindR_Inr prod.case nat_int by simp
  have "consume_loop (Suc n) env procs b ?c k =
      (if length ?c < m then Inr (Some (k + int (length ?c), False, ?b'))
       else if rs = [] then Inr (Some (k + int m, True, ?b'))
       else consume_loop n env procs ?b' (drop m ?c) (k + int m))"
  proof (cases "length ?c < m")
    case True
    then show ?thesis unfolding loop using cmp by (simp add: Let_def del: length_Cons)
  next
    case False
    have "take (length ?w) (bs @ ?c) = ?w" unfolding d take_take using False f(4) by (simp add: m_def min_def)
    with rx block_receiver.rx_flags [OF R, of ?b' blk2] chain_last [OF ch] obtain fl where
      "bi_flags blk2 = Inr fl" "fl AND BLOCK_FLAG_LAST_BLOCK \<noteq> 0 \<longleftrightarrow> rs = []" by auto
    with False show ?thesis unfolding loop using cmp by (simp add: Let_def min_def del: length_Cons drop_Cons')
  qed
  with f(2) rx show ?thesis
    by (intro exI [of _ ?b'] exI [of _ front] exI [of _ blk2]) (simp add: m_def recv_store_def Let_def)
qed

text \<open>
  The bytes still to come from a position, and the loop on any prefix of them: enough turns are
  one per block.
\<close>

definition to_come :: "bytes \<Rightarrow> receiver list \<Rightarrow> bytes" where
  "to_come bs rs = drop (length bs) (concat (map rc_wire rs))"

lemma consume_loop_chain:
  "chain env procs rs \<Longrightarrow> rx_at passed bs (hd rs) b \<Longrightarrow>
   (passed \<noteq> [] \<longrightarrow> find_processor env procs (hd (rc_wire (hd rs))) = rc_owner (hd rs)) \<Longrightarrow>
   bs = take (length bs) (rc_wire (hd rs)) \<Longrightarrow> length bs < length (rc_wire (hd rs)) \<Longrightarrow>
   c = take (length c) (to_come bs rs) \<Longrightarrow> c \<noteq> [] \<Longrightarrow> length rs \<le> n \<Longrightarrow>
   \<exists>b' passed' bs' rs'. passed @ rs = passed' @ rs' \<and> length rs' \<le> length rs \<and>
     consume_loop n env procs b c k = Inr (Some (k + int (length c), length c = length (to_come bs rs), b')) \<and>
     (if length c = length (to_come bs rs) then rs' = [] \<and> passed' \<noteq> [] \<and> rx_end (butlast passed') (last passed') b'
      else chain env procs rs' \<and> rx_at passed' bs' (hd rs') b' \<and>
        (passed' \<noteq> [] \<longrightarrow> find_processor env procs (hd (rc_wire (hd rs'))) = rc_owner (hd rs')) \<and>
        bs' = take (length bs') (rc_wire (hd rs')) \<and> length bs' < length (rc_wire (hd rs')) \<and>
        drop (length c) (to_come bs rs) = to_come bs' rs')"
proof (induction rs arbitrary: passed bs b c n k)
  case Nil
  then show ?case by simp
next
  case (Cons r rs)
  let ?w = "rc_wire r"
  define m where "m = length ?w - length bs"
  have l: "length bs < length ?w" "bs = take (length bs) ?w" using Cons.prems(4,5) by simp_all
  obtain d ds where c: "c = d # ds" using Cons.prems(7) by (cases c) auto
  obtain n' where n: "n = Suc n'" using Cons.prems(8) by (cases n) auto
  have tc: "to_come bs (r # rs) = drop (length bs) ?w @ concat (map rc_wire rs)" using l by (simp add: to_come_def)
  have bw: "bs @ drop (length bs) ?w = ?w" using l(2) append_take_drop_id [of "length bs" ?w] by simp
  have pre: "bs @ c = take (length bs + length c) (?w @ concat (map rc_wire rs))"
  proof -
    have "bs @ c = bs @ take (length c) (drop (length bs) ?w @ concat (map rc_wire rs))" using Cons.prems(6) tc by simp
    also have "\<dots> = take (length bs + length c) ((bs @ drop (length bs) ?w) @ concat (map rc_wire rs))" by simp
    finally show ?thesis unfolding bw .
  qed
  have st: "rx_at passed bs r b" and own: "passed \<noteq> [] \<Longrightarrow> find_processor env procs (hd ?w) = rc_owner r"
    using Cons.prems(2,3) by simp_all
  from consume_turn [OF Cons.prems(1) st own pre [unfolded c], of n' k] obtain b' front blk where
    t: "bv_blocks (b_recv_blocks b') = front @ [blk]" "blocks_done passed front"
      "rc_rx r (take (length ?w) (bs @ c)) b' blk"
      "consume_loop n env procs b c k =
       (if length c < m then Inr (Some (k + int (length c), False, b'))
        else if rs = [] then Inr (Some (k + int m, True, b'))
        else consume_loop n' env procs b' (drop m c) (k + int m))"
    unfolding c [symmetric] n [symmetric] m_def [symmetric] Let_def by blast
  have tl: "length (to_come bs (r # rs)) = m + length (concat (map rc_wire rs))" using tc by (simp add: m_def)
  have cl: "length c \<le> length (to_come bs (r # rs))" using arg_cong [OF Cons.prems(6), of length] by simp
  have R: "block_receiver (bp_consume (processor env procs (rc_owner r))) (rc_owner r) ?w (rc_last r) (rc_rx r)"
    using chain_receives [OF Cons.prems(1)] by (simp add: receives_def)
  consider (part) "length c < m" | (final) "m \<le> length c" "rs = []" | (more) "m \<le> length c" "rs \<noteq> []" by linarith
  then show ?case
  proof cases
    case part
    have t3: "take (length ?w) (bs @ c) = bs @ c" using part l(1) by (simp add: m_def)
    have bc: "bs @ c = take (length (bs @ c)) ?w" using pre part l(1) by (simp add: m_def)
    have at': "rx_at passed (bs @ c) r b'"
      unfolding rx_at_def using t(1-3) part l(1) by (intro disjI1) (auto simp: t3 m_def)
    have "drop (length c) (to_come bs (r # rs)) = to_come (bs @ c) (r # rs)"
      unfolding to_come_def drop_drop length_append by (simp only: add.commute)
    note facts = this at' part t(4) tl bc Cons.prems(1) l(1)
    show ?thesis
      by (rule exI [of _ b'], rule exI [of _ passed], rule exI [of _ "bs @ c"], rule exI [of _ "r # rs"])
        (insert facts own, auto simp: m_def)
  next
    case final
    then have e: "length c = m" using cl tl by simp
    then have "take (length ?w) (bs @ c) = ?w" unfolding pre take_take using l(1) by (simp add: m_def)
    then have "rx_end passed r b'" unfolding rx_end_def using t by auto
    note facts = this final t(4) tl e
    show ?thesis
      by (rule exI [of _ b'], rule exI [of _ "passed @ [r]"], rule exI [of _ "[]"], rule exI [of _ "[]"]) (insert facts, simp)
  next
    case more
    then obtain r' rs' where rs: "rs = r' # rs'" by (cases rs) auto
    have ch: "chain env procs rs" "hands_over env procs r r'" using Cons.prems(1) by (simp_all add: rs)
    have w: "take (length ?w) (bs @ c) = ?w" unfolding pre take_take using more l(1) by (simp add: m_def min_def)
    have full: "rc_rx r ?w b' blk" using t(3) w by simp
    have bd: "blocks_done (passed @ [r]) (front @ [blk])"
      using blocks_done_snoc [OF t(2)] block_receiver.rx_owner [OF R full] block_receiver.rx_complete [OF R full] block_receiver.rx_length [OF R full]
      by simp
    have at: "rx_at (passed @ [r]) [] r' b'"
      unfolding rx_at_def using t(1) bd ch(2) full by (intro disjI2) (auto simp: hands_over_def)
    have fp: "find_processor env procs (hd (rc_wire r')) = rc_owner r'" using ch(2) by (simp add: hands_over_def)
    have R': "block_receiver (bp_consume (processor env procs (rc_owner r'))) (rc_owner r') (rc_wire r') (rc_last r') (rc_rx r')"
      using chain_receives [of env procs r' rs'] ch(1) by (simp add: receives_def rs)
    have ne: "rc_wire r' \<noteq> []" by (rule block_receiver.wire_nonempty [OF R'])
    have "drop m c = take (length c - m) (to_come [] rs)"
      using arg_cong [OF Cons.prems(6), of "drop m"] more tc by (simp add: to_come_def drop_take m_def)
    then have dr: "drop m c = take (length (drop m c)) (to_come [] rs)" unfolding length_drop .
    have dtc: "drop (length c) (to_come bs (r # rs)) = drop (length (drop m c)) (to_come [] rs)"
      using more tc by (simp add: to_come_def m_def)
    show ?thesis
    proof (cases "drop m c = []")
      case True
      then have e: "length c = m" using more by simp
      have "consume_loop n' env procs b' [] (k + int m) = Inr (Some (k + int m, False, b'))" by (cases n') simp_all
      with t(4) True e more(2) have "consume_loop n env procs b c k = Inr (Some (k + int m, False, b'))" by simp
      moreover have "length c \<noteq> length (to_come bs (r # rs))" using e tl ne by (simp add: rs)
      ultimately have facts: "consume_loop n env procs b c k = Inr (Some (k + int m, False, b'))"
        "length c \<noteq> length (to_come bs (r # rs))" by simp_all
      show ?thesis
        by (rule exI [of _ b'], rule exI [of _ "passed @ [r]"], rule exI [of _ "[]"], rule exI [of _ rs])
          (insert facts at ch(1) fp ne dtc e, simp add: rs)
    next
      case False
      have le: "(length (drop m c) = length (to_come [] rs)) \<longleftrightarrow> (length c = length (to_come bs (r # rs)))"
        using more tl by (auto simp: to_come_def)
      have kk: "k + int m + int (length (drop m c)) = k + int (length c)" using more by simp
      have "consume_loop n env procs b c k = consume_loop n' env procs b' (drop m c) (k + int m)"
        using t(4) more by simp
      moreover have hyps: "rx_at (passed @ [r]) [] (hd rs) b'"
        "passed @ [r] \<noteq> [] \<longrightarrow> find_processor env procs (hd (rc_wire (hd rs))) = rc_owner (hd rs)"
        "[] = take (length []) (rc_wire (hd rs))" "length [] < length (rc_wire (hd rs))" "length rs \<le> n'"
        using at fp ne Cons.prems(8) n by (simp_all add: rs)
      from Cons.IH [OF ch(1) hyps(1-4) dr False hyps(5), of "k + int m", unfolded le kk] obtain b2 p2 bs2 rs2 where
        "(passed @ [r]) @ rs = p2 @ rs2" "length rs2 \<le> length rs"
        "consume_loop n' env procs b' (drop m c) (k + int m) =
           Inr (Some (k + int (length c), length c = length (to_come bs (r # rs)), b2))"
        "if length c = length (to_come bs (r # rs)) then rs2 = [] \<and> p2 \<noteq> [] \<and> rx_end (butlast p2) (last p2) b2
         else chain env procs rs2 \<and> rx_at p2 bs2 (hd rs2) b2 \<and>
          (p2 \<noteq> [] \<longrightarrow> find_processor env procs (hd (rc_wire (hd rs2))) = rc_owner (hd rs2)) \<and>
          bs2 = take (length bs2) (rc_wire (hd rs2)) \<and> length bs2 < length (rc_wire (hd rs2)) \<and>
          drop (length (drop m c)) (to_come [] rs) = to_come bs2 rs2" by blast
      note x = this
      ultimately have y: "consume_loop n env procs b c k =
          Inr (Some (k + int (length c), length c = length (to_come bs (r # rs)), b2))" by simp
      show ?thesis unfolding dtc y
        by (rule exI [of _ b2], rule exI [of _ p2], rule exI [of _ bs2], rule exI [of _ rs2], intro conjI)
          (insert x(1,2,4), simp_all)
    qed
  qed
qed

text \<open>A bundle given to \<open>consume\<close> in pieces, until it reports the end or an error.\<close>

fun receive_chunks ::
  "nat \<Rightarrow> bp_env \<Rightarrow> registry \<Rightarrow> dtn_bundle \<Rightarrow> bytes list \<Rightarrow> (bool \<times> dtn_bundle) option res"
where
  "receive_chunks n env procs b [] = Inr (Some (False, b))"
| "receive_chunks n env procs b (c # cs) =
     bindR (bundle_consume n env procs b c) (\<lambda>r.
       case r of
         None \<Rightarrow> Inr None
       | Some (cc, is_last, b) \<Rightarrow>
           if cc < 0 \<or> is_last then Inr (Some (is_last, b)) else receive_chunks n env procs b cs)"

lemma rx_at_nonempty: "rx_at passed bs r b \<Longrightarrow> bv_blocks (b_recv_blocks b) \<noteq> []"
  by (auto simp: rx_at_def blocks_done_def)

lemma receive_chunks_chain:
  "chain env procs rs \<Longrightarrow> rx_at passed bs (hd rs) b \<Longrightarrow>
   (passed \<noteq> [] \<longrightarrow> find_processor env procs (hd (rc_wire (hd rs))) = rc_owner (hd rs)) \<Longrightarrow>
   bs = take (length bs) (rc_wire (hd rs)) \<Longrightarrow> length bs < length (rc_wire (hd rs)) \<Longrightarrow>
   concat cs = to_come bs rs \<Longrightarrow> \<forall>c \<in> set cs. c \<noteq> [] \<Longrightarrow> length rs \<le> n \<Longrightarrow> cs \<noteq> [] \<Longrightarrow>
   \<exists>b'. receive_chunks n env procs b cs = Inr (Some (True, b')) \<and>
     rx_end (butlast (passed @ rs)) (last (passed @ rs)) b'"
proof (induction cs arbitrary: passed bs rs b)
  case (Cons c cs)
  have ne: "c \<noteq> []" and c: "c = take (length c) (to_come bs rs)" using Cons.prems(6,7) by (auto dest: sym)
  have bc: "bundle_consume n env procs b c = consume_loop n env procs b c 0"
    using rx_at_nonempty [OF Cons.prems(2)] by (simp add: bundle_consume_def)
  from consume_loop_chain [OF Cons.prems(1-5) c ne Cons.prems(8), of 0] obtain b' passed' bs' rs' where
    s: "passed @ rs = passed' @ rs'"
      "consume_loop n env procs b c 0 = Inr (Some (int (length c), length c = length (to_come bs rs), b'))"
      "if length c = length (to_come bs rs) then rs' = [] \<and> passed' \<noteq> [] \<and> rx_end (butlast passed') (last passed') b'
       else chain env procs rs' \<and> rx_at passed' bs' (hd rs') b' \<and>
        (passed' \<noteq> [] \<longrightarrow> find_processor env procs (hd (rc_wire (hd rs'))) = rc_owner (hd rs')) \<and>
        bs' = take (length bs') (rc_wire (hd rs')) \<and> length bs' < length (rc_wire (hd rs')) \<and>
        drop (length c) (to_come bs rs) = to_come bs' rs'" "length rs' \<le> length rs" by auto
  show ?case
  proof (cases "length c = length (to_come bs rs)")
    case True
    with s bc show ?thesis by auto
  next
    case False
    with s(3) have t: "chain env procs rs'" "rx_at passed' bs' (hd rs') b'"
      "passed' \<noteq> [] \<longrightarrow> find_processor env procs (hd (rc_wire (hd rs'))) = rc_owner (hd rs')"
      "bs' = take (length bs') (rc_wire (hd rs'))" "length bs' < length (rc_wire (hd rs'))"
      "drop (length c) (to_come bs rs) = to_come bs' rs'" by simp_all
    have cc: "concat cs = to_come bs' rs'" unfolding t(6) [symmetric] using Cons.prems(6) by (simp flip: Cons.prems(6))
    have "length (to_come bs rs) = length c + length (concat cs)" using Cons.prems(6) by (simp flip: Cons.prems(6))
    then have cs: "cs \<noteq> []" using False by auto
    have "length rs' \<le> n" using s(4) Cons.prems(8) by simp
    with Cons.IH [OF t(1-5) cc _ _ cs] Cons.prems(7) s bc False show ?thesis by auto
  qed
qed simp

end
