(* ===== verification/Transmission.thy ===== *)
theory Transmission
  imports BundleProtocol
begin

text \<open>
  The bundle protocol end to end: the bytes that \<open>prepare_blocks\<close>, \<open>generate_blocks\<close> and \<open>produce\<close>
  of \<open>BundleProtocol.cc\<close> make of a bundle, and the bundle that \<open>consume\<close> makes of these bytes.

  \<^item> \<open>ext_receiver\<close> is the contract of a block that is collected and then parsed; it gives the
    contract \<open>block_receiver\<close> of the receiving loop (a sublocale). It is interpreted for the primary
    and the previous hop block, and \<open>block_receiver\<close> for the payload block.
  \<^item> \<open>block_sender\<close> is the contract of the producing loop, interpreted for the stored blocks and the
    payload block.
  \<^item> The table of default processors, and what preparation and generation make of a local bundle.
  \<^item> The progress every processor makes on a new block, from which the receiving loop terminates.
\<close>

subsection \<open>Plain preambles\<close>

text \<open>The preamble of a block without endpoint references.\<close>

definition plain_preamble :: "byte \<Rightarrow> u64 \<Rightarrow> nat \<Rightarrow> bytes" where
  "plain_preamble t flags n = t # sdnv_bytes flags @ sdnv_bytes (of_nat n)"

lemma preamble_bytes_plain: "preamble_bytes d [] t flags (of_nat n) = plain_preamble t flags n"
  by (simp add: plain_preamble_def preamble_bytes_def preamble_flags_def eid_field_def)

lemma plain_preamble_simps [simp]:
  "plain_preamble t flags n \<noteq> []" "hd (plain_preamble t flags n @ data) = t"
  by (simp_all add: plain_preamble_def)

lemma length_plain_preamble: "length (plain_preamble t flags n) \<le> 21"
  using sdnv_val_len_le_10 [of flags] sdnv_val_len_le_10 [of "of_nat n"] by (simp add: plain_preamble_def)

lemma wire_block_plain:
  assumes "flags AND BLOCK_FLAG_EID_REFS = 0" "length data < 2 ^ 32 - SCRATCH_LEN"
  shows "wire_block nm d (plain_preamble t flags (length data)) [] data"
proof -
  have n: "(of_nat (length data) :: u64) \<le> 0xFFFFFFFF"
    using assms(2) by (simp add: word_le_nat_alt unat_of_nat SCRATCH_LEN_def)
  show ?thesis
    using parse_preamble_plain [OF assms(1) n] assms(2) length_plain_preamble [of t flags "length data"]
    by (auto simp: wire_block_def plain_preamble_def SCRATCH_LEN_def)
qed

lemma bi_flags_plain:
  assumes "bi_contents blk = plain_preamble t flags n @ rest" "unat t = bi_owner blk" "bi_owner blk \<noteq> PRIMARY_BLOCK"
  shows "bi_flags blk = Inr flags" "bi_type blk = Inr (bi_owner blk)"
proof -
  show ty: "bi_type blk = Inr (bi_owner blk)" using assms by (simp add: bi_type_def plain_preamble_def)
  show "bi_flags blk = Inr flags"
    by (rule bi_flags_preamble [OF ty assms(3), of t flags]) (use assms(1) in \<open>simp add: plain_preamble_def\<close>)
qed

lemma generate_preamble_plain:
  assumes "bi_eid_list blk = []" "bi_contents blk = []" "SCRATCH_LEN \<le> bi_buf_len blk"
  shows "generate_preamble d blk t flags (of_nat n) =
    Inr (blk\<lparr>bi_contents := plain_preamble t flags n, bi_data_length := of_nat n,
             bi_data_offset := of_nat (length (plain_preamble t flags n))\<rparr>, d)"
proof -
  have "length (plain_preamble t flags n) \<le> bi_buf_len blk"
    using length_plain_preamble [of t flags n] assms(3) by (simp add: SCRATCH_LEN_def)
  then have "1 + sdnv_val_len flags + sdnv_val_len (of_nat n) \<le> bi_buf_len blk" by (simp add: plain_preamble_def)
  with assms(1,2) show ?thesis
    by (auto simp: generate_preamble_def Let_def sdnv_encode_eq plain_preamble_def
        PREAMBLE_FIXED_LENGTH_def of_nat_ucast_u32 add_ac)
qed

lemma full_length_plain:
  assumes "bi_data_offset blk = of_nat (length pre)" "bi_data_length blk = of_nat n" "length pre + n < 2 ^ 32"
  shows "unat (bi_full_length blk) = length pre + n"
  using unat_of_nat_u32 [OF assms(3)] assms(1,2) by (simp only: bi_full_length_def of_nat_add)

subsection \<open>Receivers that parse a complete block\<close>

text \<open>
  A block whose processor collects it with the generic \<open>consume\<close> and then parses its data: what
  holds of the bundle \<open>before\<close> the block, and \<open>after\<close> it has been parsed.
\<close>

definition ext_rx ::
  "nat \<Rightarrow> bytes \<Rightarrow> eid list \<Rightarrow> bytes \<Rightarrow> (dtn_bundle \<Rightarrow> bool) \<Rightarrow> (dtn_bundle \<Rightarrow> bool) \<Rightarrow>
     bytes \<Rightarrow> dtn_bundle \<Rightarrow> block_info \<Rightarrow> bool"
where
  "ext_rx owner pre es data before after bs b blk \<longleftrightarrow>
     length (pre @ data) < 2 ^ 32 \<and> rx_block owner pre es data bs blk \<and> (if length bs < length (pre @ data) then before b else after b)"

locale ext_receiver =
  fixes env :: bp_env
    and parse :: "dtn_bundle \<Rightarrow> block_info \<Rightarrow> (bool \<times> dtn_bundle) res"
    and owner :: nat and pre data :: bytes and es :: "eid list" and is_last :: bool
    and before after :: "dtn_bundle \<Rightarrow> bool"
  assumes before_wire: "before b \<Longrightarrow> scratch_ok (env_rsv env) \<and>
      wire_block (env_naming env) (bv_dict (b_recv_blocks b)) pre es data"
    and parse_ok: "before b \<Longrightarrow> rx_block owner pre es data (pre @ data) blk \<Longrightarrow>
      \<exists>b'. parse b blk = Inr (True, b') \<and> after b'"
    and block_flags: "rx_block owner pre es data (pre @ data) blk \<Longrightarrow>
      \<exists>f. bi_flags blk = Inr f \<and> (f AND BLOCK_FLAG_LAST_BLOCK \<noteq> 0 \<longleftrightarrow> is_last)"
    and before_frame: "before (b\<lparr>b_recv_blocks := (b_recv_blocks b)\<lparr>bv_blocks := xs\<rparr>\<rparr>) \<longleftrightarrow> before b"
    and after_frame: "after (b\<lparr>b_recv_blocks := (b_recv_blocks b)\<lparr>bv_blocks := xs\<rparr>\<rparr>) \<longleftrightarrow> after b"
    and pre_nonempty: "pre \<noteq> []"
begin

lemma step:
  assumes rx: "ext_rx owner pre es data before after bs b blk" and l: "length bs < length (pre @ data)"
    and c: "bs @ c = take (length bs + length c) ((pre @ data) @ rest)"
  shows "\<exists>b' blk'. ext_consume env parse b blk c =
      Inr (int (min (length c) (length (pre @ data) - length bs)), b', blk') \<and>
    ext_rx owner pre es data before after (take (length (pre @ data)) (bs @ c)) b' blk'"
proof -
  let ?L = "length (pre @ data)"
  have b: "before b" "rx_block owner pre es data bs blk" using rx l by (simp_all add: ext_rx_def)
  have w: "scratch_ok (env_rsv env)" "wire_block (env_naming env) (bv_dict (b_recv_blocks b)) pre es data"
    using before_wire [OF b(1)] by simp_all
  have lw: "length (pre @ data) < 2 ^ 32" using rx by (simp add: ext_rx_def)
  have nc: "\<not> bi_complete blk" using b(2) l by (auto simp: rx_block_def split: if_splits)
  have l': "length bs \<le> length pre + length data" and c': "bs @ c = take (length bs + length c) (pre @ data @ rest)"
    using l c by simp_all
  from block_consume_step [OF w(2,1) b(2) nc l' c'] obtain k where
    k: "block_consume (env_rsv env) (env_naming env) (bv_dict (b_recv_blocks b)) blk c =
        Inr (int (min (length c) (?L - length bs)), k)"
      "rx_block owner pre es data (take ?L (bs @ c)) k" by auto
  have cmp: "bi_complete k \<longleftrightarrow> ?L \<le> length (bs @ c)"
    using k(2) wire_block_length [OF w(2)] by (auto simp: rx_block_def min_def split: if_splits)
  show ?thesis
  proof (cases "?L \<le> length (bs @ c)")
    case True
    have full: "take ?L (bs @ c) = pre @ data" unfolding c take_take using True by simp
    from parse_ok [OF b(1) k(2) [unfolded full]] obtain b' where p: "parse b k = Inr (True, b')" "after b'" by blast
    then show ?thesis
      using k [unfolded full] cmp True by (intro exI [of _ b'] exI [of _ k], unfold full) (use lw in \<open>simp add: ext_consume_def ext_rx_def\<close>)
  next
    case False
    then have m: "min (length c) (?L - length bs) = length c" by simp
    show ?thesis
      using k cmp False b(1) by (intro exI [of _ b] exI [of _ k]) (use lw in \<open>simp add: ext_consume_def ext_rx_def m\<close>)
  qed
qed

end

sublocale ext_receiver \<subseteq> block: block_receiver
  "ext_consume env parse" owner "pre @ data" is_last "ext_rx owner pre es data before after"
proof
  show "\<exists>b' blk'. ext_consume env parse b blk c =
        Inr (int (min (length c) (length (pre @ data) - length bs)), b', blk') \<and>
      ext_rx owner pre es data before after (take (length (pre @ data)) (bs @ c)) b' blk'"
    if "ext_rx owner pre es data before after bs b blk" "length bs < length (pre @ data)"
      "bs @ c = take (length bs + length c) ((pre @ data) @ rest)" for bs b blk c rest
    using step [OF that] .
  show "bi_owner blk = owner" if "ext_rx owner pre es data before after bs b blk" for bs b blk
    using that by (simp add: ext_rx_def rx_block_def)
  show "bi_complete blk \<longleftrightarrow> length bs = length (pre @ data)" if "ext_rx owner pre es data before after bs b blk" for bs b blk
    using that by (auto simp: ext_rx_def rx_block_def split: if_splits)
  show "\<exists>f. bi_flags blk = Inr f \<and> (f AND BLOCK_FLAG_LAST_BLOCK \<noteq> 0 \<longleftrightarrow> is_last)"
    if "ext_rx owner pre es data before after (pre @ data) b blk" for b blk
    using that block_flags by (simp add: ext_rx_def)
  show "unat (bi_full_length blk) = length (pre @ data)" if "ext_rx owner pre es data before after (pre @ data) b blk" for b blk
    using that rx_block_lengths(2) [of owner pre es data blk] by (simp add: ext_rx_def)
qed (simp_all add: ext_rx_def before_frame after_frame pre_nonempty)

subsection \<open>The receivers of the primary, previous hop and payload blocks\<close>

text \<open>
  The bundle of the receiver before the primary block has been parsed, and after: \<open>orig\<close> is the
  bundle at the sender, \<open>d\<close> its dictionary, and \<open>ph\<close> the previous hop as known so far.
\<close>

definition primary_before :: "bp_env \<Rightarrow> dictionary \<Rightarrow> dtn_bundle \<Rightarrow> eid \<Rightarrow> dtn_bundle \<Rightarrow> bool" where
  "primary_before env d orig ph b \<longleftrightarrow>
     scratch_ok (env_rsv env) \<and> primary_fits (env_naming env) d orig \<and>
     bv_dict (b_recv_blocks b) = dict_empty \<and> \<not> receipt_requested b \<and>
     pl_whole (b_payload b) \<and> pl_length (b_payload b) = 0 \<and> b_prevhop b = ph"

definition header_done :: "bp_env \<Rightarrow> dictionary \<Rightarrow> dtn_bundle \<Rightarrow> eid \<Rightarrow> dtn_bundle \<Rightarrow> bool" where
  "header_done env d orig ph b \<longleftrightarrow>
     scratch_ok (env_rsv env) \<and> same_header orig b \<and> bv_dict (b_recv_blocks b) = dict_rx d \<and>
     pl_whole (b_payload b) \<and> pl_length (b_payload b) = 0 \<and> b_prevhop b = ph"

lemma received_primary_prevhop [simp]: "b_prevhop (received_primary d b b0) = b_prevhop b0"
  by (simp add: received_primary_def with_times_def parse_flags_processing Let_def)

lemma same_header_frame [simp]:
  "same_header s (b\<lparr>b_recv_blocks := v\<rparr>) = same_header s b"
  "same_header s (b\<lparr>b_prevhop := e\<rparr>) = same_header s b"
  "same_header s (b\<lparr>b_payload := p\<rparr>) = same_header s b"
  by (simp_all add: same_header_def)

lemma primary_before_frame [simp]:
  "primary_before env d orig ph (b\<lparr>b_recv_blocks := (b_recv_blocks b)\<lparr>bv_blocks := xs\<rparr>\<rparr>) = primary_before env d orig ph b"
  by (simp add: primary_before_def receipt_requested_def)

lemma header_done_frame [simp]:
  "header_done env d orig ph (b\<lparr>b_recv_blocks := (b_recv_blocks b)\<lparr>bv_blocks := xs\<rparr>\<rparr>) = header_done env d orig ph b"
  by (simp add: header_done_def)

lemma primary_consume_ext:
  "primary_consume (env_rsv env) (env_naming env) = ext_consume env (\<lambda>b blk. primary_parse (env_naming env) blk b)"
proof (intro ext)
  fix b blk buf
  show "primary_consume (env_rsv env) (env_naming env) b blk buf =
      ext_consume env (\<lambda>b blk. primary_parse (env_naming env) blk b) b blk buf"
    by (cases "bi_complete blk") (simp_all add: primary_consume_def ext_consume_def block_consume_def)
qed

lemma primary_head_nonempty [simp]: "primary_head d b \<noteq> []"
  by (simp add: primary_head_def primary_pre_def)

interpretation primary: ext_receiver env "\<lambda>b blk. primary_parse (env_naming env) blk b" PRIMARY_BLOCK
    "primary_head d orig" "primary_tail d orig" "[]" False "primary_before env d orig ph" "header_done env d orig ph"
  for env d orig ph
proof
  fix b blk
  assume b: "primary_before env d orig ph b"
  then have f: "primary_fits (env_naming env) d orig" "bv_dict (b_recv_blocks b) = dict_empty" "\<not> receipt_requested b"
    by (simp_all add: primary_before_def)
  show "scratch_ok (env_rsv env) \<and> wire_block (env_naming env) (bv_dict (b_recv_blocks b)) (primary_head d orig) [] (primary_tail d orig)"
    using b wire_block_primary_dict [OF f(1)] by (simp add: primary_before_def)
  assume rx: "rx_block PRIMARY_BLOCK (primary_head d orig) [] (primary_tail d orig) (primary_head d orig @ primary_tail d orig) blk"
  show "\<exists>b'. primary_parse (env_naming env) blk b = Inr (True, b') \<and> header_done env d orig ph b'"
    using primary_parse_dict [OF f(1,2) rx] same_header_primary [OF f(1,3)] b
    by (simp add: header_done_def primary_before_def)
next
  fix blk
  assume "rx_block PRIMARY_BLOCK (primary_head d orig) [] (primary_tail d orig) (primary_head d orig @ primary_tail d orig) blk"
  then have "bi_flags blk = Inr 0" by (simp add: rx_block_def bi_flags_def bi_type_def)
  then show "\<exists>f. bi_flags blk = Inr f \<and> (f AND BLOCK_FLAG_LAST_BLOCK \<noteq> 0 \<longleftrightarrow> False)" by simp
qed simp_all

definition prevhop_flags :: u64 where
  "prevhop_flags = BLOCK_FLAG_DISCARD_BUNDLE_ONERROR"

lemma prevhop_flags_simps:
  "prevhop_flags AND BLOCK_FLAG_LAST_BLOCK = 0" "prevhop_flags AND BLOCK_FLAG_EID_REFS = 0"
  "prevhop_flags AND BLOCK_FLAG_REPORT_ONERROR = 0"
  "BLOCK_FLAG_LAST_BLOCK AND BLOCK_FLAG_LAST_BLOCK \<noteq> 0" "BLOCK_FLAG_LAST_BLOCK AND BLOCK_FLAG_EID_REFS = 0"
  "BLOCK_FLAG_LAST_BLOCK AND BLOCK_FLAG_REPORT_ONERROR = 0"
  by (simp_all add: prevhop_flags_def block_flag_defs)

abbreviation prevhop_pre :: "bytes \<Rightarrow> bytes" where
  "prevhop_pre data \<equiv> plain_preamble (of_nat PREVIOUS_HOP_BLOCK) prevhop_flags (length data)"

abbreviation payload_pre :: "bytes \<Rightarrow> bytes" where
  "payload_pre data \<equiv> plain_preamble (of_nat PAYLOAD_BLOCK) BLOCK_FLAG_LAST_BLOCK (length data)"

definition prevhop_before :: "bp_env \<Rightarrow> bytes \<Rightarrow> dictionary \<Rightarrow> dtn_bundle \<Rightarrow> eid \<Rightarrow> dtn_bundle \<Rightarrow> bool" where
  "prevhop_before env data d orig e b \<longleftrightarrow>
     header_done env d orig (b_prevhop b) b \<and> length data < 2 ^ 32 - SCRATCH_LEN \<and>
     eid_assign (env_naming env) data = e \<and> eid_valid e"

lemma rx_block_data_bytes:
  assumes "rx_block owner pre es data (pre @ data) blk" "length pre + length data < 2 ^ 32"
  shows "bi_data blk = data"
proof -
  have "bi_contents blk = pre @ data" "bi_data_offset blk = of_nat (length pre)" "bi_data_length blk = of_nat (length data)"
    using assms(1) by (auto simp: rx_block_def)
  with assms(2) show ?thesis by (simp add: bi_data_def unat_of_nat_u32)
qed

interpretation prevhop: ext_receiver env "prevhop_parse (env_naming env)" PREVIOUS_HOP_BLOCK
    "prevhop_pre data" data "[]" False "prevhop_before env data d orig e" "header_done env d orig e"
  for env data d orig e
proof
  fix b blk
  assume b: "prevhop_before env data d orig e b"
  then have w: "wire_block (env_naming env) (bv_dict (b_recv_blocks b)) (prevhop_pre data) [] data"
    by (intro wire_block_plain) (simp_all add: prevhop_before_def prevhop_flags_simps)
  with b show "scratch_ok (env_rsv env) \<and> wire_block (env_naming env) (bv_dict (b_recv_blocks b)) (prevhop_pre data) [] data"
    by (simp add: prevhop_before_def header_done_def)
  assume rx: "rx_block PREVIOUS_HOP_BLOCK (prevhop_pre data) [] data (prevhop_pre data @ data) blk"
  have "bi_data blk = data" by (rule rx_block_data_bytes [OF rx]) (use w in \<open>simp add: wire_block_def\<close>)
  then show "\<exists>b'. prevhop_parse (env_naming env) b blk = Inr (True, b') \<and> header_done env d orig e b'"
    using b by (simp add: prevhop_parse_def prevhop_before_def header_done_def Let_def)
next
  fix blk
  assume "rx_block PREVIOUS_HOP_BLOCK (prevhop_pre data) [] data (prevhop_pre data @ data) blk"
  then have "bi_flags blk = Inr prevhop_flags"
    by (intro bi_flags_plain(1)) (auto simp: rx_block_def block_types)
  then show "\<exists>f. bi_flags blk = Inr f \<and> (f AND BLOCK_FLAG_LAST_BLOCK \<noteq> 0 \<longleftrightarrow> False)" 
    by (simp add: prevhop_flags_simps)
next
  fix b xs
  show "prevhop_before env data d orig e (b\<lparr>b_recv_blocks := (b_recv_blocks b)\<lparr>bv_blocks := xs\<rparr>\<rparr>) = prevhop_before env data d orig e b"
    by (simp add: prevhop_before_def)
qed simp_all

definition payload_rx :: "dtn_bundle \<Rightarrow> eid \<Rightarrow> bytes \<Rightarrow> bytes \<Rightarrow> dtn_bundle \<Rightarrow> block_info \<Rightarrow> bool" where
  "payload_rx orig ph data bs b blk \<longleftrightarrow>
     same_header orig b \<and> b_prevhop b = ph \<and> length data < 2 ^ 32 - SCRATCH_LEN \<and>
     rx_payload (payload_pre data) data bs (b_payload b) blk"

lemma payload_rx_start:
  assumes "header_done env d orig ph b" "length data < 2 ^ 32 - SCRATCH_LEN"
  shows "payload_rx orig ph data [] b (block_new PAYLOAD_BLOCK None)"
proof -
  have w: "wire_block (env_naming env) dict_empty (payload_pre data) [] data"
    by (rule wire_block_plain [OF prevhop_flags_simps(5) assms(2)])
  show ?thesis
    using rx_block_new [OF w] assms by (simp add: payload_rx_def rx_payload_def header_done_def)
qed

interpretation payload: block_receiver "payload_consume env" PAYLOAD_BLOCK "payload_pre data @ data" True
    "payload_rx orig ph data"
  for env data orig ph
proof
  fix bs b blk c rest
  assume rx: "payload_rx orig ph data bs b blk" and l: "length bs < length (payload_pre data @ data)"
    and c: "bs @ c = take (length bs + length c) ((payload_pre data @ data) @ rest)"
  have w: "wire_block (env_naming env) (bv_dict (b_recv_blocks b)) (payload_pre data) [] data"
    by (rule wire_block_plain) (use rx in \<open>simp_all add: prevhop_flags_simps payload_rx_def\<close>)
  have rx': "rx_payload (payload_pre data) data bs (b_payload b) blk" using rx by (simp add: payload_rx_def)
  have l': "length bs < length (payload_pre data) + length data"
    and c': "bs @ c = take (length bs + length c) (payload_pre data @ data @ rest)"
    using l c by (simp_all only: length_append append_assoc)
  from payload_consume_step [OF w rx' l' c'] obtain p blk' where
    "payload_consume env b blk c =
       Inr (int (min (length c) (length (payload_pre data @ data) - length bs)), b\<lparr>b_payload := p\<rparr>, blk')"
    "rx_payload (payload_pre data) data (take (length (payload_pre data @ data)) (bs @ c)) p blk'"
    unfolding length_append [symmetric] by blast
  then show "\<exists>b' blk'. payload_consume env b blk c =
        Inr (int (min (length c) (length (payload_pre data @ data) - length bs)), b', blk') \<and>
      payload_rx orig ph data (take (length (payload_pre data @ data)) (bs @ c)) b' blk'"
    using rx by (intro exI [of _ "b\<lparr>b_payload := p\<rparr>"] exI [of _ blk']) (simp add: payload_rx_def)
next
  fix b blk
  assume "payload_rx orig ph data (payload_pre data @ data) b blk"
  then have "bi_flags blk = Inr BLOCK_FLAG_LAST_BLOCK"
    by (intro bi_flags_plain(1) [where rest = "[]"]) (auto simp: payload_rx_def rx_payload_def block_types)
  then show "\<exists>f. bi_flags blk = Inr f \<and> (f AND BLOCK_FLAG_LAST_BLOCK \<noteq> 0 \<longleftrightarrow> True)"
    using prevhop_flags_simps(4) by simp
next
  fix b blk
  assume "payload_rx orig ph data (payload_pre data @ data) b blk"
  then show "unat (bi_full_length blk) = length (payload_pre data @ data)"
    using wire_block_plain [OF prevhop_flags_simps(5), of data]
    by (auto simp: payload_rx_def rx_payload_def wire_block_def intro!: full_length_plain)
next
  fix bs b blk
  assume rx: "payload_rx orig ph data bs b blk"
  then show "bi_owner blk = PAYLOAD_BLOCK" by (auto simp: payload_rx_def rx_payload_def rx_block_def split: if_splits)
  from rx show "bi_complete blk \<longleftrightarrow> length bs = length (payload_pre data @ data)"
    by (auto simp: payload_rx_def rx_payload_def rx_block_def split: if_splits)
qed (simp_all add: payload_rx_def)

subsection \<open>Producing the bytes of a sequence of blocks\<close>

text \<open>
  What the producing loop relies on: a block described by \<open>tx\<close> has the full length of its bytes,
  and any part of them is produced on request. \<open>keep\<close> is what the processors need of the bundle.
\<close>

locale block_sender =
  fixes prod :: "dtn_bundle \<Rightarrow> block_info \<Rightarrow> bytes \<Rightarrow> nat \<Rightarrow> (bytes \<times> dtn_bundle) res"
    and tx :: "block_info \<Rightarrow> bytes \<Rightarrow> bool" and keep :: "dtn_bundle \<Rightarrow> bool"
  assumes tx_length: "tx x wire \<Longrightarrow> unat (bi_full_length x) = length wire"
    and tx_produce: "tx x wire \<Longrightarrow> keep b \<Longrightarrow> offset < length wire \<Longrightarrow> offset + length buf \<le> length wire \<Longrightarrow>
      \<exists>b'. prod b x buf offset = Inr (take (length buf) (drop offset wire), b') \<and> keep b'"

definition stored_tx :: "block_info \<Rightarrow> bytes \<Rightarrow> bool" where
  "stored_tx x wire \<longleftrightarrow> bi_contents x = wire \<and> unat (bi_full_length x) = length wire"

interpretation base_sender: block_sender base_produce stored_tx keep for keep
  by unfold_locales (auto simp: stored_tx_def base_produce_def block_produce_def)

definition payload_tx :: "bytes \<Rightarrow> block_info \<Rightarrow> bytes \<Rightarrow> bool" where
  "payload_tx data x wire \<longleftrightarrow> wire = bi_contents x @ data \<and> unat (bi_full_length x) = length wire \<and>
     unat (bi_data_offset x) = length (bi_contents x)"

definition holds_payload :: "bytes \<Rightarrow> dtn_bundle \<Rightarrow> bool" where
  "holds_payload data b \<longleftrightarrow> pl_whole (b_payload b) \<and> pl_bytes (b_payload b) = data"

interpretation payload_sender: block_sender "payload_produce io" "payload_tx data" "holds_payload data" for io data
proof
  fix x wire b and offset :: nat and buf :: bytes
  assume tx: "payload_tx data x wire" and keep: "holds_payload data b"
    and off: "offset < length wire" "offset + length buf \<le> length wire"
  let ?pre = "bi_contents x"
  define n1 where "n1 = (if offset < length ?pre then min (length buf) (length ?pre - offset) else 0)"
  have doff: "unat (bi_data_offset x) = length ?pre" and w: "wire = ?pre @ data" using tx by (simp_all add: payload_tx_def)
  have pl: "pl_whole (b_payload b)" "pl_bytes (b_payload b) = data" "pl_length (b_payload b) = length data"
    using keep pl_whole_length by (auto simp: holds_payload_def)
  show "\<exists>b'. payload_produce io b x buf offset = Inr (take (length buf) (drop offset wire), b') \<and> holds_payload data b'"
  proof (cases "drop n1 buf = []")
    case True
    then have "take n1 (drop offset ?pre) = take (length buf) (drop offset wire)"
      using off unfolding w n1_def by (auto simp: min_def split: if_splits)
    with True keep show ?thesis by (simp add: payload_produce_def Let_def doff n1_def)
  next
    case False
    define poff where "poff = offset + n1 - length ?pre"
    have len: "poff + length (drop n1 buf) \<le> length data"
      and split: "take n1 (drop offset ?pre) @ take (length buf - n1) (drop poff data) = take (length buf) (drop offset wire)"
      using off False unfolding w n1_def poff_def by (auto simp: min_def split: if_splits)
    have tc: "min (length (drop n1 buf)) (size_diff (pl_length (b_payload b)) poff) = length (drop n1 buf)"
      using len pl(3) by simp
    from pl_read_data_whole [OF pl(1), of poff "drop n1 buf" io] len pl obtain p where
      p: "pl_read_data io poff (drop n1 buf) (b_payload b) = Inr (take (length (drop n1 buf)) (drop poff data), p)"
        "pl_whole p" "pl_bytes p = data" by auto
    have "payload_produce io b x buf offset =
        bindR (pl_read_data io poff (take (length (drop n1 buf)) (drop n1 buf)) (b_payload b)) (\<lambda>(bs, p).
          Inr (take n1 (drop offset ?pre) @ bs @ drop (length (drop n1 buf)) (drop n1 buf), b\<lparr>b_payload := p\<rparr>))"
      unfolding payload_produce_def Let_def doff n1_def [symmetric] poff_def [symmetric] tc using False by simp
    with p split show ?thesis by (simp add: holds_payload_def)
  qed
qed (simp add: payload_tx_def)

text \<open>A sequence of blocks with their bytes, of which exactly the final one is marked as the last.\<close>

definition sends :: "bp_env \<Rightarrow> registry \<Rightarrow> (dtn_bundle \<Rightarrow> bool) \<Rightarrow> block_info \<Rightarrow> bytes \<Rightarrow> bool \<Rightarrow> bool" where
  "sends env procs keep x wire is_last \<longleftrightarrow>
     (\<exists>tx. block_sender (bp_produce (processor env procs (bi_owner x))) tx keep \<and> tx x wire) \<and> wire \<noteq> [] \<and>
     (\<exists>f. bi_flags x = Inr f \<and> (f AND BLOCK_FLAG_LAST_BLOCK \<noteq> 0 \<longleftrightarrow> is_last))"

fun tx_chain :: "bp_env \<Rightarrow> registry \<Rightarrow> (dtn_bundle \<Rightarrow> bool) \<Rightarrow> block_info list \<Rightarrow> bytes list \<Rightarrow> bool" where
  "tx_chain env procs keep [] [] = True"
| "tx_chain env procs keep (x # xs) (w # ws) = (sends env procs keep x w (xs = []) \<and> tx_chain env procs keep xs ws)"
| "tx_chain env procs keep _ _ = False"

lemma sends_produce:
  assumes "sends env procs keep x w l" "keep b" "offset < length w" "offset + length buf \<le> length w"
  shows "\<exists>b'. bp_produce (processor env procs (bi_owner x)) b x buf offset =
      Inr (take (length buf) (drop offset w), b') \<and> keep b'"
  using assms block_sender.tx_produce unfolding sends_def by blast

lemma sends_length: "sends env procs keep x w l \<Longrightarrow> unat (bi_full_length x) = length w \<and> w \<noteq> []"
  using block_sender.tx_length unfolding sends_def by blast

lemma sends_flags:
  "sends env procs keep x w l \<Longrightarrow> \<exists>f. bi_flags x = Inr f \<and> (f AND BLOCK_FLAG_LAST_BLOCK \<noteq> 0 \<longleftrightarrow> l)"
  by (simp add: sends_def)

lemma tx_chain_length: "tx_chain env procs keep xs ws \<Longrightarrow> total_length xs = length (concat ws)"
  by (induction env procs keep xs ws rule: tx_chain.induct) (auto simp: total_length_def dest: sends_length)

lemma produce_turn:
  assumes s: "sends env procs keep x w l" and keep: "keep b" and off: "offset < length w" and data: "data \<noteq> []"
    and l: "l \<longleftrightarrow> xs = []"
  shows "\<exists>b'. keep b' \<and> produce_loop env procs b (x # xs) data offset =
    (if length data < length w - offset then Inr (take (length data) (drop offset w), False, b')
     else if xs = [] then Inr (drop offset w, True, b')
     else if length data = length w - offset then Inr (drop offset w, False, b')
     else bindR (produce_loop env procs b' xs (drop (length w - offset) data) 0) (\<lambda>(out', l, b). Inr (drop offset w @ out', l, b)))"
proof -
  let ?k = "min (length data) (length w - offset)"
  have n: "unat (bi_full_length x) = length w" using sends_length [OF s] by simp
  have t: "length (take ?k data) = ?k" by simp
  have le: "offset + ?k \<le> length w" using off by simp
  from sends_produce [OF s keep off, of "take ?k data"] le obtain b' where
    p: "bp_produce (processor env procs (bi_owner x)) b x (take ?k data) offset = Inr (take ?k (drop offset w), b')" "keep b'"
    unfolding t by blast
  from sends_flags [OF s] obtain f where f: "bi_flags x = Inr f" "f AND BLOCK_FLAG_LAST_BLOCK \<noteq> 0 \<longleftrightarrow> xs = []"
    using l by blast
  consider "length data < length w - offset" | "length data = length w - offset" | "length w - offset < length data"
    by linarith
  then show ?thesis
    using p(2) f off data unfolding produce_loop.simps Let_def n p(1) bindR_Inr prod.case
    by cases (auto intro!: exI [of _ b'])
qed

lemma produce_loop_chain:
  "tx_chain env procs keep xs ws \<Longrightarrow> keep b \<Longrightarrow> xs \<noteq> [] \<Longrightarrow> offset < length (hd ws) \<Longrightarrow> data \<noteq> [] \<Longrightarrow>
   \<exists>b'. produce_loop env procs b xs data offset =
     Inr (take (length data) (drop offset (concat ws)), length (concat ws) \<le> offset + length data, b') \<and> keep b'"
proof (induction env procs keep xs ws arbitrary: b offset data rule: tx_chain.induct)
  case (2 env procs keep x xs w ws)
  then have s: "sends env procs keep x w (xs = [])" and ch: "tx_chain env procs keep xs ws" and off: "offset < length w"
    by simp_all
  from produce_turn [OF s 2(3) off 2(6) refl] obtain b' where b': "keep b'" and
    t: "produce_loop env procs b (x # xs) data offset =
      (if length data < length w - offset then Inr (take (length data) (drop offset w), False, b')
       else if xs = [] then Inr (drop offset w, True, b')
       else if length data = length w - offset then Inr (drop offset w, False, b')
       else bindR (produce_loop env procs b' xs (drop (length w - offset) data) 0) (\<lambda>(out', l, b). Inr (drop offset w @ out', l, b)))"
    by blast
  show ?case
  proof (cases "xs = []")
    case True
    then have "ws = []" using ch by (cases ws) auto
    with t b' off True show ?thesis by (intro exI [of _ b']) auto
  next
    case False
    then obtain x' xs' w' ws' where xs: "xs = x' # xs'" "ws = w' # ws'" using ch by (cases xs; cases ws) auto
    have w': "w' \<noteq> []" using ch sends_length [of env procs keep x' w'] xs by auto
    show ?thesis
    proof (cases "length data \<le> length w - offset")
      case True
      with t b' off False w' show ?thesis by (intro exI [of _ b']) (auto simp: xs)
    next
      case long: False
      then have ne: "drop (length w - offset) data \<noteq> []" by simp
      from "2.IH" [OF ch b' False _ ne, of 0] w' obtain b2 where
        "produce_loop env procs b' xs (drop (length w - offset) data) 0 =
          Inr (take (length data - (length w - offset)) (concat ws),
            length (concat ws) \<le> length data - (length w - offset), b2)" "keep b2" by (auto simp: xs)
      moreover have "(length (concat ws) \<le> length data - (length w - offset)) =
          (length (concat (w # ws)) \<le> offset + length data)" using off long by auto
      ultimately show ?thesis using t off long False by (intro exI [of _ b2]) auto
    qed
  qed
qed simp_all

lemma skip_blocks_chain:
  "tx_chain env procs keep xs ws \<Longrightarrow> offset < length (concat ws) \<Longrightarrow>
   \<exists>ys vs off'. skip_blocks xs offset = Inr (ys, off') \<and> tx_chain env procs keep ys vs \<and> ys \<noteq> [] \<and> off' < length (hd vs) \<and>
     drop off' (concat vs) = drop offset (concat ws)"
proof (induction env procs keep xs ws arbitrary: offset rule: tx_chain.induct)
  case (2 env procs keep x xs w ws)
  then have s: "sends env procs keep x w (xs = [])" and ch: "tx_chain env procs keep xs ws" by simp_all
  have n: "unat (bi_full_length x) = length w" using sends_length [OF s] by simp
  show ?case
  proof (cases "length w \<le> offset")
    case True
    with "2.IH" [OF ch, of "offset - length w"] "2.prems"(2) n show ?thesis by auto
  next
    case False
    with "2.prems" n show ?thesis
      by (intro exI [of _ "x # xs"] exI [of _ "w # ws"] exI [of _ offset]) auto
  qed
qed simp_all

lemma bundle_produce_chain:
  assumes "tx_chain env procs keep xs ws" "keep b" "offset < length (concat ws)" "data \<noteq> []"
  shows "\<exists>b'. bundle_produce env procs b xs data offset =
     Inr (take (length data) (drop offset (concat ws)), length (concat ws) \<le> offset + length data, b') \<and> keep b'"
proof -
  from skip_blocks_chain [OF assms(1,3)] obtain ys vs off' where
    y: "skip_blocks xs offset = Inr (ys, off')" "tx_chain env procs keep ys vs" "ys \<noteq> []" "off' < length (hd vs)"
      "drop off' (concat vs) = drop offset (concat ws)" by blast
  obtain v vs' where v: "vs = v # vs'" using y(2,3) by (cases ys; cases vs) auto
  have "length (concat vs) - off' = length (concat ws) - offset" using arg_cong [OF y(5), of length] by simp
  then have "(length (concat vs) \<le> off' + length data) = (length (concat ws) \<le> offset + length data)"
    using y(4) assms(3) by (auto simp: v)
  with produce_loop_chain [OF y(2) assms(2) y(3,4) assms(4)] y assms(4) show ?thesis
    by (simp add: bundle_produce_def)
qed

subsection \<open>The default table\<close>

definition default_procs :: "bp_env \<Rightarrow> bproc \<Rightarrow> registry" where
  "default_procs env md = [PRIMARY_BLOCK \<mapsto> primary_processor env, PAYLOAD_BLOCK \<mapsto> payload_processor env,
     PREVIOUS_HOP_BLOCK \<mapsto> prevhop_processor env, METADATA_BLOCK \<mapsto> md, SESSION_BLOCK \<mapsto> session_processor env,
     SEQUENCE_ID_BLOCK \<mapsto> seqid_processor SEQUENCE_ID_BLOCK env,
     OBSOLETES_ID_BLOCK \<mapsto> seqid_processor OBSOLETES_ID_BLOCK env, AGE_BLOCK \<mapsto> age_processor env]"

lemma init_default_eq: "init_default_processors env md = Inr (default_procs env md)"
  by (simp add: init_default_processors_def default_procs_def register_processor_def block_types)

lemma default_processor [simp]:
  "processor env (default_procs env md) PRIMARY_BLOCK = primary_processor env"
  "processor env (default_procs env md) PAYLOAD_BLOCK = payload_processor env"
  "processor env (default_procs env md) PREVIOUS_HOP_BLOCK = prevhop_processor env"
  "processor env (default_procs env md) METADATA_BLOCK = md"
  "processor env (default_procs env md) SESSION_BLOCK = session_processor env"
  "processor env (default_procs env md) SEQUENCE_ID_BLOCK = seqid_processor SEQUENCE_ID_BLOCK env"
  "processor env (default_procs env md) OBSOLETES_ID_BLOCK = seqid_processor OBSOLETES_ID_BLOCK env"
  "processor env (default_procs env md) AGE_BLOCK = age_processor env"
  by (simp_all add: processor_def default_procs_def block_types)

lemma default_find:
  "unat t \<in> {PRIMARY_BLOCK, PAYLOAD_BLOCK, PREVIOUS_HOP_BLOCK, METADATA_BLOCK, SESSION_BLOCK, SEQUENCE_ID_BLOCK,
     OBSOLETES_ID_BLOCK} \<Longrightarrow> find_processor env (default_procs env md) t = unat t"
  "unat t = AGE_BLOCK \<Longrightarrow> find_processor env (default_procs env md) t \<in> {AGE_BLOCK, UNKNOWN_BLOCK}"
  "unat t \<notin> {PRIMARY_BLOCK, PAYLOAD_BLOCK, PREVIOUS_HOP_BLOCK, METADATA_BLOCK, SESSION_BLOCK, SEQUENCE_ID_BLOCK,
     OBSOLETES_ID_BLOCK, AGE_BLOCK} \<Longrightarrow> find_processor env (default_procs env md) t = UNKNOWN_BLOCK"
  by (auto simp: find_processor_def default_procs_def block_types Let_def)

subsection \<open>The dictionary of a bundle\<close>

definition bundle_eids :: "dtn_bundle \<Rightarrow> eid list" where
  "bundle_eids b = [b_dest b, b_source b, b_replyto b, b_custodian b]"

definition bundle_dict :: "dtn_bundle \<Rightarrow> dictionary" where
  "bundle_dict b = foldl dict_add dict_empty (eid_parts (bundle_eids b))"

lemma length_dict_add:
  assumes "dict_invar d" "0 \<notin> set s"
  shows "length (dict_buf (dict_add d s)) \<le> length (dict_buf d) + Suc (length s)"
proof -
  from assms(1) obtain ss where r: "dict_rel d ss" by (auto simp: dict_invar_def)
  have "dict_buf (dict_add d s) = dict_enc (str_add ss s)" using dict_add_rel(2) [OF r assms(2)] by (simp add: dict_rel_def)
  moreover have "dict_buf d = dict_enc ss" using r by (simp add: dict_rel_def)
  ultimately show ?thesis by (simp add: str_add_def)
qed

lemma length_dict_fold:
  "dict_invar d \<Longrightarrow> \<forall>s \<in> set ss. 0 \<notin> set s \<and> length s \<le> k \<Longrightarrow>
     length (dict_buf (foldl dict_add d ss)) \<le> length (dict_buf d) + length ss * Suc k"
proof (induction ss arbitrary: d)
  case (Cons s ss)
  then have "length (dict_buf (dict_add d s)) \<le> length (dict_buf d) + Suc k" using length_dict_add [of d s] by fastforce
  moreover have "length (dict_buf (foldl dict_add (dict_add d s) ss)) \<le> length (dict_buf (dict_add d s)) + length ss * Suc k"
    by (rule Cons.IH) (use Cons.prems in \<open>simp_all add: dict.invar_add\<close>)
  ultimately show ?case by simp
qed simp

lemma eid_ok_limits:
  assumes "eid_ok nm e"
  shows "length (eid_scheme e) \<le> 1023" "length (eid_ssp e) \<le> 1023"
  using assms eid_valid_limits [of nm "eid_scheme e @ lit '':'' @ eid_ssp e"]
  by (simp_all add: eid_ok_def eid_assign2_def MAX_EID_PART_LENGTH_def)

lemma primary_fits_bundle_dict:
  assumes "\<forall>e \<in> set (bundle_eids b). eid_ok nm e" "\<not> strncmp_eq (c_str (b_dest b)) (lit ''ipn'') 3" "b_priority b < 4"
  shows "primary_fits nm (bundle_dict b) b"
    and "dict_add_eids dict_empty (bundle_eids b) = Inr (bundle_dict b)"
proof -
  have cl: "\<forall>e \<in> set (bundle_eids b). eid_clean e" using assms(1) by auto
  have parts: "\<forall>s \<in> set (eid_parts (bundle_eids b)). 0 \<notin> set s \<and> length s \<le> 1023"
    using assms(1) eid_ok_limits cl by (fastforce simp: eid_parts_def eid_clean_def)
  show eq: "dict_add_eids dict_empty (bundle_eids b) = Inr (bundle_dict b)"
    using dict_add_eids_eq [OF dict_invar_empty cl] by (simp add: bundle_dict_def)
  have "length (eid_parts (bundle_eids b)) = 8" by (simp add: eid_parts_def bundle_eids_def)
  then have "length (dict_buf (bundle_dict b)) \<le> 8 * 1024"
    using length_dict_fold [OF dict_invar_empty parts] by (simp add: bundle_dict_def dict_empty_def)
  then have l: "length (dict_buf (bundle_dict b)) < 2 ^ 31" by simp
  have i: "dict_invar (bundle_dict b)"
    unfolding bundle_dict_def using parts by (intro dict.invar_fold) simp_all
  have "\<forall>e \<in> set (bundle_eids b). dict_knows (bundle_dict b) e"
    unfolding bundle_dict_def using dict_knows_added [OF dict_invar_empty cl] by blast
  with assms i l show "primary_fits nm (bundle_dict b) b" by (simp add: primary_fits_def bundle_eids_def)
qed

subsection \<open>Preparing and generating a local bundle\<close>

text \<open>
  A bundle created on this node, without extension blocks of its own: nothing was received,
  no application block was given, and it has neither a session nor sequence vectors. The link may
  or may not want the previous hop.
\<close>

definition plain_bundle :: "dtn_bundle \<Rightarrow> bool" where
  "plain_bundle b \<longleftrightarrow> bv_blocks (b_recv_blocks b) = [] \<and> bv_blocks (b_api_blocks b) = [] \<and>
     eid_str (b_session_eid b) = [] \<and> b_sequence_id b = [] \<and> b_obsoletes_id b = []"

definition prevhop_blocks :: "bp_env \<Rightarrow> block_info list" where
  "prevhop_blocks env = (if env_prevhop_hdr env then [block_new PREVIOUS_HOP_BLOCK None] else [])"

definition prepared :: "dictionary \<Rightarrow> block_info list \<Rightarrow> block_vec" where
  "prepared d xs = block_vec_new\<lparr>bv_dict := d, bv_blocks := block_new PRIMARY_BLOCK None # xs @ [block_new PAYLOAD_BLOCK None]\<rparr>"

lemma bi_type_new [simp]: "bi_type (block_new t s) = Inr t"
  by (simp add: bi_type_def)

lemma find_prepared:
  "xs \<in> {[], [block_new PREVIOUS_HOP_BLOCK None]} \<Longrightarrow> bv_find_block t (prepared d xs) =
     Inr (if unat t = PRIMARY_BLOCK then Some (block_new PRIMARY_BLOCK None)
          else if xs \<noteq> [] \<and> unat t = PREVIOUS_HOP_BLOCK then Some (block_new PREVIOUS_HOP_BLOCK None)
          else if unat t = PAYLOAD_BLOCK then Some (block_new PAYLOAD_BLOCK None) else None)"
  by (auto simp: bv_find_block_def prepared_def block_vec_new_def block_types)

lemma prepare_registered_append:
  "prepare_registered env procs b (is @ js) x =
     bindR (prepare_registered env procs b is x) (prepare_registered env procs b js)"
proof (induction "is" arbitrary: x)
  case (Cons i "is")
  show ?case
    by (cases "bv_find_block (of_nat i) x"; cases "bp_prepare (processor env procs (find_processor env procs (of_nat i))) b x None LIST_NONE")
      (auto simp: Let_def Cons.IH)
qed simp

lemma prepare_registered_idle:
  assumes "\<forall>i \<in> set is. find_processor env procs (of_nat i) \<noteq> UNKNOWN_BLOCK \<longrightarrow>
      (\<exists>r. bv_find_block (of_nat i) x = Inr r \<and>
        (r = None \<longrightarrow> (\<exists>ok. bp_prepare (processor env procs (find_processor env procs (of_nat i))) b x None LIST_NONE = Inr (ok, x))))"
  shows "prepare_registered env procs b is x = Inr x"
  using assms
proof (induction "is")
  case (Cons i "is")
  then have ih: "prepare_registered env procs b is x = Inr x" by simp
  show ?case using Cons.prems ih by (auto simp: Let_def)
qed simp

lemma prepare_registered_plain:
  assumes b: "plain_bundle b" and age: "\<not> env_age_outbound_enabled env"
    and md: "\<And>x. bp_prepare md b x None LIST_NONE = Inr (False, x)"
  shows "prepare_registered env (default_procs env md) b [0 ..< 256] (prepared d []) = Inr (prepared d (prevhop_blocks env))"
proof -
  have idle: "prepare_registered env (default_procs env md) b is (prepared d xs) = Inr (prepared d xs)"
    if "xs \<in> {[], [block_new PREVIOUS_HOP_BLOCK None]}" "\<forall>i \<in> set is. i < 256"
      "\<forall>i \<in> set is. i \<noteq> PREVIOUS_HOP_BLOCK \<or> xs \<noteq> [] \<or> \<not> env_prevhop_hdr env" for "is" xs
  proof (intro prepare_registered_idle ballI impI)
    fix i assume i: "i \<in> set is" and u: "find_processor env (default_procs env md) (of_nat i) \<noteq> UNKNOWN_BLOCK"
    have ui: "unat (of_nat i :: byte) = i" using that(2) i by (simp add: unat_of_nat)
    have fp: "find_processor env (default_procs env md) (of_nat i) = i"
      and t: "i \<in> {PRIMARY_BLOCK, PAYLOAD_BLOCK, PREVIOUS_HOP_BLOCK, METADATA_BLOCK, SESSION_BLOCK, SEQUENCE_ID_BLOCK,
        OBSOLETES_ID_BLOCK, AGE_BLOCK}"
      using u default_find [of "of_nat i" env md] unfolding ui by blast+
    from find_prepared [OF that(1), of "of_nat i" d] ui t that(3) i b age md show "\<exists>r. bv_find_block (of_nat i) (prepared d xs) = Inr r \<and>
        (r = None \<longrightarrow> (\<exists>ok. bp_prepare (processor env (default_procs env md) (find_processor env (default_procs env md) (of_nat i))) b
          (prepared d xs) None LIST_NONE = Inr (ok, prepared d xs)))"
      unfolding fp
      by (auto simp: prevhop_processor_def session_processor_def seqid_processor_def age_processor_def ext_processor_def
          prevhop_prepare_def session_prepare_def seqid_prepare_def age_prepare_def plain_bundle_def block_sequence_id_def)
  qed
  have split: "[0 ..< 256] = [0 ..< 5] @ [5] @ [6 ..< 256]"
    using upt_add_eq_append [of 0 5 251] upt_conv_Cons [of 5 256] by simp
  have fp: "find_processor env (default_procs env md) 5 = PREVIOUS_HOP_BLOCK"
    using default_find(1) [of 5 env md] by (simp add: block_types)
  have find: "bv_find_block 5 (prepared d []) = Inr None" and ne: "PREVIOUS_HOP_BLOCK \<noteq> UNKNOWN_BLOCK"
    using find_prepared [of "[]" 5 d] by (simp_all add: block_types)
  have five: "prepare_registered env (default_procs env md) b [5] (prepared d []) = Inr (prepared d (prevhop_blocks env))"
    using find ne
    by (simp add: fp prevhop_blocks_def prevhop_processor_def ext_processor_def prevhop_prepare_def block_prepare_def
        prepared_def)
  have "prevhop_blocks env \<in> {[], [block_new PREVIOUS_HOP_BLOCK None]}" by (simp add: prevhop_blocks_def)
  then have "prepare_registered env (default_procs env md) b [6 ..< 256] (prepared d (prevhop_blocks env)) =
      Inr (prepared d (prevhop_blocks env))" by (rule idle) (auto simp: prevhop_blocks_def)
  moreover have "prepare_registered env (default_procs env md) b [0 ..< 5] (prepared d []) = Inr (prepared d [])"
    by (rule idle) (auto simp: block_types)
  ultimately show ?thesis unfolding split prepare_registered_append using five by simp
qed

lemma prepare_blocks_plain:
  assumes b: "plain_bundle b" "\<forall>e \<in> set (bundle_eids b). eid_ok nm e" and age: "\<not> env_age_outbound_enabled env"
    and md: "\<And>x. bp_prepare md b x None LIST_NONE = Inr (False, x)"
    and hdr: "\<not> strncmp_eq (c_str (b_dest b)) (lit ''ipn'') 3" "b_priority b < 4"
  shows "prepare_blocks env (default_procs env md) md_gen b =
    Inr (Some (md_gen b (prepared (bundle_dict b) (prevhop_blocks env))))"
proof -
  have fp: "find_processor env (default_procs env md) (of_nat t) = t"
    if "t \<in> {PRIMARY_BLOCK, PAYLOAD_BLOCK, METADATA_BLOCK}" for t
    using that default_find(1) [of "of_nat t" env md] by (auto simp: block_types)
  have "prepare_primary_payload env (default_procs env md) b block_vec_new = Inr (Some (prepared (bundle_dict b) []))"
    using primary_fits_bundle_dict(2) [OF b(2) hdr]
    by (simp add: prepare_primary_payload_def fp primary_processor_def payload_processor_def primary_prepare_def
        block_vec_new_def bundle_eids_def block_prepare_def prepared_def)
  with b(1) prepare_registered_plain [OF b(1) age md] show ?thesis
    by (simp add: prepare_blocks_def plain_bundle_def fp bv_find_block_def)
qed

text \<open>The generated blocks, with the bytes they stand for.\<close>

definition prevhop_wires :: "bp_env \<Rightarrow> bytes list" where
  "prevhop_wires env =
     (if env_prevhop_hdr env then [prevhop_pre (eid_str (env_local_eid env)) @ eid_str (env_local_eid env)] else [])"

lemma prevhop_generated:
  assumes "env_prevhop_hdr env" "length (eid_str (env_local_eid env)) < 2 ^ 32 - SCRATCH_LEN"
  shows "\<exists>x. bp_generate (prevhop_processor env) b d (block_new PREVIOUS_HOP_BLOCK None) False = Inr (True, x, d) \<and>
    bi_owner x = PREVIOUS_HOP_BLOCK \<and> stored_tx x (prevhop_pre (eid_str (env_local_eid env)) @ eid_str (env_local_eid env)) \<and>
    bi_flags x = Inr prevhop_flags"
proof -
  let ?e = "eid_str (env_local_eid env)" and ?b = "block_new PREVIOUS_HOP_BLOCK None"
  let ?p = "prevhop_pre ?e"
  have lp: "length ?p + length ?e < 2 ^ 32"
    using length_plain_preamble [of "of_nat PREVIOUS_HOP_BLOCK" prevhop_flags "length ?e"] assms(2) by (simp add: SCRATCH_LEN_def)
  define x where "x = (bi_reserve (env_rsv env) (unat (of_nat (length ?p) :: u32) + length ?e)
      (?b\<lparr>bi_contents := ?p, bi_data_length := of_nat (length ?e), bi_data_offset := of_nat (length ?p)\<rparr>))
      \<lparr>bi_contents := ?p @ ?e\<rparr>"
  have g: "generate_preamble d ?b (of_nat PREVIOUS_HOP_BLOCK) prevhop_flags (of_nat (length ?e)) =
      Inr (?b\<lparr>bi_contents := ?p, bi_data_length := of_nat (length ?e), bi_data_offset := of_nat (length ?p)\<rparr>, d)"
    by (rule generate_preamble_plain) (simp_all add: SCRATCH_LEN_def)
  have x: "bi_owner x = PREVIOUS_HOP_BLOCK" "bi_contents x = ?p @ ?e" "bi_data_offset x = of_nat (length ?p)"
    "bi_data_length x = of_nat (length ?e)" by (simp_all add: x_def)
  have "bi_flags x = Inr prevhop_flags"
    by (rule bi_flags_plain(1) [OF x(2)]) (simp_all add: x(1) block_types)
  moreover have "stored_tx x (?p @ ?e)" using x full_length_plain [OF x(3,4) lp] by (simp add: stored_tx_def)
  moreover have "bp_generate (prevhop_processor env) b d ?b False = Inr (True, x, d)"
    using assms(1) g unfolding prevhop_flags_def
    by (simp add: prevhop_processor_def ext_processor_def bp_success_def prevhop_generate_def generate_with_data_def
        x_def Let_def prevhop_flags_def)
  ultimately show ?thesis using x(1) by blast
qed

lemma payload_generated:
  assumes "holds_payload data b" "length data < 2 ^ 32 - SCRATCH_LEN"
  shows "\<exists>x. bp_generate (payload_processor env) b d (block_new PAYLOAD_BLOCK None) True = Inr (True, x, d) \<and>
    bi_owner x = PAYLOAD_BLOCK \<and> payload_tx data x (payload_pre data @ data) \<and> bi_flags x = Inr BLOCK_FLAG_LAST_BLOCK"
proof -
  let ?b = "block_new PAYLOAD_BLOCK None" and ?p = "payload_pre data"
  have lp: "length ?p + length data < 2 ^ 32"
    using length_plain_preamble [of "of_nat PAYLOAD_BLOCK" BLOCK_FLAG_LAST_BLOCK "length data"] assms(2)
    by (simp add: SCRATCH_LEN_def)
  define x where "x = ?b\<lparr>bi_contents := ?p, bi_data_length := of_nat (length data), bi_data_offset := of_nat (length ?p)\<rparr>"
  have g: "generate_preamble d ?b (of_nat PAYLOAD_BLOCK) BLOCK_FLAG_LAST_BLOCK (of_nat (length data)) = Inr (x, d)"
    unfolding x_def by (rule generate_preamble_plain) (simp_all add: SCRATCH_LEN_def)
  have x: "bi_owner x = PAYLOAD_BLOCK" "bi_contents x = ?p" "bi_data_offset x = of_nat (length ?p)"
    "bi_data_length x = of_nat (length data)" by (simp_all add: x_def)
  have n: "pl_length (b_payload b) = length data" using assms(1) pl_whole_length by (auto simp: holds_payload_def)
  have "bi_flags x = Inr BLOCK_FLAG_LAST_BLOCK"
    by (rule bi_flags_plain(1) [where rest = "[]"]) (auto simp: x block_types)
  moreover have "payload_tx data x (?p @ data)"
    using x full_length_plain [OF x(3,4) lp] unat_of_nat_u32 [of "length ?p"] lp by (simp add: payload_tx_def)
  moreover have "bp_generate (payload_processor env) b d ?b True = Inr (True, x, d)"
    using g n by (simp add: payload_processor_def bp_success_def payload_generate_def)
  ultimately show ?thesis using x(1) by blast
qed

lemma finalize_ok:
  assumes "bi_flags x = Inr f" "f AND BLOCK_FLAG_REPORT_ONERROR = 0"
  shows "base_finalize b x = Inr True"
proof -
  from assms(1) obtain t where "bi_type x = Inr t" by (auto simp: bi_flags_def bindR_eq_Inr)
  with assms show ?thesis by (simp add: base_finalize_def block_finalize_def)
qed

lemma finalize_loop_ok:
  "\<forall>x \<in> set xs. bp_finalize (processor env procs (bi_owner x)) b x = Inr True \<Longrightarrow> finalize_loop env procs b xs = Inr True"
  by (induction xs) auto

lemma generate_rest_plain:
  assumes p: "holds_payload data b" "length data < 2 ^ 32 - SCRATCH_LEN"
    and l: "length (eid_str (env_local_eid env)) < 2 ^ 32 - SCRATCH_LEN"
  shows "\<exists>ys. generate_loop env (default_procs env md) b d (prevhop_blocks env @ [block_new PAYLOAD_BLOCK None]) = Inr (Some (ys, d)) \<and>
    tx_chain env (default_procs env md) (holds_payload data) ys (prevhop_wires env @ [payload_pre data @ data]) \<and>
    (\<forall>y \<in> set ys. bp_finalize (processor env (default_procs env md) (bi_owner y)) b y = Inr True)"
proof -
  let ?procs = "default_procs env md" and ?keep = "holds_payload data"
  from payload_generated [OF p] obtain y where
    y: "bp_generate (payload_processor env) b d (block_new PAYLOAD_BLOCK None) True = Inr (True, y, d)"
      "bi_owner y = PAYLOAD_BLOCK" "payload_tx data y (payload_pre data @ data)" "bi_flags y = Inr BLOCK_FLAG_LAST_BLOCK" by blast
  have gy: "generate_loop env ?procs b d [block_new PAYLOAD_BLOCK None] = Inr (Some ([y], d))"
    using y prevhop_flags_simps(4) by simp
  have sy: "sends env ?procs ?keep y (payload_pre data @ data) True"
    unfolding sends_def using y payload_sender.block_sender_axioms [of "env_io env" data] prevhop_flags_simps(4)
    by (auto simp: payload_processor_def)
  have fy: "bp_finalize (processor env ?procs (bi_owner y)) b y = Inr True"
    using finalize_ok [OF y(4)] y(2) by (simp add: payload_processor_def prevhop_flags_simps)
  show ?thesis
  proof (cases "env_prevhop_hdr env")
    case False
    with gy sy fy show ?thesis by (simp add: prevhop_blocks_def prevhop_wires_def)
  next
    case True
    from prevhop_generated [OF True l, of b d] obtain x where
      x: "bp_generate (prevhop_processor env) b d (block_new PREVIOUS_HOP_BLOCK None) False = Inr (True, x, d)"
        "bi_owner x = PREVIOUS_HOP_BLOCK" "stored_tx x (prevhop_pre (eid_str (env_local_eid env)) @ eid_str (env_local_eid env))"
        "bi_flags x = Inr prevhop_flags" by blast
    have sx: "sends env ?procs ?keep x (prevhop_pre (eid_str (env_local_eid env)) @ eid_str (env_local_eid env)) False"
      unfolding sends_def using x base_sender.block_sender_axioms [of ?keep] prevhop_flags_simps(1)
      by (auto simp: prevhop_processor_def ext_processor_def)
    have fx: "bp_finalize (processor env ?procs (bi_owner x)) b x = Inr True"
      using finalize_ok [OF x(4)] x(2) by (simp add: prevhop_processor_def ext_processor_def prevhop_flags_simps)
    from True gy x sx sy fx fy show ?thesis
      by (intro exI [of _ "[x, y]"]) (simp add: prevhop_blocks_def prevhop_wires_def prevhop_flags_simps del: generate_loop.simps(1))
  qed
qed

lemma generate_blocks_plain:
  assumes fits: "primary_fits (env_naming env) d b" and p: "holds_payload data b" "length data < 2 ^ 32 - SCRATCH_LEN"
    and l: "length (eid_str (env_local_eid env)) < 2 ^ 32 - SCRATCH_LEN"
  shows "\<exists>blocks. generate_blocks env (default_procs env md) b (prepared d (prevhop_blocks env)) =
      Inr (Some (total_length blocks, (prepared d (prevhop_blocks env))\<lparr>bv_blocks := blocks\<rparr>)) \<and>
    tx_chain env (default_procs env md) (holds_payload data) blocks
      ((primary_head d b @ primary_tail d b) # prevhop_wires env @ [payload_pre data @ data])"
proof -
  let ?procs = "default_procs env md" and ?w = "primary_head d b @ primary_tail d b"
  let ?p0 = "block_new PRIMARY_BLOCK None"
  from generate_rest_plain [OF p l, of md d] obtain ys where
    ys: "generate_loop env ?procs b d (prevhop_blocks env @ [block_new PAYLOAD_BLOCK None]) = Inr (Some (ys, d))"
      "tx_chain env ?procs (holds_payload data) ys (prevhop_wires env @ [payload_pre data @ data])"
      "\<forall>y \<in> set ys. bp_finalize (processor env ?procs (bi_owner y)) b y = Inr True" by blast
  define x where "x = (bi_reserve (env_rsv env) (length ?w) ?p0)\<lparr>bi_data_length := of_nat (length ?w), bi_contents := ?w\<rparr>"
  have x: "generate_primary (env_rsv env) d b ?p0 = Inr x" unfolding x_def by (rule generate_primary_dict [OF fits])
  have xs: "bi_owner x = PRIMARY_BLOCK" "bi_contents x = ?w" by (simp_all add: x_def)
  have xf: "bi_flags x = Inr 0" "bi_type x = Inr PRIMARY_BLOCK" using xs by (simp_all add: bi_flags_def bi_type_def)
  have lw: "length ?w < 2 ^ 32" using primary_lengths(3) [of d b] fits by (simp add: primary_fits_def)
  have xt: "stored_tx x ?w"
    using unat_of_nat_u32 [OF lw] by (simp add: stored_tx_def bi_full_length_def x_def del: of_nat_add)
  have sx: "sends env ?procs (holds_payload data) x ?w (ys = [])"
    unfolding sends_def using xs xf xt base_sender.block_sender_axioms [of "holds_payload data"] ys(2)
    by (cases ys) (auto simp: primary_processor_def prevhop_wires_def split: if_splits)
  have fx: "bp_finalize (processor env ?procs (bi_owner x)) b x = Inr True"
    using finalize_ok [OF xf(1)] xs(1) by (simp add: primary_processor_def)
  have fp: "find_processor env ?procs (of_nat PRIMARY_BLOCK) = PRIMARY_BLOCK"
    using default_find(1) [of "of_nat PRIMARY_BLOCK" env md] by (simp add: block_types)
  have g0: "bp_generate (primary_processor env) b d ?p0 False = Inr (True, ?p0, d)" "bi_flags ?p0 = Inr 0"
    by (simp_all add: primary_processor_def primary_generate_def bi_flags_def)
  let ?v = "prepared d (prevhop_blocks env)"
  have loop: "generate_loop env ?procs b d (?p0 # prevhop_blocks env @ [block_new PAYLOAD_BLOCK None]) = Inr (Some (?p0 # ys, d))"
    using g0 ys(1) by simp
  have v: "bv_dict ?v = d" "bv_blocks ?v = ?p0 # prevhop_blocks env @ [block_new PAYLOAD_BLOCK None]"
    by (simp_all add: prepared_def)
  have fin: "finalize_loop env ?procs b (rev (x # ys)) = Inr True"
    by (rule finalize_loop_ok) (use fx ys(3) in auto)
  have vd: "?v\<lparr>bv_blocks := x # ys, bv_dict := d\<rparr> = ?v\<lparr>bv_blocks := x # ys\<rparr>" by (simp add: prepared_def)
  have "generate_blocks env ?procs b ?v = Inr (Some (total_length (x # ys), ?v\<lparr>bv_blocks := x # ys\<rparr>))"
    unfolding generate_blocks_def v loop using fp x fin vd by (simp add: Let_def)
  with sx ys(2) show ?thesis by (intro exI [of _ "x # ys"]) simp
qed

subsection \<open>Receiving what was sent\<close>

definition primary_receiver :: "bp_env \<Rightarrow> dictionary \<Rightarrow> dtn_bundle \<Rightarrow> eid \<Rightarrow> receiver" where
  "primary_receiver env d orig ph = \<lparr>rc_owner = PRIMARY_BLOCK, rc_wire = primary_head d orig @ primary_tail d orig, rc_last = False,
     rc_rx = ext_rx PRIMARY_BLOCK (primary_head d orig) [] (primary_tail d orig)
       (primary_before env d orig ph) (header_done env d orig ph)\<rparr>"

definition prevhop_receiver :: "bp_env \<Rightarrow> dictionary \<Rightarrow> dtn_bundle \<Rightarrow> bytes \<Rightarrow> eid \<Rightarrow> receiver" where
  "prevhop_receiver env d orig data e = \<lparr>rc_owner = PREVIOUS_HOP_BLOCK, rc_wire = prevhop_pre data @ data, rc_last = False,
     rc_rx = ext_rx PREVIOUS_HOP_BLOCK (prevhop_pre data) [] data (prevhop_before env data d orig e) (header_done env d orig e)\<rparr>"

definition payload_receiver :: "dtn_bundle \<Rightarrow> eid \<Rightarrow> bytes \<Rightarrow> receiver" where
  "payload_receiver orig ph data = \<lparr>rc_owner = PAYLOAD_BLOCK, rc_wire = payload_pre data @ data, rc_last = True,
     rc_rx = payload_rx orig ph data\<rparr>"

lemma receives_primary: "receives env (default_procs env md) (primary_receiver env d orig ph)"
  using primary.block.block_receiver_axioms [of env d orig ph]
  by (simp add: receives_def primary_receiver_def primary_processor_def primary_consume_ext)

lemma receives_prevhop: "receives env (default_procs env md) (prevhop_receiver env d orig data e)"
  using prevhop.block.block_receiver_axioms [of env data d orig e]
  by (simp add: receives_def prevhop_receiver_def prevhop_processor_def ext_processor_def prevhop_consume_def)

lemma receives_payload: "receives env (default_procs env md) (payload_receiver orig ph data)"
  using payload.block_receiver_axioms [of env data orig ph]
  by (simp add: receives_def payload_receiver_def payload_processor_def)

lemma receivers_last [simp]:
  "rc_last (primary_receiver env d orig ph) = False" "rc_last (prevhop_receiver env d orig data e) = False"
  "rc_last (payload_receiver orig ph data) = True"
  by (simp_all add: primary_receiver_def prevhop_receiver_def payload_receiver_def)

lemma hands_over_payload:
  assumes l: "length data < 2 ^ 32 - SCRATCH_LEN"
    and r: "\<And>b blk. rc_rx r (rc_wire r) b blk \<Longrightarrow> header_done env d orig ph b"
  shows "hands_over env (default_procs env md) r (payload_receiver orig ph data)"
  using payload_rx_start [OF r l] default_find(1) [of "of_nat PAYLOAD_BLOCK" env md]
  by (auto simp: hands_over_def payload_receiver_def block_types)

lemma hands_over_prevhop:
  assumes l: "length data < 2 ^ 32 - SCRATCH_LEN" and e: "eid_assign (env_naming env) data = e" "eid_valid e"
    and r: "\<And>b blk. rc_rx r (rc_wire r) b blk \<Longrightarrow> header_done env d orig ph b"
  shows "hands_over env (default_procs env md) r (prevhop_receiver env d orig data e)"
proof -
  have w: "wire_block (env_naming env) dict_empty (prevhop_pre data) [] data"
    by (rule wire_block_plain [OF prevhop_flags_simps(2) l])
  have "prevhop_before env data d orig e b" if "rc_rx r (rc_wire r) b blk" for b blk
    using r [OF that] l e by (auto simp: prevhop_before_def header_done_def)
  moreover have "length (prevhop_pre data) + length data < 2 ^ 32" using w by (simp add: wire_block_def)
  ultimately show ?thesis
    using rx_block_new [OF w] default_find(1) [of "of_nat PREVIOUS_HOP_BLOCK" env md]
    by (auto simp: hands_over_def prevhop_receiver_def block_types ext_rx_def)
qed

lemma header_done_receivers:
  "rc_rx (primary_receiver env d orig ph) (rc_wire (primary_receiver env d orig ph)) b blk \<Longrightarrow> header_done env d orig ph b"
  "rc_rx (prevhop_receiver env d orig data e) (rc_wire (prevhop_receiver env d orig data e)) b blk \<Longrightarrow> header_done env d orig e b"
  by (simp_all add: primary_receiver_def prevhop_receiver_def ext_rx_def)

text \<open>The node that sends and the node that receives may be configured differently.\<close>

definition rx_list :: "bp_env \<Rightarrow> bp_env \<Rightarrow> dictionary \<Rightarrow> dtn_bundle \<Rightarrow> eid \<Rightarrow> bytes \<Rightarrow> receiver list" where
  "rx_list senv renv d orig ph data =
     (if env_prevhop_hdr senv
      then [primary_receiver renv d orig ph,
            prevhop_receiver renv d orig (eid_str (env_local_eid senv)) (env_local_eid senv),
            payload_receiver orig (env_local_eid senv) data]
      else [primary_receiver renv d orig ph, payload_receiver orig ph data])"

lemma chain_rx_list:
  assumes l: "length data < 2 ^ 32 - SCRATCH_LEN"
    and e: "env_prevhop_hdr senv \<Longrightarrow> length (eid_str (env_local_eid senv)) < 2 ^ 32 - SCRATCH_LEN \<and>
      eid_valid (env_local_eid senv) \<and> eid_assign (env_naming renv) (eid_str (env_local_eid senv)) = env_local_eid senv"
  shows "chain renv (default_procs renv md) (rx_list senv renv d orig ph data)"
  using receives_primary receives_prevhop receives_payload hands_over_payload [OF l header_done_receivers(1)]
    hands_over_payload [OF l header_done_receivers(2)] hands_over_prevhop [OF _ _ _ header_done_receivers(1)] e
  by (simp add: rx_list_def)

lemma rx_list_wire:
  "concat (map rc_wire (rx_list senv renv d orig ph data)) =
     concat ((primary_head d orig @ primary_tail d orig) # prevhop_wires senv @ [payload_pre data @ data])"
  by (simp add: rx_list_def prevhop_wires_def primary_receiver_def prevhop_receiver_def payload_receiver_def)

lemma receive_rx_list:
  assumes ch: "chain renv (default_procs renv md) (rx_list senv renv d orig ph data)"
    and b: "bv_blocks (b_recv_blocks b) = []" "primary_before renv d orig ph b"
    and cs: "concat cs = concat (map rc_wire (rx_list senv renv d orig ph data))" "\<forall>c \<in> set cs. c \<noteq> []"
  shows "\<exists>b'. receive_chunks 3 renv (default_procs renv md) b cs = Inr (Some (True, b')) \<and>
    same_header orig b' \<and> pl_whole (b_payload b') \<and> pl_bytes (b_payload b') = data \<and>
    b_prevhop b' = (if env_prevhop_hdr senv then env_local_eid senv else ph)"
proof -
  let ?rs = "rx_list senv renv d orig ph data" and ?procs = "default_procs renv md"
  let ?b = "recv_append PRIMARY_BLOCK b"
  have fp: "find_processor renv ?procs (of_nat PRIMARY_BLOCK) = PRIMARY_BLOCK"
    using default_find(1) [of "of_nat PRIMARY_BLOCK" renv md] by (simp add: block_types)
  have f: "primary_fits (renv_naming) d orig" if "renv_naming = env_naming renv" for renv_naming using b(2) that by (simp add: primary_before_def)
  have hd: "hd ?rs = primary_receiver renv d orig ph" by (simp add: rx_list_def)
  have w: "wire_block (env_naming renv) dict_empty (primary_head d orig) [] (primary_tail d orig)"
    by (rule wire_block_primary_dict [OF f [OF refl]])
  have "length (primary_head d orig) + length (primary_tail d orig) < 2 ^ 32" using w by (simp add: wire_block_def)
  then have at: "rx_at [] [] (hd ?rs) ?b"
    unfolding rx_at_def hd using b rx_block_new [OF w, of PRIMARY_BLOCK None]
    by (intro disjI1) (simp add: recv_append_def bv_append_block_def blocks_done_def primary_receiver_def ext_rx_def)
  have wire: "rc_wire (hd ?rs) \<noteq> []" by (simp add: hd primary_receiver_def)
  obtain c cs' where c: "cs = c # cs'" using cs(1) wire by (cases cs) (auto simp: rx_list_def split: if_splits)
  have ne: "bv_blocks (b_recv_blocks ?b) \<noteq> []" by (simp add: recv_append_def bv_append_block_def)
  have "bundle_consume 3 renv ?procs b c = bundle_consume 3 renv ?procs ?b c"
    using b(1) ne by (simp add: bundle_consume_def fp)
  then have first: "receive_chunks 3 renv ?procs b cs = receive_chunks 3 renv ?procs ?b cs" by (simp add: c)
  have len: "length ?rs \<le> 3" by (simp add: rx_list_def)
  have tc: "concat cs = to_come [] ?rs" using cs(1) by (simp add: to_come_def)
  have h: "[] = take (length []) (rc_wire (hd ?rs))" "length [] < length (rc_wire (hd ?rs))"
    "[] \<noteq> [] \<longrightarrow> find_processor renv ?procs (hd (rc_wire (hd ?rs))) = rc_owner (hd ?rs)" using wire by simp_all
  from receive_chunks_chain [OF ch at h(3,1,2) tc cs(2) len] c obtain b' where
    r: "receive_chunks 3 renv ?procs ?b cs = Inr (Some (True, b'))" "rx_end (butlast ?rs) (last ?rs) b'" by auto
  from r(2) show ?thesis
    unfolding first r(1)
    by (auto simp: rx_end_def rx_list_def payload_receiver_def payload_rx_def rx_payload_def)
qed

subsection \<open>Lemmas: progress of the receiving loop\<close>

text \<open>A processor that is given data for a new block does not return 0.\<close>

definition makes_progress ::
  "(dtn_bundle \<Rightarrow> block_info \<Rightarrow> bytes \<Rightarrow> (int \<times> dtn_bundle \<times> block_info) res) \<Rightarrow> bool"
where
  "makes_progress cons \<longleftrightarrow>
     (\<forall>b t s buf cc b' blk. buf \<noteq> [] \<longrightarrow> cons b (block_new t s) buf = Inr (cc, b', blk) \<longrightarrow> cc \<noteq> 0)"

lemma consume_preamble_fresh:
  assumes "consume_preamble rsv nm d (block_new t s) buf = Inr (cc, f, blk)" "buf \<noteq> []"
  shows "cc = - 1 \<or> 0 < cc"
proof -
  let ?xs = "take (min (length buf) 64) buf"
  show ?thesis
  proof (cases "parse_preamble nm d [] ?xs")
    case (Inl e)
    with assms(1) show ?thesis by (simp add: consume_preamble_def Let_def)
  next
    case (Inr gr)
    obtain g r where gr: "gr = (g, r)" by (cases gr)
    show ?thesis
    proof (cases r)
      case PreamblePartial
      with assms Inr gr show ?thesis by (auto simp: consume_preamble_def Let_def bindR_eq_Inr)
    next
      case PreambleOverflow
      with assms Inr gr show ?thesis by (simp add: consume_preamble_def Let_def)
    next
      case (PreambleDone es k n)
      with assms Inr gr parse_preamble_prefix(2) [of nm d ?xs g es k n] show ?thesis
        by (simp add: consume_preamble_def Let_def)
    qed
  qed
qed

lemma block_consume_fresh:
  assumes "block_consume rsv nm d (block_new t s) buf = Inr (cc, blk)" "buf \<noteq> []"
  shows "cc \<noteq> 0"
proof -
  from assms(1) obtain c f b1 where c: "consume_preamble rsv nm d (block_new t s) buf = Inr (c, f, b1)"
    by (auto simp: block_consume_def bindR_eq_Inr)
  note p = consume_preamble_fresh [OF c assms(2)]
  have "c \<le> x" if "block_consume_data rsv b2 bb c = Inr (x, b3)" for b2 bb x b3
    using that by (auto simp: block_consume_data_def bindR_eq_Inr Let_def)
  then show ?thesis
    using assms(1) c p by (fastforce simp: block_consume_def bindR_eq_Inr Let_def split: if_splits)
qed

lemma ext_consume_progress: "makes_progress (ext_consume env parse)"
proof -
  have "cc \<noteq> 0" if "buf \<noteq> []" "ext_consume env parse b (block_new t s) buf = Inr (cc, b', blk)" for b t s buf cc b' blk
    using that block_consume_fresh by (fastforce simp: ext_consume_def bindR_eq_Inr split: if_splits)
  then show ?thesis unfolding makes_progress_def by blast
qed

lemma base_consume_progress: "makes_progress (base_consume env)"
  unfolding makes_progress_def base_consume_def using block_consume_fresh by (fastforce simp: bindR_eq_Inr)

lemma less_unat_uint: "n < unat (w :: u32) \<Longrightarrow> int n \<le> uint w"
  unfolding unat_eq_nat_uint zless_nat_eq_int_zless by linarith

lemma payload_consume_progress: "makes_progress (payload_consume env)"
proof -
  have mono: "c \<le> cc" if "payload_consume_data io b blk buf c = Inr (cc, b', blk')" for io b blk buf c cc b' blk'
    using that by (auto simp: payload_consume_data_def bindR_eq_Inr Let_def dest: less_unat_uint split: if_splits)
  have "cc \<noteq> 0" if "buf \<noteq> []" "payload_consume env b (block_new t s) buf = Inr (cc, b', blk)" for b t s buf cc b' blk
  proof -
    let ?d = "bv_dict (b_recv_blocks b)"
    from that(2) obtain c f b1 where c: "consume_preamble (env_rsv env) (env_naming env) ?d (block_new t s) buf = Inr (c, f, b1)"
      by (auto simp: payload_consume_def bindR_eq_Inr)
    from consume_preamble_fresh [OF c that(1)] show ?thesis
    proof
      assume "c = - 1"
      with that(2) c show ?thesis by (simp add: payload_consume_def)
    next
      assume p: "0 < c"
      with that(2) c have "payload_consume_data (env_io env) b b1 (drop (nat c) buf) c = Inr (cc, b', blk)"
        by (auto simp: payload_consume_def bindR_eq_Inr)
      from mono [OF this] p show ?thesis by simp
    qed
  qed
  then show ?thesis unfolding makes_progress_def by blast
qed

lemma default_progress:
  assumes "bp_consume md = ext_consume env parse"
  shows "makes_progress (bp_consume (processor env (default_procs env md) t))"
proof -
  have "processor env (default_procs env md) t \<in> {primary_processor env, payload_processor env, prevhop_processor env, md,
      session_processor env, seqid_processor SEQUENCE_ID_BLOCK env, seqid_processor OBSOLETES_ID_BLOCK env,
      age_processor env, unknown_processor env}"
    by (auto simp: processor_def default_procs_def)
  then show ?thesis
    using ext_consume_progress [of env] base_consume_progress [of env] payload_consume_progress [of env] assms
    by (auto simp: primary_processor_def payload_processor_def prevhop_processor_def session_processor_def
        seqid_processor_def age_processor_def unknown_processor_def ext_processor_def primary_consume_ext
        prevhop_consume_def session_consume_def seqid_consume_def age_consume_def)
qed

lemma consume_loop_new:
  assumes pr: "\<And>t. makes_progress (bp_consume (processor env procs t))"
  shows "length data \<le> n \<Longrightarrow> bi_complete (last (bv_blocks (b_recv_blocks b))) \<Longrightarrow> consume_loop n env procs b data k \<noteq> Inr None"
proof (induction n arbitrary: b data k)
  case (Suc n)
  show ?case
  proof (cases data)
    case (Cons d ds)
    let ?t = "find_processor env procs d"
    let ?b = "recv_append ?t b"
    have l: "last (bv_blocks (b_recv_blocks ?b)) = block_new ?t None" by (simp add: recv_append_def bv_append_block_def)
    show ?thesis
    proof (cases "bp_consume (processor env procs ?t) ?b (block_new ?t None) (d # ds)")
      case (Inr r)
      obtain cc b' info where r: "r = (cc, b', info)" by (cases r)
      with Inr pr [of ?t] have "cc \<noteq> 0" unfolding makes_progress_def by blast
      then have "cc < 0 \<or> length (drop (nat cc) (d # ds)) \<le> n" using Suc.prems(1) Cons by (cases "nat cc") auto
      moreover have "bi_complete (last (bv_blocks (b_recv_blocks (recv_store front info b'))))" if "bi_complete info" for front
        using that by (simp add: recv_store_def)
      ultimately show ?thesis
        using Inr Suc.IH Suc.prems(2) by (cases "bi_flags info") (auto simp: Cons l r Let_def bindR_def assertR_def)
    qed (simp add: Cons l Let_def Suc.prems(2))
  qed simp
qed (simp)

lemma consume_loop_bound:
  assumes pr: "\<And>t. makes_progress (bp_consume (processor env procs t))" and n: "length data < n"
  shows "consume_loop n env procs b data k \<noteq> Inr None"
proof (cases "bi_complete (last (bv_blocks (b_recv_blocks b)))")
  case True
  with consume_loop_new [OF pr, of data n b k] n show ?thesis by simp
next
  case False
  obtain m where m: "n = Suc m" "length data \<le> m" using n by (cases n) auto
  show ?thesis
  proof (cases data)
    case (Cons d ds)
    let ?i = "last (bv_blocks (b_recv_blocks b))"
    show ?thesis
    proof (cases "bp_consume (processor env procs (bi_owner ?i)) b ?i (d # ds)")
      case (Inr r)
      obtain cc b' info where r: "r = (cc, b', info)" by (cases r)
      have "length (drop (nat cc) (d # ds)) \<le> m" using m Cons by simp
      then have "consume_loop m env procs (recv_store front info b') (drop (nat cc) (d # ds)) j \<noteq> Inr None"
        if "bi_complete info" for front j
        using consume_loop_new [OF pr] that by (simp add: recv_store_def)
      then show ?thesis
        using Inr False by (cases "bi_flags info"; cases m) (auto simp: Cons m r Let_def bindR_def assertR_def)
    qed (simp add: Cons m False Let_def)
  qed simp
qed

subsection \<open>Lemmas: blocks that stop a bundle\<close>

lemma prepare_received_stops:
  assumes "k < length xs" "\<not> b_fragmented_incoming b"
    and "\<And>xmit. bp_prepare (processor env procs (bi_owner (xs ! k))) b xmit (Some (RecvBlock (i + k))) LIST_RECEIVED = Inr (False, xmit)"
  shows "prepare_received env procs b RecvBlock LIST_RECEIVED i xs xmit \<noteq> Inr (Some r)"
  using assms
proof (induction xs arbitrary: i k xmit)
  case (Cons x xs)
  show ?case
  proof (cases k)
    case 0
    with Cons.prems show ?thesis by simp
  next
    case (Suc j)
    have ih: "prepare_received env procs b RecvBlock LIST_RECEIVED (Suc i) xs xmit' \<noteq> Inr (Some r)" for xmit'
      by (rule Cons.IH [of j]) (use Cons.prems Suc in simp_all)
    with Cons.prems(2) show ?thesis by (auto simp: bindR_eq_Inr split: if_splits)
  qed
qed simp

subsection \<open>Concrete values for the witnesses\<close>

definition sample_md :: "bp_env \<Rightarrow> bproc" where
  "sample_md env = ext_processor (ext_consume env (\<lambda>b blk. Inr (True, b))) (\<lambda>b x s l. Inr (False, x)) (\<lambda>b d blk l. Inl ASSERT)"

definition sample_env :: bp_env where
  "sample_env = \<lparr>env_rsv = max, env_naming = simple_naming, env_io = sample_io, env_local_eid = example_eid,
     env_prevhop_hdr = True, env_age_outbound_enabled = False, env_age_inbound_processing = False,
     env_age_zero_creation_ts_time = False, env_elapsed_ms = 0\<rparr>"

definition sample_sent :: dtn_bundle where
  "sample_sent = (example_bundle example_eid)\<lparr>b_payload := sample_payload [1, 2, 3]\<rparr>"

lemma sample_sent_plain: "plain_bundle sample_sent" "b_prevhop example_receiver = eid_default"
  by (simp_all add: plain_bundle_def sample_sent_def example_bundle_def example_receiver_def bundle_init_def
      get_current_time_def TIMEVAL_CONVERSION_def Let_def block_vec_new_def eid_default_def)

subsection \<open>Properties\<close>

text \<open>
  C1: a bundle survives transmission. A bundle created on a node with well-formed identifiers (the
  destination not an \<open>ipn\<close> one) and a payload of less than 4 GB is prepared and generated for a
  link, with or without the previous hop block the link asks for; the length reported is the
  length of the bytes it stands for; \<open>produce\<close> returns any part of these bytes on request and
  reports the end exactly when it is reached; and a receiver that is handed the bytes in any
  non-empty pieces reports the last block with the last piece, never an error, and then holds a
  bundle with the same header and payload, and the sender as its previous hop if that was sent.
  The two nodes may be configured differently. The metadata processor is assumed to prepare
  nothing when there is no metadata.
\<close>

theorem bundle_transmission:
  assumes "plain_bundle b" "\<forall>e \<in> set (bundle_eids b). eid_ok (env_naming renv) e"
    and "\<not> strncmp_eq (c_str (b_dest b)) (lit ''ipn'') 3" "b_priority b < 4"
    and "pl_whole (b_payload b)" "pl_length (b_payload b) < 2 ^ 32 - SCRATCH_LEN"
    and "env_naming senv = env_naming renv" "scratch_ok (env_rsv renv)" "\<not> env_age_outbound_enabled senv"
    and "length (eid_str (env_local_eid senv)) < 2 ^ 32 - SCRATCH_LEN" "eid_valid (env_local_eid senv)"
      "eid_assign (env_naming renv) (eid_str (env_local_eid senv)) = env_local_eid senv"
    and "\<forall>x. bp_prepare md b x None LIST_NONE = Inr (False, x) \<and> md_gen b x = x"
    and "bundle_init now bid loc = Inr r" "loc \<noteq> NODATA"
  shows "\<exists>sprocs rprocs prep sent wire.
    init_default_processors senv md = Inr sprocs \<and> init_default_processors renv md' = Inr rprocs \<and>
    prepare_blocks senv sprocs md_gen b = Inr (Some prep) \<and>
    generate_blocks senv sprocs b prep = Inr (Some (length wire, sent)) \<and>
    (\<forall>offset buf b1. offset < length wire \<longrightarrow> buf \<noteq> [] \<longrightarrow> holds_payload (pl_bytes (b_payload b)) b1 \<longrightarrow>
      (\<exists>b2. bundle_produce senv sprocs b1 (bv_blocks sent) buf offset =
           Inr (take (length buf) (drop offset wire), length wire \<le> offset + length buf, b2) \<and>
         holds_payload (pl_bytes (b_payload b)) b2)) \<and>
    (\<forall>cs. concat cs = wire \<longrightarrow> (\<forall>c \<in> set cs. c \<noteq> []) \<longrightarrow>
      (\<exists>b'. receive_chunks 3 renv rprocs r cs = Inr (Some (True, b')) \<and> same_header b b' \<and>
         pl_bytes (b_payload b') = pl_bytes (b_payload b) \<and>
         (env_prevhop_hdr senv \<longrightarrow> b_prevhop b' = env_local_eid senv)))"
proof -
  let ?data = "pl_bytes (b_payload b)" and ?d = "bundle_dict b" and ?nm = "env_naming renv"
  let ?sp = "default_procs senv md" and ?rp = "default_procs renv md'"
  let ?prep = "prepared ?d (prevhop_blocks senv)"
  let ?ws = "(primary_head ?d b @ primary_tail ?d b) # prevhop_wires senv @ [payload_pre ?data @ ?data]"
  have l: "length ?data < 2 ^ 32 - SCRATCH_LEN" using assms(5,6) pl_whole_length by auto
  have hp: "holds_payload ?data b" using assms(5) by (simp add: holds_payload_def)
  note fits = primary_fits_bundle_dict(1) [OF assms(2-4)]
  have prep: "prepare_blocks senv ?sp md_gen b = Inr (Some ?prep)"
    using prepare_blocks_plain [OF assms(1,2,9) _ assms(3,4), of md md_gen] assms(13) by simp
  from generate_blocks_plain [OF fits [folded assms(7)] hp l assms(10), of md] obtain blocks where
    g: "generate_blocks senv ?sp b ?prep = Inr (Some (total_length blocks, ?prep\<lparr>bv_blocks := blocks\<rparr>))"
      "tx_chain senv ?sp (holds_payload ?data) blocks ?ws" by blast
  note len = tx_chain_length [OF g(2)]
  have r: "bv_blocks (b_recv_blocks r) = []" "primary_before renv ?d b (b_prevhop r) r"
    using assms(8,14,15) fits pl_whole_init [OF assms(15)]
    by (auto simp: bundle_init_def bindR_eq_Inr Let_def primary_before_def receipt_requested_def block_vec_new_def payload_init_def)
  note ch = chain_rx_list [OF l, of senv renv md' ?d b "b_prevhop r", OF conjI [OF assms(10) conjI [OF assms(11,12)]]]
  let ?sent = "?prep\<lparr>bv_blocks := blocks\<rparr>"
  have gen: "generate_blocks senv ?sp b ?prep = Inr (Some (length (concat ?ws), ?sent))" using g(1) unfolding len .
  have prod: "\<exists>b2. bundle_produce senv ?sp b1 (bv_blocks ?sent) buf offset =
         Inr (take (length buf) (drop offset (concat ?ws)), length (concat ?ws) \<le> offset + length buf, b2) \<and>
       holds_payload ?data b2"
    if "offset < length (concat ?ws)" "buf \<noteq> []" "holds_payload ?data b1" for offset buf b1
    using bundle_produce_chain [OF g(2) that(3,1,2)] by simp
  have rx: "\<exists>b'. receive_chunks 3 renv ?rp r cs = Inr (Some (True, b')) \<and> same_header b b' \<and>
         pl_bytes (b_payload b') = ?data \<and> (env_prevhop_hdr senv \<longrightarrow> b_prevhop b' = env_local_eid senv)"
    if "concat cs = concat ?ws" "\<forall>c \<in> set cs. c \<noteq> []" for cs
    using receive_rx_list [OF ch r that(1) [folded rx_list_wire [of senv renv ?d b "b_prevhop r"]] that(2)] by auto
  show ?thesis
    by (rule exI [of _ ?sp], rule exI [of _ ?rp], rule exI [of _ ?prep], rule exI [of _ ?sent], rule exI [of _ "concat ?ws"],
        intro conjI init_default_eq prep gen allI impI prod rx)
qed

theorem bundle_transmission_witness:
  "\<exists>procs prep sent wire b'. init_default_processors sample_env (sample_md sample_env) = Inr procs \<and>
     prepare_blocks sample_env procs (\<lambda>_ x. x) sample_sent = Inr (Some prep) \<and>
     generate_blocks sample_env procs sample_sent prep = Inr (Some (length wire, sent)) \<and>
     receive_chunks 3 sample_env procs example_receiver [wire] = Inr (Some (True, b')) \<and>
     same_header sample_sent b' \<and> pl_bytes (b_payload b') = [1, 2, 3] \<and> b_prevhop b' = example_eid"
proof -
  let ?E = sample_env
  have e: "env_naming ?E = simple_naming" "env_rsv ?E = max" "env_local_eid ?E = example_eid" "env_prevhop_hdr ?E"
    "\<not> env_age_outbound_enabled ?E" by (simp_all add: sample_env_def)
  have b: "bundle_eids sample_sent = [example_eid, example_eid, example_eid, example_eid]" "b_priority sample_sent < 4"
    "b_dest sample_sent = example_eid" "b_payload sample_sent = sample_payload [1, 2, 3]"
    by (simp_all add: sample_sent_def example_bundle_simps bundle_eids_def)
  have pl: "pl_whole (sample_payload [1, 2, 3])" "pl_length (sample_payload [1, 2, 3]) = 3"
    "pl_bytes (sample_payload [1, 2, 3]) = [1, 2, 3]"
    by (simp_all add: sample_payload_def pl_whole_def pl_synced_def pl_bytes_def)
  have h1: "\<forall>e \<in> set (bundle_eids sample_sent). eid_ok (env_naming ?E) e" by (simp add: b e example_eid_simps)
  have h2: "\<not> strncmp_eq (c_str (b_dest sample_sent)) (lit ''ipn'') 3"
    by (simp add: b example_eid_simps c_str_def lit_def numeral_3_eq_3)
  have h3: "pl_whole (b_payload sample_sent)" "pl_length (b_payload sample_sent) < 2 ^ 32 - SCRATCH_LEN"
    "scratch_ok (env_rsv ?E)" by (simp_all add: b pl SCRATCH_LEN_def e scratch_ok_max)
  have h4: "length (eid_str (env_local_eid ?E)) < 2 ^ 32 - SCRATCH_LEN" "eid_valid (env_local_eid ?E)"
    "eid_assign (env_naming ?E) (eid_str (env_local_eid ?E)) = env_local_eid ?E"
    using example_eid_simps by (simp_all add: e SCRATCH_LEN_def lit_def example_eid_def eid_ok_def)
  have h5: "\<forall>x. bp_prepare (sample_md ?E) sample_sent x None LIST_NONE = Inr (False, x) \<and> (\<lambda>_ x. x) sample_sent x = x"
    by (simp add: sample_md_def ext_processor_def)
  have h6: "bundle_init 1000000000 8 MEMORY = Inr example_receiver"
    by (simp add: example_receiver_def bundle_init_def get_current_time_def TIMEVAL_CONVERSION_def Let_def)
  from bundle_transmission [OF sample_sent_plain(1) h1 h2 b(2) h3(1,2) refl h3(3) e(5) h4 h5 h6, of "sample_md ?E"]
  obtain sp rp prep sent wire where
    *: "init_default_processors ?E (sample_md ?E) = Inr sp" "init_default_processors ?E (sample_md ?E) = Inr rp"
      "prepare_blocks ?E sp (\<lambda>_ x. x) sample_sent = Inr (Some prep)"
      "generate_blocks ?E sp sample_sent prep = Inr (Some (length wire, sent))"
    and rx: "\<forall>cs. concat cs = wire \<longrightarrow> (\<forall>c \<in> set cs. c \<noteq> []) \<longrightarrow>
      (\<exists>b'. receive_chunks 3 ?E rp example_receiver cs = Inr (Some (True, b')) \<and> same_header sample_sent b' \<and>
         pl_bytes (b_payload b') = pl_bytes (b_payload sample_sent) \<and>
         (env_prevhop_hdr ?E \<longrightarrow> b_prevhop b' = env_local_eid ?E))" by blast
  have rp: "rp = sp" using *(1,2) by simp
  have "wire \<noteq> []" using rx [rule_format, of "[]"] by auto
  with rx [rule_format, of "[wire]"] obtain b' where
    "receive_chunks 3 ?E sp example_receiver [wire] = Inr (Some (True, b')) \<and> same_header sample_sent b' \<and>
       pl_bytes (b_payload b') = [1, 2, 3] \<and> b_prevhop b' = example_eid" unfolding rp b e pl using e(4) by fastforce
  with * show ?thesis by blast
qed

text \<open>
  C16: receiving terminates. Whatever the state of the bundle and whatever the bytes, the loop of
  \<open>consume\<close> makes at most one more turn than there are bytes: a new block always takes at least
  one of them or ends in an error. (\<open>None\<close> is the model's mark for an exhausted bound.) The
  processor of metadata blocks is one that collects its block with the generic \<open>consume\<close>.
\<close>

theorem bundle_consume_terminates:
  assumes "init_default_processors env md = Inr procs" "bp_consume md = ext_consume env parse"
  shows "bundle_consume (Suc (length data)) env procs b data \<noteq> Inr None"
proof -
  have "procs = default_procs env md" using assms(1) init_default_eq by simp
  with consume_loop_bound [OF default_progress [OF assms(2)], of data "Suc (length data)"] show ?thesis
    by (simp add: bundle_consume_def Let_def)
qed

theorem bundle_consume_terminates_witness:
  "\<exists>procs. init_default_processors sample_env (sample_md sample_env) = Inr procs \<and>
     bundle_consume 4 sample_env procs example_receiver [6, 0, 0] \<noteq> Inr None"
proof -
  have md: "bp_consume (sample_md sample_env) = ext_consume sample_env (\<lambda>b blk. Inr (True, b))"
    by (simp add: sample_md_def ext_processor_def)
  from bundle_consume_terminates [OF init_default_eq md, of "[6, 0, 0]" example_receiver] show ?thesis
    using init_default_eq by (auto simp: eval_nat_numeral)
qed

text \<open>
  One block can stop a bundle. A received bundle that carries a block of unknown type marked to
  be discarded when it cannot be processed, a previous hop block when the outgoing link does not
  want one, or an age block when ages are not sent (the default), is never prepared for
  transmission: the block is not left out, as its flags or the configuration ask, but the
  preparation of the whole bundle fails.
\<close>

theorem block_stops_forwarding:
  assumes "init_default_processors env md = Inr procs" "\<not> b_fragmented_incoming b"
    and "k < length (bv_blocks (b_recv_blocks b))" "x = bv_blocks (b_recv_blocks b) ! k"
    and "bi_owner x = UNKNOWN_BLOCK \<and> bi_flags x = Inr f \<and> f AND BLOCK_FLAG_DISCARD_BLOCK_ONERROR \<noteq> 0 \<or>
      bi_owner x = PREVIOUS_HOP_BLOCK \<and> \<not> env_prevhop_hdr env \<or>
      bi_owner x = AGE_BLOCK \<and> \<not> env_age_outbound_enabled env"
  shows "prepare_blocks env procs md_gen b \<noteq> Inr (Some xmit)"
proof -
  let ?xs = "bv_blocks (b_recv_blocks b)"
  have p: "procs = default_procs env md" using assms(1) init_default_eq by simp
  have un: "processor env (default_procs env md) UNKNOWN_BLOCK = unknown_processor env"
    by (simp add: processor_def default_procs_def block_types)
  have "bp_prepare (processor env procs (bi_owner (?xs ! k))) b v (Some (RecvBlock (0 + k))) LIST_RECEIVED = Inr (False, v)" for v
    using assms(5) unfolding assms(4) p
    by (elim disjE conjE)
      (simp_all add: un unknown_processor_def prevhop_processor_def age_processor_def ext_processor_def
        unknown_prepare_def prevhop_prepare_def age_prepare_def deref_block_def assms(3))
  from prepare_received_stops [OF assms(3,2) this] assms(3) show ?thesis
    by (cases ?xs) (auto simp: prepare_blocks_def bindR_eq_Inr simp del: prepare_received.simps split: option.splits)
qed

theorem block_stops_forwarding_witness:
  "\<exists>procs. init_default_processors sample_env (sample_md sample_env) = Inr procs \<and>
     (\<forall>xmit. prepare_blocks sample_env procs (\<lambda>_ x. x)
       (example_receiver\<lparr>b_recv_blocks := block_vec_new\<lparr>bv_blocks :=
          [block_new PRIMARY_BLOCK None, (block_new UNKNOWN_BLOCK None)\<lparr>bi_contents := [200, 16, 0]\<rparr>,
           (block_new PAYLOAD_BLOCK None)\<lparr>bi_contents := [1, 8, 0]\<rparr>]\<rparr>\<rparr>) \<noteq> Inr (Some xmit))"
proof -
  let ?x = "(block_new UNKNOWN_BLOCK None)\<lparr>bi_contents := [200, 16, 0]\<rparr>"
  let ?b = "example_receiver\<lparr>b_recv_blocks := block_vec_new\<lparr>bv_blocks :=
    [block_new PRIMARY_BLOCK None, ?x, (block_new PAYLOAD_BLOCK None)\<lparr>bi_contents := [1, 8, 0]\<rparr>]\<rparr>\<rparr>"
  have s: "sdnv_bytes 16 = [16]" by (simp add: sdnv_bytes_def sdnv_fill.simps)
  have "bi_flags ?x = Inr 16"
    by (rule bi_flags_preamble [where t = 200 and c = 200 and rest = "[0]"])
      (simp_all add: bi_type_def block_types s)
  then have x: "bi_owner ?x = UNKNOWN_BLOCK \<and> bi_flags ?x = Inr 16 \<and> 16 AND BLOCK_FLAG_DISCARD_BLOCK_ONERROR \<noteq> 0 \<or>
      bi_owner ?x = PREVIOUS_HOP_BLOCK \<and> \<not> env_prevhop_hdr sample_env \<or>
      bi_owner ?x = AGE_BLOCK \<and> \<not> env_age_outbound_enabled sample_env"
    by (simp add: block_flag_defs)
  have f: "\<not> b_fragmented_incoming ?b"
    by (simp add: example_receiver_def bundle_init_def get_current_time_def TIMEVAL_CONVERSION_def Let_def)
  have k: "1 < length (bv_blocks (b_recv_blocks ?b))" "?x = bv_blocks (b_recv_blocks ?b) ! 1" by simp_all
  show ?thesis
    using block_stops_forwarding [OF init_default_eq f k x] init_default_eq by blast
qed

text \<open>
  A short administrative record stops the daemon. \<open>get_admin_type\<close> reads 16 bytes of the payload
  of an administrative bundle without looking at its length, and the payload's own assertion
  fails when it is shorter.
\<close>

theorem admin_type_short_asserts:
  "b_is_admin b \<Longrightarrow> pl_length (b_payload b) < 16 \<Longrightarrow> get_admin_type io b = Inl ASSERT"
  by (simp add: get_admin_type_def pl_read_data_def)

theorem admin_type_short_asserts_witness:
  "get_admin_type sample_io (sample_sent\<lparr>b_is_admin := True\<rparr>) = Inl ASSERT"
  by (rule admin_type_short_asserts) (simp_all add: sample_sent_def sample_payload_def)

end
