(* ===== verification/Validation.thy ===== *)
theory Validation
  imports Transmission
begin

text \<open>
  What \<open>BundleProtocol::validate\<close> accepts: the loop over the received blocks, and the shape of the block
  list it leaves behind.
\<close>

subsection \<open>Lemmas: what validation accepts\<close>

definition count_type :: "nat \<Rightarrow> block_info list \<Rightarrow> nat" where
  "count_type t xs = length (filter (\<lambda>x. bi_type x = Inr t) xs)"

text \<open>A block that passed the checks on its own: preamble complete, accepted by its processor.\<close>

definition block_accepted :: "bp_env \<Rightarrow> registry \<Rightarrow> dtn_bundle \<Rightarrow> block_info \<Rightarrow> bool" where
  "block_accepted env procs b x \<longleftrightarrow>
     bi_data_offset x \<noteq> 0 \<and> (\<exists>rs rs'. bp_validate (processor env procs (bi_owner x)) b x rs = Inr (True, rs'))"

definition accepted_shape :: "bp_env \<Rightarrow> registry \<Rightarrow> dtn_bundle \<Rightarrow> block_info list \<Rightarrow> bool" where
  "accepted_shape env procs b ys \<longleftrightarrow>
     ys \<noteq> [] \<and> (\<forall>y \<in> set ys. block_accepted env procs b y) \<and>
     (\<forall>y \<in> set (butlast ys). bi_last_block y = Inr False) \<and>
     (bi_last_block (last ys) = Inr True \<or> bi_last_block (last ys) = Inr False \<and> b_fragmented_incoming b)"

lemma validate_block_True:
  assumes "validate_block env procs b x l rs = Inr (True, rs')"
  shows "\<exists>rs''. bp_validate (processor env procs (bi_owner x)) b x rs = Inr (True, rs'')"
    "\<not> l \<Longrightarrow> bi_last_block x = Inr False"
    "l \<Longrightarrow> bi_last_block x = Inr True \<or> bi_last_block x = Inr False \<and> b_fragmented_incoming b"
  using assms by (auto simp: validate_block_def bindR_eq_Inr split: if_splits)

lemma validate_loop_shape:
  assumes "validate_loop env procs b passed xs prim pay rs = Inr (True, rs', ys, p, q)" "xs \<noteq> []"
    and "\<forall>y \<in> set passed. block_accepted env procs b y \<and> bi_last_block y = Inr False"
  shows "accepted_shape env procs b ys \<and> (ys = passed @ xs \<or> ys = passed @ butlast xs \<and> 2 \<le> length ys) \<and>
    p = prim + count_type PRIMARY_BLOCK (drop (length passed) ys) \<and> q = pay + count_type PAYLOAD_BLOCK (drop (length passed) ys)"
  using assms
proof (induction xs arbitrary: passed prim pay rs)
  case (Cons x xs)
  show ?case
  proof (cases "bi_data_offset x = 0")
    case True
    with Cons.prems(1) have xs: "xs = []" "2 \<le> length passed"
      and v: "validate_block env procs b (last passed) True rs = Inr (True, rs')" "ys = passed" "p = prim" "q = pay"
      by (auto simp: bindR_eq_Inr Let_def not_less split: if_splits)
    have ne: "passed \<noteq> []" using xs(2) by auto
    with Cons.prems(3) validate_block_True(3) [OF v(1)] v xs show ?thesis
      by (auto simp: accepted_shape_def count_type_def dest: in_set_butlastD)
  next
    case False
    with Cons.prems(1) obtain t rs1 where t: "bi_type x = Inr t"
      and v: "validate_block env procs b x (xs = []) rs = Inr (True, rs1)"
      and loop: "validate_loop env procs b (passed @ [x]) xs (if t = PRIMARY_BLOCK then Suc prim else prim)
        (if t = PAYLOAD_BLOCK then Suc pay else pay) rs1 = Inr (True, rs', ys, p, q)"
      by (auto simp: bindR_eq_Inr Let_def split: if_splits)
    have acc: "block_accepted env procs b x" using validate_block_True(1) [OF v] False by (auto simp: block_accepted_def)
    show ?thesis
    proof (cases "xs = []")
      case True
      with loop have y: "ys = passed @ [x]" "p = (if t = PRIMARY_BLOCK then Suc prim else prim)"
        "q = (if t = PAYLOAD_BLOCK then Suc pay else pay)" by auto
      with Cons.prems(3) acc validate_block_True(3) [OF v] True t show ?thesis
        by (auto simp: accepted_shape_def count_type_def)
    next
      case nonempty: False
      from Cons.IH [OF loop nonempty] Cons.prems(3) acc validate_block_True(2) [OF v] nonempty
      have ih: "accepted_shape env procs b ys" "ys = (passed @ [x]) @ xs \<or> ys = (passed @ [x]) @ butlast xs \<and> 2 \<le> length ys"
        "p = (if t = PRIMARY_BLOCK then Suc prim else prim) + count_type PRIMARY_BLOCK (drop (length (passed @ [x])) ys)"
        "q = (if t = PAYLOAD_BLOCK then Suc pay else pay) + count_type PAYLOAD_BLOCK (drop (length (passed @ [x])) ys)"
        by auto
      from ih(2) have "drop (length passed) ys = x # drop (length (passed @ [x])) ys" by auto
      with ih t nonempty show ?thesis by (auto simp: count_type_def)
    qed
  qed
qed simp

subsection \<open>Concrete values for the witnesses\<close>

definition sample_received :: dtn_bundle where
  "sample_received = sample_sent\<lparr>b_recv_blocks := block_vec_new\<lparr>bv_blocks :=
     [(block_new PRIMARY_BLOCK None)\<lparr>bi_contents := [6, 0, 0], bi_data_offset := 3, bi_complete := True\<rparr>,
      (block_new PAYLOAD_BLOCK None)\<lparr>bi_contents := [1, 8, 3], bi_data_offset := 3, bi_data_length := 3, bi_complete := True\<rparr>]\<rparr>\<rparr>"

subsection \<open>Properties\<close>

text \<open>
  C17: the shape of an accepted bundle. When \<open>validate\<close> accepts a received bundle, the blocks it
  leaves are all received blocks or all but a final one whose preamble never arrived; there are
  at least two; every one has a complete preamble and was accepted by its processor; the first
  is the primary block and the only one of that type; at most one is a payload block; no block
  but the last is flagged as the last, and the last one is, unless the bundle is a fragment cut
  off during reception. Nothing else of the bundle is changed.
\<close>

theorem bundle_validate_shape:
  assumes "bundle_validate env procs b rs = Inr (True, rs', b')"
  shows "\<exists>ys. b' = b\<lparr>b_recv_blocks := (b_recv_blocks b)\<lparr>bv_blocks := ys\<rparr>\<rparr> \<and>
    (ys = bv_blocks (b_recv_blocks b) \<or> ys = butlast (bv_blocks (b_recv_blocks b))) \<and>
    2 \<le> length ys \<and> bi_type (hd ys) = Inr PRIMARY_BLOCK \<and>
    count_type PRIMARY_BLOCK ys = 1 \<and> count_type PAYLOAD_BLOCK ys \<le> 1 \<and> accepted_shape env procs b ys"
proof -
  obtain x y zs where xs: "bv_blocks (b_recv_blocks b) = x # y # zs" and t: "bi_type x = Inr PRIMARY_BLOCK"
    using assms by (auto simp: bundle_validate_def bindR_eq_Inr Let_def split: list.splits if_splits)
  then obtain ys p q where
    v: "validate_loop env procs b [] (x # y # zs) 0 0 rs = Inr (True, rs', ys, p, q)" "p = 1" "q \<le> 1"
      "b' = b\<lparr>b_recv_blocks := (b_recv_blocks b)\<lparr>bv_blocks := ys\<rparr>\<rparr>"
    using assms by (auto simp: bundle_validate_def bindR_eq_Inr Let_def simp del: validate_loop.simps split: if_splits)
  from validate_loop_shape [OF v(1)] v have
    s: "accepted_shape env procs b ys" "ys = x # y # zs \<or> ys = butlast (x # y # zs) \<and> 2 \<le> length ys"
      "count_type PRIMARY_BLOCK ys = 1" "count_type PAYLOAD_BLOCK ys \<le> 1" by auto
  have "2 \<le> length ys" using s(2) by auto
  then have "bi_type (hd ys) = Inr PRIMARY_BLOCK" using s(2) t by auto
  with s v xs show ?thesis using \<open>2 \<le> length ys\<close> by auto
qed

theorem bundle_validate_shape_witness:
  "\<exists>ys. bundle_validate sample_env (default_procs sample_env (sample_md sample_env)) sample_received
      \<lparr>reception_reason = 0, deletion_reason = 0\<rparr> =
      Inr (True, \<lparr>reception_reason = 0, deletion_reason = 0\<rparr>,
        sample_received\<lparr>b_recv_blocks := (b_recv_blocks sample_received)\<lparr>bv_blocks := ys\<rparr>\<rparr>) \<and>
    2 \<le> length ys \<and> count_type PAYLOAD_BLOCK ys \<le> 1"
proof -
  let ?procs = "default_procs sample_env (sample_md sample_env)" and ?b = sample_received
  let ?rs = "\<lparr>reception_reason = 0, deletion_reason = 0\<rparr> :: reasons"
  let ?p = "(block_new PRIMARY_BLOCK None)\<lparr>bi_contents := [6, 0, 0], bi_data_offset := 3, bi_complete := True\<rparr>"
  let ?q = "(block_new PAYLOAD_BLOCK None)\<lparr>bi_contents := [1, 8, 3], bi_data_offset := 3, bi_data_length := 3, bi_complete := True\<rparr>"
  have s: "sdnv_bytes 8 = [8]" by (simp add: sdnv_bytes_def sdnv_fill.simps)
  have ty: "bi_type ?p = Inr PRIMARY_BLOCK" "bi_type ?q = Inr PAYLOAD_BLOCK" by (simp_all add: bi_type_def block_types)
  have fp: "bi_flags ?p = Inr 0" using ty(1) by (simp add: bi_flags_def)
  have fq: "bi_flags ?q = Inr 8"
    by (rule bi_flags_preamble [OF ty(2), of 1 8 "[3]"]) (simp_all add: block_types s)
  have hdr: "b_source ?b = example_eid" "b_dest ?b = example_eid" "b_replyto ?b = example_eid" "b_custodian ?b = example_eid"
    "\<not> b_is_admin ?b" "\<not> b_fragmented_incoming ?b" "b_is_fragment ?b"
    by (simp_all add: sample_received_def sample_sent_def example_bundle_def bundle_init_def get_current_time_def
        TIMEVAL_CONVERSION_def Let_def)
  have v: "primary_validate simple_naming ?b"
    using example_eid_simps hdr
    by (simp add: primary_validate_def eid_ok_def eid_equals_def NULL_EID_def eid_assign_def simple_naming_def
        simple_parse_def Let_def lit_def)
  have nm: "env_naming sample_env = simple_naming" by (simp add: sample_env_def)
  have bl: "bv_blocks (b_recv_blocks ?b) = [?p, ?q]" by (simp add: sample_received_def)
  have off: "(3 :: u32) \<noteq> 0" by simp
  have "bundle_validate sample_env ?procs ?b ?rs =
      Inr (True, ?rs, ?b\<lparr>b_recv_blocks := (b_recv_blocks ?b)\<lparr>bv_blocks := [?p, ?q]\<rparr>\<rparr>)"
    unfolding bundle_validate_def bl
    by (simp add: ty fp fq hdr v nm validate_block_def primary_processor_def payload_processor_def payload_validate_def
        base_validate_def block_validate_def bi_last_block_def BLOCK_FLAG_LAST_BLOCK_def) (simp add: block_types)
  from bundle_validate_shape [OF this] this show ?thesis by auto
qed

end
