(* ===== verification/AdminRecords.thy ===== *)
theory AdminRecords
  imports BundleProtocol
begin

text \<open>
  Administrative records: \<open>servlib/bundling/BundleStatusReport.cc\<close> and \<open>CustodySignal.cc\<close>. Each has
  a function that fills in a new bundle with a report about another one, and a function that
  parses the payload of such a bundle. The clock reading is an argument.
\<close>

subsection \<open>Common fields\<close>

definition ADMIN_IS_FRAGMENT :: byte where "ADMIN_IS_FRAGMENT = 1"

text \<open>
  Both records are written in two passes, first their length and then the fields into a buffer of
  that length. \<open>adm_sdnv\<close> and \<open>adm_timestamp\<close> are one field of the second pass, with the assertion
  that follows it; the state is what has been written and the room that is left.
\<close>

definition adm_sdnv :: "u64 \<Rightarrow> bytes \<times> nat \<Rightarrow> (bytes \<times> nat) res" where
  "adm_sdnv v w =
     (case sdnv_encode v (snd w) of
        None \<Rightarrow> Inl ASSERT
      | Some bs \<Rightarrow> Inr (fst w @ bs, snd w - length bs))"

definition adm_timestamp :: "timestamp \<Rightarrow> bytes \<times> nat \<Rightarrow> (bytes \<times> nat) res" where
  "adm_timestamp tv w =
     (case set_timestamp (snd w) tv of
        None \<Rightarrow> Inl ASSERT
      | Some bs \<Rightarrow> Inr (fst w @ bs, snd w - length bs))"

definition adm_byte :: "byte \<Rightarrow> bytes \<times> nat \<Rightarrow> bytes \<times> nat" where
  "adm_byte c w = (fst w @ [c], snd w - 1)"

definition adm_fragment_len :: "dtn_bundle \<Rightarrow> nat res" where
  "adm_fragment_len orig =
     (if b_is_fragment orig
      then bindR (sdnv_encoding_len (ucast (b_frag_offset orig))) (\<lambda>m.
           bindR (sdnv_encoding_len (ucast (b_orig_length orig))) (\<lambda>n. Inr (m + n)))
      else Inr 0)"

definition adm_fragment :: "dtn_bundle \<Rightarrow> bytes \<times> nat \<Rightarrow> (bytes \<times> nat) res" where
  "adm_fragment orig w =
     (if b_is_fragment orig
      then bindR (adm_sdnv (ucast (b_frag_offset orig)) w) (adm_sdnv (ucast (b_orig_length orig)))
      else Inr w)"

text \<open>Reading: a field and the rest of the buffer, or \<open>None\<close> where the code returns false.\<close>

definition rd_sdnv :: "bytes \<Rightarrow> (u64 \<times> bytes) option" where
  "rd_sdnv bp = (case sdnv_decode bp of (_, None) \<Rightarrow> None | (v, Some n) \<Rightarrow> Some (v, drop n bp))"

definition rd_timestamp :: "bytes \<Rightarrow> (timestamp \<times> bytes) option" where
  "rd_timestamp bp =
     (case get_timestamp (Timestamp 0 0) bp of (_, None) \<Rightarrow> None | (tv, Some n) \<Rightarrow> Some (tv, drop n bp))"

definition rd_fragment :: "bool \<Rightarrow> u64 \<times> u64 \<Rightarrow> bytes \<Rightarrow> ((u64 \<times> u64) \<times> bytes) option" where
  "rd_fragment frag old bp =
     (if frag
      then Option.bind (rd_sdnv bp) (\<lambda>(off, bp). map_option (\<lambda>(len, bp). ((off, len), bp)) (rd_sdnv bp))
      else Some (old, bp))"

subsection \<open>Status reports\<close>

definition SR_RECEIVED :: byte where "SR_RECEIVED = 0x01"
definition SR_CUSTODY_ACCEPTED :: byte where "SR_CUSTODY_ACCEPTED = 0x02"
definition SR_FORWARDED :: byte where "SR_FORWARDED = 0x04"
definition SR_DELIVERED :: byte where "SR_DELIVERED = 0x08"
definition SR_DELETED :: byte where "SR_DELETED = 0x10"
definition SR_ACKED_BY_APP :: byte where "SR_ACKED_BY_APP = 0x20"

lemmas sr_flags =
  SR_RECEIVED_def SR_CUSTODY_ACCEPTED_def SR_FORWARDED_def SR_DELIVERED_def SR_DELETED_def SR_ACKED_BY_APP_def

record status_report =
  sr_admin_type :: byte
  sr_admin_flags :: byte
  sr_status_flags :: byte
  sr_reason_code :: byte
  sr_orig_frag_offset :: u64
  sr_orig_frag_length :: u64
  sr_receipt_tv :: timestamp
  sr_custody_tv :: timestamp
  sr_forwarding_tv :: timestamp
  sr_delivery_tv :: timestamp
  sr_deletion_tv :: timestamp
  sr_ack_by_app_tv :: timestamp
  sr_orig_creation_tv :: timestamp
  sr_orig_source_eid :: eid

definition adm_first_byte :: "byte \<Rightarrow> dtn_bundle \<Rightarrow> byte" where
  "adm_first_byte t orig = (if b_is_fragment orig then push_bit 4 t OR ADMIN_IS_FRAGMENT else push_bit 4 t)"

definition status_report_payload :: "u32 \<Rightarrow> dtn_bundle \<Rightarrow> byte \<Rightarrow> byte \<Rightarrow> bytes res" where
  "status_report_payload current orig status_flags reason =
     (let orig_source = eid_str (b_source orig);
          now = Timestamp (ucast current) 0
      in
      bindR (adm_fragment_len orig) (\<lambda>frag_len.
      bindR (ts_encoding_len now) (\<lambda>now_len.
      bindR (ts_encoding_len (b_creation_ts orig)) (\<lambda>creation_len.
      bindR (sdnv_encoding_len (of_nat (length orig_source))) (\<lambda>eid_len.
        let report_length = 1 + 1 + 1 + frag_len + now_len + creation_len + (eid_len + length orig_source);
            w = adm_byte reason (adm_byte status_flags (adm_byte (adm_first_byte 1 orig) ([], report_length)))
        in
        bindR (adm_fragment orig w) (\<lambda>w.
        bindR (adm_timestamp now w) (\<lambda>w.
        bindR (adm_timestamp (b_creation_ts orig) w) (\<lambda>w.
        bindR (adm_sdnv (of_nat (length orig_source)) w) (\<lambda>w.
        bindR (assertR (snd w = length orig_source)) (\<lambda>_.
          Inr (fst w @ orig_source)))))))))))"

definition create_status_report ::
  "naming \<Rightarrow> u64 \<Rightarrow> payload_io \<Rightarrow> dtn_bundle \<Rightarrow> dtn_bundle \<Rightarrow> eid \<Rightarrow> byte \<Rightarrow> byte \<Rightarrow> dtn_bundle res"
where
  "create_status_report nm tv_sec io bundle orig source status_flags reason =
     (let bundle = bundle\<lparr>b_source := source,
            b_dest := (if eid_equals (b_replyto orig) (NULL_EID nm) then b_source orig else b_replyto orig),
            b_replyto := NULL_EID nm, b_custodian := NULL_EID nm, b_is_admin := True,
            b_expiration := b_expiration orig\<rparr>
      in
      bindR (get_current_time tv_sec) (\<lambda>current.
      bindR (status_report_payload current orig status_flags reason) (\<lambda>report.
      bindR (pl_set_data io report (b_payload bundle)) (\<lambda>p. Inr (bundle\<lparr>b_payload := p\<rparr>)))))"

text \<open>One of the six optional timestamps.\<close>

definition rd_optional_ts :: "bool \<Rightarrow> bytes \<Rightarrow> (timestamp \<times> bytes) option" where
  "rd_optional_ts present bp = (if present then rd_timestamp bp else Some (Timestamp 0 0, bp))"

fun rd_optional_all :: "byte \<Rightarrow> byte list \<Rightarrow> bytes \<Rightarrow> (timestamp list \<times> bytes) option" where
  "rd_optional_all flags [] bp = Some ([], bp)"
| "rd_optional_all flags (f # fs) bp =
     Option.bind (rd_optional_ts (flags AND f \<noteq> 0) bp) (\<lambda>(tv, bp).
       map_option (\<lambda>(tvs, bp). (tv # tvs, bp)) (rd_optional_all flags fs bp))"

text \<open>
  The result is the filled structure, or \<open>None\<close> when parsing fails; \<open>data\<close> is the structure before
  the call, whose fragment fields are kept when the record has none.
\<close>

definition parse_status_report :: "naming \<Rightarrow> status_report \<Rightarrow> bytes \<Rightarrow> status_report option" where
  "parse_status_report nm data bp =
     (case bp of
        c # status # reason # bp \<Rightarrow>
          if drop_bit 4 c \<noteq> 1 then None
          else
            Option.bind (rd_fragment (c AND 0xf AND ADMIN_IS_FRAGMENT \<noteq> 0)
                           (sr_orig_frag_offset data, sr_orig_frag_length data) bp) (\<lambda>(frag, bp).
            Option.bind (rd_optional_all status
                           [SR_RECEIVED, SR_CUSTODY_ACCEPTED, SR_FORWARDED, SR_DELIVERED, SR_DELETED, SR_ACKED_BY_APP] bp)
              (\<lambda>(tvs, bp).
            Option.bind (rd_timestamp bp) (\<lambda>(creation, bp).
            Option.bind (rd_sdnv bp) (\<lambda>(EID_len, bp).
              if length bp \<noteq> unat EID_len then None
              else
                let e = eid_assign nm bp
                in if \<not> eid_valid e then None
                   else Some \<lparr>sr_admin_type = drop_bit 4 c, sr_admin_flags = c AND 0xf, sr_status_flags = status,
                     sr_reason_code = reason, sr_orig_frag_offset = fst frag, sr_orig_frag_length = snd frag,
                     sr_receipt_tv = tvs ! 0, sr_custody_tv = tvs ! 1, sr_forwarding_tv = tvs ! 2,
                     sr_delivery_tv = tvs ! 3, sr_deletion_tv = tvs ! 4, sr_ack_by_app_tv = tvs ! 5,
                     sr_orig_creation_tv = creation, sr_orig_source_eid = e\<rparr>))))
      | _ \<Rightarrow> None)"

definition parse_status_report_bundle ::
  "naming \<Rightarrow> payload_io \<Rightarrow> status_report \<Rightarrow> dtn_bundle \<Rightarrow> (status_report option \<times> dtn_bundle) res"
where
  "parse_status_report_bundle nm io data b =
     bindR (get_admin_type io b) (\<lambda>(t, b).
       if t \<noteq> Some ADMIN_STATUS_REPORT then Inr (None, b)
       else
         let payload_len = pl_length (b_payload b)
         in if payload_len > 16384 then Inr (None, b)
            else
              bindR (pl_read_data io 0 (replicate payload_len (io_junk io)) (b_payload b)) (\<lambda>(bp, p).
                Inr (parse_status_report nm data bp, b\<lparr>b_payload := p\<rparr>)))"

subsection \<open>Custody signals\<close>

record custody_signal =
  cs_admin_type :: byte
  cs_admin_flags :: byte
  cs_succeeded :: bool
  cs_reason :: byte
  cs_orig_frag_offset :: u64
  cs_orig_frag_length :: u64
  cs_custody_signal_tv :: timestamp
  cs_orig_creation_tv :: timestamp
  cs_orig_source_eid :: eid

text \<open>
  \<open>sscanf\<close> with the formats \<open>ipn://%llu/%llu\<close> and \<open>ipn:%llu.%llu\<close>: both numbers, when it returns 2.
\<close>

definition scan_two :: "bytes \<Rightarrow> byte \<Rightarrow> bytes \<Rightarrow> (u64 \<times> u64) option" where
  "scan_two prefix sep s =
     (if take (length prefix) s \<noteq> prefix then None
      else case scan_u64 (drop (length prefix) s) of
        Some (a, c # rest) \<Rightarrow> if c = sep then map_option (\<lambda>(b, _). (a, b)) (scan_u64 rest) else None
      | _ \<Rightarrow> None)"

definition ipn_dot :: "u64 \<Rightarrow> u64 \<Rightarrow> bytes" where
  "ipn_dot a b = lit ''ipn:'' @ dec (unat a) @ lit ''.'' @ dec (unat b)"

definition ipn_slash :: "u64 \<Rightarrow> u64 \<Rightarrow> bytes" where
  "ipn_slash a b = lit ''ipn://'' @ dec (unat a) @ lit ''/'' @ dec (unat b)"

text \<open>
  The source is written in the form \<open>ipn:a.b\<close> when it has the form \<open>ipn://a/b\<close>. Two bytes less are
  then reserved, by a test on the first three letters alone; the final copy takes as many bytes
  as are left from an 80-byte buffer, of which those after the terminating NUL were never
  written (\<open>io_junk\<close>).
\<close>

definition custody_signal_payload :: "payload_io \<Rightarrow> u32 \<Rightarrow> dtn_bundle \<Rightarrow> bool \<Rightarrow> byte \<Rightarrow> bytes res" where
  "custody_signal_payload io current orig succeeded reason =
     (let source = eid_str (b_source orig);
          now = Timestamp (ucast current) 0;
          ipn = (if strncmp_eq (c_str (b_source orig)) (lit ''ipn'') 3 then 2 else 0)
      in
      bindR (adm_fragment_len orig) (\<lambda>frag_len.
      bindR (ts_encoding_len now) (\<lambda>now_len.
      bindR (ts_encoding_len (b_creation_ts orig)) (\<lambda>creation_len.
      bindR (sdnv_encoding_len (of_nat (length source) - of_nat ipn)) (\<lambda>eid_len.
        let signal_len = 1 + 1 + frag_len + now_len + creation_len + (eid_len + length source - ipn);
            w = adm_byte (push_bit 7 (of_bool succeeded) OR (reason AND 0x7f))
                  (adm_byte (adm_first_byte 2 orig) ([], signal_len))
        in
        bindR (adm_fragment orig w) (\<lambda>w.
        bindR (adm_timestamp now w) (\<lambda>w.
        bindR (adm_timestamp (b_creation_ts orig) w) (\<lambda>w.
          case scan_two (lit ''ipn://'') 0x2f (c_str (b_source orig)) of
            Some (a, b) \<Rightarrow>
              (let buf = ipn_dot a b
               in bindR (adm_sdnv (of_nat (length buf)) w) (\<lambda>w.
                    if snd w > 80 then Inl OOB
                    else Inr (fst w @ take (snd w) (buf @ [0] @ replicate (79 - length buf) (io_junk io)))))
          | None \<Rightarrow>
              bindR (adm_sdnv (of_nat (length source)) w) (\<lambda>w.
              bindR (assertR (snd w = length source)) (\<lambda>_. Inr (fst w @ source)))))))))))"

definition create_custody_signal ::
  "naming \<Rightarrow> u64 \<Rightarrow> payload_io \<Rightarrow> dtn_bundle \<Rightarrow> dtn_bundle \<Rightarrow> eid \<Rightarrow> bool \<Rightarrow> byte \<Rightarrow> dtn_bundle res"
where
  "create_custody_signal nm tv_sec io bundle orig source_eid succeeded reason =
     (if eid_equals (b_custodian orig) (NULL_EID nm) then Inl PANIC
      else
        let bundle = bundle\<lparr>b_source := source_eid, b_dest := b_custodian orig, b_replyto := NULL_EID nm,
              b_custodian := NULL_EID nm, b_is_admin := True, b_expiration := b_expiration orig\<rparr>
        in
        bindR (get_current_time tv_sec) (\<lambda>current.
        bindR (custody_signal_payload io current orig succeeded reason) (\<lambda>signal.
        bindR (pl_set_data io signal (b_payload bundle)) (\<lambda>p. Inr (bundle\<lparr>b_payload := p\<rparr>)))))"

text \<open>
  The text of the source is scanned as a C string although the buffer is not terminated: \<open>after\<close>
  are the bytes that follow it in memory.
\<close>

definition parse_custody_signal :: "naming \<Rightarrow> bytes \<Rightarrow> custody_signal \<Rightarrow> bytes \<Rightarrow> custody_signal option" where
  "parse_custody_signal nm after data bp =
     (case bp of
        c # code # bp \<Rightarrow>
          if drop_bit 4 c \<noteq> 2 then None
          else
            Option.bind (rd_fragment (c AND 0xf AND ADMIN_IS_FRAGMENT \<noteq> 0)
                           (cs_orig_frag_offset data, cs_orig_frag_length data) bp) (\<lambda>(frag, bp).
            Option.bind (rd_timestamp bp) (\<lambda>(signal_tv, bp).
            Option.bind (rd_timestamp bp) (\<lambda>(creation, bp).
            Option.bind (rd_sdnv bp) (\<lambda>(EID_len, bp).
              if length bp \<noteq> unat EID_len then None
              else
                let e = eid_assign nm
                      (case scan_two (lit ''ipn:'') 0x2e (takeWhile (\<lambda>c. c \<noteq> 0) (bp @ after)) of
                         Some (a, b) \<Rightarrow> ipn_slash a b
                       | None \<Rightarrow> bp)
                in if \<not> eid_valid e then None
                   else Some \<lparr>cs_admin_type = drop_bit 4 c, cs_admin_flags = c AND 0xf,
                     cs_succeeded = (drop_bit 7 code \<noteq> 0), cs_reason = code AND 0x7f,
                     cs_orig_frag_offset = fst frag, cs_orig_frag_length = snd frag,
                     cs_custody_signal_tv = signal_tv, cs_orig_creation_tv = creation, cs_orig_source_eid = e\<rparr>))))
      | _ \<Rightarrow> None)"

subsection \<open>Lemmas: writing and reading fields\<close>

lemma adm_sdnv_ok: "sdnv_val_len v \<le> k \<Longrightarrow> adm_sdnv v (w, k) = Inr (w @ sdnv_bytes v, k - sdnv_val_len v)"
  by (simp add: adm_sdnv_def sdnv_encode_eq)

lemma adm_timestamp_ok: "ts_len tv \<le> k \<Longrightarrow> adm_timestamp tv (w, k) = Inr (w @ ts_bytes tv, k - ts_len tv)"
  by (simp add: adm_timestamp_def set_timestamp_eq)

lemma adm_fragment_len_eq: "adm_fragment_len orig = Inr (length (sdnvs (frag_values orig)))"
  by (simp add: adm_fragment_len_def frag_values_def)

lemma adm_fragment_ok:
  "length (sdnvs (frag_values orig)) \<le> k \<Longrightarrow>
     adm_fragment orig (w, k) = Inr (w @ sdnvs (frag_values orig), k - length (sdnvs (frag_values orig)))"
  by (cases "b_is_fragment orig") (simp_all add: adm_fragment_def frag_values_def adm_sdnv_ok)

lemma rd_sdnv_bytes [simp]: "rd_sdnv (sdnv_bytes v @ rest) = Some (v, rest)"
  by (simp add: rd_sdnv_def)

lemma rd_timestamp_bytes [simp]: "rd_timestamp (ts_bytes tv @ rest) = Some (tv, rest)"
proof -
  have "drop (ts_len tv) (ts_bytes tv @ rest) = rest" using drop_length_append [of "ts_bytes tv" rest] by simp
  then show ?thesis by (simp add: rd_timestamp_def)
qed

definition frag_fields :: "dtn_bundle \<Rightarrow> u64 \<times> u64 \<Rightarrow> u64 \<times> u64" where
  "frag_fields orig old = (if b_is_fragment orig then (ucast (b_frag_offset orig), ucast (b_orig_length orig)) else old)"

lemma rd_fragment_values [simp]:
  "rd_fragment (b_is_fragment orig) old (sdnvs (frag_values orig) @ rest) = Some (frag_fields orig old, rest)"
  by (simp add: rd_fragment_def frag_values_def frag_fields_def)

lemma adm_first_byte_bits:
  "t = 1 \<or> t = 2 \<Longrightarrow> drop_bit 4 (adm_first_byte t orig) = t"
  "t = 1 \<or> t = 2 \<Longrightarrow> (adm_first_byte t orig AND 0xf AND ADMIN_IS_FRAGMENT \<noteq> 0) \<longleftrightarrow> b_is_fragment orig"
  by (auto simp: adm_first_byte_def ADMIN_IS_FRAGMENT_def)

lemma status_report_payload_bytes:
  "status_report_payload current orig f r =
     Inr ([adm_first_byte 1 orig, f, r] @ sdnvs (frag_values orig) @ ts_bytes (Timestamp (ucast current) 0) @
       ts_bytes (b_creation_ts orig) @ sdnv_bytes (of_nat (length (eid_str (b_source orig)))) @ eid_str (b_source orig))"
  by (simp add: status_report_payload_def adm_fragment_len_eq adm_byte_def Let_def adm_fragment_ok adm_timestamp_ok
      adm_sdnv_ok)

lemma rd_optional_single:
  assumes "f \<in> {SR_RECEIVED, SR_CUSTODY_ACCEPTED, SR_FORWARDED, SR_DELIVERED, SR_DELETED, SR_ACKED_BY_APP}"
  shows "rd_optional_all f [SR_RECEIVED, SR_CUSTODY_ACCEPTED, SR_FORWARDED, SR_DELIVERED, SR_DELETED, SR_ACKED_BY_APP]
      (ts_bytes tv @ rest) =
    Some (map (\<lambda>g. if f = g then tv else Timestamp 0 0)
      [SR_RECEIVED, SR_CUSTODY_ACCEPTED, SR_FORWARDED, SR_DELIVERED, SR_DELETED, SR_ACKED_BY_APP], rest)"
  using assms by (auto simp: sr_flags rd_optional_ts_def)

lemma pl_set_data_init:
  assumes "loc \<noteq> NODATA"
  shows "\<exists>p. pl_set_data io bs (payload_init loc) = Inr p \<and> pl_whole p \<and> pl_bytes p = bs"
proof -
  have "pl_whole (payload_init loc)" "pl_bytes (payload_init loc) = []" using pl_whole_init [OF assms] by simp_all
  with pl_extend_whole [OF this(1), where bs = bs and io = io] show ?thesis
    by (auto simp: pl_set_data_def payload_init_def)
qed

lemma custody_code_bits:
  "(drop_bit 7 (push_bit 7 (of_bool s) OR (r AND 0x7f) :: byte) \<noteq> 0) \<longleftrightarrow> s"
  "(push_bit 7 (of_bool s) OR (r AND 0x7f)) AND 0x7f = (r AND 0x7f :: byte)"
proof -
  have d: "drop_bit 7 (r AND 0x7f) = (0 :: byte)" unfolding and_7f by (rule bit_eqI) (simp add: bit_simps)
  show "(drop_bit 7 (push_bit 7 (of_bool s) OR (r AND 0x7f) :: byte) \<noteq> 0) \<longleftrightarrow> s"
    using d by (cases s) simp_all
  show "(push_bit 7 (of_bool s) OR (r AND 0x7f)) AND 0x7f = (r AND 0x7f :: byte)"
    unfolding and_7f by (rule bit_eqI) (auto simp: bit_simps)
qed

subsection \<open>Lemmas: the source of a custody signal\<close>

lemma ipn_forms_no_nul: "0 \<notin> set (ipn_slash a b)" "0 \<notin> set (ipn_dot a b)"
  using dec_no_nul by (simp_all add: ipn_slash_def ipn_dot_def lit_def)

lemma length_ipn_forms: "length (ipn_slash a b) = length (ipn_dot a b) + 2" "length (ipn_dot a b) \<le> 45"
proof -
  have "unat v < 10 ^ Suc 19" for v :: u64
    using less_trans [OF unat_less_u64 [of v], of "10 ^ Suc 19"] by simp
  from length_dec [OF this] have d: "length (dec (unat v)) \<le> 20" for v :: u64 by simp
  show "length (ipn_slash a b) = length (ipn_dot a b) + 2" by (simp add: ipn_slash_def ipn_dot_def lit_def)
  show "length (ipn_dot a b) \<le> 45" using d [of a] d [of b] by (simp add: ipn_dot_def lit_def)
qed

lemma scan_two_dec:
  assumes "\<not> is_digit sep" "rest = [] \<or> \<not> is_digit (hd rest)"
  shows "scan_two prefix sep (prefix @ dec (unat a) @ sep # dec (unat b) @ rest) = Some (a, b)"
proof -
  have u: "unat a < 2 ^ 64" "unat b < 2 ^ 64" using unsigned_less [of a] unsigned_less [of b] by simp_all
  have "scan_u64 (dec (unat a) @ sep # dec (unat b) @ rest) = Some (a, sep # dec (unat b) @ rest)"
    using scan_dec [OF u(1), of "sep # dec (unat b) @ rest"] assms(1) by simp
  moreover have "scan_u64 (dec (unat b) @ rest) = Some (b, rest)" using scan_dec [OF u(2) assms(2)] by simp
  ultimately show ?thesis by (simp add: scan_two_def)
qed

lemma scan_ipn_forms:
  "scan_two (lit ''ipn://'') 0x2f (ipn_slash a b) = Some (a, b)"
  "after = [] \<or> \<not> is_digit (hd after) \<Longrightarrow>
     scan_two (lit ''ipn:'') 0x2e (takeWhile (\<lambda>c. c \<noteq> 0) (ipn_dot a b @ after)) = Some (a, b)"
proof -
  have sep: "\<not> is_digit 0x2f" "\<not> is_digit 0x2e" by (simp_all add: is_digit_def)
  show "scan_two (lit ''ipn://'') 0x2f (ipn_slash a b) = Some (a, b)"
    using scan_two_dec [OF sep(1), of "[]" "lit ''ipn://''" a b] by (simp add: ipn_slash_def lit_def)
  assume a: "after = [] \<or> \<not> is_digit (hd after)"
  let ?r = "takeWhile (\<lambda>c. c \<noteq> 0) after"
  have "?r = [] \<or> \<not> is_digit (hd ?r)" using a by (cases after) auto
  from scan_two_dec [OF sep(2) this, of "lit ''ipn:''" a b]
  show "scan_two (lit ''ipn:'') 0x2e (takeWhile (\<lambda>c. c \<noteq> 0) (ipn_dot a b @ after)) = Some (a, b)"
    using ipn_forms_no_nul(2) [of a b] by (simp add: takeWhile_append ipn_dot_def lit_def)
qed

lemma strncmp_ipn: "0 \<notin> set s \<Longrightarrow> strncmp_eq s (lit ''ipn'') 3 \<longleftrightarrow> take 3 s = lit ''ipn''"
  using strncmp_eq_prefix [of "lit ''ipn''" 3 s] by (simp add: lit_def)

lemma scan_two_other:
  assumes "take 3 s \<noteq> lit ''ipn''" "take 3 prefix = lit ''ipn''"
  shows "scan_two prefix sep s = None"
proof -
  have "take (length prefix) s \<noteq> prefix"
  proof
    assume t: "take (length prefix) s = prefix"
    have "3 \<le> length prefix" using arg_cong [OF assms(2), of length] by (simp add: lit_def)
    then have "take 3 s = take 3 prefix" using arg_cong [OF t, of "take 3"] by (simp add: min_def)
    with assms show False by simp
  qed
  then show ?thesis by (simp add: scan_two_def)
qed

text \<open>The text sent for a source, and what may follow it in the receiver's memory.\<close>

definition custody_source :: "bytes \<Rightarrow> bytes \<Rightarrow> bytes \<Rightarrow> bool" where
  "custody_source source after txt \<longleftrightarrow> 0 \<notin> set source \<and>
     (3 \<le> length source \<and> take 3 source \<noteq> lit ''ipn'' \<and> txt = source \<or>
      (\<exists>a b. source = ipn_slash a b \<and> txt = ipn_dot a b \<and> (after = [] \<or> \<not> is_digit (hd after))))"

lemma custody_source_scan:
  assumes "custody_source source after txt"
  shows "(case scan_two (lit ''ipn:'') 0x2e (takeWhile (\<lambda>c. c \<noteq> 0) (txt @ after)) of Some (a, b) \<Rightarrow> ipn_slash a b | None \<Rightarrow> txt) = source"
proof -
  from assms have "0 \<notin> set source" and
    "(3 \<le> length source \<and> take 3 source \<noteq> lit ''ipn'' \<and> txt = source) \<or>
      (\<exists>a b. source = ipn_slash a b \<and> txt = ipn_dot a b \<and> (after = [] \<or> \<not> is_digit (hd after)))"
    by (simp_all add: custody_source_def)
  from this(2) consider (other) "3 \<le> length source" "take 3 source \<noteq> lit ''ipn''" "txt = source" |
    (ipn) a b where "source = ipn_slash a b" "txt = ipn_dot a b" "after = [] \<or> \<not> is_digit (hd after)" by blast
  then show ?thesis
  proof cases
    case s: other
    have "takeWhile (\<lambda>c. c \<noteq> 0) (txt @ after) = source @ takeWhile (\<lambda>c. c \<noteq> 0) after"
      using \<open>0 \<notin> set source\<close> s(3) by (auto simp: takeWhile_append)
    then have "take 3 (takeWhile (\<lambda>c. c \<noteq> 0) (txt @ after)) \<noteq> lit ''ipn''" using s by simp
    from scan_two_other [OF this, of "lit ''ipn:''"] s(3) show ?thesis by (simp add: lit_def)
  next
    case ipn
    from scan_ipn_forms(2) [OF ipn(3), of a b] show ?thesis by (simp only: ipn option.case prod.case)
  qed
qed

lemma custody_signal_payload_bytes:
  assumes "custody_source (eid_str (b_source orig)) after txt"
  shows "custody_signal_payload io current orig s r =
     Inr ([adm_first_byte 2 orig, push_bit 7 (of_bool s) OR (r AND 0x7f)] @ sdnvs (frag_values orig) @
       ts_bytes (Timestamp (ucast current) 0) @ ts_bytes (b_creation_ts orig) @ sdnv_bytes (of_nat (length txt)) @ txt)"
proof -
  let ?src = "eid_str (b_source orig)"
  have nul: "0 \<notin> set ?src" and alt: "(3 \<le> length ?src \<and> take 3 ?src \<noteq> lit ''ipn'' \<and> txt = ?src) \<or>
      (\<exists>a b. ?src = ipn_slash a b \<and> txt = ipn_dot a b \<and> (after = [] \<or> \<not> is_digit (hd after)))"
    using assms by (simp_all add: custody_source_def)
  have c: "c_str (b_source orig) = ?src" using nul by (auto simp: c_str_def takeWhile_eq_all_conv)
  note ok = adm_fragment_len_eq adm_byte_def Let_def adm_fragment_ok adm_timestamp_ok adm_sdnv_ok
  from alt consider (other) "3 \<le> length ?src" "take 3 ?src \<noteq> lit ''ipn''" "txt = ?src" |
    (ipn) a b where "?src = ipn_slash a b" "txt = ipn_dot a b" by blast
  then show ?thesis
  proof cases
    case s: other
    have "\<not> strncmp_eq ?src (lit ''ipn'') 3" using strncmp_ipn [OF nul] s(2) by simp
    moreover have "scan_two (lit ''ipn://'') 0x2f ?src = None"
      using scan_two_other [OF s(2), of "lit ''ipn://''"] by (simp add: lit_def)
    ultimately show ?thesis using s(3) by (simp add: custody_signal_payload_def c ok)
  next
    case s: (ipn a b)
    have "take 3 ?src = lit ''ipn''" using s(1) by (simp add: ipn_slash_def lit_def eval_nat_numeral)
    then have n: "strncmp_eq ?src (lit ''ipn'') 3" using strncmp_ipn [OF nul] by simp
    have l: "of_nat (length ?src) - of_nat 2 = (of_nat (length (ipn_dot a b)) :: u64)"
      "length ?src - 2 = length (ipn_dot a b)" "length (ipn_dot a b) \<le> 45"
      using length_ipn_forms [of a b] s(1) by simp_all
    have e: "x + length ?src - 2 = x + length (ipn_dot a b)" for x using length_ipn_forms(1) [of a b] s(1) by simp
    have t: "take (length (ipn_dot a b)) (ipn_dot a b @ y) = ipn_dot a b" for y by simp
    show ?thesis
      unfolding custody_signal_payload_def Let_def c using n scan_ipn_forms(1) [of a b] l(1,3)
      by (simp add: s ok e [unfolded s(1)])
  qed
qed

lemma sdnv_val_len_mono: "unat u \<le> unat v \<Longrightarrow> sdnv_val_len u \<le> sdnv_val_len v"
proof -
  assume le: "unat u \<le> unat v"
  obtain k where k: "sdnv_val_len v = Suc k" using sdnv_val_len_pos [of v] by (cases "sdnv_val_len v") auto
  have "unat v < 128 ^ Suc k" using sdnv_val_len_lower [of "Suc k" v] k by (auto simp: not_le [symmetric])
  with le have "unat u < 128 ^ Suc k" by simp
  from sdnv_val_len_bound [OF this] k show ?thesis by simp
qed

subsection \<open>Concrete values for the witnesses\<close>

definition example_report :: status_report where
  "example_report = \<lparr>sr_admin_type = 0, sr_admin_flags = 0, sr_status_flags = 0, sr_reason_code = 0,
     sr_orig_frag_offset = 0, sr_orig_frag_length = 0, sr_receipt_tv = Timestamp 0 0, sr_custody_tv = Timestamp 0 0,
     sr_forwarding_tv = Timestamp 0 0, sr_delivery_tv = Timestamp 0 0, sr_deletion_tv = Timestamp 0 0,
     sr_ack_by_app_tv = Timestamp 0 0, sr_orig_creation_tv = Timestamp 0 0, sr_orig_source_eid = eid_default\<rparr>"

definition example_signal :: custody_signal where
  "example_signal = \<lparr>cs_admin_type = 0, cs_admin_flags = 0, cs_succeeded = False, cs_reason = 0,
     cs_orig_frag_offset = 0, cs_orig_frag_length = 0, cs_custody_signal_tv = Timestamp 0 0,
     cs_orig_creation_tv = Timestamp 0 0, cs_orig_source_eid = eid_default\<rparr>"

lemma example_source:
  "eid_str (b_source (example_bundle e)) = lit ''dtn://a''" "eid_valid (b_source (example_bundle e))"
  "eid_assign simple_naming (eid_str (b_source (example_bundle e))) = b_source (example_bundle e)"
  using example_eid_simps by (simp_all add: example_bundle_simps example_eid_def eid_ok_def)

subsection \<open>Properties\<close>

text \<open>
  C23: status reports are read back. For one status flag, any reason and any bundle whose source
  identifier is stable under parsing, \<open>create_status_report\<close> passes all its assertions (the length
  computed beforehand is the length written); the report is an administrative bundle for the
  reply-to endpoint, or the source when there is none; and \<open>parse_status_report\<close> accepts its payload
  and gives back the flag, the reason, the fragment fields, the source, the creation time, and
  the current time in exactly the field of that flag.
\<close>

theorem status_report_roundtrip:
  assumes "f \<in> {SR_RECEIVED, SR_CUSTODY_ACCEPTED, SR_FORWARDED, SR_DELIVERED, SR_DELETED, SR_ACKED_BY_APP}"
    and "get_current_time tv = Inr now" "b_payload bundle = payload_init loc" "loc \<noteq> NODATA"
    and "eid_assign nm (eid_str (b_source orig)) = b_source orig" "eid_valid (b_source orig)"
      "length (eid_str (b_source orig)) < 2 ^ 32"
  shows "\<exists>b d. create_status_report nm tv io bundle orig source f r = Inr b \<and>
    b_is_admin b \<and> b_source b = source \<and>
    b_dest b = (if eid_equals (b_replyto orig) (NULL_EID nm) then b_source orig else b_replyto orig) \<and>
    parse_status_report nm d0 (pl_bytes (b_payload b)) = Some d \<and>
    sr_status_flags d = f \<and> sr_reason_code d = r \<and> sr_orig_source_eid d = b_source orig \<and>
    sr_orig_creation_tv d = b_creation_ts orig \<and>
    (sr_orig_frag_offset d, sr_orig_frag_length d) = frag_fields orig (sr_orig_frag_offset d0, sr_orig_frag_length d0) \<and>
    [sr_receipt_tv d, sr_custody_tv d, sr_forwarding_tv d, sr_delivery_tv d, sr_deletion_tv d, sr_ack_by_app_tv d] =
      map (\<lambda>g. if f = g then Timestamp (ucast now) 0 else Timestamp 0 0)
        [SR_RECEIVED, SR_CUSTODY_ACCEPTED, SR_FORWARDED, SR_DELIVERED, SR_DELETED, SR_ACKED_BY_APP]"
proof -
  let ?src = "eid_str (b_source orig)"
  have "unat (of_nat (length ?src) :: u64) = length ?src" using assms(7) by (simp add: unat_of_nat)
  moreover note adm_first_byte_bits [of 1 orig]
  moreover obtain p where "pl_set_data io ([adm_first_byte 1 orig, f, r] @ sdnvs (frag_values orig) @ ts_bytes (Timestamp (ucast now) 0) @
       ts_bytes (b_creation_ts orig) @ sdnv_bytes (of_nat (length ?src)) @ ?src) (payload_init loc) = Inr p"
    "pl_bytes p = [adm_first_byte 1 orig, f, r] @ sdnvs (frag_values orig) @ ts_bytes (Timestamp (ucast now) 0) @
       ts_bytes (b_creation_ts orig) @ sdnv_bytes (of_nat (length ?src)) @ ?src"
    using pl_set_data_init [OF assms(4)] by blast
  ultimately show ?thesis
    using assms(2,3,5,6) rd_optional_single [OF assms(1)]
    by (simp add: create_status_report_def status_report_payload_bytes parse_status_report_def Let_def del: rd_optional_all.simps)
qed

theorem status_report_roundtrip_witness:
  "\<exists>b d. create_status_report simple_naming 1000000000 sample_io example_receiver (example_bundle example_eid) example_eid
       SR_FORWARDED 3 = Inr b \<and>
     parse_status_report simple_naming example_report (pl_bytes (b_payload b)) = Some d \<and>
     sr_reason_code d = 3 \<and> sr_orig_source_eid d = example_eid \<and> sr_forwarding_tv d = Timestamp 53315200 0"
proof -
  have f: "SR_FORWARDED \<in> {SR_RECEIVED, SR_CUSTODY_ACCEPTED, SR_FORWARDED, SR_DELIVERED, SR_DELETED, SR_ACKED_BY_APP}" by simp
  have t: "get_current_time 1000000000 = Inr 53315200" by (simp add: get_current_time_def TIMEVAL_CONVERSION_def)
  have l: "length (eid_str (b_source (example_bundle example_eid))) < 2 ^ 32" by (simp add: example_source lit_def)
  have m: "MEMORY \<noteq> NODATA" by simp
  from status_report_roundtrip [OF f t example_receiver_fields(4) m example_source(3,2) l, of sample_io example_eid 3 example_report]
  show ?thesis by (auto simp: example_bundle_simps)
qed

text \<open>
  Custody signals are read back. For a source whose text does not begin with \<open>ipn\<close>, or has the
  form \<open>ipn://a/b\<close> with decimal numbers (which is sent as \<open>ipn:a.b\<close>), \<open>create_custody_signal\<close> passes
  its assertions and \<open>parse_custody_signal\<close> gives back the outcome, the low seven bits of the
  reason, the fragment fields, both timestamps and the source, provided the byte that follows the
  received buffer in memory is not a digit when the source is an \<open>ipn\<close> one.
\<close>

theorem custody_signal_roundtrip:
  assumes "custody_source (eid_str (b_source orig)) after txt" "length (eid_str (b_source orig)) < 2 ^ 32"
    and "get_current_time tv = Inr now" "b_payload bundle = payload_init loc" "loc \<noteq> NODATA"
    and "\<not> eid_equals (b_custodian orig) (NULL_EID nm)"
    and "eid_assign nm (eid_str (b_source orig)) = b_source orig" "eid_valid (b_source orig)"
  shows "\<exists>b d. create_custody_signal nm tv io bundle orig source s r = Inr b \<and>
    b_is_admin b \<and> b_dest b = b_custodian orig \<and>
    parse_custody_signal nm after d0 (pl_bytes (b_payload b)) = Some d \<and>
    cs_succeeded d = s \<and> cs_reason d = r AND 0x7f \<and> cs_orig_source_eid d = b_source orig \<and>
    cs_orig_creation_tv d = b_creation_ts orig \<and> cs_custody_signal_tv d = Timestamp (ucast now) 0 \<and>
    (cs_orig_frag_offset d, cs_orig_frag_length d) = frag_fields orig (cs_orig_frag_offset d0, cs_orig_frag_length d0)"
proof -
  let ?w = "[adm_first_byte 2 orig, push_bit 7 (of_bool s) OR (r AND 0x7f)] @ sdnvs (frag_values orig) @
       ts_bytes (Timestamp (ucast now) 0) @ ts_bytes (b_creation_ts orig) @ sdnv_bytes (of_nat (length txt)) @ txt"
  have "length txt \<le> length (eid_str (b_source orig))"
    using assms(1) length_ipn_forms(1) by (auto simp: custody_source_def)
  then have n: "unat (of_nat (length txt) :: u64) = length txt" using assms(2) by (simp add: unat_of_nat)
  obtain p where p: "pl_set_data io ?w (payload_init loc) = Inr p" "pl_bytes p = ?w"
    using pl_set_data_init [OF assms(5)] by blast
  have e: "eid_assign nm (case scan_two (lit ''ipn:'') 0x2e (takeWhile (\<lambda>c. c \<noteq> 0) (txt @ after)) of
      Some (a, b) \<Rightarrow> ipn_slash a b | None \<Rightarrow> txt) = b_source orig"
    using custody_source_scan [OF assms(1)] assms(7) by simp
  have c: "create_custody_signal nm tv io bundle orig source s r =
      Inr (bundle\<lparr>b_source := source, b_dest := b_custodian orig, b_replyto := NULL_EID nm,
              b_custodian := NULL_EID nm, b_is_admin := True, b_expiration := b_expiration orig, b_payload := p\<rparr>)"
    using assms(3,4,6) p(1) custody_signal_payload_bytes [OF assms(1), of io now s r]
    by (simp add: create_custody_signal_def)
  show ?thesis
    unfolding c using n p(2) e assms(8) adm_first_byte_bits [of 2 orig] custody_code_bits [of s r]
    by (simp add: parse_custody_signal_def Let_def)
qed

theorem custody_signal_roundtrip_witness:
  "\<exists>b d. create_custody_signal simple_naming 1000000000 sample_io example_receiver (example_bundle example_eid) example_eid
       True 4 = Inr b \<and>
     parse_custody_signal simple_naming [] example_signal (pl_bytes (b_payload b)) = Some d \<and>
     cs_succeeded d \<and> cs_orig_source_eid d = example_eid"
proof -
  let ?o = "example_bundle example_eid"
  have s: "custody_source (eid_str (b_source ?o)) [] (lit ''dtn://a'')"
    by (simp add: custody_source_def example_source lit_def numeral_3_eq_3)
  have t: "get_current_time 1000000000 = Inr 53315200" by (simp add: get_current_time_def TIMEVAL_CONVERSION_def)
  have l: "length (eid_str (b_source ?o)) < 2 ^ 32" by (simp add: example_source lit_def)
  have m: "MEMORY \<noteq> NODATA" by simp
  have k: "\<not> eid_equals (b_custodian ?o) (NULL_EID simple_naming)"
    using example_eid_simps(3) by (simp add: example_bundle_simps eid_equals_def NULL_EID_def eid_assign_def simple_naming_def
        simple_parse_def Let_def lit_def)
  from custody_signal_roundtrip [OF s l t example_receiver_fields(4) m k example_source(3,2), of sample_io example_eid True 4 example_signal]
  show ?thesis by (auto simp: example_bundle_simps)
qed

text \<open>
  A custody signal for a source in the standard \<open>ipn\<close> form stops the daemon. For every source
  identifier that begins with \<open>ipn\<close> but is not of the form \<open>ipn://a/b\<close>, such as \<open>ipn:977.1\<close>, two
  bytes too few are reserved and the assertion on the remaining length, or the one before it,
  fails.
\<close>

theorem custody_signal_ipn_asserts:
  assumes "0 \<notin> set (eid_str (b_source orig))" "take 3 (eid_str (b_source orig)) = lit ''ipn''"
    and "scan_two (lit ''ipn://'') 0x2f (eid_str (b_source orig)) = None"
    and "length (eid_str (b_source orig)) < 2 ^ 32"
    and "get_current_time tv = Inr now" "\<not> eid_equals (b_custodian orig) (NULL_EID nm)"
  shows "create_custody_signal nm tv io bundle orig source s r = Inl ASSERT"
proof -
  let ?src = "eid_str (b_source orig)"
  have c: "c_str (b_source orig) = ?src" using assms(1) by (auto simp: c_str_def takeWhile_eq_all_conv)
  have i: "strncmp_eq ?src (lit ''ipn'') 3" using strncmp_ipn [OF assms(1)] assms(2) by simp
  have l: "3 \<le> length ?src" using arg_cong [OF assms(2), of length] by (simp add: lit_def)
  define m where "m = sdnv_val_len (of_nat (length ?src) - 2)"
  have "unat (of_nat (length ?src) - 2 :: u64) \<le> unat (of_nat (length ?src) :: u64)"
  proof -
    have "(2 :: u64) \<le> of_nat (length ?src)" using l assms(4) by (simp add: word_le_nat_alt unat_of_nat)
    then show ?thesis by (simp add: unat_sub)
  qed
  then have m: "m \<le> sdnv_val_len (of_nat (length ?src))" unfolding m_def by (rule sdnv_val_len_mono)
  have fin: "bindR (adm_sdnv (of_nat (length ?src)) (w, m + length ?src - 2))
      (\<lambda>w. bindR (assertR (snd w = length ?src)) (\<lambda>_. Inr (fst w @ ?src))) = Inl ASSERT" for w
    using m l by (simp add: adm_sdnv_def sdnv_encode_eq)
  have "custody_signal_payload io now orig s r = Inl ASSERT"
    unfolding custody_signal_payload_def Let_def c
    using i assms(3) fin l
    by (simp add: adm_fragment_len_eq adm_byte_def adm_fragment_ok adm_timestamp_ok flip: m_def)
  with assms(5,6) show ?thesis by (simp add: create_custody_signal_def)
qed

theorem custody_signal_ipn_asserts_witness:
  "create_custody_signal simple_naming 1000000000 sample_io example_receiver
     ((example_bundle example_eid)\<lparr>b_source := eid_assign simple_naming (lit ''ipn:977.1'')\<rparr>) example_eid True 4 = Inl ASSERT"
proof -
  let ?o = "(example_bundle example_eid)\<lparr>b_source := eid_assign simple_naming (lit ''ipn:977.1'')\<rparr>"
  have src: "eid_str (b_source ?o) = lit ''ipn:977.1''"
    by (simp add: eid_assign_def simple_naming_def simple_parse_def Let_def)
  have 1: "0 \<notin> set (eid_str (b_source ?o))" "take 3 (eid_str (b_source ?o)) = lit ''ipn''"
    "scan_two (lit ''ipn://'') 0x2f (eid_str (b_source ?o)) = None" "length (eid_str (b_source ?o)) < 2 ^ 32"
    unfolding src by (simp_all add: lit_def numeral_3_eq_3 scan_two_def)
  have t: "get_current_time 1000000000 = Inr 53315200" by (simp add: get_current_time_def TIMEVAL_CONVERSION_def)
  have k: "\<not> eid_equals (b_custodian ?o) (NULL_EID simple_naming)"
    using example_eid_simps(3) by (simp add: example_bundle_simps eid_equals_def NULL_EID_def eid_assign_def simple_naming_def
        simple_parse_def Let_def lit_def)
  show ?thesis by (rule custody_signal_ipn_asserts [OF 1 t k])
qed

text \<open>
  The proviso of the round trip matters: a digit that happens to follow the received text in
  memory becomes part of the service number.
\<close>

lemma custody_source_overread:
  "scan_two (lit ''ipn:'') 0x2e (takeWhile (\<lambda>c. c \<noteq> 0) (ipn_dot 1 2 @ lit ''3'')) = Some (1, 23)"
  by (simp add: scan_two_def ipn_dot_def lit_def dec.simps scan_u64_def is_space_def is_digit_def dec_value_def Let_def
      takeWhile_append)

end
