(* ===== verification/BundleLists.thy ===== *)
theory BundleLists
  imports Bundle "HOL-Library.AList"
begin

text \<open>
  Bundles in memory and the lists they are queued on: the reference counter of
  \<open>servlib/bundling/Bundle.cc\<close> (\<open>add_ref\<close>, \<open>del_ref\<close>, constructor and destructor), the back pointers
  of \<open>BundleMappings.cc\<close>, the lists of \<open>BundleList.cc\<close> and the handler of the free event in
  \<open>BundleDaemon.cc\<close>. Bundles are shared by the lists and by the clients' counted references
  (\<open>BundleRef\<close>), so they live in an explicit heap. The locks, the notifier of a blocking list, the
  data store and the expiration timer that the handler and the destructor also touch are left out.

  The code asserts its counting discipline in many places. The theorems at the end show the
  invariant behind it for every run of the daemon, that no assertion is then violated and no
  deleted bundle used, and that a bundle with no reference left is deleted.
\<close>

subsection \<open>Global bundle or fragment identifiers\<close>

record gbofid =
  g_source :: eid
  g_creation_ts :: timestamp
  g_is_fragment :: bool
  g_frag_length :: u32
  g_frag_offset :: u32

definition gbofid_equals :: "gbofid \<Rightarrow> gbofid \<Rightarrow> bool" where
  "gbofid_equals g h \<longleftrightarrow>
     seconds (g_creation_ts g) = seconds (g_creation_ts h) \<and> seqno (g_creation_ts g) = seqno (g_creation_ts h) \<and>
     g_is_fragment g = g_is_fragment h \<and>
     (\<not> g_is_fragment g \<or> g_frag_length g = g_frag_length h \<and> g_frag_offset g = g_frag_offset h) \<and>
     eid_equals (g_source g) (g_source h)"

text \<open>The length of the payload is passed as a 32-bit number.\<close>

definition gbofid_of :: "dtn_bundle \<Rightarrow> gbofid" where
  "gbofid_of b = \<lparr>g_source = b_source b, g_creation_ts = b_creation_ts b, g_is_fragment = b_is_fragment b,
     g_frag_length = of_nat (pl_length (b_payload b)), g_frag_offset = b_frag_offset b\<rparr>"

subsection \<open>Bundles and lists in memory\<close>

type_synonym bundle_ptr = nat
type_synonym list_id = nat
type_synonym node = nat

definition ALL_BUNDLES :: list_id where
  "ALL_BUNDLES = 0"

record bundle_obj =
  bo_data :: dtn_bundle
  bo_refcount :: int
  bo_mappings :: "(list_id \<times> node) list"

text \<open>
  \<open>h_live\<close> are the objects that exist; access to any other is the fault \<open>OOB\<close>. A list holds its
  nodes with the bundles they point to; an iterator is a node, and \<open>h_next\<close> the next one to be
  allocated. \<open>h_posted\<close> are the free events that wait to be handled.
\<close>

record heap =
  h_live :: "bundle_ptr \<Rightarrow> bool"
  h_bundles :: "bundle_ptr \<Rightarrow> bundle_obj"
  h_lists :: "list_id \<Rightarrow> (node \<times> bundle_ptr) list"
  h_next :: node
  h_posted :: "bundle_ptr list"

definition get_obj :: "bundle_ptr \<Rightarrow> heap \<Rightarrow> bundle_obj res" where
  "get_obj b h = (if h_live h b then Inr (h_bundles h b) else Inl OOB)"

definition set_obj :: "bundle_ptr \<Rightarrow> bundle_obj \<Rightarrow> heap \<Rightarrow> heap" where
  "set_obj b x h = h\<lparr>h_bundles := (h_bundles h)(b := x)\<rparr>"

definition set_list :: "list_id \<Rightarrow> (node \<times> bundle_ptr) list \<Rightarrow> heap \<Rightarrow> heap" where
  "set_list l xs h = h\<lparr>h_lists := (h_lists h)(l := xs)\<rparr>"

definition is_freed :: "bundle_obj \<Rightarrow> bool" where
  "is_freed x = b_freed (bo_data x)"

definition find_mapping :: "list_id \<Rightarrow> bundle_obj \<Rightarrow> node option" where
  "find_mapping l x = map_of (bo_mappings x) l"

definition is_queued_on :: "list_id \<Rightarrow> bundle_obj \<Rightarrow> bool" where
  "is_queued_on l x = (find_mapping l x \<noteq> None)"

subsection \<open>References\<close>

definition inc_ref :: "bundle_ptr \<Rightarrow> heap \<Rightarrow> (int \<times> heap) res" where
  "inc_ref b h =
     bindR (get_obj b h) (\<lambda>x.
     bindR (assertR (\<not> is_freed x)) (\<lambda>_.
     bindR (assertR (bo_refcount x \<ge> 0)) (\<lambda>_.
       let ret = bo_refcount x + 1 in Inr (ret, set_obj b (x\<lparr>bo_refcount := ret\<rparr>) h))))"

text \<open>
  \<open>add_bundle\<close> inserts before position \<open>i\<close>; a freed bundle and one that is on the list already are
  ignored. \<open>ref\<close> is the call of \<open>add_ref\<close> at its end. The first reference to a bundle puts it on
  the list of all bundles, which adds a second one: the nested call finds the counter at 1, so
  that it is not itself a first reference.
\<close>

definition add_bundle_with ::
  "(bundle_ptr \<Rightarrow> heap \<Rightarrow> heap res) \<Rightarrow> list_id \<Rightarrow> nat \<Rightarrow> bundle_ptr \<Rightarrow> heap \<Rightarrow> heap res"
where
  "add_bundle_with ref l i b h =
     bindR (get_obj b h) (\<lambda>x.
       if is_freed x then Inr h
       else if is_queued_on l x then Inr h
       else
         let n = h_next h; xs = h_lists h l;
             h = (set_list l (take i xs @ (n, b) # drop i xs) h)\<lparr>h_next := n + 1\<rparr>;
             h = set_obj b (x\<lparr>bo_mappings := bo_mappings x @ [(l, n)]\<rparr>) h
         in ref b h)"

definition add_ref :: "bundle_ptr \<Rightarrow> heap \<Rightarrow> heap res" where
  "add_ref b h =
     bindR (inc_ref b h) (\<lambda>(ret, h).
       if ret = 1
       then add_bundle_with (\<lambda>b h. bindR (inc_ref b h) (\<lambda>(_, h). Inr h)) ALL_BUNDLES
              (length (h_lists h ALL_BUNDLES)) b h
       else Inr h)"

definition del_ref :: "bundle_ptr \<Rightarrow> heap \<Rightarrow> heap res" where
  "del_ref b h =
     bindR (get_obj b h) (\<lambda>x.
       let r = bo_refcount x - 1;
           x = x\<lparr>bo_refcount := r\<rparr>;
           h = set_obj b x h
       in if r > 1 then bindR (assertR (\<not> is_freed x)) (\<lambda>_. Inr h)
          else if r = 1 then
            bindR (assertR (\<not> is_freed x)) (\<lambda>_.
              Inr (set_obj b (x\<lparr>bo_data := (bo_data x)\<lparr>b_freed := True\<rparr>\<rparr>) h\<lparr>h_posted := h_posted h @ [b]\<rparr>))
          else if r = 0 then bindR (assertR (is_freed x)) (\<lambda>_. Inr h)
          else Inr h)"

subsection \<open>The operations of a list\<close>

definition add_bundle :: "list_id \<Rightarrow> nat \<Rightarrow> bundle_ptr \<Rightarrow> heap \<Rightarrow> heap res" where
  "add_bundle = add_bundle_with add_ref"

definition bl_push_front :: "list_id \<Rightarrow> bundle_ptr \<Rightarrow> heap \<Rightarrow> heap res" where
  "bl_push_front l b h = add_bundle l 0 b h"

definition bl_push_back :: "list_id \<Rightarrow> bundle_ptr \<Rightarrow> heap \<Rightarrow> heap res" where
  "bl_push_back l b h = add_bundle l (length (h_lists h l)) b h"

datatype sort_order = SORT_PRIORITY | SORT_FRAG_OFFSET

fun sorted_pos :: "(bundle_ptr \<Rightarrow> bundle_obj) \<Rightarrow> u32 \<Rightarrow> (node \<times> bundle_ptr) list \<Rightarrow> nat" where
  "sorted_pos objs off [] = 0"
| "sorted_pos objs off ((n, c) # xs) =
     (if b_frag_offset (bo_data (objs c)) > off then 0 else Suc (sorted_pos objs off xs))"

definition bl_insert_sorted :: "list_id \<Rightarrow> sort_order \<Rightarrow> bundle_ptr \<Rightarrow> heap \<Rightarrow> heap res" where
  "bl_insert_sorted l order b h =
     (case order of
        SORT_FRAG_OFFSET \<Rightarrow>
          bindR (get_obj b h) (\<lambda>x.
            add_bundle l (sorted_pos (h_bundles h) (b_frag_offset (bo_data x)) (h_lists h l)) b h)
      | SORT_PRIORITY \<Rightarrow> if h_lists h l = [] then add_bundle l 0 b h else Inl NOTIMPLEMENTED)"

text \<open>\<open>r\<close> is the value of \<open>random()\<close>.\<close>

definition bl_insert_random :: "nat \<Rightarrow> list_id \<Rightarrow> bundle_ptr \<Rightarrow> heap \<Rightarrow> heap res" where
  "bl_insert_random r l b h =
     add_bundle l (if h_lists h l = [] then 0 else r mod length (h_lists h l)) b h"

definition del_bundle :: "list_id \<Rightarrow> node \<Rightarrow> heap \<Rightarrow> (bundle_ptr \<times> heap) res" where
  "del_bundle l n h =
     (case map_of (h_lists h l) n of
        None \<Rightarrow> Inl OOB
      | Some b \<Rightarrow>
          bindR (get_obj b h) (\<lambda>x.
          bindR (case find_mapping l x of
                   None \<Rightarrow> Inr x
                 | Some m \<Rightarrow> bindR (assertR (m = n)) (\<lambda>_.
                     Inr (x\<lparr>bo_mappings := AList.delete l (bo_mappings x)\<rparr>))) (\<lambda>x.
            Inr (b, set_list l (AList.delete n (h_lists h l)) (set_obj b x h)))))"

text \<open>
  The result of a \<open>pop\<close> is a counted reference of the caller: it is taken before the reference of
  the list is given up.
\<close>

definition bl_pop_at :: "list_id \<Rightarrow> node \<Rightarrow> heap \<Rightarrow> (bundle_ptr option \<times> heap) res" where
  "bl_pop_at l n h =
     bindR (del_bundle l n h) (\<lambda>(b, h).
     bindR (add_ref b h) (\<lambda>h.
     bindR (del_ref b h) (\<lambda>h. Inr (Some b, h))))"

definition bl_pop_front :: "list_id \<Rightarrow> heap \<Rightarrow> (bundle_ptr option \<times> heap) res" where
  "bl_pop_front l h = (case h_lists h l of [] \<Rightarrow> Inr (None, h) | (n, _) # _ \<Rightarrow> bl_pop_at l n h)"

definition bl_pop_back :: "list_id \<Rightarrow> heap \<Rightarrow> (bundle_ptr option \<times> heap) res" where
  "bl_pop_back l h = (if h_lists h l = [] then Inr (None, h) else bl_pop_at l (fst (last (h_lists h l))) h)"

definition bl_erase :: "list_id \<Rightarrow> bundle_ptr \<Rightarrow> heap \<Rightarrow> (bool \<times> heap) res" where
  "bl_erase l b h =
     bindR (get_obj b h) (\<lambda>x.
       case find_mapping l x of
         None \<Rightarrow> Inr (False, h)
       | Some n \<Rightarrow>
           bindR (assertR (map_of (h_lists h l) n = Some b)) (\<lambda>_.
           bindR (del_bundle l n h) (\<lambda>(c, h).
           bindR (assertR (c = b)) (\<lambda>_.
           bindR (del_ref b h) (\<lambda>h. Inr (True, h))))))"

definition bl_contains :: "list_id \<Rightarrow> bundle_ptr \<Rightarrow> heap \<Rightarrow> bool res" where
  "bl_contains l b h =
     bindR (get_obj b h) (\<lambda>x.
       let ret = is_queued_on l x; ret2 = (b \<in> snd ` set (h_lists h l))
       in bindR (assertR (ret = ret2)) (\<lambda>_. Inr ret))"

text \<open>
  The four \<open>find\<close> methods return a counted reference to the first bundle that matches and is not
  freed; they differ in the test.
\<close>

fun find_bundle :: "(dtn_bundle \<Rightarrow> bool) \<Rightarrow> (bundle_ptr \<Rightarrow> bundle_obj) \<Rightarrow> (node \<times> bundle_ptr) list \<Rightarrow> bundle_ptr option" where
  "find_bundle P objs [] = None"
| "find_bundle P objs ((n, b) # xs) =
     (if P (bo_data (objs b)) \<and> \<not> is_freed (objs b) then Some b else find_bundle P objs xs)"

definition bl_find :: "(dtn_bundle \<Rightarrow> bool) \<Rightarrow> list_id \<Rightarrow> heap \<Rightarrow> (bundle_ptr option \<times> heap) res" where
  "bl_find P l h =
     (case find_bundle P (h_bundles h) (h_lists h l) of
        None \<Rightarrow> Inr (None, h)
      | Some b \<Rightarrow> bindR (add_ref b h) (\<lambda>h. Inr (Some b, h)))"

definition match_id :: "u32 \<Rightarrow> dtn_bundle \<Rightarrow> bool" where
  "match_id bid b = (b_bundleid b = bid)"

definition match_source :: "eid \<Rightarrow> timestamp \<Rightarrow> dtn_bundle \<Rightarrow> bool" where
  "match_source e ts b \<longleftrightarrow> ts_equal (b_creation_ts b) ts \<and> eid_equals (b_source b) e"

definition match_gbofid :: "gbofid \<Rightarrow> dtn_bundle \<Rightarrow> bool" where
  "match_gbofid g b = gbofid_equals g (gbofid_of b)"

definition match_extended :: "gbofid \<Rightarrow> timestamp \<Rightarrow> dtn_bundle \<Rightarrow> bool" where
  "match_extended g ts b \<longleftrightarrow> ts_equal ts (b_extended_id b) \<and> gbofid_equals g (gbofid_of b)"

text \<open>
  Every turn of \<open>clear\<close> removes one node, so their number is the length of the list. The reference
  \<open>b\<close> of \<open>move_contents\<close> is released at the end of each turn; a list moved to itself never gets
  empty, so the loop has a bound on its turns, and \<open>None\<close> when it is reached.
\<close>

fun clear_loop :: "nat \<Rightarrow> list_id \<Rightarrow> heap \<Rightarrow> heap res" where
  "clear_loop 0 l h = Inr h"
| "clear_loop (Suc k) l h =
     bindR (bl_pop_front l h) (\<lambda>(r, h).
       case r of
         None \<Rightarrow> Inr h
       | Some b \<Rightarrow> bindR (del_ref b h) (clear_loop k l))"

definition bl_clear :: "list_id \<Rightarrow> heap \<Rightarrow> heap res" where
  "bl_clear l h = clear_loop (length (h_lists h l)) l h"

definition move_one :: "list_id \<Rightarrow> list_id \<Rightarrow> heap \<Rightarrow> heap res" where
  "move_one l other h =
     bindR (bl_pop_front l h) (\<lambda>(r, h).
       case r of
         None \<Rightarrow> Inr h
       | Some b \<Rightarrow> bindR (bl_push_back other b h) (del_ref b))"

fun bl_move_contents :: "nat \<Rightarrow> list_id \<Rightarrow> list_id \<Rightarrow> heap \<Rightarrow> heap res option" where
  "bl_move_contents bound l other h =
     (if h_lists h l = [] then Some (Inr h)
      else case bound of
          0 \<Rightarrow> None
        | Suc k \<Rightarrow> (case move_one l other h of
            Inl e \<Rightarrow> Some (Inl e)
          | Inr h \<Rightarrow> bl_move_contents k l other h))"

subsection \<open>Creating and deleting a bundle\<close>

definition new_bundle :: "bundle_ptr \<Rightarrow> dtn_bundle \<Rightarrow> heap \<Rightarrow> heap" where
  "new_bundle b d h =
     (set_obj b \<lparr>bo_data = d\<lparr>b_freed := False\<rparr>, bo_refcount = 0, bo_mappings = []\<rparr> h)\<lparr>h_live := (h_live h)(b := True)\<rparr>"

definition delete_bundle :: "bundle_ptr \<Rightarrow> heap \<Rightarrow> heap res" where
  "delete_bundle b h =
     bindR (get_obj b h) (\<lambda>x.
     bindR (assertR (bo_mappings x = [])) (\<lambda>_. Inr (h\<lparr>h_live := (h_live h)(b := False)\<rparr>)))"

definition handle_bundle_free :: "bundle_ptr \<Rightarrow> heap \<Rightarrow> heap res" where
  "handle_bundle_free b h =
     bindR (get_obj b h) (\<lambda>x.
     bindR (assertR (bo_refcount x = 1)) (\<lambda>_.
     bindR (bl_contains ALL_BUNDLES b h) (\<lambda>c.
     bindR (assertR c) (\<lambda>_.
     bindR (bl_erase ALL_BUNDLES b h) (\<lambda>(_, h). delete_bundle b h)))))"

subsection \<open>Links between lists and bundles\<close>

text \<open>
  \<open>linked\<close>: the nodes of a list are distinct and allocated, and a node holds a bundle exactly when
  the bundle exists and its mappings record the node, with one mapping per list.
\<close>

definition linked :: "heap \<Rightarrow> bool" where
  "linked h \<longleftrightarrow>
     (\<forall>l. distinct (map fst (h_lists h l)) \<and> (\<forall>n\<in>fst ` set (h_lists h l). n < h_next h)) \<and>
     (\<forall>l n b. (n, b) \<in> set (h_lists h l) \<longleftrightarrow> h_live h b \<and> (l, n) \<in> set (bo_mappings (h_bundles h b))) \<and>
     (\<forall>b. h_live h b \<longrightarrow> distinct (map fst (bo_mappings (h_bundles h b))))"

definition link_node :: "list_id \<Rightarrow> nat \<Rightarrow> bundle_ptr \<Rightarrow> heap \<Rightarrow> heap" where
  "link_node l i b h =
     (let n = h_next h; xs = h_lists h l; x = h_bundles h b
      in set_obj b (x\<lparr>bo_mappings := bo_mappings x @ [(l, n)]\<rparr>)
           ((set_list l (take i xs @ (n, b) # drop i xs) h)\<lparr>h_next := n + 1\<rparr>))"

definition unlink_node :: "list_id \<Rightarrow> node \<Rightarrow> bundle_ptr \<Rightarrow> heap \<Rightarrow> heap" where
  "unlink_node l n b h =
     (let x = h_bundles h b
      in set_list l (AList.delete n (h_lists h l))
           (set_obj b (x\<lparr>bo_mappings := AList.delete l (bo_mappings x)\<rparr>) h))"

definition count_refs :: "int \<Rightarrow> bundle_ptr \<Rightarrow> heap \<Rightarrow> heap" where
  "count_refs k b h = (let x = h_bundles h b in set_obj b (x\<lparr>bo_refcount := bo_refcount x + k\<rparr>) h)"

definition mark_freed :: "bundle_ptr \<Rightarrow> heap \<Rightarrow> heap" where
  "mark_freed b h =
     (let x = h_bundles h b
      in (set_obj b (x\<lparr>bo_data := (bo_data x)\<lparr>b_freed := True\<rparr>\<rparr>) h)\<lparr>h_posted := h_posted h @ [b]\<rparr>)"

lemma set_delete: "set (AList.delete k xs) = {p \<in> set xs. fst p \<noteq> k}"
  by (auto simp: AList.delete_eq)

lemma length_delete:
  assumes "distinct (map fst xs)" "(k, v) \<in> set xs"
  shows "length xs = Suc (length (AList.delete k xs))"
  using assms
proof (induction xs)
  case (Cons p xs)
  show ?case
  proof (cases "fst p = k")
    case True
    then have "k \<notin> fst ` set xs"
      using Cons.prems(1) by auto
    then show ?thesis
      using True by (cases p) simp
  next
    case False
    then show ?thesis
      using Cons by (cases p) auto
  qed
qed simp

lemma set_delete_distinct:
  assumes "distinct (map fst xs)" "(k, v) \<in> set xs"
  shows "set (AList.delete k xs) = set xs - {(k, v)}"
proof (rule set_eqI)
  fix p
  have "fst p = k \<Longrightarrow> p \<in> set xs \<Longrightarrow> p = (k, v)"
    using eq_key_imp_eq_value [OF assms] by (cases p) simp
  then show "p \<in> set (AList.delete k xs) \<longleftrightarrow> p \<in> set xs - {(k, v)}"
    unfolding set_delete by (cases p) force
qed

lemmas heap_defs = set_obj_def set_list_def Let_def

lemma link_node_fields [simp]:
  "h_live (link_node l i b h) = h_live h"
  "h_posted (link_node l i b h) = h_posted h"
  "h_next (link_node l i b h) = Suc (h_next h)"
  "h_lists (link_node l i b h) = (h_lists h)(l := take i (h_lists h l) @ (h_next h, b) # drop i (h_lists h l))"
  "h_bundles (link_node l i b h) = (h_bundles h)(b := (h_bundles h b)\<lparr>bo_mappings := bo_mappings (h_bundles h b) @ [(l, h_next h)]\<rparr>)"
  by (simp_all add: link_node_def heap_defs)

lemma unlink_node_fields [simp]:
  "h_live (unlink_node l n b h) = h_live h"
  "h_posted (unlink_node l n b h) = h_posted h"
  "h_next (unlink_node l n b h) = h_next h"
  "h_lists (unlink_node l n b h) = (h_lists h)(l := AList.delete n (h_lists h l))"
  "h_bundles (unlink_node l n b h) = (h_bundles h)(b := (h_bundles h b)\<lparr>bo_mappings := AList.delete l (bo_mappings (h_bundles h b))\<rparr>)"
  by (simp_all add: unlink_node_def heap_defs)

lemma count_refs_fields [simp]:
  "h_live (count_refs k b h) = h_live h"
  "h_posted (count_refs k b h) = h_posted h"
  "h_next (count_refs k b h) = h_next h"
  "h_lists (count_refs k b h) = h_lists h"
  "h_bundles (count_refs k b h) = (h_bundles h)(b := (h_bundles h b)\<lparr>bo_refcount := bo_refcount (h_bundles h b) + k\<rparr>)"
  by (simp_all add: count_refs_def heap_defs)

lemma mark_freed_fields [simp]:
  "h_live (mark_freed b h) = h_live h"
  "h_posted (mark_freed b h) = h_posted h @ [b]"
  "h_next (mark_freed b h) = h_next h"
  "h_lists (mark_freed b h) = h_lists h"
  "h_bundles (mark_freed b h) = (h_bundles h)(b := (h_bundles h b)\<lparr>bo_data := (bo_data (h_bundles h b))\<lparr>b_freed := True\<rparr>\<rparr>)"
  by (simp_all add: mark_freed_def heap_defs)

lemma linkedD:
  assumes "linked h"
  shows linked_distinct: "distinct (map fst (h_lists h l))"
    and linked_next: "(n, b) \<in> set (h_lists h l) \<Longrightarrow> n < h_next h"
    and linked_iff: "(n, b) \<in> set (h_lists h l) \<longleftrightarrow> h_live h b \<and> (l, n) \<in> set (bo_mappings (h_bundles h b))"
    and linked_mappings: "h_live h b \<Longrightarrow> distinct (map fst (bo_mappings (h_bundles h b)))"
  using assms unfolding linked_def by (blast, force, blast, blast)

lemma linked_cong:
  assumes "linked h" "h_live h' = h_live h" "h_lists h' = h_lists h" "h_next h' = h_next h"
    "\<And>b. bo_mappings (h_bundles h' b) = bo_mappings (h_bundles h b)"
  shows "linked h'"
  using assms unfolding linked_def by simp

lemma linked_count_refs [simp]: "linked h \<Longrightarrow> linked (count_refs k b h)"
  by (erule linked_cong) auto

lemma linked_mark_freed [simp]: "linked h \<Longrightarrow> linked (mark_freed b h)"
  by (erule linked_cong) auto

lemma linked_find_mapping:
  assumes "linked h" "h_live h b"
  shows "find_mapping l (h_bundles h b) = Some n \<longleftrightarrow> (n, b) \<in> set (h_lists h l)"
  using linked_iff [OF assms(1), of n b l] linked_mappings [OF assms] assms(2)
  by (simp add: find_mapping_def map_of_eq_Some_iff)

lemma linked_queued:
  assumes "linked h" "h_live h b"
  shows "is_queued_on l (h_bundles h b) \<longleftrightarrow> b \<in> snd ` set (h_lists h l)"
  using linked_find_mapping [OF assms, of l] unfolding is_queued_on_def by (force simp: image_iff)

lemma is_queued_on_iff: "is_queued_on l x \<longleftrightarrow> l \<in> fst ` set (bo_mappings x)"
  by (auto simp: is_queued_on_def find_mapping_def map_of_eq_None_iff)

lemma linked_lookup:
  assumes "linked h"
  shows "map_of (h_lists h l) n = Some b \<longleftrightarrow> (n, b) \<in> set (h_lists h l)"
  using linked_distinct [OF assms, of l] by (simp add: map_of_eq_Some_iff)

lemma linked_node_unique:
  assumes "linked h" "(n, b) \<in> set (h_lists h l)" "(n, c) \<in> set (h_lists h l)"
  shows "b = c"
  using eq_key_imp_eq_value [OF linked_distinct [OF assms(1)] assms(2,3)] .

lemma linked_link_node:
  assumes lk: "linked h" and live: "h_live h b" and q: "\<not> is_queued_on l (h_bundles h b)"
  shows "linked (link_node l i b h)"
proof -
  have fresh: "(h_next h, c) \<notin> set (h_lists h k)" for c k
    using linked_next [OF lk, of "h_next h" c k] by blast
  have fresh_map: "h_live h c \<Longrightarrow> (k, h_next h) \<notin> set (bo_mappings (h_bundles h c))" for c k
    using linked_iff [OF lk, of "h_next h" c k] fresh by blast
  have td: "set (take i xs) \<union> set (drop i xs) = set xs" for xs :: "(node \<times> bundle_ptr) list"
    by (metis append_take_drop_id set_append)
  have "distinct (map fst (take i (h_lists h l)) @ map fst (drop i (h_lists h l)))"
    using linked_distinct [OF lk, of l] by (simp flip: map_append)
  moreover have "h_next h \<notin> fst ` (set (take i (h_lists h l)) \<union> set (drop i (h_lists h l)))"
    unfolding td using fresh by force
  ultimately have nodes: "distinct (map fst (h_lists (link_node l i b h) k))" for k
    using linked_distinct [OF lk, of k] by (cases "k = l") auto
  have mem: "set (h_lists (link_node l i b h) k) = (if k = l then insert (h_next h, b) (set (h_lists h l)) else set (h_lists h k))" for k
    using td [of "h_lists h l"] by auto
  have bounds: "\<forall>n\<in>fst ` set (h_lists (link_node l i b h) k). n < h_next (link_node l i b h)" for k
    unfolding mem using linked_next [OF lk] by (auto simp: less_Suc_eq)
  have iff: "(n, c) \<in> set (h_lists (link_node l i b h) k) \<longleftrightarrow>
      h_live (link_node l i b h) c \<and> (k, n) \<in> set (bo_mappings (h_bundles (link_node l i b h) c))" for n c k
    unfolding mem using linked_iff [OF lk, of n c k] live fresh_map by auto
  have maps: "h_live h c \<Longrightarrow> distinct (map fst (bo_mappings (h_bundles (link_node l i b h) c)))" for c
    using linked_mappings [OF lk, of c] q by (auto simp: is_queued_on_iff)
  show ?thesis
    unfolding linked_def using nodes bounds iff maps by simp
qed

lemma linked_unlink_node:
  assumes lk: "linked h" and node: "(n, b) \<in> set (h_lists h l)"
  shows "linked (unlink_node l n b h)"
proof -
  have live: "h_live h b" and m: "(l, n) \<in> set (bo_mappings (h_bundles h b))"
    using linked_iff [OF lk] node by auto
  have mem: "set (h_lists (unlink_node l n b h) k) = (if k = l then set (h_lists h l) - {(n, b)} else set (h_lists h k))" for k
    using set_delete_distinct [OF linked_distinct [OF lk] node] by simp
  have one: "h_live h b \<Longrightarrow> (l, m) \<in> set (bo_mappings (h_bundles h b)) \<Longrightarrow> m = n" for m
    using eq_key_imp_eq_value [OF linked_mappings [OF lk live] m] by blast
  have iff: "(m, c) \<in> set (h_lists (unlink_node l n b h) k) \<longleftrightarrow>
      h_live (unlink_node l n b h) c \<and> (k, m) \<in> set (bo_mappings (h_bundles (unlink_node l n b h) c))" for m c k
    unfolding mem using linked_iff [OF lk, of m c k] one [OF live, of m] by (auto simp: set_delete)
  have "distinct (map fst (h_lists (unlink_node l n b h) k))" for k
    using linked_distinct [OF lk, of k] by (cases "k = l") (simp_all add: distinct_delete)
  moreover have "\<forall>m\<in>fst ` set (h_lists (unlink_node l n b h) k). m < h_next (unlink_node l n b h)" for k
    unfolding mem using linked_next [OF lk] by auto
  moreover have "h_live h c \<Longrightarrow> distinct (map fst (bo_mappings (h_bundles (unlink_node l n b h) c)))" for c
    using linked_mappings [OF lk, of c] by (cases "c = b") (simp_all add: distinct_delete)
  ultimately show ?thesis
    unfolding linked_def using iff by simp
qed

subsection \<open>Counting the references\<close>

text \<open>
  \<open>held b\<close> counts the references to \<open>b\<close> that are not those of a list. \<open>counted\<close>: the counter of a
  bundle is the number of its mappings and of these references; it is 0 until the first of them
  puts the bundle on the list of all bundles, and drops to 1 when that list alone is left: then
  the bundle is marked as freed and its free event is posted.
\<close>

definition obj_counted :: "int \<Rightarrow> bundle_obj \<Rightarrow> bool" where
  "obj_counted k x \<longleftrightarrow>
     bo_refcount x = int (length (bo_mappings x)) + k \<and>
     (if is_freed x then bo_refcount x = 1 \<and> map fst (bo_mappings x) = [ALL_BUNDLES]
      else if is_queued_on ALL_BUNDLES x then bo_refcount x \<ge> 2
      else bo_refcount x = 0)"

definition counted :: "(bundle_ptr \<Rightarrow> int) \<Rightarrow> heap \<Rightarrow> bool" where
  "counted held h \<longleftrightarrow>
     (\<forall>b. if h_live h b then obj_counted (held b) (h_bundles h b) else held b = 0) \<and>
     distinct (h_posted h) \<and> set (h_posted h) = {b. h_live h b \<and> is_freed (h_bundles h b)}"

lemma counted_obj: "counted held h \<Longrightarrow> h_live h b \<Longrightarrow> obj_counted (held b) (h_bundles h b)"
  unfolding counted_def by metis

lemma counted_posted: "counted held h \<Longrightarrow> b \<in> set (h_posted h) \<longleftrightarrow> h_live h b \<and> is_freed (h_bundles h b)"
  unfolding counted_def by blast

text \<open>A step that changes one bundle only keeps the count of the others.\<close>

lemma counted_update:
  assumes "counted held h" and h': "h_live h' = h_live h" "\<And>c. c \<noteq> b \<Longrightarrow> h_bundles h' c = h_bundles h c"
    and live: "h_live h b" and ok: "obj_counted k (h_bundles h' b)"
    and posted: "h_posted h' = h_posted h @ (if is_freed (h_bundles h' b) \<and> \<not> is_freed (h_bundles h b) then [b] else [])"
    and keep: "is_freed (h_bundles h b) \<Longrightarrow> is_freed (h_bundles h' b)"
  shows "counted (held(b := k)) h'"
proof -
  have "if h_live h' c then obj_counted ((held(b := k)) c) (h_bundles h' c) else (held(b := k)) c = 0" for c
    using assms(1) h' ok live unfolding counted_def by (cases "c = b") auto
  moreover have "set (h_posted h') = {c. h_live h' c \<and> is_freed (h_bundles h' c)}"
  proof (rule set_eqI)
    fix c
    show "c \<in> set (h_posted h') \<longleftrightarrow> c \<in> {c. h_live h' c \<and> is_freed (h_bundles h' c)}"
      using counted_posted [OF assms(1), of c] h' live keep by (cases "c = b") (auto simp: posted)
  qed
  moreover have "distinct (h_posted h')"
    using assms(1) counted_posted [OF assms(1), of b] unfolding posted counted_def by auto
  ultimately show ?thesis
    unfolding counted_def by blast
qed

lemma is_freed_simps [simp]:
  "is_freed (x\<lparr>bo_mappings := m\<rparr>) = is_freed x"
  "is_freed (x\<lparr>bo_refcount := r\<rparr>) = is_freed x"
  "is_freed (x\<lparr>bo_data := d\<rparr>) = b_freed d"
  by (simp_all add: is_freed_def)

lemma is_queued_on_simps [simp]:
  "is_queued_on l (x\<lparr>bo_refcount := r\<rparr>) = is_queued_on l x"
  "is_queued_on l (x\<lparr>bo_data := d\<rparr>) = is_queued_on l x"
  "is_queued_on l (x\<lparr>bo_mappings := m @ [(k, n)]\<rparr>) \<longleftrightarrow> is_queued_on l (x\<lparr>bo_mappings := m\<rparr>) \<or> k = l"
  "is_queued_on l (x\<lparr>bo_mappings := AList.delete k m\<rparr>) \<longleftrightarrow> k \<noteq> l \<and> is_queued_on l (x\<lparr>bo_mappings := m\<rparr>)"
  "is_queued_on l (x\<lparr>bo_mappings := bo_mappings x\<rparr>) = is_queued_on l x"
  by (force simp: is_queued_on_iff set_delete image_iff)+

lemma counted_link_node:
  assumes ct: "counted held h" and live: "h_live h b" and nf: "\<not> is_freed (h_bundles h b)" and l: "l \<noteq> ALL_BUNDLES"
  shows "counted (held(b := held b - 1)) (link_node l i b h)"
  by (rule counted_update [OF ct _ _ live]) (use counted_obj [OF ct live] nf l in \<open>auto simp: obj_counted_def\<close>)

lemma counted_unlink_node:
  assumes ct: "counted held h" and lk: "linked h" and node: "(n, b) \<in> set (h_lists h l)"
    and nf: "\<not> is_freed (h_bundles h b)" and l: "l \<noteq> ALL_BUNDLES"
  shows "counted (held(b := held b + 1)) (unlink_node l n b h)"
proof (rule counted_update [OF ct])
  show live: "h_live h b"
    using linked_iff [OF lk] node by blast
  have "(l, n) \<in> set (bo_mappings (h_bundles h b))"
    using linked_iff [OF lk] node by blast
  then have "length (bo_mappings (h_bundles h b)) = Suc (length (AList.delete l (bo_mappings (h_bundles h b))))"
    by (rule length_delete [OF linked_mappings [OF lk live]])
  then show "obj_counted (held b + 1) (h_bundles (unlink_node l n b h) b)"
    using counted_obj [OF ct live] nf l by (auto simp: obj_counted_def)
qed (use nf in auto)

subsection \<open>The effect of the operations\<close>

lemma inc_ref_eq:
  assumes "h_live h b" "\<not> is_freed (h_bundles h b)" "0 \<le> bo_refcount (h_bundles h b)"
  shows "inc_ref b h = Inr (bo_refcount (h_bundles h b) + 1, count_refs 1 b h)"
  using assms by (simp add: inc_ref_def get_obj_def count_refs_def Let_def)

lemma add_bundle_with_eq:
  assumes "h_live h b" "\<not> is_freed (h_bundles h b)" "\<not> is_queued_on l (h_bundles h b)"
  shows "add_bundle_with ref l i b h = ref b (link_node l i b h)"
  using assms by (simp add: add_bundle_with_def get_obj_def link_node_def Let_def)

lemma add_ref_counted_eq:
  assumes "h_live h b" "\<not> is_freed (h_bundles h b)" "0 < bo_refcount (h_bundles h b)"
  shows "add_ref b h = Inr (count_refs 1 b h)"
  using assms by (simp add: add_ref_def inc_ref_eq)

lemma add_ref_first_eq:
  assumes "h_live h b" "\<not> is_freed (h_bundles h b)" "bo_refcount (h_bundles h b) = 0"
    "\<not> is_queued_on ALL_BUNDLES (h_bundles h b)"
  shows "add_ref b h =
    Inr (count_refs 1 b (link_node ALL_BUNDLES (length (h_lists h ALL_BUNDLES)) b (count_refs 1 b h)))"
  using assms by (simp add: add_ref_def inc_ref_eq add_bundle_with_eq)

lemma del_bundle_eq:
  assumes lk: "linked h" and node: "(n, b) \<in> set (h_lists h l)"
  shows "del_bundle l n h = Inr (b, unlink_node l n b h)"
proof -
  have live: "h_live h b"
    using linked_iff [OF lk] node by blast
  have "map_of (h_lists h l) n = Some b" "find_mapping l (h_bundles h b) = Some n"
    using linked_lookup [OF lk] linked_find_mapping [OF lk live] node by blast+
  then show ?thesis
    using live by (simp add: del_bundle_def get_obj_def unlink_node_def Let_def)
qed

text \<open>Taking and releasing a reference.\<close>

lemma add_ref_ok:
  assumes lk: "linked h" and ct: "counted held h" and live: "h_live h b" and nf: "\<not> is_freed (h_bundles h b)"
  shows "\<exists>h'. add_ref b h = Inr h' \<and> linked h' \<and> counted (held(b := held b + 1)) h' \<and>
    h_live h' = h_live h \<and> \<not> is_freed (h_bundles h' b) \<and> 2 \<le> bo_refcount (h_bundles h' b) \<and>
    (\<forall>l. l \<noteq> ALL_BUNDLES \<longrightarrow> h_lists h' l = h_lists h l)"
proof (cases "is_queued_on ALL_BUNDLES (h_bundles h b)")
  case True
  have ob: "2 \<le> bo_refcount (h_bundles h b)"
    using counted_obj [OF ct live] nf True by (simp add: obj_counted_def)
  have "counted (held(b := held b + 1)) (count_refs 1 b h)"
    by (rule counted_update [OF ct _ _ live]) (use counted_obj [OF ct live] nf True in \<open>auto simp: obj_counted_def\<close>)
  then show ?thesis
    using add_ref_counted_eq [OF live nf] ob nf lk by (intro exI [of _ "count_refs 1 b h"]) simp
next
  case False
  define h' where "h' = count_refs 1 b (link_node ALL_BUNDLES (length (h_lists h ALL_BUNDLES)) b (count_refs 1 b h))"
  have ob: "bo_refcount (h_bundles h b) = 0"
    using counted_obj [OF ct live] nf False by (simp add: obj_counted_def)
  have "linked h'"
    unfolding h'_def using lk live False by (intro linked_count_refs linked_link_node) simp_all
  moreover have "counted (held(b := held b + 1)) h'"
    by (rule counted_update [OF ct _ _ live])
      (use counted_obj [OF ct live] nf False in \<open>auto simp: obj_counted_def h'_def\<close>)
  ultimately show ?thesis
    using add_ref_first_eq [OF live nf ob False] nf ob by (intro exI [of _ h']) (simp add: h'_def)
qed

lemma del_ref_ok:
  assumes lk: "linked h" and ct: "counted held h" and live: "h_live h b" and held: "1 \<le> held b"
  shows "\<exists>h'. del_ref b h = Inr h' \<and> linked h' \<and> counted (held(b := held b - 1)) h' \<and>
    h_live h' = h_live h \<and> h_lists h' = h_lists h"
proof -
  let ?x = "h_bundles h b"
  have ob: "obj_counted (held b) ?x"
    by (rule counted_obj [OF ct live])
  have nf: "\<not> is_freed ?x"
    using ob held by (auto simp: obj_counted_def)
  have r: "2 \<le> bo_refcount ?x" and q: "is_queued_on ALL_BUNDLES ?x"
    using ob held nf unfolding obj_counted_def by (auto split: if_splits)
  consider "bo_refcount ?x > 2" | "bo_refcount ?x = 2"
    using r by linarith
  then show ?thesis
  proof cases
    case 1
    have "counted (held(b := held b - 1)) (count_refs (- 1) b h)"
      by (rule counted_update [OF ct _ _ live]) (use ob nf q 1 in \<open>auto simp: obj_counted_def\<close>)
    moreover have "del_ref b h = Inr (count_refs (- 1) b h)"
      using 1 live nf by (simp add: del_ref_def get_obj_def count_refs_def Let_def)
    ultimately show ?thesis
      using lk by simp
  next
    case 2
    have len: "length (bo_mappings ?x) \<le> 1"
      using ob held 2 by (simp add: obj_counted_def)
    then have "map fst (bo_mappings ?x) = [ALL_BUNDLES]"
      using q by (cases "bo_mappings ?x") (auto simp: is_queued_on_iff)
    then have "counted (held(b := held b - 1)) (mark_freed b (count_refs (- 1) b h))"
      by (intro counted_update [OF ct _ _ live]) (use ob nf q 2 in \<open>auto simp: obj_counted_def\<close>)
    moreover have "del_ref b h = Inr (mark_freed b (count_refs (- 1) b h))"
      using 2 live nf by (simp add: del_ref_def get_obj_def count_refs_def mark_freed_def heap_defs)
    ultimately show ?thesis
      using lk by (intro exI [of _ "mark_freed b (count_refs (- 1) b h)"]) simp
  qed
qed

definition bl_inv :: "(bundle_ptr \<Rightarrow> int) \<Rightarrow> heap \<Rightarrow> bool" where
  "bl_inv held h \<longleftrightarrow> linked h \<and> counted held h \<and> (\<forall>b. 0 \<le> held b)"

lemma bl_invD:
  assumes "bl_inv held h"
  shows bl_inv_linked: "linked h" and bl_inv_counted: "counted held h" and bl_inv_held: "0 \<le> held b"
  using assms by (simp_all add: bl_inv_def)

lemma bl_inv_obj: "bl_inv held h \<Longrightarrow> h_live h b \<Longrightarrow> obj_counted (held b) (h_bundles h b)"
  by (simp add: bl_inv_def counted_obj)

lemma on_list_live: "bl_inv held h \<Longrightarrow> (n, b) \<in> set (h_lists h l) \<Longrightarrow> h_live h b"
  using linked_iff [OF bl_inv_linked] by blast

text \<open>A freed bundle is on the list of all bundles only.\<close>

lemma on_list_not_freed:
  assumes iv: "bl_inv held h" and node: "(n, b) \<in> set (h_lists h l)" and l: "l \<noteq> ALL_BUNDLES"
  shows "\<not> is_freed (h_bundles h b)"
proof
  assume f: "is_freed (h_bundles h b)"
  have "(l, n) \<in> set (bo_mappings (h_bundles h b))"
    using linked_iff [OF bl_inv_linked [OF iv]] node by blast
  moreover have "map fst (bo_mappings (h_bundles h b)) = [ALL_BUNDLES]"
    using bl_inv_obj [OF iv on_list_live [OF iv node]] f by (simp add: obj_counted_def)
  ultimately show False
    using l by (cases "bo_mappings (h_bundles h b)") auto
qed

lemma bl_inv_add_ref:
  assumes iv: "bl_inv held h" and live: "h_live h b" and nf: "\<not> is_freed (h_bundles h b)"
  shows "\<exists>h'. add_ref b h = Inr h' \<and> bl_inv (held(b := held b + 1)) h' \<and> h_live h' = h_live h \<and>
    (\<forall>l. l \<noteq> ALL_BUNDLES \<longrightarrow> h_lists h' l = h_lists h l)"
proof -
  have "\<forall>c. 0 \<le> (held(b := held b + 1)) c"
    using bl_inv_held [OF iv] by (auto intro: add_nonneg_nonneg)
  then show ?thesis
    using add_ref_ok [OF bl_inv_linked [OF iv] bl_inv_counted [OF iv] live nf] unfolding bl_inv_def by blast
qed

lemma bl_inv_del_ref:
  assumes iv: "bl_inv held h" and held: "1 \<le> held b"
  shows "\<exists>h'. del_ref b h = Inr h' \<and> bl_inv (held(b := held b - 1)) h' \<and> h_live h' = h_live h \<and> h_lists h' = h_lists h"
proof -
  have live: "h_live h b"
    using bl_inv_counted [OF iv] held unfolding counted_def by (metis not_one_le_zero)
  have "\<forall>c. 0 \<le> (held(b := held b - 1)) c"
    using bl_inv_held [OF iv] held by simp
  then show ?thesis
    using del_ref_ok [OF bl_inv_linked [OF iv] bl_inv_counted [OF iv] live held] unfolding bl_inv_def by blast
qed

lemma bl_inv_del_ref':
  assumes "bl_inv (held(b := k)) h" "1 \<le> k"
  shows "\<exists>h'. del_ref b h = Inr h' \<and> bl_inv (held(b := k - 1)) h' \<and> h_live h' = h_live h \<and> h_lists h' = h_lists h"
  using bl_inv_del_ref [OF assms(1), of b] assms(2) by simp

lemma bl_inv_add_bundle:
  assumes iv: "bl_inv held h" and live: "h_live h b" and l: "l \<noteq> ALL_BUNDLES"
  shows "\<exists>h'. add_bundle l i b h = Inr h' \<and> bl_inv held h' \<and> h_live h' = h_live h \<and>
    (\<forall>k. k \<noteq> ALL_BUNDLES \<longrightarrow> h_lists h' k =
       (if k = l \<and> \<not> is_freed (h_bundles h b) \<and> \<not> is_queued_on l (h_bundles h b)
        then take i (h_lists h l) @ (h_next h, b) # drop i (h_lists h l) else h_lists h k))"
proof (cases "is_freed (h_bundles h b) \<or> is_queued_on l (h_bundles h b)")
  case True
  then have "add_bundle l i b h = Inr h"
    using live by (auto simp: add_bundle_def add_bundle_with_def get_obj_def)
  then show ?thesis
    using iv True by auto
next
  case False
  let ?h = "link_node l i b h"
  have eq: "add_bundle l i b h = add_ref b ?h"
    unfolding add_bundle_def using add_bundle_with_eq [OF live] False by blast
  have lk: "linked ?h" and ct: "counted (held(b := held b - 1)) ?h"
    using linked_link_node [OF bl_inv_linked [OF iv] live] counted_link_node [OF bl_inv_counted [OF iv] live _ l] False
    by blast+
  have lists: "k \<noteq> ALL_BUNDLES \<Longrightarrow> h_lists ?h k = (if k = l
      then take i (h_lists h l) @ (h_next h, b) # drop i (h_lists h l) else h_lists h k)" for k
    by simp
  have "h_live ?h b" "\<not> is_freed (h_bundles ?h b)"
    using live False by simp_all
  from add_ref_ok [OF lk ct this] obtain h' where
    "add_ref b ?h = Inr h'" "linked h'" "counted held h'" "h_live h' = h_live ?h"
    "\<forall>k. k \<noteq> ALL_BUNDLES \<longrightarrow> h_lists h' k = h_lists ?h k"
    by (auto simp del: link_node_fields)
  then show ?thesis
    using eq False bl_inv_held [OF iv] by (intro exI [of _ h']) (simp add: bl_inv_def)
qed

lemma bl_inv_unlink_node:
  assumes iv: "bl_inv held h" and node: "(n, b) \<in> set (h_lists h l)" and l: "l \<noteq> ALL_BUNDLES"
  shows "bl_inv (held(b := held b + 1)) (unlink_node l n b h)"
  using linked_unlink_node [OF bl_inv_linked [OF iv] node] bl_inv_held [OF iv]
    counted_unlink_node [OF bl_inv_counted [OF iv] bl_inv_linked [OF iv] node on_list_not_freed [OF iv node l] l]
  by (auto simp: bl_inv_def intro: add_nonneg_nonneg)

lemma bl_inv_pop_at:
  assumes iv: "bl_inv held h" and node: "(n, b) \<in> set (h_lists h l)" and l: "l \<noteq> ALL_BUNDLES"
  shows "\<exists>h'. bl_pop_at l n h = Inr (Some b, h') \<and> bl_inv (held(b := held b + 1)) h' \<and> h_live h' = h_live h \<and>
    (\<forall>k. k \<noteq> ALL_BUNDLES \<longrightarrow> h_lists h' k = (if k = l then AList.delete n (h_lists h l) else h_lists h k))"
proof -
  let ?h = "unlink_node l n b h" and ?held = "held(b := held b + 1)"
  have "h_live ?h b" "\<not> is_freed (h_bundles ?h b)"
    using on_list_live [OF iv node] on_list_not_freed [OF iv node l] by simp_all
  from bl_inv_add_ref [OF bl_inv_unlink_node [OF iv node l] this] obtain h1 where h1:
    "add_ref b ?h = Inr h1" "bl_inv (held(b := 2 + held b)) h1" "h_live h1 = h_live ?h"
    "\<forall>k. k \<noteq> ALL_BUNDLES \<longrightarrow> h_lists h1 k = h_lists ?h k"
    by (auto simp del: unlink_node_fields)
  from bl_inv_del_ref' [OF h1(2)] bl_inv_held [OF iv, of b] obtain h' where
    "del_ref b h1 = Inr h'" "bl_inv ?held h'" "h_live h' = h_live h1" "h_lists h' = h_lists h1"
    by (auto simp: add.commute)
  then show ?thesis
    using h1 del_bundle_eq [OF bl_inv_linked [OF iv] node] by (intro exI [of _ h']) (simp add: bl_pop_at_def)
qed

lemma bl_inv_erase:
  assumes iv: "bl_inv held h" and live: "h_live h b" and l: "l \<noteq> ALL_BUNDLES"
  shows "\<exists>h'. bl_erase l b h = Inr (b \<in> snd ` set (h_lists h l), h') \<and> bl_inv held h' \<and>
    h_lists h' l = filter (\<lambda>p. snd p \<noteq> b) (h_lists h l)"
proof (cases "find_mapping l (h_bundles h b)")
  case None
  then have nq: "b \<notin> snd ` set (h_lists h l)"
    using linked_queued [OF bl_inv_linked [OF iv] live, of l] by (simp add: is_queued_on_def)
  then have "filter (\<lambda>p. snd p \<noteq> b) (h_lists h l) = h_lists h l"
    by (auto simp: filter_id_conv)
  then show ?thesis
    using None iv nq live by (intro exI [of _ h]) (simp add: bl_erase_def get_obj_def)
next
  case (Some n)
  note lk = bl_inv_linked [OF iv]
  have node: "(n, b) \<in> set (h_lists h l)"
    using linked_find_mapping [OF lk live] Some by blast
  have only: "(m, b) \<in> set (h_lists h l) \<Longrightarrow> m = n" for m
    using linked_find_mapping [OF lk live] Some by (metis option.inject)
  let ?h = "unlink_node l n b h"
  from bl_inv_del_ref' [OF bl_inv_unlink_node [OF iv node l]] bl_inv_held [OF iv, of b] obtain h' where
    h': "del_ref b ?h = Inr h'" "bl_inv held h'" "h_lists h' = h_lists ?h"
    by (auto simp del: unlink_node_fields)
  have "b \<in> snd ` set (h_lists h l)"
    using node by force
  moreover have "AList.delete n (h_lists h l) = filter (\<lambda>p. snd p \<noteq> b) (h_lists h l)"
    unfolding AList.delete_eq
  proof (rule filter_cong [OF refl])
    fix p assume p: "p \<in> set (h_lists h l)"
    obtain m c where "p = (m, c)"
      by force
    then show "(case p of (k', _) \<Rightarrow> n \<noteq> k') \<longleftrightarrow> snd p \<noteq> b"
      using p only [of m] linked_node_unique [OF lk node, of c] by auto
  qed
  moreover have "bl_erase l b h = Inr (True, h')"
    using Some live linked_lookup [OF lk, of l n b] node h'(1) del_bundle_eq [OF lk node]
    by (simp add: bl_erase_def get_obj_def)
  ultimately show ?thesis
    using h' by simp
qed

lemma bl_contains_eq:
  assumes "bl_inv held h" "h_live h b"
  shows "bl_contains l b h = Inr (b \<in> snd ` set (h_lists h l))"
  using assms linked_queued [OF bl_inv_linked [OF assms(1)] assms(2), of l]
  by (simp add: bl_contains_def get_obj_def Let_def)

lemma find_bundle_Some:
  "find_bundle P objs xs = Some b \<Longrightarrow> (\<exists>n. (n, b) \<in> set xs) \<and> P (bo_data (objs b)) \<and> \<not> is_freed (objs b)"
  by (induction P objs xs rule: find_bundle.induct) (auto split: if_splits)

lemma bl_inv_find:
  assumes iv: "bl_inv held h"
  shows "\<exists>h'. bl_find P l h = Inr (find_bundle P (h_bundles h) (h_lists h l), h') \<and>
    bl_inv (case find_bundle P (h_bundles h) (h_lists h l) of None \<Rightarrow> held | Some b \<Rightarrow> held(b := held b + 1)) h'"
proof (cases "find_bundle P (h_bundles h) (h_lists h l)")
  case None
  then show ?thesis
    using iv by (simp add: bl_find_def)
next
  case (Some b)
  from find_bundle_Some [OF this] obtain n where "(n, b) \<in> set (h_lists h l)" "\<not> is_freed (h_bundles h b)"
    by blast
  then show ?thesis
    using bl_inv_add_ref [OF iv on_list_live [OF iv]] Some by (fastforce simp: bl_find_def)
qed

lemma bl_inv_pop_front:
  assumes iv: "bl_inv held h" and xs: "h_lists h l = (n, b) # xs" and l: "l \<noteq> ALL_BUNDLES"
  shows "\<exists>h'. bl_pop_front l h = Inr (Some b, h') \<and> bl_inv (held(b := held b + 1)) h' \<and> h_live h' = h_live h \<and>
    (\<forall>k. k \<noteq> ALL_BUNDLES \<longrightarrow> h_lists h' k = (if k = l then xs else h_lists h k))"
proof -
  have node: "(n, b) \<in> set (h_lists h l)"
    using xs by simp
  have eq: "AList.delete n (h_lists h l) = xs"
    using linked_distinct [OF bl_inv_linked [OF iv], of l] xs by (auto simp: AList.delete_id image_iff)
  have "bl_pop_front l h = bl_pop_at l n h"
    using xs by (simp add: bl_pop_front_def)
  with bl_inv_pop_at [OF iv node l, unfolded eq] show ?thesis
    by simp
qed

lemma bl_inv_pop_back:
  assumes iv: "bl_inv held h" and ne: "h_lists h l \<noteq> []" and l: "l \<noteq> ALL_BUNDLES"
  shows "\<exists>h' b. bl_pop_back l h = Inr (Some b, h') \<and> bl_inv (held(b := held b + 1)) h'"
proof -
  obtain n b where p: "last (h_lists h l) = (n, b)"
    by force
  then have "(n, b) \<in> set (h_lists h l)"
    using last_in_set [OF ne] by simp
  from bl_inv_pop_at [OF iv this l] show ?thesis
    using ne p by (auto simp: bl_pop_back_def)
qed

text \<open>\<open>clear\<close> and \<open>move_contents\<close> empty the list.\<close>

lemma bl_inv_clear_loop:
  assumes "bl_inv held h" "h_lists h l = xs" "l \<noteq> ALL_BUNDLES"
  shows "\<exists>h'. clear_loop (length xs) l h = Inr h' \<and> bl_inv held h' \<and> h_lists h' l = []"
  using assms
proof (induction xs arbitrary: h)
  case (Cons p xs)
  obtain n b where p: "p = (n, b)"
    by force
  from bl_inv_pop_front [OF Cons.prems(1) _ Cons.prems(3)] Cons.prems(2,3) obtain h1 where
    h1: "bl_pop_front l h = Inr (Some b, h1)" "bl_inv (held(b := held b + 1)) h1" "h_lists h1 l = xs"
    unfolding p by fastforce
  from bl_inv_del_ref' [OF h1(2)] bl_inv_held [OF Cons.prems(1), of b] h1(3) obtain h2 where
    "del_ref b h1 = Inr h2" "bl_inv held h2" "h_lists h2 l = xs"
    by auto
  with Cons.IH [of h2] Cons.prems(3) h1(1) show ?case
    by simp
qed simp

lemma bl_inv_clear:
  assumes "bl_inv held h" "l \<noteq> ALL_BUNDLES"
  shows "\<exists>h'. bl_clear l h = Inr h' \<and> bl_inv held h' \<and> h_lists h' l = []"
  using bl_inv_clear_loop [OF assms(1) refl assms(2)] by (simp add: bl_clear_def)

lemma bl_inv_move_one:
  assumes iv: "bl_inv held h" and xs: "h_lists h l = (n, b) # xs" and l: "l \<noteq> ALL_BUNDLES"
    and k: "k \<noteq> ALL_BUNDLES" "k \<noteq> l"
  shows "\<exists>h'. move_one l k h = Inr h' \<and> bl_inv held h' \<and> h_lists h' l = xs \<and>
    snd ` set (h_lists h' k) = insert b (snd ` set (h_lists h k))"
proof -
  from bl_inv_pop_front [OF iv xs l] obtain h1 where
    h1: "bl_pop_front l h = Inr (Some b, h1)" "bl_inv (held(b := held b + 1)) h1" "h_live h1 = h_live h"
      "h_lists h1 l = xs" "h_lists h1 k = h_lists h k"
    using l k by fastforce
  have held: "0 \<le> held b"
    by (rule bl_inv_held [OF iv])
  have live: "h_live h1 b"
    using on_list_live [OF iv, of n b l] xs h1(3) by simp
  have nf: "\<not> is_freed (h_bundles h1 b)"
    using bl_inv_obj [OF h1(2) live] held by (auto simp: obj_counted_def)
  have q: "is_queued_on k (h_bundles h1 b) \<longleftrightarrow> b \<in> snd ` set (h_lists h1 k)"
    by (rule linked_queued [OF bl_inv_linked [OF h1(2)] live])
  from bl_inv_add_bundle [OF h1(2) live k(1), of "length (h_lists h1 k)"] obtain h2 where
    h2: "bl_push_back k b h1 = Inr h2" "bl_inv (held(b := held b + 1)) h2" "h_lists h2 l = xs"
      "h_lists h2 k = (if b \<in> snd ` set (h_lists h1 k) then h_lists h1 k else h_lists h1 k @ [(h_next h1, b)])"
    using l k h1(4) nf q by (auto simp: bl_push_back_def)
  from bl_inv_del_ref' [OF h2(2)] held obtain h' where
    "del_ref b h2 = Inr h'" "bl_inv held h'" "h_lists h' = h_lists h2"
    by auto
  then show ?thesis
    using h1 h2 by (intro exI [of _ h']) (auto simp: move_one_def)
qed

lemma bl_inv_move_contents:
  assumes "bl_inv held h" "h_lists h l = xs" "l \<noteq> ALL_BUNDLES" "k \<noteq> ALL_BUNDLES" "k \<noteq> l"
  shows "\<exists>h'. bl_move_contents (length xs) l k h = Some (Inr h') \<and> bl_inv held h' \<and> h_lists h' l = [] \<and>
    snd ` set (h_lists h' k) = snd ` set xs \<union> snd ` set (h_lists h k)"
  using assms
proof (induction xs arbitrary: h)
  case (Cons p xs)
  obtain n b where p: "p = (n, b)"
    by force
  from bl_inv_move_one [OF Cons.prems(1) _ Cons.prems(3-5)] Cons.prems(2) obtain h1 where
    h1: "move_one l k h = Inr h1" "bl_inv held h1" "h_lists h1 l = xs"
      "snd ` set (h_lists h1 k) = insert b (snd ` set (h_lists h k))"
    unfolding p by metis
  from Cons.IH [OF h1(2,3) Cons.prems(3-5)] obtain h' where
    "bl_move_contents (length xs) l k h1 = Some (Inr h')" "bl_inv held h'" "h_lists h' l = []"
    "snd ` set (h_lists h' k) = snd ` set xs \<union> insert b (snd ` set (h_lists h k))"
    unfolding h1(4) by blast
  then show ?case
    using h1(1) Cons.prems(2) by (intro exI [of _ h']) (auto simp: p)
qed simp

text \<open>The free event deletes the bundle.\<close>

lemma bl_inv_free:
  assumes iv: "bl_inv held h" and posted: "h_posted h = b # bs"
  shows "\<exists>h'. handle_bundle_free b (h\<lparr>h_posted := bs\<rparr>) = Inr h' \<and> bl_inv held h' \<and> h_posted h' = bs \<and>
    h_live h' = (h_live h)(b := False) \<and> (\<forall>c. is_freed (h_bundles h' c) = is_freed (h_bundles h c))"
proof -
  let ?h = "h\<lparr>h_posted := bs\<rparr>" and ?x = "h_bundles h b"
  note lk = bl_inv_linked [OF iv] and ct = bl_inv_counted [OF iv]
  have live: "h_live h b" and fr: "is_freed ?x"
    using counted_posted [OF ct, of b] posted by simp_all
  from bl_inv_obj [OF iv live] fr have r: "bo_refcount ?x = 1" "map fst (bo_mappings ?x) = [ALL_BUNDLES]" "held b = 0"
    by (auto simp: obj_counted_def dest: arg_cong [of _ _ length])
  then obtain n where m: "bo_mappings ?x = [(ALL_BUNDLES, n)]"
    by (cases "bo_mappings ?x") auto
  have node: "(n, b) \<in> set (h_lists h ALL_BUNDLES)"
    using linked_iff [OF lk] live m by simp
  have lk': "linked ?h"
    using lk by (rule linked_cong) simp_all
  let ?u = "unlink_node ALL_BUNDLES n b ?h"
  define h' where "h' = (count_refs (- 1) b ?u)\<lparr>h_live := (h_live h)(b := False)\<rparr>"
  have "linked (count_refs (- 1) b ?u)"
    using linked_unlink_node [OF lk'] node by simp
  then have "linked h'"
    unfolding linked_def h'_def using m by (auto simp: set_delete)
  moreover have "counted held h'"
    using ct r(3) posted unfolding counted_def h'_def by auto
  moreover have "bl_contains ALL_BUNDLES b ?h = Inr True"
    using live m image_eqI [OF _ node, of b snd] by (simp add: bl_contains_def get_obj_def is_queued_on_iff)
  moreover have "bl_erase ALL_BUNDLES b ?h = Inr (True, count_refs (- 1) b ?u)"
  proof -
    have "del_ref b ?u = Inr (count_refs (- 1) b ?u)"
      using live fr r(1) by (simp add: del_ref_def get_obj_def count_refs_def Let_def)
    then show ?thesis
      using del_bundle_eq [OF lk'] node linked_lookup [OF lk, of ALL_BUNDLES n b] live m
      by (simp add: bl_erase_def get_obj_def find_mapping_def)
  qed
  ultimately show ?thesis
    using live r(1) m bl_inv_held [OF iv]
    by (intro exI [of _ h']) (simp add: handle_bundle_free_def delete_bundle_def get_obj_def h'_def bl_inv_def)
qed

lemma bl_inv_new_bundle:
  assumes iv: "bl_inv held h" and dead: "\<not> h_live h b"
  shows "bl_inv held (new_bundle b d h)"
proof -
  note lk = bl_inv_linked [OF iv] and ct = bl_inv_counted [OF iv]
  have off: "(n, b) \<notin> set (h_lists h l)" for n l
    using linked_iff [OF lk] dead by blast
  have "linked (new_bundle b d h)"
    using lk off unfolding linked_def new_bundle_def set_obj_def by auto
  moreover have "counted held (new_bundle b d h)"
  proof -
    have "obj_counted (held b) \<lparr>bo_data = d\<lparr>b_freed := False\<rparr>, bo_refcount = 0, bo_mappings = []\<rparr>"
      using ct dead by (auto simp: counted_def obj_counted_def is_queued_on_iff is_freed_def)
    moreover have "\<not> is_freed \<lparr>bo_data = d\<lparr>b_freed := False\<rparr>, bo_refcount = 0, bo_mappings = []\<rparr>"
      by (simp add: is_freed_def)
    ultimately show ?thesis
      using ct dead unfolding counted_def new_bundle_def set_obj_def by auto
  qed
  ultimately show ?thesis
    using bl_inv_held [OF iv] by (simp add: bl_inv_def)
qed

subsection \<open>Runs of the daemon\<close>

text \<open>
  An operation on the bundles and lists of a running daemon, as a client of the classes may call
  it: \<open>Hold\<close> and \<open>Release\<close> are a counted reference taken and given up, \<open>FreeEvent\<close> is the turn of
  the event loop that handles the first posted free event. \<open>s_held\<close> counts the references of the
  clients.
\<close>

datatype bl_op =
    Create bundle_ptr dtn_bundle
  | Hold bundle_ptr
  | Release bundle_ptr
  | PushFront list_id bundle_ptr
  | PushBack list_id bundle_ptr
  | InsertSorted list_id bundle_ptr
  | InsertRandom nat list_id bundle_ptr
  | PopFront list_id
  | PopBack list_id
  | Erase list_id bundle_ptr
  | Contains list_id bundle_ptr
  | Find "dtn_bundle \<Rightarrow> bool" list_id
  | Clear list_id
  | FreeEvent

record sys =
  s_heap :: heap
  s_held :: "bundle_ptr \<Rightarrow> int"

definition initial_sys :: sys where
  "initial_sys = \<lparr>s_heap = \<lparr>h_live = (\<lambda>_. False), h_bundles = (\<lambda>_. undefined), h_lists = (\<lambda>_. []), h_next = 0, h_posted = []\<rparr>,
     s_held = (\<lambda>_. 0)\<rparr>"

definition keep_ref :: "bundle_ptr option \<Rightarrow> (bundle_ptr \<Rightarrow> int) \<Rightarrow> bundle_ptr \<Rightarrow> int" where
  "keep_ref r held = (case r of None \<Rightarrow> held | Some b \<Rightarrow> held(b := held b + 1))"

definition with_ref :: "sys \<Rightarrow> (bundle_ptr option \<times> heap) res \<Rightarrow> sys res" where
  "with_ref s m = bindR m (\<lambda>(r, h). Inr \<lparr>s_heap = h, s_held = keep_ref r (s_held s)\<rparr>)"

definition no_ref :: "sys \<Rightarrow> heap res \<Rightarrow> sys res" where
  "no_ref s m = bindR m (\<lambda>h. Inr (s\<lparr>s_heap := h\<rparr>))"

fun exec :: "bl_op \<Rightarrow> sys \<Rightarrow> sys res" where
  "exec (Create b d) s = no_ref s (Inr (new_bundle b d (s_heap s)))"
| "exec (Hold b) s = with_ref s (bindR (add_ref b (s_heap s)) (\<lambda>h. Inr (Some b, h)))"
| "exec (Release b) s =
     bindR (del_ref b (s_heap s)) (\<lambda>h. Inr \<lparr>s_heap = h, s_held = (s_held s)(b := s_held s b - 1)\<rparr>)"
| "exec (PushFront l b) s = no_ref s (bl_push_front l b (s_heap s))"
| "exec (PushBack l b) s = no_ref s (bl_push_back l b (s_heap s))"
| "exec (InsertSorted l b) s = no_ref s (bl_insert_sorted l SORT_FRAG_OFFSET b (s_heap s))"
| "exec (InsertRandom r l b) s = no_ref s (bl_insert_random r l b (s_heap s))"
| "exec (PopFront l) s = with_ref s (bl_pop_front l (s_heap s))"
| "exec (PopBack l) s = with_ref s (bl_pop_back l (s_heap s))"
| "exec (Erase l b) s = no_ref s (bindR (bl_erase l b (s_heap s)) (\<lambda>(_, h). Inr h))"
| "exec (Contains l b) s = bindR (bl_contains l b (s_heap s)) (\<lambda>_. Inr s)"
| "exec (Find P l) s = with_ref s (bl_find P l (s_heap s))"
| "exec (Clear l) s = no_ref s (bl_clear l (s_heap s))"
| "exec FreeEvent s =
     (case h_posted (s_heap s) of
        [] \<Rightarrow> Inr s
      | b # bs \<Rightarrow> no_ref s (handle_bundle_free b ((s_heap s)\<lparr>h_posted := bs\<rparr>)))"

text \<open>
  What the callers see to: a bundle is created at an unused address, operations get bundles that
  exist, only a bundle that is not being freed is referenced anew, only references that are held
  are given up, and nobody but \<open>add_ref\<close> and the free event changes the list of all bundles.
\<close>

fun allowed :: "bl_op \<Rightarrow> sys \<Rightarrow> bool" where
  "allowed (Create b d) s = (\<not> h_live (s_heap s) b)"
| "allowed (Hold b) s = (h_live (s_heap s) b \<and> \<not> is_freed (h_bundles (s_heap s) b))"
| "allowed (Release b) s = (s_held s b \<ge> 1)"
| "allowed (PushFront l b) s = (l \<noteq> ALL_BUNDLES \<and> h_live (s_heap s) b)"
| "allowed (PushBack l b) s = (l \<noteq> ALL_BUNDLES \<and> h_live (s_heap s) b)"
| "allowed (InsertSorted l b) s = (l \<noteq> ALL_BUNDLES \<and> h_live (s_heap s) b)"
| "allowed (InsertRandom r l b) s = (l \<noteq> ALL_BUNDLES \<and> h_live (s_heap s) b)"
| "allowed (PopFront l) s = (l \<noteq> ALL_BUNDLES)"
| "allowed (PopBack l) s = (l \<noteq> ALL_BUNDLES)"
| "allowed (Erase l b) s = (l \<noteq> ALL_BUNDLES \<and> h_live (s_heap s) b)"
| "allowed (Contains l b) s = h_live (s_heap s) b"
| "allowed (Find P l) s = True"
| "allowed (Clear l) s = (l \<noteq> ALL_BUNDLES)"
| "allowed FreeEvent s = True"

inductive reachable :: "sys \<Rightarrow> bool" where
  start: "reachable initial_sys"
| step: "reachable s \<Longrightarrow> allowed op s \<Longrightarrow> exec op s = Inr s' \<Longrightarrow> reachable s'"

lemma bl_inv_add_bundle_no_ref:
  assumes "bl_inv (s_held s) (s_heap s)" "h_live (s_heap s) b" "l \<noteq> ALL_BUNDLES"
  shows "\<exists>s'. no_ref s (add_bundle l i b (s_heap s)) = Inr s' \<and> bl_inv (s_held s') (s_heap s')"
  using bl_inv_add_bundle [OF assms, of i] by (auto simp: no_ref_def)

lemmas push_defs = bl_push_front_def bl_push_back_def bl_insert_sorted_def bl_insert_random_def

lemma exec_pop_front:
  assumes iv: "bl_inv (s_held s) (s_heap s)" and l: "l \<noteq> ALL_BUNDLES"
  shows "\<exists>s'. exec (PopFront l) s = Inr s' \<and> bl_inv (s_held s') (s_heap s')"
proof (cases "h_lists (s_heap s) l")
  case Nil
  then show ?thesis
    using iv by (simp add: bl_pop_front_def with_ref_def keep_ref_def)
next
  case (Cons p xs)
  then show ?thesis
    using bl_inv_pop_front [OF iv _ l, of "fst p" "snd p"] by (auto simp: with_ref_def keep_ref_def)
qed

lemma exec_pop_back:
  assumes iv: "bl_inv (s_held s) (s_heap s)" and l: "l \<noteq> ALL_BUNDLES"
  shows "\<exists>s'. exec (PopBack l) s = Inr s' \<and> bl_inv (s_held s') (s_heap s')"
proof (cases "h_lists (s_heap s) l = []")
  case True
  then show ?thesis
    using iv by (simp add: bl_pop_back_def with_ref_def keep_ref_def)
next
  case False
  then show ?thesis
    using bl_inv_pop_back [OF iv _ l] by (auto simp: with_ref_def keep_ref_def)
qed

lemma exec_free:
  assumes iv: "bl_inv (s_held s) (s_heap s)"
  shows "\<exists>s'. exec FreeEvent s = Inr s' \<and> bl_inv (s_held s') (s_heap s')"
proof (cases "h_posted (s_heap s)")
  case Nil
  then show ?thesis
    using iv by simp
next
  case (Cons b bs)
  then show ?thesis
    using bl_inv_free [OF iv Cons] by (auto simp: no_ref_def)
qed

text \<open>Every allowed operation returns, and keeps the invariant.\<close>

lemma exec_ok:
  assumes iv: "bl_inv (s_held s) (s_heap s)" and ok: "allowed op s"
  shows "\<exists>s'. exec op s = Inr s' \<and> bl_inv (s_held s') (s_heap s')"
proof (cases op)
  case (Create b d)
  then show ?thesis
    using bl_inv_new_bundle [OF iv] ok by (simp add: no_ref_def)
next
  case (Hold b)
  then show ?thesis
    using bl_inv_add_ref [OF iv, of b] ok by (auto simp: with_ref_def keep_ref_def)
next
  case (Release b)
  then show ?thesis
    using bl_inv_del_ref [OF iv, of b] ok by auto
next
  case (PushFront l b)
  then show ?thesis
    using bl_inv_add_bundle_no_ref [OF iv] ok by (simp add: push_defs)
next
  case (PushBack l b)
  then show ?thesis
    using bl_inv_add_bundle_no_ref [OF iv] ok by (simp add: push_defs)
next
  case (InsertSorted l b)
  then show ?thesis
    using bl_inv_add_bundle_no_ref [OF iv] ok by (simp add: push_defs get_obj_def)
next
  case (InsertRandom r l b)
  then show ?thesis
    using bl_inv_add_bundle_no_ref [OF iv] ok by (simp add: push_defs)
next
  case (PopFront l)
  then show ?thesis
    using exec_pop_front [OF iv] ok by (simp del: exec.simps)
next
  case (PopBack l)
  then show ?thesis
    using exec_pop_back [OF iv] ok by (simp del: exec.simps)
next
  case (Erase l b)
  then show ?thesis
    using bl_inv_erase [OF iv, of b l] ok by (auto simp: no_ref_def)
next
  case (Contains l b)
  then show ?thesis
    using bl_contains_eq [OF iv] iv ok by simp
next
  case (Find P l)
  then show ?thesis
    using bl_inv_find [OF iv, of P l] by (auto simp: with_ref_def keep_ref_def)
next
  case (Clear l)
  then show ?thesis
    using bl_inv_clear [OF iv, of l] ok by (auto simp: no_ref_def)
next
  case FreeEvent
  then show ?thesis
    using exec_free [OF iv] by (simp del: exec.simps)
qed

lemma reachable_inv: "reachable s \<Longrightarrow> bl_inv (s_held s) (s_heap s)"
proof (induction rule: reachable.induct)
  case start
  show ?case
    by (simp add: initial_sys_def bl_inv_def linked_def counted_def)
next
  case (step s op s')
  then show ?case
    using exec_ok by fastforce
qed

text \<open>A run of several operations.\<close>

fun exec_all :: "bl_op list \<Rightarrow> sys \<Rightarrow> sys res" where
  "exec_all [] s = Inr s"
| "exec_all (op # ops) s = bindR (exec op s) (exec_all ops)"

lemma exec_free_posted:
  assumes "bl_inv (s_held s) (s_heap s)" "h_posted (s_heap s) = b # bs"
  obtains s' where "exec FreeEvent s = Inr s'" "bl_inv (s_held s') (s_heap s')" "h_posted (s_heap s') = bs"
    "\<forall>c. h_live (s_heap s') c \<longrightarrow> h_live (s_heap s) c"
    "\<forall>c. is_freed (h_bundles (s_heap s') c) = is_freed (h_bundles (s_heap s) c)"
proof -
  from bl_inv_free [OF assms] obtain h' where h':
    "handle_bundle_free b ((s_heap s)\<lparr>h_posted := bs\<rparr>) = Inr h'" "bl_inv (s_held s) h'" "h_posted h' = bs"
    "h_live h' = (h_live (s_heap s))(b := False)" "\<forall>c. is_freed (h_bundles h' c) = is_freed (h_bundles (s_heap s) c)"
    by blast
  show ?thesis
    by (rule that [of "s\<lparr>s_heap := h'\<rparr>"]) (use assms(2) h' in \<open>simp_all add: no_ref_def\<close>)
qed

text \<open>Handling the posted events deletes every freed bundle.\<close>

lemma free_events_delete:
  assumes "bl_inv (s_held s) (s_heap s)" "h_posted (s_heap s) = bs"
    "is_freed (h_bundles (s_heap s) c)"
  shows "\<exists>s'. exec_all (replicate (length bs) FreeEvent) s = Inr s' \<and> \<not> h_live (s_heap s') c"
  using assms
proof (induction bs arbitrary: s)
  case Nil
  then show ?case
    using counted_posted [OF bl_inv_counted [OF Nil.prems(1)], of c] by simp
next
  case (Cons b bs)
  from exec_free_posted [OF Cons.prems(1,2)] obtain s1 where s1: "exec FreeEvent s = Inr s1"
    "bl_inv (s_held s1) (s_heap s1)" "h_posted (s_heap s1) = bs"
    "is_freed (h_bundles (s_heap s1) c)"
    using Cons.prems(3) by metis
  from Cons.IH [OF s1(2-4)] show ?case
    using s1(1) by (simp del: exec.simps)
qed

lemma release_last_freed:
  assumes iv: "bl_inv (s_held s) (s_heap s)" and held: "s_held s b = 1"
    and only: "map fst (bo_mappings (h_bundles (s_heap s) b)) = [ALL_BUNDLES]" and s': "exec (Release b) s = Inr s'"
  shows "is_freed (h_bundles (s_heap s') b)"
proof -
  let ?x = "h_bundles (s_heap s) b"
  have live: "h_live (s_heap s) b"
    using bl_inv_counted [OF iv] held unfolding counted_def by (metis zero_neq_one)
  have "bo_refcount ?x = 2"
    using bl_inv_obj [OF iv live] held arg_cong [OF only, of length] by (simp add: obj_counted_def)
  then show ?thesis
    using s' live by (auto simp: del_ref_def get_obj_def bindR_eq_Inr Let_def set_obj_def is_freed_def)
qed

subsection \<open>An example run\<close>

fun allowed_all :: "bl_op list \<Rightarrow> sys \<Rightarrow> bool" where
  "allowed_all [] s = True"
| "allowed_all (op # ops) s = (allowed op s \<and> (case exec op s of Inl e \<Rightarrow> False | Inr s' \<Rightarrow> allowed_all ops s'))"

lemma allowed_all_reachable:
  assumes "reachable s" "allowed_all ops s"
  shows "\<exists>s'. exec_all ops s = Inr s' \<and> reachable s'"
  using assms
proof (induction ops arbitrary: s)
  case (Cons op ops)
  then show ?case
    using reachable.step [of s op] by (auto simp del: exec.simps split: sum.splits)
qed simp

definition example_data :: dtn_bundle where
  "example_data = (case bundle_init 946684900 1 MEMORY of Inl e \<Rightarrow> undefined | Inr b \<Rightarrow> b)"

text \<open>A bundle is created, referenced by a client and queued on list 1.\<close>

definition example_ops :: "bl_op list" where
  "example_ops = [Create 7 example_data, Hold 7, PushBack 1 7]"

lemmas run_defs = no_ref_def with_ref_def keep_ref_def new_bundle_def set_obj_def set_list_def add_ref_def
  inc_ref_def del_ref_def get_obj_def add_bundle_def add_bundle_with_def push_defs ALL_BUNDLES_def is_queued_on_iff
  is_freed_def initial_sys_def Let_def find_mapping_def bl_erase_def del_bundle_def

lemma example_run:
  obtains s where "exec_all example_ops initial_sys = Inr s" "reachable s" "h_live (s_heap s) 7" "s_held s 7 = 1"
    "h_lists (s_heap s) 1 = [(1, 7)]" "h_posted (s_heap s) = []" "\<not> is_freed (h_bundles (s_heap s) 7)"
    "allowed (PopFront 1) s"
proof -
  have ok: "allowed_all example_ops initial_sys"
    by (simp add: example_ops_def run_defs)
  obtain s where s: "exec_all example_ops initial_sys = Inr s" "reachable s"
    using allowed_all_reachable [OF reachable.start ok] by blast
  have "h_live (s_heap s) 7" "s_held s 7 = 1" "h_lists (s_heap s) 1 = [(1, 7)]" "h_posted (s_heap s) = []"
    "\<not> is_freed (h_bundles (s_heap s) 7)" "allowed (PopFront 1) s"
    using s(1) by (auto simp: example_ops_def run_defs)
  then show ?thesis
    using that s by blast
qed

definition held_ops :: "bl_op list" where
  "held_ops = [Create 7 example_data, Hold 7]"

lemma held_run:
  obtains s where "exec_all held_ops initial_sys = Inr s" "reachable s" "s_held s 7 = 1"
    "map fst (bo_mappings (h_bundles (s_heap s) 7)) = [ALL_BUNDLES]"
proof -
  have ok: "allowed_all held_ops initial_sys"
    by (simp add: held_ops_def run_defs)
  obtain s where s: "exec_all held_ops initial_sys = Inr s" "reachable s"
    using allowed_all_reachable [OF reachable.start ok] by blast
  have held: "s_held s 7 = 1"
    using s(1) by (auto simp: held_ops_def run_defs)
  have only: "map fst (bo_mappings (h_bundles (s_heap s) 7)) = [ALL_BUNDLES]"
    using s(1) [symmetric] by (simp add: held_ops_def run_defs)
  show ?thesis
    by (rule that [OF s held only])
qed

lemma reachable_lists:
  assumes "reachable s"
  shows "\<forall>l n b. (n, b) \<in> set (h_lists (s_heap s) l) \<longrightarrow>
      h_live (s_heap s) b \<and> (is_freed (h_bundles (s_heap s) b) \<longrightarrow> l = ALL_BUNDLES)"
  using on_list_live [OF reachable_inv [OF assms]] on_list_not_freed [OF reachable_inv [OF assms]] by blast

lemma reachable_counts:
  assumes "reachable s"
  shows "\<forall>b. h_live (s_heap s) b \<longrightarrow>
      bo_refcount (h_bundles (s_heap s) b) = int (length (bo_mappings (h_bundles (s_heap s) b))) + s_held s b \<and>
      (\<forall>l. is_queued_on l (h_bundles (s_heap s) b) \<longleftrightarrow> b \<in> snd ` set (h_lists (s_heap s) l)) \<and>
      (is_freed (h_bundles (s_heap s) b) \<longleftrightarrow> b \<in> set (h_posted (s_heap s))) \<and>
      (is_freed (h_bundles (s_heap s) b) \<longrightarrow> s_held s b = 0)"
proof (intro allI impI conjI)
  note iv = reachable_inv [OF assms]
  fix b assume live: "h_live (s_heap s) b"
  note ob = bl_inv_obj [OF iv live]
  show "bo_refcount (h_bundles (s_heap s) b) = int (length (bo_mappings (h_bundles (s_heap s) b))) + s_held s b"
    using ob by (simp add: obj_counted_def)
  show "is_queued_on l (h_bundles (s_heap s) b) \<longleftrightarrow> b \<in> snd ` set (h_lists (s_heap s) l)" for l
    by (rule linked_queued [OF bl_inv_linked [OF iv] live])
  show "is_freed (h_bundles (s_heap s) b) \<longleftrightarrow> b \<in> set (h_posted (s_heap s))"
    using counted_posted [OF bl_inv_counted [OF iv]] live by blast
  assume "is_freed (h_bundles (s_heap s) b)"
  then have "bo_refcount (h_bundles (s_heap s) b) = 1" "length (bo_mappings (h_bundles (s_heap s) b)) = 1"
    using ob arg_cong [of _ "[ALL_BUNDLES]" length] by (auto simp: obj_counted_def)
  then show "s_held s b = 0"
    using ob by (simp add: obj_counted_def)
qed

subsection \<open>Properties\<close>

text \<open>
  C11: in every state the daemon reaches, a list holds only bundles that exist, and none but the
  list of all bundles holds one that is being freed; a bundle is on a list exactly when it has a
  mapping for it; its reference counter is the number of its mappings and of the references
  clients hold, and it is being freed exactly when its free event waits, when nobody holds it.
\<close>

theorem bundle_list_invariant:
  assumes "reachable s"
  shows "(\<forall>l n b. (n, b) \<in> set (h_lists (s_heap s) l) \<longrightarrow>
      h_live (s_heap s) b \<and> (is_freed (h_bundles (s_heap s) b) \<longrightarrow> l = ALL_BUNDLES)) \<and>
    (\<forall>b. h_live (s_heap s) b \<longrightarrow>
      bo_refcount (h_bundles (s_heap s) b) = int (length (bo_mappings (h_bundles (s_heap s) b))) + s_held s b \<and>
      (\<forall>l. is_queued_on l (h_bundles (s_heap s) b) \<longleftrightarrow> b \<in> snd ` set (h_lists (s_heap s) l)) \<and>
      (is_freed (h_bundles (s_heap s) b) \<longleftrightarrow> b \<in> set (h_posted (s_heap s))) \<and>
      (is_freed (h_bundles (s_heap s) b) \<longrightarrow> s_held s b = 0))"
  using reachable_lists [OF assms] reachable_counts [OF assms] by blast

theorem bundle_list_invariant_witness:
  "\<exists>s. exec_all example_ops initial_sys = Inr s \<and> h_lists (s_heap s) 1 = [(1, 7)] \<and>
     h_live (s_heap s) 7 \<and> is_queued_on 1 (h_bundles (s_heap s) 7) \<and>
     bo_refcount (h_bundles (s_heap s) 7) = int (length (bo_mappings (h_bundles (s_heap s) 7))) + 1"
proof -
  obtain s where s: "exec_all example_ops initial_sys = Inr s" "reachable s" "s_held s 7 = 1"
    "h_lists (s_heap s) 1 = [(1, 7)]"
    by (rule example_run)
  have "h_live (s_heap s) 7"
    using bundle_list_invariant [OF s(2)] s(4) by (metis list.set_intros(1))
  then have "is_queued_on 1 (h_bundles (s_heap s) 7)"
    "bo_refcount (h_bundles (s_heap s) 7) = int (length (bo_mappings (h_bundles (s_heap s) 7))) + 1"
    using bundle_list_invariant [OF s(2)] s(3,4) by simp_all
  then show ?thesis
    using s \<open>h_live (s_heap s) 7\<close> by blast
qed

text \<open>
  C3: no operation that its callers are allowed to make fails in any state the daemon reaches: no
  assertion on the reference counter, the mappings or the freed flag is violated, and no bundle is
  used after it was deleted; this covers the handler of the free event and the check of
  \<open>contains\<close> that the mappings agree with the list.
\<close>

theorem bundle_ops_never_fault:
  assumes "reachable s" and "allowed op s"
  shows "\<exists>s'. exec op s = Inr s' \<and> reachable s'"
  using exec_ok [OF reachable_inv [OF assms(1)] assms(2)] reachable.step [OF assms] by blast

theorem bundle_ops_never_fault_witness:
  "\<exists>s s'. exec_all example_ops initial_sys = Inr s \<and> exec (PopFront 1) s = Inr s' \<and> reachable s'"
proof -
  obtain s where s: "exec_all example_ops initial_sys = Inr s" "reachable s" "allowed (PopFront 1) s"
    by (rule example_run)
  show ?thesis
    using bundle_ops_never_fault [OF s(2,3)] s(1) by blast
qed

text \<open>
  C18: a bundle is deleted in the end. When a client releases the last reference and the bundle is on
  the list of all bundles only, handling the events posted by then returns and deletes it.
\<close>

theorem last_reference_deletes:
  assumes "reachable s" and "s_held s b = 1"
    and "map fst (bo_mappings (h_bundles (s_heap s) b)) = [ALL_BUNDLES]"
  shows "\<exists>s1 s2. exec (Release b) s = Inr s1 \<and>
    exec_all (replicate (length (h_posted (s_heap s1))) FreeEvent) s1 = Inr s2 \<and> \<not> h_live (s_heap s2) b"
proof -
  have iv: "bl_inv (s_held s) (s_heap s)"
    by (rule reachable_inv [OF assms(1)])
  obtain s1 where s1: "exec (Release b) s = Inr s1" "bl_inv (s_held s1) (s_heap s1)"
    using exec_ok [OF iv, of "Release b"] assms(2) by (auto simp del: exec.simps)
  show ?thesis
    using free_events_delete [OF s1(2) refl release_last_freed [OF iv assms(2,3) s1(1)]] s1(1) by blast
qed

theorem last_reference_deletes_witness:
  "\<exists>s s1 s2. exec_all held_ops initial_sys = Inr s \<and> exec (Release 7) s = Inr s1 \<and>
     exec_all (replicate (length (h_posted (s_heap s1))) FreeEvent) s1 = Inr s2 \<and> \<not> h_live (s_heap s2) 7"
proof -
  obtain s where s: "exec_all held_ops initial_sys = Inr s" "reachable s" "s_held s 7 = 1"
    "map fst (bo_mappings (h_bundles (s_heap s) 7)) = [ALL_BUNDLES]"
    by (rule held_run)
  show ?thesis
    using last_reference_deletes [OF s(2-4)] s(1) by blast
qed

text \<open>
  \<open>move_contents\<close> to another list ends after as many turns as the list has bundles; it leaves
  the list empty and the other one with the bundles of both, keeps every count, and \<open>clear\<close>
  empties a list likewise.
\<close>

theorem move_contents_moves_all:
  assumes "reachable s" and "l \<noteq> ALL_BUNDLES" and "k \<noteq> ALL_BUNDLES" and "k \<noteq> l"
  shows "(\<exists>h'. bl_move_contents (length (h_lists (s_heap s) l)) l k (s_heap s) = Some (Inr h') \<and>
      h_lists h' l = [] \<and> bl_inv (s_held s) h' \<and>
      snd ` set (h_lists h' k) = snd ` set (h_lists (s_heap s) l) \<union> snd ` set (h_lists (s_heap s) k)) \<and>
    (\<exists>h'. bl_clear l (s_heap s) = Inr h' \<and> h_lists h' l = [] \<and> bl_inv (s_held s) h')"
  using bl_inv_move_contents [OF reachable_inv [OF assms(1)] refl assms(2-4)]
    bl_inv_clear [OF reachable_inv [OF assms(1)] assms(2)] by blast

theorem move_contents_moves_all_witness:
  "\<exists>s h'. exec_all example_ops initial_sys = Inr s \<and> bl_move_contents 1 1 2 (s_heap s) = Some (Inr h') \<and>
     h_lists h' 1 = [] \<and> 7 \<in> snd ` set (h_lists h' 2)"
proof -
  obtain s where s: "exec_all example_ops initial_sys = Inr s" "reachable s" "h_lists (s_heap s) 1 = [(1, 7)]"
    by (rule example_run)
  have "(1 :: list_id) \<noteq> ALL_BUNDLES" "(2 :: list_id) \<noteq> ALL_BUNDLES" "(2 :: list_id) \<noteq> 1"
    by (simp_all add: ALL_BUNDLES_def)
  from move_contents_moves_all [OF s(2) this] obtain h' where
    "bl_move_contents 1 1 2 (s_heap s) = Some (Inr h')" "h_lists h' 1 = []"
    "snd ` set (h_lists h' 2) = {7} \<union> snd ` set (h_lists (s_heap s) 2)"
    unfolding s(3) by auto
  then show ?thesis
    using s(1) by blast
qed

end
