(* ===== verification/PayloadWalk.thy ===== *)
theory PayloadWalk
  imports ExtBlocks
begin

text \<open>
  \<open>PayloadBlockProcessor::process\<close> and \<open>mutate\<close> with the base class's \<open>mutate\<close>: how the security
  code is shown a range of a block and may change it. The preamble of a payload block is in the
  buffer of the block and the rest in the payload store, which is read, and written back, in
  pieces of 1024 bytes. The callbacks are arguments. The theorems show that this is the same as
  working on the block in one piece, for a digest and for a stream cipher.
\<close>

subsection \<open>Walking over a payload block\<close>

definition PAYLOAD_WORK_LEN :: nat where
  "PAYLOAD_WORK_LEN = 1024"

text \<open>
  \<open>process_func\<close>: the callback gets some bytes and changes its context. \<open>mutate_func\<close> also returns
  whether it changed the bytes, and the bytes.
\<close>

type_synonym 'c process_func = "'c \<Rightarrow> bytes \<Rightarrow> 'c"
type_synonym 'c mutate_func = "'c \<Rightarrow> bytes \<Rightarrow> bool \<times> bytes \<times> 'c"

function process_loop ::
  "payload_io \<Rightarrow> 'c process_func \<Rightarrow> bytes \<Rightarrow> nat \<Rightarrow> nat \<Rightarrow> 'c \<Rightarrow> payload \<Rightarrow> ('c \<times> payload) res"
where
  "process_loop io func work poff remaining ctx p =
     (if remaining = 0 then Inr (ctx, p)
      else
        let len_to_do = min remaining PAYLOAD_WORK_LEN
        in bindR (pl_read_data io poff (take len_to_do work) p) (\<lambda>(buf, p).
             process_loop io func (buf @ drop len_to_do work) (poff + len_to_do)
               (remaining - len_to_do) (func ctx buf) p))"
  by pat_completeness auto
termination
  by (relation "measure (\<lambda>(io, func, work, off, remaining, ctx, p). remaining)") (auto simp: PAYLOAD_WORK_LEN_def)

definition payload_process ::
  "payload_io \<Rightarrow> 'c process_func \<Rightarrow> dtn_bundle \<Rightarrow> block_info \<Rightarrow> nat \<Rightarrow> nat \<Rightarrow> 'c \<Rightarrow> ('c \<times> dtn_bundle) res"
where
  "payload_process io func b target offset len ctx =
     (let doff = unat (bi_data_offset target);
          n1 = (if offset < doff then min len (doff - offset) else 0)
      in
      if offset < doff \<and> length (bi_contents target) < offset + n1 then Inl OOB
      else
        let ctx = (if offset < doff then func ctx (take n1 (drop offset (bi_contents target))) else ctx);
            offset = offset + n1; len = len - n1
        in
        if len = 0 then Inr (ctx, b)
        else
          let poff = offset - doff;
              remaining = min len (size_diff (pl_length (b_payload b)) poff)
          in bindR (process_loop io func (replicate PAYLOAD_WORK_LEN (io_junk io)) poff remaining ctx (b_payload b))
               (\<lambda>(ctx, p). Inr (ctx, b\<lparr>b_payload := p\<rparr>)))"

function mutate_loop ::
  "payload_io \<Rightarrow> 'c mutate_func \<Rightarrow> bytes \<Rightarrow> nat \<Rightarrow> nat \<Rightarrow> bool \<Rightarrow> 'c \<Rightarrow> payload \<Rightarrow> (bool \<times> 'c \<times> payload) res"
where
  "mutate_loop io func work poff remaining changed ctx p =
     (if remaining = 0 then Inr (changed, ctx, p)
      else
        let len_to_do = min remaining PAYLOAD_WORK_LEN
        in bindR (pl_read_data io poff (take len_to_do work) p) (\<lambda>(buf, p).
             let (chunk_changed, buf, ctx) = func ctx buf
             in bindR (if chunk_changed then pl_write_data io buf poff p else Inr p) (\<lambda>p.
                  mutate_loop io func (buf @ drop len_to_do work) (poff + len_to_do)
                    (remaining - len_to_do) (changed \<or> chunk_changed) ctx p)))"
  by pat_completeness auto
termination
  by (relation "measure (\<lambda>(io, func, work, off, remaining, changed, ctx, p). remaining)") (auto simp: PAYLOAD_WORK_LEN_def)

definition payload_mutate ::
  "payload_io \<Rightarrow> 'c mutate_func \<Rightarrow> dtn_bundle \<Rightarrow> block_info \<Rightarrow> nat \<Rightarrow> nat \<Rightarrow> 'c \<Rightarrow>
     (bool \<times> 'c \<times> dtn_bundle \<times> block_info) res"
where
  "payload_mutate io func b target offset len ctx =
     (let doff = unat (bi_data_offset target);
          n1 = (if offset < doff then min len (doff - offset) else 0)
      in
      if offset < doff \<and> length (bi_contents target) < offset + n1 then Inl OOB
      else
        let (changed, buf, ctx) =
              (if offset < doff then func ctx (take n1 (drop offset (bi_contents target))) else (False, [], ctx));
            target = target\<lparr>bi_contents := write_at offset buf (bi_contents target)\<rparr>;
            offset = offset + n1; len = len - n1
        in
        if len = 0 then Inr (changed, ctx, b, target)
        else
          let poff = offset - doff;
              remaining = min len (size_diff (pl_length (b_payload b)) poff)
          in bindR (mutate_loop io func (replicate PAYLOAD_WORK_LEN (io_junk io)) poff remaining changed ctx (b_payload b))
               (\<lambda>(changed, ctx, p). Inr (changed, ctx, b\<lparr>b_payload := p\<rparr>, target)))"

text \<open>\<open>mutate\<close> of the base class works on the buffer of the block.\<close>

definition block_mutate :: "'c mutate_func \<Rightarrow> block_info \<Rightarrow> nat \<Rightarrow> nat \<Rightarrow> 'c \<Rightarrow> (bool \<times> 'c \<times> block_info) res" where
  "block_mutate func target offset len ctx =
     bindR (block_process target offset len) (\<lambda>buf.
       let (changed, buf, ctx) = func ctx buf
       in Inr (changed, ctx, target\<lparr>bi_contents := write_at offset buf (bi_contents target)\<rparr>))"

declare process_loop.simps [simp del] mutate_loop.simps [simp del]

subsection \<open>Callbacks that work on a stream\<close>

text \<open>
  A digest: handing over two pieces is the same as handing over both at once.
\<close>

definition digest_func :: "'c process_func \<Rightarrow> bool" where
  "digest_func func \<longleftrightarrow> (\<forall>c x y. func (func c x) y = func c (x @ y))"

text \<open>
  A stream cipher: the bytes and the context that the callback leaves are those of \<open>enc\<close> and \<open>adv\<close>,
  which keep the length and can be split, and it reports a change whenever there is one.
\<close>

definition cipher_func :: "'c mutate_func \<Rightarrow> bool" where
  "cipher_func func \<longleftrightarrow>
     (\<forall>c x. length (fst (snd (func c x))) = length x \<and> (\<not> fst (func c x) \<longrightarrow> fst (snd (func c x)) = x)) \<and>
     (\<forall>c x y. snd (func c (x @ y)) =
        (fst (snd (func c x)) @ fst (snd (func (snd (snd (func c x))) y)), snd (snd (func (snd (snd (func c x))) y))))"

lemma process_loop_whole:
  assumes "digest_func func" "pl_whole p" "off + n \<le> pl_length p" "length work = PAYLOAD_WORK_LEN" "0 < n"
  shows "\<exists>p'. process_loop io func work off n ctx p = Inr (func ctx (take n (drop off (pl_bytes p))), p') \<and>
    pl_whole p' \<and> pl_bytes p' = pl_bytes p \<and> pl_length p' = pl_length p"
  using assms
proof (induction n arbitrary: off work ctx p rule: less_induct)
  case (less n)
  define k where "k = min n PAYLOAD_WORK_LEN"
  have k: "0 < k" "k \<le> n" "k \<le> PAYLOAD_WORK_LEN" "length (take k work) = k"
    using less.prems by (auto simp: k_def PAYLOAD_WORK_LEN_def)
  from pl_read_data_whole [OF less.prems(2), of off "take k work" io] less.prems(3) k obtain p1 where
    p1: "pl_read_data io off (take k work) p = Inr (take k (drop off (pl_bytes p)), p1)"
      "pl_whole p1" "pl_bytes p1 = pl_bytes p" "pl_length p1 = pl_length p"
    by auto
  let ?buf = "take k (drop off (pl_bytes p))"
  have lb: "length ?buf = k"
    using pl_whole_length [OF less.prems(2)] less.prems(3) k by simp
  have step: "process_loop io func work off n ctx p =
      process_loop io func (?buf @ drop k work) (off + k) (n - k) (func ctx ?buf) p1"
    using less.prems(5) p1(1) by (subst process_loop.simps) (simp add: k_def Let_def)
  show ?case
  proof (cases "n - k = 0")
    case True
    then have "k = n"
      using k by simp
    then show ?thesis
      using step p1 by (simp add: process_loop.simps)
  next
    case False
    have "take n (drop off (pl_bytes p)) = ?buf @ take (n - k) (drop (off + k) (pl_bytes p))"
      using k(2) by (metis add.commute drop_drop le_add_diff_inverse take_add)
    then have join: "func (func ctx ?buf) (take (n - k) (drop (off + k) (pl_bytes p))) = func ctx (take n (drop off (pl_bytes p)))"
      using less.prems(1) unfolding digest_func_def by simp
    have "length (?buf @ drop k work) = PAYLOAD_WORK_LEN"
      using lb k less.prems(4) by simp
    with less.IH [of "n - k" p1 "off + k" "?buf @ drop k work" "func ctx ?buf"] less.prems k p1 False join step
    show ?thesis
      by simp
  qed
qed

lemma cipherD:
  assumes "cipher_func func"
  shows cipher_length: "func c x = (ch, y, d) \<Longrightarrow> length y = length x"
    and cipher_unchanged: "func c x = (False, y, d) \<Longrightarrow> y = x"
    and cipher_append: "func c x = (ch, y, d) \<Longrightarrow> func d x' = (ch', y', e) \<Longrightarrow> snd (func c (x @ x')) = (y @ y', e)"
  using assms unfolding cipher_func_def by (metis fst_conv snd_conv)+

lemma write_at_split:
  assumes "pos + length x + length y \<le> length f"
  shows "write_at (pos + length x) y (write_at pos x f) = write_at pos (x @ y) f"
  using assms by (auto simp: write_at_def ac_simps)

lemma write_at_take: "pos + n \<le> length f \<Longrightarrow> write_at pos (take n (drop pos f)) f = f"
proof -
  assume "pos + n \<le> length f"
  moreover have "take pos f @ take n (drop pos f) @ drop (pos + n) f = f"
    by (metis append_take_drop_id drop_drop add.commute)
  ultimately show ?thesis
    by (simp add: write_at_def)
qed

lemma mutate_loop_whole:
  assumes "cipher_func func" "pl_whole p" "off + n \<le> pl_length p" "length work = PAYLOAD_WORK_LEN" "0 < n"
    and "snd (func ctx (take n (drop off (pl_bytes p)))) = (out, ctx')"
  shows "\<exists>changed' p'. mutate_loop io func work off n changed ctx p = Inr (changed', ctx', p') \<and>
    pl_whole p' \<and> pl_bytes p' = write_at off out (pl_bytes p) \<and> pl_length p' = pl_length p"
  using assms
proof (induction n arbitrary: off work ctx p out changed rule: less_induct)
  case (less n)
  define k where "k = min n PAYLOAD_WORK_LEN"
  have k: "0 < k" "k \<le> n" "k \<le> PAYLOAD_WORK_LEN" "length (take k work) = k"
    using less.prems by (auto simp: k_def PAYLOAD_WORK_LEN_def)
  from pl_read_data_whole [OF less.prems(2), of off "take k work" io] less.prems(3) k obtain p1 where
    p1: "pl_read_data io off (take k work) p = Inr (take k (drop off (pl_bytes p)), p1)"
      "pl_whole p1" "pl_bytes p1 = pl_bytes p" "pl_length p1 = pl_length p"
    by auto
  let ?buf = "take k (drop off (pl_bytes p))"
  have lp: "length (pl_bytes p) = pl_length p"
    by (rule pl_whole_length [OF less.prems(2)])
  have lb: "length ?buf = k"
    using lp less.prems(3) k by simp
  obtain ch y d where f: "func ctx ?buf = (ch, y, d)"
    by (metis prod_cases3)
  have ly: "length y = k"
    using cipher_length [OF less.prems(1) f] lb by simp
  have "\<exists>p2. (if ch then pl_write_data io y off p1 else Inr p1) = Inr p2 \<and> pl_whole p2 \<and>
      pl_length p2 = pl_length p \<and> pl_bytes p2 = write_at off y (pl_bytes p)"
  proof (cases ch)
    case True
    then show ?thesis
      using pl_write_data_whole [OF p1(2), of off y io] p1(3,4) ly k less.prems(3) by auto
  next
    case False
    then have "y = ?buf"
      using cipher_unchanged [OF less.prems(1)] f by simp
    then have "write_at off y (pl_bytes p) = pl_bytes p"
      using lp less.prems(3) k write_at_take [of off k "pl_bytes p"] by simp
    then show ?thesis
      using False p1 by simp
  qed
  then obtain p2 where p2: "(if ch then pl_write_data io y off p1 else Inr p1) = Inr p2" "pl_whole p2"
    "pl_length p2 = pl_length p" "pl_bytes p2 = write_at off y (pl_bytes p)"
    by blast
  have step: "mutate_loop io func work off n changed ctx p =
      mutate_loop io func (y @ drop k work) (off + k) (n - k) (changed \<or> ch) d p2"
    using less.prems(5) p1(1) f p2(1) by (subst mutate_loop.simps) (simp add: k_def Let_def)
  show ?case
  proof (cases "n - k = 0")
    case True
    then have "k = n"
      using k by simp
    then show ?thesis
      using step p2 f less.prems(6) by (simp add: mutate_loop.simps)
  next
    case False
    have cut: "take n (drop off (pl_bytes p)) = ?buf @ take (n - k) (drop (off + k) (pl_bytes p))"
      using k(2) by (metis add.commute drop_drop le_add_diff_inverse take_add)
    have rest: "take (n - k) (drop (off + k) (pl_bytes p2)) = take (n - k) (drop (off + k) (pl_bytes p))"
      using p2(4) ly lp less.prems(3) k by (simp add: write_at_def)
    obtain ch' y' e where f': "func d (take (n - k) (drop (off + k) (pl_bytes p2))) = (ch', y', e)"
      by (metis prod_cases3)
    have out: "out = y @ y'" "ctx' = e"
      using cipher_append [OF less.prems(1) f f'] less.prems(6) cut rest by simp_all
    have ly': "length y' = n - k"
      using cipher_length [OF less.prems(1) f'] lp less.prems(3) k rest by simp
    have "length (y @ drop k work) = PAYLOAD_WORK_LEN"
      using ly k less.prems(4) by simp
    with less.IH [of "n - k" p2 "off + k" "y @ drop k work" d y' "changed \<or> ch"] less.prems(1,3) k p2(2,3) False f' out(2)
    obtain changed' p' where "mutate_loop io func (y @ drop k work) (off + k) (n - k) (changed \<or> ch) d p2 = Inr (changed', ctx', p')"
      "pl_whole p'" "pl_bytes p' = write_at (off + k) y' (pl_bytes p2)" "pl_length p' = pl_length p2"
      by auto
    moreover have "write_at (off + k) y' (pl_bytes p2) = write_at off out (pl_bytes p)"
      using write_at_split [of off y y' "pl_bytes p"] p2(4) ly ly' lp less.prems(3) k out(1) by simp
    ultimately show ?thesis
      using step p2(3) by simp
  qed
qed

definition sample_payload_block :: block_info where
  "sample_payload_block = (block_new PAYLOAD_BLOCK None)\<lparr>bi_contents := [1, 8, 3], bi_data_offset := 3, bi_data_length := 3\<rparr>"

lemma sample_walk:
  "pl_whole (b_payload sample_bundle)" "pl_bytes (b_payload sample_bundle) = [1, 2, 3]"
  "pl_length (b_payload sample_bundle) = 3" "bi_contents sample_payload_block = [1, 8, 3]"
  "unat (bi_data_offset sample_payload_block) = length (bi_contents sample_payload_block)"
  by (simp_all add: sample_bundle_def sample_payload_def pl_whole_def pl_synced_def pl_bytes_def sample_payload_block_def)

text \<open>Every byte is complemented.\<close>

definition complement_func :: "unit mutate_func" where
  "complement_func c x = (True, map (NOT) x, c)"

subsection \<open>Properties\<close>

text \<open>
  Processing a range of a payload block with a digest gives the digest of that range of the
  block as it is on the wire, preamble and payload, whatever pieces the loop cuts it into.
\<close>

theorem payload_process_digest:
  assumes "digest_func func" and "pl_whole (b_payload b)"
    and "unat (bi_data_offset target) = length (bi_contents target)"
    and "0 < len" and "offset + len \<le> length (bi_contents target) + pl_length (b_payload b)"
  shows "\<exists>b'. payload_process io func b target offset len ctx =
      Inr (func ctx (take len (drop offset (bi_contents target @ pl_bytes (b_payload b)))), b') \<and>
    pl_bytes (b_payload b') = pl_bytes (b_payload b)"
proof -
  let ?pre = "bi_contents target" and ?p = "b_payload b"
  let ?work = "replicate PAYLOAD_WORK_LEN (io_junk io)"
  consider (pre) "offset < length ?pre" "len \<le> length ?pre - offset"
    | (both) "offset < length ?pre" "length ?pre - offset < len" | (data) "length ?pre \<le> offset"
    by linarith
  then show ?thesis
  proof cases
    case pre
    then show ?thesis
      using assms(3) by (simp add: payload_process_def Let_def min_def)
  next
    case both
    define n1 where "n1 = length ?pre - offset"
    have len: "0 < len - n1" "0 + (len - n1) \<le> pl_length ?p"
      using both assms(5) by (auto simp: n1_def)
    let ?ctx = "func ctx (drop offset ?pre)"
    from process_loop_whole [OF assms(1,2) len(2) _ len(1), of ?work io ?ctx] obtain p' where
      p': "process_loop io func ?work 0 (len - n1) ?ctx ?p = Inr (func ?ctx (take (len - n1) (pl_bytes ?p)), p')"
        "pl_bytes p' = pl_bytes ?p"
      by auto
    have "func ?ctx (take (len - n1) (pl_bytes ?p)) = func ctx (take len (drop offset (?pre @ pl_bytes ?p)))"
      using assms(1) both unfolding digest_func_def by (simp add: n1_def)
    moreover have "len + offset - length ?pre \<le> pl_length ?p"
      using both len by (simp add: n1_def)
    ultimately show ?thesis
      using p' both assms(3) len(1) by (simp add: payload_process_def Let_def n1_def min_def)
  next
    case data
    have len: "0 < len" "(offset - length ?pre) + len \<le> pl_length ?p"
      using data assms(4,5) by auto
    from process_loop_whole [OF assms(1,2) len(2) _ len(1), of ?work io ctx] obtain p' where
      "process_loop io func ?work (offset - length ?pre) len ctx ?p =
         Inr (func ctx (take len (drop (offset - length ?pre) (pl_bytes ?p))), p')" "pl_bytes p' = pl_bytes ?p"
      by auto
    moreover have "min len (pl_length ?p - (offset - length ?pre)) = len" "size_diff (pl_length ?p) (offset - length ?pre) = pl_length ?p - (offset - length ?pre)"
      using len by auto
    ultimately show ?thesis
      using data assms(3) len(1) by (simp add: payload_process_def Let_def)
  qed
qed

theorem payload_process_digest_witness:
  "\<exists>b'. payload_process sample_io (@) sample_bundle sample_payload_block 1 4 [] = Inr ([8, 3, 1, 2], b') \<and>
     pl_bytes (b_payload b') = [1, 2, 3]"
proof -
  have "digest_func ((@) :: bytes process_func)"
    by (simp add: digest_func_def)
  from payload_process_digest [OF this sample_walk(1,5), of 4 1 sample_io "[]"] show ?thesis
    by (simp add: sample_walk drop_Cons')
qed

text \<open>
  C26: changing a range of a payload block with a stream cipher, in the preamble and in the stored
  payload, leaves the block with that range of its wire form enciphered and the rest as it was;
  pieces the callback reports as unchanged are not written back.
\<close>

theorem payload_mutate_cipher:
  assumes "cipher_func func" and "pl_whole (b_payload b)"
    and "unat (bi_data_offset target) = length (bi_contents target)"
    and "0 < len" and "offset + len \<le> length (bi_contents target) + pl_length (b_payload b)"
    and "snd (func ctx (take len (drop offset (bi_contents target @ pl_bytes (b_payload b))))) = (out, ctx')"
  shows "\<exists>changed b' target'. payload_mutate io func b target offset len ctx = Inr (changed, ctx', b', target') \<and>
    bi_contents target' @ pl_bytes (b_payload b') = write_at offset out (bi_contents target @ pl_bytes (b_payload b))"
proof -
  let ?pre = "bi_contents target" and ?p = "b_payload b"
  let ?work = "replicate PAYLOAD_WORK_LEN (io_junk io)"
  note lp = pl_whole_length [OF assms(2)]
  consider (pre) "offset < length ?pre" "len \<le> length ?pre - offset"
    | (both) "offset < length ?pre" "length ?pre - offset < len" | (data) "length ?pre \<le> offset"
    by linarith
  then show ?thesis
  proof cases
    case pre
    obtain ch where f: "func ctx (take len (drop offset ?pre)) = (ch, out, ctx')"
      using assms(6) pre by (cases "func ctx (take len (drop offset ?pre))") auto
    then have "length out = len"
      using cipher_length [OF assms(1) f] pre by simp
    then have "write_at offset out ?pre @ pl_bytes ?p = write_at offset out (?pre @ pl_bytes ?p)"
      using pre assms(4) by (auto simp: write_at_def)
    then show ?thesis
      using f assms(3) pre by (simp add: payload_mutate_def Let_def min_def)
  next
    case both
    define n1 where "n1 = length ?pre - offset"
    have len: "0 < len - n1" "0 + (len - n1) \<le> pl_length ?p"
      using both assms(5) by (auto simp: n1_def)
    obtain ch y d where f: "func ctx (drop offset ?pre) = (ch, y, d)"
      by (metis prod_cases3)
    obtain ch' y' e where f': "func d (take (len - n1) (pl_bytes ?p)) = (ch', y', e)"
      by (metis prod_cases3)
    have out: "out = y @ y'" "ctx' = e"
      using cipher_append [OF assms(1) f f'] assms(6) both by (simp_all add: n1_def)
    have ly: "length y = n1" "length y' = len - n1"
      using cipher_length [OF assms(1) f] cipher_length [OF assms(1) f'] len lp by (simp_all add: n1_def)
    from mutate_loop_whole [OF assms(1,2) len(2) _ len(1), of ?work d y' e io ch] f' obtain changed p' where
      p': "mutate_loop io func ?work 0 (len - n1) ch d ?p = Inr (changed, e, p')" "pl_bytes p' = write_at 0 y' (pl_bytes ?p)"
      by auto
    have "write_at offset y ?pre @ write_at 0 y' (pl_bytes ?p) = write_at offset out (?pre @ pl_bytes ?p)"
      using ly both len lp out(1) unfolding n1_def by (auto simp: write_at_def add.commute)
    moreover have "len + offset - length ?pre \<le> pl_length ?p"
      using both len by (simp add: n1_def)
    ultimately show ?thesis
      using p' f both assms(3) len(1) out(2) by (simp add: payload_mutate_def Let_def n1_def min_def)
  next
    case data
    have len: "0 < len" "(offset - length ?pre) + len \<le> pl_length ?p"
      using data assms(4,5) by auto
    have out: "snd (func ctx (take len (drop (offset - length ?pre) (pl_bytes ?p)))) = (out, ctx')"
      using assms(6) data by simp
    from mutate_loop_whole [OF assms(1,2) len(2) _ len(1) out, of ?work io False] obtain changed p' where
      p': "mutate_loop io func ?work (offset - length ?pre) len False ctx ?p = Inr (changed, ctx', p')"
        "pl_bytes p' = write_at (offset - length ?pre) out (pl_bytes ?p)"
      by auto
    obtain ch where "func ctx (take len (drop (offset - length ?pre) (pl_bytes ?p))) = (ch, out, ctx')"
      using out by (cases "func ctx (take len (drop (offset - length ?pre) (pl_bytes ?p)))") auto
    then have lo: "length out = len"
      using cipher_length [OF assms(1)] lp len by fastforce
    have "?pre @ write_at (offset - length ?pre) out (pl_bytes ?p) = write_at offset out (?pre @ pl_bytes ?p)"
      using lo len lp data by (auto simp: write_at_def)
    moreover have "min len (pl_length ?p - (offset - length ?pre)) = len" "size_diff (pl_length ?p) (offset - length ?pre) = pl_length ?p - (offset - length ?pre)"
      using len by auto
    ultimately show ?thesis
      using p' data assms(3) len(1) by (simp add: payload_mutate_def Let_def write_at_def)
  qed
qed

theorem payload_mutate_cipher_witness:
  "\<exists>changed b' target'. payload_mutate sample_io complement_func sample_bundle sample_payload_block 1 4 () =
       Inr (changed, (), b', target') \<and>
     bi_contents target' @ pl_bytes (b_payload b') = [1, NOT 8, NOT 3, NOT 1, NOT 2, 3]"
proof -
  have "cipher_func complement_func"
    by (simp add: cipher_func_def complement_func_def)
  from payload_mutate_cipher [OF this sample_walk(1,5), of 4 1 "()" "[NOT 8, NOT 3, NOT 1, NOT 2]" "()" sample_io] show ?thesis
    by (simp add: sample_walk complement_func_def write_at_def drop_Cons' del: not_numeral_eq)
qed

end
