(* ===== verification/Link.thy ===== *)
theory Link
  imports BundleLists
begin

text \<open>
  Links: \<open>servlib/contacts/Link.h\<close> and \<open>Link.cc\<close> with the constructors of \<open>AlwaysOnLink.cc\<close>,
  \<open>OndemandLink.cc\<close>, \<open>ScheduledLink.cc\<close> and \<open>OpportunisticLink.h\<close>. A link has two bundle lists,
  the queue of bundles that wait for transmission and the bundles in flight, both in the heap of
  bundle lists, and four 32-bit counters that are kept beside them. The lemmas show that the
  counters agree with the lists, and that none of the assertions of the four operations is
  violated, as long as a list holds fewer than \<open>2 ^ 32\<close> bundles and bytes.

  The parsing of options, serialization, the lock and the convergence layer of a link are left
  out; a contact is a number, and what the convergence layer does when a contact is closed is an
  argument.
\<close>

type_synonym link_id = nat
type_synonym contact_id = nat

datatype link_type = LINK_INVALID | ALWAYSON | ONDEMAND | SCHEDULED | OPPORTUNISTIC

datatype link_state = UNAVAILABLE | AVAILABLE | OPENING | OPEN | CLOSED

primrec link_state_code :: "link_state \<Rightarrow> u32" where
  "link_state_code UNAVAILABLE = 1"
| "link_state_code AVAILABLE = 2"
| "link_state_code OPENING = 4"
| "link_state_code OPEN = 8"
| "link_state_code CLOSED = 16"

record link_params =
  lp_mtu :: u32
  lp_min_retry_interval :: u32
  lp_max_retry_interval :: u32
  lp_idle_close_time :: u32
  lp_potential_downtime :: u32
  lp_prevhop_hdr :: bool
  lp_cost :: u32
  lp_qlimit_bundles_high :: u32
  lp_qlimit_bytes_high :: u64
  lp_qlimit_bundles_low :: u32
  lp_qlimit_bytes_low :: u64

definition default_params :: link_params where
  "default_params =
     \<lparr>lp_mtu = 0, lp_min_retry_interval = 5, lp_max_retry_interval = 600, lp_idle_close_time = 0,
      lp_potential_downtime = 30, lp_prevhop_hdr = False, lp_cost = 100, lp_qlimit_bundles_high = 10,
      lp_qlimit_bytes_high = 1048576, lp_qlimit_bundles_low = 5, lp_qlimit_bytes_low = 524288\<rparr>"

record link_stats =
  st_contact_attempts :: u32
  st_contacts :: u32
  st_bundles_transmitted :: u32
  st_bytes_transmitted :: u32
  st_bundles_cancelled :: u32
  st_uptime :: u32

record link =
  lk_name :: bytes
  lk_type :: link_type
  lk_state :: link_state
  lk_deleted :: bool
  lk_create_pending :: bool
  lk_usable :: bool
  lk_nexthop :: bytes
  lk_reliable :: bool
  lk_params :: link_params
  lk_queue :: list_id
  lk_inflight :: list_id
  lk_bundles_queued :: u32
  lk_bytes_queued :: u32
  lk_bundles_inflight :: u32
  lk_bytes_inflight :: u32
  lk_contact :: "contact_id option"
  lk_cl_name :: bytes
  lk_remote_eid :: eid
  lk_retry_interval :: u32
  lk_reincarnated :: bool
  lk_used_in_fwdlog :: bool
  lk_stats :: link_stats

text \<open>
  The constructor; the two lists are created with the link. \<open>params\<close> are the default parameters,
  which a command of the console can change.
\<close>

definition link_new :: "naming \<Rightarrow> link_params \<Rightarrow> list_id \<Rightarrow> list_id \<Rightarrow> bytes \<Rightarrow> link_type \<Rightarrow> bytes \<Rightarrow> bytes \<Rightarrow> link" where
  "link_new nm params queue inflight name type cl_name nexthop =
     \<lparr>lk_name = name, lk_type = type, lk_state = UNAVAILABLE, lk_deleted = False, lk_create_pending = False,
      lk_usable = True, lk_nexthop = nexthop, lk_reliable = False, lk_params = params, lk_queue = queue,
      lk_inflight = inflight, lk_bundles_queued = 0, lk_bytes_queued = 0, lk_bundles_inflight = 0,
      lk_bytes_inflight = 0, lk_contact = None, lk_cl_name = cl_name, lk_remote_eid = NULL_EID nm,
      lk_retry_interval = 0, lk_reincarnated = False, lk_used_in_fwdlog = False,
      lk_stats = \<lparr>st_contact_attempts = 0, st_contacts = 0, st_bundles_transmitted = 0, st_bytes_transmitted = 0,
        st_bundles_cancelled = 0, st_uptime = 0\<rparr>\<rparr>"

subsection \<open>The state of a link\<close>

text \<open>
  The transitions that \<open>set_state\<close> expects are only logged when they are not met. \<open>CLOSED\<close> is a
  value of requests, never of a link.
\<close>

definition link_set_state :: "link_state \<Rightarrow> link \<Rightarrow> link res" where
  "link_set_state new_state lk = (if new_state = CLOSED then Inl NOTREACHED else Inr (lk\<lparr>lk_state := new_state\<rparr>))"

definition link_isopen :: "link \<Rightarrow> bool" where "link_isopen lk \<longleftrightarrow> lk_state lk = OPEN"
definition link_isopening :: "link \<Rightarrow> bool" where "link_isopening lk \<longleftrightarrow> lk_state lk = OPENING"
definition link_isavailable :: "link \<Rightarrow> bool" where "link_isavailable lk \<longleftrightarrow> lk_state lk \<noteq> UNAVAILABLE"

lemmas link_state_defs = link_isopen_def link_isopening_def link_isavailable_def

text \<open>The four kinds of links; an unknown type is a panic.\<close>

definition create_link :: "naming \<Rightarrow> link_params \<Rightarrow> list_id \<Rightarrow> list_id \<Rightarrow> bytes \<Rightarrow> link_type \<Rightarrow> bytes \<Rightarrow> bytes \<Rightarrow> link res" where
  "create_link nm params queue inflight name type cl_name nexthop =
     (let lk = link_new nm params queue inflight name type cl_name nexthop
      in case type of
           ALWAYSON \<Rightarrow> link_set_state UNAVAILABLE lk
         | ONDEMAND \<Rightarrow> bindR (link_set_state AVAILABLE lk) (\<lambda>lk.
             Inr (lk\<lparr>lk_params := (lk_params lk)\<lparr>lp_idle_close_time := 30\<rparr>\<rparr>))
         | SCHEDULED \<Rightarrow> Inr lk
         | OPPORTUNISTIC \<Rightarrow> Inr lk
         | LINK_INVALID \<Rightarrow> Inl PANIC)"

text \<open>\<open>c\<close> is the new contact that \<open>open\<close> hands to the convergence layer.\<close>

definition link_open :: "contact_id \<Rightarrow> link \<Rightarrow> link res" where
  "link_open c lk =
     bindR (assertR (\<not> lk_deleted lk)) (\<lambda>_.
       if lk_state lk \<noteq> AVAILABLE then Inr lk
       else
         bindR (link_set_state OPENING lk) (\<lambda>lk.
         bindR (assertR (lk_contact lk = None)) (\<lambda>_.
           let st = lk_stats lk
           in Inr (lk\<lparr>lk_contact := Some c,
                lk_stats := st\<lparr>st_contact_attempts := st_contact_attempts st + 1\<rparr>\<rparr>))))"

text \<open>\<open>clears c\<close>: the convergence layer has removed its state from the contact when \<open>close_contact\<close> returns.\<close>

definition link_close :: "(contact_id \<Rightarrow> bool) \<Rightarrow> link \<Rightarrow> link res" where
  "link_close clears lk =
     (case lk_contact lk of
        None \<Rightarrow> Inr lk
      | Some c \<Rightarrow> bindR (assertR (clears c)) (\<lambda>_. Inr (lk\<lparr>lk_contact := None\<rparr>)))"

definition link_delete :: "link \<Rightarrow> link res" where
  "link_delete lk = bindR (assertR (\<not> lk_deleted lk)) (\<lambda>_. Inr (lk\<lparr>lk_deleted := True\<rparr>))"

definition set_used_in_fwdlog :: "link \<Rightarrow> link" where
  "set_used_in_fwdlog lk = (if \<not> lk_used_in_fwdlog lk then lk\<lparr>lk_used_in_fwdlog := True\<rparr> else lk)"

subsection \<open>The queue and the bundles in flight\<close>

definition queue_is_full :: "link \<Rightarrow> bool" where
  "queue_is_full lk \<longleftrightarrow>
     lk_bundles_queued lk > lp_qlimit_bundles_high (lk_params lk) \<or>
     ucast (lk_bytes_queued lk) > lp_qlimit_bytes_high (lk_params lk)"

definition queue_has_space :: "link \<Rightarrow> bool" where
  "queue_has_space lk \<longleftrightarrow>
     lk_bundles_queued lk < lp_qlimit_bundles_low (lk_params lk) \<and>
     ucast (lk_bytes_queued lk) < lp_qlimit_bytes_low (lk_params lk)"

text \<open>A length is a \<open>size_t\<close>; adding it to a 32-bit counter wraps around.\<close>

definition add_to_queue :: "bundle_ptr \<Rightarrow> nat \<Rightarrow> link \<times> heap \<Rightarrow> (bool \<times> link \<times> heap) res" where
  "add_to_queue b total_len = (\<lambda>(lk, h).
     bindR (bl_contains (lk_queue lk) b h) (\<lambda>found.
       if found then Inr (False, lk, h)
       else
         bindR (bl_push_back (lk_queue lk) b h) (\<lambda>h.
           Inr (True, lk\<lparr>lk_bundles_queued := lk_bundles_queued lk + 1,
             lk_bytes_queued := lk_bytes_queued lk + of_nat total_len\<rparr>, h))))"

definition del_from_queue :: "bundle_ptr \<Rightarrow> nat \<Rightarrow> link \<times> heap \<Rightarrow> (bool \<times> link \<times> heap) res" where
  "del_from_queue b total_len = (\<lambda>(lk, h).
     bindR (bl_erase (lk_queue lk) b h) (\<lambda>(found, h).
       if \<not> found then Inr (False, lk, h)
       else
         bindR (assertR (lk_bundles_queued lk > 0)) (\<lambda>_.
         bindR (assertR (total_len \<noteq> 0)) (\<lambda>_.
           Inr (True, lk\<lparr>lk_bundles_queued := lk_bundles_queued lk - 1,
             lk_bytes_queued := (if total_len \<le> unat (lk_bytes_queued lk)
               then lk_bytes_queued lk - of_nat total_len else lk_bytes_queued lk)\<rparr>, h)))))"

definition add_to_inflight :: "bundle_ptr \<Rightarrow> nat \<Rightarrow> link \<times> heap \<Rightarrow> (bool \<times> link \<times> heap) res" where
  "add_to_inflight b total_len = (\<lambda>(lk, h).
     bindR (get_obj b h) (\<lambda>x.
       if is_queued_on (lk_inflight lk) x then Inr (False, lk, h)
       else
         bindR (bl_push_back (lk_inflight lk) b h) (\<lambda>h.
           Inr (True, lk\<lparr>lk_bundles_inflight := lk_bundles_inflight lk + 1,
             lk_bytes_inflight := lk_bytes_inflight lk + of_nat total_len\<rparr>, h))))"

definition del_from_inflight :: "bundle_ptr \<Rightarrow> nat \<Rightarrow> link \<times> heap \<Rightarrow> (bool \<times> link \<times> heap) res" where
  "del_from_inflight b total_len = (\<lambda>(lk, h).
     bindR (bl_erase (lk_inflight lk) b h) (\<lambda>(found, h).
       if \<not> found then Inr (False, lk, h)
       else
         bindR (assertR (lk_bundles_inflight lk > 0)) (\<lambda>_.
         bindR (assertR (total_len \<noteq> 0)) (\<lambda>_.
           Inr (True, lk\<lparr>lk_bundles_inflight := lk_bundles_inflight lk - 1,
             lk_bytes_inflight := (if total_len \<le> unat (lk_bytes_inflight lk)
               then lk_bytes_inflight lk - of_nat total_len else lk_bytes_inflight lk)\<rparr>, h)))))"

subsection \<open>What an operation on a list leaves unchanged\<close>

definition same_bundles :: "heap \<Rightarrow> heap \<Rightarrow> bool" where
  "same_bundles h h' \<longleftrightarrow> h_live h' = h_live h \<and> (\<forall>c. bo_data (h_bundles h' c) = bo_data (h_bundles h c))"

lemma same_bundles_refl [simp]: "same_bundles h h"
  by (simp add: same_bundles_def)

lemma same_bundles_trans: "same_bundles h h1 \<Longrightarrow> same_bundles h1 h2 \<Longrightarrow> same_bundles h h2"
  by (simp add: same_bundles_def)

lemma inc_ref_same: "inc_ref b h = Inr (n, h') \<Longrightarrow> same_bundles h h'"
  by (auto simp: inc_ref_def bindR_eq_Inr get_obj_def same_bundles_def set_obj_def Let_def split: if_splits)

lemma add_bundle_with_same:
  assumes "add_bundle_with ref l i b h = Inr h'" and "\<And>h h'. ref b h = Inr h' \<Longrightarrow> same_bundles h h'"
  shows "same_bundles h h'"
proof -
  let ?n = "h_next h" and ?xs = "h_lists h l" and ?x = "h_bundles h b"
  let ?h1 = "set_obj b (?x\<lparr>bo_mappings := bo_mappings ?x @ [(l, ?n)]\<rparr>)
      ((set_list l (take i ?xs @ (?n, b) # drop i ?xs) h)\<lparr>h_next := ?n + 1\<rparr>)"
  have "same_bundles h ?h1"
    by (simp add: same_bundles_def set_obj_def set_list_def)
  moreover from assms(1) have "h' = h \<or> ref b ?h1 = Inr h'"
    by (auto simp: add_bundle_with_def bindR_eq_Inr get_obj_def Let_def split: if_splits)
  ultimately show ?thesis
    using assms(2) same_bundles_trans by fastforce
qed

lemma add_ref_same:
  assumes "add_ref b h = Inr h'"
  shows "same_bundles h h'"
proof -
  from assms obtain r h1 where h1: "inc_ref b h = Inr (r, h1)" and
    "h' = h1 \<or> add_bundle_with (\<lambda>b h. bindR (inc_ref b h) (\<lambda>(_, h). Inr h)) ALL_BUNDLES (length (h_lists h1 ALL_BUNDLES)) b h1 = Inr h'"
    by (auto simp: add_ref_def bindR_eq_Inr split: if_splits)
  then have "same_bundles h1 h'"
    using add_bundle_with_same by (fastforce simp: bindR_eq_Inr dest: inc_ref_same)
  then show ?thesis
    using same_bundles_trans inc_ref_same [OF h1] by blast
qed

lemma push_back_same: "bl_push_back l b h = Inr h' \<Longrightarrow> same_bundles h h'"
  using add_bundle_with_same add_ref_same by (fastforce simp: bl_push_back_def add_bundle_def)

lemma del_ref_same:
  "del_ref b h = Inr h' \<Longrightarrow> \<not> is_freed (h_bundles h' b) \<Longrightarrow> same_bundles h h' \<and> h_lists h' = h_lists h"
  by (auto simp: del_ref_def bindR_eq_Inr get_obj_def Let_def set_obj_def same_bundles_def is_freed_def split: if_splits)

lemma del_bundle_same:
  "del_bundle l n h = Inr (b, h') \<Longrightarrow> same_bundles h h' \<and> (\<forall>k. k \<noteq> l \<longrightarrow> h_lists h' k = h_lists h k)"
  by (auto simp: del_bundle_def bindR_eq_Inr get_obj_def Let_def set_obj_def set_list_def same_bundles_def
      split: if_splits option.splits)

lemma erase_same:
  assumes "bl_erase l b h = Inr (r, h')" "\<not> is_freed (h_bundles h' b)"
  shows "same_bundles h h' \<and> (\<forall>k. k \<noteq> l \<longrightarrow> h_lists h' k = h_lists h k)"
proof -
  from assms(1) have "h' = h \<or> (\<exists>n c h1. del_bundle l n h = Inr (c, h1) \<and> del_ref b h1 = Inr h')"
    by (auto simp: bl_erase_def bindR_eq_Inr split: option.splits)
  then show ?thesis
    using del_bundle_same del_ref_same [OF _ assms(2)] same_bundles_trans by (metis same_bundles_refl)
qed

lemma held_alive:
  assumes "bl_inv held h" "1 \<le> held b"
  shows "h_live h b" "\<not> is_freed (h_bundles h b)"
proof -
  show live: "h_live h b"
    using bl_inv_counted [OF assms(1)] assms(2) unfolding counted_def by (metis not_one_le_zero)
  show "\<not> is_freed (h_bundles h b)"
    using bl_inv_obj [OF assms(1) live] assms(2) by (auto simp: obj_counted_def)
qed

text \<open>Adding a bundle that a client holds to a list, and removing it.\<close>

lemma push_back_held:
  assumes iv: "bl_inv held h" and held: "1 \<le> held b" and l: "l \<noteq> ALL_BUNDLES" and new: "b \<notin> snd ` set (h_lists h l)"
  obtains h' where "bl_push_back l b h = Inr h'" "bl_inv held h'" "same_bundles h h'"
    "h_lists h' l = h_lists h l @ [(h_next h, b)]"
    "\<And>k. k \<noteq> l \<Longrightarrow> k \<noteq> ALL_BUNDLES \<Longrightarrow> h_lists h' k = h_lists h k"
proof -
  note alive = held_alive [OF iv held]
  have nq: "\<not> is_queued_on l (h_bundles h b)"
    using linked_queued [OF bl_inv_linked [OF iv] alive(1)] new by blast
  from bl_inv_add_bundle [OF iv alive(1) l, of "length (h_lists h l)"] obtain h' where
    h': "bl_push_back l b h = Inr h'" "bl_inv held h'"
    "\<forall>k. k \<noteq> ALL_BUNDLES \<longrightarrow> h_lists h' k = (if k = l then h_lists h l @ [(h_next h, b)] else h_lists h k)"
    using alive(2) nq by (auto simp: bl_push_back_def)
  show ?thesis
    by (rule that [OF h'(1,2) push_back_same [OF h'(1)]]) (use h'(3) l in simp_all)
qed

lemma erase_held:
  assumes iv: "bl_inv held h" and held: "1 \<le> held b" and l: "l \<noteq> ALL_BUNDLES"
  obtains h' where "bl_erase l b h = Inr (b \<in> snd ` set (h_lists h l), h')" "bl_inv held h'" "same_bundles h h'"
    "h_lists h' l = filter (\<lambda>p. snd p \<noteq> b) (h_lists h l)" "\<And>k. k \<noteq> l \<Longrightarrow> h_lists h' k = h_lists h k"
proof -
  from bl_inv_erase [OF iv held_alive(1) [OF iv held] l] obtain h' where
    h': "bl_erase l b h = Inr (b \<in> snd ` set (h_lists h l), h')" "bl_inv held h'"
    "h_lists h' l = filter (\<lambda>p. snd p \<noteq> b) (h_lists h l)"
    by blast
  note same = erase_same [OF h'(1) held_alive(2) [OF h'(2) held]]
  show ?thesis
    by (rule that [OF h'(1,2) _ h'(3)]) (use same in simp_all)
qed

lemma contains_held:
  "bl_inv held h \<Longrightarrow> 1 \<le> held b \<Longrightarrow> bl_contains l b h = Inr (b \<in> snd ` set (h_lists h l))"
  using bl_contains_eq held_alive(1) by blast

subsection \<open>Lists with counters\<close>

definition list_bytes :: "(bundle_ptr \<Rightarrow> nat) \<Rightarrow> (node \<times> bundle_ptr) list \<Rightarrow> nat" where
  "list_bytes len xs = sum_list (map (\<lambda>p. len (snd p)) xs)"

definition counts :: "(bundle_ptr \<Rightarrow> nat) \<Rightarrow> (node \<times> bundle_ptr) list \<Rightarrow> u32 \<Rightarrow> u32 \<Rightarrow> bool" where
  "counts len xs n bytes \<longleftrightarrow> unat n = length xs \<and> unat bytes = list_bytes len xs"

lemma list_bytes_simps [simp]:
  "list_bytes len [] = 0" "list_bytes len ((n, b) # xs) = len b + list_bytes len xs"
  "list_bytes len (xs @ ys) = list_bytes len xs + list_bytes len ys"
  by (simp_all add: list_bytes_def)

lemma counts_Nil: "counts len [] n bytes \<longleftrightarrow> n = 0 \<and> bytes = 0"
  by (simp add: counts_def unat_eq_0)

lemma counts_cong: "(\<And>b. b \<in> snd ` set xs \<Longrightarrow> len' b = len b) \<Longrightarrow> counts len' xs n bytes = counts len xs n bytes"
proof -
  assume eq: "\<And>b. b \<in> snd ` set xs \<Longrightarrow> len' b = len b"
  have "map (\<lambda>p. len' (snd p)) xs = map (\<lambda>p. len (snd p)) xs"
    by (rule map_cong [OF refl]) (use eq in blast)
  then show ?thesis
    unfolding counts_def list_bytes_def by metis
qed

lemma linked_distinct_bundles:
  assumes "linked h"
  shows "distinct (map snd (h_lists h l))"
proof -
  have "p = q" if pq: "p \<in> set (h_lists h l)" "q \<in> set (h_lists h l)" "snd p = snd q" for p q
  proof -
    obtain n m b where "p = (n, b)" "q = (m, b)"
      using pq(3) by (metis prod.exhaust_sel)
    then have "h_live h b" "(l, n) \<in> set (bo_mappings (h_bundles h b))" "(l, m) \<in> set (bo_mappings (h_bundles h b))"
      using pq(1,2) linked_iff [OF assms] by blast+
    then have "n = m"
      using linked_mappings [OF assms] by (metis eq_key_imp_eq_value)
    then show ?thesis
      using \<open>p = (n, b)\<close> \<open>q = (m, b)\<close> by simp
  qed
  moreover have "distinct (h_lists h l)"
    using linked_distinct [OF assms] by (simp add: distinct_map)
  ultimately show ?thesis
    by (auto simp: distinct_map intro: inj_onI)
qed

lemma filter_absent: "b \<notin> snd ` set xs \<Longrightarrow> filter (\<lambda>p. snd p \<noteq> b) xs = xs"
  by (induction xs) auto

lemma counts_remove:
  assumes "distinct (map snd xs)" "b \<in> snd ` set xs" "counts len xs n bytes"
  shows "counts len (filter (\<lambda>p. snd p \<noteq> b) xs) (n - 1) (bytes - of_nat (len b)) \<and> 0 < n \<and> len b \<le> unat bytes"
proof -
  have "length xs = Suc (length (filter (\<lambda>p. snd p \<noteq> b) xs)) \<and>
      list_bytes len xs = len b + list_bytes len (filter (\<lambda>p. snd p \<noteq> b) xs)"
    using assms(1,2)
  proof (induction xs)
    case (Cons p xs)
    then show ?case
    proof (cases "snd p = b")
      case True
      then have "filter (\<lambda>q. snd q \<noteq> b) xs = xs"
        using Cons.prems(1) by (auto intro!: filter_absent)
      then show ?thesis
        using True by (cases p) simp
    next
      case False
      then show ?thesis
        using Cons by (cases p) auto
    qed
  qed simp
  then have eq: "unat n = Suc (length (filter (\<lambda>p. snd p \<noteq> b) xs))"
    "unat bytes = len b + list_bytes len (filter (\<lambda>p. snd p \<noteq> b) xs)"
    using assms(3) by (simp_all add: counts_def)
  have n: "0 < n"
    using eq(1) by (metis unat_gt_0 word_neq_0_conv zero_less_Suc)
  moreover have "unat (n - 1) = unat n - 1"
    using n by (metis unat_minus_one word_neq_0_conv)
  moreover have "unat (bytes - of_nat (len b)) = unat bytes - len b"
  proof -
    have "len b < 2 ^ 32"
      using eq(2) unat_less_u32 [of bytes] by simp
    then have "unat (of_nat (len b) :: u32) = len b"
      by (simp add: unat_of_nat)
    then show ?thesis
      using eq(2) by (subst unat_sub) (simp_all add: word_le_nat_alt)
  qed
  ultimately show ?thesis
    using eq by (simp add: counts_def)
qed

lemma counts_add:
  assumes "counts len xs n bytes" "Suc (length xs) < 2 ^ 32" "list_bytes len xs + len b < 2 ^ 32"
  shows "counts len (xs @ [(m, b)]) (n + 1) (bytes + of_nat (len b))"
proof -
  have "unat (n + 1) = Suc (length xs)"
    using assms(1,2) by (simp add: counts_def unat_word_ariths)
  moreover have "unat (bytes + of_nat (len b)) = list_bytes len xs + len b"
    using assms(1,3) by (simp add: counts_def unat_word_ariths unat_of_nat)
  ultimately show ?thesis
    by (simp add: counts_def)
qed

text \<open>
  The queue and the list of bundles in flight have the same contract: a list of the link, a
  counter of its bundles and one of their bytes. \<open>len b\<close> is the length with which \<open>b\<close> is added
  and removed.
\<close>

locale link_list =
  fixes lst :: "link \<Rightarrow> list_id" and cnt :: "link \<Rightarrow> u32" and byt :: "link \<Rightarrow> u32"
    and upd :: "u32 \<Rightarrow> u32 \<Rightarrow> link \<Rightarrow> link"
    and add :: "bundle_ptr \<Rightarrow> nat \<Rightarrow> link \<times> heap \<Rightarrow> (bool \<times> link \<times> heap) res"
    and del :: "bundle_ptr \<Rightarrow> nat \<Rightarrow> link \<times> heap \<Rightarrow> (bool \<times> link \<times> heap) res"
  assumes upd_fields: "cnt (upd n m lk) = n" "byt (upd n m lk) = m" "lst (upd n m lk) = lst lk"
    and add_eq: "bl_contains (lst lk) b h = Inr found \<Longrightarrow>
      add b k (lk, h) = (if found then Inr (False, lk, h)
        else bindR (bl_push_back (lst lk) b h) (\<lambda>h. Inr (True, upd (cnt lk + 1) (byt lk + of_nat k) lk, h)))"
    and del_eq: "bl_erase (lst lk) b h = Inr (found, h') \<Longrightarrow>
      del b k (lk, h) = (if \<not> found then Inr (False, lk, h')
        else if \<not> 0 < cnt lk \<or> k = 0 then Inl ASSERT
        else Inr (True, upd (cnt lk - 1) (if k \<le> unat (byt lk) then byt lk - of_nat k else byt lk) lk, h'))"
begin

definition ok :: "(bundle_ptr \<Rightarrow> nat) \<Rightarrow> link \<Rightarrow> heap \<Rightarrow> bool" where
  "ok len lk h \<longleftrightarrow> lst lk \<noteq> ALL_BUNDLES \<and> counts len (h_lists h (lst lk)) (cnt lk) (byt lk)"

lemma add_present:
  assumes "bl_inv held h" "1 \<le> held b" "b \<in> snd ` set (h_lists h (lst lk))"
  shows "add b k (lk, h) = Inr (False, lk, h)"
  using add_eq [OF contains_held [OF assms(1,2)]] assms(3) by simp

lemma add_new:
  assumes iv: "bl_inv held h" and held: "1 \<le> held b" and ok: "ok len lk h"
    and new: "b \<notin> snd ` set (h_lists h (lst lk))"
    and room: "Suc (length (h_lists h (lst lk))) < 2 ^ 32" "list_bytes len (h_lists h (lst lk)) + len b < 2 ^ 32"
  obtains h' where "add b (len b) (lk, h) = Inr (True, upd (cnt lk + 1) (byt lk + of_nat (len b)) lk, h')"
    "bl_inv held h'" "same_bundles h h'" "ok len (upd (cnt lk + 1) (byt lk + of_nat (len b)) lk) h'"
    "h_lists h' (lst lk) = h_lists h (lst lk) @ [(h_next h, b)]"
    "\<And>k. k \<noteq> lst lk \<Longrightarrow> k \<noteq> ALL_BUNDLES \<Longrightarrow> h_lists h' k = h_lists h k"
proof -
  have l: "lst lk \<noteq> ALL_BUNDLES"
    using ok by (simp add: ok_def)
  obtain h' where h': "bl_push_back (lst lk) b h = Inr h'" "bl_inv held h'" "same_bundles h h'"
    "h_lists h' (lst lk) = h_lists h (lst lk) @ [(h_next h, b)]"
    "\<And>k. k \<noteq> lst lk \<Longrightarrow> k \<noteq> ALL_BUNDLES \<Longrightarrow> h_lists h' k = h_lists h k"
    using push_back_held [OF iv held l new] by metis
  have "add b (len b) (lk, h) = Inr (True, upd (cnt lk + 1) (byt lk + of_nat (len b)) lk, h')"
    using add_eq [OF contains_held [OF iv held]] new h'(1) by simp
  moreover have "ok len (upd (cnt lk + 1) (byt lk + of_nat (len b)) lk) h'"
    using ok counts_add [OF _ room] h'(4) by (simp add: ok_def upd_fields)
  ultimately show ?thesis
    using that h' by metis
qed

lemma del_absent:
  assumes "bl_inv held h" "1 \<le> held b" "ok len lk h" "b \<notin> snd ` set (h_lists h (lst lk))"
  obtains h' where "del b k (lk, h) = Inr (False, lk, h')" "bl_inv held h'" "same_bundles h h'" "h_lists h' = h_lists h"
proof -
  have l: "lst lk \<noteq> ALL_BUNDLES"
    using assms(3) by (simp add: ok_def)
  obtain h' where h': "bl_erase (lst lk) b h = Inr (b \<in> snd ` set (h_lists h (lst lk)), h')" "bl_inv held h'"
    "same_bundles h h'" "h_lists h' (lst lk) = filter (\<lambda>p. snd p \<noteq> b) (h_lists h (lst lk))"
    "\<And>k. k \<noteq> lst lk \<Longrightarrow> h_lists h' k = h_lists h k"
    using erase_held [OF assms(1,2) l] by metis
  have "filter (\<lambda>p. snd p \<noteq> b) (h_lists h (lst lk)) = h_lists h (lst lk)"
    by (rule filter_absent [OF assms(4)])
  then have "h_lists h' = h_lists h"
    using h'(4,5) by (intro ext) metis
  moreover have "del b k (lk, h) = Inr (False, lk, h')"
    using del_eq [OF h'(1)] assms(4) by simp
  ultimately show ?thesis
    using that h'(2,3) by blast
qed

lemma del_present:
  assumes iv: "bl_inv held h" and held: "1 \<le> held b" and ok: "ok len lk h"
    and mem: "b \<in> snd ` set (h_lists h (lst lk))" and pos: "0 < len b"
  obtains h' where "del b (len b) (lk, h) = Inr (True, upd (cnt lk - 1) (byt lk - of_nat (len b)) lk, h')"
    "bl_inv held h'" "same_bundles h h'" "ok len (upd (cnt lk - 1) (byt lk - of_nat (len b)) lk) h'"
    "h_lists h' (lst lk) = filter (\<lambda>p. snd p \<noteq> b) (h_lists h (lst lk))"
    "\<And>k. k \<noteq> lst lk \<Longrightarrow> h_lists h' k = h_lists h k"
proof -
  have l: "lst lk \<noteq> ALL_BUNDLES"
    using ok by (simp add: ok_def)
  obtain h' where h': "bl_erase (lst lk) b h = Inr (b \<in> snd ` set (h_lists h (lst lk)), h')" "bl_inv held h'"
    "same_bundles h h'" "h_lists h' (lst lk) = filter (\<lambda>p. snd p \<noteq> b) (h_lists h (lst lk))"
    "\<And>k. k \<noteq> lst lk \<Longrightarrow> h_lists h' k = h_lists h k"
    using erase_held [OF iv held l] by metis
  have c: "counts len (h_lists h' (lst lk)) (cnt lk - 1) (byt lk - of_nat (len b))" "0 < cnt lk" "len b \<le> unat (byt lk)"
    using counts_remove [OF linked_distinct_bundles [OF bl_inv_linked [OF iv]] mem] ok h'(4) by (auto simp: ok_def)
  have "del b (len b) (lk, h) = Inr (True, upd (cnt lk - 1) (byt lk - of_nat (len b)) lk, h')"
    using del_eq [OF h'(1)] mem c(2,3) pos by simp
  moreover have "ok len (upd (cnt lk - 1) (byt lk - of_nat (len b)) lk) h'"
    using l c(1) by (simp add: ok_def upd_fields)
  ultimately show ?thesis
    using that h' by metis
qed

end

interpretation queue: link_list lk_queue lk_bundles_queued lk_bytes_queued
  "\<lambda>n m lk. lk\<lparr>lk_bundles_queued := n, lk_bytes_queued := m\<rparr>" add_to_queue del_from_queue
  by unfold_locales (auto simp: add_to_queue_def del_from_queue_def assertR_def)

lemma bl_contains_queued: "bl_contains l b h = Inr r \<Longrightarrow> h_live h b \<and> is_queued_on l (h_bundles h b) = r"
  by (auto simp: bl_contains_def bindR_eq_Inr get_obj_def Let_def split: if_splits)

interpretation inflight: link_list lk_inflight lk_bundles_inflight lk_bytes_inflight
  "\<lambda>n m lk. lk\<lparr>lk_bundles_inflight := n, lk_bytes_inflight := m\<rparr>" add_to_inflight del_from_inflight
  by unfold_locales
    (auto simp: add_to_inflight_def del_from_inflight_def get_obj_def assertR_def dest!: bl_contains_queued)

end
