(* ===== verification/ContactManager.thy ===== *)
theory ContactManager
  imports Link PrimaryBlock
begin

text \<open>
  The life of a link: the contact manager of \<open>servlib/contacts/ContactManager.cc\<close>, the link and
  contact handlers of \<open>servlib/bundling/BundleDaemon.cc\<close>, \<open>open_link\<close> and \<open>close_link\<close> of
  \<open>BundleActions.cc\<close>, and the events of \<open>BundleEvent.h\<close> that all of them post and handle.

  Links are shared between the daemon, the router and the convergence layers, so they live in a
  table indexed by \<open>link_id\<close> (the address of the object); a set of links is the sorted list of
  their addresses. Contacts are numbered in the order they are created. The persistent store, the
  locks and the timer system are left out: the table of availability timers holds the delay with
  which each timer was scheduled.
\<close>

subsection \<open>Events\<close>

datatype contact_reason =
    INVALID | NO_INFO | USER | BROKEN | DISCOVERY | CL_ERROR | CL_VERSION | SHUTDOWN | RECONNECT | IDLE | TIMEOUT

datatype event_source =
    EVENTSRC_PEER | EVENTSRC_APP | EVENTSRC_STORE | EVENTSRC_ADMIN | EVENTSRC_FRAGMENTATION | EVENTSRC_ROUTER | EVENTSRC_CACHE

text \<open>
  A request for a new link state carries the contact that the link had when it was made. A
  transmission carries the numbers of bytes sent and acknowledged.
\<close>

datatype event =
    BundleReceived bundle_ptr event_source
  | BundleTransmitted bundle_ptr link_id u32 u32
  | BundleDelivered bundle_ptr u32
  | BundleExpired bundle_ptr
  | BundleSendCancelled bundle_ptr link_id
  | BundleDelete bundle_ptr byte
  | BundleCustodyTimeout bundle_ptr link_id
  | DeliverBundleToReg bundle_ptr u32
  | ContactUp contact_id
  | ContactDown contact_id contact_reason
  | LinkCreated link_id
  | LinkDeleted link_id
  | LinkAvailable link_id contact_reason
  | LinkUnavailable link_id contact_reason
  | LinkStateChange link_id link_state contact_reason "contact_id option"
  | LinkDelete link_id

subsection \<open>The state\<close>

text \<open>
  What the handlers take from outside: the naming of endpoints, the default parameters of a link,
  whether a convergence layer accepts a new link, whether it has removed its state from a contact it
  closed, and the age of a contact in milliseconds.
\<close>

record cm_env =
  ce_naming :: naming
  ce_params :: link_params
  ce_init_link :: "link \<Rightarrow> bool"
  ce_clears :: "contact_id \<Rightarrow> bool"
  ce_elapsed_ms :: "contact_id \<Rightarrow> u32"

record cm_sys =
  cm_links :: "link_id \<Rightarrow> link"
  cm_set :: "link_id list"
  cm_previous :: "link_id list"
  cm_timers :: "link_id \<Rightarrow> u32 option"
  cm_contact_link :: "contact_id \<Rightarrow> link_id"
  cm_next_contact :: contact_id
  cm_opportunistic_cnt :: nat
  cm_events :: "event list"

text \<open>At the start no link exists; an address without a link counts as a deleted one.\<close>

definition no_link :: "naming \<Rightarrow> link" where
  "no_link nm = (link_new nm default_params 0 0 [] LINK_INVALID [] [])\<lparr>lk_deleted := True\<rparr>"

definition cm_init :: "naming \<Rightarrow> cm_sys" where
  "cm_init nm = \<lparr>cm_links = (\<lambda>_. no_link nm), cm_set = [], cm_previous = [], cm_timers = (\<lambda>_. None),
     cm_contact_link = (\<lambda>_. 0), cm_next_contact = 0, cm_opportunistic_cnt = 0, cm_events = []\<rparr>"

definition set_link :: "link_id \<Rightarrow> link \<Rightarrow> cm_sys \<Rightarrow> cm_sys" where
  "set_link l lk s = s\<lparr>cm_links := (cm_links s)(l := lk)\<rparr>"

definition post :: "event \<Rightarrow> cm_sys \<Rightarrow> cm_sys" where
  "post ev s = s\<lparr>cm_events := cm_events s @ [ev]\<rparr>"

definition post_at_head :: "event \<Rightarrow> cm_sys \<Rightarrow> cm_sys" where
  "post_at_head ev s = s\<lparr>cm_events := ev # cm_events s\<rparr>"

text \<open>The constructor of the request reads the current contact of the link.\<close>

definition state_change :: "link_id \<Rightarrow> link_state \<Rightarrow> contact_reason \<Rightarrow> cm_sys \<Rightarrow> event" where
  "state_change l st reason s = LinkStateChange l st reason (lk_contact (cm_links s l))"

subsection \<open>Opening and closing\<close>

definition open_link :: "link_id \<Rightarrow> cm_sys \<Rightarrow> cm_sys res" where
  "open_link l s =
     (let lk = cm_links s l
      in if lk_deleted lk then Inr s
         else if link_isopen lk \<or> lk_contact lk \<noteq> None then Inr s
         else if \<not> link_isavailable lk then Inr s
         else
           let c = cm_next_contact s
           in bindR (link_open c lk) (\<lambda>lk.
                Inr ((set_link l lk s)\<lparr>cm_contact_link := (cm_contact_link s)(c := l), cm_next_contact := c + 1\<rparr>)))"

definition close_link :: "cm_env \<Rightarrow> link_id \<Rightarrow> cm_sys \<Rightarrow> cm_sys res" where
  "close_link env l s =
     (let lk = cm_links s l
      in if \<not> link_isopen lk \<and> \<not> link_isopening lk then Inr s
         else
           bindR (link_close (ce_clears env) lk) (\<lambda>lk.
           bindR (assertR (lk_contact lk = None)) (\<lambda>_. Inr (set_link l lk s))))"

subsection \<open>Finding links\<close>

text \<open>\<open>strcasecmp(a, b) == 0\<close> in the C locale.\<close>

definition to_lower :: "byte \<Rightarrow> byte" where
  "to_lower c = (if 65 \<le> c \<and> c \<le> 90 then c + 32 else c)"

definition strcasecmp_eq :: "bytes \<Rightarrow> bytes \<Rightarrow> bool" where
  "strcasecmp_eq a b \<longleftrightarrow> map to_lower (takeWhile (\<lambda>c. c \<noteq> 0) a) = map to_lower (takeWhile (\<lambda>c. c \<noteq> 0) b)"

definition has_link :: "link_id \<Rightarrow> cm_sys \<Rightarrow> bool" where
  "has_link l s \<longleftrightarrow> l \<in> set (cm_set s)"

definition has_link_name :: "bytes \<Rightarrow> cm_sys \<Rightarrow> bool" where
  "has_link_name name s \<longleftrightarrow> (\<exists>l\<in>set (cm_set s). strcasecmp_eq (lk_name (cm_links s l)) name)"

definition find_link_in :: "(link \<Rightarrow> bool) \<Rightarrow> link_id list \<Rightarrow> cm_sys \<Rightarrow> link_id option res" where
  "find_link_in P ls s =
     (case find (\<lambda>l. P (cm_links s l)) ls of
        None \<Rightarrow> Inr None
      | Some l \<Rightarrow> bindR (assertR (\<not> lk_deleted (cm_links s l))) (\<lambda>_. Inr (Some l)))"

definition find_link :: "bytes \<Rightarrow> cm_sys \<Rightarrow> link_id option res" where
  "find_link name s = find_link_in (\<lambda>lk. strcasecmp_eq (lk_name lk) name) (cm_set s) s"

definition find_previous_link :: "bytes \<Rightarrow> cm_sys \<Rightarrow> link_id option res" where
  "find_previous_link name s = find_link_in (\<lambda>lk. strcasecmp_eq (lk_name lk) name) (cm_previous s) s"

definition find_any_link_to ::
  "naming \<Rightarrow> link_id list \<Rightarrow> bytes option \<Rightarrow> bytes \<Rightarrow> eid \<Rightarrow> link_type \<Rightarrow> u32 \<Rightarrow> cm_sys \<Rightarrow> link_id option res"
where
  "find_any_link_to nm ls cl nexthop remote type sts s =
     bindR (assertR (cl \<noteq> None \<or> nexthop \<noteq> [] \<or> \<not> eid_equals remote (NULL_EID nm) \<or> type \<noteq> LINK_INVALID)) (\<lambda>_.
       find_link_in (\<lambda>lk.
         (type = LINK_INVALID \<or> type = lk_type lk) \<and>
         (case cl of None \<Rightarrow> True | Some c \<Rightarrow> lk_cl_name lk = c) \<and>
         (nexthop = [] \<or> nexthop = lk_nexthop lk) \<and>
         (eid_equals remote (NULL_EID nm) \<or> eid_equals remote (lk_remote_eid lk)) \<and>
         sts AND link_state_code (lk_state lk) \<noteq> 0) ls s)"

definition find_link_to :: "naming \<Rightarrow> bytes option \<Rightarrow> bytes \<Rightarrow> eid \<Rightarrow> link_type \<Rightarrow> u32 \<Rightarrow> cm_sys \<Rightarrow> link_id option res" where
  "find_link_to nm cl nexthop remote type sts s = find_any_link_to nm (cm_set s) cl nexthop remote type sts s"

definition find_previous_link_to :: "naming \<Rightarrow> bytes option \<Rightarrow> bytes \<Rightarrow> eid \<Rightarrow> link_type \<Rightarrow> u32 \<Rightarrow> cm_sys \<Rightarrow> link_id option res" where
  "find_previous_link_to nm cl nexthop remote type sts s =
     find_any_link_to nm (cm_previous s) cl nexthop remote type sts s"

subsection \<open>Adding and deleting links\<close>

text \<open>
  Whether a new link agrees with the links used before. The result is the answer, whether the link
  is a reincarnation of an earlier one, and the link, whose remote endpoint is then that of the
  earlier one.
\<close>

fun consistent_with_previous_usage :: "naming \<Rightarrow> link \<Rightarrow> link list \<Rightarrow> bool \<times> bool \<times> link" where
  "consistent_with_previous_usage nm lk [] = (True, False, lk)"
| "consistent_with_previous_usage nm lk (p # ps) =
     (let test_name = strcasecmp_eq (lk_name p) (lk_name lk);
          test_spec =
            (eid_equals (lk_remote_eid lk) (NULL_EID nm) \<or> eid_equals (lk_remote_eid lk) (lk_remote_eid p)) \<and>
            (lk_type lk = OPPORTUNISTIC \<or>
             lk_nexthop lk = lk_nexthop p \<and> lk_type lk = lk_type p \<and> lk_cl_name lk = lk_cl_name p)
      in if test_name then
           if test_spec then (True, True, lk\<lparr>lk_remote_eid := lk_remote_eid p\<rparr>) else (False, False, lk)
         else if test_spec then (False, False, lk)
         else consistent_with_previous_usage nm lk ps)"

definition add_new_link :: "cm_env \<Rightarrow> link_id \<Rightarrow> cm_sys \<Rightarrow> (bool \<times> cm_sys) res" where
  "add_new_link env l s =
     (let lk = cm_links s l
      in
      bindR (assertR (\<not> lk_deleted lk)) (\<lambda>_.
        if has_link_name (lk_name lk) s then Inr (False, s)
        else
          case consistent_with_previous_usage (ce_naming env) lk (map (cm_links s) (cm_previous s)) of
            (ok, reincarnation, lk) \<Rightarrow>
              if \<not> ok then Inr (False, s)
              else
                let lk = (if reincarnation then lk\<lparr>lk_reincarnated := True\<rparr> else lk);
                    s = (set_link l lk s)\<lparr>cm_set := insort_insert l (cm_set s)\<rparr>
                in Inr (True, if lk_create_pending lk then s else post (LinkCreated l) s)))"

text \<open>\<open>del_link\<close> with its default arguments, as the daemon calls it.\<close>

definition del_link :: "link_id \<Rightarrow> cm_sys \<Rightarrow> cm_sys res" where
  "del_link l s =
     (if \<not> has_link l s then Inr s
      else
        bindR (link_delete (cm_links s l)) (\<lambda>lk.
          let s = set_link l lk s;
              s = (if link_isopen lk \<or> link_isopening lk then post (state_change l CLOSED NO_INFO s) s else s);
              s = s\<lparr>cm_timers := (cm_timers s)(l := None), cm_set := remove1 l (cm_set s)\<rparr>;
              s = (if lk_used_in_fwdlog lk \<and> \<not> lk_reincarnated lk
                   then s\<lparr>cm_previous := insort_insert l (cm_previous s)\<rparr> else s)
          in Inr (post (LinkDeleted l) s)))"

text \<open>
  The name of a new opportunistic link: that of an earlier link to the same endpoint, or a prefix
  and the first unused number. Both names are built in buffers of 64 bytes. A prefix of 56
  characters or more is copied without its terminator, and one with a percent sign is read as a
  format: the code has no defined behaviour then.
\<close>

definition name_used :: "cm_sys \<Rightarrow> bytes \<Rightarrow> bool res" where
  "name_used s name =
     bindR (find_link name s) (\<lambda>r.
       if r \<noteq> None then Inr True
       else bindR (find_previous_link name s) (\<lambda>r. Inr (r \<noteq> None)))"

lemma bindR_cong [fundef_cong]: "m = m' \<Longrightarrow> (\<And>x. m' = Inr x \<Longrightarrow> f x = f' x) \<Longrightarrow> bindR m f = bindR m' f'"
  by (cases m') (auto simp: bindR_def)

function next_name :: "(bytes \<Rightarrow> bool res) \<Rightarrow> bytes \<Rightarrow> nat \<Rightarrow> (bytes \<times> nat) res" where
  "next_name used prefix cnt =
     (let name = prefix @ lit ''-'' @ dec cnt; cnt' = cnt + 1
      in
      bindR (assertR (cnt' < 1000000)) (\<lambda>_.
      bindR (used name) (\<lambda>u.
        if u then next_name used prefix cnt' else Inr (name, cnt'))))"
  by pat_completeness auto
termination
  by (relation "measure (\<lambda>(_, _, cnt). 1000000 - cnt)") auto

declare next_name.simps [simp del]

definition name_prefix :: "bytes option \<Rightarrow> bytes res" where
  "name_prefix link_name =
     (case link_name of
        None \<Rightarrow> Inr (lit ''link'')
      | Some n \<Rightarrow> if length n \<ge> 56 \<or> 0 \<in> set n \<or> 0x25 \<in> set n then Inl OOB else Inr n)"

definition new_opportunistic_link ::
  "cm_env \<Rightarrow> link_id \<Rightarrow> list_id \<Rightarrow> list_id \<Rightarrow> bytes \<Rightarrow> bytes \<Rightarrow> eid \<Rightarrow> bytes option \<Rightarrow> cm_sys \<Rightarrow> (link_id option \<times> cm_sys) res"
where
  "new_opportunistic_link env l queue inflight cl nexthop remote link_name s =
     bindR (find_previous_link_to (ce_naming env) None [] remote OPPORTUNISTIC 0xffffffff s) (\<lambda>r.
     bindR (case r of
              Some p \<Rightarrow> if length (lk_name (cm_links s p)) \<ge> 64 then Inl OOB else Inr (lk_name (cm_links s p), cm_opportunistic_cnt s)
            | None \<Rightarrow> bindR (name_prefix link_name) (\<lambda>prefix. next_name (name_used s) prefix (cm_opportunistic_cnt s))) (\<lambda>(name, cnt).
     bindR (create_link (ce_naming env) (ce_params env) queue inflight name OPPORTUNISTIC cl nexthop) (\<lambda>lk.
       if \<not> ce_init_link env lk
       then Inr (None, (set_link l (lk\<lparr>lk_deleted := True\<rparr>) s)\<lparr>cm_opportunistic_cnt := cnt\<rparr>)
       else
         let s = (set_link l (lk\<lparr>lk_remote_eid := remote\<rparr>) s)\<lparr>cm_opportunistic_cnt := cnt\<rparr>
         in bindR (add_new_link env l s) (\<lambda>(ok, s).
              if ok then Inr (Some l, s)
              else bindR (link_delete (cm_links s l)) (\<lambda>lk. Inr (None, set_link l lk s))))))"

text \<open>A convergence layer attaches a contact to a link when a peer has connected to it.\<close>

definition attach_contact :: "link_id \<Rightarrow> cm_sys \<Rightarrow> (contact_id \<times> cm_sys) res" where
  "attach_contact l s =
     (let lk = cm_links s l; c = cm_next_contact s
      in
      bindR (assertR (\<not> lk_deleted lk)) (\<lambda>_.
      bindR (assertR (\<not> link_isopen lk)) (\<lambda>_.
      bindR (assertR (lk_contact lk = None)) (\<lambda>_.
        Inr (c, (set_link l (lk\<lparr>lk_contact := Some c\<rparr>) s)\<lparr>cm_contact_link := (cm_contact_link s)(c := l),
          cm_next_contact := c + 1\<rparr>)))))"

text \<open>
  \<open>find_contact\<close>: an idle opportunistic link to the peer over the same convergence layer is used
  again, otherwise a new one is created at the address \<open>l\<close>. \<open>None\<close> is the result \<open>false\<close>.
\<close>

definition find_contact ::
  "cm_env \<Rightarrow> link_id \<Rightarrow> list_id \<Rightarrow> list_id \<Rightarrow> bytes \<Rightarrow> bytes \<Rightarrow> eid \<Rightarrow> cm_sys \<Rightarrow> (contact_id option \<times> cm_sys) res"
where
  "find_contact env l queue inflight cl nexthop peer s =
     bindR (find_link_to (ce_naming env) (Some cl) [] peer OPPORTUNISTIC
              (link_state_code AVAILABLE OR link_state_code UNAVAILABLE) s) (\<lambda>r.
       let attach = (\<lambda>k s. bindR (attach_contact k s) (\<lambda>(c, s). Inr (Some c, s)));
           idle = (case r of None \<Rightarrow> None | Some k \<Rightarrow> if lk_contact (cm_links s k) = None then Some k else None)
       in case idle of
            Some k \<Rightarrow> attach k (set_link k ((cm_links s k)\<lparr>lk_nexthop := nexthop\<rparr>) s)
          | None \<Rightarrow>
              bindR (new_opportunistic_link env l queue inflight cl nexthop peer None s) (\<lambda>(r, s).
                case r of None \<Rightarrow> Inr (None, s) | Some k \<Rightarrow> attach k s))"

subsection \<open>The handlers of the contact manager\<close>

definition set_initial_state :: "link_id \<Rightarrow> cm_sys \<Rightarrow> cm_sys" where
  "set_initial_state l s =
     (case lk_type (cm_links s l) of
        ALWAYSON \<Rightarrow> post_at_head (state_change l OPEN USER s) s
      | ONDEMAND \<Rightarrow> post (LinkAvailable l NO_INFO) s
      | _ \<Rightarrow> s)"

definition cm_link_created :: "link_id \<Rightarrow> cm_sys \<Rightarrow> cm_sys" where
  "cm_link_created l s =
     (if lk_deleted (cm_links s l) then s else if \<not> has_link l s then s else set_initial_state l s)"

definition cm_link_available :: "link_id \<Rightarrow> cm_sys \<Rightarrow> cm_sys" where
  "cm_link_available l s =
     (if lk_deleted (cm_links s l) then s else if \<not> has_link l s then s
      else s\<lparr>cm_timers := (cm_timers s)(l := None)\<rparr>)"

definition cm_link_unavailable :: "link_id \<Rightarrow> contact_reason \<Rightarrow> cm_sys \<Rightarrow> cm_sys" where
  "cm_link_unavailable l reason s =
     (let lk = cm_links s l
      in if \<not> has_link l s then s
         else if lk_deleted lk then s
         else if lk_type lk \<noteq> ONDEMAND \<and> lk_type lk \<noteq> ALWAYSON then s
         else if reason = USER \<or> reason = IDLE then s
         else
           let timeout = (if lk_retry_interval lk = 0 then lp_min_retry_interval (lk_params lk) else lk_retry_interval lk);
               retry = timeout * 2;
               retry = (if retry > lp_max_retry_interval (lk_params lk) then lp_max_retry_interval (lk_params lk) else retry);
               s = set_link l (lk\<lparr>lk_retry_interval := retry\<rparr>) s
           in case cm_timers s l of
                Some _ \<Rightarrow> s
              | None \<Rightarrow> s\<lparr>cm_timers := (cm_timers s)(l \<mapsto> timeout)\<rparr>)"

definition cm_contact_up :: "contact_id \<Rightarrow> cm_sys \<Rightarrow> cm_sys" where
  "cm_contact_up c s =
     (let l = cm_contact_link s c; lk = cm_links s l
      in if lk_deleted lk then s else if \<not> has_link l s then s
         else if lk_type lk = ONDEMAND \<or> lk_type lk = ALWAYSON
         then set_link l (lk\<lparr>lk_retry_interval := lp_min_retry_interval (lk_params lk)\<rparr>) s
         else s)"

definition reopen_link :: "link_id \<Rightarrow> cm_sys \<Rightarrow> cm_sys res" where
  "reopen_link l s =
     (let s = s\<lparr>cm_timers := (cm_timers s)(l := None)\<rparr>
      in if \<not> has_link l s then Inr s
         else
           bindR (assertR (\<not> lk_deleted (cm_links s l))) (\<lambda>_.
             Inr (if lk_state (cm_links s l) = UNAVAILABLE then post (state_change l OPEN RECONNECT s) s else s)))"

fun cm_dispatch :: "event \<Rightarrow> cm_sys \<Rightarrow> cm_sys" where
  "cm_dispatch (LinkCreated l) s = cm_link_created l s"
| "cm_dispatch (LinkAvailable l reason) s = cm_link_available l s"
| "cm_dispatch (LinkUnavailable l reason) s = cm_link_unavailable l reason s"
| "cm_dispatch (ContactUp c) s = cm_contact_up c s"
| "cm_dispatch _ s = s"

subsection \<open>The handlers of the daemon\<close>

text \<open>The first component is the flag \<open>daemon_only_\<close>: the event goes to no other handler.\<close>

definition handle_link_created :: "link_id \<Rightarrow> cm_sys \<Rightarrow> bool \<times> cm_sys" where
  "handle_link_created l s = (lk_deleted (cm_links s l), s)"

definition handle_link_available :: "link_id \<Rightarrow> cm_sys \<Rightarrow> (bool \<times> cm_sys) res" where
  "handle_link_available l s =
     bindR (assertR (link_isavailable (cm_links s l))) (\<lambda>_. Inr (lk_deleted (cm_links s l), s))"

definition handle_link_unavailable :: "link_id \<Rightarrow> cm_sys \<Rightarrow> (bool \<times> cm_sys) res" where
  "handle_link_unavailable l s =
     bindR (assertR (\<not> link_isavailable (cm_links s l))) (\<lambda>_. Inr (False, s))"

definition handle_link_state_change ::
  "cm_env \<Rightarrow> link_id \<Rightarrow> link_state \<Rightarrow> contact_reason \<Rightarrow> contact_id option \<Rightarrow> cm_sys \<Rightarrow> cm_sys res"
where
  "handle_link_state_change env l new_state reason contact s =
     (let lk = cm_links s l; set_state = (\<lambda>st s. bindR (link_set_state st (cm_links s l)) (\<lambda>lk. Inr (set_link l lk s)))
      in
      if lk_deleted lk \<and> new_state \<noteq> CLOSED then Inr s
      else if lk_contact lk \<noteq> contact then Inr s
      else
        case new_state of
          UNAVAILABLE \<Rightarrow>
            if lk_state lk \<noteq> AVAILABLE then Inr s
            else bindR (set_state UNAVAILABLE s) (\<lambda>s. Inr (post_at_head (LinkUnavailable l reason) s))
        | AVAILABLE \<Rightarrow>
            if lk_state lk = UNAVAILABLE
            then bindR (set_state AVAILABLE s) (\<lambda>s. Inr (post_at_head (LinkAvailable l reason) s))
            else Inr s
        | OPENING \<Rightarrow> bindR (if lk_state lk = UNAVAILABLE then set_state AVAILABLE s else Inr s) (open_link l)
        | OPEN \<Rightarrow> bindR (if lk_state lk = UNAVAILABLE then set_state AVAILABLE s else Inr s) (open_link l)
        | CLOSED \<Rightarrow>
            if \<not> link_isopen lk \<and> \<not> link_isopening lk then Inr s
            else
              bindR (if link_isopen lk
                     then (case lk_contact lk of
                             None \<Rightarrow> Inl ASSERT
                           | Some c \<Rightarrow> Inr (post_at_head (ContactDown c reason) s))
                     else Inr s) (\<lambda>s.
              bindR (close_link env l s) (\<lambda>s.
                if reason = IDLE then set_state AVAILABLE s
                else bindR (set_state UNAVAILABLE s) (\<lambda>s. Inr (post_at_head (LinkUnavailable l reason) s)))))"

definition handle_link_delete :: "link_id \<Rightarrow> cm_sys \<Rightarrow> cm_sys res" where
  "handle_link_delete l s = (if lk_deleted (cm_links s l) then Inr s else del_link l s)"

definition handle_contact_up :: "contact_id \<Rightarrow> cm_sys \<Rightarrow> (bool \<times> cm_sys) res" where
  "handle_contact_up c s =
     (let l = cm_contact_link s c; lk = cm_links s l
      in if lk_deleted lk then Inr (True, s)
         else if lk_contact lk \<noteq> Some c then Inr (False, s)
         else
           bindR (link_set_state OPEN lk) (\<lambda>lk.
             let st = lk_stats lk
             in Inr (False, set_link l (lk\<lparr>lk_stats := st\<lparr>st_contacts := st_contacts st + 1\<rparr>\<rparr>) s)))"

definition handle_contact_down :: "cm_env \<Rightarrow> contact_id \<Rightarrow> cm_sys \<Rightarrow> bool \<times> cm_sys" where
  "handle_contact_down env c s =
     (let l = cm_contact_link s c; lk = cm_links s l; st = lk_stats lk
      in (False, set_link l (lk\<lparr>lk_stats := st\<lparr>st_uptime := st_uptime st + ce_elapsed_ms env c div 1000\<rparr>\<rparr>) s))"

fun link_dispatch :: "cm_env \<Rightarrow> event \<Rightarrow> cm_sys \<Rightarrow> (bool \<times> cm_sys) res" where
  "link_dispatch env (LinkCreated l) s = Inr (handle_link_created l s)"
| "link_dispatch env (LinkAvailable l reason) s = handle_link_available l s"
| "link_dispatch env (LinkUnavailable l reason) s = handle_link_unavailable l s"
| "link_dispatch env (LinkStateChange l st reason c) s =
     bindR (handle_link_state_change env l st reason c s) (\<lambda>s. Inr (True, s))"
| "link_dispatch env (LinkDelete l) s = bindR (handle_link_delete l s) (\<lambda>s. Inr (True, s))"
| "link_dispatch env (ContactUp c) s = handle_contact_up c s"
| "link_dispatch env (ContactDown c reason) s = Inr (handle_contact_down env c s)"
| "link_dispatch env _ s = Inr (False, s)"

subsection \<open>The fields after an update\<close>

lemma set_link_fields [simp]:
  "cm_links (set_link l lk s) = (cm_links s)(l := lk)" "cm_set (set_link l lk s) = cm_set s"
  "cm_previous (set_link l lk s) = cm_previous s" "cm_timers (set_link l lk s) = cm_timers s"
  "cm_contact_link (set_link l lk s) = cm_contact_link s" "cm_next_contact (set_link l lk s) = cm_next_contact s"
  "cm_opportunistic_cnt (set_link l lk s) = cm_opportunistic_cnt s" "cm_events (set_link l lk s) = cm_events s"
  by (simp_all add: set_link_def)

lemma post_fields [simp]:
  "cm_links (post ev s) = cm_links s" "cm_set (post ev s) = cm_set s" "cm_previous (post ev s) = cm_previous s"
  "cm_timers (post ev s) = cm_timers s" "cm_contact_link (post ev s) = cm_contact_link s"
  "cm_next_contact (post ev s) = cm_next_contact s" "cm_opportunistic_cnt (post ev s) = cm_opportunistic_cnt s"
  "cm_events (post ev s) = cm_events s @ [ev]"
  by (simp_all add: post_def)

lemma post_at_head_fields [simp]:
  "cm_links (post_at_head ev s) = cm_links s" "cm_set (post_at_head ev s) = cm_set s"
  "cm_previous (post_at_head ev s) = cm_previous s" "cm_timers (post_at_head ev s) = cm_timers s"
  "cm_contact_link (post_at_head ev s) = cm_contact_link s" "cm_next_contact (post_at_head ev s) = cm_next_contact s"
  "cm_opportunistic_cnt (post_at_head ev s) = cm_opportunistic_cnt s" "cm_events (post_at_head ev s) = ev # cm_events s"
  by (simp_all add: post_at_head_def)

end
