(* ===== verification/LinkLifecycle.thy ===== *)
theory LinkLifecycle
  imports ContactManager
begin

text \<open>
  The runs of the contact manager and of the daemon's link handlers, as a step relation, and what
  holds in every state that they reach: the invariant of the link states, which assertions can
  fail and which cannot, and how a broken link is opened again.
\<close>

subsection \<open>Runs\<close>

fun event_link :: "event \<Rightarrow> link_id option" where
  "event_link (BundleTransmitted b l n m) = Some l"
| "event_link (BundleSendCancelled b l) = Some l"
| "event_link (BundleCustodyTimeout b l) = Some l"
| "event_link (LinkCreated l) = Some l"
| "event_link (LinkDeleted l) = Some l"
| "event_link (LinkAvailable l r) = Some l"
| "event_link (LinkUnavailable l r) = Some l"
| "event_link (LinkStateChange l st r c) = Some l"
| "event_link (LinkDelete l) = Some l"
| "event_link _ = None"

text \<open>An address without a link, to which no event, contact or set refers.\<close>

definition fresh_link :: "link_id \<Rightarrow> cm_sys \<Rightarrow> bool" where
  "fresh_link l s \<longleftrightarrow>
     l \<notin> set (cm_set s) \<and> l \<notin> set (cm_previous s) \<and> cm_timers s l = None \<and>
     (\<forall>c < cm_next_contact s. cm_contact_link s c \<noteq> l) \<and> (\<forall>ev\<in>set (cm_events s). event_link ev \<noteq> Some l)"

text \<open>
  What other parts of the program may post: requests for a new link state or for the deletion of a
  link, the news that a contact is up, and events on bundles.
\<close>

inductive posted :: "cm_sys \<Rightarrow> event \<Rightarrow> bool" for s where
  request: "posted s (state_change l st reason s)"
| delete: "posted s (LinkDelete l)"
| contact_up: "c < cm_next_contact s \<Longrightarrow> posted s (ContactUp c)"
| received: "posted s (BundleReceived b src)"
| transmitted: "posted s (BundleTransmitted b l n m)"
| delivered: "posted s (BundleDelivered b r)"
| expired: "posted s (BundleExpired b)"
| cancelled: "posted s (BundleSendCancelled b l)"
| delete_bundle: "posted s (BundleDelete b r)"
| custody: "posted s (BundleCustodyTimeout b l)"
| to_reg: "posted s (DeliverBundleToReg b r)"

text \<open>What a router does to links while it handles an event: it opens links and posts events.\<close>

inductive router_acts :: "cm_sys \<Rightarrow> cm_sys \<Rightarrow> bool" where
  idle: "router_acts s s"
| open_link: "router_acts s s1 \<Longrightarrow> open_link l s1 = Inr s2 \<Longrightarrow> router_acts s s2"
| posts: "router_acts s s1 \<Longrightarrow> posted s1 ev \<Longrightarrow> router_acts s (post ev s1)"

text \<open>
  One step of the program: the daemon handles the first event, a timer fires, an event is posted, a
  link is marked as used, a peer connects, or a link is created by a command.
\<close>

inductive cm_step :: "cm_env \<Rightarrow> cm_sys \<Rightarrow> cm_sys \<Rightarrow> bool" for env where
  daemon: "cm_events s = ev # evs \<Longrightarrow> link_dispatch env ev (s\<lparr>cm_events := evs\<rparr>) = Inr (True, s') \<Longrightarrow> cm_step env s s'"
| daemon_router: "cm_events s = ev # evs \<Longrightarrow> link_dispatch env ev (s\<lparr>cm_events := evs\<rparr>) = Inr (False, s1) \<Longrightarrow>
    router_acts s1 s2 \<Longrightarrow> cm_step env s (cm_dispatch ev s2)"
| timer: "cm_timers s l = Some t \<Longrightarrow> reopen_link l s = Inr s' \<Longrightarrow> cm_step env s s'"
| post: "posted s ev \<Longrightarrow> cm_step env s (post ev s)"
| used: "cm_step env s (set_link l (set_used_in_fwdlog (cm_links s l)) s)"
| connect: "fresh_link l s \<Longrightarrow> find_contact env l queue inflight cl nexthop peer s = Inr (Some c, s') \<Longrightarrow>
    cm_step env s (post (ContactUp c) s')"
| refused: "fresh_link l s \<Longrightarrow> find_contact env l queue inflight cl nexthop peer s = Inr (None, s') \<Longrightarrow> cm_step env s s'"
| create: "fresh_link l s \<Longrightarrow> create_link (ce_naming env) (ce_params env) queue inflight name type cl nexthop = Inr lk \<Longrightarrow>
    add_new_link env l (set_link l lk s) = Inr (ok, s') \<Longrightarrow> cm_step env s s'"

inductive cm_reachable :: "cm_env \<Rightarrow> cm_sys \<Rightarrow> bool" for env where
  init: "cm_reachable env (cm_init (ce_naming env))"
| step: "cm_reachable env s \<Longrightarrow> cm_step env s s' \<Longrightarrow> cm_reachable env s'"

inductive_cases router_actsE: "router_acts s s'"

subsection \<open>The invariant\<close>

text \<open>
  \<open>link_inv evs s l\<close>: a link that is open or opening has a contact; a contact belongs to its link,
  and a link with a contact that is not yet opening waits for the event that its contact is up,
  which is one of \<open>evs\<close>; the links of the contact manager are not deleted.
\<close>

definition link_inv :: "event set \<Rightarrow> cm_sys \<Rightarrow> link_id \<Rightarrow> bool" where
  "link_inv evs s l \<longleftrightarrow>
     lk_state (cm_links s l) \<noteq> CLOSED \<and>
     (lk_state (cm_links s l) \<in> {OPENING, OPEN} \<longrightarrow> lk_contact (cm_links s l) \<noteq> None) \<and>
     (\<forall>c. lk_contact (cm_links s l) = Some c \<longrightarrow> c < cm_next_contact s \<and> cm_contact_link s c = l \<and>
        (\<not> lk_deleted (cm_links s l) \<and> lk_state (cm_links s l) \<notin> {OPENING, OPEN} \<longrightarrow> ContactUp c \<in> evs)) \<and>
     (l \<in> set (cm_set s) \<longrightarrow> \<not> lk_deleted (cm_links s l))"

text \<open>The event that a link is unavailable is handled next, and the link is unavailable until then.\<close>

fun is_unavailable :: "event \<Rightarrow> bool" where
  "is_unavailable (LinkUnavailable l r) = True"
| "is_unavailable _ = False"

definition queue_inv :: "cm_sys \<Rightarrow> bool" where
  "queue_inv s \<longleftrightarrow>
     (case cm_events s of
        [] \<Rightarrow> True
      | ev # evs \<Rightarrow> (\<forall>e\<in>set evs. \<not> is_unavailable e) \<and>
          (\<forall>l r. ev = LinkUnavailable l r \<longrightarrow> lk_state (cm_links s l) = UNAVAILABLE))"

definition cm_inv :: "cm_sys \<Rightarrow> bool" where
  "cm_inv s \<longleftrightarrow> (\<forall>l. link_inv (set (cm_events s)) s l) \<and> queue_inv s \<and> distinct (cm_set s)"

text \<open>A step that leaves a link alone, and only adds events and contacts, keeps its invariant.\<close>

lemma link_inv_mono:
  assumes "link_inv evs s l" "cm_links s' l = cm_links s l" "evs \<subseteq> evs'" "cm_next_contact s \<le> cm_next_contact s'"
    "\<And>c. c < cm_next_contact s \<Longrightarrow> cm_contact_link s' c = cm_contact_link s c"
    "l \<in> set (cm_set s') \<Longrightarrow> l \<in> set (cm_set s) \<or> \<not> lk_deleted (cm_links s l)"
  shows "link_inv evs' s' l"
  using assms unfolding link_inv_def by (auto intro: order.strict_trans2)

text \<open>A change of fields that the invariant does not read.\<close>

lemma link_inv_same:
  assumes "link_inv evs s l" "lk_state lk = lk_state (cm_links s l)" "lk_contact lk = lk_contact (cm_links s l)"
    "lk_deleted lk = lk_deleted (cm_links s l)"
  shows "link_inv evs (set_link l lk s) l"
  using assms unfolding link_inv_def by simp

lemma link_inv_set_other: "k \<noteq> l \<Longrightarrow> link_inv evs (set_link l lk s) k = link_inv evs s k"
  unfolding link_inv_def by simp

lemma link_inv_set_link:
  assumes "\<forall>k. link_inv evs s k" "link_inv evs (set_link l lk s) l"
  shows "\<forall>k. link_inv evs (set_link l lk s) k"
  using assms link_inv_set_other by metis

abbreviation all_inv :: "event set \<Rightarrow> cm_sys \<Rightarrow> bool" where
  "all_inv evs s \<equiv> \<forall>l. link_inv evs s l"

definition calm :: "cm_sys \<Rightarrow> bool" where
  "calm s \<longleftrightarrow> (\<forall>e\<in>set (cm_events s). \<not> is_unavailable e)"

text \<open>\<open>grows s s'\<close>: a part of the program has acted between two handlers.\<close>

definition grows :: "cm_sys \<Rightarrow> cm_sys \<Rightarrow> bool" where
  "grows s s' \<longleftrightarrow>
     (\<exists>es. cm_events s' = cm_events s @ es \<and> (\<forall>e\<in>set es. \<not> is_unavailable e)) \<and>
     (\<forall>l. lk_state (cm_links s l) = UNAVAILABLE \<longrightarrow> lk_state (cm_links s' l) = UNAVAILABLE)"

lemma grows_refl [simp]: "grows s s"
  by (simp add: grows_def)

lemma grows_trans: "grows s s1 \<Longrightarrow> grows s1 s2 \<Longrightarrow> grows s s2"
  unfolding grows_def by (metis append.assoc Un_iff set_append)

lemma grows_calm: "grows s s' \<Longrightarrow> calm s \<Longrightarrow> calm s'"
  unfolding grows_def calm_def by (metis Un_iff set_append)

lemma grows_queue_inv: "grows s s' \<Longrightarrow> queue_inv s \<Longrightarrow> queue_inv s'"
proof -
  assume g: "grows s s'" and q: "queue_inv s"
  from g obtain es where es: "cm_events s' = cm_events s @ es" "\<forall>e\<in>set es. \<not> is_unavailable e"
    "\<forall>l. lk_state (cm_links s l) = UNAVAILABLE \<longrightarrow> lk_state (cm_links s' l) = UNAVAILABLE"
    by (auto simp: grows_def)
  show ?thesis
  proof (cases "cm_events s")
    case Nil
    then show ?thesis
      using es by (cases es) (auto simp: queue_inv_def)
  next
    case (Cons ev evs)
    then show ?thesis
      using es q by (auto simp: queue_inv_def)
  qed
qed

lemma calm_queue_inv: "calm s \<Longrightarrow> queue_inv s"
  by (auto simp: calm_def queue_inv_def split: list.splits)

lemma all_inv_mono: "all_inv evs s \<Longrightarrow> evs \<subseteq> evs' \<Longrightarrow> all_inv evs' s"
  by (blast intro: link_inv_mono)

lemma all_inv_post: "all_inv (set (cm_events s)) s \<Longrightarrow> all_inv (set (cm_events (post ev s))) (post ev s)"
  by (rule allI, rule link_inv_mono [of "set (cm_events s)" s]) auto

lemma all_inv_post_at_head:
  "all_inv (set (cm_events s)) s \<Longrightarrow> all_inv (set (cm_events (post_at_head ev s))) (post_at_head ev s)"
  by (rule allI, rule link_inv_mono [of "set (cm_events s)" s]) auto

lemma grows_post: "\<not> is_unavailable ev \<Longrightarrow> grows s (post ev s)"
  by (auto simp: grows_def)

lemma posted_available: "posted s ev \<Longrightarrow> \<not> is_unavailable ev"
  by (auto simp: state_change_def elim: posted.cases)

text \<open>Opening a link.\<close>

lemma open_link_ok:
  assumes iv: "all_inv evs s"
  shows "\<exists>s'. open_link l s = Inr s' \<and> all_inv evs s' \<and> grows s s' \<and> cm_set s' = cm_set s"
proof (cases "lk_deleted (cm_links s l) \<or> link_isopen (cm_links s l) \<or> lk_contact (cm_links s l) \<noteq> None \<or>
    \<not> link_isavailable (cm_links s l)")
  case True
  then have "open_link l s = Inr s"
    by (auto simp: open_link_def Let_def)
  then show ?thesis
    using iv by simp
next
  case False
  let ?lk = "cm_links s l" and ?c = "cm_next_contact s"
  have st: "lk_state ?lk = AVAILABLE"
    using iv [rule_format, of l] False by (cases "lk_state ?lk") (auto simp: link_inv_def link_state_defs)
  define lk where "lk = ?lk\<lparr>lk_state := OPENING, lk_contact := Some ?c,
    lk_stats := (lk_stats ?lk)\<lparr>st_contact_attempts := st_contact_attempts (lk_stats ?lk) + 1\<rparr>\<rparr>"
  let ?s = "(set_link l lk s)\<lparr>cm_contact_link := (cm_contact_link s)(?c := l), cm_next_contact := ?c + 1\<rparr>"
  have "link_inv evs ?s k" for k
  proof (cases "k = l")
    case True
    then show ?thesis
      using iv [rule_format, of l] by (simp add: link_inv_def lk_def)
  next
    case False
    show ?thesis
      by (rule link_inv_mono [OF iv [rule_format, of k]]) (use False in simp_all)
  qed
  moreover have "open_link l s = Inr ?s"
    using False st by (auto simp: open_link_def link_open_def link_set_state_def Let_def lk_def)
  moreover have "grows s ?s"
    using st by (simp add: grows_def)
  ultimately show ?thesis
    by (intro exI [of _ ?s]) simp
qed

lemma router_acts_ok:
  "router_acts s s' \<Longrightarrow> all_inv (set (cm_events s)) s \<Longrightarrow>
    all_inv (set (cm_events s')) s' \<and> grows s s' \<and> cm_set s' = cm_set s"
proof (induction rule: router_acts.induct)
  case (idle s)
  then show ?case by simp
next
  case (open_link s s1 l s2)
  then have iv: "all_inv (set (cm_events s1)) s1" "grows s s1" "cm_set s1 = cm_set s"
    by simp_all
  obtain s' where s': "open_link l s1 = Inr s'" "all_inv (set (cm_events s1)) s'" "grows s1 s'" "cm_set s' = cm_set s1"
    using open_link_ok [OF iv(1)] by blast
  have eq: "s2 = s'"
    using open_link.hyps(2) s'(1) by simp
  have "set (cm_events s1) \<subseteq> set (cm_events s')"
    using s'(3) by (auto simp: grows_def)
  then have "all_inv (set (cm_events s')) s'"
    by (rule all_inv_mono [OF s'(2)])
  then show ?case
    unfolding eq using grows_trans [OF iv(2) s'(3)] s'(4) iv(3) by simp
next
  case (posts s s1 ev)
  then have iv: "all_inv (set (cm_events s1)) s1" "grows s s1" "cm_set s1 = cm_set s"
    by simp_all
  have "grows s1 (post ev s1)"
    by (rule grows_post [OF posted_available [OF posts.hyps(2)]])
  then show ?case
    using all_inv_post [OF iv(1)] grows_trans [OF iv(2)] iv(3) by simp
qed

text \<open>Changing the state of a link that keeps its contact.\<close>

lemma all_inv_set_state:
  assumes iv: "all_inv (set (cm_events s)) s" and st: "st \<in> {UNAVAILABLE, AVAILABLE}"
    and old: "lk_state (cm_links s l) \<notin> {OPENING, OPEN}"
  shows "all_inv (set (cm_events s)) (set_link l ((cm_links s l)\<lparr>lk_state := st\<rparr>) s)"
  by (rule link_inv_set_link [OF iv]) (use iv [rule_format, of l] st old in \<open>auto simp: link_inv_def\<close>)

text \<open>The end of a contact.\<close>

lemma all_inv_closed:
  assumes iv: "all_inv evs s" and st: "st \<in> {UNAVAILABLE, AVAILABLE}"
  shows "all_inv evs (set_link l ((cm_links s l)\<lparr>lk_contact := None, lk_state := st\<rparr>) s)"
  by (rule link_inv_set_link [OF iv]) (use iv [rule_format, of l] st in \<open>auto simp: link_inv_def\<close>)

text \<open>\<open>settled s'\<close>: what holds after a handler of the daemon.\<close>

definition settled :: "cm_sys \<Rightarrow> bool" where
  "settled s \<longleftrightarrow> all_inv (set (cm_events s)) s \<and> queue_inv s"

lemma settledI: "all_inv (set (cm_events s)) s \<Longrightarrow> calm s \<Longrightarrow> settled s"
  by (simp add: settled_def calm_queue_inv)

lemma settled_post_at_head:
  assumes "all_inv (set (cm_events s)) s" "calm s" "\<And>l r. ev = LinkUnavailable l r \<Longrightarrow> lk_state (cm_links s l) = UNAVAILABLE"
  shows "settled (post_at_head ev s)"
  using assms(2,3) all_inv_post_at_head [OF assms(1), of ev] by (simp add: settled_def queue_inv_def calm_def)

lemma calm_post_at_head: "calm s \<Longrightarrow> \<not> is_unavailable ev \<Longrightarrow> calm (post_at_head ev s)"
  by (simp add: calm_def)

lemma calm_set_link [simp]: "calm (set_link l lk s) = calm s"
  by (simp add: calm_def)

text \<open>A request to open a link.\<close>

lemma open_request_ok:
  assumes iv: "all_inv (set (cm_events s)) s" and calm: "calm s"
  shows "\<exists>s'. bindR (if lk_state (cm_links s l) = UNAVAILABLE
      then bindR (link_set_state AVAILABLE (cm_links s l)) (\<lambda>lk. Inr (set_link l lk s)) else Inr s) (open_link l) = Inr s' \<and>
    settled s' \<and> cm_set s' = cm_set s"
proof -
  define s1 where "s1 = (if lk_state (cm_links s l) = UNAVAILABLE then set_link l ((cm_links s l)\<lparr>lk_state := AVAILABLE\<rparr>) s else s)"
  have iv1: "all_inv (set (cm_events s1)) s1" "calm s1" "cm_set s1 = cm_set s"
    using iv calm all_inv_set_state [OF iv, of AVAILABLE l] by (simp_all add: s1_def)
  obtain s' where s': "open_link l s1 = Inr s'" "all_inv (set (cm_events s1)) s'" "grows s1 s'" "cm_set s' = cm_set s1"
    using open_link_ok [OF iv1(1)] by blast
  have "set (cm_events s1) \<subseteq> set (cm_events s')"
    using s'(3) by (auto simp: grows_def)
  then have "settled s'"
    by (intro settledI all_inv_mono [OF s'(2)] grows_calm [OF s'(3) iv1(2)])
  then show ?thesis
    using s'(1,4) iv1(3) by (intro exI [of _ s']) (simp add: s1_def link_set_state_def split: if_splits)
qed

text \<open>A request to close a link.\<close>

lemma close_link_eq:
  assumes "lk_contact (cm_links s l) = Some c" "ce_clears env c" "link_isopen (cm_links s l) \<or> link_isopening (cm_links s l)"
  shows "close_link env l s = Inr (set_link l ((cm_links s l)\<lparr>lk_contact := None\<rparr>) s)"
  using assms by (auto simp: close_link_def link_close_def Let_def)

definition closed_link :: "contact_reason \<Rightarrow> link \<Rightarrow> link" where
  "closed_link reason lk = lk\<lparr>lk_contact := None, lk_state := (if reason = IDLE then AVAILABLE else UNAVAILABLE)\<rparr>"

definition close_events :: "link_id \<Rightarrow> contact_id \<Rightarrow> contact_reason \<Rightarrow> bool \<Rightarrow> event list" where
  "close_events l c reason isopen =
     (if reason = IDLE then [] else [LinkUnavailable l reason]) @ (if isopen then [ContactDown c reason] else [])"

lemma close_request_eq:
  assumes c: "lk_contact (cm_links s l) = Some c" "ce_clears env c"
    and st: "link_isopen (cm_links s l) \<or> link_isopening (cm_links s l)"
  shows "handle_link_state_change env l CLOSED reason (Some c) s =
    Inr ((set_link l (closed_link reason (cm_links s l)) s)
      \<lparr>cm_events := close_events l c reason (link_isopen (cm_links s l)) @ cm_events s\<rparr>)"
proof -
  define s1 where "s1 = (if link_isopen (cm_links s l) then post_at_head (ContactDown c reason) s else s)"
  have links: "cm_links s1 = cm_links s"
    by (simp add: s1_def)
  have close: "close_link env l s1 = Inr (set_link l ((cm_links s l)\<lparr>lk_contact := None\<rparr>) s1)"
    using close_link_eq [of s1 l c env] c st by (simp add: links)
  have "handle_link_state_change env l CLOSED reason (Some c) s =
      bindR (close_link env l s1) (\<lambda>s.
        if reason = IDLE then bindR (link_set_state AVAILABLE (cm_links s l)) (\<lambda>lk. Inr (set_link l lk s))
        else bindR (bindR (link_set_state UNAVAILABLE (cm_links s l)) (\<lambda>lk. Inr (set_link l lk s)))
          (\<lambda>s. Inr (post_at_head (LinkUnavailable l reason) s)))"
    using c st by (auto simp: handle_link_state_change_def s1_def Let_def)
  then show ?thesis
    unfolding close
    by (simp add: link_set_state_def closed_link_def close_events_def s1_def post_at_head_def set_link_def)
qed

lemma close_request_ok:
  assumes iv: "all_inv (set (cm_events s)) s" and calm: "calm s" and clears: "\<forall>c. ce_clears env c"
  shows "\<exists>s'. handle_link_state_change env l CLOSED reason contact s = Inr s' \<and> settled s' \<and> cm_set s' = cm_set s"
proof (cases "lk_contact (cm_links s l) = contact \<and> (link_isopen (cm_links s l) \<or> link_isopening (cm_links s l))")
  case False
  then have "handle_link_state_change env l CLOSED reason contact s = Inr s"
    by (auto simp: handle_link_state_change_def Let_def)
  then show ?thesis
    using settledI [OF iv calm] by simp
next
  case True
  then have "lk_contact (cm_links s l) \<noteq> None"
    using iv [rule_format, of l] by (auto simp: link_inv_def link_state_defs)
  then obtain c where c: "lk_contact (cm_links s l) = Some c"
    by blast
  let ?lk = "closed_link reason (cm_links s l)" and ?es = "close_events l c reason (link_isopen (cm_links s l))"
  let ?s = "(set_link l ?lk s)\<lparr>cm_events := ?es @ cm_events s\<rparr>"
  have eq: "handle_link_state_change env l CLOSED reason contact s = Inr ?s"
    using close_request_eq [OF c] clears True c by auto
  have "all_inv (set (cm_events s)) (set_link l ?lk s)"
    unfolding closed_link_def using all_inv_closed [OF iv] by (cases "reason = IDLE") simp_all
  then have "all_inv (set (cm_events ?s)) ?s"
    by (auto intro: link_inv_mono)
  moreover have "queue_inv ?s"
    using calm by (auto simp: queue_inv_def calm_def close_events_def closed_link_def split: list.splits)
  ultimately show ?thesis
    using eq by (simp add: settled_def)
qed

lemma state_change_ok:
  assumes iv: "all_inv (set (cm_events s)) s" and calm: "calm s" and clears: "\<forall>c. ce_clears env c"
  shows "\<exists>s'. handle_link_state_change env l st reason contact s = Inr s' \<and> settled s' \<and> cm_set s' = cm_set s"
proof (cases "lk_deleted (cm_links s l) \<and> st \<noteq> CLOSED \<or> lk_contact (cm_links s l) \<noteq> contact")
  case True
  then have "handle_link_state_change env l st reason contact s = Inr s"
    by (auto simp: handle_link_state_change_def Let_def)
  then show ?thesis
    using settledI [OF iv calm] by simp
next
  case False
  let ?lk = "cm_links s l"
  show ?thesis
  proof (cases st)
    case UNAVAILABLE
    let ?s = "set_link l (?lk\<lparr>lk_state := UNAVAILABLE\<rparr>) s"
    have "handle_link_state_change env l st reason contact s =
        (if lk_state ?lk = AVAILABLE then Inr (post_at_head (LinkUnavailable l reason) ?s) else Inr s)"
      using False UNAVAILABLE by (auto simp: handle_link_state_change_def link_set_state_def Let_def)
    moreover have "lk_state ?lk = AVAILABLE \<Longrightarrow> settled (post_at_head (LinkUnavailable l reason) ?s)"
      by (rule settled_post_at_head) (use all_inv_set_state [OF iv, of UNAVAILABLE l] calm in auto)
    ultimately show ?thesis
      using settledI [OF iv calm] by simp
  next
    case AVAILABLE
    let ?s = "set_link l (?lk\<lparr>lk_state := AVAILABLE\<rparr>) s"
    have "handle_link_state_change env l st reason contact s =
        (if lk_state ?lk = UNAVAILABLE then Inr (post_at_head (LinkAvailable l reason) ?s) else Inr s)"
      using False AVAILABLE by (auto simp: handle_link_state_change_def link_set_state_def Let_def)
    moreover have "lk_state ?lk = UNAVAILABLE \<Longrightarrow> settled (post_at_head (LinkAvailable l reason) ?s)"
      by (rule settled_post_at_head) (use all_inv_set_state [OF iv, of AVAILABLE l] calm in auto)
    ultimately show ?thesis
      using settledI [OF iv calm] by simp
  next
    case OPENING
    then show ?thesis
      using open_request_ok [OF iv calm, of l] False by (auto simp: handle_link_state_change_def Let_def)
  next
    case OPEN
    then show ?thesis
      using open_request_ok [OF iv calm, of l] False by (auto simp: handle_link_state_change_def Let_def)
  next
    case CLOSED
    then show ?thesis
      using close_request_ok [OF iv calm clears] by simp
  qed
qed

text \<open>Deleting a link.\<close>

definition deletion_events :: "link_id \<Rightarrow> link \<Rightarrow> event list" where
  "deletion_events l lk =
     (if link_isopen lk \<or> link_isopening lk then [LinkStateChange l CLOSED NO_INFO (lk_contact lk)] else []) @ [LinkDeleted l]"

lemma del_link_eq:
  assumes "has_link l s" "\<not> lk_deleted (cm_links s l)"
  obtains s' where "del_link l s = Inr s'" "cm_links s' = (cm_links s)(l := (cm_links s l)\<lparr>lk_deleted := True\<rparr>)"
    "cm_set s' = remove1 l (cm_set s)" "cm_events s' = cm_events s @ deletion_events l (cm_links s l)"
    "cm_next_contact s' = cm_next_contact s" "cm_contact_link s' = cm_contact_link s"
    "cm_previous s' = (if lk_used_in_fwdlog (cm_links s l) \<and> \<not> lk_reincarnated (cm_links s l)
       then insort_insert l (cm_previous s) else cm_previous s)"
proof -
  obtain s' where s': "del_link l s = Inr s'"
    using assms by (simp add: del_link_def link_delete_def Let_def)
  show ?thesis
    by (rule that [OF s'])
      (use s' assms in \<open>auto simp: del_link_def link_delete_def state_change_def deletion_events_def link_state_defs Let_def\<close>)
qed

lemma del_link_ok:
  assumes iv: "all_inv (set (cm_events s)) s" and calm: "calm s" and d: "distinct (cm_set s)"
  shows "\<exists>s'. del_link l s = Inr s' \<and> settled s' \<and> distinct (cm_set s')"
proof (cases "has_link l s")
  case False
  then show ?thesis
    using settledI [OF iv calm] d by (simp add: del_link_def)
next
  case True
  let ?lk = "(cm_links s l)\<lparr>lk_deleted := True\<rparr>"
  have nd: "\<not> lk_deleted (cm_links s l)"
    using iv [rule_format, of l] True by (simp add: link_inv_def has_link_def)
  obtain s' where s': "del_link l s = Inr s'" "cm_links s' = (cm_links s)(l := ?lk)" "cm_set s' = remove1 l (cm_set s)"
    "cm_events s' = cm_events s @ deletion_events l (cm_links s l)" "cm_next_contact s' = cm_next_contact s"
    "cm_contact_link s' = cm_contact_link s"
    by (rule del_link_eq [OF True nd])
  have "link_inv (set (cm_events s')) s' k" for k
  proof (cases "k = l")
    case True
    then show ?thesis
      using iv [rule_format, of l] d by (simp add: link_inv_def s')
  next
    case False
    then show ?thesis
      by (intro link_inv_mono [OF iv [rule_format, of k]]) (use False in \<open>simp_all add: s'\<close>)
  qed
  moreover have "calm s'"
    using calm s'(4) by (auto simp: calm_def deletion_events_def)
  ultimately show ?thesis
    using settledI s'(1,3) d by auto
qed

text \<open>A contact is up.\<close>

lemma contact_up_ok:
  assumes iv: "all_inv (insert (ContactUp c) (set (cm_events s))) s" and calm: "calm s"
  shows "\<exists>d s'. handle_contact_up c s = Inr (d, s') \<and> all_inv (set (cm_events s')) s' \<and> calm s' \<and> cm_set s' = cm_set s"
proof -
  let ?E = "set (cm_events s)"
  obtain l where l: "cm_contact_link s c = l"
    by blast
  let ?lk = "cm_links s l"
  have others: "link_inv ?E s k" if "k \<noteq> l \<or> lk_deleted ?lk \<or> lk_contact ?lk \<noteq> Some c" for k
    using iv [rule_format, of k] that l by (auto simp: link_inv_def)
  show ?thesis
  proof (cases "lk_deleted ?lk \<or> lk_contact ?lk \<noteq> Some c")
    case True
    then have "all_inv ?E s"
      using others by blast
    moreover have "\<exists>d. handle_contact_up c s = Inr (d, s)"
      using True by (auto simp: handle_contact_up_def Let_def l)
    ultimately show ?thesis
      using calm by blast
  next
    case False
    define lk where "lk = ?lk\<lparr>lk_state := OPEN, lk_stats := (lk_stats ?lk)\<lparr>st_contacts := st_contacts (lk_stats ?lk) + 1\<rparr>\<rparr>"
    have "link_inv ?E (set_link l lk s) l"
      using iv [rule_format, of l] False by (simp add: link_inv_def lk_def)
    then have "all_inv ?E (set_link l lk s)"
      using others link_inv_set_other by metis
    moreover have "handle_contact_up c s = Inr (False, set_link l lk s)"
      using False by (simp add: handle_contact_up_def link_set_state_def Let_def lk_def l)
    ultimately show ?thesis
      using calm by (intro exI [of _ False] exI [of _ "set_link l lk s"]) simp
  qed
qed

text \<open>The other handlers of the daemon leave the state of links alone.\<close>

lemma contact_down_ok:
  assumes iv: "all_inv (set (cm_events s)) s" and calm: "calm s"
  shows "\<exists>s'. handle_contact_down env c s = (False, s') \<and> all_inv (set (cm_events s')) s' \<and> calm s' \<and> cm_set s' = cm_set s"
proof -
  let ?l = "cm_contact_link s c"
  let ?lk = "cm_links s ?l"
  let ?s = "set_link ?l (?lk\<lparr>lk_stats := (lk_stats ?lk)\<lparr>st_uptime := st_uptime (lk_stats ?lk) + ce_elapsed_ms env c div 1000\<rparr>\<rparr>) s"
  have "all_inv (set (cm_events s)) ?s"
    by (rule link_inv_set_link [OF iv link_inv_same [OF iv [rule_format]]]) simp_all
  then show ?thesis
    using calm by (simp add: handle_contact_down_def Let_def)
qed

lemma all_inv_drop:
  assumes "all_inv (insert ev evs) s" "\<And>c. ev \<noteq> ContactUp c"
  shows "all_inv evs s"
  using assms unfolding link_inv_def by blast

text \<open>
  The daemon handles every event but one without a failed assertion, and the invariant holds
  afterwards.
\<close>

definition dispatched :: "bool \<Rightarrow> cm_sys \<Rightarrow> bool" where
  "dispatched daemon_only s \<longleftrightarrow>
     all_inv (set (cm_events s)) s \<and> distinct (cm_set s) \<and> (if daemon_only then queue_inv s else calm s)"

lemma dispatchedI:
  "all_inv (set (cm_events s)) s \<Longrightarrow> calm s \<Longrightarrow> distinct (cm_set s) \<Longrightarrow> dispatched d s"
  by (simp add: dispatched_def calm_queue_inv)

lemma dispatched_settled: "settled s \<Longrightarrow> distinct (cm_set s) \<Longrightarrow> dispatched True s"
  by (simp add: dispatched_def settled_def)

lemma dispatch_ok:
  assumes iv: "cm_inv s" and ev: "cm_events s = ev # evs" and clears: "\<forall>c. ce_clears env c"
    and race: "\<forall>l r. ev = LinkAvailable l r \<longrightarrow> lk_state (cm_links s l) \<noteq> UNAVAILABLE"
  shows "\<exists>d s'. link_dispatch env ev (s\<lparr>cm_events := evs\<rparr>) = Inr (d, s') \<and> dispatched d s'"
proof -
  let ?s = "s\<lparr>cm_events := evs\<rparr>"
  have all: "all_inv (insert ev (set (cm_events ?s))) ?s" and d: "distinct (cm_set ?s)" and calm: "calm ?s"
    using iv ev by (auto simp: cm_inv_def link_inv_def queue_inv_def calm_def)
  have head: "ev = LinkUnavailable l r \<Longrightarrow> lk_state (cm_links s l) = UNAVAILABLE" for l r
    using iv ev by (simp add: cm_inv_def queue_inv_def)
  show ?thesis
  proof (cases "\<exists>c. ev = ContactUp c")
    case True
    then obtain c where ev': "ev = ContactUp c" by blast
    obtain d' s' where s': "handle_contact_up c ?s = Inr (d', s')" "all_inv (set (cm_events s')) s'" "calm s'"
      "cm_set s' = cm_set ?s"
      using contact_up_ok [OF all [unfolded ev'] calm] by blast
    have "dispatched d' s'"
      by (rule dispatchedI [OF s'(2,3)]) (use s'(4) d in simp)
    then show ?thesis
      using s'(1) ev' by simp
  next
    case False
    then have iv': "all_inv (set (cm_events ?s)) ?s"
      using all_inv_drop [OF all] by blast
    note same = dispatchedI [OF iv' calm d]
    have idle: ?thesis if "link_dispatch env ev ?s = Inr (False, ?s)"
      using that same by blast
    show ?thesis
    proof (cases ev)
      case (LinkStateChange l st reason c)
      then show ?thesis
        using state_change_ok [OF iv' calm clears, of l st reason c] dispatched_settled d by fastforce
    next
      case (LinkDelete l)
      obtain s' where s': "handle_link_delete l ?s = Inr s'" "dispatched True s'"
        using del_link_ok [OF iv' calm d, of l] same dispatched_settled
        by (cases "lk_deleted (cm_links s l)") (auto simp: handle_link_delete_def)
      then show ?thesis
        using LinkDelete by (intro exI [of _ True] exI [of _ s']) simp
    next
      case (ContactDown c reason)
      then show ?thesis
        using contact_down_ok [OF iv' calm, of env c] dispatchedI d by auto
    next
      case (LinkAvailable l r)
      then show ?thesis
        using race same by (simp add: handle_link_available_def link_state_defs)
    next
      case (LinkUnavailable l r)
      then show ?thesis
        using head [of l r] same by (intro exI [of _ False] exI [of _ ?s]) (simp add: handle_link_unavailable_def link_state_defs)
    next
      case (LinkCreated l)
      then show ?thesis
        using same by (simp add: handle_link_created_def)
    qed (use idle False in simp_all)
  qed
qed

text \<open>The handlers of the contact manager.\<close>

lemma cm_inv_same:
  assumes "all_inv (set (cm_events s)) s" "calm s" "distinct (cm_set s)"
    "cm_links s' = cm_links s" "cm_set s' = cm_set s" "cm_next_contact s' = cm_next_contact s"
    "cm_contact_link s' = cm_contact_link s" "cm_events s' = cm_events s"
  shows "cm_inv s'"
  using assms calm_queue_inv [of s'] by (auto simp: cm_inv_def link_inv_def calm_def)

lemma cm_inv_post: "cm_inv s \<Longrightarrow> \<not> is_unavailable ev \<Longrightarrow> cm_inv (post ev s)"
  using all_inv_post grows_queue_inv [OF grows_post] by (simp add: cm_inv_def)

lemma cm_inv_calm: "all_inv (set (cm_events s)) s \<Longrightarrow> calm s \<Longrightarrow> distinct (cm_set s) \<Longrightarrow> cm_inv s"
  by (simp add: cm_inv_def calm_queue_inv)

lemma cm_inv_set_same:
  assumes "cm_inv s" "lk_state lk = lk_state (cm_links s l)" "lk_contact lk = lk_contact (cm_links s l)"
    "lk_deleted lk = lk_deleted (cm_links s l)"
  shows "cm_inv (set_link l lk s)"
proof -
  have iv: "all_inv (set (cm_events s)) s"
    using assms(1) by (simp add: cm_inv_def)
  have "all_inv (set (cm_events s)) (set_link l lk s)"
    by (rule link_inv_set_link [OF iv link_inv_same [OF iv [rule_format] assms(2-4)]])
  then show ?thesis
    using assms(1,2) by (auto simp: cm_inv_def queue_inv_def split: list.splits)
qed

lemma cm_inv_timers [simp]: "cm_inv (s\<lparr>cm_timers := t\<rparr>) = cm_inv s"
  by (simp add: cm_inv_def link_inv_def queue_inv_def cong: list.case_cong)

lemma cm_dispatch_ok:
  assumes "all_inv (set (cm_events s)) s" "calm s" "distinct (cm_set s)"
  shows "cm_inv (cm_dispatch ev s)"
proof -
  note iv = cm_inv_calm [OF assms]
  show ?thesis
  proof (cases ev)
    case (LinkCreated l)
    have "cm_inv (post_at_head (state_change l OPEN USER s) s)"
      using all_inv_post_at_head [OF assms(1)] assms(2,3)
      by (simp add: cm_inv_def queue_inv_def calm_def state_change_def)
    then show ?thesis
      using LinkCreated iv cm_inv_post [OF iv]
      by (auto simp: cm_link_created_def set_initial_state_def split: link_type.splits)
  next
    case (LinkAvailable l r)
    then show ?thesis
      using iv by (simp add: cm_link_available_def)
  next
    case (LinkUnavailable l r)
    then show ?thesis
      using iv cm_inv_set_same [OF iv] by (auto simp: cm_link_unavailable_def Let_def split: option.splits)
  next
    case (ContactUp c)
    then show ?thesis
      using iv cm_inv_set_same [OF iv] by (simp add: cm_contact_up_def Let_def)
  qed (use iv in simp_all)
qed

lemma reopen_link_ok:
  assumes iv: "cm_inv s"
  shows "\<exists>s'. reopen_link l s = Inr s' \<and> cm_inv s'"
proof -
  let ?s = "s\<lparr>cm_timers := (cm_timers s)(l := None)\<rparr>"
  have iv': "cm_inv ?s"
    using iv by simp
  have "has_link l s \<Longrightarrow> \<not> lk_deleted (cm_links s l)"
    using iv by (simp add: cm_inv_def link_inv_def has_link_def)
  then show ?thesis
    using iv' cm_inv_post [OF iv'] by (simp add: reopen_link_def has_link_def state_change_def Let_def)
qed

text \<open>New links.\<close>

definition idle_link :: "link \<Rightarrow> bool" where
  "idle_link lk \<longleftrightarrow> lk_contact lk = None \<and> lk_state lk \<in> {UNAVAILABLE, AVAILABLE} \<and> \<not> lk_deleted lk"

lemma create_link_idle: "create_link nm ps q i name type cl nh = Inr lk \<Longrightarrow> idle_link lk"
  by (auto simp: create_link_def link_new_def link_set_state_def idle_link_def Let_def split: link_type.splits)

lemma consistent_fields:
  "consistent_with_previous_usage nm lk ps = (ok, re, lk') \<Longrightarrow>
    lk_contact lk' = lk_contact lk \<and> lk_state lk' = lk_state lk \<and> lk_deleted lk' = lk_deleted lk"
  by (induction nm lk ps rule: consistent_with_previous_usage.induct) (auto simp: Let_def split: if_splits)

lemma cm_inv_fresh:
  assumes iv: "cm_inv s" and fresh: "\<And>r. LinkUnavailable l r \<notin> set (cm_events s)"
    and lk: "lk_contact lk = None" "lk_state lk \<in> {UNAVAILABLE, AVAILABLE}" "l \<in> set (cm_set s) \<Longrightarrow> \<not> lk_deleted lk"
  shows "cm_inv (set_link l lk s)"
proof -
  have "all_inv (set (cm_events s)) (set_link l lk s)"
    by (rule link_inv_set_link) (use iv lk in \<open>auto simp: cm_inv_def link_inv_def\<close>)
  moreover have "queue_inv (set_link l lk s)"
    using iv fresh by (auto simp: cm_inv_def queue_inv_def split: list.splits)
  ultimately show ?thesis
    using iv by (simp add: cm_inv_def)
qed

lemma cm_inv_insert:
  assumes iv: "cm_inv s" and nd: "\<not> lk_deleted (cm_links s l)"
  shows "cm_inv (s\<lparr>cm_set := insort_insert l (cm_set s)\<rparr>)"
proof -
  have "all_inv (set (cm_events s)) (s\<lparr>cm_set := insort_insert l (cm_set s)\<rparr>)"
    using iv nd by (auto simp: cm_inv_def link_inv_def set_insort_insert)
  moreover have "distinct (insort_insert l (cm_set s))"
    using iv by (simp add: cm_inv_def distinct_insort_insert)
  ultimately show ?thesis
    using iv by (auto simp: cm_inv_def queue_inv_def split: list.splits)
qed

lemma add_new_link_ok:
  assumes iv: "cm_inv s" and lk: "idle_link (cm_links s l)" and fresh: "\<And>r. LinkUnavailable l r \<notin> set (cm_events s)"
  shows "\<exists>ok s'. add_new_link env l s = Inr (ok, s') \<and> cm_inv s' \<and> idle_link (cm_links s' l) \<and>
    (\<not> ok \<longrightarrow> s' = s) \<and> (\<forall>r. LinkUnavailable l r \<notin> set (cm_events s')) \<and> set (cm_set s') \<subseteq> insert l (set (cm_set s))"
proof (cases "has_link_name (lk_name (cm_links s l)) s")
  case True
  then show ?thesis
    using assms by (intro exI [of _ False] exI [of _ s]) (auto simp: add_new_link_def Let_def idle_link_def)
next
  case False
  obtain ok re lk1 where c: "consistent_with_previous_usage (ce_naming env) (cm_links s l) (map (cm_links s) (cm_previous s)) = (ok, re, lk1)"
    by (metis prod_cases3)
  define lk2 where "lk2 = (if re then lk1\<lparr>lk_reincarnated := True\<rparr> else lk1)"
  have lk2: "idle_link lk2"
    using lk consistent_fields [OF c] by (simp add: lk2_def idle_link_def)
  let ?s1 = "(set_link l lk2 s)\<lparr>cm_set := insort_insert l (cm_set s)\<rparr>"
  have s1: "cm_inv ?s1"
    using cm_inv_insert [OF cm_inv_fresh [OF iv fresh, of lk2], of l] lk2 by (simp add: idle_link_def)
  define s2 where "s2 = (if lk_create_pending lk2 then ?s1 else post (LinkCreated l) ?s1)"
  have s2: "cm_inv s2" "idle_link (cm_links s2 l)" "\<forall>r. LinkUnavailable l r \<notin> set (cm_events s2)"
    "set (cm_set s2) \<subseteq> insert l (set (cm_set s))"
    using s1 cm_inv_post [OF s1] lk2 fresh by (auto simp: s2_def set_insort_insert)
  have "add_new_link env l s = Inr (if ok then (True, s2) else (False, s))"
    using False lk c by (simp add: add_new_link_def Let_def idle_link_def lk2_def s2_def)
  then show ?thesis
    using s2 iv lk fresh by (cases ok) auto
qed

text \<open>Attaching a contact to an idle link, and the event that it is up.\<close>

lemma attach_ok:
  assumes iv: "cm_inv s" and lk: "idle_link (cm_links s l)"
  shows "\<exists>c s'. attach_contact l s = Inr (c, s') \<and> cm_inv (post (ContactUp c) s')"
proof -
  let ?lk = "cm_links s l" and ?c = "cm_next_contact s"
  define s' where "s' = (set_link l (?lk\<lparr>lk_contact := Some ?c\<rparr>) s)\<lparr>cm_contact_link := (cm_contact_link s)(?c := l), cm_next_contact := ?c + 1\<rparr>"
  have "attach_contact l s = Inr (?c, s')"
    using lk by (auto simp: attach_contact_def idle_link_def link_state_defs Let_def s'_def)
  moreover have "link_inv (set (cm_events (post (ContactUp ?c) s'))) (post (ContactUp ?c) s') k" for k
  proof (cases "k = l")
    case True
    then show ?thesis
      using lk by (auto simp: link_inv_def s'_def idle_link_def)
  next
    case False
    have "link_inv (set (cm_events s)) s k"
      using iv by (simp add: cm_inv_def)
    then show ?thesis
      by (rule link_inv_mono) (use False in \<open>auto simp: s'_def\<close>)
  qed
  moreover have "queue_inv (post (ContactUp ?c) s')"
    by (rule grows_queue_inv [of s]) (use iv in \<open>auto simp: cm_inv_def grows_def s'_def\<close>)
  ultimately show ?thesis
    using iv by (auto simp: cm_inv_def s'_def)
qed


lemma state_mask: "(link_state_code AVAILABLE OR link_state_code UNAVAILABLE) AND link_state_code st \<noteq> 0 \<longleftrightarrow>
    st \<in> {AVAILABLE, UNAVAILABLE}"
  by (cases st) simp_all

lemma find_link_in_Some:
  "find_link_in P ls s = Inr (Some l) \<Longrightarrow> l \<in> set ls \<and> P (cm_links s l) \<and> \<not> lk_deleted (cm_links s l)"
  by (auto simp: find_link_in_def bindR_eq_Inr find_Some_iff split: option.splits)

lemma find_link_to_Some:
  "find_link_to nm cl nh remote type sts s = Inr (Some l) \<Longrightarrow>
    l \<in> set (cm_set s) \<and> \<not> lk_deleted (cm_links s l) \<and> sts AND link_state_code (lk_state (cm_links s l)) \<noteq> 0"
  by (auto simp: find_link_to_def find_any_link_to_def bindR_eq_Inr dest!: find_link_in_Some)

lemma cm_inv_cnt [simp]: "cm_inv (s\<lparr>cm_opportunistic_cnt := n\<rparr>) = cm_inv s"
  by (simp add: cm_inv_def link_inv_def queue_inv_def cong: list.case_cong)

lemma fresh_linkD:
  assumes "fresh_link l s"
  shows "l \<notin> set (cm_set s)" "LinkUnavailable l r \<notin> set (cm_events s)"
  using assms by (force simp: fresh_link_def)+

lemma new_opportunistic_link_ok:
  assumes iv: "cm_inv s" and fresh: "fresh_link l s"
    and eq: "new_opportunistic_link env l q i cl nh remote n s = Inr (r, s')"
  shows "cm_inv s' \<and> (\<forall>k. r = Some k \<longrightarrow> k = l \<and> idle_link (cm_links s' k))"
proof -
  note fr = fresh_linkD [OF fresh]
  from eq obtain name cnt lk where lk: "create_link (ce_naming env) (ce_params env) q i name OPPORTUNISTIC cl nh = Inr lk"
    and rest: "(if \<not> ce_init_link env lk
       then Inr (None, (set_link l (lk\<lparr>lk_deleted := True\<rparr>) s)\<lparr>cm_opportunistic_cnt := cnt\<rparr>)
       else bindR (add_new_link env l ((set_link l (lk\<lparr>lk_remote_eid := remote\<rparr>) s)\<lparr>cm_opportunistic_cnt := cnt\<rparr>)) (\<lambda>(ok, s).
              if ok then Inr (Some l, s)
              else bindR (link_delete (cm_links s l)) (\<lambda>lk. Inr (None, set_link l lk s)))) = Inr (r, s')"
    unfolding new_opportunistic_link_def Let_def by (fastforce simp: bindR_eq_Inr)
  let ?lk = "lk\<lparr>lk_remote_eid := remote\<rparr>"
  let ?s = "(set_link l ?lk s)\<lparr>cm_opportunistic_cnt := cnt\<rparr>"
  have idle: "idle_link lk"
    by (rule create_link_idle [OF lk])
  show ?thesis
  proof (cases "ce_init_link env lk")
    case False
    have "cm_inv (set_link l (lk\<lparr>lk_deleted := True\<rparr>) s)"
      by (rule cm_inv_fresh [OF iv fr(2)]) (use idle fr(1) in \<open>auto simp: idle_link_def\<close>)
    then show ?thesis
      using rest False by auto
  next
    case True
    have s: "cm_inv ?s" "idle_link (cm_links ?s l)"
      using cm_inv_fresh [OF iv fr(2), of ?lk] idle by (auto simp: idle_link_def)
    from add_new_link_ok [OF s] fr(2) obtain ok s1 where s1: "add_new_link env l ?s = Inr (ok, s1)" "cm_inv s1"
      "idle_link (cm_links s1 l)" "\<not> ok \<longrightarrow> s1 = ?s"
      by (simp, metis)
    show ?thesis
    proof (cases ok)
      case True
      then show ?thesis
        using rest s1 \<open>ce_init_link env lk\<close> by auto
    next
      case False
      then have "s' = set_link l (?lk\<lparr>lk_deleted := True\<rparr>) ?s" "r = None"
        using rest s1 \<open>ce_init_link env lk\<close> idle by (auto simp: link_delete_def idle_link_def)
      moreover have "cm_inv (set_link l (?lk\<lparr>lk_deleted := True\<rparr>) ?s)"
        by (rule cm_inv_fresh [OF s(1)]) (use idle fr in \<open>auto simp: idle_link_def\<close>)
      ultimately show ?thesis
        by simp
    qed
  qed
qed

lemma find_contact_ok:
  assumes iv: "cm_inv s" and fresh: "fresh_link l s" and eq: "find_contact env l q i cl nh peer s = Inr (r, s')"
  shows "case r of None \<Rightarrow> cm_inv s' | Some c \<Rightarrow> cm_inv (post (ContactUp c) s')"
proof -
  from eq obtain r1 where r1: "find_link_to (ce_naming env) (Some cl) [] peer OPPORTUNISTIC
      (link_state_code AVAILABLE OR link_state_code UNAVAILABLE) s = Inr r1"
    by (auto simp: find_contact_def bindR_eq_Inr)
  have attach: "case r of None \<Rightarrow> cm_inv s' | Some c \<Rightarrow> cm_inv (post (ContactUp c) s')"
    if "cm_inv s1" "idle_link (cm_links s1 k)" "bindR (attach_contact k s1) (\<lambda>(c, s). Inr (Some c, s)) = Inr (r, s')" for k s1
    using attach_ok [OF that(1,2)] that(3) by auto
  show ?thesis
  proof (cases "\<exists>k. r1 = Some k \<and> lk_contact (cm_links s k) = None")
    case True
    then obtain k where k: "r1 = Some k" "lk_contact (cm_links s k) = None"
      by blast
    let ?s = "set_link k ((cm_links s k)\<lparr>lk_nexthop := nh\<rparr>) s"
    have "idle_link (cm_links s k)"
      using find_link_to_Some [OF r1 [unfolded k(1)], unfolded state_mask] k(2) by (auto simp: idle_link_def)
    then have "idle_link (cm_links ?s k)"
      by (simp add: idle_link_def)
    moreover have "cm_inv ?s"
      by (rule cm_inv_set_same [OF iv]) simp_all
    moreover have "bindR (attach_contact k ?s) (\<lambda>(c, s). Inr (Some c, s)) = Inr (r, s')"
      using eq r1 k by (simp add: find_contact_def)
    ultimately show ?thesis
      using attach by blast
  next
    case False
    then have "(case r1 of None \<Rightarrow> None | Some k \<Rightarrow> if lk_contact (cm_links s k) = None then Some k else None) = None"
      by (auto split: option.splits)
    with eq r1 have "bindR (new_opportunistic_link env l q i cl nh peer None s) (\<lambda>(r, s).
        case r of None \<Rightarrow> Inr (None, s) | Some k \<Rightarrow> bindR (attach_contact k s) (\<lambda>(c, s). Inr (Some c, s))) = Inr (r, s')"
      by (simp add: find_contact_def Let_def)
    then obtain r2 s2 where s2: "new_opportunistic_link env l q i cl nh peer None s = Inr (r2, s2)"
      "(case r2 of None \<Rightarrow> Inr (None, s2) | Some k \<Rightarrow> bindR (attach_contact k s2) (\<lambda>(c, s). Inr (Some c, s))) = Inr (r, s')"
      by (auto simp: bindR_eq_Inr)
    show ?thesis
      using new_opportunistic_link_ok [OF iv fresh s2(1)] s2(2) attach by (auto split: option.splits)
  qed
qed

lemma cm_inv_init: "cm_inv (cm_init nm)"
  by (simp add: cm_init_def cm_inv_def link_inv_def queue_inv_def no_link_def link_new_def)

lemma cm_step_inv:
  assumes step: "cm_step env s s'" and iv: "cm_inv s" and clears: "\<forall>c. ce_clears env c"
  shows "cm_inv s'"
  using step
proof cases
  case (daemon ev evs)
  have race: "\<forall>l r. ev = LinkAvailable l r \<longrightarrow> lk_state (cm_links s l) \<noteq> UNAVAILABLE"
    using daemon(2) by (auto simp: handle_link_available_def bindR_eq_Inr link_state_defs)
  from dispatch_ok [OF iv daemon(1) clears race] daemon(2) show ?thesis
    by (auto simp: dispatched_def cm_inv_def)
next
  case (daemon_router ev evs s1 s2)
  have race: "\<forall>l r. ev = LinkAvailable l r \<longrightarrow> lk_state (cm_links s l) \<noteq> UNAVAILABLE"
    using daemon_router(3) by (auto simp: handle_link_available_def bindR_eq_Inr link_state_defs)
  from dispatch_ok [OF iv daemon_router(2) clears race] daemon_router(3)
  have s1: "all_inv (set (cm_events s1)) s1" "calm s1" "distinct (cm_set s1)"
    by (auto simp: dispatched_def)
  from router_acts_ok [OF daemon_router(4) s1(1)]
  have s2: "all_inv (set (cm_events s2)) s2" "grows s1 s2" "cm_set s2 = cm_set s1"
    by simp_all
  show ?thesis
    unfolding daemon_router(1) by (rule cm_dispatch_ok [OF s2(1) grows_calm [OF s2(2) s1(2)]]) (simp add: s2(3) s1(3))
next
  case (timer l t)
  then show ?thesis
    using reopen_link_ok [OF iv, of l] by simp
next
  case (post ev)
  then show ?thesis
    using cm_inv_post [OF iv posted_available] by simp
next
  case (used l)
  show ?thesis
    unfolding used by (rule cm_inv_set_same [OF iv]) (simp_all add: set_used_in_fwdlog_def)
next
  case (connect l queue inflight cl nexthop peer c s1)
  then show ?thesis
    using find_contact_ok [OF iv connect(2,3)] by simp
next
  case (refused l queue inflight cl nexthop peer)
  then show ?thesis
    using find_contact_ok [OF iv refused] by simp
next
  case (create l queue inflight name type cl nexthop lk ok)
  note idle = create_link_idle [OF create(2)]
  have "cm_inv (set_link l lk s)"
    by (rule cm_inv_fresh [OF iv fresh_linkD(2) [OF create(1)]]) (use idle in \<open>simp_all add: idle_link_def\<close>)
  moreover have "idle_link (cm_links (set_link l lk s) l)" "LinkUnavailable l r \<notin> set (cm_events (set_link l lk s))" for r
    using idle fresh_linkD(2) [OF create(1)] by simp_all
  ultimately obtain ok1 s1 where "add_new_link env l (set_link l lk s) = Inr (ok1, s1)" "cm_inv s1"
    using add_new_link_ok by blast
  then show ?thesis
    using create(3) by simp
qed

lemma cm_reachable_inv: "cm_reachable env s \<Longrightarrow> \<forall>c. ce_clears env c \<Longrightarrow> cm_inv s"
  by (induction rule: cm_reachable.induct) (use cm_inv_init cm_step_inv in blast)+

subsection \<open>Handling the waiting events\<close>

text \<open>The event loop of the daemon for a number of events, with a router that does nothing to links.\<close>

fun run_events :: "cm_env \<Rightarrow> nat \<Rightarrow> cm_sys \<Rightarrow> cm_sys res" where
  "run_events env 0 s = Inr s"
| "run_events env (Suc n) s =
     (case cm_events s of
        [] \<Rightarrow> Inr s
      | ev # evs \<Rightarrow>
          bindR (link_dispatch env ev (s\<lparr>cm_events := evs\<rparr>)) (\<lambda>(daemon_only, s).
            run_events env n (if daemon_only then s else cm_dispatch ev s)))"

lemma run_events_step:
  "cm_events s = ev # evs \<Longrightarrow> link_dispatch env ev (s\<lparr>cm_events := evs\<rparr>) = Inr (d, s1) \<Longrightarrow>
    run_events env (Suc n) s = run_events env n (if d then s1 else cm_dispatch ev s1)"
  by simp

lemma run_events_reachable:
  "cm_reachable env s \<Longrightarrow> run_events env n s = Inr s' \<Longrightarrow> cm_reachable env s'"
proof (induction env n s arbitrary: s' rule: run_events.induct)
  case (2 env n s)
  show ?case
  proof (cases "cm_events s")
    case Nil
    then show ?thesis
      using 2 by simp
  next
    case (Cons ev evs)
    then obtain d s1 where s1: "link_dispatch env ev (s\<lparr>cm_events := evs\<rparr>) = Inr (d, s1)"
      "run_events env n (if d then s1 else cm_dispatch ev s1) = Inr s'"
      using 2(3) by (auto simp: bindR_eq_Inr)
    have "cm_step env s (if d then s1 else cm_dispatch ev s1)"
      using cm_step.daemon [OF Cons] cm_step.daemon_router [OF Cons _ router_acts.idle] s1(1) by (cases d) simp_all
    then show ?thesis
      using "2.IH" [OF Cons s1(1) refl] s1(2) cm_reachable.step [OF 2(2)] by simp
  qed
qed simp

text \<open>A link that was open is retried after its connection broke.\<close>

lemma broken_events:
  assumes st: "lk_state (cm_links s l) = OPEN" and c: "lk_contact (cm_links s l) = Some c" "ce_clears env c"
    and cl: "cm_contact_link s c = l" and ev: "cm_events s = []" and reason: "reason \<noteq> IDLE"
  shows "\<exists>s1. run_events env 3 (post (LinkStateChange l CLOSED reason (Some c)) s) = Inr s1 \<and>
    cm_timers s1 = cm_timers (cm_link_unavailable l reason (set_link l (closed_link reason (cm_links s l)) s)) \<and>
    cm_set s1 = cm_set s \<and> cm_events s1 = [] \<and> cm_next_contact s1 = cm_next_contact s \<and>
    lk_state (cm_links s1 l) = UNAVAILABLE \<and> lk_contact (cm_links s1 l) = None \<and>
    lk_deleted (cm_links s1 l) = lk_deleted (cm_links s l)"
proof -
  let ?p = "post (LinkStateChange l CLOSED reason (Some c)) s"
  let ?s1 = "set_link l (closed_link reason (cm_links s l)) s"
  have p: "cm_events ?p = [LinkStateChange l CLOSED reason (Some c)]" "?p\<lparr>cm_events := []\<rparr> = s"
    using ev by (simp_all add: post_def)
  have op: "link_isopen (cm_links s l)"
    using st by (simp add: link_isopen_def)
  have 1: "handle_link_state_change env l CLOSED reason (Some c) s = Inr (?s1\<lparr>cm_events := [LinkUnavailable l reason, ContactDown c reason]\<rparr>)"
    using close_request_eq [OF c, of reason] op ev reason by (simp add: close_events_def)
  let ?s2 = "cm_link_unavailable l reason (?s1\<lparr>cm_events := [ContactDown c reason]\<rparr>)"
  have 2: "cm_timers ?s2 = cm_timers (cm_link_unavailable l reason ?s1)" "cm_events ?s2 = [ContactDown c reason]"
    "cm_set ?s2 = cm_set s" "cm_next_contact ?s2 = cm_next_contact s" "cm_contact_link ?s2 = cm_contact_link s"
    "lk_state (cm_links ?s2 l) = UNAVAILABLE" "lk_contact (cm_links ?s2 l) = None"
    "lk_deleted (cm_links ?s2 l) = lk_deleted (cm_links s l)"
    using reason by (auto simp: cm_link_unavailable_def Let_def has_link_def closed_link_def split: option.splits)
  have 3: "link_dispatch env (LinkUnavailable l reason) (?s1\<lparr>cm_events := [ContactDown c reason]\<rparr>) =
      Inr (False, ?s1\<lparr>cm_events := [ContactDown c reason]\<rparr>)"
    using reason by (simp add: handle_link_unavailable_def link_isavailable_def closed_link_def)
  let ?s3 = "snd (handle_contact_down env c (?s2\<lparr>cm_events := []\<rparr>))"
  have "run_events env (Suc (Suc (Suc 0))) ?p =
      run_events env (Suc (Suc 0)) (?s1\<lparr>cm_events := [LinkUnavailable l reason, ContactDown c reason]\<rparr>)"
    using run_events_step [OF p(1)] p(2) 1 by (simp del: run_events.simps)
  also have "\<dots> = run_events env (Suc 0) ?s2"
    using run_events_step [of "?s1\<lparr>cm_events := [LinkUnavailable l reason, ContactDown c reason]\<rparr>"
      "LinkUnavailable l reason" "[ContactDown c reason]" env False "?s1\<lparr>cm_events := [ContactDown c reason]\<rparr>" "Suc 0"] 3
    by (simp del: run_events.simps)
  also have "\<dots> = Inr ?s3"
    using run_events_step [OF 2(2), of env False ?s3] by (simp add: handle_contact_down_def Let_def)
  finally have "run_events env 3 ?p = Inr ?s3"
    by (simp only: numeral_3_eq_3)
  then show ?thesis
    using 2 cl by (intro exI [of _ ?s3]) (simp add: handle_contact_down_def Let_def)
qed

lemma reopen_opens:
  assumes "has_link l s" "\<not> lk_deleted (cm_links s l)" "lk_state (cm_links s l) = UNAVAILABLE"
    "lk_contact (cm_links s l) = None" "cm_events s = []"
  shows "\<exists>s2 s3. reopen_link l s = Inr s2 \<and> run_events env 1 s2 = Inr s3 \<and> lk_state (cm_links s3 l) = OPENING \<and>
    lk_contact (cm_links s3 l) = Some (cm_next_contact s)"
  using assms
  by (simp add: reopen_link_def has_link_def state_change_def Let_def post_def handle_link_state_change_def
      link_set_state_def open_link_def link_open_def link_state_defs set_link_def)

text \<open>The delays between the attempts.\<close>

fun after_failures :: "nat \<Rightarrow> link_id \<Rightarrow> contact_reason \<Rightarrow> cm_sys \<Rightarrow> cm_sys" where
  "after_failures 0 l reason s = s"
| "after_failures (Suc n) l reason s =
     (let s = cm_link_unavailable l reason (after_failures n l reason s) in s\<lparr>cm_timers := (cm_timers s)(l := None)\<rparr>)"

definition retried :: "link_id \<Rightarrow> contact_reason \<Rightarrow> cm_sys \<Rightarrow> bool" where
  "retried l reason s \<longleftrightarrow> has_link l s \<and> \<not> lk_deleted (cm_links s l) \<and> lk_type (cm_links s l) \<in> {ONDEMAND, ALWAYSON} \<and>
     reason \<noteq> USER \<and> reason \<noteq> IDLE"

lemma cm_link_unavailable_retried:
  assumes "retried l reason s" "cm_timers s l = None"
  defines "t \<equiv> if lk_retry_interval (cm_links s l) = 0 then lp_min_retry_interval (lk_params (cm_links s l))
    else lk_retry_interval (cm_links s l)"
  shows "cm_link_unavailable l reason s =
    (set_link l ((cm_links s l)\<lparr>lk_retry_interval := min (t * 2) (lp_max_retry_interval (lk_params (cm_links s l)))\<rparr>) s)
      \<lparr>cm_timers := (cm_timers s)(l \<mapsto> t)\<rparr>"
  using assms by (auto simp: cm_link_unavailable_def retried_def t_def min_def Let_def)

lemma after_failures_state:
  assumes s: "retried l reason s" "cm_timers s l = None" "lk_retry_interval (cm_links s l) = 0"
    and mn: "lp_min_retry_interval (lk_params (cm_links s l)) = mn" "0 < mn"
    and mx: "lp_max_retry_interval (lk_params (cm_links s l)) = mx" "mn \<le> mx" "unat mx < 2 ^ 31"
  shows "retried l reason (after_failures n l reason s) \<and> cm_timers (after_failures n l reason s) l = None \<and>
    lk_params (cm_links (after_failures n l reason s) l) = lk_params (cm_links s l) \<and>
    unat (lk_retry_interval (cm_links (after_failures n l reason s) l)) =
      (if n = 0 then 0 else min (unat mn * 2 ^ n) (unat mx))"
proof (induction n)
  case 0
  then show ?case
    using s by simp
next
  case (Suc n)
  let ?s = "after_failures n l reason s"
  let ?r = "lk_retry_interval (cm_links ?s l)"
  define t where "t = (if ?r = 0 then mn else ?r)"
  have le: "unat mn \<le> unat mx"
    using mx(2) by (simp add: word_le_nat_alt)
  have pos: "0 < unat mn"
    using mn(2) by (simp add: word_less_nat_alt)
  have r0: "?r = 0 \<longleftrightarrow> n = 0"
    using Suc.IH le pos by (auto simp: unat_eq_0 simp flip: unat_eq_0)
  have t: "unat t = min (unat mn * 2 ^ n) (unat mx)"
    using Suc.IH r0 le by (auto simp: t_def)
  have "unat (t * 2) = 2 * unat t"
    using t mx(3) by (simp add: unat_word_ariths)
  then have "unat (min (t * 2) mx) = min (unat mn * 2 ^ Suc n) (unat mx)"
    using t by (auto simp: min_def word_le_nat_alt)
  moreover have "cm_link_unavailable l reason ?s =
    (set_link l ((cm_links ?s l)\<lparr>lk_retry_interval := min (t * 2) mx\<rparr>) ?s)\<lparr>cm_timers := (cm_timers ?s)(l \<mapsto> t)\<rparr>"
    using cm_link_unavailable_retried [of l reason ?s] Suc.IH mn(1) mx(1) by (simp add: t_def)
  ultimately show ?case
    using Suc.IH by (simp add: retried_def has_link_def)
qed

subsection \<open>An example\<close>

definition sample_cm_env :: cm_env where
  "sample_cm_env = \<lparr>ce_naming = simple_naming, ce_params = default_params, ce_init_link = (\<lambda>_. True),
     ce_clears = (\<lambda>_. True), ce_elapsed_ms = (\<lambda>_. 0)\<rparr>"

text \<open>An on-demand link at address 1, just created; and the same link after it was opened.\<close>

definition sample_link :: link where
  "sample_link = (link_new simple_naming default_params 1 2 (lit ''peer'') ONDEMAND (lit ''tcp'') (lit ''host''))
     \<lparr>lk_state := AVAILABLE, lk_params := default_params\<lparr>lp_idle_close_time := 30\<rparr>\<rparr>"

definition sample_created :: cm_sys where
  "sample_created = post (LinkCreated 1) ((set_link 1 sample_link (cm_init simple_naming))\<lparr>cm_set := [1]\<rparr>)"

definition sample_opened :: cm_sys where
  "sample_opened = (set_link 1 (sample_link\<lparr>lk_contact := Some 0, lk_state := OPEN,
       lk_stats := (lk_stats sample_link)\<lparr>st_contact_attempts := 1, st_contacts := 1\<rparr>, lk_retry_interval := 5\<rparr>) (cm_init simple_naming))
     \<lparr>cm_set := [1], cm_contact_link := (\<lambda>_. 0)(0 := 1), cm_next_contact := 1\<rparr>"

lemma sample_created_reachable: "cm_reachable sample_cm_env sample_created"
proof -
  let ?s = "cm_init simple_naming"
  have "create_link simple_naming default_params 1 2 (lit ''peer'') ONDEMAND (lit ''tcp'') (lit ''host'') = Inr sample_link"
    by (simp add: create_link_def link_set_state_def sample_link_def link_new_def)
  moreover have "add_new_link sample_cm_env 1 (set_link 1 sample_link ?s) = Inr (True, sample_created)"
    by (simp add: add_new_link_def sample_created_def sample_link_def link_new_def has_link_name_def cm_init_def
        sample_cm_env_def Let_def insort_insert_key_def set_link_def)
  moreover have "fresh_link 1 ?s"
    by (simp add: fresh_link_def cm_init_def)
  ultimately have "cm_step sample_cm_env ?s sample_created"
    by (intro cm_step.create [of 1 ?s sample_cm_env 1 2 "lit ''peer''" ONDEMAND "lit ''tcp''" "lit ''host''" sample_link True])
      (simp_all add: sample_cm_env_def)
  then show ?thesis
    using cm_reachable.init [of sample_cm_env] cm_reachable.step by (simp add: sample_cm_env_def)
qed

lemma sample_link_fields [simp]:
  "lk_type sample_link = ONDEMAND" "lk_state sample_link = AVAILABLE" "lk_deleted sample_link = False"
  "lk_contact sample_link = None" "lk_retry_interval sample_link = 0" "lk_create_pending sample_link = False"
  "lp_min_retry_interval (lk_params sample_link) = 5" "lp_max_retry_interval (lk_params sample_link) = 600"
  "st_contact_attempts (lk_stats sample_link) = 0" "st_contacts (lk_stats sample_link) = 0"
  by (simp_all add: sample_link_def link_new_def default_params_def)

lemmas cm_run_defs = handle_link_created_def cm_link_created_def set_initial_state_def has_link_def link_state_defs
  handle_link_available_def cm_link_available_def handle_link_state_change_def open_link_def link_open_def
  link_set_state_def state_change_def handle_contact_up_def cm_contact_up_def set_link_def post_def post_at_head_def
  cm_init_def Let_def

lemma no_timers [simp]: "(\<lambda>_. None)(k := None) = (\<lambda>_. None)"
  by auto

lemma sample_opened_reachable: "cm_reachable sample_cm_env sample_opened"
proof -
  let ?s1 = "(set_link 1 sample_link (cm_init simple_naming))\<lparr>cm_set := [1]\<rparr>"
  let ?s2 = "post (state_change 1 OPEN USER ?s1) ?s1"
  let ?s3 = "(set_link 1 (sample_link\<lparr>lk_state := OPENING, lk_contact := Some 0,
       lk_stats := (lk_stats sample_link)\<lparr>st_contact_attempts := 1\<rparr>\<rparr>) (cm_init simple_naming))
     \<lparr>cm_set := [1], cm_contact_link := (\<lambda>_. 0)(0 := 1), cm_next_contact := 1\<rparr>"
  have 1: "run_events sample_cm_env 2 sample_created = Inr ?s1"
    by (simp add: numeral_2_eq_2 sample_created_def cm_run_defs)
  have 2: "run_events sample_cm_env 1 ?s2 = Inr ?s3"
    by (simp add: cm_run_defs)
  have 3: "run_events sample_cm_env 1 (post (ContactUp 0) ?s3) = Inr sample_opened"
    by (simp add: cm_run_defs sample_opened_def)
  have "cm_reachable sample_cm_env ?s2"
    by (intro cm_reachable.step [OF run_events_reachable [OF sample_created_reachable 1]] cm_step.post posted.request)
  from run_events_reachable [OF this 2] have "cm_reachable sample_cm_env (post (ContactUp 0) ?s3)"
    by (rule cm_reachable.step) (intro cm_step.post posted.contact_up, simp)
  from run_events_reachable [OF this 3] show ?thesis .
qed

lemma peer_not_null: "\<not> eid_equals (eid_assign simple_naming (lit ''dtn:peer'')) (NULL_EID simple_naming)"
  by (simp add: eid_equals_def NULL_EID_def eid_assign_def simple_naming_def simple_parse_def lit_def Let_def)

text \<open>A peer connects for the first time.\<close>

lemma sample_connected:
  obtains c s where "find_contact sample_cm_env 1 1 2 (lit ''tcp'') (lit ''host'') (eid_assign simple_naming (lit ''dtn:peer''))
      (cm_init simple_naming) = Inr (Some c, s)"
    "has_link 1 s" "\<not> lk_deleted (cm_links s 1)" "\<not> lk_reincarnated (cm_links s 1)" "lk_type (cm_links s 1) = OPPORTUNISTIC"
    "lk_remote_eid (cm_links s 1) = eid_assign simple_naming (lit ''dtn:peer'')" "cm_previous s = []"
proof -
  let ?peer = "eid_assign simple_naming (lit ''dtn:peer'')" and ?s0 = "cm_init simple_naming"
  have f: "find_link_to simple_naming (Some cl) [] ?peer OPPORTUNISTIC sts ?s0 = Inr None"
    "find_previous_link_to simple_naming None [] ?peer OPPORTUNISTIC sts ?s0 = Inr None" for cl sts
    by (simp_all add: find_link_to_def find_previous_link_to_def find_any_link_to_def find_link_in_def cm_init_def)
  have name: "\<exists>n. next_name (name_used ?s0) (lit ''link'') 0 = Inr (n, 1)"
    by (subst next_name.simps) (simp add: name_used_def find_link_def find_previous_link_def find_link_in_def cm_init_def Let_def)
  then obtain n where n: "next_name (name_used ?s0) (lit ''link'') 0 = Inr (n, 1)"
    by blast
  have init: "cm_opportunistic_cnt ?s0 = 0" "cm_set ?s0 = []" "cm_previous ?s0 = []" "cm_links ?s0 = (\<lambda>_. no_link simple_naming)"
    by (simp_all add: cm_init_def)
  have "\<exists>c s. find_contact sample_cm_env 1 1 2 (lit ''tcp'') (lit ''host'') ?peer ?s0 = Inr (Some c, s) \<and>
    has_link 1 s \<and> \<not> lk_deleted (cm_links s 1) \<and> \<not> lk_reincarnated (cm_links s 1) \<and> lk_type (cm_links s 1) = OPPORTUNISTIC \<and>
    lk_remote_eid (cm_links s 1) = ?peer \<and> cm_previous s = []"
    by (simp add: find_contact_def sample_cm_env_def f new_opportunistic_link_def name_prefix_def n init create_link_def
        add_new_link_def has_link_name_def attach_contact_def link_new_def link_state_defs set_link_def
        has_link_def post_def Let_def insort_insert_key_def)
  then show ?thesis
    using that by blast
qed

subsection \<open>Properties\<close>

text \<open>
  C8: in every state the program reaches, a link that is open or opening has a contact, a link with
  a contact that is neither waits for the event that the contact is up, a contact belongs to
  one link only, and the contact manager has no deleted link.
\<close>

theorem link_lifecycle_invariant:
  assumes "cm_reachable env s" and "\<forall>c. ce_clears env c"
  shows "(lk_state (cm_links s l) \<in> {OPENING, OPEN} \<longrightarrow> lk_contact (cm_links s l) \<noteq> None) \<and>
    (\<not> lk_deleted (cm_links s l) \<and> lk_contact (cm_links s l) = Some c \<and> lk_state (cm_links s l) \<notin> {OPENING, OPEN} \<longrightarrow>
      ContactUp c \<in> set (cm_events s)) \<and>
    (lk_contact (cm_links s l) = Some c \<and> lk_contact (cm_links s k) = Some c \<longrightarrow> l = k) \<and>
    (has_link l s \<longrightarrow> \<not> lk_deleted (cm_links s l))"
proof -
  have "link_inv (set (cm_events s)) s l" "link_inv (set (cm_events s)) s k"
    using cm_reachable_inv [OF assms] by (simp_all add: cm_inv_def)
  then show ?thesis
    unfolding link_inv_def has_link_def by metis
qed

theorem link_lifecycle_invariant_witness:
  "lk_state (cm_links sample_opened 1) = OPEN \<and> lk_contact (cm_links sample_opened 1) \<noteq> None \<and>
   \<not> lk_deleted (cm_links sample_opened 1)"
proof -
  have "\<forall>c. ce_clears sample_cm_env c" "lk_state (cm_links sample_opened 1) = OPEN" "has_link 1 sample_opened"
    by (simp_all add: sample_cm_env_def sample_opened_def has_link_def)
  then show ?thesis
    using link_lifecycle_invariant [OF sample_opened_reachable, of 1] by simp
qed



text \<open>
  C30: a race. When an on-demand link is made unavailable before the event of its creation is
  handled, the event that announces it as available comes last, and the assertion in its
  handler fails: the daemon stops.
\<close>

theorem link_available_race:
  assumes "cm_events s = [LinkCreated l, LinkStateChange l UNAVAILABLE reason None]"
    and "has_link l s" "\<not> lk_deleted (cm_links s l)" "lk_type (cm_links s l) = ONDEMAND"
    and "lk_state (cm_links s l) = AVAILABLE" "lk_contact (cm_links s l) = None"
  shows "run_events env 4 s = Inl ASSERT"
  using assms
  by (simp add: eval_nat_numeral handle_link_unavailable_def cm_link_unavailable_def cm_run_defs split: option.splits)

theorem link_available_race_witness:
  "\<exists>s. cm_reachable sample_cm_env s \<and> run_events sample_cm_env 4 s = Inl ASSERT"
proof -
  let ?s = "post (state_change 1 UNAVAILABLE USER sample_created) sample_created"
  have "cm_reachable sample_cm_env ?s"
    by (intro cm_reachable.step [OF sample_created_reachable] cm_step.post posted.request)
  moreover have "run_events sample_cm_env 4 ?s = Inl ASSERT"
    by (rule link_available_race [of _ 1 USER])
      (simp_all add: sample_created_def state_change_def cm_init_def has_link_def)
  ultimately show ?thesis
    by blast
qed

text \<open>
  C31: a broken connection is tried again. When the connection of an open on-demand or always-on
  link breaks, handling the events that this causes leaves a timer; when it fires and its
  request is handled, the link is opening with a new contact.
\<close>

theorem broken_link_reopens:
  assumes "cm_reachable env s" and "\<forall>c. ce_clears env c" and "retried l reason s"
    and "lk_state (cm_links s l) = OPEN" and "lk_contact (cm_links s l) = Some c" and "cm_events s = []"
  shows "\<exists>s1 t s2 s3 c'. run_events env 3 (post (LinkStateChange l CLOSED reason (Some c)) s) = Inr s1 \<and>
    lk_state (cm_links s1 l) = UNAVAILABLE \<and> cm_timers s1 l = Some t \<and>
    reopen_link l s1 = Inr s2 \<and> run_events env 1 s2 = Inr s3 \<and>
    lk_state (cm_links s3 l) = OPENING \<and> lk_contact (cm_links s3 l) = Some c' \<and> c' \<noteq> c"
proof -
  have "link_inv (set (cm_events s)) s l"
    using cm_reachable_inv [OF assms(1,2)] by (simp add: cm_inv_def)
  then have c: "c < cm_next_contact s" "cm_contact_link s c = l"
    using assms(5) by (auto simp: link_inv_def)
  have pre: "ce_clears env c" "reason \<noteq> IDLE"
    using assms(2,3) by (simp_all add: retried_def)
  obtain s1 where s1: "run_events env 3 (post (LinkStateChange l CLOSED reason (Some c)) s) = Inr s1"
    "cm_timers s1 = cm_timers (cm_link_unavailable l reason (set_link l (closed_link reason (cm_links s l)) s))"
    "cm_set s1 = cm_set s" "cm_events s1 = []" "cm_next_contact s1 = cm_next_contact s"
    "lk_state (cm_links s1 l) = UNAVAILABLE" "lk_contact (cm_links s1 l) = None"
    "lk_deleted (cm_links s1 l) = lk_deleted (cm_links s l)"
    using broken_events [OF assms(4,5) pre(1) c(2) assms(6) pre(2)] by blast
  have "\<exists>t. cm_timers s1 l = Some t"
    using assms(3) by (auto simp: s1(2) cm_link_unavailable_def retried_def has_link_def closed_link_def Let_def split: option.splits)
  moreover obtain s2 s3 where "reopen_link l s1 = Inr s2" "run_events env 1 s2 = Inr s3" "lk_state (cm_links s3 l) = OPENING"
    "lk_contact (cm_links s3 l) = Some (cm_next_contact s)"
    using reopen_opens [of l s1 env] s1 assms(3) by (auto simp: retried_def has_link_def simp del: run_events.simps)
  ultimately show ?thesis
    using s1(1,6) c(1) by blast
qed

theorem broken_link_reopens_witness:
  "\<exists>s1 s2 s3 c'. run_events sample_cm_env 3 (post (LinkStateChange 1 CLOSED BROKEN (Some 0)) sample_opened) = Inr s1 \<and>
    reopen_link 1 s1 = Inr s2 \<and> run_events sample_cm_env 1 s2 = Inr s3 \<and> lk_state (cm_links s3 1) = OPENING \<and>
    lk_contact (cm_links s3 1) = Some c' \<and> c' \<noteq> 0"
proof -
  have "\<forall>c. ce_clears sample_cm_env c" "retried 1 BROKEN sample_opened" "lk_state (cm_links sample_opened 1) = OPEN"
    "lk_contact (cm_links sample_opened 1) = Some 0" "cm_events sample_opened = []"
    by (simp_all add: sample_cm_env_def sample_opened_def retried_def has_link_def cm_init_def)
  from broken_link_reopens [OF sample_opened_reachable this] show ?thesis
    by metis
qed

text \<open>
  The delay before the attempt after the \<open>n\<close>-th failure in a row is the minimal interval doubled
  \<open>n\<close> times, bounded by the maximal interval, as long as that is below \<open>2 ^ 31\<close> seconds.
\<close>

theorem retry_backoff:
  assumes "retried l reason s" "cm_timers s l = None" "lk_retry_interval (cm_links s l) = 0"
    and "lp_min_retry_interval (lk_params (cm_links s l)) = mn" "0 < mn"
    and "lp_max_retry_interval (lk_params (cm_links s l)) = mx" "mn \<le> mx" "unat mx < 2 ^ 31"
  shows "\<exists>t. cm_timers (cm_link_unavailable l reason (after_failures n l reason s)) l = Some t \<and>
    unat t = min (unat mn * 2 ^ n) (unat mx)"
proof -
  let ?s = "after_failures n l reason s"
  note st = after_failures_state [OF assms, of n]
  have le: "unat mn \<le> unat mx" "0 < unat mn"
    using assms(5,7) by (simp_all add: word_le_nat_alt word_less_nat_alt)
  have "lk_retry_interval (cm_links ?s l) = 0 \<longleftrightarrow> n = 0"
    using st le by (auto simp: simp flip: unat_eq_0)
  then show ?thesis
    using cm_link_unavailable_retried [of l reason ?s] st assms(4) le by auto
qed

theorem retry_backoff_witness:
  "\<exists>t. cm_timers (cm_link_unavailable 1 BROKEN (after_failures 9 1 BROKEN sample_created)) 1 = Some t \<and> unat t = 600"
proof -
  have "retried 1 BROKEN sample_created" "cm_timers sample_created 1 = None" "lk_retry_interval (cm_links sample_created 1) = 0"
    "lp_min_retry_interval (lk_params (cm_links sample_created 1)) = 5" "(0 :: u32) < 5"
    "lp_max_retry_interval (lk_params (cm_links sample_created 1)) = 600" "(5 :: u32) \<le> 600" "unat (600 :: u32) < 2 ^ 31"
    by (simp_all add: sample_created_def retried_def has_link_def cm_init_def)
  from retry_backoff [OF this, of 9] show ?thesis
    by simp
qed

text \<open>
  A deleted link that was used in a forwarding log stays among the previous links, where the
  search for a previous link to the same endpoint finds it and asserts that it is not deleted:
  the next time that peer connects, the daemon stops.
\<close>

theorem deleted_link_reconnect_asserts:
  assumes "has_link l s" "\<not> lk_deleted (cm_links s l)" "lk_used_in_fwdlog (cm_links s l)" "\<not> lk_reincarnated (cm_links s l)"
    and "lk_type (cm_links s l) = OPPORTUNISTIC" "\<not> eid_equals (lk_remote_eid (cm_links s l)) (NULL_EID (ce_naming env))"
    and "cm_previous s = []"
  shows "\<exists>s1. del_link l s = Inr s1 \<and>
    new_opportunistic_link env k queue inflight cl nexthop (lk_remote_eid (cm_links s l)) name s1 = Inl ASSERT"
proof -
  obtain s1 where s1: "del_link l s = Inr s1" "cm_links s1 = (cm_links s)(l := (cm_links s l)\<lparr>lk_deleted := True\<rparr>)"
    "cm_previous s1 = [l]"
    using del_link_eq [OF assms(1,2)] assms(3,4,7) by (metis insort_insert_triv insort_insert_key_def insort_key.simps(1) set_empty2 equals0D list.set(1) image_empty)
  have code: "0xffffffff AND link_state_code st \<noteq> 0" for st
    by (cases st) simp_all
  have "find_previous_link_to (ce_naming env) None [] (lk_remote_eid (cm_links s l)) OPPORTUNISTIC 0xffffffff s1 = Inl ASSERT"
    using assms(5,6) code by (simp add: find_previous_link_to_def find_any_link_to_def find_link_in_def s1 eid_equals_def)
  then show ?thesis
    using s1(1) by (simp add: new_opportunistic_link_def)
qed

theorem deleted_link_reconnect_asserts_witness:
  "\<exists>s s1. cm_reachable sample_cm_env s \<and> del_link 1 s = Inr s1 \<and>
    new_opportunistic_link sample_cm_env 2 3 4 (lit ''tcp'') (lit ''host'') (eid_assign simple_naming (lit ''dtn:peer'')) None s1 = Inl ASSERT"
proof -
  let ?peer = "eid_assign simple_naming (lit ''dtn:peer'')"
  let ?init = "cm_init simple_naming"
  obtain c s where s: "find_contact sample_cm_env 1 1 2 (lit ''tcp'') (lit ''host'') ?peer ?init = Inr (Some c, s)"
    "has_link 1 s" "\<not> lk_deleted (cm_links s 1)" "\<not> lk_reincarnated (cm_links s 1)" "lk_type (cm_links s 1) = OPPORTUNISTIC"
    "lk_remote_eid (cm_links s 1) = ?peer" "cm_previous s = []"
    by (rule sample_connected)
  let ?s = "set_link 1 (set_used_in_fwdlog (cm_links s 1)) (post (ContactUp c) s)"
  have "cm_step sample_cm_env ?init (post (ContactUp c) s)"
    by (rule cm_step.connect [OF _ s(1)]) (simp add: fresh_link_def cm_init_def)
  then have "cm_reachable sample_cm_env (post (ContactUp c) s)"
    using cm_reachable.step [OF cm_reachable.init [of sample_cm_env]] by (simp add: sample_cm_env_def)
  then have "cm_reachable sample_cm_env ?s"
    using cm_reachable.step [OF _ cm_step.used [of sample_cm_env "post (ContactUp c) s" 1]] by simp
  moreover have "lk_remote_eid (cm_links ?s 1) = ?peer"
    using s(6) by (simp add: set_used_in_fwdlog_def)
  moreover have "\<exists>s1. del_link 1 ?s = Inr s1 \<and> new_opportunistic_link sample_cm_env 2 3 4 (lit ''tcp'') (lit ''host'')
      (lk_remote_eid (cm_links ?s 1)) None s1 = Inl ASSERT"
    by (rule deleted_link_reconnect_asserts)
      (use s in \<open>simp_all add: has_link_def set_used_in_fwdlog_def sample_cm_env_def peer_not_null\<close>)
  ultimately show ?thesis
    by metis
qed

text \<open>
  A convergence layer that cannot open a contact asks for the state \<open>UNAVAILABLE\<close>; a link that is
  opening ignores that request and stays as it is.
\<close>

lemma opening_ignores_unavailable:
  "lk_state (cm_links s l) = OPENING \<Longrightarrow> handle_link_state_change env l UNAVAILABLE reason c s = Inr s"
  by (simp add: handle_link_state_change_def Let_def)

end
