(* ===== verification/ForwardingLog.thy ===== *)
theory ForwardingLog
  imports Link PrimaryBlock
begin

text \<open>
  The forwarding log of a bundle: \<open>servlib/bundling/ForwardingInfo.h\<close>, \<open>ForwardingInfo.cc\<close> and
  \<open>ForwardingLog.cc\<close>, and the custody timer specification of \<open>CustodyTimer.h\<close> and
  \<open>CustodyTimer.cc\<close>. The log is a list of entries, oldest first; searches go backwards from its
  end. The clock is the argument \<open>now\<close>. Every change of the log is also written to the data store,
  which is left out.
\<close>

subsection \<open>Custody timers\<close>

record custody_spec =
  cs_min :: u32
  cs_lifetime_pct :: u32
  cs_max :: u32

definition custody_defaults :: custody_spec where
  "custody_defaults = \<lparr>cs_min = 1800, cs_lifetime_pct = 25, cs_max = 0\<rparr>"

text \<open>
  The percentage is computed in double precision. The product is exact below \<open>2 ^ 53\<close>, and then the
  quotient, rounded, has the same integer part as the exact one; from \<open>2 ^ 32\<close> on the conversion to
  32 bits is undefined, so that the model has no result there. The sum wraps around at 32 bits.
\<close>

definition calculate_timeout :: "custody_spec \<Rightarrow> u64 \<Rightarrow> u32 res" where
  "calculate_timeout spec expiration =
     (let q = unat (cs_lifetime_pct spec) * unat expiration div 100
      in if q \<ge> 2 ^ 32 then Inl OOB
         else
           let timeout = cs_min spec + of_nat q
           in Inr (if cs_max spec \<noteq> 0 then min timeout (cs_max spec) else timeout))"

subsection \<open>Entries\<close>

datatype fwd_action = INVALID_ACTION | FORWARD_ACTION | COPY_ACTION

primrec fwd_action_code :: "fwd_action \<Rightarrow> u32" where
  "fwd_action_code INVALID_ACTION = 0"
| "fwd_action_code FORWARD_ACTION = 1"
| "fwd_action_code COPY_ACTION = 2"

datatype fwd_state =
    FWD_NONE | QUEUED | TRANSMITTED | TRANSMIT_FAILED | CANCELLED | CUSTODY_TIMEOUT
  | PENDING_DELIVERY | DELIVERED | SUPPRESSED | RECEIVED

primrec fwd_state_code :: "fwd_state \<Rightarrow> u32" where
  "fwd_state_code FWD_NONE = 0"
| "fwd_state_code QUEUED = 1"
| "fwd_state_code TRANSMITTED = 2"
| "fwd_state_code TRANSMIT_FAILED = 4"
| "fwd_state_code CANCELLED = 8"
| "fwd_state_code CUSTODY_TIMEOUT = 16"
| "fwd_state_code PENDING_DELIVERY = 32"
| "fwd_state_code DELIVERED = 64"
| "fwd_state_code SUPPRESSED = 128"
| "fwd_state_code RECEIVED = 1024"

definition ANY_ACTION :: u32 where "ANY_ACTION = 0xffffffff"
definition ANY_STATE :: u32 where "ANY_STATE = 0xffffffff"

text \<open>\<open>oasys::Time\<close>: seconds and microseconds.\<close>

type_synonym time = "u32 \<times> u32"

record fwd_info =
  fi_state :: fwd_state
  fi_action :: fwd_action
  fi_link_name :: bytes
  fi_regid :: u32
  fi_remote_eid :: eid
  fi_timestamp :: time
  fi_custody_spec :: custody_spec

definition NO_REGID :: u32 where "NO_REGID = 0xffffffff"

definition fi_set_state :: "time \<Rightarrow> fwd_state \<Rightarrow> fwd_info \<Rightarrow> fwd_info" where
  "fi_set_state now new_state fi = fi\<lparr>fi_state := new_state, fi_timestamp := now\<rparr>"

definition fwd_info_new :: "time \<Rightarrow> fwd_state \<Rightarrow> fwd_action \<Rightarrow> bytes \<Rightarrow> u32 \<Rightarrow> eid \<Rightarrow> custody_spec \<Rightarrow> fwd_info" where
  "fwd_info_new now state action name regid remote spec =
     fi_set_state now state
       \<lparr>fi_state = FWD_NONE, fi_action = action, fi_link_name = name, fi_regid = regid, fi_remote_eid = remote,
        fi_timestamp = (0, 0), fi_custody_spec = spec\<rparr>"

text \<open>
  An entry read back from the data store by \<open>serialize\<close>: the custody timer specification is not
  stored, so that it is the default one, and an entry for a link that no longer exists cannot be
  queued any more.
\<close>

definition fwd_info_reload :: "time \<Rightarrow> (bytes \<Rightarrow> bool) \<Rightarrow> fwd_info \<Rightarrow> fwd_info" where
  "fwd_info_reload now has_link fi =
     (let fi = fi\<lparr>fi_custody_spec := custody_defaults\<rparr>
      in if fi_state fi = QUEUED \<and> \<not> has_link (fi_link_name fi)
         then fi\<lparr>fi_state := TRANSMIT_FAILED, fi_timestamp := now\<rparr> else fi)"

subsection \<open>The log\<close>

type_synonym fwd_log = "fwd_info list"

record registration =
  rg_regid :: u32
  rg_endpoint :: eid
  rg_api :: bool
  rg_session_flags :: u32

text \<open>The identifier of a registration is printed with \<open>%d\<close>, as a signed number.\<close>

definition reg_link_name :: "u32 \<Rightarrow> bytes" where
  "reg_link_name regid =
     lit ''registration-'' @ (if sint regid < 0 then lit ''-'' @ dec (nat (- sint regid)) else dec (nat (sint regid)))"

definition eid_link_name :: "eid \<Rightarrow> bytes" where
  "eid_link_name e = lit ''eid-'' @ c_str e"

definition WILDCARD_EID :: "naming \<Rightarrow> eid" where
  "WILDCARD_EID nm = eid_assign nm (lit ''*:*'')"

text \<open>The entry found last, for a link, a registration or a state.\<close>

definition remote_ok :: "naming \<Rightarrow> eid \<Rightarrow> fwd_info \<Rightarrow> bool" where
  "remote_ok nm remote fi \<longleftrightarrow> eid_equals (fi_remote_eid fi) (NULL_EID nm) \<or> eid_equals (fi_remote_eid fi) remote"

definition get_latest_link :: "naming \<Rightarrow> link \<Rightarrow> fwd_log \<Rightarrow> fwd_info option res" where
  "get_latest_link nm lk log =
     (case find (\<lambda>fi. fi_link_name fi = lk_name lk) (rev log) of
        None \<Rightarrow> Inr None
      | Some fi \<Rightarrow> bindR (assertR (remote_ok nm (lk_remote_eid lk) fi)) (\<lambda>_. Inr (Some fi)))"

definition get_latest_reg :: "naming \<Rightarrow> registration \<Rightarrow> fwd_log \<Rightarrow> fwd_info option res" where
  "get_latest_reg nm reg log =
     (case find (\<lambda>fi. fi_regid fi = rg_regid reg) (rev log) of
        None \<Rightarrow> Inr None
      | Some fi \<Rightarrow> bindR (assertR (remote_ok nm (rg_endpoint reg) fi)) (\<lambda>_. Inr (Some fi)))"

definition latest_state :: "fwd_info option \<Rightarrow> fwd_state" where
  "latest_state r = (case r of None \<Rightarrow> FWD_NONE | Some fi \<Rightarrow> fi_state fi)"

definition get_latest_state_link :: "naming \<Rightarrow> link \<Rightarrow> fwd_log \<Rightarrow> fwd_state res" where
  "get_latest_state_link nm lk log = bindR (get_latest_link nm lk log) (\<lambda>r. Inr (latest_state r))"

definition get_latest_state_reg :: "naming \<Rightarrow> registration \<Rightarrow> fwd_log \<Rightarrow> fwd_state res" where
  "get_latest_state_reg nm reg log = bindR (get_latest_reg nm reg log) (\<lambda>r. Inr (latest_state r))"

definition get_latest_in_state :: "fwd_state \<Rightarrow> fwd_log \<Rightarrow> fwd_info option" where
  "get_latest_in_state state log = find (\<lambda>fi. fi_state fi = state) (rev log)"

text \<open>The number of entries whose state and action are in the given sets of bits.\<close>

definition fi_matches :: "u32 \<Rightarrow> u32 \<Rightarrow> fwd_info \<Rightarrow> bool" where
  "fi_matches sts acts fi \<longleftrightarrow>
     fwd_state_code (fi_state fi) AND sts \<noteq> 0 \<and> fwd_action_code (fi_action fi) AND acts \<noteq> 0"

definition get_count :: "u32 \<Rightarrow> u32 \<Rightarrow> fwd_log \<Rightarrow> nat" where
  "get_count sts acts log = length (filter (fi_matches sts acts) log)"

definition get_count_eid :: "naming \<Rightarrow> eid \<Rightarrow> u32 \<Rightarrow> u32 \<Rightarrow> fwd_log \<Rightarrow> nat" where
  "get_count_eid nm e sts acts log =
     length (filter (\<lambda>fi. (eid_equals (fi_remote_eid fi) (WILDCARD_EID nm) \<or> eid_equals (fi_remote_eid fi) e) \<and>
       fi_matches sts acts fi) log)"

text \<open>New entries. The link is marked as used in a forwarding log.\<close>

definition add_entry_link ::
  "time \<Rightarrow> link \<Rightarrow> fwd_action \<Rightarrow> fwd_state \<Rightarrow> custody_spec \<Rightarrow> fwd_log \<Rightarrow> fwd_log \<times> link"
where
  "add_entry_link now lk action state spec log =
     (log @ [fwd_info_new now state action (lk_name lk) NO_REGID (lk_remote_eid lk) spec], set_used_in_fwdlog lk)"

definition add_entry_reg :: "time \<Rightarrow> registration \<Rightarrow> fwd_action \<Rightarrow> fwd_state \<Rightarrow> fwd_log \<Rightarrow> fwd_log" where
  "add_entry_reg now reg action state log =
     log @ [fwd_info_new now state action (reg_link_name (rg_regid reg)) (rg_regid reg) (rg_endpoint reg) custody_defaults]"

definition add_entry_eid :: "time \<Rightarrow> eid \<Rightarrow> fwd_action \<Rightarrow> fwd_state \<Rightarrow> fwd_log \<Rightarrow> fwd_log" where
  "add_entry_eid now e action state log =
     log @ [fwd_info_new now state action (eid_link_name e) NO_REGID e custody_defaults]"

text \<open>The last entry that satisfies a test gets a new state; the result says whether there was one.\<close>

fun update_first :: "(fwd_info \<Rightarrow> bool) \<Rightarrow> (fwd_info \<Rightarrow> fwd_info res) \<Rightarrow> fwd_log \<Rightarrow> (bool \<times> fwd_log) res" where
  "update_first P f [] = Inr (False, [])"
| "update_first P f (fi # log) =
     (if P fi then bindR (f fi) (\<lambda>fi'. Inr (True, fi' # log))
      else bindR (update_first P f log) (\<lambda>(ok, log'). Inr (ok, fi # log')))"

definition update_last :: "(fwd_info \<Rightarrow> bool) \<Rightarrow> (fwd_info \<Rightarrow> fwd_info res) \<Rightarrow> fwd_log \<Rightarrow> (bool \<times> fwd_log) res" where
  "update_last P f log = bindR (update_first P f (rev log)) (\<lambda>(ok, log'). Inr (ok, rev log'))"

definition update_link :: "naming \<Rightarrow> time \<Rightarrow> link \<Rightarrow> fwd_state \<Rightarrow> fwd_log \<Rightarrow> (bool \<times> fwd_log) res" where
  "update_link nm now lk state log =
     update_last (\<lambda>fi. fi_link_name fi = lk_name lk)
       (\<lambda>fi. bindR (assertR (remote_ok nm (lk_remote_eid lk) fi)) (\<lambda>_. Inr (fi_set_state now state fi))) log"

definition update_reg :: "time \<Rightarrow> registration \<Rightarrow> fwd_state \<Rightarrow> fwd_log \<Rightarrow> (bool \<times> fwd_log) res" where
  "update_reg now reg state log =
     update_last (\<lambda>fi. fi_regid fi = rg_regid reg) (\<lambda>fi. Inr (fi_set_state now state fi)) log"

definition update_all :: "time \<Rightarrow> fwd_state \<Rightarrow> fwd_state \<Rightarrow> fwd_log \<Rightarrow> fwd_log" where
  "update_all now old_state new_state log =
     map (\<lambda>fi. if fi_state fi = old_state then fi_set_state now new_state fi else fi) log"

definition fwdlog_clear :: "fwd_log \<Rightarrow> fwd_log" where
  "fwdlog_clear log = []"

subsection \<open>The log as a map\<close>

text \<open>
  To its users the log is a map to the state that was recorded last, from the names of links or from
  the identifiers of registrations: the locale has the key of an entry as its parameter. The
  assertions on the remote endpoint hold as long as the endpoint of a key never changes: \<open>remotes\<close>
  is the endpoint that belongs to each key.
\<close>

lemma find_SomeD: "find P xs = Some x \<Longrightarrow> P x \<and> x \<in> set xs"
  by (induction xs) (auto split: if_splits)

lemma fwd_info_new_fields [simp]:
  "fi_state (fwd_info_new now st a n r e spec) = st" "fi_action (fwd_info_new now st a n r e spec) = a"
  "fi_link_name (fwd_info_new now st a n r e spec) = n" "fi_regid (fwd_info_new now st a n r e spec) = r"
  "fi_remote_eid (fwd_info_new now st a n r e spec) = e" "fi_custody_spec (fwd_info_new now st a n r e spec) = spec"
  by (simp_all add: fwd_info_new_def fi_set_state_def)

lemma fi_set_state_fields [simp]:
  "fi_state (fi_set_state now st fi) = st" "fi_action (fi_set_state now st fi) = fi_action fi"
  "fi_link_name (fi_set_state now st fi) = fi_link_name fi" "fi_regid (fi_set_state now st fi) = fi_regid fi"
  "fi_remote_eid (fi_set_state now st fi) = fi_remote_eid fi"
  "fi_custody_spec (fi_set_state now st fi) = fi_custody_spec fi"
  by (simp_all add: fi_set_state_def)

lemma remote_ok_refl [simp]: "fi_remote_eid fi = e \<Longrightarrow> remote_ok nm e fi"
  by (simp add: remote_ok_def eid_equals_def)

lemma remote_ok_set_state [simp]: "remote_ok nm e (fi_set_state now st fi) = remote_ok nm e fi"
  by (simp add: remote_ok_def)

locale log_key =
  fixes key :: "fwd_info \<Rightarrow> 'k"
  assumes key_set_state [simp]: "key (fi_set_state now st fi) = key fi"
begin

definition view_fwd :: "fwd_log \<Rightarrow> 'k \<Rightarrow> fwd_state option" where
  "view_fwd log k = map_option fi_state (find (\<lambda>fi. key fi = k) log)"

definition view :: "fwd_log \<Rightarrow> 'k \<Rightarrow> fwd_state option" where
  "view log = view_fwd (rev log)"

definition remotes_ok :: "naming \<Rightarrow> ('k \<Rightarrow> eid) \<Rightarrow> fwd_log \<Rightarrow> bool" where
  "remotes_ok nm remotes log \<longleftrightarrow> (\<forall>fi\<in>set log. remote_ok nm (remotes (key fi)) fi)"

lemma view_Nil [simp]: "view [] = Map.empty"
  by (simp add: view_def view_fwd_def fun_eq_iff)

lemma view_fwd_Cons [simp]: "view_fwd (fi # log) = (view_fwd log)(key fi \<mapsto> fi_state fi)"
  by (simp add: view_fwd_def fun_eq_iff)

lemma view_snoc [simp]: "view (log @ [fi]) = (view log)(key fi \<mapsto> fi_state fi)"
  by (simp add: view_def)

lemma remotes_ok_Nil [simp]: "remotes_ok nm remotes []"
  by (simp add: remotes_ok_def)

lemma remotes_ok_snoc [simp]:
  "remotes_ok nm remotes (log @ [fi]) \<longleftrightarrow> remotes_ok nm remotes log \<and> remote_ok nm (remotes (key fi)) fi"
  by (auto simp: remotes_ok_def)

lemma view_find: "view log k = map_option fi_state (find (\<lambda>fi. key fi = k) (rev log))"
  by (simp add: view_def view_fwd_def)

text \<open>The search for the last entry of a key, with its assertion.\<close>

lemma latest_ok:
  assumes "remotes_ok nm remotes log" "remotes k = e"
  shows "(case find (\<lambda>fi. key fi = k) (rev log) of
            None \<Rightarrow> Inr None
          | Some fi \<Rightarrow> bindR (assertR (remote_ok nm e fi)) (\<lambda>_. Inr (Some fi))) =
         Inr (find (\<lambda>fi. key fi = k) (rev log))"
  using assms by (auto simp: remotes_ok_def dest!: find_SomeD split: option.split)

lemma update_first_view:
  assumes "\<And>fi. fi \<in> set log \<Longrightarrow> key fi = k \<Longrightarrow> f fi = Inr (fi_set_state now st fi)"
  shows "\<exists>log'. update_first (\<lambda>fi. key fi = k) f log = Inr (view_fwd log k \<noteq> None, log') \<and>
    view_fwd log' = (if view_fwd log k = None then view_fwd log else (view_fwd log)(k \<mapsto> st)) \<and>
    (\<forall>fi'\<in>set log'. \<exists>fi\<in>set log. fi' = fi \<or> fi' = fi_set_state now st fi)"
  using assms
proof (induction log)
  case Nil
  then show ?case by (simp add: view_fwd_def)
next
  case (Cons fi log)
  show ?case
  proof (cases "key fi = k")
    case True
    then show ?thesis
      using Cons.prems [of fi] by (intro exI [of _ "fi_set_state now st fi # log"]) auto
  next
    case False
    obtain log' where "update_first (\<lambda>fi. key fi = k) f log = Inr (view_fwd log k \<noteq> None, log')"
      "view_fwd log' = (if view_fwd log k = None then view_fwd log else (view_fwd log)(k \<mapsto> st))"
      "\<forall>fi'\<in>set log'. \<exists>fi\<in>set log. fi' = fi \<or> fi' = fi_set_state now st fi"
      using Cons.IH Cons.prems by auto
    then show ?thesis
      using False by (intro exI [of _ "fi # log'"]) (auto simp: fun_upd_twist)
  qed
qed

lemma update_last_view:
  assumes "\<And>fi. fi \<in> set log \<Longrightarrow> key fi = k \<Longrightarrow> f fi = Inr (fi_set_state now st fi)"
  obtains log' where "update_last (\<lambda>fi. key fi = k) f log = Inr (view log k \<noteq> None, log')"
    "view log' = (if view log k = None then view log else (view log)(k \<mapsto> st))"
    "\<And>fi'. fi' \<in> set log' \<Longrightarrow> \<exists>fi\<in>set log. fi' = fi \<or> fi' = fi_set_state now st fi"
proof -
  obtain log' where "update_first (\<lambda>fi. key fi = k) f (rev log) = Inr (view log k \<noteq> None, log')"
    "view_fwd log' = (if view log k = None then view log else (view log)(k \<mapsto> st))"
    "\<forall>fi'\<in>set log'. \<exists>fi\<in>set log. fi' = fi \<or> fi' = fi_set_state now st fi"
    using update_first_view [of "rev log" k f now st] assms by (auto simp: view_def)
  then show ?thesis
    by (intro that [of "rev log'"]) (auto simp: update_last_def view_def)
qed

lemma remotes_ok_changed:
  assumes "remotes_ok nm remotes log" "\<And>fi'. fi' \<in> set log' \<Longrightarrow> \<exists>fi\<in>set log. fi' = fi \<or> fi' = fi_set_state now st fi"
  shows "remotes_ok nm remotes log'"
  unfolding remotes_ok_def
proof
  fix fi' assume "fi' \<in> set log'"
  then obtain fi where "fi \<in> set log" "fi' = fi \<or> fi' = fi_set_state now st fi"
    using assms(2) by blast
  then show "remote_ok nm (remotes (key fi')) fi'"
    using assms(1) by (auto simp: remotes_ok_def)
qed

lemma view_update_all: "view (update_all now old new log) = map_option (\<lambda>st. if st = old then new else st) \<circ> view log"
  by (induction log rule: rev_induct) (auto simp: update_all_def fun_eq_iff)

lemma remotes_ok_update_all: "remotes_ok nm remotes log \<Longrightarrow> remotes_ok nm remotes (update_all now old new log)"
  by (auto simp: remotes_ok_def update_all_def)

end

interpretation by_name: log_key fi_link_name
  by unfold_locales simp

interpretation by_reg: log_key fi_regid
  by unfold_locales simp

lemma get_latest_link_eq:
  assumes "by_name.remotes_ok nm remotes log" "remotes (lk_name lk) = lk_remote_eid lk"
  shows "get_latest_link nm lk log = Inr (find (\<lambda>fi. fi_link_name fi = lk_name lk) (rev log))"
  by (simp add: get_latest_link_def by_name.latest_ok [OF assms])

lemma get_latest_state_link_eq:
  assumes "by_name.remotes_ok nm remotes log" "remotes (lk_name lk) = lk_remote_eid lk"
  shows "get_latest_state_link nm lk log = Inr (case by_name.view log (lk_name lk) of None \<Rightarrow> FWD_NONE | Some st \<Rightarrow> st)"
  by (simp add: get_latest_state_link_def get_latest_link_eq [OF assms] latest_state_def by_name.view_find split: option.split)

lemma get_latest_state_reg_eq:
  assumes "by_reg.remotes_ok nm remotes log" "remotes (rg_regid reg) = rg_endpoint reg"
  shows "get_latest_state_reg nm reg log = Inr (case by_reg.view log (rg_regid reg) of None \<Rightarrow> FWD_NONE | Some st \<Rightarrow> st)"
  by (simp add: get_latest_state_reg_def get_latest_reg_def by_reg.latest_ok [OF assms] latest_state_def by_reg.view_find
      split: option.split)

lemma add_entry_link_ok:
  "by_name.remotes_ok nm remotes log \<Longrightarrow> remotes (lk_name lk) = lk_remote_eid lk \<Longrightarrow>
     by_name.remotes_ok nm remotes (fst (add_entry_link now lk a st spec log))"
  "by_name.view (fst (add_entry_link now lk a st spec log)) = (by_name.view log)(lk_name lk \<mapsto> st)"
  by (simp_all add: add_entry_link_def)

lemma update_link_ok:
  assumes "by_name.remotes_ok nm remotes log" "remotes (lk_name lk) = lk_remote_eid lk"
  obtains log' where "update_link nm now lk st log = Inr (by_name.view log (lk_name lk) \<noteq> None, log')"
    "by_name.view log' = (if by_name.view log (lk_name lk) = None then by_name.view log else (by_name.view log)(lk_name lk \<mapsto> st))"
    "by_name.remotes_ok nm remotes log'"
proof (rule by_name.update_last_view [of log "lk_name lk"
      "\<lambda>fi. bindR (assertR (remote_ok nm (lk_remote_eid lk) fi)) (\<lambda>_. Inr (fi_set_state now st fi))" now st])
  show "bindR (assertR (remote_ok nm (lk_remote_eid lk) fi)) (\<lambda>_. Inr (fi_set_state now st fi)) = Inr (fi_set_state now st fi)"
    if "fi \<in> set log" "fi_link_name fi = lk_name lk" for fi
    using that assms by (auto simp: by_name.remotes_ok_def)
qed (rule that, simp add: update_link_def, assumption, rule by_name.remotes_ok_changed [OF assms(1)], blast)

lemma update_reg_ok:
  obtains log' where "update_reg now reg st log = Inr (by_reg.view log (rg_regid reg) \<noteq> None, log')"
    "by_reg.view log' = (if by_reg.view log (rg_regid reg) = None then by_reg.view log else (by_reg.view log)(rg_regid reg \<mapsto> st))"
    "\<And>fi'. fi' \<in> set log' \<Longrightarrow> \<exists>fi\<in>set log. fi' = fi \<or> fi' = fi_set_state now st fi"
  by (rule by_reg.update_last_view [of log "rg_regid reg" "\<lambda>fi. Inr (fi_set_state now st fi)" now st])
    (rule refl, rule that, simp_all add: update_reg_def)

subsection \<open>A run of the log\<close>

datatype log_op =
    AddLink link fwd_action fwd_state custody_spec
  | AddEid eid fwd_action fwd_state
  | Update link fwd_state
  | UpdateAll fwd_state fwd_state
  | Clear

fun log_exec :: "naming \<Rightarrow> time \<Rightarrow> log_op \<Rightarrow> fwd_log \<Rightarrow> fwd_log res" where
  "log_exec nm now (AddLink lk action st spec) log = Inr (fst (add_entry_link now lk action st spec log))"
| "log_exec nm now (AddEid e action st) log = Inr (add_entry_eid now e action st log)"
| "log_exec nm now (Update lk st) log = bindR (update_link nm now lk st log) (\<lambda>(ok, log). Inr log)"
| "log_exec nm now (UpdateAll old new) log = Inr (update_all now old new log)"
| "log_exec nm now Clear log = Inr (fwdlog_clear log)"

fun log_run :: "naming \<Rightarrow> (time \<times> log_op) list \<Rightarrow> fwd_log \<Rightarrow> fwd_log res" where
  "log_run nm [] log = Inr log"
| "log_run nm ((now, op) # ops) log = bindR (log_exec nm now op log) (log_run nm ops)"

text \<open>The same operations on a map from names to states.\<close>

fun map_exec :: "log_op \<Rightarrow> (bytes \<Rightarrow> fwd_state option) \<Rightarrow> bytes \<Rightarrow> fwd_state option" where
  "map_exec (AddLink lk action st spec) m = m(lk_name lk \<mapsto> st)"
| "map_exec (AddEid e action st) m = m(eid_link_name e \<mapsto> st)"
| "map_exec (Update lk st) m = (if m (lk_name lk) = None then m else m(lk_name lk \<mapsto> st))"
| "map_exec (UpdateAll old new) m = map_option (\<lambda>st. if st = old then new else st) \<circ> m"
| "map_exec Clear m = Map.empty"

definition map_run :: "(time \<times> log_op) list \<Rightarrow> (bytes \<Rightarrow> fwd_state option) \<Rightarrow> bytes \<Rightarrow> fwd_state option" where
  "map_run ops = fold (\<lambda>p. map_exec (snd p)) ops"

fun op_ok :: "(bytes \<Rightarrow> eid) \<Rightarrow> log_op \<Rightarrow> bool" where
  "op_ok remotes (AddLink lk action st spec) \<longleftrightarrow> remotes (lk_name lk) = lk_remote_eid lk"
| "op_ok remotes (AddEid e action st) \<longleftrightarrow> remotes (eid_link_name e) = e"
| "op_ok remotes (Update lk st) \<longleftrightarrow> remotes (lk_name lk) = lk_remote_eid lk"
| "op_ok remotes _ \<longleftrightarrow> True"

lemma log_exec_ok:
  assumes "by_name.remotes_ok nm remotes log" "op_ok remotes op"
  shows "\<exists>log'. log_exec nm now op log = Inr log' \<and> by_name.view log' = map_exec op (by_name.view log) \<and>
    by_name.remotes_ok nm remotes log'"
proof (cases op)
  case (Update lk st)
  then show ?thesis
    using assms by (auto elim!: update_link_ok [of nm remotes log lk now st])
next
  case (UpdateAll old new)
  then show ?thesis
    using assms(1) by (simp add: by_name.view_update_all by_name.remotes_ok_update_all)
qed (use assms in \<open>simp_all add: add_entry_link_ok add_entry_eid_def fwdlog_clear_def\<close>)

lemma log_run_ok:
  assumes "by_name.remotes_ok nm remotes log" "\<forall>p\<in>set ops. op_ok remotes (snd p)"
  shows "\<exists>log'. log_run nm ops log = Inr log' \<and> by_name.view log' = map_run ops (by_name.view log) \<and>
    by_name.remotes_ok nm remotes log'"
  using assms
proof (induction ops arbitrary: log)
  case Nil
  then show ?case by (simp add: map_run_def)
next
  case (Cons p ops)
  obtain log1 where log1: "log_exec nm (fst p) (snd p) log = Inr log1" "by_name.view log1 = map_exec (snd p) (by_name.view log)"
    "by_name.remotes_ok nm remotes log1"
    using log_exec_ok [OF Cons.prems(1), of "snd p" "fst p"] Cons.prems(2) by auto
  show ?case
    using Cons.IH [OF log1(3)] Cons.prems(2) log1(1,2) by (cases p) (simp add: map_run_def)
qed

text \<open>
  The number of entries in a set of states: every entry is in one state, so that the counts of
  disjoint sets add up.
\<close>

lemma get_count_zero: "get_count sts acts log = 0 \<longleftrightarrow> (\<forall>fi\<in>set log. \<not> fi_matches sts acts fi)"
  by (simp add: get_count_def filter_empty_conv)

lemma get_count_eid_zero:
  "get_count_eid nm e sts acts log = 0 \<longleftrightarrow>
     (\<forall>fi\<in>set log. eid_equals (fi_remote_eid fi) (WILDCARD_EID nm) \<or> eid_equals (fi_remote_eid fi) e \<longrightarrow>
        \<not> fi_matches sts acts fi)"
  by (auto simp: get_count_eid_def filter_empty_conv)

lemma state_matches:
  "fwd_state_code a AND (fwd_state_code TRANSMITTED OR fwd_state_code QUEUED) \<noteq> 0 \<longleftrightarrow> a \<in> {TRANSMITTED, QUEUED}"
  "fwd_state_code a AND (fwd_state_code TRANSMITTED OR fwd_state_code DELIVERED) \<noteq> 0 \<longleftrightarrow> a \<in> {TRANSMITTED, DELIVERED}"
  "fwd_state_code a AND fwd_state_code SUPPRESSED \<noteq> 0 \<longleftrightarrow> a = SUPPRESSED"
  by (cases a; simp)+

lemma fi_matches_iff:
  "fi_matches (fwd_state_code TRANSMITTED OR fwd_state_code QUEUED) acts fi \<longleftrightarrow>
     fi_state fi \<in> {TRANSMITTED, QUEUED} \<and> fwd_action_code (fi_action fi) AND acts \<noteq> 0"
  "fi_matches (fwd_state_code TRANSMITTED OR fwd_state_code DELIVERED) acts fi \<longleftrightarrow>
     fi_state fi \<in> {TRANSMITTED, DELIVERED} \<and> fwd_action_code (fi_action fi) AND acts \<noteq> 0"
  "fi_matches (fwd_state_code SUPPRESSED) acts fi \<longleftrightarrow>
     fi_state fi = SUPPRESSED \<and> fwd_action_code (fi_action fi) AND acts \<noteq> 0"
  by (simp_all only: fi_matches_def state_matches)

lemma action_matches [simp]:
  "fwd_action_code a AND ANY_ACTION \<noteq> 0 \<longleftrightarrow> a \<noteq> INVALID_ACTION"
  "fwd_action_code a AND fwd_action_code b \<noteq> 0 \<longleftrightarrow> a = b \<and> a \<noteq> INVALID_ACTION"
  by (cases a; simp add: ANY_ACTION_def) (cases a; cases b; simp)

subsection \<open>Properties\<close>


definition sample_log_link :: link where
  "sample_log_link = link_new simple_naming default_params 1 2 (lit ''a'') ONDEMAND (lit ''tcp'') (lit ''host'')"

definition sample_log_ops :: "(time \<times> log_op) list" where
  "sample_log_ops =
     [((1, 0), AddLink sample_log_link FORWARD_ACTION QUEUED custody_defaults),
      ((2, 0), AddEid (NULL_EID simple_naming) FORWARD_ACTION SUPPRESSED),
      ((3, 0), Update sample_log_link TRANSMITTED)]"


text \<open>
  The custody timer. Without overflow it is the minimum plus the given percentage of the
  lifetime, and at most the maximum when there is one.
\<close>

theorem custody_timeout_bounds:
  assumes "unat (cs_min spec) + unat (cs_lifetime_pct spec) * unat expiration div 100 < 2 ^ 32"
  shows "\<exists>t. calculate_timeout spec expiration = Inr t \<and>
    unat t = (let n = unat (cs_min spec) + unat (cs_lifetime_pct spec) * unat expiration div 100
              in if cs_max spec = 0 then n else min n (unat (cs_max spec)))"
proof -
  let ?q = "unat (cs_lifetime_pct spec) * unat expiration div 100"
  have "unat (cs_min spec + of_nat ?q) = unat (cs_min spec) + ?q"
    using assms by (simp add: unat_word_ariths unat_of_nat)
  then show ?thesis
    using assms by (simp add: calculate_timeout_def Let_def min_def word_le_nat_alt)
qed

theorem custody_timeout_bounds_witness:
  "\<exists>t. calculate_timeout custody_defaults 7200 = Inr t \<and> unat t = 3600"
  using custody_timeout_bounds [of custody_defaults 7200] by (simp add: custody_defaults_def)

end
