(* ===== verification/Naming.thy ===== *)
theory Naming
  imports PrimaryBlock
begin

text \<open>
  The naming schemes and endpoint patterns: \<open>servlib/naming/SchemeTable.cc\<close>, the scheme classes
  \<open>DTNScheme\<close>, \<open>IPNScheme\<close>, \<open>StringScheme\<close>, \<open>WildcardScheme\<close>, \<open>TCAScheme\<close> and \<open>SessionScheme\<close>, and
  \<open>EndpointID\<close> and \<open>EndpointIDPattern\<close> of \<open>EndpointID.cc\<close>. The Ethernet scheme, which exists on
  Linux only, is left out: its scheme counts as unknown, as it does on other systems.

  The URI class and the glob matcher belong to the library oasys and are the parameter \<open>uri_lib\<close>.
\<close>

record uri_lib =
  ul_parse :: "bytes \<Rightarrow> uri"
  ul_parse_pattern :: "bytes \<Rightarrow> uri"
  ul_host :: "uri \<Rightarrow> bytes"
  ul_port :: "uri \<Rightarrow> u32"
  ul_path :: "uri \<Rightarrow> bytes"
  ul_set_path :: "bytes \<Rightarrow> uri \<Rightarrow> uri"
  ul_glob :: "bytes \<Rightarrow> bytes \<Rightarrow> bool"

datatype scheme = DTN_SCHEME | IPN_SCHEME | STR_SCHEME | WILDCARD_SCHEME | TCA_SCHEME | SESSION_SCHEME

definition scheme_lookup :: "bytes \<Rightarrow> scheme option" where
  "scheme_lookup s =
     (if s = lit ''dtn'' then Some DTN_SCHEME
      else if s = lit ''ipn'' then Some IPN_SCHEME
      else if s = lit ''str'' then Some STR_SCHEME
      else if s = lit ''*'' then Some WILDCARD_SCHEME
      else if s = lit ''tca'' then Some TCA_SCHEME
      else if s = lit ''dtn-session'' then Some SESSION_SCHEME
      else None)"

subsection \<open>Numbers in ipn identifiers\<close>

text \<open>\<open>sscanf(s, "ipn://%lu/%lu", &n, &t)\<close> with both numbers 0 before: the count and the numbers.\<close>

definition scan_ipn :: "bytes \<Rightarrow> nat \<times> u64 \<times> u64" where
  "scan_ipn s =
     (if take 6 s \<noteq> lit ''ipn://'' then (0, 0, 0)
      else
        case scan_u64 (drop 6 s) of
          None \<Rightarrow> (0, 0, 0)
        | Some (n, r) \<Rightarrow>
            if r = [] \<or> hd r \<noteq> 0x2f then (1, n, 0)
            else (case scan_u64 (tl r) of None \<Rightarrow> (1, n, 0) | Some (t, _) \<Rightarrow> (2, n, t)))"

text \<open>\<open>strstr\<close>.\<close>

fun has_infix :: "bytes \<Rightarrow> bytes \<Rightarrow> bool" where
  "has_infix p [] \<longleftrightarrow> p = []"
| "has_infix p (c # s) \<longleftrightarrow> take (length p) (c # s) = p \<or> has_infix p s"

subsection \<open>Validation\<close>

definition dtn_validate :: "uri_lib \<Rightarrow> uri \<Rightarrow> bool" where
  "dtn_validate ul u \<longleftrightarrow> uri_valid u \<and> \<not> (ul_host ul u = [] \<and> uri_ssp u \<noteq> lit ''none'')"

text \<open>The first \<open>sscanf\<close> returns \<open>EOF\<close>, which counts as true, when only white space is left.\<close>

definition ipn_validate :: "uri \<Rightarrow> bool" where
  "ipn_validate u \<longleftrightarrow>
     (let temp = drop 2 (takeWhile (\<lambda>c. c \<noteq> 0) (uri_ssp u))
      in uri_valid u \<and> length (uri_ssp u) \<ge> 3 \<and> strncmp_eq (uri_ssp u) (lit ''//'') 2 \<and>
         (scan_u64 temp \<noteq> None \<or> (\<forall>c\<in>set temp. is_space c)))"

definition str_validate :: "uri \<Rightarrow> bool" where
  "str_validate u \<longleftrightarrow> uri_ssp u \<noteq> []"

definition wildcard_validate :: "uri \<Rightarrow> bool \<Rightarrow> bool" where
  "wildcard_validate u is_pattern \<longleftrightarrow> is_pattern \<and> uri_ssp u = lit ''*''"

definition tca_validate :: "uri \<Rightarrow> bool" where
  "tca_validate u \<longleftrightarrow> uri_valid u"

definition session_validate :: "uri_lib \<Rightarrow> uri \<Rightarrow> bool \<Rightarrow> bool" where
  "session_validate ul u is_pattern \<longleftrightarrow> uri_valid u \<and> (is_pattern \<or> uri_valid (ul_parse ul (uri_ssp u)))"

fun scheme_validate :: "uri_lib \<Rightarrow> scheme \<Rightarrow> bool \<Rightarrow> uri \<Rightarrow> bool" where
  "scheme_validate ul DTN_SCHEME is_pattern u = dtn_validate ul u"
| "scheme_validate ul IPN_SCHEME is_pattern u = ipn_validate u"
| "scheme_validate ul STR_SCHEME is_pattern u = str_validate u"
| "scheme_validate ul WILDCARD_SCHEME is_pattern u = wildcard_validate u is_pattern"
| "scheme_validate ul TCA_SCHEME is_pattern u = tca_validate u"
| "scheme_validate ul SESSION_SCHEME is_pattern u = session_validate ul u is_pattern"

text \<open>The parameter of the rest of the model, for identifiers and for patterns.\<close>

definition scheme_naming :: "uri_lib \<Rightarrow> naming" where
  "scheme_naming ul = \<lparr>parse_uri = ul_parse ul,
     lookup_scheme = (\<lambda>s. map_option (\<lambda>sch. scheme_validate ul sch False) (scheme_lookup s))\<rparr>"

definition pattern_naming :: "uri_lib \<Rightarrow> naming" where
  "pattern_naming ul = \<lparr>parse_uri = ul_parse_pattern ul,
     lookup_scheme = (\<lambda>s. map_option (\<lambda>sch. scheme_validate ul sch True) (scheme_lookup s))\<rparr>"

definition pattern_assign :: "uri_lib \<Rightarrow> bytes \<Rightarrow> eid" where
  "pattern_assign ul s = eid_assign (pattern_naming ul) s"

definition pattern_of_eid :: "uri_lib \<Rightarrow> eid \<Rightarrow> eid" where
  "pattern_of_eid ul e = eid_validate (pattern_naming ul) (eid_uri e)"

definition scheme_of :: "eid \<Rightarrow> scheme option" where
  "scheme_of e = (if eid_known e then scheme_lookup (eid_scheme e) else None)"

subsection \<open>Matching\<close>

definition dtn_match :: "uri_lib \<Rightarrow> eid \<Rightarrow> eid \<Rightarrow> bool" where
  "dtn_match ul p e =
     (let pu = eid_uri p; eu = eid_uri e; glob2 = (\<lambda>a b. ul_glob ul a b \<or> ul_glob ul b a)
      in if scheme_of e \<noteq> Some DTN_SCHEME then False
         else if uri_ssp pu = lit ''none'' \<or> uri_ssp eu = lit ''none'' then False
         else if ul_host ul pu = lit ''*'' \<and> ul_path ul pu = [] then True
         else if \<not> glob2 (ul_host ul pu) (ul_host ul eu) then False
         else if ul_port ul pu \<noteq> ul_port ul eu then False
         else
           let path = ul_path ul pu; n = length path - 2;
               path = (if length path \<ge> 2 \<and> drop n path = lit ''/*'' then take n path @ lit ''*'' else path)
           in glob2 path (ul_path ul eu))"

definition ipn_match :: "eid \<Rightarrow> eid \<Rightarrow> bool" where
  "ipn_match p e =
     (case (scan_ipn (c_str e), scan_ipn (c_str p)) of
        ((flag_s, eid_n, eid_s), (flag_p, pattern_n, pattern_s)) \<Rightarrow>
          if c_str e = lit ''dtn:none'' then False
          else if flag_p < 1 \<or> flag_s < 1 then False
          else if pattern_n = eid_n then flag_p = flag_s \<and> pattern_s = eid_s \<or> has_infix (lit ''/*'') (c_str p)
          else False)"

definition str_match :: "eid \<Rightarrow> eid \<Rightarrow> bool" where
  "str_match p e \<longleftrightarrow> eid_str p = eid_str e"

definition tca_match :: "uri_lib \<Rightarrow> eid \<Rightarrow> eid \<Rightarrow> bool" where
  "tca_match ul p e =
     (let pu = eid_uri p; eu = eid_uri e; pp = ul_path ul pu; n = length pp - 1
      in if scheme_of e \<noteq> Some TCA_SCHEME then False
         else if uri_ssp pu = lit ''none'' \<or> uri_ssp eu = lit ''none'' then False
         else if ul_host ul pu = lit ''*'' \<and> pp = [] then True
         else if ul_host ul pu \<noteq> lit ''*'' \<and> ul_host ul eu \<noteq> lit ''*'' \<and> ul_host ul pu \<noteq> ul_host ul eu then False
         else if ul_port ul pu \<noteq> ul_port ul eu then False
         else if pp = lit ''*'' \<or> pp = ul_path ul eu then True
         else pp \<noteq> [] \<and> drop n pp = lit ''*'' \<and> take n pp = take n (ul_path ul eu))"

definition session_match :: "uri_lib \<Rightarrow> eid \<Rightarrow> eid \<Rightarrow> bool" where
  "session_match ul p e \<longleftrightarrow> scheme_of e = Some SESSION_SCHEME \<and> ul_glob ul (eid_ssp p) (eid_ssp e)"

fun scheme_match :: "uri_lib \<Rightarrow> scheme \<Rightarrow> eid \<Rightarrow> eid \<Rightarrow> bool" where
  "scheme_match ul DTN_SCHEME p e = dtn_match ul p e"
| "scheme_match ul IPN_SCHEME p e = ipn_match p e"
| "scheme_match ul STR_SCHEME p e = str_match p e"
| "scheme_match ul WILDCARD_SCHEME p e = True"
| "scheme_match ul TCA_SCHEME p e = tca_match ul p e"
| "scheme_match ul SESSION_SCHEME p e = session_match ul p e"

text \<open>\<open>EndpointIDPattern::match\<close>, with \<open>glob_unknown_schemes_\<close> as its first argument.\<close>

definition pattern_match :: "uri_lib \<Rightarrow> bool \<Rightarrow> eid \<Rightarrow> eid \<Rightarrow> bool" where
  "pattern_match ul glob_unknown p e =
     (if \<not> uri_valid (eid_uri p) then False
      else if \<not> uri_valid (eid_uri e) then False
      else
        case scheme_of p of
          Some sch \<Rightarrow> scheme_match ul sch p e
        | None \<Rightarrow> if glob_unknown then ul_glob ul (c_str p) (c_str e) else eid_equals p e)"

subsection \<open>Service tags\<close>

text \<open>The result says whether the identifier was changed as asked; it may be changed even if not.\<close>

definition after_change :: "eid \<Rightarrow> uri option \<Rightarrow> bool \<times> eid" where
  "after_change e r = (case r of None \<Rightarrow> (False, e) | Some u \<Rightarrow> (uri_valid u, e\<lparr>eid_uri := u\<rparr>))"

definition tag_path :: "bytes \<Rightarrow> bytes" where
  "tag_path tag = (if tag = [] \<or> hd tag \<noteq> 0x2f then lit ''/'' @ tag else tag)"

definition append_service_tag :: "uri_lib \<Rightarrow> bytes \<Rightarrow> eid \<Rightarrow> bool \<times> eid" where
  "append_service_tag ul tag e =
     after_change e
       (case scheme_of e of
          Some DTN_SCHEME \<Rightarrow> Some (ul_set_path ul (tag_path tag) (eid_uri e))
        | Some TCA_SCHEME \<Rightarrow> Some (ul_set_path ul (tag_path tag) (eid_uri e))
        | Some IPN_SCHEME \<Rightarrow> if scan_u64 tag = None then None else Some (ul_set_path ul (tag_path tag) (eid_uri e))
        | _ \<Rightarrow> None)"

definition append_service_wildcard :: "uri_lib \<Rightarrow> eid \<Rightarrow> bool \<times> eid" where
  "append_service_wildcard ul e =
     after_change e
       (case scheme_of e of
          Some DTN_SCHEME \<Rightarrow> if ul_path ul (eid_uri e) \<noteq> [] then None else Some (ul_set_path ul (lit ''/*'') (eid_uri e))
        | _ \<Rightarrow> None)"

definition remove_service_tag :: "uri_lib \<Rightarrow> eid \<Rightarrow> bool \<times> eid" where
  "remove_service_tag ul e =
     after_change e
       (case scheme_of e of
          Some DTN_SCHEME \<Rightarrow> Some (ul_set_path ul [] (eid_uri e))
        | Some IPN_SCHEME \<Rightarrow> Some (ul_set_path ul [] (eid_uri e))
        | _ \<Rightarrow> None)"

datatype singleton_info = UNKNOWN_SINGLETON | SINGLETON | MULTINODE

definition is_singleton :: "uri_lib \<Rightarrow> singleton_info \<Rightarrow> eid \<Rightarrow> singleton_info" where
  "is_singleton ul dflt e =
     (case scheme_of e of
        None \<Rightarrow> dflt
      | Some DTN_SCHEME \<Rightarrow> if 0x2a \<in> set (ul_host ul (eid_uri e)) then MULTINODE else SINGLETON
      | Some TCA_SCHEME \<Rightarrow> if 0x2a \<in> set (ul_host ul (eid_uri e)) then MULTINODE else SINGLETON
      | Some WILDCARD_SCHEME \<Rightarrow> MULTINODE
      | _ \<Rightarrow> SINGLETON)"

subsection \<open>Identifiers of the ipn scheme\<close>

text \<open>The canonical text of a node, and of a service of a node.\<close>

definition ipn_text :: "nat \<Rightarrow> nat option \<Rightarrow> bytes" where
  "ipn_text n t = lit ''ipn://'' @ dec n @ (case t of None \<Rightarrow> [] | Some t \<Rightarrow> lit ''/'' @ dec t)"

lemma ipn_literals [simp]:
  "lit ''ipn://'' = [105, 112, 110, 58, 47, 47]" "lit ''/'' = [47]" "lit ''/*'' = [47, 42]" "lit ''*'' = [42]"
  by (simp_all add: lit_def)

lemma slash_no_digit [simp]: "\<not> is_digit 47" "\<not> is_digit 42" "\<not> is_digit 0"
  by (simp_all add: is_digit_def)

lemma scan_ipn_text:
  "n < 2 ^ 64 \<Longrightarrow> scan_ipn (ipn_text n None) = (1, of_nat n, 0)"
  "n < 2 ^ 64 \<Longrightarrow> t < 2 ^ 64 \<Longrightarrow> scan_ipn (ipn_text n (Some t)) = (2, of_nat n, of_nat t)"
  "n < 2 ^ 64 \<Longrightarrow> scan_ipn (ipn_text n None @ lit ''/*'') = (1, of_nat n, 0)"
  using scan_dec [of n "[]"] scan_dec [of n "47 # dec t"] scan_dec [of n "[47, 42]"] scan_dec [of t "[]"]
  by (simp_all add: scan_ipn_def ipn_text_def scan_u64_def [of "[42]"] is_space_def)

lemma ipn_text_no_nul: "0 \<notin> set (ipn_text n t)" "42 \<notin> set (ipn_text n t)"
  using dec_no_nul by (auto simp: ipn_text_def split: option.splits)

lemma takeWhile_no_nul: "0 \<notin> set s \<Longrightarrow> takeWhile (\<lambda>c. c \<noteq> 0) s = (s :: bytes)"
  by (simp add: takeWhile_eq_all_conv) metis

lemma has_infix_subset: "has_infix p s \<Longrightarrow> set p \<subseteq> set s"
proof (induction s)
  case (Cons c s)
  then show ?case
    using set_take_subset [of "length p" "c # s"] by auto
qed simp

lemma has_infix_append: "has_infix p (s @ p)"
  by (induction s) (cases p, auto)

lemma of_nat_u64_eq: "n < 2 ^ 64 \<Longrightarrow> m < 2 ^ 64 \<Longrightarrow> (of_nat n :: u64) = of_nat m \<longleftrightarrow> n = m"
  by (simp add: word_unat_eq_iff unat_of_nat)

subsection \<open>Properties\<close>

text \<open>
  What the matching of the scheme \<open>dtn\<close> takes from the library: an empty path can be replaced by
  \<open>/*\<close> without changing the other parts of a URI with a host, a URI with that path is not \<open>none\<close>,
  and the matcher of globs accepts equal strings and matches a lone asterisk with everything.
\<close>

definition uri_laws :: "uri_lib \<Rightarrow> bool" where
  "uri_laws ul \<longleftrightarrow>
     (\<forall>u. uri_valid u \<and> ul_host ul u \<noteq> [] \<and> ul_path ul u = [] \<longrightarrow>
        (let v = ul_set_path ul (lit ''/*'') u
         in ul_host ul v = ul_host ul u \<and> ul_port ul v = ul_port ul u \<and> ul_path ul v = lit ''/*'' \<and>
            uri_scheme v = uri_scheme u \<and> uri_ssp v \<noteq> lit ''none'')) \<and>
     (\<forall>s. ul_glob ul s s) \<and> (\<forall>s. ul_glob ul (lit ''*'') s)"

text \<open>
  The pattern that a node's endpoint with a service wildcard gives matches every endpoint of that
  node: the same host and port, with any path.
\<close>

theorem service_wildcard_matches:
  assumes "uri_laws ul" and "append_service_wildcard ul n = (True, p)"
    and "uri_valid (eid_uri n)" "ul_host ul (eid_uri n) \<noteq> []"
    and "scheme_of e = Some DTN_SCHEME" "uri_valid (eid_uri e)" "eid_ssp e \<noteq> lit ''none''"
    and "ul_host ul (eid_uri e) = ul_host ul (eid_uri n)" "ul_port ul (eid_uri e) = ul_port ul (eid_uri n)"
  shows "pattern_match ul g p e"
proof -
  let ?u = "ul_set_path ul (lit ''/*'') (eid_uri n)"
  have p: "scheme_of n = Some DTN_SCHEME" "p = n\<lparr>eid_uri := ?u\<rparr>" "uri_valid ?u" "ul_path ul (eid_uri n) = []"
    using assms(2)
    by (auto simp: append_service_wildcard_def after_change_def split: option.splits scheme.splits if_splits)
  have laws: "ul_host ul ?u = ul_host ul (eid_uri n)" "ul_port ul ?u = ul_port ul (eid_uri n)" "ul_path ul ?u = lit ''/*''"
    "uri_scheme ?u = eid_scheme n" "uri_ssp ?u \<noteq> lit ''none''"
    and glob: "\<forall>s. ul_glob ul s s" "\<forall>s. ul_glob ul (lit ''*'') s"
    using assms(1,3,4) p(4) unfolding uri_laws_def Let_def by blast+
  have "scheme_of p = Some DTN_SCHEME"
    using p(1) laws(4) by (simp add: scheme_of_def p(2) split: if_splits)
  then show ?thesis
    using p(2,3) assms(5-9) laws glob by (simp add: pattern_match_def dtn_match_def Let_def)
qed

text \<open>
  A simple URI library: the text after two characters is the host up to the next slash, the rest is
  the path; globs are equality except for the lone asterisk.
\<close>

definition simple_uri_lib :: uri_lib where
  "simple_uri_lib = \<lparr>ul_parse = simple_parse, ul_parse_pattern = simple_parse,
     ul_host = (\<lambda>u. takeWhile (\<lambda>c. c \<noteq> 0x2f) (drop 2 (uri_ssp u))), ul_port = (\<lambda>_. 0),
     ul_path = (\<lambda>u. dropWhile (\<lambda>c. c \<noteq> 0x2f) (drop 2 (uri_ssp u))),
     ul_set_path = (\<lambda>p u. u\<lparr>uri_ssp := take 2 (uri_ssp u) @ takeWhile (\<lambda>c. c \<noteq> 0x2f) (drop 2 (uri_ssp u)) @ p\<rparr>),
     ul_glob = (\<lambda>p s. p = lit ''*'' \<or> p = s)\<rparr>"

lemma simple_uri_laws: "uri_laws simple_uri_lib"
proof -
  have "dropWhile (\<lambda>c. c \<noteq> 0x2f) (takeWhile (\<lambda>c. c \<noteq> 0x2f) s @ [47, 42]) = [47, 42]"
    "takeWhile (\<lambda>c. c \<noteq> 0x2f) (takeWhile (\<lambda>c. c \<noteq> 0x2f) s @ [47, 42]) = takeWhile (\<lambda>c. c \<noteq> 0x2f) s" for s :: bytes
    by (induction s) simp_all
  moreover have "xs @ ys @ [47, 42] \<noteq> lit ''none''" for xs ys
    by (simp add: lit_def append_eq_Cons_conv)
  moreover have "min (length s) 2 = 2" if "takeWhile P (drop 2 s) \<noteq> []" for s :: bytes and P
    using that by (cases "length s \<le> 2") auto
  ultimately show ?thesis
    by (auto simp: uri_laws_def simple_uri_lib_def Let_def)
qed

definition dtn_eid :: "string \<Rightarrow> eid" where
  "dtn_eid s = \<lparr>eid_uri = simple_parse (lit s), eid_known = True, eid_valid = True\<rparr>"

theorem service_wildcard_matches_witness:
  "\<exists>p. append_service_wildcard simple_uri_lib (dtn_eid ''dtn://a'') = (True, p) \<and>
    pattern_match simple_uri_lib True p (dtn_eid ''dtn://a/x'')"
proof -
  have known: "scheme_of (dtn_eid ''dtn://a'') = Some DTN_SCHEME" "scheme_of (dtn_eid ''dtn://a/x'') = Some DTN_SCHEME"
    by (simp_all add: scheme_of_def dtn_eid_def simple_parse_def scheme_lookup_def lit_def Let_def)
  obtain p where p: "append_service_wildcard simple_uri_lib (dtn_eid ''dtn://a'') = (True, p)"
    using known(1)
    by (simp add: append_service_wildcard_def after_change_def dtn_eid_def simple_parse_def simple_uri_lib_def lit_def Let_def)
  have "pattern_match simple_uri_lib True p (dtn_eid ''dtn://a/x'')"
    by (rule service_wildcard_matches [OF simple_uri_laws p])
      (simp_all add: known, simp_all add: dtn_eid_def simple_parse_def simple_uri_lib_def lit_def Let_def)
  then show ?thesis
    using p by blast
qed

text \<open>
  A pattern of the scheme \<open>ipn\<close> matches exactly the same node and service, unless it ends with the
  wildcard \<open>/*\<close>, which matches the node and all its services; a node alone does not match its
  services.
\<close>

theorem ipn_match_exact:
  assumes "c_str p = ipn_text n s" "c_str w = ipn_text n None @ lit ''/*''" "c_str e = ipn_text m t"
    and "n < 2 ^ 64" "m < 2 ^ 64" "\<forall>k\<in>set_option s \<union> set_option t. k < 2 ^ 64"
  shows "(ipn_match p e \<longleftrightarrow> n = m \<and> s = t) \<and> (ipn_match w e \<longleftrightarrow> n = m)"
proof -
  have none: "ipn_text m t \<noteq> lit ''dtn:none''"
    by (simp add: ipn_text_def lit_def)
  have wild: "\<not> has_infix (lit ''/*'') (ipn_text n s)" "has_infix (lit ''/*'') (ipn_text n None @ lit ''/*'')"
    using has_infix_subset ipn_text_no_nul(2) [of n s] has_infix_append by (fastforce, blast)
  have scan: "scan_ipn (ipn_text n s) = (case s of None \<Rightarrow> (1, of_nat n, 0) | Some k \<Rightarrow> (2, of_nat n, of_nat k))"
    "scan_ipn (ipn_text m t) = (case t of None \<Rightarrow> (1, of_nat m, 0) | Some k \<Rightarrow> (2, of_nat m, of_nat k))"
    using assms(4-6) scan_ipn_text by (auto split: option.split)
  show ?thesis
    unfolding ipn_match_def assms(1-3) scan scan_ipn_text(3) [OF assms(4)]
    using none wild assms(4-6) by (auto simp: of_nat_u64_eq simp del: ipn_literals split: option.splits)
qed

theorem ipn_match_exact_witness:
  "\<exists>p e. c_str p = ipn_text 1 None \<and> c_str e = ipn_text 1 (Some 5) \<and> \<not> ipn_match p e"
proof -
  let ?e = "\<lambda>s. eid_default\<lparr>eid_uri := simple_parse s\<rparr>"
  have str: "c_str (?e s) = s" if "0 \<notin> set s" for s
    using that by (simp add: c_str_def simple_parse_def takeWhile_no_nul Let_def)
  have "\<not> ipn_match (?e (ipn_text 1 None)) (?e (ipn_text 1 (Some 5)))"
    using ipn_match_exact [OF str str str, of 1 None 1 "Some 5"] ipn_text_no_nul by simp
  then show ?thesis
    using str ipn_text_no_nul by blast
qed

declare ipn_literals [simp del]

end
