(* ===== verification/RouteTable.thy ===== *)
theory RouteTable
  imports ForwardingLog ContactManager Naming "HOL-Library.Multiset"
begin

text \<open>
  The route table: \<open>servlib/routing/RouteEntry.h\<close>, \<open>RouteEntry.cc\<close>, \<open>RouteTable.h\<close> and
  \<open>RouteTable.cc\<close>. An entry names the next hop by a link, or by another endpoint to which the lookup
  goes on. Entries are pointers, and the search compares them as such: the table has the address
  of each entry. The predicate \<open>matches\<close> is \<open>EndpointIDPattern::match\<close>.
\<close>

type_synonym route_id = nat

record route_entry =
  re_dest :: eid
  re_source :: eid
  re_cos :: u32
  re_priority :: u32
  re_link :: "link_id option"
  re_route_to :: eid
  re_action :: fwd_action
  re_custody_spec :: custody_spec

type_synonym route_table = "(route_id \<times> route_entry) list"

record router_config =
  rc_add_nexthop_routes :: bool
  rc_open_discovered_links :: bool
  rc_default_priority :: int
  rc_max_route_to_chain :: int

definition router_defaults :: router_config where
  "router_defaults = \<lparr>rc_add_nexthop_routes = True, rc_open_discovered_links = True, rc_default_priority = 0,
     rc_max_route_to_chain = 10\<rparr>"

definition route_to_link :: "naming \<Rightarrow> router_config \<Rightarrow> eid \<Rightarrow> link_id \<Rightarrow> route_entry" where
  "route_to_link nm cfg dest l =
     \<lparr>re_dest = dest, re_source = WILDCARD_EID nm, re_cos = 7, re_priority = of_int (rc_default_priority cfg),
      re_link = Some l, re_route_to = eid_default, re_action = FORWARD_ACTION, re_custody_spec = custody_defaults\<rparr>"

definition route_to_eid :: "naming \<Rightarrow> router_config \<Rightarrow> eid \<Rightarrow> eid \<Rightarrow> route_entry" where
  "route_to_eid nm cfg dest route_to =
     \<lparr>re_dest = dest, re_source = WILDCARD_EID nm, re_cos = 7, re_priority = of_int (rc_default_priority cfg),
      re_link = None, re_route_to = route_to, re_action = FORWARD_ACTION, re_custody_spec = custody_defaults\<rparr>"

subsection \<open>Changes\<close>

definition rt_add_entry :: "route_id \<Rightarrow> route_entry \<Rightarrow> route_table \<Rightarrow> route_table" where
  "rt_add_entry a e tbl = tbl @ [(a, e)]"

fun rt_del_entry :: "eid \<Rightarrow> link_id \<Rightarrow> route_table \<Rightarrow> bool \<times> route_table" where
  "rt_del_entry dest next_hop [] = (False, [])"
| "rt_del_entry dest next_hop (p # tbl) =
     (if eid_equals (re_dest (snd p)) dest \<and> re_link (snd p) = Some next_hop then (True, tbl)
      else case rt_del_entry dest next_hop tbl of (found, tbl') \<Rightarrow> (found, p # tbl'))"

text \<open>The deleted entries are set to null first and removed in a second pass.\<close>

definition rt_del_matching :: "(route_entry \<Rightarrow> bool) \<Rightarrow> route_table \<Rightarrow> nat \<times> route_table" where
  "rt_del_matching P tbl =
     (let marked = map (\<lambda>p. if P (snd p) then None else Some p) tbl
      in if None \<notin> set marked then (0, tbl)
         else let tbl' = map the (filter (\<lambda>r. r \<noteq> None) marked) in (length tbl - length tbl', tbl'))"

definition rt_del_entries :: "eid \<Rightarrow> route_table \<Rightarrow> nat \<times> route_table" where
  "rt_del_entries dest tbl = rt_del_matching (\<lambda>e. eid_equals dest (re_dest e)) tbl"

definition rt_del_nexthop :: "link_id \<Rightarrow> route_table \<Rightarrow> nat \<times> route_table" where
  "rt_del_nexthop l tbl = rt_del_matching (\<lambda>e. re_link e = Some l) tbl"

subsection \<open>Lookup\<close>

text \<open>
  \<open>get_matching_helper\<close>: the loop over the entries \<open>es\<close> that are left at a level, and the nested
  call for an entry that names another endpoint. The result is the vector of matches, the flag
  \<open>loop\<close> and the count.
\<close>

function get_matching_helper ::
  "(eid \<Rightarrow> eid \<Rightarrow> bool) \<Rightarrow> int \<Rightarrow> route_table \<Rightarrow> link_id option \<Rightarrow> nat \<Rightarrow> eid \<Rightarrow> route_table \<Rightarrow>
     route_table \<times> bool \<times> nat \<Rightarrow> (route_table \<times> bool \<times> nat) res"
where
  "get_matching_helper matches maxlevel tbl next_hop level e [] r = Inr r"
| "get_matching_helper matches maxlevel tbl next_hop level e (p # es) (vec, loop, cnt) =
     (if \<not> matches (re_dest (snd p)) e then get_matching_helper matches maxlevel tbl next_hop level e es (vec, loop, cnt)
      else
        case re_link (snd p) of
          None \<Rightarrow>
            bindR (assertR (eid_str (re_route_to (snd p)) \<noteq> [])) (\<lambda>_.
              if int level \<ge> maxlevel
              then get_matching_helper matches maxlevel tbl next_hop level e es (vec, True, cnt)
              else
                bindR (get_matching_helper matches maxlevel tbl next_hop (level + 1) (re_route_to (snd p)) tbl (vec, loop, 0))
                  (\<lambda>(vec, loop, n). get_matching_helper matches maxlevel tbl next_hop level e es (vec, loop, cnt + n)))
        | Some l \<Rightarrow>
            if next_hop = None \<or> next_hop = Some l
            then
              if fst p \<notin> fst ` set vec
              then get_matching_helper matches maxlevel tbl next_hop level e es (vec @ [p], loop, cnt + 1)
              else get_matching_helper matches maxlevel tbl next_hop level e es (vec, loop, cnt)
            else get_matching_helper matches maxlevel tbl next_hop level e es (vec, loop, cnt))"
  by pat_completeness auto
termination
  by (relation "inv_image (less_than <*lex*> less_than)
        (\<lambda>(_, maxlevel, _, _, level, _, es, _). (nat (maxlevel - int level), length es))") auto

definition get_matching ::
  "(eid \<Rightarrow> eid \<Rightarrow> bool) \<Rightarrow> router_config \<Rightarrow> eid \<Rightarrow> link_id option \<Rightarrow> route_table \<Rightarrow> (nat \<times> route_table) res"
where
  "get_matching matches cfg e next_hop tbl =
     bindR (get_matching_helper matches (rc_max_route_to_chain cfg) tbl next_hop 0 e tbl ([], False, 0))
       (\<lambda>(vec, loop, cnt). Inr (cnt, vec))"

text \<open>
  The order of \<open>RoutePrioritySort\<close>: higher priorities first, then fewer bytes in the queue of the
  link. \<open>std::sort\<close> leaves the order of equal elements open; the model keeps them as they were.
\<close>

definition route_less :: "(link_id \<Rightarrow> link) \<Rightarrow> route_entry \<Rightarrow> route_entry \<Rightarrow> bool" where
  "route_less links a b =
     (if re_priority a < re_priority b then False
      else if re_priority a > re_priority b then True
      else
        case (re_link a, re_link b) of
          (Some k, Some l) \<Rightarrow> lk_bytes_queued (links k) < lk_bytes_queued (links l)
        | _ \<Rightarrow> False)"

fun insert_route :: "(link_id \<Rightarrow> link) \<Rightarrow> route_id \<times> route_entry \<Rightarrow> route_table \<Rightarrow> route_table" where
  "insert_route links p [] = [p]"
| "insert_route links p (q # qs) =
     (if route_less links (snd p) (snd q) then p # q # qs else q # insert_route links p qs)"

definition sort_routes :: "(link_id \<Rightarrow> link) \<Rightarrow> route_table \<Rightarrow> route_table" where
  "sort_routes links tbl = fold (insert_route links) tbl []"

subsection \<open>What the lookup lookup_finds\<close>

text \<open>
  \<open>routed matches tbl k e d\<close>: following \<open>k\<close> entries without a link leads from the endpoint \<open>e\<close> to \<open>d\<close>.
\<close>

inductive routed :: "(eid \<Rightarrow> eid \<Rightarrow> bool) \<Rightarrow> route_table \<Rightarrow> nat \<Rightarrow> eid \<Rightarrow> eid \<Rightarrow> bool" for matches tbl where
  here: "routed matches tbl 0 e e"
| follow: "p \<in> set tbl \<Longrightarrow> matches (re_dest (snd p)) e \<Longrightarrow> re_link (snd p) = None \<Longrightarrow>
    routed matches tbl k (re_route_to (snd p)) d \<Longrightarrow> routed matches tbl (Suc k) e d"

inductive_simps routed_simps: "routed matches tbl 0 e d" "routed matches tbl (Suc k) e d"

definition next_hop_entry :: "(eid \<Rightarrow> eid \<Rightarrow> bool) \<Rightarrow> link_id option \<Rightarrow> eid \<Rightarrow> route_id \<times> route_entry \<Rightarrow> bool" where
  "next_hop_entry matches next_hop e p \<longleftrightarrow>
     matches (re_dest (snd p)) e \<and> (\<exists>l. re_link (snd p) = Some l \<and> (next_hop = None \<or> next_hop = Some l))"

definition route_to_entry :: "(eid \<Rightarrow> eid \<Rightarrow> bool) \<Rightarrow> eid \<Rightarrow> route_id \<times> route_entry \<Rightarrow> bool" where
  "route_to_entry matches e p \<longleftrightarrow> matches (re_dest (snd p)) e \<and> re_link (snd p) = None"

text \<open>Every entry has its own address, and an entry without a link names an endpoint.\<close>

definition table_ok :: "route_table \<Rightarrow> bool" where
  "table_ok tbl \<longleftrightarrow>
     distinct (map fst tbl) \<and> (\<forall>p\<in>set tbl. re_link (snd p) = None \<longrightarrow> eid_str (re_route_to (snd p)) \<noteq> [])"

text \<open>The matches and the flag with \<open>k\<close> more levels to go.\<close>

definition matches_found :: "(eid \<Rightarrow> eid \<Rightarrow> bool) \<Rightarrow> route_table \<Rightarrow> link_id option \<Rightarrow> nat \<Rightarrow> eid \<Rightarrow> route_table \<Rightarrow> (route_id \<times> route_entry) set" where
  "matches_found matches tbl next_hop k e es =
     {p \<in> set es. next_hop_entry matches next_hop e p} \<union>
     {p \<in> set tbl. \<exists>q\<in>set es. route_to_entry matches e q \<and>
        (\<exists>j d. j < k \<and> routed matches tbl j (re_route_to (snd q)) d \<and> next_hop_entry matches next_hop d p)}"

definition lookup_looped :: "(eid \<Rightarrow> eid \<Rightarrow> bool) \<Rightarrow> route_table \<Rightarrow> nat \<Rightarrow> eid \<Rightarrow> route_table \<Rightarrow> bool" where
  "lookup_looped matches tbl k e es \<longleftrightarrow>
     (\<exists>q\<in>set es. route_to_entry matches e q \<and>
        (if k = 0 then True
         else \<exists>d p. routed matches tbl (k - 1) (re_route_to (snd q)) d \<and> p \<in> set tbl \<and> route_to_entry matches d p))"

lemma found_all:
  "matches_found matches tbl next_hop k e tbl =
     {p \<in> set tbl. \<exists>j d. j \<le> k \<and> routed matches tbl j e d \<and> next_hop_entry matches next_hop d p}" (is "?A = ?B")
proof (intro set_eqI iffI)
  fix p assume "p \<in> ?A"
  then consider "p \<in> set tbl" "next_hop_entry matches next_hop e p"
    | q j d where "p \<in> set tbl" "q \<in> set tbl" "route_to_entry matches e q" "j < k"
        "routed matches tbl j (re_route_to (snd q)) d" "next_hop_entry matches next_hop d p"
    unfolding matches_found_def by blast
  then show "p \<in> ?B"
  proof cases
    case 1
    then show ?thesis using routed.here by blast
  next
    case 2
    then have "routed matches tbl (Suc j) e d"
      by (intro routed.follow [of q]) (simp_all add: route_to_entry_def)
    then show ?thesis using 2 Suc_leI by blast
  qed
next
  fix p assume "p \<in> ?B"
  then obtain j d where p: "p \<in> set tbl" "j \<le> k" "routed matches tbl j e d" "next_hop_entry matches next_hop d p"
    by blast
  show "p \<in> ?A"
  proof (cases j)
    case 0
    then show ?thesis using p by (simp add: matches_found_def routed_simps)
  next
    case (Suc i)
    then obtain q where q: "q \<in> set tbl" "route_to_entry matches e q" "routed matches tbl i (re_route_to (snd q)) d"
      using p(3) unfolding Suc route_to_entry_def by (auto elim: routed.cases)
    have "i < k"
      using p(2) Suc by simp
    then show ?thesis
      unfolding matches_found_def using p(1,4) q by (intro UnI2 CollectI conjI bexI [of _ q] exI [of _ i] exI [of _ d])
  qed
qed

lemma looped_all:
  "lookup_looped matches tbl k e tbl \<longleftrightarrow> (\<exists>d p. routed matches tbl k e d \<and> p \<in> set tbl \<and> route_to_entry matches d p)"
  by (cases k) (force simp: lookup_looped_def routed_simps route_to_entry_def)+

lemma found_Nil [simp]: "matches_found matches tbl next_hop k e [] = {}"
  by (simp add: matches_found_def)

lemma looped_Nil [simp]: "\<not> lookup_looped matches tbl k e []"
  by (simp add: lookup_looped_def)

lemma found_skip:
  "\<not> matches (re_dest (snd p)) e \<Longrightarrow> matches_found matches tbl next_hop k e (p # es) = matches_found matches tbl next_hop k e es"
  by (auto simp: matches_found_def next_hop_entry_def route_to_entry_def)

lemma looped_skip: "\<not> route_to_entry matches e p \<Longrightarrow> lookup_looped matches tbl k e (p # es) = lookup_looped matches tbl k e es"
  by (simp add: lookup_looped_def)

lemma found_link:
  "re_link (snd p) = Some l \<Longrightarrow> matches (re_dest (snd p)) e \<Longrightarrow>
     matches_found matches tbl next_hop k e (p # es) =
       (if next_hop = None \<or> next_hop = Some l then insert p (matches_found matches tbl next_hop k e es)
        else matches_found matches tbl next_hop k e es)"
  by (auto simp: matches_found_def next_hop_entry_def route_to_entry_def)

lemma route_to_no_hop: "route_to_entry matches e p \<Longrightarrow> \<not> next_hop_entry matches next_hop e p"
  by (simp add: route_to_entry_def next_hop_entry_def)

lemma found_route_to:
  assumes "route_to_entry matches e p"
  shows "matches_found matches tbl next_hop 0 e (p # es) = matches_found matches tbl next_hop 0 e es"
    "matches_found matches tbl next_hop (Suc k) e (p # es) =
       matches_found matches tbl next_hop k (re_route_to (snd p)) tbl \<union> matches_found matches tbl next_hop (Suc k) e es"
proof -
  have no: "\<not> next_hop_entry matches next_hop e p"
    by (rule route_to_no_hop [OF assms])
  then have set: "{q \<in> set (p # es). next_hop_entry matches next_hop e q} = {q \<in> set es. next_hop_entry matches next_hop e q}"
    by auto
  show "matches_found matches tbl next_hop 0 e (p # es) = matches_found matches tbl next_hop 0 e es"
    unfolding matches_found_def set by simp
  show "matches_found matches tbl next_hop (Suc k) e (p # es) =
      matches_found matches tbl next_hop k (re_route_to (snd p)) tbl \<union> matches_found matches tbl next_hop (Suc k) e es"
    unfolding found_all [of matches tbl next_hop k "re_route_to (snd p)"] less_Suc_eq_le [symmetric]
    unfolding matches_found_def set using assms by simp blast
qed

lemma looped_route_to:
  "route_to_entry matches e p \<Longrightarrow> lookup_looped matches tbl 0 e (p # es)"
  "route_to_entry matches e p \<Longrightarrow>
     lookup_looped matches tbl (Suc k) e (p # es) \<longleftrightarrow>
       lookup_looped matches tbl k (re_route_to (snd p)) tbl \<or> lookup_looped matches tbl (Suc k) e es"
  unfolding looped_all [of matches tbl k "re_route_to (snd p)"] by (auto simp: lookup_looped_def)


text \<open>The loop adds to the vector what is found, each entry once, and counts what it adds.\<close>

definition lookup_finds ::
  "(eid \<Rightarrow> eid \<Rightarrow> bool) \<Rightarrow> int \<Rightarrow> route_table \<Rightarrow> link_id option \<Rightarrow> nat \<Rightarrow> eid \<Rightarrow> route_table \<Rightarrow> bool"
where
  "lookup_finds matches mx tbl next_hop level e es \<longleftrightarrow>
     (\<forall>vec loop cnt. set vec \<subseteq> set tbl \<and> distinct vec \<longrightarrow>
       (\<exists>vec' loop' cnt'. get_matching_helper matches mx tbl next_hop level e es (vec, loop, cnt) = Inr (vec', loop', cnt') \<and>
          set vec' = set vec \<union> matches_found matches tbl next_hop (nat (mx - int level)) e es \<and> set vec' \<subseteq> set tbl \<and> distinct vec' \<and>
          (loop' \<longleftrightarrow> loop \<or> lookup_looped matches tbl (nat (mx - int level)) e es) \<and> cnt' + length vec = cnt + length vec'))"

lemma findsD:
  assumes "lookup_finds matches mx tbl next_hop level e es" "set vec \<subseteq> set tbl" "distinct vec"
  obtains vec' loop' cnt' where
    "get_matching_helper matches mx tbl next_hop level e es (vec, loop, cnt) = Inr (vec', loop', cnt')"
    "set vec' = set vec \<union> matches_found matches tbl next_hop (nat (mx - int level)) e es" "set vec' \<subseteq> set tbl" "distinct vec'"
    "loop' \<longleftrightarrow> loop \<or> lookup_looped matches tbl (nat (mx - int level)) e es" "cnt' + length vec = cnt + length vec'"
  using assms unfolding lookup_finds_def by metis

lemma same_address: "table_ok tbl \<Longrightarrow> p \<in> set tbl \<Longrightarrow> set vec \<subseteq> set tbl \<Longrightarrow> fst p \<in> fst ` set vec \<longleftrightarrow> p \<in> set vec"
  by (auto simp: table_ok_def distinct_map dest: inj_onD)

lemma finds_skip:
  assumes "lookup_finds matches mx tbl next_hop level e es" "\<not> matches (re_dest (snd p)) e"
  shows "lookup_finds matches mx tbl next_hop level e (p # es)"
proof -
  have "\<not> route_to_entry matches e p"
    using assms(2) by (simp add: route_to_entry_def)
  then show ?thesis
    using assms by (simp add: lookup_finds_def found_skip looped_skip)
qed

lemma finds_link:
  assumes tbl: "table_ok tbl" "p \<in> set tbl" and "lookup_finds matches mx tbl next_hop level e es"
    and m: "matches (re_dest (snd p)) e" and l: "re_link (snd p) = Some l"
  shows "lookup_finds matches mx tbl next_hop level e (p # es)"
  unfolding lookup_finds_def
proof (intro allI impI)
  fix vec :: route_table and loop :: bool and cnt :: nat
  assume vec: "set vec \<subseteq> set tbl \<and> distinct vec"
  define is_new where "is_new \<longleftrightarrow> (next_hop = None \<or> next_hop = Some l) \<and> p \<notin> set vec"
  define v where "v = (if is_new then vec @ [p] else vec)"
  define n where "n = (if is_new then cnt + 1 else cnt)"
  have to: "\<not> route_to_entry matches e p"
    using l by (simp add: route_to_entry_def)
  have eq: "get_matching_helper matches mx tbl next_hop level e (p # es) (vec, loop, cnt) =
      get_matching_helper matches mx tbl next_hop level e es (v, loop, n)"
    using m l same_address [OF tbl, of vec] vec by (auto simp: v_def n_def is_new_def)
  have "set v \<subseteq> set tbl" "distinct v"
    using vec tbl(2) by (auto simp: v_def is_new_def)
  then obtain vec' loop' cnt' where *:
    "get_matching_helper matches mx tbl next_hop level e es (v, loop, n) = Inr (vec', loop', cnt')"
    "set vec' = set v \<union> matches_found matches tbl next_hop (nat (mx - int level)) e es"
    "set vec' \<subseteq> set tbl" "distinct vec'" "loop' \<longleftrightarrow> loop \<or> lookup_looped matches tbl (nat (mx - int level)) e es"
    "cnt' + length v = n + length vec'"
    by (rule findsD [OF assms(3)])
  have "set vec' = set vec \<union> (if next_hop = None \<or> next_hop = Some l
      then insert p (matches_found matches tbl next_hop (nat (mx - int level)) e es) else matches_found matches tbl next_hop (nat (mx - int level)) e es)"
    "cnt' + length vec = cnt + length vec'"
    using *(2,6) by (auto simp: v_def n_def is_new_def split: if_splits)
  with * show "\<exists>vec' loop' cnt'. get_matching_helper matches mx tbl next_hop level e (p # es) (vec, loop, cnt) = Inr (vec', loop', cnt') \<and>
      set vec' = set vec \<union> matches_found matches tbl next_hop (nat (mx - int level)) e (p # es) \<and> set vec' \<subseteq> set tbl \<and> distinct vec' \<and>
      (loop' \<longleftrightarrow> loop \<or> lookup_looped matches tbl (nat (mx - int level)) e (p # es)) \<and> cnt' + length vec = cnt + length vec'"
    unfolding eq found_link [of p l matches e, OF l m] looped_skip [OF to] by blast
qed


lemma finds_route_to:
  assumes str: "eid_str (re_route_to (snd p)) \<noteq> []" and rest: "lookup_finds matches mx tbl next_hop level e es"
    and nested: "int level < mx \<Longrightarrow> lookup_finds matches mx tbl next_hop (level + 1) (re_route_to (snd p)) tbl"
    and to: "route_to_entry matches e p"
  shows "lookup_finds matches mx tbl next_hop level e (p # es)"
  unfolding lookup_finds_def
proof (intro allI impI)
  fix vec :: route_table and loop :: bool and cnt :: nat
  assume vec: "set vec \<subseteq> set tbl \<and> distinct vec"
  have m: "matches (re_dest (snd p)) e" "re_link (snd p) = None"
    using to by (simp_all add: route_to_entry_def)
  show "\<exists>vec' loop' cnt'. get_matching_helper matches mx tbl next_hop level e (p # es) (vec, loop, cnt) = Inr (vec', loop', cnt') \<and>
      set vec' = set vec \<union> matches_found matches tbl next_hop (nat (mx - int level)) e (p # es) \<and> set vec' \<subseteq> set tbl \<and> distinct vec' \<and>
      (loop' \<longleftrightarrow> loop \<or> lookup_looped matches tbl (nat (mx - int level)) e (p # es)) \<and> cnt' + length vec = cnt + length vec'"
  proof (cases "int level < mx")
    case False
    then have k: "nat (mx - int level) = 0"
      by simp
    obtain vec' loop' cnt' where
      "get_matching_helper matches mx tbl next_hop level e es (vec, True, cnt) = Inr (vec', loop', cnt')"
      "set vec' = set vec \<union> matches_found matches tbl next_hop 0 e es" "set vec' \<subseteq> set tbl" "distinct vec'"
      "loop' \<longleftrightarrow> True \<or> lookup_looped matches tbl 0 e es" "cnt' + length vec = cnt + length vec'"
      using findsD [OF rest, of vec True cnt] vec unfolding k by metis
    then show ?thesis
      using False m str looped_route_to(1) [OF to] unfolding k found_route_to(1) [OF to]
      by (intro exI [of _ vec'] exI [of _ loop'] exI [of _ cnt']) simp
  next
    case True
    then obtain k where k: "nat (mx - int level) = Suc k" "nat (mx - int (level + 1)) = k"
      by (cases "nat (mx - int level)") auto
    obtain v b n where 1: "get_matching_helper matches mx tbl next_hop (level + 1) (re_route_to (snd p)) tbl (vec, loop, 0) = Inr (v, b, n)"
      "set v = set vec \<union> matches_found matches tbl next_hop k (re_route_to (snd p)) tbl" "set v \<subseteq> set tbl" "distinct v"
      "b \<longleftrightarrow> loop \<or> lookup_looped matches tbl k (re_route_to (snd p)) tbl" "n + length vec = 0 + length v"
      using findsD [OF nested [OF True], of vec loop 0] vec unfolding k by metis
    obtain vec' loop' cnt' where 2: "get_matching_helper matches mx tbl next_hop level e es (v, b, cnt + n) = Inr (vec', loop', cnt')"
      "set vec' = set v \<union> matches_found matches tbl next_hop (Suc k) e es" "set vec' \<subseteq> set tbl" "distinct vec'"
      "loop' \<longleftrightarrow> b \<or> lookup_looped matches tbl (Suc k) e es" "cnt' + length v = cnt + n + length vec'"
      using findsD [OF rest 1(3,4), of b "cnt + n"] unfolding k by metis
    have "get_matching_helper matches mx tbl next_hop level e (p # es) (vec, loop, cnt) = Inr (vec', loop', cnt')"
      using m str True 1(1) 2(1) by simp
    moreover have "set vec' = set vec \<union> matches_found matches tbl next_hop (Suc k) e (p # es)"
      unfolding found_route_to(2) [OF to] 2(2) 1(2) by blast
    moreover have "loop' \<longleftrightarrow> loop \<or> lookup_looped matches tbl (Suc k) e (p # es)"
      unfolding looped_route_to(2) [OF to] 2(5) 1(5) by blast
    moreover have "cnt' + length vec = cnt + length vec'"
      using 1(6) 2(6) by simp
    ultimately show ?thesis
      unfolding k using 2(3,4) by blast
  qed
qed

lemma get_matching_helper_finds:
  assumes "table_ok tbl"
  shows "set es \<subseteq> set tbl \<Longrightarrow> lookup_finds matches mx tbl next_hop level e es"
proof (induction "nat (mx - int level)" arbitrary: level e es rule: less_induct)
  case less
  have nested: "lookup_finds matches mx tbl next_hop (level + 1) d tbl" if "int level < mx" for d
    using that by (intro less.hyps) auto
  show ?case
    using less.prems
  proof (induction es)
    case Nil
    then show ?case by (simp add: lookup_finds_def)
  next
    case (Cons p es)
    then have rest: "lookup_finds matches mx tbl next_hop level e es" and p: "p \<in> set tbl"
      by simp_all
    show ?case
    proof (cases "matches (re_dest (snd p)) e")
      case False
      then show ?thesis by (rule finds_skip [OF rest])
    next
      case True
      show ?thesis
      proof (cases "re_link (snd p)")
        case None
        then have "eid_str (re_route_to (snd p)) \<noteq> []" "route_to_entry matches e p"
          using assms p True by (simp_all add: table_ok_def route_to_entry_def)
        then show ?thesis
          using finds_route_to rest nested by blast
      next
        case (Some l)
        then show ?thesis by (rule finds_link [OF assms p rest True])
      qed
    qed
  qed
qed

subsection \<open>Sorting\<close>

lemma set_insert_route: "set (insert_route links p qs) = insert p (set qs)"
  by (induction qs) auto

lemma mset_insert_route: "mset (insert_route links p qs) = add_mset p (mset qs)"
  by (induction qs) auto

lemma mset_sort_routes: "mset (sort_routes links tbl) = mset tbl"
proof -
  have "mset (fold (insert_route links) tbl qs) = mset tbl + mset qs" for qs
    by (induction tbl arbitrary: qs) (simp_all add: mset_insert_route)
  then show ?thesis by (simp add: sort_routes_def)
qed

lemma route_less_trans:
  assumes "\<not> route_less links b a" "\<not> route_less links c b" "re_link a \<noteq> None" "re_link b \<noteq> None" "re_link c \<noteq> None"
  shows "\<not> route_less links c a"
  using assms by (auto simp: route_less_def split: if_splits option.splits)

lemma route_less_asym: "route_less links a b \<Longrightarrow> \<not> route_less links b a"
  by (auto simp: route_less_def split: if_splits option.splits)

lemma sorted_insert_route:
  assumes "sorted_wrt (\<lambda>p q. \<not> route_less links (snd q) (snd p)) qs" "\<forall>q\<in>set (p # qs). re_link (snd q) \<noteq> None"
  shows "sorted_wrt (\<lambda>p q. \<not> route_less links (snd q) (snd p)) (insert_route links p qs)"
  using assms
proof (induction qs)
  case (Cons q qs)
  show ?case
  proof (cases "route_less links (snd p) (snd q)")
    case True
    then have "\<not> route_less links (snd r) (snd p)" if "r \<in> set qs" for r
      using that Cons.prems route_less_asym [OF True] route_less_trans [of links "snd q" "snd p" "snd r"] by auto
    then show ?thesis
      using True Cons.prems route_less_asym [OF True] by simp
  next
    case False
    then show ?thesis
      using Cons by (simp add: set_insert_route)
  qed
qed simp

lemma sorted_sort_routes:
  assumes "\<forall>p\<in>set tbl. re_link (snd p) \<noteq> None"
  shows "sorted_wrt (\<lambda>p q. \<not> route_less links (snd q) (snd p)) (sort_routes links tbl)"
proof -
  have "sorted_wrt (\<lambda>p q. \<not> route_less links (snd q) (snd p)) (fold (insert_route links) tbl qs)"
    if "\<forall>p\<in>set tbl. re_link (snd p) \<noteq> None" "\<forall>q\<in>set qs. re_link (snd q) \<noteq> None"
      "sorted_wrt (\<lambda>p q. \<not> route_less links (snd q) (snd p)) qs" for qs
    using that
  proof (induction tbl arbitrary: qs)
    case (Cons p tbl)
    then show ?case
      using Cons.IH [of "insert_route links p qs"] sorted_insert_route [of links qs p] by (simp add: set_insert_route)
  qed simp
  then show ?thesis using assms by (simp add: sort_routes_def)
qed

lemma rt_del_matching_eq: "rt_del_matching P tbl = (length (filter (\<lambda>p. P (snd p)) tbl), filter (\<lambda>p. \<not> P (snd p)) tbl)"
proof -
  have "map the (filter (\<lambda>r. r \<noteq> None) (map (\<lambda>p. if P (snd p) then None else Some p) tbl)) = filter (\<lambda>p. \<not> P (snd p)) tbl"
    by (induction tbl) auto
  moreover have "length tbl - length (filter (\<lambda>p. \<not> P (snd p)) tbl) = length (filter (\<lambda>p. P (snd p)) tbl)"
    using sum_length_filter_compl [of "\<lambda>p. P (snd p)" tbl] by simp
  moreover have "filter (\<lambda>p. P (snd p)) tbl = []" "filter (\<lambda>p. \<not> P (snd p)) tbl = tbl"
    if "None \<notin> set (map (\<lambda>p. if P (snd p) then None else Some p) tbl)"
    using that by (auto simp: filter_empty_conv filter_id_conv image_iff split: if_splits)
  ultimately show ?thesis
    by (simp add: rt_del_matching_def Let_def del: set_map)
qed

lemma table_ok_add: "table_ok tbl \<Longrightarrow> a \<notin> fst ` set tbl \<Longrightarrow> re_link e \<noteq> None \<or> eid_str (re_route_to e) \<noteq> [] \<Longrightarrow>
    table_ok (rt_add_entry a e tbl)"
  by (auto simp: table_ok_def rt_add_entry_def)

lemma table_ok_filter: "table_ok tbl \<Longrightarrow> table_ok (filter P tbl)"
  by (auto simp: table_ok_def distinct_map_filter)

subsection \<open>Properties\<close>

text \<open>
  C10: the lookup in the route table always ends, also when the entries form a loop, and returns each
  entry with a link to which the destination leads through at most \<open>max_route_to_chain\<close> entries
  that name another endpoint, exactly once; the count is their number.
\<close>

theorem get_matching_sound_complete:
  assumes "table_ok tbl" and "0 \<le> rc_max_route_to_chain cfg"
  shows "\<exists>vec. get_matching matches cfg e next_hop tbl = Inr (length vec, vec) \<and> distinct vec \<and>
    set vec = {p \<in> set tbl. \<exists>k d. int k \<le> rc_max_route_to_chain cfg \<and> routed matches tbl k e d \<and>
      matches (re_dest (snd p)) d \<and> (\<exists>l. re_link (snd p) = Some l \<and> (next_hop = None \<or> next_hop = Some l))}"
proof -
  have "lookup_finds matches (rc_max_route_to_chain cfg) tbl next_hop 0 e tbl"
    by (rule get_matching_helper_finds [OF assms(1)]) simp
  then obtain vec loop where vec:
    "get_matching_helper matches (rc_max_route_to_chain cfg) tbl next_hop 0 e tbl ([], False, 0) = Inr (vec, loop, length vec)"
    "distinct vec" "set vec = matches_found matches tbl next_hop (nat (rc_max_route_to_chain cfg)) e tbl"
    by (rule findsD [of matches "rc_max_route_to_chain cfg" tbl next_hop 0 e tbl "[]" False 0]) auto
  then have "get_matching matches cfg e next_hop tbl = Inr (length vec, vec)"
    by (simp add: get_matching_def)
  moreover have "k \<le> nat (rc_max_route_to_chain cfg) \<longleftrightarrow> int k \<le> rc_max_route_to_chain cfg" for k
    using assms(2) by linarith
  ultimately show ?thesis
    using vec(2,3) unfolding found_all next_hop_entry_def by (intro exI [of _ vec]) simp
qed

text \<open>A table whose second entry leads back to itself.\<close>

definition sample_routes :: route_table where
  "sample_routes =
     [(1, route_to_link simple_naming router_defaults (eid_assign simple_naming (lit ''dtn:b'')) 7),
      (2, route_to_eid simple_naming router_defaults (eid_assign simple_naming (lit ''dtn:a'')) (eid_assign simple_naming (lit ''dtn:a''))),
      (3, route_to_eid simple_naming router_defaults (eid_assign simple_naming (lit ''dtn:a'')) (eid_assign simple_naming (lit ''dtn:b'')))]"

theorem get_matching_sound_complete_witness:
  "\<exists>vec. get_matching eid_equals router_defaults (eid_assign simple_naming (lit ''dtn:a'')) None sample_routes = Inr (length vec, vec) \<and>
    hd sample_routes \<in> set vec"
proof -
  let ?e = "\<lambda>s. eid_assign simple_naming (lit s)"
  have ok: "table_ok sample_routes"
    by (simp add: table_ok_def sample_routes_def route_to_link_def route_to_eid_def eid_assign_def simple_naming_def simple_parse_def
        lit_def Let_def)
  have "routed eid_equals sample_routes 1 (?e ''dtn:a'') (?e ''dtn:b'')"
    unfolding One_nat_def
    by (rule routed.follow [of "sample_routes ! 2"])
      (simp_all add: sample_routes_def route_to_eid_def route_to_link_def eid_equals_def routed.here)
  then have "\<exists>k d. int k \<le> rc_max_route_to_chain router_defaults \<and> routed eid_equals sample_routes k (?e ''dtn:a'') d \<and>
      eid_equals (re_dest (snd (hd sample_routes))) d"
    by (intro exI [of _ 1] exI [of _ "?e ''dtn:b''"]) (simp add: router_defaults_def sample_routes_def route_to_link_def eid_equals_def)
  moreover have "re_link (snd (hd sample_routes)) = Some 7" "hd sample_routes \<in> set sample_routes"
    by (simp_all add: sample_routes_def route_to_link_def)
  moreover obtain vec where "get_matching eid_equals router_defaults (?e ''dtn:a'') None sample_routes = Inr (length vec, vec)"
    "set vec = {p \<in> set sample_routes. \<exists>k d. int k \<le> rc_max_route_to_chain router_defaults \<and> routed eid_equals sample_routes k (?e ''dtn:a'') d \<and>
      eid_equals (re_dest (snd p)) d \<and> (\<exists>l. re_link (snd p) = Some l \<and> (None = None \<or> None = Some l))}"
    using get_matching_sound_complete [OF ok, of router_defaults eid_equals "?e ''dtn:a''" None] by (auto simp: router_defaults_def)
  ultimately show ?thesis
    by (intro exI [of _ vec]) blast
qed

end
