(* ===== verification/Actions.thy ===== *)
theory Actions
  imports RouteTable Transmission AdminRecords
begin

text \<open>
  The state of a node and the actions of \<open>servlib/bundling/BundleActions.cc\<close> that queue a bundle on a
  link and cancel it; the daemon's handlers of \<open>BundleDaemon.cc\<close> for a bundle that was sent or
  whose sending was cancelled; and the step with which a convergence layer takes the first bundle
  from the queue of its link (\<open>StreamConvergenceLayer.cc\<close>).

  Bundles live in the heap of \<open>BundleLists\<close>; what belongs to a bundle but is not part of its data
  (the forwarding log, the block lists for the links, the custody timers) is indexed by its address.
  The bundle of every operation is referenced from outside for as long as the operation and the
  events it posts need it; the references that local variables and events add and drop again are
  left out, and so are the data store and the locks.
\<close>

subsection \<open>The state of a node\<close>

definition PENDING_BUNDLES :: list_id where "PENDING_BUNDLES = 1"
definition CUSTODY_BUNDLES :: list_id where "CUSTODY_BUNDLES = 2"

text \<open>A custody timer; \<open>ct_pending\<close> is false once it has fired.\<close>

record custody_timer =
  ct_link :: link_id
  ct_due :: time
  ct_pending :: bool

text \<open>\<open>DeferredList\<close>: the information is kept under the identifier of the bundle.\<close>

record deferred_list =
  df_list :: list_id
  df_info :: "u32 \<Rightarrow> fwd_info option"
  df_count :: nat

record daemon_stats =
  ds_received :: u32
  ds_delivered :: u32
  ds_generated :: u32
  ds_transmitted :: u32
  ds_expired :: u32
  ds_deleted :: u32
  ds_duplicate :: u32

record node_sys =
  ns_cm :: cm_sys
  ns_heap :: heap
  ns_log :: "bundle_ptr \<Rightarrow> fwd_log"
  ns_xmit :: "bundle_ptr \<Rightarrow> link_id link_block_set"
  ns_custody :: "bundle_ptr \<Rightarrow> custody_timer list"
  ns_expiry :: "bundle_ptr \<Rightarrow> (u64 \<times> u32) option"
  ns_deferred :: "link_id \<Rightarrow> deferred_list option"
  ns_routes :: route_table
  ns_cache :: "(gbofid \<times> eid) list"
  ns_reroute :: "bytes \<Rightarrow> u32 option"
  ns_regs :: "registration list"
  ns_stats :: daemon_stats

text \<open>
  What the operations take from outside the state: the parameters of the daemon, the clock, the URI
  library, the cache of \<open>oasys\<close> (\<open>ne_cache_put\<close> gives \<open>None\<close> for a key that is there already), the
  processors of blocks, and the size of the data store. The calls that leave the modelled state are
  arguments as well: the entry points of the fragmentation manager (their work on the bundles is
  the theory \<open>Fragment\<close>), the creation of administrative bundles, which the daemon then handles
  as received, the delivery to an application, and sessions.
\<close>

record node_env =
  ne_cm :: cm_env
  ne_now :: time
  ne_cfg :: router_config
  ne_uri :: uri_lib
  ne_subsumes :: "eid \<Rightarrow> eid \<Rightarrow> bool"
  ne_cache_put :: "gbofid \<Rightarrow> eid \<Rightarrow> (gbofid \<times> eid) list \<Rightarrow> (gbofid \<times> eid) list option"
  ne_cache_get :: "gbofid \<Rightarrow> (gbofid \<times> eid) list \<Rightarrow> eid option"
  ne_bp :: bp_env
  ne_procs :: registry
  ne_md_gen :: "dtn_bundle \<Rightarrow> block_vec \<Rightarrow> block_vec"
  ne_local_eid :: eid
  ne_early_deletion :: bool
  ne_retry_reliable_unacked :: bool
  ne_accept_custody :: bool
  ne_suppress_duplicates :: bool
  ne_payload_quota :: u64
  ne_total_size :: u64
  ne_fragment :: "bundle_ptr \<Rightarrow> link_id \<Rightarrow> node_sys \<Rightarrow> (bundle_ptr list option \<times> node_sys) res"
  ne_react :: "bundle_ptr \<Rightarrow> block_vec \<Rightarrow> u32 \<Rightarrow> node_sys \<Rightarrow> node_sys res"
  ne_delete_fragment :: "bundle_ptr \<Rightarrow> node_sys \<Rightarrow> node_sys res"
  ne_delete_obsoleted :: "bundle_ptr \<Rightarrow> node_sys \<Rightarrow> node_sys res"
  ne_reassemble :: "bundle_ptr \<Rightarrow> node_sys \<Rightarrow> node_sys res"
  ne_report :: "bundle_ptr \<Rightarrow> byte \<Rightarrow> byte \<Rightarrow> node_sys \<Rightarrow> node_sys res"
  ne_signal :: "bundle_ptr \<Rightarrow> bool \<Rightarrow> byte \<Rightarrow> node_sys \<Rightarrow> node_sys res"
  ne_deliver :: "u32 \<Rightarrow> bundle_ptr \<Rightarrow> node_sys \<Rightarrow> (bool \<times> node_sys) res"
  ne_reg_delete :: "u32 \<Rightarrow> bundle_ptr \<Rightarrow> node_sys \<Rightarrow> node_sys res"
  ne_session_kept :: "dtn_bundle \<Rightarrow> bool"
  ne_session_erase :: "bundle_ptr \<Rightarrow> node_sys \<Rightarrow> node_sys res"

abbreviation ne_naming :: "node_env \<Rightarrow> naming" where "ne_naming env \<equiv> ce_naming (ne_cm env)"
abbreviation the_link :: "link_id \<Rightarrow> node_sys \<Rightarrow> link" where "the_link l s \<equiv> cm_links (ns_cm s) l"

definition ns_set_link :: "link_id \<Rightarrow> link \<Rightarrow> node_sys \<Rightarrow> node_sys" where
  "ns_set_link l lk s = s\<lparr>ns_cm := set_link l lk (ns_cm s)\<rparr>"

definition ns_post :: "event \<Rightarrow> node_sys \<Rightarrow> node_sys" where
  "ns_post ev s = s\<lparr>ns_cm := post ev (ns_cm s)\<rparr>"

definition ns_post_at_head :: "event \<Rightarrow> node_sys \<Rightarrow> node_sys" where
  "ns_post_at_head ev s = s\<lparr>ns_cm := post_at_head ev (ns_cm s)\<rparr>"

definition set_log :: "bundle_ptr \<Rightarrow> fwd_log \<Rightarrow> node_sys \<Rightarrow> node_sys" where
  "set_log b log s = s\<lparr>ns_log := (ns_log s)(b := log)\<rparr>"

definition set_xmit :: "bundle_ptr \<Rightarrow> link_id link_block_set \<Rightarrow> node_sys \<Rightarrow> node_sys" where
  "set_xmit b xs s = s\<lparr>ns_xmit := (ns_xmit s)(b := xs)\<rparr>"

text \<open>An operation on a link and its lists.\<close>

definition on_link :: "link_id \<Rightarrow> (link \<times> heap \<Rightarrow> (bool \<times> link \<times> heap) res) \<Rightarrow> node_sys \<Rightarrow> (bool \<times> node_sys) res" where
  "on_link l f s = bindR (f (the_link l s, ns_heap s)) (\<lambda>(ok, lk, h). Inr (ok, (ns_set_link l lk s)\<lparr>ns_heap := h\<rparr>))"

definition log_add :: "node_env \<Rightarrow> bundle_ptr \<Rightarrow> link_id \<Rightarrow> fwd_action \<Rightarrow> fwd_state \<Rightarrow> custody_spec \<Rightarrow> node_sys \<Rightarrow> node_sys" where
  "log_add env b l action st spec s =
     (case add_entry_link (ne_now env) (the_link l s) action st spec (ns_log s b) of
        (log, lk) \<Rightarrow> set_log b log (ns_set_link l lk s))"

definition log_update :: "node_env \<Rightarrow> bundle_ptr \<Rightarrow> link_id \<Rightarrow> fwd_state \<Rightarrow> node_sys \<Rightarrow> (bool \<times> node_sys) res" where
  "log_update env b l st s =
     bindR (update_link (ne_naming env) (ne_now env) (the_link l s) st (ns_log s b)) (\<lambda>(ok, log). Inr (ok, set_log b log s))"

subsection \<open>Queueing a bundle\<close>

text \<open>
  \<open>prepare_blocks\<close> and \<open>generate_blocks\<close> with the block list of the bundle: it is created first and
  deleted again when one of them fails. The result is the length, 0 for a failure.
\<close>

definition create_xmit_blocks :: "node_env \<Rightarrow> bundle_ptr \<Rightarrow> link_id \<Rightarrow> node_sys \<Rightarrow> (nat \<times> node_sys) res" where
  "create_xmit_blocks env b l s =
     bindR (get_obj b (ns_heap s)) (\<lambda>x.
     bindR (lbs_create_blocks l (ns_xmit s b)) (\<lambda>xs.
     bindR (prepare_blocks (ne_bp env) (ne_procs env) (ne_md_gen env) (bo_data x)) (\<lambda>r.
       let failed = bindR (lbs_delete_blocks l xs) (\<lambda>xs. Inr (0, set_xmit b xs s))
       in case r of
            None \<Rightarrow> failed
          | Some vec \<Rightarrow>
              bindR (generate_blocks (ne_bp env) (ne_procs env) (bo_data x) vec) (\<lambda>r.
                case r of
                  None \<Rightarrow> failed
                | Some (total_len, vec) \<Rightarrow> Inr (total_len, set_xmit b (ns_xmit s b @ [(l, vec)]) s)))))"

text \<open>
  \<open>None\<close> as the result of \<open>ne_fragment\<close> is the null pointer: the bundle may not be fragmented. The
  convergence layer that is told of the new bundle acts in a step of its own.
\<close>

definition queue_bundle ::
  "node_env \<Rightarrow> bundle_ptr \<Rightarrow> link_id \<Rightarrow> fwd_action \<Rightarrow> custody_spec \<Rightarrow> node_sys \<Rightarrow> (bool \<times> node_sys) res"
where
  "queue_bundle env b l action spec s =
     (if lk_deleted (the_link l s) then Inr (False, s)
      else if lbs_find_blocks l (ns_xmit s b) \<noteq> None then Inr (False, s)
      else
        bindR (create_xmit_blocks env b l s) (\<lambda>(total_len, s).
          if total_len = 0 then Inr (False, s)
          else
            bindR (get_latest_state_link (ne_naming env) (the_link l s) (ns_log s b)) (\<lambda>st.
              if st = QUEUED then Inr (False, s)
              else if lp_mtu (lk_params (the_link l s)) \<noteq> 0 \<and> total_len > unat (lp_mtu (lk_params (the_link l s)))
              then
                bindR (ne_fragment env b l s) (\<lambda>(frags, s).
                  case frags of
                    None \<Rightarrow> Inr (False, s)
                  | Some bs \<Rightarrow>
                      let s = fold (\<lambda>f. ns_post_at_head (BundleReceived f EVENTSRC_FRAGMENTATION)) bs s;
                          s = log_add env b l action SUPPRESSED custody_defaults s
                      in Inr (True, ns_post_at_head (BundleDelete b REASON_NO_ADDTL_INFO) s))
              else
                bindR (bl_contains (lk_queue (the_link l s)) b (ns_heap s)) (\<lambda>queued.
                  if queued then Inr (False, s)
                  else
                    bindR (bl_contains (lk_inflight (the_link l s)) b (ns_heap s)) (\<lambda>sending.
                      if sending then Inr (False, s)
                      else
                        bindR (on_link l (add_to_queue b total_len) (log_add env b l action QUEUED spec s)) (\<lambda>(_, s).
                          Inr (True, s)))))))"

text \<open>
  A bundle that is being sent is left to the convergence layer, which posts the event that its
  sending was cancelled when it can stop it.
\<close>

definition cancel_bundle :: "bundle_ptr \<Rightarrow> link_id \<Rightarrow> node_sys \<Rightarrow> node_sys res" where
  "cancel_bundle b l s =
     (if lk_deleted (the_link l s) then Inr s
      else
        case lbs_find_blocks l (ns_xmit s b) of
          None \<Rightarrow> Inr s
        | Some blocks \<Rightarrow>
            bindR (on_link l (del_from_queue b (total_length (bv_blocks blocks))) s) (\<lambda>(ok, s).
              if ok then Inr (ns_post (BundleSendCancelled b l) s)
              else bindR (bl_contains (lk_inflight (the_link l s)) b (ns_heap s)) (\<lambda>_. Inr s)))"

subsection \<open>The convergence layer takes a bundle\<close>

definition start_next_bundle :: "link_id \<Rightarrow> node_sys \<Rightarrow> (bundle_ptr option \<times> node_sys) res" where
  "start_next_bundle l s =
     (case h_lists (ns_heap s) (lk_queue (the_link l s)) of
        [] \<Rightarrow> Inr (None, s)
      | (n, b) # _ \<Rightarrow>
          (case lbs_find_blocks l (ns_xmit s b) of
             None \<Rightarrow> Inl ASSERT
           | Some blocks \<Rightarrow>
               let total_len = total_length (bv_blocks blocks)
               in bindR (on_link l (add_to_inflight b total_len) s) (\<lambda>(_, s).
                  bindR (on_link l (del_from_queue b total_len) s) (\<lambda>(_, s). Inr (Some b, s)))))"

subsection \<open>The daemon is told\<close>

definition delete_blocks :: "bundle_ptr \<Rightarrow> link_id \<Rightarrow> node_sys \<Rightarrow> node_sys res" where
  "delete_blocks b l s = bindR (lbs_delete_blocks l (ns_xmit s b)) (\<lambda>xs. Inr (set_xmit b xs s))"

definition add_time :: "time \<Rightarrow> u32 \<Rightarrow> time" where
  "add_time t delay = (fst t + delay, snd t)"

text \<open>
  The event \<open>BundleTransmitted b l bytes_sent reliably_sent\<close>; the end of its handler, with the report
  and the custody timer, comes first.
\<close>

definition transmitted_tail :: "node_env \<Rightarrow> bundle_ptr \<Rightarrow> link_id \<Rightarrow> fwd_info \<Rightarrow> node_sys \<Rightarrow> node_sys res" where
  "transmitted_tail env b l fwdinfo s =
     bindR (get_obj b (ns_heap s)) (\<lambda>x.
     bindR (if b_forward_rcpt (bo_data x) then ne_report env b SR_FORWARDED REASON_NO_ADDTL_INFO s else Inr s) (\<lambda>s.
     bindR (get_obj b (ns_heap s)) (\<lambda>x.
       if \<not> b_local_custody (bo_data x) then Inr s
       else
         bindR (calculate_timeout (fi_custody_spec fwdinfo) (b_expiration (bo_data x))) (\<lambda>delay.
           let timer = \<lparr>ct_link = l, ct_due = add_time (fi_timestamp fwdinfo) delay, ct_pending = True\<rparr>
           in Inr (s\<lparr>ns_custody := (ns_custody s)(b := ns_custody s b @ [timer])\<rparr>)))))"

definition handle_bundle_transmitted :: "node_env \<Rightarrow> bundle_ptr \<Rightarrow> link_id \<Rightarrow> u32 \<Rightarrow> u32 \<Rightarrow> node_sys \<Rightarrow> node_sys res" where
  "handle_bundle_transmitted env b l bytes_sent reliably_sent s =
     (case lbs_find_blocks l (ns_xmit s b) of
        None \<Rightarrow> Inr s
      | Some blocks \<Rightarrow>
          let total_len = total_length (bv_blocks blocks);
              s = s\<lparr>ns_stats := (ns_stats s)\<lparr>ds_transmitted := ds_transmitted (ns_stats s) + 1\<rparr>\<rparr>;
              lk = the_link l s; st = lk_stats lk;
              s = ns_set_link l (lk\<lparr>lk_stats := st\<lparr>st_bundles_transmitted := st_bundles_transmitted st + 1,
                    st_bytes_transmitted := st_bytes_transmitted st + bytes_sent\<rparr>\<rparr>) s
          in
          bindR (on_link l (del_from_inflight b total_len) s) (\<lambda>(_, s).
          bindR (on_link l (del_from_queue b total_len) s) (\<lambda>(_, s).
            if ne_retry_reliable_unacked env \<and> lk_reliable (the_link l s) \<and> bytes_sent \<noteq> reliably_sent \<and> reliably_sent = 0
            then bindR (log_update env b l TRANSMIT_FAILED s) (\<lambda>(_, s). delete_blocks b l s)
            else
              bindR (get_latest_link (ne_naming env) (the_link l s) (ns_log s b)) (\<lambda>r.
                case r of
                  None \<Rightarrow> Inl ASSERT
                | Some fwdinfo \<Rightarrow>
                    bindR (log_update env b l TRANSMITTED s) (\<lambda>(_, s).
                    bindR (ne_react env b blocks (if lk_reliable (the_link l s) then reliably_sent else bytes_sent) s) (\<lambda>s.
                    bindR (delete_blocks b l s) (\<lambda>s.
                      transmitted_tail env b l fwdinfo s)))))))"

definition handle_bundle_cancelled :: "node_env \<Rightarrow> bundle_ptr \<Rightarrow> link_id \<Rightarrow> node_sys \<Rightarrow> node_sys res" where
  "handle_bundle_cancelled env b l s =
     (case lbs_find_blocks l (ns_xmit s b) of
        None \<Rightarrow> Inr s
      | Some blocks \<Rightarrow>
          bindR (bl_contains (lk_queue (the_link l s)) b (ns_heap s)) (\<lambda>_.
          bindR (bl_contains (lk_inflight (the_link l s)) b (ns_heap s)) (\<lambda>_.
            let lk = the_link l s; st = lk_stats lk;
                s = ns_set_link l (lk\<lparr>lk_stats := st\<lparr>st_bundles_cancelled := st_bundles_cancelled st + 1\<rparr>\<rparr>) s
            in
            bindR (delete_blocks b l s) (\<lambda>s.
            bindR (log_update env b l CANCELLED s) (\<lambda>(_, s). Inr s)))))"

subsection \<open>A stream connection cancels a bundle\<close>

text \<open>
  \<open>handle_cancel_bundle\<close> of a stream connection, with the bundles that the connection sends: each with
  whether some of its data was sent, the one it works on, and the bytes left of the current segment.
  The list of the link is not changed here.
\<close>

record stream_conn =
  sc_inflight :: "(bundle_ptr \<times> bool) list"
  sc_current :: "bundle_ptr option"
  sc_segment_todo :: nat

definition handle_cancel_bundle :: "bundle_ptr \<Rightarrow> link_id \<Rightarrow> stream_conn \<Rightarrow> node_sys \<Rightarrow> stream_conn \<times> node_sys" where
  "handle_cancel_bundle b l c s =
     (case find (\<lambda>p. fst p = b) (sc_inflight c) of
        None \<Rightarrow> (c, s)
      | Some p \<Rightarrow>
          if snd p then (c, s)
          else if sc_current c = Some b \<and> sc_segment_todo c \<noteq> 0 then (c, s)
          else (c\<lparr>sc_current := (if sc_current c = Some b then None else sc_current c), sc_inflight := remove1 p (sc_inflight c)\<rparr>,
                ns_post (BundleSendCancelled b l) s))"

end
