(* ===== verification/TransmissionQueue.thy ===== *)
theory TransmissionQueue
  imports Actions
begin

text \<open>
  The books that the actions and the daemon keep of the bundles on the two lists of a link: the
  invariant, that every operation of \<open>Actions\<close> keeps it, and what happens where the convergence
  layers and the fragmentation leave a bundle behind.
\<close>

subsection \<open>The invariant of the queues\<close>

text \<open>The length of the formatted bundle \<open>b\<close> for the link \<open>l\<close>.\<close>

definition xmit_len :: "node_sys \<Rightarrow> link_id \<Rightarrow> bundle_ptr \<Rightarrow> nat" where
  "xmit_len s l b = (case lbs_find_blocks l (ns_xmit s b) of None \<Rightarrow> 0 | Some v \<Rightarrow> total_length (bv_blocks v))"

definition queued_on :: "node_sys \<Rightarrow> link_id \<Rightarrow> bundle_ptr set" where
  "queued_on s l = snd ` set (h_lists (ns_heap s) (lk_queue (the_link l s)))"

definition inflight_on :: "node_sys \<Rightarrow> link_id \<Rightarrow> bundle_ptr set" where
  "inflight_on s l = snd ` set (h_lists (ns_heap s) (lk_inflight (the_link l s)))"

text \<open>A link that has lists of its own; an address without a link has none.\<close>

definition real_link :: "node_sys \<Rightarrow> link_id \<Rightarrow> bool" where
  "real_link s l \<longleftrightarrow> lk_queue (the_link l s) \<noteq> ALL_BUNDLES"

text \<open>
  The counters of a link agree with its lists, and a bundle on them has its blocks for the link and
  an entry in its forwarding log.
\<close>

definition link_ok :: "node_sys \<Rightarrow> link_id \<Rightarrow> bool" where
  "link_ok s l \<longleftrightarrow>
     queue.ok (xmit_len s l) (the_link l s) (ns_heap s) \<and> inflight.ok (xmit_len s l) (the_link l s) (ns_heap s) \<and>
     (\<forall>b \<in> queued_on s l \<union> inflight_on s l. 0 < xmit_len s l b \<and> by_name.view (ns_log s b) (lk_name (the_link l s)) \<noteq> None)"

definition link_lists :: "node_sys \<Rightarrow> link_id \<Rightarrow> list_id set" where
  "link_lists s l = {lk_queue (the_link l s), lk_inflight (the_link l s)}"

definition tx_inv :: "(bundle_ptr \<Rightarrow> int) \<Rightarrow> naming \<Rightarrow> (bytes \<Rightarrow> eid) \<Rightarrow> node_sys \<Rightarrow> bool" where
  "tx_inv held nm remotes s \<longleftrightarrow>
     bl_inv held (ns_heap s) \<and>
     (\<forall>l. real_link s l \<longrightarrow> link_ok s l \<and> lk_queue (the_link l s) \<noteq> lk_inflight (the_link l s) \<and>
        remotes (lk_name (the_link l s)) = lk_remote_eid (the_link l s)) \<and>
     (\<forall>l k. real_link s l \<and> real_link s k \<and> l \<noteq> k \<longrightarrow> link_lists s l \<inter> link_lists s k = {}) \<and>
     (\<forall>b. distinct (map fst (ns_xmit s b)) \<and> by_name.remotes_ok nm remotes (ns_log s b))"

lemma xmit_len_pos: "0 < xmit_len s l b \<Longrightarrow> \<exists>v. lbs_find_blocks l (ns_xmit s b) = Some v \<and> xmit_len s l b = total_length (bv_blocks v)"
  by (simp add: xmit_len_def split: option.splits)

lemma tx_invD:
  assumes "tx_inv held nm remotes s"
  shows "bl_inv held (ns_heap s)" "distinct (map fst (ns_xmit s b))" "by_name.remotes_ok nm remotes (ns_log s b)"
    and "real_link s l \<Longrightarrow> link_ok s l" "real_link s l \<Longrightarrow> lk_queue (the_link l s) \<noteq> lk_inflight (the_link l s)"
    and "real_link s l \<Longrightarrow> remotes (lk_name (the_link l s)) = lk_remote_eid (the_link l s)"
    and "real_link s l \<Longrightarrow> real_link s k \<Longrightarrow> l \<noteq> k \<Longrightarrow> link_lists s l \<inter> link_lists s k = {}"
  using assms unfolding tx_inv_def by blast+

lemma link_okD:
  assumes "link_ok s l"
  shows "queue.ok (xmit_len s l) (the_link l s) (ns_heap s)" "inflight.ok (xmit_len s l) (the_link l s) (ns_heap s)"
    and "b \<in> queued_on s l \<Longrightarrow> 0 < xmit_len s l b" "b \<in> inflight_on s l \<Longrightarrow> 0 < xmit_len s l b"
    and "b \<in> queued_on s l \<union> inflight_on s l \<Longrightarrow> by_name.view (ns_log s b) (lk_name (the_link l s)) \<noteq> None"
  using assms unfolding link_ok_def by blast+

text \<open>
  \<open>tx_frame l s s'\<close>: the step from \<open>s\<close> to \<open>s'\<close> changes nothing that the invariant says of other links,
  and of \<open>l\<close> neither its lists nor its name and remote endpoint; the logs keep their keys.
\<close>

definition tx_frame :: "link_id \<Rightarrow> node_sys \<Rightarrow> node_sys \<Rightarrow> bool" where
  "tx_frame l s s' \<longleftrightarrow>
     (\<forall>k. k \<noteq> l \<longrightarrow> the_link k s' = the_link k s \<and> (\<forall>b. lbs_find_blocks k (ns_xmit s' b) = lbs_find_blocks k (ns_xmit s b))) \<and>
     lk_queue (the_link l s') = lk_queue (the_link l s) \<and> lk_inflight (the_link l s') = lk_inflight (the_link l s) \<and>
     lk_name (the_link l s') = lk_name (the_link l s) \<and> lk_remote_eid (the_link l s') = lk_remote_eid (the_link l s) \<and>
     (\<forall>k. k \<noteq> ALL_BUNDLES \<and> k \<notin> link_lists s l \<longrightarrow> h_lists (ns_heap s') k = h_lists (ns_heap s) k) \<and>
     (\<forall>b n. by_name.view (ns_log s b) n \<noteq> None \<longrightarrow> by_name.view (ns_log s' b) n \<noteq> None)"

lemma tx_frame_links:
  assumes "tx_frame l s s'"
  shows "lk_queue (the_link k s') = lk_queue (the_link k s)" "lk_inflight (the_link k s') = lk_inflight (the_link k s)"
    "lk_name (the_link k s') = lk_name (the_link k s)" "lk_remote_eid (the_link k s') = lk_remote_eid (the_link k s)"
    "real_link s' k = real_link s k" "link_lists s' k = link_lists s k"
  using assms by (cases "k = l"; simp add: tx_frame_def real_link_def link_lists_def)+

lemma inflight_not_all: "link_ok s l \<Longrightarrow> lk_inflight (the_link l s) \<noteq> ALL_BUNDLES"
  by (simp add: link_ok_def inflight.ok_def)

lemma link_ok_other:
  assumes inv: "tx_inv held nm remotes s" and fr: "tx_frame l s s'" and k: "real_link s k" "real_link s l" "k \<noteq> l"
  shows "link_ok s' k"
proof -
  have ok: "link_ok s k" and apart: "link_lists s k \<inter> link_lists s l = {}"
    using tx_invD(4,7) [OF inv] k by blast+
  have "lk_queue (the_link k s) \<noteq> ALL_BUNDLES" "lk_inflight (the_link k s) \<noteq> ALL_BUNDLES"
    using k(1) inflight_not_all [OF ok] by (simp_all add: real_link_def)
  moreover have "lk_queue (the_link k s) \<notin> link_lists s l" "lk_inflight (the_link k s) \<notin> link_lists s l"
    using apart unfolding link_lists_def by auto
  ultimately have lists: "h_lists (ns_heap s') (lk_queue (the_link k s)) = h_lists (ns_heap s) (lk_queue (the_link k s))"
    "h_lists (ns_heap s') (lk_inflight (the_link k s)) = h_lists (ns_heap s) (lk_inflight (the_link k s))"
    using fr by (simp_all add: tx_frame_def)
  have same: "the_link k s' = the_link k s" "xmit_len s' k = xmit_len s k"
    using fr k(3) by (simp_all add: tx_frame_def xmit_len_def fun_eq_iff)
  have view: "by_name.view (ns_log s b) n \<noteq> None \<Longrightarrow> by_name.view (ns_log s' b) n \<noteq> None" for b n
    using fr unfolding tx_frame_def by blast
  show ?thesis
    using ok view unfolding link_ok_def queue.ok_def inflight.ok_def queued_on_def inflight_on_def same lists by blast
qed

text \<open>To show the invariant after a step it is enough to look at the link of the step.\<close>

lemma tx_invI:
  assumes inv: "tx_inv held nm remotes s" and fr: "tx_frame l s s'" and l: "real_link s l"
    and heap: "bl_inv held (ns_heap s')" and ok: "link_ok s' l"
    and b: "\<And>b. distinct (map fst (ns_xmit s' b))" "\<And>b. by_name.remotes_ok nm remotes (ns_log s' b)"
  shows "tx_inv held nm remotes s'"
proof -
  have "link_ok s' k" if "real_link s k" for k
    using link_ok_other [OF inv fr that l] ok by metis
  then show ?thesis
    using inv heap b unfolding tx_inv_def tx_frame_links [OF fr] by blast
qed

lemma tx_frame_refl: "tx_frame l s s"
  by (simp add: tx_frame_def)

lemma tx_frame_trans: "tx_frame l s s1 \<Longrightarrow> tx_frame l s1 s2 \<Longrightarrow> tx_frame l s s2"
  unfolding tx_frame_def link_lists_def by (simp add: tx_frame_def link_lists_def)

subsection \<open>The list operations and the invariant\<close>

lemma ns_set_link_fields [simp]:
  "cm_links (ns_cm (ns_set_link l lk s)) = (cm_links (ns_cm s))(l := lk)" "ns_heap (ns_set_link l lk s) = ns_heap s"
  "ns_log (ns_set_link l lk s) = ns_log s" "ns_xmit (ns_set_link l lk s) = ns_xmit s"
  by (simp_all add: ns_set_link_def)

lemma set_log_fields [simp]:
  "ns_cm (set_log b log s) = ns_cm s" "ns_heap (set_log b log s) = ns_heap s"
  "ns_log (set_log b log s) = (ns_log s)(b := log)" "ns_xmit (set_log b log s) = ns_xmit s"
  by (simp_all add: set_log_def)

lemma set_xmit_fields [simp]:
  "ns_cm (set_xmit b xs s) = ns_cm s" "ns_heap (set_xmit b xs s) = ns_heap s"
  "ns_log (set_xmit b xs s) = ns_log s" "ns_xmit (set_xmit b xs s) = (ns_xmit s)(b := xs)"
  by (simp_all add: set_xmit_def)

lemma ns_post_fields [simp]:
  "cm_links (ns_cm (ns_post ev s)) = cm_links (ns_cm s)" "ns_heap (ns_post ev s) = ns_heap s"
  "ns_log (ns_post ev s) = ns_log s" "ns_xmit (ns_post ev s) = ns_xmit s"
  "cm_links (ns_cm (ns_post_at_head ev s)) = cm_links (ns_cm s)" "ns_heap (ns_post_at_head ev s) = ns_heap s"
  "ns_log (ns_post_at_head ev s) = ns_log s" "ns_xmit (ns_post_at_head ev s) = ns_xmit s"
  by (simp_all add: ns_post_def ns_post_at_head_def)

text \<open>The invariant reads only the links, the heap, the logs and the blocks.\<close>

lemma tx_inv_cong:
  assumes "cm_links (ns_cm s') = cm_links (ns_cm s)" "ns_heap s' = ns_heap s" "ns_log s' = ns_log s" "ns_xmit s' = ns_xmit s"
  shows "tx_inv held nm remotes s' = tx_inv held nm remotes s" "real_link s' l = real_link s l"
    "queued_on s' l = queued_on s l" "inflight_on s' l = inflight_on s l" "xmit_len s' l = xmit_len s l" "tx_frame l s s'"
  unfolding tx_inv_def link_ok_def real_link_def queued_on_def inflight_on_def xmit_len_def link_lists_def tx_frame_def
  using assms by simp_all

lemma xmit_len_cong: "ns_xmit s' = ns_xmit s \<Longrightarrow> xmit_len s' = xmit_len s"
  by (simp add: xmit_len_def fun_eq_iff)

text \<open>A new link record and heap for \<open>l\<close>, with the counters and lists of its queue and flight changed.\<close>

definition relist :: "link_id \<Rightarrow> link \<Rightarrow> heap \<Rightarrow> node_sys \<Rightarrow> node_sys" where
  "relist l lk h s = (ns_set_link l lk s)\<lparr>ns_heap := h\<rparr>"

lemma relist_fields [simp]:
  "cm_links (ns_cm (relist l lk h s)) = (cm_links (ns_cm s))(l := lk)" "ns_heap (relist l lk h s) = h"
  "ns_log (relist l lk h s) = ns_log s" "ns_xmit (relist l lk h s) = ns_xmit s"
  "xmit_len (relist l lk h s) = xmit_len s"
  by (simp_all add: relist_def ns_set_link_def xmit_len_def fun_eq_iff)

lemma on_link_relist: "on_link l f s = bindR (f (the_link l s, ns_heap s)) (\<lambda>(ok, lk, h). Inr (ok, relist l lk h s))"
  by (simp add: on_link_def relist_def)

lemma tx_inv_relist:
  assumes inv: "tx_inv held nm remotes s" and l: "real_link s l" and heap: "bl_inv held h"
    and lk: "lk_queue lk = lk_queue (the_link l s)" "lk_inflight lk = lk_inflight (the_link l s)"
      "lk_name lk = lk_name (the_link l s)" "lk_remote_eid lk = lk_remote_eid (the_link l s)"
    and lists: "\<And>k. k \<noteq> ALL_BUNDLES \<Longrightarrow> k \<notin> link_lists s l \<Longrightarrow> h_lists h k = h_lists (ns_heap s) k"
    and ok: "queue.ok (xmit_len s l) lk h" "inflight.ok (xmit_len s l) lk h"
    and members: "snd ` set (h_lists h (lk_queue (the_link l s))) \<union> snd ` set (h_lists h (lk_inflight (the_link l s))) \<subseteq>
      insert b (queued_on s l \<union> inflight_on s l)"
    and b: "0 < xmit_len s l b" "by_name.view (ns_log s b) (lk_name (the_link l s)) \<noteq> None"
  shows "tx_inv held nm remotes (relist l lk h s) \<and> tx_frame l s (relist l lk h s)"
proof -
  have fr: "tx_frame l s (relist l lk h s)"
    using lists by (simp add: tx_frame_def lk)
  have "0 < xmit_len s l c \<and> by_name.view (ns_log s c) (lk_name (the_link l s)) \<noteq> None"
    if "c \<in> snd ` set (h_lists h (lk_queue (the_link l s))) \<union> snd ` set (h_lists h (lk_inflight (the_link l s)))" for c
    using that members b link_okD(3,4,5) [OF tx_invD(4) [OF inv l]] by blast
  then have "link_ok (relist l lk h s) l"
    unfolding link_ok_def queued_on_def inflight_on_def relist_fields fun_upd_same lk using ok by blast
  then show ?thesis
    using fr by (intro conjI tx_invI [OF inv fr l]) (simp_all add: heap tx_invD(2,3) [OF inv])
qed

definition list_room :: "node_sys \<Rightarrow> link_id \<Rightarrow> list_id \<Rightarrow> nat \<Rightarrow> bool" where
  "list_room s l lst n \<longleftrightarrow>
     Suc (length (h_lists (ns_heap s) lst)) < 2 ^ 32 \<and> list_bytes (xmit_len s l) (h_lists (ns_heap s) lst) + n < 2 ^ 32"

text \<open>
  The two lists of a link have the same interface: each one with the other beside it, which its
  operations leave alone.
\<close>

locale node_list = link_list lst cnt byt upd add del
  for lst :: "link \<Rightarrow> list_id" and cnt :: "link \<Rightarrow> u32" and byt :: "link \<Rightarrow> u32"
    and upd :: "u32 \<Rightarrow> u32 \<Rightarrow> link \<Rightarrow> link"
    and add :: "bundle_ptr \<Rightarrow> nat \<Rightarrow> link \<times> heap \<Rightarrow> (bool \<times> link \<times> heap) res"
    and del :: "bundle_ptr \<Rightarrow> nat \<Rightarrow> link \<times> heap \<Rightarrow> (bool \<times> link \<times> heap) res" +
  fixes olst :: "link \<Rightarrow> list_id" and ook :: "(bundle_ptr \<Rightarrow> nat) \<Rightarrow> link \<Rightarrow> heap \<Rightarrow> bool"
  assumes both_lists: "{lst lk, olst lk} = {lk_queue lk, lk_inflight lk}"
    and both_ok: "ok len lk h \<and> ook len lk h \<longleftrightarrow> queue.ok len lk h \<and> inflight.ok len lk h"
    and ook_upd: "h_lists h' (olst lk) = h_lists h (olst lk) \<Longrightarrow> ook len lk h \<Longrightarrow> ook len (upd n m lk) h'"
    and ook_all: "ook len lk h \<Longrightarrow> olst lk \<noteq> ALL_BUNDLES"
    and upd_link: "lk_queue (upd n m lk) = lk_queue lk" "lk_inflight (upd n m lk) = lk_inflight lk"
      "lk_name (upd n m lk) = lk_name lk" "lk_remote_eid (upd n m lk) = lk_remote_eid lk"
begin

definition members :: "node_sys \<Rightarrow> link_id \<Rightarrow> bundle_ptr set" where
  "members s l = snd ` set (h_lists (ns_heap s) (lst (the_link l s)))"

definition others :: "node_sys \<Rightarrow> link_id \<Rightarrow> bundle_ptr set" where
  "others s l = snd ` set (h_lists (ns_heap s) (olst (the_link l s)))"

lemma upd_olst: "lst lk \<noteq> olst lk \<Longrightarrow> olst (upd n m lk) = olst lk"
  using both_lists [of lk] both_lists [of "upd n m lk"] unfolding upd_fields(3) upd_link(1,2) by (metis doubleton_eq_iff)

lemma on_lists: "members s l \<union> others s l = queued_on s l \<union> inflight_on s l"
proof -
  have "(\<Union>k\<in>{lst (the_link l s), olst (the_link l s)}. snd ` set (h_lists (ns_heap s) k)) =
      (\<Union>k\<in>{lk_queue (the_link l s), lk_inflight (the_link l s)}. snd ` set (h_lists (ns_heap s) k))"
    by (simp only: both_lists)
  then show ?thesis
    by (simp add: members_def others_def queued_on_def inflight_on_def)
qed

text \<open>What both operations leave: \<open>h\<close> and the counters of the link are new.\<close>

lemma relisted:
  assumes inv: "tx_inv held nm remotes s" "real_link s l" and heap: "bl_inv held h"
    and ok: "ok (xmit_len s l) (upd n m (the_link l s)) h"
    and list: "snd ` set (h_lists h (lst (the_link l s))) \<subseteq> insert b (members s l)"
    and rest: "\<And>k. k \<noteq> lst (the_link l s) \<Longrightarrow> k \<noteq> ALL_BUNDLES \<Longrightarrow> h_lists h k = h_lists (ns_heap s) k"
    and pos: "0 < xmit_len s l b" "by_name.view (ns_log s b) (lk_name (the_link l s)) \<noteq> None"
  shows "tx_inv held nm remotes (relist l (upd n m (the_link l s)) h s) \<and> tx_frame l s (relist l (upd n m (the_link l s)) h s) \<and>
    members (relist l (upd n m (the_link l s)) h s) l = snd ` set (h_lists h (lst (the_link l s))) \<and>
    others (relist l (upd n m (the_link l s)) h s) l = others s l"
proof -
  let ?lk = "the_link l s"
  have old: "ook (xmit_len s l) ?lk (ns_heap s)"
    using link_okD(1,2) [OF tx_invD(4) [OF inv]] both_ok by blast
  have ne: "lst ?lk \<noteq> olst ?lk"
    using tx_invD(5) [OF inv] both_lists [of ?lk] by (metis insert_absorb2 doubleton_eq_iff)
  have o: "h_lists h (olst ?lk) = h_lists (ns_heap s) (olst ?lk)"
    using rest ne ook_all [OF old] by metis
  have both: "queue.ok (xmit_len s l) (upd n m ?lk) h" "inflight.ok (xmit_len s l) (upd n m ?lk) h"
    using both_ok [of "xmit_len s l" "upd n m ?lk" h] ok ook_upd [OF o old] by blast+
  have "snd ` set (h_lists h (lk_queue ?lk)) \<union> snd ` set (h_lists h (lk_inflight ?lk)) =
      (\<Union>k\<in>{lst ?lk, olst ?lk}. snd ` set (h_lists h k))"
    unfolding both_lists by simp
  also have "\<dots> \<subseteq> insert b (members s l \<union> others s l)"
    using list o by (auto simp: others_def)
  finally have sub: "snd ` set (h_lists h (lk_queue ?lk)) \<union> snd ` set (h_lists h (lk_inflight ?lk)) \<subseteq>
      insert b (queued_on s l \<union> inflight_on s l)"
    unfolding on_lists .
  have "h_lists h k = h_lists (ns_heap s) k" if "k \<noteq> ALL_BUNDLES" "k \<notin> link_lists s l" for k
    using that rest both_lists [of ?lk] unfolding link_lists_def by blast
  from tx_inv_relist [OF inv heap upd_link this both sub pos]
  have "tx_inv held nm remotes (relist l (upd n m ?lk) h s) \<and> tx_frame l s (relist l (upd n m ?lk) h s)" .
  then show ?thesis
    using o by (simp add: members_def others_def upd_fields upd_olst [OF ne])
qed

lemma add_ok:
  assumes inv: "tx_inv held nm remotes s" "real_link s l" and b: "1 \<le> held b" "b \<notin> members s l"
    and pos: "0 < xmit_len s l b" "by_name.view (ns_log s b) (lk_name (the_link l s)) \<noteq> None"
    and room: "list_room s l (lst (the_link l s)) (xmit_len s l b)"
  obtains lk h where "on_link l (add b (xmit_len s l b)) s = Inr (True, relist l lk h s)"
    "tx_inv held nm remotes (relist l lk h s)" "tx_frame l s (relist l lk h s)"
    "members (relist l lk h s) l = insert b (members s l)" "others (relist l lk h s) l = others s l"
    "same_bundles (ns_heap s) h"
proof -
  let ?lk = "the_link l s"
  have ok: "ok (xmit_len s l) ?lk (ns_heap s)"
    using link_okD(1,2) [OF tx_invD(4) [OF inv]] both_ok by blast
  obtain h where h: "add b (xmit_len s l b) (?lk, ns_heap s) =
      Inr (True, upd (cnt ?lk + 1) (byt ?lk + of_nat (xmit_len s l b)) ?lk, h)" "bl_inv held h"
    "ok (xmit_len s l) (upd (cnt ?lk + 1) (byt ?lk + of_nat (xmit_len s l b)) ?lk) h"
    "h_lists h (lst ?lk) = h_lists (ns_heap s) (lst ?lk) @ [(h_next (ns_heap s), b)]"
    "\<And>k. k \<noteq> lst ?lk \<Longrightarrow> k \<noteq> ALL_BUNDLES \<Longrightarrow> h_lists h k = h_lists (ns_heap s) k"
    "same_bundles (ns_heap s) h"
    using add_new [OF tx_invD(1) [OF inv(1)] b(1) ok] b(2) room
    unfolding members_def list_room_def by metis
  have set: "snd ` set (h_lists h (lst ?lk)) = insert b (members s l)"
    by (simp add: h(4) members_def)
  from relisted [OF inv h(2,3) _ h(5) pos] that h(1,6) show ?thesis
    unfolding set by (simp add: on_link_relist)
qed

lemma del_ok:
  assumes inv: "tx_inv held nm remotes s" "real_link s l" and b: "1 \<le> held b"
    and len: "b \<in> members s l \<Longrightarrow> n = xmit_len s l b"
  obtains lk h where "on_link l (del b n) s = Inr (b \<in> members s l, relist l lk h s)"
    "tx_inv held nm remotes (relist l lk h s)" "tx_frame l s (relist l lk h s)"
    "members (relist l lk h s) l = members s l - {b}" "others (relist l lk h s) l = others s l"
    "same_bundles (ns_heap s) h"
proof (cases "b \<in> members s l")
  case True
  let ?lk = "the_link l s"
  have ok: "ok (xmit_len s l) ?lk (ns_heap s)"
    using link_okD(1,2) [OF tx_invD(4) [OF inv]] both_ok by blast
  have pos: "0 < xmit_len s l b" "by_name.view (ns_log s b) (lk_name ?lk) \<noteq> None"
    using True link_okD(3,4,5) [OF tx_invD(4) [OF inv]] on_lists by blast+
  obtain h where h: "del b (xmit_len s l b) (?lk, ns_heap s) =
      Inr (True, upd (cnt ?lk - 1) (byt ?lk - of_nat (xmit_len s l b)) ?lk, h)" "bl_inv held h"
    "ok (xmit_len s l) (upd (cnt ?lk - 1) (byt ?lk - of_nat (xmit_len s l b)) ?lk) h"
    "h_lists h (lst ?lk) = filter (\<lambda>p. snd p \<noteq> b) (h_lists (ns_heap s) (lst ?lk))"
    "\<And>k. k \<noteq> lst ?lk \<Longrightarrow> h_lists h k = h_lists (ns_heap s) k" "same_bundles (ns_heap s) h"
    using del_present [OF tx_invD(1) [OF inv(1)] b ok] True pos(1) unfolding members_def by metis
  have set: "snd ` set (h_lists h (lst ?lk)) = members s l - {b}"
    by (auto simp: h(4) members_def)
  from relisted [OF inv h(2,3) _ _ pos] that h(1,5,6) True len show ?thesis
    unfolding set by (simp add: on_link_relist subset_insertI2)
next
  case False
  let ?lk = "the_link l s"
  have ok: "ok (xmit_len s l) ?lk (ns_heap s)" "ook (xmit_len s l) ?lk (ns_heap s)"
    using link_okD(1,2) [OF tx_invD(4) [OF inv]] both_ok by blast+
  obtain h where h: "del b n (?lk, ns_heap s) = Inr (False, ?lk, h)" "bl_inv held h" "h_lists h = h_lists (ns_heap s)"
    "same_bundles (ns_heap s) h"
    using del_absent [OF tx_invD(1) [OF inv(1)] b ok(1)] False unfolding members_def by metis
  have fr: "tx_frame l s (relist l ?lk h s)"
    using h(3) by (simp add: tx_frame_def)
  have "link_ok (relist l ?lk h s) l = link_ok s l"
    by (simp add: link_ok_def queue.ok_def inflight.ok_def queued_on_def inflight_on_def h(3))
  then have "tx_inv held nm remotes (relist l ?lk h s)"
    using tx_invD(4) [OF inv] by (intro tx_invI [OF inv(1) fr inv(2)]) (simp_all add: h(2) tx_invD(2,3) [OF inv(1)])
  then show ?thesis
    using that [of ?lk h] fr h(1,3,4) False by (simp add: on_link_relist members_def others_def)
qed

end

interpretation queues: node_list lk_queue lk_bundles_queued lk_bytes_queued
  "\<lambda>n m lk. lk\<lparr>lk_bundles_queued := n, lk_bytes_queued := m\<rparr>" add_to_queue del_from_queue lk_inflight inflight.ok
  by unfold_locales (auto simp: inflight.ok_def)

interpretation flights: node_list lk_inflight lk_bundles_inflight lk_bytes_inflight
  "\<lambda>n m lk. lk\<lparr>lk_bundles_inflight := n, lk_bytes_inflight := m\<rparr>" add_to_inflight del_from_inflight lk_queue queue.ok
  by unfold_locales (auto simp: queue.ok_def)

lemma list_members [simp]:
  "queues.members = queued_on" "queues.others = inflight_on" "flights.members = inflight_on" "flights.others = queued_on"
  by (simp_all add: fun_eq_iff queues.members_def queues.others_def flights.members_def flights.others_def
      queued_on_def inflight_on_def)

subsection \<open>Blocks and logs\<close>

lemma generate_blocks_length:
  assumes "generate_blocks env procs b xmit = Inr (Some (n, vec))"
  shows "n = total_length (bv_blocks vec)"
  using assms by (auto simp: generate_blocks_def bindR_eq_Inr Let_def split: option.splits if_splits prod.splits)

lemma lbs_delete_new: "lbs_find_blocks l xs = None \<Longrightarrow> lbs_delete_blocks l (xs @ [(l, v)]) = Inr xs"
  by (induction l xs rule: lbs_delete_blocks.induct) (auto split: if_splits)

lemma set_xmit_same: "set_xmit b (ns_xmit s b) s = s"
  by (simp add: set_xmit_def)

text \<open>A failure leaves the state as it was; otherwise the blocks are there, and their length is known.\<close>

lemma create_xmit_blocks_cases:
  assumes "create_xmit_blocks env b l s = Inr (n, s')"
  obtains "s' = s" "n = 0" "lbs_find_blocks l (ns_xmit s b) = None"
  | vec where "s' = set_xmit b (ns_xmit s b @ [(l, vec)]) s" "n = total_length (bv_blocks vec)"
      "lbs_find_blocks l (ns_xmit s b) = None"
proof -
  have none: "lbs_find_blocks l (ns_xmit s b) = None"
    using assms by (auto simp: create_xmit_blocks_def bindR_eq_Inr lbs_create_blocks_def)
  have failed: "bindR (lbs_delete_blocks l (ns_xmit s b @ [(l, block_vec_new)])) (\<lambda>xs. Inr (0, set_xmit b xs s)) = Inr (0, s)"
    by (simp add: lbs_delete_new [OF none] set_xmit_same)
  obtain x :: bundle_obj and r where r: "prepare_blocks (ne_bp env) (ne_procs env) (ne_md_gen env) (bo_data x) = Inr r"
    "(case r of None \<Rightarrow> Inr (0, s)
      | Some vec \<Rightarrow> bindR (generate_blocks (ne_bp env) (ne_procs env) (bo_data x) vec) (case_option (Inr (0, s))
          (\<lambda>(total_len, vec). Inr (total_len, set_xmit b (ns_xmit s b @ [(l, vec)]) s)))) = Inr (n, s')"
    using assms none
    by (simp add: create_xmit_blocks_def bindR_eq_Inr [of _ _ "(n, s')"] lbs_create_blocks_def Let_def failed) blast
  show ?thesis
  proof (cases r)
    case None
    then show ?thesis using r(2) none that(1) by simp
  next
    case (Some v)
    show ?thesis
    proof (cases "generate_blocks (ne_bp env) (ne_procs env) (bo_data x) v")
      case (Inl e)
      then show ?thesis using r(2) Some by simp
    next
      case (Inr g)
      show ?thesis
      proof (cases g)
        case None
        then show ?thesis using r(2) Some Inr none that(1) by simp
      next
        case (Some p)
        then have "generate_blocks (ne_bp env) (ne_procs env) (bo_data x) v = Inr (Some (fst p, snd p))"
          using Inr by simp
        from generate_blocks_length [OF this] show ?thesis
          using r(2) \<open>r = Some v\<close> Inr Some none that(2) [of "snd p"] by (simp add: case_prod_beta)
      qed
    qed
  qed
qed

lemma lbs_find_new:
  "lbs_find_blocks l xs = None \<Longrightarrow> lbs_find_blocks l (xs @ [(l, v)]) = Some v"
  "k \<noteq> l \<Longrightarrow> lbs_find_blocks k (xs @ [(l, v)]) = lbs_find_blocks k xs"
  by (auto simp: lbs_find_append split: option.split)

lemma no_blocks_no_list:
  assumes "tx_inv held nm remotes s" "real_link s l" "lbs_find_blocks l (ns_xmit s b) = None"
  shows "b \<notin> queued_on s l" "b \<notin> inflight_on s l"
  using link_okD(3,4) [OF tx_invD(4) [OF assms(1,2)], of b] assms(3) by (auto simp: xmit_len_def)

lemma link_ok_xmit:
  assumes "link_ok s l" "\<And>c. c \<in> queued_on s l \<union> inflight_on s l \<Longrightarrow> xmit_len s' l c = xmit_len s l c"
    "the_link l s' = the_link l s" "ns_heap s' = ns_heap s" "ns_log s' = ns_log s"
  shows "link_ok s' l"
proof -
  have "counts (xmit_len s' l) (h_lists (ns_heap s) (lk_queue (the_link l s))) n m =
      counts (xmit_len s l) (h_lists (ns_heap s) (lk_queue (the_link l s))) n m"
    "counts (xmit_len s' l) (h_lists (ns_heap s) (lk_inflight (the_link l s))) n m =
      counts (xmit_len s l) (h_lists (ns_heap s) (lk_inflight (the_link l s))) n m" for n m
    using assms(2) by (intro counts_cong; simp add: queued_on_def inflight_on_def)+
  moreover have "queued_on s' l = queued_on s l" "inflight_on s' l = inflight_on s l"
    by (simp_all add: queued_on_def inflight_on_def assms)
  ultimately show ?thesis
    using assms by (simp add: link_ok_def queue.ok_def inflight.ok_def)
qed

lemma tx_inv_new_blocks:
  fixes vec :: block_vec
  assumes inv: "tx_inv held nm remotes s" "real_link s l" and none: "lbs_find_blocks l (ns_xmit s b) = None"
  defines "s' \<equiv> set_xmit b (ns_xmit s b @ [(l, vec)]) s"
  shows "tx_inv held nm remotes s'" "tx_frame l s s'" "xmit_len s' l b = total_length (bv_blocks vec)"
    "queued_on s' l = queued_on s l" "inflight_on s' l = inflight_on s l" "xmit_len s' l = (xmit_len s l)(b := total_length (bv_blocks vec))"
proof -
  show lists: "queued_on s' l = queued_on s l" "inflight_on s' l = inflight_on s l"
    by (simp_all add: s'_def queued_on_def inflight_on_def)
  show len: "xmit_len s' l = (xmit_len s l)(b := total_length (bv_blocks vec))"
    by (simp add: s'_def xmit_len_def lbs_find_new none fun_eq_iff)
  then show "xmit_len s' l b = total_length (bv_blocks vec)"
    by simp
  show fr: "tx_frame l s s'"
    by (simp add: s'_def tx_frame_def lbs_find_new)
  have "link_ok s' l"
  proof (rule link_ok_xmit [OF tx_invD(4) [OF inv]])
    show "xmit_len s' l c = xmit_len s l c" if "c \<in> queued_on s l \<union> inflight_on s l" for c
      using that no_blocks_no_list [OF inv none] by (auto simp: len)
  qed (simp_all add: s'_def)
  moreover have "distinct (map fst (ns_xmit s' c))" for c
    using tx_invD(2) [OF inv(1)] none by (simp add: s'_def lbs_find_None)
  ultimately show "tx_inv held nm remotes s'"
    by (intro tx_invI [OF inv(1) fr inv(2)]) (simp_all add: s'_def tx_invD(1,3) [OF inv(1)])
qed

lemma delete_blocks_ok:
  assumes inv: "tx_inv held nm remotes s" "real_link s l" and some: "lbs_find_blocks l (ns_xmit s b) \<noteq> None"
    and off: "b \<notin> queued_on s l" "b \<notin> inflight_on s l"
  obtains xs where "delete_blocks b l s = Inr (set_xmit b xs s)" "tx_inv held nm remotes (set_xmit b xs s)"
    "tx_frame l s (set_xmit b xs s)" "lbs_find_blocks l xs = None"
proof -
  obtain xs where xs: "lbs_delete_blocks l (ns_xmit s b) = Inr xs" "distinct (map fst xs)"
    "\<And>k. lbs_find_blocks k xs = (if k = l then None else lbs_find_blocks k (ns_xmit s b))"
    using lbs_delete_ok [OF tx_invD(2) [OF inv(1)], of l b] some by (auto simp: lbs_find_None)
  have fr: "tx_frame l s (set_xmit b xs s)"
    by (simp add: tx_frame_def xs(3))
  have "link_ok (set_xmit b xs s) l"
    by (rule link_ok_xmit [OF tx_invD(4) [OF inv]]) (use off in \<open>auto simp: xmit_len_def\<close>)
  then have "tx_inv held nm remotes (set_xmit b xs s)"
    using xs(2) tx_invD(2) [OF inv(1)] by (intro tx_invI [OF inv(1) fr inv(2)]) (simp_all add: tx_invD(1,3) [OF inv(1)])
  then show ?thesis
    using that [of xs] xs fr by (simp add: delete_blocks_def)
qed

lemma log_changed:
  assumes inv: "tx_inv held nm remotes s" "real_link s l" and log: "by_name.remotes_ok nm remotes log"
    and keys: "\<And>n. by_name.view (ns_log s b) n \<noteq> None \<Longrightarrow> by_name.view log n \<noteq> None"
  shows "tx_inv held nm remotes (set_log b log s)" "tx_frame l s (set_log b log s)"
    "queued_on (set_log b log s) = queued_on s" "inflight_on (set_log b log s) = inflight_on s"
    "xmit_len (set_log b log s) = xmit_len s"
proof -
  show eqs: "queued_on (set_log b log s) = queued_on s" "inflight_on (set_log b log s) = inflight_on s"
    "xmit_len (set_log b log s) = xmit_len s"
    by (simp_all add: fun_eq_iff queued_on_def inflight_on_def xmit_len_def)
  show fr: "tx_frame l s (set_log b log s)"
    using keys by (simp add: tx_frame_def)
  have "link_ok (set_log b log s) l"
    using tx_invD(4) [OF inv] keys unfolding link_ok_def eqs by simp
  then show "tx_inv held nm remotes (set_log b log s)"
    using log by (intro tx_invI [OF inv(1) fr inv(2)]) (simp_all add: tx_invD(1,2,3) [OF inv(1)])
qed

lemma log_update_ok:
  assumes inv: "tx_inv held (ne_naming env) remotes s" "real_link s l"
  obtains log where "log_update env b l st s = Inr (by_name.view (ns_log s b) (lk_name (the_link l s)) \<noteq> None, set_log b log s)"
    "tx_inv held (ne_naming env) remotes (set_log b log s)" "tx_frame l s (set_log b log s)"
    "by_name.view log = (if by_name.view (ns_log s b) (lk_name (the_link l s)) = None then by_name.view (ns_log s b)
       else (by_name.view (ns_log s b))(lk_name (the_link l s) \<mapsto> st))"
proof (rule update_link_ok [where log = "ns_log s b" and now = "ne_now env" and st = st,
      OF tx_invD(3) [OF inv(1)] tx_invD(6) [OF inv]])
  fix log
  assume log: "update_link (ne_naming env) (ne_now env) (the_link l s) st (ns_log s b) =
      Inr (by_name.view (ns_log s b) (lk_name (the_link l s)) \<noteq> None, log)"
    "by_name.view log = (if by_name.view (ns_log s b) (lk_name (the_link l s)) = None then by_name.view (ns_log s b)
       else (by_name.view (ns_log s b))(lk_name (the_link l s) \<mapsto> st))"
    "by_name.remotes_ok (ne_naming env) remotes log"
  have "by_name.view log n \<noteq> None" if "by_name.view (ns_log s b) n \<noteq> None" for n
    using that log(2) by (simp split: if_splits)
  from that [OF _ log_changed(1,2) [OF inv log(3) this] log(2)] log(1) show ?thesis
    by (simp add: log_update_def)
qed

text \<open>A new entry also marks the link as used.\<close>

lemma log_add_ok:
  assumes inv: "tx_inv held (ne_naming env) remotes s" "real_link s l"
  shows "tx_inv held (ne_naming env) remotes (log_add env b l action st spec s)" "tx_frame l s (log_add env b l action st spec s)"
    "by_name.view (ns_log (log_add env b l action st spec s) b) (lk_name (the_link l s)) = Some st"
    "queued_on (log_add env b l action st spec s) = queued_on s" "inflight_on (log_add env b l action st spec s) = inflight_on s"
    "xmit_len (log_add env b l action st spec s) = xmit_len s" "ns_heap (log_add env b l action st spec s) = ns_heap s"
    "ns_xmit (log_add env b l action st spec s) = ns_xmit s"
proof -
  let ?lk = "set_used_in_fwdlog (the_link l s)"
  let ?log = "fst (add_entry_link (ne_now env) (the_link l s) action st spec (ns_log s b))"
  let ?s = "ns_set_link l ?lk s"
  have eq: "log_add env b l action st spec s = set_log b ?log ?s"
    by (simp add: log_add_def add_entry_link_def)
  have lk: "lk_queue ?lk = lk_queue (the_link l s)" "lk_inflight ?lk = lk_inflight (the_link l s)"
    "lk_name ?lk = lk_name (the_link l s)" "lk_remote_eid ?lk = lk_remote_eid (the_link l s)"
    "queue.ok (xmit_len s l) ?lk (ns_heap s) = queue.ok (xmit_len s l) (the_link l s) (ns_heap s)"
    "inflight.ok (xmit_len s l) ?lk (ns_heap s) = inflight.ok (xmit_len s l) (the_link l s) (ns_heap s)"
    by (simp_all add: set_used_in_fwdlog_def queue.ok_def inflight.ok_def)
  have sets: "queued_on ?s = queued_on s" "inflight_on ?s = inflight_on s" "xmit_len ?s = xmit_len s"
    using lk by (simp_all add: fun_eq_iff queued_on_def inflight_on_def xmit_len_def)
  have fr: "tx_frame l s ?s"
    by (simp add: tx_frame_def lk)
  have "link_ok ?s l"
    using tx_invD(4) [OF inv] lk unfolding link_ok_def sets by simp
  then have inv1: "tx_inv held (ne_naming env) remotes ?s"
    by (intro tx_invI [OF inv(1) fr inv(2)]) (simp_all add: tx_invD(1,2,3) [OF inv(1)])
  have l: "real_link ?s l"
    using inv(2) tx_frame_links(5) [OF fr] by simp
  have log: "by_name.remotes_ok (ne_naming env) remotes ?log"
    by (rule add_entry_link_ok(1) [OF tx_invD(3) [OF inv(1)] tx_invD(6) [OF inv]])
  have view: "by_name.view ?log = (by_name.view (ns_log s b))(lk_name (the_link l s) \<mapsto> st)"
    by (rule add_entry_link_ok(2))
  have keys: "by_name.view (ns_log ?s b) n \<noteq> None \<Longrightarrow> by_name.view ?log n \<noteq> None" for n
    by (simp add: view)
  note changed = log_changed [OF inv1 l log keys]
  show "tx_inv held (ne_naming env) remotes (log_add env b l action st spec s)" "tx_frame l s (log_add env b l action st spec s)"
    unfolding eq using changed(1) tx_frame_trans [OF fr changed(2)] by blast+
  show "by_name.view (ns_log (log_add env b l action st spec s) b) (lk_name (the_link l s)) = Some st"
    "queued_on (log_add env b l action st spec s) = queued_on s" "inflight_on (log_add env b l action st spec s) = inflight_on s"
    "xmit_len (log_add env b l action st spec s) = xmit_len s" "ns_heap (log_add env b l action st spec s) = ns_heap s"
    "ns_xmit (log_add env b l action st spec s) = ns_xmit s"
    unfolding eq using changed(3,4,5) by (simp_all add: view sets)
qed

subsection \<open>The operations keep the invariant\<close>

text \<open>
  What the calls that leave the model may do: they succeed, keep the invariant and the set of links,
  and do not touch the data of a referenced bundle. Reactive fragmentation, which works on the
  blocks, also leaves the block lists and the lists of the links alone.
\<close>

definition data_kept :: "(bundle_ptr \<Rightarrow> int) \<Rightarrow> node_sys \<Rightarrow> node_sys \<Rightarrow> bool" where
  "data_kept held s s' \<longleftrightarrow> (\<forall>b. 1 \<le> held b \<longrightarrow> bo_data (h_bundles (ns_heap s') b) = bo_data (h_bundles (ns_heap s) b))"

definition tx_keeps :: "(bundle_ptr \<Rightarrow> int) \<Rightarrow> naming \<Rightarrow> (bytes \<Rightarrow> eid) \<Rightarrow> node_sys \<Rightarrow> node_sys \<Rightarrow> bool" where
  "tx_keeps held nm remotes s s' \<longleftrightarrow>
     tx_inv held nm remotes s' \<and> (\<forall>k. real_link s' k = real_link s k) \<and> data_kept held s s'"

definition calls_ok :: "(bundle_ptr \<Rightarrow> int) \<Rightarrow> (bytes \<Rightarrow> eid) \<Rightarrow> node_env \<Rightarrow> bool" where
  "calls_ok held remotes env \<longleftrightarrow>
     (\<forall>s b l. tx_inv held (ne_naming env) remotes s \<longrightarrow>
        (\<exists>r s'. ne_fragment env b l s = Inr (r, s') \<and> tx_keeps held (ne_naming env) remotes s s')) \<and>
     (\<forall>s b v n. tx_inv held (ne_naming env) remotes s \<longrightarrow>
        (\<exists>s'. ne_react env b v n s = Inr s' \<and> tx_keeps held (ne_naming env) remotes s s' \<and> ns_xmit s' = ns_xmit s \<and>
           queued_on s' = queued_on s \<and> inflight_on s' = inflight_on s)) \<and>
     (\<forall>s b flag reason. tx_inv held (ne_naming env) remotes s \<longrightarrow>
        (\<exists>s'. ne_report env b flag reason s = Inr s' \<and> tx_keeps held (ne_naming env) remotes s s'))"

lemma tx_keepsI:
  "tx_inv held nm remotes s' \<Longrightarrow> tx_frame l s s' \<Longrightarrow> data_kept held s s' \<Longrightarrow> tx_keeps held nm remotes s s'"
  by (simp add: tx_keeps_def tx_frame_links(5))

lemma data_kept_same: "same_bundles (ns_heap s) (ns_heap s') \<Longrightarrow> data_kept held s s'"
  by (simp add: data_kept_def same_bundles_def)

lemma data_kept_trans: "data_kept held s s1 \<Longrightarrow> data_kept held s1 s2 \<Longrightarrow> data_kept held s s2"
  by (simp add: data_kept_def)

lemma tx_keeps_refl: "tx_inv held nm remotes s \<Longrightarrow> tx_keeps held nm remotes s s"
  by (simp add: tx_keeps_def data_kept_def)

lemma tx_keeps_trans: "tx_keeps held nm remotes s s1 \<Longrightarrow> tx_keeps held nm remotes s1 s2 \<Longrightarrow> tx_keeps held nm remotes s s2"
  by (auto simp: tx_keeps_def data_kept_def)

lemma tx_keeps_cong:
  assumes "tx_keeps held nm remotes s s1" "cm_links (ns_cm s2) = cm_links (ns_cm s1)" "ns_heap s2 = ns_heap s1"
    "ns_log s2 = ns_log s1" "ns_xmit s2 = ns_xmit s1"
  shows "tx_keeps held nm remotes s s2"
  using assms(1) tx_inv_cong(1,2) [OF assms(2-5)] assms(3) by (simp add: tx_keeps_def data_kept_def)

lemma keeps_relist:
  assumes "tx_inv held nm remotes (relist l lk h s)" "tx_frame l s (relist l lk h s)" "same_bundles (ns_heap s) h"
  shows "tx_keeps held nm remotes s (relist l lk h s)"
  using assms by (intro tx_keepsI data_kept_same) simp_all

lemma keeps_set_xmit:
  "tx_inv held nm remotes (set_xmit b xs s) \<Longrightarrow> tx_frame l s (set_xmit b xs s) \<Longrightarrow> tx_keeps held nm remotes s (set_xmit b xs s)"
  by (intro tx_keepsI data_kept_same) simp_all

lemma keeps_set_log:
  "tx_inv held nm remotes (set_log b log s) \<Longrightarrow> tx_frame l s (set_log b log s) \<Longrightarrow> tx_keeps held nm remotes s (set_log b log s)"
  by (intro tx_keepsI data_kept_same) simp_all

lemma keeps_log_add:
  assumes "tx_inv held (ne_naming env) remotes s" "real_link s l"
  shows "tx_keeps held (ne_naming env) remotes s (log_add env b l action st spec s)"
  using log_add_ok [OF assms] by (intro tx_keepsI data_kept_same) simp_all

lemma tx_keepsD:
  assumes "tx_keeps held nm remotes s s'"
  shows "tx_inv held nm remotes s'" "real_link s' l = real_link s l"
  using assms by (simp_all add: tx_keeps_def)

lemma contains_queue:
  assumes "tx_inv held nm remotes s" "1 \<le> held b"
  shows "bl_contains (lk_queue (the_link l s)) b (ns_heap s) = Inr (b \<in> queued_on s l)"
    "bl_contains (lk_inflight (the_link l s)) b (ns_heap s) = Inr (b \<in> inflight_on s l)"
  using contains_held [OF tx_invD(1) [OF assms(1)] assms(2)] by (simp_all add: queued_on_def inflight_on_def)

text \<open>There is room in the queue for what is to be formatted.\<close>

definition queue_room :: "node_env \<Rightarrow> bundle_ptr \<Rightarrow> link_id \<Rightarrow> node_sys \<Rightarrow> bool" where
  "queue_room env b l s \<longleftrightarrow>
     (\<exists>n s'. create_xmit_blocks env b l s = Inr (n, s') \<and> list_room s l (lk_queue (the_link l s)) n)"

lemma fold_post_fields:
  "cm_links (ns_cm (fold (\<lambda>f. ns_post_at_head (ev f)) bs s)) = cm_links (ns_cm s)"
  "ns_heap (fold (\<lambda>f. ns_post_at_head (ev f)) bs s) = ns_heap s"
  "ns_log (fold (\<lambda>f. ns_post_at_head (ev f)) bs s) = ns_log s"
  "ns_xmit (fold (\<lambda>f. ns_post_at_head (ev f)) bs s) = ns_xmit s"
  by (induction bs arbitrary: s) simp_all

lemma mtu_branch_ok:
  assumes "calls_ok held remotes env" "tx_inv held (ne_naming env) remotes s" "real_link s l"
  shows "\<exists>ok s'. bindR (ne_fragment env b l s) (\<lambda>(frags, s).
      case frags of
        None \<Rightarrow> Inr (False, s)
      | Some bs \<Rightarrow>
          let s = fold (\<lambda>f. ns_post_at_head (BundleReceived f EVENTSRC_FRAGMENTATION)) bs s;
              s = log_add env b l action SUPPRESSED custody_defaults s
          in Inr (True, ns_post_at_head (BundleDelete b REASON_NO_ADDTL_INFO) s)) = Inr (ok, s') \<and>
    tx_keeps held (ne_naming env) remotes s s'"
proof -
  obtain r s1 where s1: "ne_fragment env b l s = Inr (r, s1)" "tx_keeps held (ne_naming env) remotes s s1"
    using assms(1,2) unfolding calls_ok_def by blast
  show ?thesis
  proof (cases r)
    case None
    then show ?thesis using s1 by auto
  next
    case (Some bs)
    let ?s2 = "fold (\<lambda>f. ns_post_at_head (BundleReceived f EVENTSRC_FRAGMENTATION)) bs s1"
    let ?s3 = "log_add env b l action SUPPRESSED custody_defaults ?s2"
    have s2: "tx_keeps held (ne_naming env) remotes s ?s2"
      by (rule tx_keeps_cong [OF s1(2)]) (simp_all add: fold_post_fields)
    then have "tx_keeps held (ne_naming env) remotes ?s2 ?s3"
      using tx_keepsD [OF s2] assms(3) by (intro keeps_log_add) simp_all
    from tx_keeps_trans [OF s2 this]
    have "tx_keeps held (ne_naming env) remotes s (ns_post_at_head (BundleDelete b REASON_NO_ADDTL_INFO) ?s3)"
      by (rule tx_keeps_cong) simp_all
    then show ?thesis
      using Some s1(1) by (intro exI [of _ True]) (simp add: Let_def)
  qed
qed

lemma queue_bundle_ok:
  assumes calls: "calls_ok held remotes env" and inv: "tx_inv held (ne_naming env) remotes s" "real_link s l"
    and b: "1 \<le> held b" and room: "lbs_find_blocks l (ns_xmit s b) = None \<Longrightarrow> queue_room env b l s"
  shows "\<exists>ok s'. queue_bundle env b l action spec s = Inr (ok, s') \<and> tx_keeps held (ne_naming env) remotes s s'"
proof (cases "lk_deleted (the_link l s) \<or> lbs_find_blocks l (ns_xmit s b) \<noteq> None")
  case True
  then show ?thesis
    using tx_keeps_refl [OF inv(1)] by (auto simp: queue_bundle_def)
next
  case False
  then have none: "lbs_find_blocks l (ns_xmit s b) = None" and live: "\<not> lk_deleted (the_link l s)"
    by simp_all
  obtain n s1 where s1: "create_xmit_blocks env b l s = Inr (n, s1)" and fits: "list_room s l (lk_queue (the_link l s)) n"
    using room [OF none] unfolding queue_room_def by blast
  from s1 show ?thesis
  proof (cases rule: create_xmit_blocks_cases)
    case 1
    then show ?thesis
      using none live s1 tx_keeps_refl [OF inv(1)] by (intro exI [of _ False]) (simp add: queue_bundle_def)
  next
    case (2 vec)
    note new = tx_inv_new_blocks [OF inv none, of vec, folded 2(1)]
    have k1: "tx_keeps held (ne_naming env) remotes s s1"
      using new(1,2) unfolding 2(1) by (rule keeps_set_xmit)
    have l1: "real_link s1 l"
      using tx_keepsD(2) [OF k1] inv(2) by simp
    have lk1: "the_link l s1 = the_link l s" "ns_heap s1 = ns_heap s"
      by (simp_all add: 2(1))
    have off: "b \<notin> queued_on s1 l" "b \<notin> inflight_on s1 l"
      using no_blocks_no_list [OF inv none] new(4,5) by simp_all
    obtain st where st: "get_latest_state_link (ne_naming env) (the_link l s1) (ns_log s1 b) = Inr st"
      using get_latest_state_link_eq [OF tx_invD(3) [OF new(1)] tx_invD(6) [OF new(1) l1]] by blast
    let ?mtu = "lp_mtu (lk_params (the_link l s1)) \<noteq> 0 \<and> n > unat (lp_mtu (lk_params (the_link l s1)))"
    note step = none live s1 st off contains_queue [OF new(1) b]
    consider "n = 0 \<or> st = QUEUED" | "n \<noteq> 0" "st \<noteq> QUEUED" ?mtu | "n \<noteq> 0" "st \<noteq> QUEUED" "\<not> ?mtu"
      by blast
    then show ?thesis
    proof cases
      case 1
      then show ?thesis
        using step k1 by (auto simp: queue_bundle_def)
    next
      case 2
      with mtu_branch_ok [OF calls new(1) l1, of b action] obtain ok s' where
        "queue_bundle env b l action spec s = Inr (ok, s')" "tx_keeps held (ne_naming env) remotes s1 s'"
        using step by (auto simp: queue_bundle_def)
      then show ?thesis
        using tx_keeps_trans [OF k1] by blast
    next
      case 3
      let ?s2 = "log_add env b l action QUEUED spec s1"
      note add = log_add_ok [OF new(1) l1, of b action QUEUED spec]
      have k2: "tx_keeps held (ne_naming env) remotes s1 ?s2"
        by (rule keeps_log_add [OF new(1) l1])
      have l2: "real_link ?s2 l"
        using tx_keepsD(2) [OF k2] l1 by simp
      have name: "lk_name (the_link l ?s2) = lk_name (the_link l s1)" "lk_queue (the_link l ?s2) = lk_queue (the_link l s1)"
        using tx_frame_links(1,3) [OF add(2)] by blast+
      have len: "xmit_len ?s2 l b = n"
        using new(3) 2(2) add(6) by simp
      have xs: "list_bytes (xmit_len s1 l) xs = list_bytes (xmit_len s l) xs" if "b \<notin> snd ` set xs" for xs
        using that new(6) by (induction xs) auto
      have fits2: "list_room ?s2 l (lk_queue (the_link l ?s2)) (xmit_len ?s2 l b)"
        using fits off(1) len unfolding list_room_def name add(6,7) lk1 by (simp add: xs queued_on_def lk1)
      have view: "by_name.view (ns_log ?s2 b) (lk_name (the_link l ?s2)) \<noteq> None"
        using add(3) name by simp
      have offm: "b \<notin> queues.members ?s2 l" and pos: "0 < xmit_len ?s2 l b"
        using off(1) 3(1) len by (simp_all add: add(4))
      obtain lk h where q: "on_link l (add_to_queue b (xmit_len ?s2 l b)) ?s2 = Inr (True, relist l lk h ?s2)"
        "tx_inv held (ne_naming env) remotes (relist l lk h ?s2)" "tx_frame l ?s2 (relist l lk h ?s2)"
        "queues.members (relist l lk h ?s2) l = insert b (queues.members ?s2 l)"
        "queues.others (relist l lk h ?s2) l = queues.others ?s2 l" "same_bundles (ns_heap ?s2) h"
        by (rule queues.add_ok [OF add(1) l2 b offm pos view fits2])
      have "queue_bundle env b l action spec s = Inr (True, relist l lk h ?s2)"
        using step 3 q(1) unfolding len by (auto simp: queue_bundle_def)
      then show ?thesis
        using tx_keeps_trans [OF tx_keeps_trans [OF k1 k2] keeps_relist [OF q(2,3,6)]] by blast
    qed
  qed
qed

lemma blocks_len: "lbs_find_blocks l (ns_xmit s b) = Some v \<Longrightarrow> xmit_len s l b = total_length (bv_blocks v)"
  by (simp add: xmit_len_def)

lemma cancel_bundle_ok:
  assumes inv: "tx_inv held nm remotes s" "real_link s l" and b: "1 \<le> held b"
  shows "\<exists>s'. cancel_bundle b l s = Inr s' \<and> tx_keeps held nm remotes s s' \<and>
    (\<not> lk_deleted (the_link l s) \<longrightarrow> queued_on s' l = queued_on s l - {b}) \<and> inflight_on s' l = inflight_on s l"
proof (cases "lk_deleted (the_link l s) \<or> lbs_find_blocks l (ns_xmit s b) = None")
  case True
  then show ?thesis
    using no_blocks_no_list(1) [OF inv] tx_keeps_refl [OF inv(1)] by (intro exI [of _ s]) (auto simp: cancel_bundle_def)
next
  case False
  then obtain v where v: "lbs_find_blocks l (ns_xmit s b) = Some v" and live: "\<not> lk_deleted (the_link l s)"
    by auto
  obtain lk h where d: "on_link l (del_from_queue b (total_length (bv_blocks v))) s = Inr (b \<in> queues.members s l, relist l lk h s)"
    "tx_inv held nm remotes (relist l lk h s)" "tx_frame l s (relist l lk h s)"
    "queues.members (relist l lk h s) l = queues.members s l - {b}" "queues.others (relist l lk h s) l = queues.others s l"
    "same_bundles (ns_heap s) h"
    by (rule queues.del_ok [OF inv b]) (simp_all add: blocks_len [OF v])
  note k = keeps_relist [OF d(2,3,6)]
  have post: "tx_keeps held nm remotes s (ns_post (BundleSendCancelled b l) (relist l lk h s))"
    by (rule tx_keeps_cong [OF k]) simp_all
  have sets: "queued_on (ns_post ev t) = queued_on t" "inflight_on (ns_post ev t) = inflight_on t" for ev t
    by (simp_all add: fun_eq_iff queued_on_def inflight_on_def)
  show ?thesis
    using v live d(1,4,5) k post contains_queue(2) [OF d(2) b, of l] by (cases "b \<in> queued_on s l") (auto simp: cancel_bundle_def sets)
qed

lemma relist_same: "relist l (the_link l s) (ns_heap s) s = s"
  by (simp add: relist_def ns_set_link_def set_link_def)

lemma start_next_bundle_ok:
  assumes inv: "tx_inv held nm remotes s" "real_link s l"
    and held: "\<And>b. b \<in> queued_on s l \<Longrightarrow> 1 \<le> held b"
    and room: "\<And>n b xs. h_lists (ns_heap s) (lk_queue (the_link l s)) = (n, b) # xs \<Longrightarrow>
      list_room s l (lk_inflight (the_link l s)) (xmit_len s l b)"
  shows "\<exists>r s'. start_next_bundle l s = Inr (r, s') \<and> tx_keeps held nm remotes s s' \<and>
    (case r of None \<Rightarrow> queued_on s l = {} \<and> s' = s
     | Some b \<Rightarrow> b \<in> queued_on s l \<and> queued_on s' l = queued_on s l - {b} \<and> inflight_on s' l = insert b (inflight_on s l))"
proof (cases "h_lists (ns_heap s) (lk_queue (the_link l s))")
  case Nil
  then show ?thesis
    using tx_keeps_refl [OF inv(1)] by (intro exI [of _ None]) (simp add: start_next_bundle_def queued_on_def)
next
  case (Cons p xs)
  then obtain n b where p: "h_lists (ns_heap s) (lk_queue (the_link l s)) = (n, b) # xs"
    by (cases p) auto
  have mem: "b \<in> queued_on s l"
    by (simp add: queued_on_def p)
  note b = held [OF mem] and ok = tx_invD(4) [OF inv]
  have pos: "0 < xmit_len s l b" "by_name.view (ns_log s b) (lk_name (the_link l s)) \<noteq> None"
    using link_okD(3,5) [OF ok] mem by blast+
  then obtain v where v: "lbs_find_blocks l (ns_xmit s b) = Some v" "xmit_len s l b = total_length (bv_blocks v)"
    using xmit_len_pos by blast
  obtain lk h ok1 where a: "on_link l (add_to_inflight b (xmit_len s l b)) s = Inr (ok1, relist l lk h s)"
    "tx_inv held nm remotes (relist l lk h s)" "tx_frame l s (relist l lk h s)" "same_bundles (ns_heap s) h"
    "inflight_on (relist l lk h s) l = insert b (inflight_on s l)" "queued_on (relist l lk h s) l = queued_on s l"
  proof (cases "b \<in> inflight_on s l")
    case True
    have "add_to_inflight b (xmit_len s l b) (the_link l s, ns_heap s) = Inr (False, the_link l s, ns_heap s)"
      using True by (intro inflight.add_present [OF tx_invD(1) [OF inv(1)] b]) (simp add: inflight_on_def)
    then show ?thesis
      using that [of False "the_link l s" "ns_heap s"] True inv(1) tx_frame_refl by (simp add: on_link_relist relist_same insert_absorb)
  next
    case False
    then have "b \<notin> flights.members s l"
      by simp
    from flights.add_ok [OF inv b this pos room [OF p]] that show ?thesis
      by (metis list_members(3,4))
  qed
  note k1 = keeps_relist [OF a(2,3,4)]
  have l1: "real_link (relist l lk h s) l"
    using tx_keepsD(2) [OF k1] inv(2) by simp
  obtain lk' h' where d: "on_link l (del_from_queue b (xmit_len s l b)) (relist l lk h s) =
      Inr (b \<in> queues.members (relist l lk h s) l, relist l lk' h' (relist l lk h s))"
    "tx_inv held nm remotes (relist l lk' h' (relist l lk h s))" "tx_frame l (relist l lk h s) (relist l lk' h' (relist l lk h s))"
    "queues.members (relist l lk' h' (relist l lk h s)) l = queues.members (relist l lk h s) l - {b}"
    "queues.others (relist l lk' h' (relist l lk h s)) l = queues.others (relist l lk h s) l"
    "same_bundles (ns_heap (relist l lk h s)) h'"
    by (rule queues.del_ok [OF a(2) l1 b]) simp_all
  have "start_next_bundle l s = Inr (Some b, relist l lk' h' (relist l lk h s))"
    using p v a(1) d(1) by (simp add: start_next_bundle_def Let_def)
  then show ?thesis
    using tx_keeps_trans [OF k1 keeps_relist [OF d(2,3,6)]] d(4,5) a(5,6) mem by simp
qed

text \<open>A change of the statistics of a link.\<close>

lemma keeps_stats:
  fixes st :: link_stats
  assumes "tx_inv held nm remotes s" "real_link s l"
  defines "s' \<equiv> ns_set_link l ((the_link l s)\<lparr>lk_stats := st\<rparr>) s"
  shows "tx_keeps held nm remotes s s'" "queued_on s' = queued_on s" "inflight_on s' = inflight_on s" "xmit_len s' = xmit_len s"
    "ns_log s' = ns_log s" "lk_name (the_link l s') = lk_name (the_link l s)" "ns_xmit s' = ns_xmit s"
proof -
  show sets: "queued_on s' = queued_on s" "inflight_on s' = inflight_on s" "xmit_len s' = xmit_len s"
    by (simp_all add: s'_def fun_eq_iff queued_on_def inflight_on_def xmit_len_def)
  show "ns_log s' = ns_log s" "lk_name (the_link l s') = lk_name (the_link l s)" "ns_xmit s' = ns_xmit s"
    by (simp_all add: s'_def)
  have fr: "tx_frame l s s'"
    by (simp add: tx_frame_def s'_def)
  have "link_ok s' l"
    using tx_invD(4) [OF assms(1,2)] unfolding link_ok_def sets by (simp add: s'_def queue.ok_def inflight.ok_def)
  then have "tx_inv held nm remotes s'"
    by (intro tx_invI [OF assms(1) fr assms(2)]) (simp_all add: s'_def tx_invD(1,2,3) [OF assms(1)])
  then show "tx_keeps held nm remotes s s'"
    using fr by (rule tx_keepsI) (simp add: data_kept_def s'_def)
qed

lemma handle_bundle_cancelled_ok:
  assumes inv: "tx_inv held (ne_naming env) remotes s" "real_link s l" and b: "1 \<le> held b"
    and off: "b \<notin> queued_on s l" "b \<notin> inflight_on s l"
  shows "\<exists>s'. handle_bundle_cancelled env b l s = Inr s' \<and> tx_keeps held (ne_naming env) remotes s s' \<and>
    lbs_find_blocks l (ns_xmit s' b) = None \<and>
    (lbs_find_blocks l (ns_xmit s b) \<noteq> None \<and> by_name.view (ns_log s b) (lk_name (the_link l s)) \<noteq> None \<longrightarrow>
      by_name.view (ns_log s' b) (lk_name (the_link l s)) = Some CANCELLED)"
proof (cases "lbs_find_blocks l (ns_xmit s b)")
  case None
  then show ?thesis
    using tx_keeps_refl [OF inv(1)] by (simp add: handle_bundle_cancelled_def)
next
  case (Some v)
  let ?st = "(lk_stats (the_link l s))\<lparr>st_bundles_cancelled := st_bundles_cancelled (lk_stats (the_link l s)) + 1\<rparr>"
  let ?s1 = "ns_set_link l ((the_link l s)\<lparr>lk_stats := ?st\<rparr>) s"
  note k1 = keeps_stats [OF inv, of ?st]
  have i1: "tx_inv held (ne_naming env) remotes ?s1" and l1: "real_link ?s1 l"
    using tx_keepsD [OF k1(1)] inv(2) by simp_all
  obtain xs where d: "delete_blocks b l ?s1 = Inr (set_xmit b xs ?s1)" "tx_inv held (ne_naming env) remotes (set_xmit b xs ?s1)"
    "tx_frame l ?s1 (set_xmit b xs ?s1)" "lbs_find_blocks l xs = None"
    using delete_blocks_ok [OF i1 l1, of b] Some off k1(2,3) by auto
  let ?s2 = "set_xmit b xs ?s1"
  note k2 = keeps_set_xmit [OF d(2,3)]
  have l2: "real_link ?s2 l"
    using tx_keepsD(2) [OF k2] l1 by simp
  obtain log where u: "log_update env b l CANCELLED ?s2 = Inr (by_name.view (ns_log ?s2 b) (lk_name (the_link l ?s2)) \<noteq> None, set_log b log ?s2)"
    "tx_inv held (ne_naming env) remotes (set_log b log ?s2)" "tx_frame l ?s2 (set_log b log ?s2)"
    "by_name.view log = (if by_name.view (ns_log ?s2 b) (lk_name (the_link l ?s2)) = None then by_name.view (ns_log ?s2 b)
       else (by_name.view (ns_log ?s2 b))(lk_name (the_link l ?s2) \<mapsto> CANCELLED))"
    by (rule log_update_ok [OF d(2) l2])
  have "handle_bundle_cancelled env b l s = Inr (set_log b log ?s2)"
    using Some contains_queue [OF inv(1) b] d(1) u(1) by (simp add: handle_bundle_cancelled_def Let_def)
  then show ?thesis
    using tx_keeps_trans [OF tx_keeps_trans [OF k1(1) k2] keeps_set_log [OF u(2,3)]] d(4) u(4) by (intro exI [of _ "set_log b log ?s2"]) auto
qed

text \<open>The bundle leaves both lists, before anything else is done with it.\<close>

lemma leave_lists:
  assumes inv: "tx_inv held nm remotes s" "real_link s l" and b: "1 \<le> held b" and v: "lbs_find_blocks l (ns_xmit s b) = Some v"
  obtains ok1 s1 ok2 s2 where "on_link l (del_from_inflight b (total_length (bv_blocks v))) s = Inr (ok1, s1)"
    "on_link l (del_from_queue b (total_length (bv_blocks v))) s1 = Inr (ok2, s2)" "tx_keeps held nm remotes s s2"
    "b \<notin> queued_on s2 l" "b \<notin> inflight_on s2 l" "ns_log s2 = ns_log s" "ns_xmit s2 = ns_xmit s"
    "lk_name (the_link l s2) = lk_name (the_link l s)" "ns_custody s2 = ns_custody s"
proof -
  obtain lk h where d: "on_link l (del_from_inflight b (total_length (bv_blocks v))) s = Inr (b \<in> flights.members s l, relist l lk h s)"
    "tx_inv held nm remotes (relist l lk h s)" "tx_frame l s (relist l lk h s)"
    "flights.members (relist l lk h s) l = flights.members s l - {b}" "flights.others (relist l lk h s) l = flights.others s l"
    "same_bundles (ns_heap s) h"
    by (rule flights.del_ok [OF inv b]) (simp_all add: blocks_len [OF v])
  let ?s1 = "relist l lk h s"
  note k1 = keeps_relist [OF d(2,3,6)]
  have l1: "real_link ?s1 l"
    using tx_keepsD(2) [OF k1] inv(2) by simp
  obtain lk' h' where e: "on_link l (del_from_queue b (total_length (bv_blocks v))) ?s1 = Inr (b \<in> queues.members ?s1 l, relist l lk' h' ?s1)"
    "tx_inv held nm remotes (relist l lk' h' ?s1)" "tx_frame l ?s1 (relist l lk' h' ?s1)"
    "queues.members (relist l lk' h' ?s1) l = queues.members ?s1 l - {b}" "queues.others (relist l lk' h' ?s1) l = queues.others ?s1 l"
    "same_bundles (ns_heap ?s1) h'"
    by (rule queues.del_ok [OF d(2) l1 b]) (simp_all add: blocks_len [OF v])
  have "lk_name (the_link l (relist l lk' h' ?s1)) = lk_name (the_link l s)"
    using tx_frame_links(3) [OF d(3), of l] tx_frame_links(3) [OF e(3), of l] by simp
  then show ?thesis
    using that [OF d(1) e(1) tx_keeps_trans [OF k1 keeps_relist [OF e(2,3,6)]]] d(4) e(4,5)
    by (simp add: relist_def ns_set_link_def)
qed

abbreviation b_data :: "bundle_ptr \<Rightarrow> node_sys \<Rightarrow> dtn_bundle" where
  "b_data b s \<equiv> bo_data (h_bundles (ns_heap s) b)"

definition custody_ok :: "bundle_ptr \<Rightarrow> node_sys \<Rightarrow> bool" where
  "custody_ok b s \<longleftrightarrow>
     (b_local_custody (b_data b s) \<longrightarrow>
        (\<forall>fi\<in>set (ns_log s b). \<exists>t. calculate_timeout (fi_custody_spec fi) (b_expiration (b_data b s)) = Inr t))"

lemma get_obj_held: "tx_inv held nm remotes s \<Longrightarrow> 1 \<le> held b \<Longrightarrow> get_obj b (ns_heap s) = Inr (h_bundles (ns_heap s) b)"
  using held_alive(1) [OF tx_invD(1)] by (simp add: get_obj_def)

lemma transmitted_tail_ok:
  assumes calls: "calls_ok held remotes env" and inv: "tx_inv held (ne_naming env) remotes s" and b: "1 \<le> held b"
    and t: "b_local_custody (b_data b s) \<Longrightarrow> \<exists>t. calculate_timeout (fi_custody_spec fi) (b_expiration (b_data b s)) = Inr t"
  shows "\<exists>s'. transmitted_tail env b l fi s = Inr s' \<and> tx_keeps held (ne_naming env) remotes s s' \<and>
    (\<not> b_forward_rcpt (b_data b s) \<longrightarrow> ns_xmit s' = ns_xmit s \<and> ns_log s' = ns_log s \<and> queued_on s' = queued_on s \<and>
       inflight_on s' = inflight_on s)"
proof -
  obtain s1 where s1: "(if b_forward_rcpt (b_data b s) then ne_report env b SR_FORWARDED REASON_NO_ADDTL_INFO s else Inr s) = Inr s1"
    "tx_keeps held (ne_naming env) remotes s s1" "\<not> b_forward_rcpt (b_data b s) \<Longrightarrow> s1 = s"
  proof (cases "b_forward_rcpt (b_data b s)")
    case True
    obtain s1 where "ne_report env b SR_FORWARDED REASON_NO_ADDTL_INFO s = Inr s1" "tx_keeps held (ne_naming env) remotes s s1"
      using calls inv unfolding calls_ok_def by blast
    then show ?thesis using that [of s1] True by simp
  next
    case False
    then show ?thesis using that [of s] tx_keeps_refl [OF inv] by simp
  qed
  have data: "b_data b s1 = b_data b s"
    using s1(2) b by (simp add: tx_keeps_def data_kept_def)
  note obj = get_obj_held [OF inv b] get_obj_held [OF tx_keepsD(1) [OF s1(2)] b]
  show ?thesis
  proof (cases "b_local_custody (b_data b s)")
    case False
    then show ?thesis
      using obj s1 data by (intro exI [of _ s1]) (simp add: transmitted_tail_def)
  next
    case True
    then obtain d where d: "calculate_timeout (fi_custody_spec fi) (b_expiration (b_data b s)) = Inr d"
      using t by blast
    let ?s2 = "s1\<lparr>ns_custody := (ns_custody s1)(b := ns_custody s1 b @
      [\<lparr>ct_link = l, ct_due = add_time (fi_timestamp fi) d, ct_pending = True\<rparr>])\<rparr>"
    have "transmitted_tail env b l fi s = Inr ?s2"
      using obj s1(1) data True d by (simp add: transmitted_tail_def)
    moreover have "tx_keeps held (ne_naming env) remotes s ?s2"
      by (rule tx_keeps_cong [OF s1(2)]) simp_all
    moreover have "queued_on ?s2 = queued_on s1" "inflight_on ?s2 = inflight_on s1"
      by (simp_all add: fun_eq_iff queued_on_def inflight_on_def)
    ultimately show ?thesis
      using s1(3) by (intro exI [of _ ?s2]) auto
  qed
qed

lemma handle_bundle_transmitted_ok:
  assumes calls: "calls_ok held remotes env" and inv: "tx_inv held (ne_naming env) remotes s" "real_link s l" and b: "1 \<le> held b"
    and view: "lbs_find_blocks l (ns_xmit s b) \<noteq> None \<Longrightarrow> by_name.view (ns_log s b) (lk_name (the_link l s)) \<noteq> None"
    and custody: "custody_ok b s"
  shows "\<exists>s'. handle_bundle_transmitted env b l sent rel s = Inr s' \<and> tx_keeps held (ne_naming env) remotes s s' \<and>
    (lbs_find_blocks l (ns_xmit s b) \<noteq> None \<and> \<not> b_forward_rcpt (b_data b s) \<longrightarrow>
       lbs_find_blocks l (ns_xmit s' b) = None \<and> b \<notin> queued_on s' l \<and> b \<notin> inflight_on s' l)"
proof (cases "lbs_find_blocks l (ns_xmit s b)")
  case None
  then show ?thesis
    using tx_keeps_refl [OF inv(1)] by (simp add: handle_bundle_transmitted_def)
next
  case (Some v)
  let ?sa = "s\<lparr>ns_stats := (ns_stats s)\<lparr>ds_transmitted := ds_transmitted (ns_stats s) + 1\<rparr>\<rparr>"
  let ?st = "(lk_stats (the_link l s))\<lparr>st_bundles_transmitted := st_bundles_transmitted (lk_stats (the_link l s)) + 1,
    st_bytes_transmitted := st_bytes_transmitted (lk_stats (the_link l s)) + sent\<rparr>"
  let ?s0 = "ns_set_link l ((the_link l ?sa)\<lparr>lk_stats := ?st\<rparr>) ?sa"
  have ka: "tx_keeps held (ne_naming env) remotes s ?sa"
    by (rule tx_keeps_cong [OF tx_keeps_refl [OF inv(1)]]) simp_all
  note k0 = keeps_stats [OF tx_keepsD(1) [OF ka], of l ?st]
  have la: "real_link ?sa l"
    using tx_keepsD(2) [OF ka] inv(2) by simp
  have s0: "tx_keeps held (ne_naming env) remotes s ?s0"
    using tx_keeps_trans [OF ka k0(1) [OF la]] .
  have i0: "tx_inv held (ne_naming env) remotes ?s0" "real_link ?s0 l"
    using tx_keepsD [OF s0] inv(2) by simp_all
  have v0: "lbs_find_blocks l (ns_xmit ?s0 b) = Some v"
    using Some by simp
  obtain ok1 s1 ok2 s2 where d: "on_link l (del_from_inflight b (total_length (bv_blocks v))) ?s0 = Inr (ok1, s1)"
    "on_link l (del_from_queue b (total_length (bv_blocks v))) s1 = Inr (ok2, s2)" "tx_keeps held (ne_naming env) remotes ?s0 s2"
    "b \<notin> queued_on s2 l" "b \<notin> inflight_on s2 l" "ns_log s2 = ns_log ?s0" "ns_xmit s2 = ns_xmit ?s0"
    "lk_name (the_link l s2) = lk_name (the_link l ?s0)" "ns_custody s2 = ns_custody ?s0"
    by (rule leave_lists [OF i0 b v0])
  have k2: "tx_keeps held (ne_naming env) remotes s s2"
    using tx_keeps_trans [OF s0 d(3)] .
  note i2 = tx_keepsD(1) [OF k2]
  have l2: "real_link s2 l"
    using tx_keepsD(2) [OF k2] inv(2) by simp
  have log2: "ns_log s2 = ns_log s" "lk_name (the_link l s2) = lk_name (the_link l s)" "lbs_find_blocks l (ns_xmit s2 b) = Some v"
    using d(6,7,8) Some by simp_all
  have has: "by_name.view (ns_log s2 b) (lk_name (the_link l s2)) \<noteq> None"
    using view Some log2 by simp
  have upd: "\<exists>log. log_update env b l st s2 = Inr (True, set_log b log s2) \<and> tx_keeps held (ne_naming env) remotes s2 (set_log b log s2)" for st
    by (rule log_update_ok [OF i2 l2, of b st]) (use has keeps_set_log in \<open>auto\<close>)
  have after: "\<exists>xs. delete_blocks b l t = Inr (set_xmit b xs t) \<and> tx_keeps held (ne_naming env) remotes s2 (set_xmit b xs t) \<and>
      lbs_find_blocks l xs = None"
    if t: "tx_keeps held (ne_naming env) remotes s2 t" "ns_xmit t = ns_xmit s2" "queued_on t = queued_on s2" "inflight_on t = inflight_on s2" for t
  proof -
    have "real_link t l" "lbs_find_blocks l (ns_xmit t b) \<noteq> None" "b \<notin> queued_on t l" "b \<notin> inflight_on t l"
      using tx_keepsD(2) [OF t(1)] l2 t(2-4) log2(3) d(4,5) by simp_all
    from delete_blocks_ok [OF tx_keepsD(1) [OF t(1)] this] keeps_set_xmit tx_keeps_trans [OF t(1)] show ?thesis
      by metis
  qed
  show ?thesis
  proof (cases "ne_retry_reliable_unacked env \<and> lk_reliable (the_link l s2) \<and> sent \<noteq> rel \<and> rel = 0")
    case True
    obtain log where log: "log_update env b l TRANSMIT_FAILED s2 = Inr (True, set_log b log s2)"
      "tx_keeps held (ne_naming env) remotes s2 (set_log b log s2)"
      using upd by blast
    obtain xs where xs: "delete_blocks b l (set_log b log s2) = Inr (set_xmit b xs (set_log b log s2))"
      "tx_keeps held (ne_naming env) remotes s2 (set_xmit b xs (set_log b log s2))" "lbs_find_blocks l xs = None"
      using after [OF log(2)] by (auto simp: fun_eq_iff queued_on_def inflight_on_def)
    have "handle_bundle_transmitted env b l sent rel s = Inr (set_xmit b xs (set_log b log s2))"
      using Some d(1,2) True log(1) xs(1) by (auto simp: handle_bundle_transmitted_def Let_def)
    then show ?thesis
      using tx_keeps_trans [OF k2 xs(2)] xs(3) d(4,5) by (simp add: queued_on_def inflight_on_def)
  next
    case False
    obtain fi where f: "find (\<lambda>fi. fi_link_name fi = lk_name (the_link l s2)) (rev (ns_log s2 b)) = Some fi"
      using has unfolding by_name.view_find by blast
    then have fi: "get_latest_link (ne_naming env) (the_link l s2) (ns_log s2 b) = Inr (Some fi)" "fi \<in> set (ns_log s b)"
      using get_latest_link_eq [OF tx_invD(3) [OF i2] tx_invD(6) [OF i2 l2], of b] find_SomeD [OF f] log2(1) by simp_all
    obtain log where log: "log_update env b l TRANSMITTED s2 = Inr (True, set_log b log s2)"
      "tx_keeps held (ne_naming env) remotes s2 (set_log b log s2)"
      using upd by blast
    let ?s3 = "set_log b log s2"
    let ?n = "if lk_reliable (the_link l ?s3) then rel else sent"
    obtain s4 where s4: "ne_react env b v ?n ?s3 = Inr s4" "tx_keeps held (ne_naming env) remotes ?s3 s4" "ns_xmit s4 = ns_xmit ?s3"
      "queued_on s4 = queued_on ?s3" "inflight_on s4 = inflight_on ?s3"
      using calls tx_keepsD(1) [OF log(2)] unfolding calls_ok_def by blast
    obtain xs where xs: "delete_blocks b l s4 = Inr (set_xmit b xs s4)" "tx_keeps held (ne_naming env) remotes s2 (set_xmit b xs s4)"
      "lbs_find_blocks l xs = None"
      using after [OF tx_keeps_trans [OF log(2) s4(2)]] s4(3-5) by (auto simp: fun_eq_iff queued_on_def inflight_on_def)
    let ?s5 = "set_xmit b xs s4"
    have k5: "tx_keeps held (ne_naming env) remotes s ?s5"
      using tx_keeps_trans [OF k2 xs(2)] .
    have data: "b_data b ?s5 = b_data b s"
      using k5 b by (simp add: tx_keeps_def data_kept_def)
    have t5: "b_local_custody (b_data b ?s5) \<Longrightarrow> \<exists>t. calculate_timeout (fi_custody_spec fi) (b_expiration (b_data b ?s5)) = Inr t"
      using custody fi(2) unfolding data custody_ok_def by blast
    obtain s6 where s6: "transmitted_tail env b l fi ?s5 = Inr s6" "tx_keeps held (ne_naming env) remotes ?s5 s6"
      "\<not> b_forward_rcpt (b_data b ?s5) \<Longrightarrow> ns_xmit s6 = ns_xmit ?s5 \<and> queued_on s6 = queued_on ?s5 \<and> inflight_on s6 = inflight_on ?s5"
      using transmitted_tail_ok [OF calls tx_keepsD(1) [OF k5] b t5, of l] by blast
    have "handle_bundle_transmitted env b l sent rel s = Inr s6"
      using Some d(1,2) False fi(1) log(1) s4(1) xs(1) s6(1)
      by (auto simp: handle_bundle_transmitted_def Let_def)
    moreover have "queued_on ?s5 = queued_on s2" "inflight_on ?s5 = inflight_on s2"
      using s4(4,5) by (simp_all add: fun_eq_iff queued_on_def inflight_on_def)
    ultimately show ?thesis
      using tx_keeps_trans [OF k5 s6(2)] s6(3) xs(3) d(4,5) data by auto
  qed
qed

end
