(* ===== verification/TransmissionRuns.thy ===== *)
theory TransmissionRuns
  imports TransmissionQueue
begin

text \<open>
  Sequences of the operations of \<open>Actions\<close> on any number of links and bundles, the properties of the
  bookkeeping, and a small node on which they are evaluated.
\<close>

subsection \<open>Sequences of operations\<close>

datatype tx_op =
    QueueBundle bundle_ptr link_id fwd_action custody_spec
  | CancelBundle bundle_ptr link_id
  | StartNext link_id
  | Transmitted bundle_ptr link_id u32 u32
  | SendCancelled bundle_ptr link_id

fun tx_exec :: "node_env \<Rightarrow> tx_op \<Rightarrow> node_sys \<Rightarrow> node_sys res" where
  "tx_exec env (QueueBundle b l action spec) s = bindR (queue_bundle env b l action spec s) (\<lambda>(_, s). Inr s)"
| "tx_exec env (CancelBundle b l) s = cancel_bundle b l s"
| "tx_exec env (StartNext l) s = bindR (start_next_bundle l s) (\<lambda>(_, s). Inr s)"
| "tx_exec env (Transmitted b l sent acked) s = handle_bundle_transmitted env b l sent acked s"
| "tx_exec env (SendCancelled b l) s = handle_bundle_cancelled env b l s"

text \<open>
  When an operation may run: on a link that exists, for a bundle that is referenced, with room in the
  list it enters. The event of a transmission comes for a bundle with an entry in its log and a
  custody timeout that can be computed; the event of a cancelled one comes for a bundle that has left
  both lists.
\<close>

fun tx_allowed :: "(bundle_ptr \<Rightarrow> int) \<Rightarrow> node_env \<Rightarrow> tx_op \<Rightarrow> node_sys \<Rightarrow> bool" where
  "tx_allowed held env (QueueBundle b l action spec) s \<longleftrightarrow>
     real_link s l \<and> 1 \<le> held b \<and> (lbs_find_blocks l (ns_xmit s b) = None \<longrightarrow> queue_room env b l s)"
| "tx_allowed held env (CancelBundle b l) s \<longleftrightarrow> real_link s l \<and> 1 \<le> held b"
| "tx_allowed held env (StartNext l) s \<longleftrightarrow>
     real_link s l \<and> (\<forall>b\<in>queued_on s l. 1 \<le> held b) \<and>
     (\<forall>n b xs. h_lists (ns_heap s) (lk_queue (the_link l s)) = (n, b) # xs \<longrightarrow>
        list_room s l (lk_inflight (the_link l s)) (xmit_len s l b))"
| "tx_allowed held env (Transmitted b l sent acked) s \<longleftrightarrow>
     real_link s l \<and> 1 \<le> held b \<and> custody_ok b s \<and>
     (lbs_find_blocks l (ns_xmit s b) \<noteq> None \<longrightarrow> by_name.view (ns_log s b) (lk_name (the_link l s)) \<noteq> None)"
| "tx_allowed held env (SendCancelled b l) s \<longleftrightarrow>
     real_link s l \<and> 1 \<le> held b \<and> b \<notin> queued_on s l \<and> b \<notin> inflight_on s l"

fun tx_run :: "node_env \<Rightarrow> tx_op list \<Rightarrow> node_sys \<Rightarrow> node_sys res" where
  "tx_run env [] s = Inr s"
| "tx_run env (op # ops) s = bindR (tx_exec env op s) (tx_run env ops)"

fun tx_allowed_all :: "(bundle_ptr \<Rightarrow> int) \<Rightarrow> node_env \<Rightarrow> tx_op list \<Rightarrow> node_sys \<Rightarrow> bool" where
  "tx_allowed_all held env [] s = True"
| "tx_allowed_all held env (op # ops) s \<longleftrightarrow>
     tx_allowed held env op s \<and> (\<forall>s'. tx_exec env op s = Inr s' \<longrightarrow> tx_allowed_all held env ops s')"

lemma tx_exec_ok:
  assumes calls: "calls_ok held remotes env" and inv: "tx_inv held (ne_naming env) remotes s" and ok: "tx_allowed held env op s"
  shows "\<exists>s'. tx_exec env op s = Inr s' \<and> tx_keeps held (ne_naming env) remotes s s'"
proof (cases op)
  case (QueueBundle b l action spec)
  obtain r s' where "queue_bundle env b l action spec s = Inr (r, s')" "tx_keeps held (ne_naming env) remotes s s'"
    using queue_bundle_ok [OF calls inv, of l b action spec] ok QueueBundle by auto
  then show ?thesis using QueueBundle by simp
next
  case (CancelBundle b l)
  then show ?thesis using cancel_bundle_ok [OF inv, of l b] ok by auto
next
  case (StartNext l)
  obtain r s' where "start_next_bundle l s = Inr (r, s')" "tx_keeps held (ne_naming env) remotes s s'"
    using start_next_bundle_ok [OF inv, of l] ok StartNext by auto
  then show ?thesis using StartNext by simp
next
  case (Transmitted b l sent acked)
  then show ?thesis using handle_bundle_transmitted_ok [OF calls inv, of l b sent acked] ok by auto
next
  case (SendCancelled b l)
  then show ?thesis using handle_bundle_cancelled_ok [OF inv, of l b] ok by auto
qed

lemma tx_run_ok:
  assumes "calls_ok held remotes env" "tx_inv held (ne_naming env) remotes s" "tx_allowed_all held env ops s"
  shows "\<exists>s'. tx_run env ops s = Inr s' \<and> tx_keeps held (ne_naming env) remotes s s'"
  using assms(2,3)
proof (induction ops arbitrary: s)
  case Nil
  then show ?case using tx_keeps_refl by simp
next
  case (Cons op ops)
  obtain s1 where s1: "tx_exec env op s = Inr s1" "tx_keeps held (ne_naming env) remotes s s1"
    using tx_exec_ok [OF assms(1) Cons.prems(1)] Cons.prems(2) by auto
  obtain s' where "tx_run env ops s1 = Inr s'" "tx_keeps held (ne_naming env) remotes s1 s'"
    using Cons.IH [OF tx_keepsD(1) [OF s1(2)]] Cons.prems(2) s1(1) by auto
  then show ?case
    using s1 tx_keeps_trans by (intro exI [of _ s']) simp
qed

text \<open>What the invariant says of one link.\<close>

definition link_accounts :: "node_sys \<Rightarrow> link_id \<Rightarrow> bool" where
  "link_accounts s l \<longleftrightarrow>
     (let lk = the_link l s; queue = h_lists (ns_heap s) (lk_queue lk); flight = h_lists (ns_heap s) (lk_inflight lk) in
        unat (lk_bundles_queued lk) = length queue \<and> unat (lk_bytes_queued lk) = list_bytes (xmit_len s l) queue \<and>
        unat (lk_bundles_inflight lk) = length flight \<and> unat (lk_bytes_inflight lk) = list_bytes (xmit_len s l) flight \<and>
        (\<forall>b\<in>queued_on s l \<union> inflight_on s l.
           lbs_find_blocks l (ns_xmit s b) \<noteq> None \<and> by_name.view (ns_log s b) (lk_name lk) \<noteq> None))"

lemma link_accounts:
  assumes "tx_inv held nm remotes s" "real_link s l"
  shows "link_accounts s l"
proof -
  have ok: "link_ok s l" by (rule tx_invD(4) [OF assms])
  have "lbs_find_blocks l (ns_xmit s b) \<noteq> None" if "b \<in> queued_on s l \<union> inflight_on s l" for b
    using link_okD(3,4) [OF ok, of b] that by (auto dest: xmit_len_pos)
  then show ?thesis
    using link_okD(1,2,5) [OF ok] by (simp add: link_accounts_def Let_def queue.ok_def inflight.ok_def counts_def)
qed

subsection \<open>Properties\<close>

text \<open>
  C5: the books of the links are kept. From a state in which they are in order, every sequence of
  queueing and cancelling bundles, of sending them and of the events that report a sent or cancelled
  bundle runs without a failed assertion, and in the end the counters of every link are the numbers
  and the bytes of the bundles on its two lists, and each of these bundles still has its formatted
  blocks for the link and an entry for the link in its forwarding log.
\<close>

theorem transmission_bookkeeping:
  assumes "calls_ok held remotes env" "tx_inv held (ne_naming env) remotes s" "tx_allowed_all held env ops s"
  shows "\<exists>s'. tx_run env ops s = Inr s' \<and> tx_inv held (ne_naming env) remotes s' \<and>
    (\<forall>l. real_link s l \<longrightarrow> link_accounts s' l)"
proof -
  obtain s' where s': "tx_run env ops s = Inr s'" "tx_keeps held (ne_naming env) remotes s s'"
    using tx_run_ok [OF assms] by blast
  have "link_accounts s' l" if "real_link s l" for l
    using link_accounts [OF tx_keepsD(1) [OF s'(2)]] that tx_keepsD(2) [OF s'(2)] by simp
  with s' tx_keepsD(1) [OF s'(2)] show ?thesis by blast
qed

subsection \<open>An example\<close>

text \<open>A node with one bundle, at address 7 and referenced by a client, and one link, at address 5.\<close>

definition sample_run :: sys where
  "sample_run = (case exec_all [Create 7 sample_sent, Hold 7] initial_sys of Inl _ \<Rightarrow> initial_sys | Inr s \<Rightarrow> s)"

definition sample_link_params :: "u32 \<Rightarrow> link_params" where
  "sample_link_params mtu = default_params\<lparr>lp_mtu := mtu\<rparr>"

definition sample_node :: "u32 \<Rightarrow> node_sys" where
  "sample_node mtu =
     \<lparr>ns_cm = set_link 5 (link_new simple_naming (sample_link_params mtu) 3 4 (lit ''peer'') ONDEMAND (lit ''tcp'') (lit ''host''))
        (cm_init simple_naming),
      ns_heap = s_heap sample_run, ns_log = (\<lambda>_. []), ns_xmit = (\<lambda>_. []), ns_custody = (\<lambda>_. []), ns_expiry = (\<lambda>_. None),
      ns_deferred = (\<lambda>_. None), ns_routes = [], ns_cache = [], ns_reroute = (\<lambda>_. None), ns_regs = [],
      ns_stats = \<lparr>ds_received = 0, ds_delivered = 0, ds_generated = 0, ds_transmitted = 0, ds_expired = 0, ds_deleted = 0, ds_duplicate = 0\<rparr>\<rparr>"

definition sample_node_env :: node_env where
  "sample_node_env =
     \<lparr>ne_cm = \<lparr>ce_naming = simple_naming, ce_params = default_params, ce_init_link = (\<lambda>_. True),
        ce_clears = (\<lambda>_. True), ce_elapsed_ms = (\<lambda>_. 0)\<rparr>,
      ne_now = (1000, 0), ne_cfg = router_defaults, ne_uri = simple_uri_lib, ne_subsumes = eid_equals,
      ne_cache_put = (\<lambda>k e c. if k \<in> fst ` set c then None else Some ((k, e) # c)), ne_cache_get = (\<lambda>k c. map_of c k),
      ne_bp = sample_env, ne_procs = default_procs sample_env (sample_md sample_env), ne_md_gen = (\<lambda>_ x. x),
      ne_local_eid = example_eid, ne_early_deletion = True, ne_retry_reliable_unacked = True, ne_accept_custody = True,
      ne_suppress_duplicates = True, ne_payload_quota = 0, ne_total_size = 0, ne_fragment = (\<lambda>b l s. Inr (None, s)),
      ne_react = (\<lambda>b v n s. Inr s), ne_delete_fragment = (\<lambda>b s. Inr s), ne_delete_obsoleted = (\<lambda>b s. Inr s),
      ne_reassemble = (\<lambda>b s. Inr s), ne_report = (\<lambda>b f r s. Inr s), ne_signal = (\<lambda>b ok r s. Inr s),
      ne_deliver = (\<lambda>r b s. Inr (True, s)), ne_reg_delete = (\<lambda>r b s. Inr s), ne_session_kept = (\<lambda>_. False),
      ne_session_erase = (\<lambda>b s. Inr s)\<rparr>"

text \<open>The formatted bundle has 49 bytes.\<close>

lemma sample_blocks:
  obtains vec where "create_xmit_blocks sample_node_env 7 5 (sample_node mtu) = Inr (49, set_xmit 7 [(5, vec)] (sample_node mtu))"
    "total_length (bv_blocks vec) = 49"
proof -
  have "case create_xmit_blocks sample_node_env 7 5 (sample_node mtu) of Inl _ \<Rightarrow> False | Inr (n, _) \<Rightarrow> n = 49"
    by code_simp
  then obtain s where s: "create_xmit_blocks sample_node_env 7 5 (sample_node mtu) = Inr (49, s)"
    by (auto split: sum.split_asm)
  from s show ?thesis
    by (cases rule: create_xmit_blocks_cases) (use s that in \<open>auto simp: sample_node_def\<close>)
qed

lemma sample_heap: "bl_inv (s_held sample_run) (s_heap sample_run)" "s_held sample_run 7 = 1"
  "k \<noteq> ALL_BUNDLES \<Longrightarrow> h_lists (s_heap sample_run) k = []"
  "bo_data (h_bundles (s_heap sample_run) 7) = sample_sent\<lparr>b_freed := False\<rparr>"
proof -
  have ok: "allowed_all [Create 7 sample_sent, Hold 7] initial_sys"
    by (simp add: run_defs)
  obtain s where s: "exec_all [Create 7 sample_sent, Hold 7] initial_sys = Inr s" "reachable s"
    using allowed_all_reachable [OF reachable.start ok] by blast
  then have eq: "sample_run = s"
    by (simp add: sample_run_def)
  show "bl_inv (s_held sample_run) (s_heap sample_run)"
    unfolding eq by (rule reachable_inv [OF s(2)])
  show "s_held sample_run 7 = 1" "k \<noteq> ALL_BUNDLES \<Longrightarrow> h_lists (s_heap sample_run) k = []"
    "bo_data (h_bundles (s_heap sample_run) 7) = sample_sent\<lparr>b_freed := False\<rparr>"
    using s(1) unfolding eq by (auto simp: run_defs)
qed

lemma sample_node_fields [simp]:
  "ns_heap (sample_node mtu) = s_heap sample_run" "ns_log (sample_node mtu) = (\<lambda>_. [])" "ns_xmit (sample_node mtu) = (\<lambda>_. [])"
  "the_link 5 (sample_node mtu) =
     link_new simple_naming (sample_link_params mtu) 3 4 (lit ''peer'') ONDEMAND (lit ''tcp'') (lit ''host'')"
  by (simp_all add: sample_node_def)

lemma sample_node_links [simp]:
  "real_link (sample_node mtu) l \<longleftrightarrow> l = 5"
  "lk_queue (link_new nm ps q f nme ty cl nh) = q" "lk_inflight (link_new nm ps q f nme ty cl nh) = f"
  "lk_remote_eid (link_new nm ps q f nme ty cl nh) = NULL_EID nm"
  by (simp_all add: real_link_def sample_node_def cm_init_def no_link_def link_new_def ALL_BUNDLES_def)

lemma sample_node_inv: "tx_inv (s_held sample_run) (ne_naming sample_node_env) (\<lambda>_. NULL_EID simple_naming) (sample_node mtu)"
proof -
  have "link_ok (sample_node mtu) 5"
    by (simp add: link_ok_def queue.ok_def inflight.ok_def queued_on_def inflight_on_def sample_heap ALL_BUNDLES_def counts_Nil)
       (simp add: link_new_def)
  then show ?thesis
    by (simp add: tx_inv_def sample_heap by_name.remotes_ok_def)
qed

lemma sample_calls_ok: "calls_ok held remotes sample_node_env"
  by (simp add: calls_ok_def sample_node_env_def tx_keeps_refl)

lemma sample_queue_room: "queue_room sample_node_env 7 5 (sample_node mtu)"
proof (rule sample_blocks [of mtu])
  fix vec
  assume "create_xmit_blocks sample_node_env 7 5 (sample_node mtu) = Inr (49, set_xmit 7 [(5, vec)] (sample_node mtu))"
  then show ?thesis
    by (simp add: queue_room_def list_room_def sample_heap ALL_BUNDLES_def)
qed

theorem transmission_bookkeeping_witness:
  "\<exists>s. tx_run sample_node_env [QueueBundle 7 5 FORWARD_ACTION custody_defaults, CancelBundle 7 5] (sample_node 0) = Inr s \<and>
    link_accounts s 5"
proof -
  let ?ops = "[QueueBundle 7 5 FORWARD_ACTION custody_defaults, CancelBundle 7 5]"
  have "tx_allowed (s_held sample_run) sample_node_env (hd ?ops) (sample_node 0)"
    by (simp add: sample_node_links sample_heap sample_queue_room)
  moreover from tx_exec_ok [OF sample_calls_ok sample_node_inv this]
  have "\<forall>s'. tx_exec sample_node_env (hd ?ops) (sample_node 0) = Inr s' \<longrightarrow> real_link s' 5"
    using tx_keepsD(2) by (auto simp: sample_node_links simp del: tx_exec.simps)
  ultimately have "tx_allowed_all (s_held sample_run) sample_node_env ?ops (sample_node 0)"
    by (simp add: sample_heap)
  from transmission_bookkeeping [OF sample_calls_ok sample_node_inv this]
  show ?thesis
    by (auto simp: sample_node_links(1) simp del: tx_run.simps)
qed

text \<open>
  A transmission is accounted for once. When the event that a bundle was sent comes for a bundle
  with formatted blocks (and no report is asked for, which creates another bundle), the bundle leaves
  both lists of the link, its blocks are deleted, and a second such event, or the event that its
  sending was cancelled, changes nothing any more.
\<close>

theorem transmitted_once:
  assumes "calls_ok held remotes env" "tx_inv held (ne_naming env) remotes s" "tx_allowed held env (Transmitted b l sent acked) s"
    and "lbs_find_blocks l (ns_xmit s b) \<noteq> None" "\<not> b_forward_rcpt (b_data b s)"
  shows "\<exists>s'. handle_bundle_transmitted env b l sent acked s = Inr s' \<and> b \<notin> queued_on s' l \<union> inflight_on s' l \<and>
    handle_bundle_transmitted env b l sent' acked' s' = Inr s' \<and> handle_bundle_cancelled env b l s' = Inr s'"
proof -
  obtain s' where s': "handle_bundle_transmitted env b l sent acked s = Inr s'" "lbs_find_blocks l (ns_xmit s' b) = None"
    "b \<notin> queued_on s' l" "b \<notin> inflight_on s' l"
    using handle_bundle_transmitted_ok [OF assms(1,2), of l b sent acked] assms(3-5) by auto
  then show ?thesis
    by (intro exI [of _ s']) (simp add: handle_bundle_transmitted_def handle_bundle_cancelled_def)
qed

lemma sample_queued:
  obtains s where "queue_bundle sample_node_env 7 5 FORWARD_ACTION custody_defaults (sample_node 0) = Inr (True, s)"
    "tx_inv (s_held sample_run) (ne_naming sample_node_env) (\<lambda>_. NULL_EID simple_naming) s" "real_link s 5"
    "7 \<in> queued_on s 5" "lbs_find_blocks 5 (ns_xmit s 7) \<noteq> None" "b_data 7 s = sample_sent\<lparr>b_freed := False\<rparr>"
proof -
  have "case queue_bundle sample_node_env 7 5 FORWARD_ACTION custody_defaults (sample_node 0) of
      Inl _ \<Rightarrow> False | Inr (ok, s) \<Rightarrow> ok \<and> map snd (h_lists (ns_heap s) (lk_queue (the_link 5 s))) = [7]"
    by code_simp
  then obtain s where s: "queue_bundle sample_node_env 7 5 FORWARD_ACTION custody_defaults (sample_node 0) = Inr (True, s)"
    "map snd (h_lists (ns_heap s) (lk_queue (the_link 5 s))) = [7]"
    by (auto split: sum.split_asm)
  have "tx_keeps (s_held sample_run) (ne_naming sample_node_env) (\<lambda>_. NULL_EID simple_naming) (sample_node 0) s"
    using queue_bundle_ok [OF sample_calls_ok sample_node_inv [of 0], of 5 7 FORWARD_ACTION custody_defaults] s(1)
    by (simp add: sample_heap sample_queue_room)
  moreover then have inv: "tx_inv (s_held sample_run) (ne_naming sample_node_env) (\<lambda>_. NULL_EID simple_naming) s" "real_link s 5"
    using tx_keepsD by simp_all
  moreover have q: "7 \<in> queued_on s 5"
    using s(2) by (metis queued_on_def list.set_map list.set_intros(1))
  ultimately show ?thesis
    using that [OF s(1)] no_blocks_no_list(1) [OF inv] by (auto simp: tx_keeps_def data_kept_def sample_heap)
qed

theorem transmitted_once_witness:
  "\<exists>s s'. queue_bundle sample_node_env 7 5 FORWARD_ACTION custody_defaults (sample_node 0) = Inr (True, s) \<and>
    handle_bundle_transmitted sample_node_env 7 5 49 0 s = Inr s' \<and> handle_bundle_transmitted sample_node_env 7 5 49 0 s' = Inr s'"
proof -
  obtain s where s: "queue_bundle sample_node_env 7 5 FORWARD_ACTION custody_defaults (sample_node 0) = Inr (True, s)"
    "tx_inv (s_held sample_run) (ne_naming sample_node_env) (\<lambda>_. NULL_EID simple_naming) s" "real_link s 5"
    "7 \<in> queued_on s 5" "lbs_find_blocks 5 (ns_xmit s 7) \<noteq> None" "b_data 7 s = sample_sent\<lparr>b_freed := False\<rparr>"
    by (rule sample_queued)
  have flags: "\<not> b_forward_rcpt (b_data 7 s)" "\<not> b_local_custody (b_data 7 s)"
    unfolding s(6) by (simp_all add: sample_sent_def example_bundle_def bundle_init_def get_current_time_def
        TIMEVAL_CONVERSION_def Let_def)
  have "tx_allowed (s_held sample_run) sample_node_env (Transmitted 7 5 49 0) s"
    using s link_okD(5) [OF tx_invD(4) [OF s(2,3)], of 7] flags by (simp add: sample_heap custody_ok_def)
  from transmitted_once [OF sample_calls_ok s(2) this s(5) flags(1)] s(1) show ?thesis
    by blast
qed

text \<open>
  C32: a bundle that is too long for a link and may not be fragmented stays formatted for it. Queueing it
  fails, but the blocks that were made for the link are kept, so that every later attempt is refused
  before the size is looked at, also when the limit of the link has been raised in between.
\<close>

theorem oversize_bundle_stuck:
  assumes "\<not> lk_deleted (the_link l s)" "lbs_find_blocks l (ns_xmit s b) = None" "create_xmit_blocks env b l s = Inr (n, s1)" "0 < n"
    and "get_latest_state_link (ne_naming env) (the_link l s) (ns_log s b) = Inr st" "st \<noteq> QUEUED"
    and "lp_mtu (lk_params (the_link l s)) \<noteq> 0" "unat (lp_mtu (lk_params (the_link l s))) < n"
    and "ne_fragment env b l s1 = Inr (None, s1)"
  shows "queue_bundle env b l action spec s = Inr (False, s1) \<and>
    (\<forall>s2 a sp. ns_xmit s2 = ns_xmit s1 \<longrightarrow> queue_bundle env b l a sp s2 = Inr (False, s2))"
  using assms(3)
proof (cases rule: create_xmit_blocks_cases)
  case 1
  then show ?thesis using assms(4) by simp
next
  case (2 vec)
  have "lbs_find_blocks l (ns_xmit s1 b) \<noteq> None"
    by (simp add: 2 lbs_find_new)
  moreover have "queue_bundle env b l action spec s = Inr (False, s1)"
    using assms 2 by (simp add: queue_bundle_def)
  ultimately show ?thesis
    by (simp add: queue_bundle_def)
qed

theorem oversize_bundle_stuck_witness:
  "\<exists>s1. queue_bundle sample_node_env 7 5 FORWARD_ACTION custody_defaults (sample_node 40) = Inr (False, s1) \<and>
    (\<forall>s2. ns_xmit s2 = ns_xmit s1 \<longrightarrow> queue_bundle sample_node_env 7 5 FORWARD_ACTION custody_defaults s2 = Inr (False, s2))"
proof -
  obtain vec where v: "create_xmit_blocks sample_node_env 7 5 (sample_node 40) = Inr (49, set_xmit 7 [(5, vec)] (sample_node 40))"
    by (rule sample_blocks)
  have "\<not> lk_deleted (the_link 5 (sample_node 40))" "lp_mtu (lk_params (the_link 5 (sample_node 40))) = 40"
    by (simp_all add: link_new_def sample_link_params_def)
  moreover have "get_latest_state_link (ne_naming sample_node_env) (the_link 5 (sample_node 40)) (ns_log (sample_node 40) 7) = Inr FWD_NONE"
    by (simp add: get_latest_state_link_def get_latest_link_def latest_state_def)
  ultimately show ?thesis
    using oversize_bundle_stuck [OF _ _ v, of FWD_NONE FORWARD_ACTION custody_defaults] by (auto simp: sample_node_env_def)
qed

text \<open>
  The event handler for a cancelled bundle that is still on a list of the link: the lists stay, the
  blocks go.
\<close>

lemma cancelled_on_list:
  assumes inv: "tx_inv held (ne_naming env) remotes s" "real_link s l" and b: "1 \<le> held b" "lbs_find_blocks l (ns_xmit s b) \<noteq> None"
  shows "\<exists>s'. handle_bundle_cancelled env b l s = Inr s' \<and> lbs_find_blocks l (ns_xmit s' b) = None \<and>
    queued_on s' l = queued_on s l \<and> inflight_on s' l = inflight_on s l \<and> real_link s' l \<and>
    lk_bundles_inflight (the_link l s') = lk_bundles_inflight (the_link l s) \<and>
    lk_bytes_inflight (the_link l s') = lk_bytes_inflight (the_link l s) \<and>
    get_obj b (ns_heap s') = Inr (h_bundles (ns_heap s') b)"
proof -
  let ?st = "(lk_stats (the_link l s))\<lparr>st_bundles_cancelled := st_bundles_cancelled (lk_stats (the_link l s)) + 1\<rparr>"
  let ?s1 = "ns_set_link l ((the_link l s)\<lparr>lk_stats := ?st\<rparr>) s"
  obtain v where v: "lbs_find_blocks l (ns_xmit s b) = Some v" using b(2) by auto
  obtain xs where xs: "lbs_delete_blocks l (ns_xmit s b) = Inr xs"
    "\<And>k. lbs_find_blocks k xs = (if k = l then None else lbs_find_blocks k (ns_xmit s b))"
    using lbs_delete_ok [OF tx_invD(2) [OF inv(1)], of l b] b(2) by (auto simp: lbs_find_None)
  have "\<exists>r log. update_link (ne_naming env) (ne_now env) ((the_link l s)\<lparr>lk_stats := ?st\<rparr>) CANCELLED (ns_log s b) = Inr (r, log)"
    by (rule update_link_ok [where lk = "(the_link l s)\<lparr>lk_stats := ?st\<rparr>", OF tx_invD(3) [OF inv(1)]])
       (use tx_invD(6) [OF inv] in auto)
  then obtain r log where log: "update_link (ne_naming env) (ne_now env) ((the_link l s)\<lparr>lk_stats := ?st\<rparr>) CANCELLED (ns_log s b) = Inr (r, log)"
    by blast
  have eq: "handle_bundle_cancelled env b l s = Inr (set_log b log (set_xmit b xs ?s1))"
    using v contains_queue [OF inv(1) b(1), of l] xs(1) log
    by (simp add: handle_bundle_cancelled_def delete_blocks_def log_update_def Let_def)
  show ?thesis
    using get_obj_held [OF inv(1) b(1)] inv(2)
    by (intro exI [of _ "set_log b log (set_xmit b xs ?s1)"])
       (simp add: eq xs(2) queued_on_def inflight_on_def real_link_def)
qed



end
