(* ===== verification/Router.thy ===== *)
theory Router
  imports TransmissionRuns
begin

text \<open>
  The decision to forward a bundle (\<open>servlib/routing/BundleRouter.cc\<close>), the lists of bundles deferred
  for a link, and the table-based router (\<open>TableBasedRouter.cc\<close>) on the route table, the forwarding
  logs and the actions. Sessions are left out: the bundles here belong to none.

  The loops of the router run over a list while the body removes the current bundle from it, with the
  iterator advanced before; they are modelled as loops over the list at the start.
\<close>

subsection \<open>Whether to forward\<close>

definition sent_or_queued :: u32 where
  "sent_or_queued = (fwd_state_code TRANSMITTED OR fwd_state_code QUEUED)"

definition br_should_fwd :: "node_env \<Rightarrow> bundle_ptr \<Rightarrow> link_id \<Rightarrow> fwd_action \<Rightarrow> node_sys \<Rightarrow> bool res" where
  "br_should_fwd env b l action s =
     (let nm = ne_naming env; lk = the_link l s; log = ns_log s b
      in
      bindR (get_latest_link nm lk log) (\<lambda>info.
      bindR (assertR ((info \<noteq> None) = (latest_state info \<noteq> FWD_NONE))) (\<lambda>_.
        if latest_state info = TRANSMITTED \<or> latest_state info = QUEUED then Inr False
        else if \<not> eid_equals (lk_remote_eid lk) (NULL_EID nm) \<and>
          get_count_eid nm (lk_remote_eid lk) sent_or_queued ANY_ACTION log > 0 then Inr False
        else if \<not> eid_equals (lk_remote_eid lk) (NULL_EID nm) \<and>
          get_count_eid nm (lk_remote_eid lk) (fwd_state_code SUPPRESSED) ANY_ACTION log > 0 then Inr False
        else
          bindR (get_obj b (ns_heap s)) (\<lambda>x.
            Inr (\<not> (b_singleton_dest (bo_data x) \<and> action = FORWARD_ACTION \<and>
              get_count sent_or_queued (fwd_action_code action) log > 0))))))"

definition REASON_DEPLETED_STORAGE :: byte where "REASON_DEPLETED_STORAGE = 0x04"

definition accept_bundle :: "node_env \<Rightarrow> dtn_bundle \<Rightarrow> bool \<times> byte" where
  "accept_bundle env b =
     (if ne_payload_quota env \<noteq> 0 \<and> ne_total_size env + of_nat (pl_length (b_payload b)) > ne_payload_quota env
      then (False, REASON_DEPLETED_STORAGE) else (True, 0))"

definition br_can_delete_bundle :: "bundle_obj \<Rightarrow> bool" where
  "br_can_delete_bundle x \<longleftrightarrow> length (bo_mappings x) \<le> 1"

definition tr_should_fwd :: "node_env \<Rightarrow> bundle_ptr \<Rightarrow> route_entry \<Rightarrow> node_sys \<Rightarrow> bool res" where
  "tr_should_fwd env b route s =
     (case re_link route of
        None \<Rightarrow> Inl OOB
      | Some l \<Rightarrow>
          bindR (get_obj b (ns_heap s)) (\<lambda>x.
            case ne_cache_get env (gbofid_of (bo_data x)) (ns_cache s) of
              None \<Rightarrow> br_should_fwd env b l (re_action route) s
            | Some prevhop \<Rightarrow>
                if eid_equals prevhop (lk_remote_eid (the_link l s)) \<and> \<not> eid_equals prevhop (NULL_EID (ne_naming env))
                then Inr False
                else br_should_fwd env b l (re_action route) s))"

subsection \<open>Deferred bundles\<close>

text \<open>A link without a list is one whose creation the router has not handled yet.\<close>

definition set_deferred :: "link_id \<Rightarrow> deferred_list \<Rightarrow> node_sys \<Rightarrow> node_sys" where
  "set_deferred l d s = s\<lparr>ns_deferred := (ns_deferred s)(l \<mapsto> d)\<rparr>"

definition df_find :: "bundle_ptr \<Rightarrow> deferred_list \<Rightarrow> heap \<Rightarrow> fwd_info option res" where
  "df_find b d h = bindR (get_obj b h) (\<lambda>x. Inr (df_info d (b_bundleid (bo_data x))))"

definition df_get_info :: "bundle_ptr \<Rightarrow> deferred_list \<Rightarrow> heap \<Rightarrow> fwd_info res" where
  "df_get_info b d h = bindR (df_find b d h) (\<lambda>r. case r of None \<Rightarrow> Inl ASSERT | Some fi \<Rightarrow> Inr fi)"

text \<open>\<open>insert\<close> of the map keeps an entry that is there.\<close>

definition df_add :: "bundle_ptr \<Rightarrow> fwd_info \<Rightarrow> deferred_list \<Rightarrow> heap \<Rightarrow> (bool \<times> deferred_list \<times> heap) res" where
  "df_add b fi d h =
     bindR (bl_contains (df_list d) b h) (\<lambda>found.
       if found then Inr (False, d, h)
       else
         bindR (bl_push_back (df_list d) b h) (\<lambda>h.
         bindR (get_obj b h) (\<lambda>x.
           let i = b_bundleid (bo_data x)
           in Inr (True, d\<lparr>df_count := df_count d + 1,
                df_info := (if df_info d i = None then (df_info d)(i \<mapsto> fi) else df_info d)\<rparr>, h))))"

definition df_del :: "bundle_ptr \<Rightarrow> deferred_list \<Rightarrow> heap \<Rightarrow> (bool \<times> deferred_list \<times> heap) res" where
  "df_del b d h =
     bindR (get_obj b h) (\<lambda>x.
     bindR (bl_erase (df_list d) b h) (\<lambda>(erased, h).
       if \<not> erased then Inr (False, d, h)
       else
         let i = b_bundleid (bo_data x)
         in
         bindR (assertR (df_count d > 0)) (\<lambda>_.
         bindR (assertR (df_info d i \<noteq> None)) (\<lambda>_.
           Inr (True, d\<lparr>df_count := df_count d - 1, df_info := (df_info d)(i := None)\<rparr>, h)))))"

definition on_deferred ::
  "link_id \<Rightarrow> (deferred_list \<Rightarrow> heap \<Rightarrow> (bool \<times> deferred_list \<times> heap) res) \<Rightarrow> node_sys \<Rightarrow> (bool \<times> node_sys) res"
where
  "on_deferred l f s =
     (case ns_deferred s l of
        None \<Rightarrow> Inl OOB
      | Some d \<Rightarrow> bindR (f d (ns_heap s)) (\<lambda>(ok, d, h). Inr (ok, (set_deferred l d s)\<lparr>ns_heap := h\<rparr>)))"

text \<open>\<open>actions\<close> is a mask of actions; the order of the links is that of the set of links.\<close>

fun remove_from_deferred_loop :: "bundle_ptr \<Rightarrow> u32 \<Rightarrow> link_id list \<Rightarrow> node_sys \<Rightarrow> node_sys res" where
  "remove_from_deferred_loop b actions [] s = Inr s"
| "remove_from_deferred_loop b actions (l # ls) s =
     (case ns_deferred s l of
        None \<Rightarrow> remove_from_deferred_loop b actions ls s
      | Some d \<Rightarrow>
          bindR (df_find b d (ns_heap s)) (\<lambda>r.
            case r of
              None \<Rightarrow> remove_from_deferred_loop b actions ls s
            | Some fi \<Rightarrow>
                if fwd_action_code (fi_action fi) AND actions \<noteq> 0
                then bindR (on_deferred l (df_del b) s) (\<lambda>(_, s). remove_from_deferred_loop b actions ls s)
                else remove_from_deferred_loop b actions ls s))"

definition remove_from_deferred :: "bundle_ptr \<Rightarrow> u32 \<Rightarrow> node_sys \<Rightarrow> node_sys res" where
  "remove_from_deferred b actions s = remove_from_deferred_loop b actions (cm_set (ns_cm s)) s"

subsection \<open>Forwarding\<close>

definition ns_open_link :: "link_id \<Rightarrow> node_sys \<Rightarrow> node_sys res" where
  "ns_open_link l s = bindR (open_link l (ns_cm s)) (\<lambda>cm. Inr (s\<lparr>ns_cm := cm\<rparr>))"

definition open_if_needed :: "link_id \<Rightarrow> node_sys \<Rightarrow> node_sys res" where
  "open_if_needed l s =
     (if link_isavailable (the_link l s) \<and> \<not> link_isopen (the_link l s) \<and> \<not> link_isopening (the_link l s)
      then ns_open_link l s else Inr s)"

text \<open>The loop over the deferred bundles of a link that is open.\<close>

fun check_next_hop_loop :: "node_env \<Rightarrow> link_id \<Rightarrow> bundle_ptr list \<Rightarrow> node_sys \<Rightarrow> node_sys res" where
  "check_next_hop_loop env l [] s = Inr s"
| "check_next_hop_loop env l (b # bs) s =
     (if queue_is_full (the_link l s) then Inr s
      else
        case ns_deferred s l of
          None \<Rightarrow> Inl OOB
        | Some d \<Rightarrow>
            bindR (df_get_info b d (ns_heap s)) (\<lambda>fi.
            bindR (br_should_fwd env b l (fi_action fi) s) (\<lambda>fwd.
              if \<not> fwd then check_next_hop_loop env l bs s
              else
                bindR (open_if_needed l s) (\<lambda>s.
                bindR (on_deferred l (df_del b) s) (\<lambda>(_, s).
                bindR (queue_bundle env b l (fi_action fi) (fi_custody_spec fi) s) (\<lambda>(_, s).
                  check_next_hop_loop env l bs s))))))"

definition check_next_hop :: "node_env \<Rightarrow> link_id \<Rightarrow> node_sys \<Rightarrow> node_sys res" where
  "check_next_hop env l s =
     (if \<not> link_isopen (the_link l s) then Inr s
      else if \<not> queue_has_space (the_link l s) then Inr s
      else
        case ns_deferred s l of
          None \<Rightarrow> Inl OOB
        | Some d \<Rightarrow> check_next_hop_loop env l (map snd (h_lists (ns_heap s) (df_list d))) s)"

definition fwd_to_nexthop :: "node_env \<Rightarrow> bundle_ptr \<Rightarrow> route_entry \<Rightarrow> node_sys \<Rightarrow> (bool \<times> node_sys) res" where
  "fwd_to_nexthop env b route s =
     (case re_link route of
        None \<Rightarrow> Inl OOB
      | Some l \<Rightarrow>
          bindR (open_if_needed l s) (\<lambda>s.
            if link_isopen (the_link l s) \<and> \<not> queue_is_full (the_link l s)
            then bindR (queue_bundle env b l (re_action route) (re_custody_spec route) s) (\<lambda>(_, s). Inr (True, s))
            else
              case ns_deferred s l of
                None \<Rightarrow> Inl OOB
              | Some d \<Rightarrow>
                  bindR (get_obj b (ns_heap s)) (\<lambda>x.
                    if is_queued_on (df_list d) x then Inr (False, s)
                    else
                      let fi = fwd_info_new (ne_now env) FWD_NONE (re_action route) (lk_name (the_link l s)) NO_REGID
                                 (lk_remote_eid (the_link l s)) (re_custody_spec route)
                      in bindR (on_deferred l (df_add b fi) s) (\<lambda>(_, s). Inr (False, s)))))"

fun route_loop :: "node_env \<Rightarrow> bundle_ptr \<Rightarrow> route_table \<Rightarrow> nat \<times> node_sys \<Rightarrow> (nat \<times> node_sys) res" where
  "route_loop env b [] r = Inr r"
| "route_loop env b ((_, route) # routes) (cnt, s) =
     bindR (tr_should_fwd env b route s) (\<lambda>fwd.
       if \<not> fwd then route_loop env b routes (cnt, s)
       else
         case re_link route of
           None \<Rightarrow> Inl OOB
         | Some l \<Rightarrow>
             (case ns_deferred s l of
                None \<Rightarrow> route_loop env b routes (cnt, s)
              | Some d \<Rightarrow>
                  bindR (bl_contains (df_list d) b (ns_heap s)) (\<lambda>deferred.
                    if deferred then route_loop env b routes (cnt, s)
                    else
                      bindR (check_next_hop env l s) (\<lambda>s.
                      bindR (fwd_to_nexthop env b route s) (\<lambda>(ok, s).
                        route_loop env b routes (if ok then cnt + 1 else cnt, s))))))"

definition route_bundle :: "node_env \<Rightarrow> bundle_ptr \<Rightarrow> node_sys \<Rightarrow> (nat \<times> node_sys) res" where
  "route_bundle env b s =
     (if get_count_eid (ne_naming env) (WILDCARD_EID (ne_naming env)) (fwd_state_code SUPPRESSED) ANY_ACTION (ns_log s b) > 0
      then Inr (0, s)
      else
        bindR (get_obj b (ns_heap s)) (\<lambda>x.
        bindR (get_matching (pattern_match (ne_uri env) True) (ne_cfg env) (b_dest (bo_data x)) None (ns_routes s)) (\<lambda>(_, matches).
          route_loop env b (sort_routes (cm_links (ns_cm s)) matches) (0, s))))"

subsection \<open>Rerouting\<close>

fun route_all :: "node_env \<Rightarrow> bundle_ptr list \<Rightarrow> node_sys \<Rightarrow> node_sys res" where
  "route_all env [] s = Inr s"
| "route_all env (b # bs) s = bindR (route_bundle env b s) (\<lambda>(_, s). route_all env bs s)"

definition reroute_all_bundles :: "node_env \<Rightarrow> node_sys \<Rightarrow> node_sys res" where
  "reroute_all_bundles env s = route_all env (map snd (h_lists (ns_heap s) PENDING_BUNDLES)) s"

definition handle_changed_routes :: "node_env \<Rightarrow> node_sys \<Rightarrow> node_sys res" where
  "handle_changed_routes env s = reroute_all_bundles env (s\<lparr>ns_cache := []\<rparr>)"

definition add_route :: "node_env \<Rightarrow> route_id \<Rightarrow> route_entry \<Rightarrow> node_sys \<Rightarrow> node_sys res" where
  "add_route env a e s = handle_changed_routes env (s\<lparr>ns_routes := rt_add_entry a e (ns_routes s)\<rparr>)"

definition del_route :: "eid \<Rightarrow> node_sys \<Rightarrow> node_sys" where
  "del_route dest s = s\<lparr>ns_routes := snd (rt_del_entries dest (ns_routes s)), ns_cache := []\<rparr>"

definition nexthop_pattern :: "node_env \<Rightarrow> eid \<Rightarrow> eid" where
  "nexthop_pattern env e =
     (let p = pattern_of_eid (ne_uri env) e
      in case append_service_wildcard (ne_uri env) p of (True, q) \<Rightarrow> q | (False, _) \<Rightarrow> p)"

definition add_nexthop_route :: "node_env \<Rightarrow> route_id \<Rightarrow> link_id \<Rightarrow> node_sys \<Rightarrow> node_sys res" where
  "add_nexthop_route env a l s =
     (let e = lk_remote_eid (the_link l s); p = nexthop_pattern env e
      in if rc_add_nexthop_routes (ne_cfg env) \<and> \<not> eid_equals e (NULL_EID (ne_naming env))
         then
           bindR (get_matching (pattern_match (ne_uri env) True) (ne_cfg env) p (Some l) (ns_routes s)) (\<lambda>(n, _).
             if n = 0
             then add_route env a ((route_to_link (ne_naming env) (ne_cfg env) p l)\<lparr>re_action := FORWARD_ACTION\<rparr>) s
             else Inr s)
         else Inr s)"

text \<open>
  The loop of \<open>reroute_bundles\<close> with a bound: it asserts that every turn takes a bundle from the queue,
  so that as many turns as there are bundles suffice; \<open>None\<close> is a run that is not finished.
\<close>

fun cancel_queue :: "nat \<Rightarrow> link_id \<Rightarrow> node_sys \<Rightarrow> node_sys res option" where
  "cancel_queue n l s =
     (case h_lists (ns_heap s) (lk_queue (the_link l s)) of
        [] \<Rightarrow> Some (Inr s)
      | (_, b) # _ \<Rightarrow>
          (case n of
             0 \<Rightarrow> None
           | Suc m \<Rightarrow>
               (case cancel_bundle b l s of
                  Inl e \<Rightarrow> Some (Inl e)
                | Inr s' \<Rightarrow>
                    (case get_obj b (ns_heap s') of
                       Inl e \<Rightarrow> Some (Inl e)
                     | Inr x \<Rightarrow>
                         if is_queued_on (lk_queue (the_link l s')) x then Some (Inl ASSERT) else cancel_queue m l s'))))"

definition reroute_bundles :: "nat \<Rightarrow> link_id \<Rightarrow> node_sys \<Rightarrow> node_sys res option" where
  "reroute_bundles n l s =
     (if lk_deleted (the_link l s) then Some (Inl ASSERT)
      else if lk_state (the_link l s) \<noteq> UNAVAILABLE then Some (Inr s)
      else
        case cancel_queue n l s of
          None \<Rightarrow> None
        | Some (Inl e) \<Rightarrow> Some (Inl e)
        | Some (Inr s') \<Rightarrow>
            Some (bindR (assertR (h_lists (ns_heap s') (lk_inflight (the_link l s')) = [])) (\<lambda>_. Inr s')))"

subsection \<open>The events of the router\<close>

text \<open>\<open>remote\<close> is the remote endpoint of the link the bundle came from, the null endpoint without one.\<close>

definition tr_bundle_received :: "node_env \<Rightarrow> bundle_ptr \<Rightarrow> eid \<Rightarrow> node_sys \<Rightarrow> node_sys res" where
  "tr_bundle_received env b remote s =
     bindR (get_obj b (ns_heap s)) (\<lambda>x.
       case ne_cache_put env (gbofid_of (bo_data x)) remote (ns_cache s) of
         None \<Rightarrow> Inr (ns_post_at_head (BundleDelete b REASON_NO_ADDTL_INFO) s)
       | Some c \<Rightarrow> bindR (route_bundle env b (s\<lparr>ns_cache := c\<rparr>)) (\<lambda>(_, s). Inr s))"

definition tr_bundle_transmitted :: "node_env \<Rightarrow> bundle_ptr \<Rightarrow> link_id \<Rightarrow> node_sys \<Rightarrow> node_sys res" where
  "tr_bundle_transmitted env b l s =
     bindR (remove_from_deferred b (fwd_action_code FORWARD_ACTION) s) (check_next_hop env l)"

definition tr_bundle_cancelled :: "node_env \<Rightarrow> bundle_ptr \<Rightarrow> node_sys \<Rightarrow> node_sys res" where
  "tr_bundle_cancelled env b s =
     (if ns_expiry s b \<noteq> None then bindR (route_bundle env b s) (\<lambda>(_, s). Inr s) else Inr s)"

definition tr_can_delete_bundle :: "node_env \<Rightarrow> bundle_ptr \<Rightarrow> node_sys \<Rightarrow> bool res" where
  "tr_can_delete_bundle env b s =
     bindR (get_obj b (ns_heap s)) (\<lambda>x.
       if get_count (fwd_state_code TRANSMITTED OR fwd_state_code DELIVERED) ANY_ACTION (ns_log s b) = 0 then Inr False
       else if b_local_custody (bo_data x) then Inr False
       else Inr (\<not> ne_session_kept env (bo_data x)))"

definition tr_delete_bundle :: "node_env \<Rightarrow> bundle_ptr \<Rightarrow> node_sys \<Rightarrow> node_sys res" where
  "tr_delete_bundle env b s = bindR (remove_from_deferred b ANY_ACTION s) (ne_session_erase env b)"

definition tr_contact_up :: "node_env \<Rightarrow> route_id \<Rightarrow> link_id \<Rightarrow> node_sys \<Rightarrow> node_sys res" where
  "tr_contact_up env a l s =
     bindR (assertR (\<not> lk_deleted (the_link l s))) (\<lambda>_.
     bindR (add_nexthop_route env a l s) (\<lambda>s.
     bindR (check_next_hop env l s) (\<lambda>s.
       Inr (s\<lparr>ns_reroute := (ns_reroute s)(lk_name (the_link l s) := None)\<rparr>))))"

definition tr_contact_down :: "link_id \<Rightarrow> node_sys \<Rightarrow> node_sys res" where
  "tr_contact_down l s =
     (let lk = the_link l s
      in
      bindR (assertR (\<not> lk_deleted lk)) (\<lambda>_.
        if h_lists (ns_heap s) (lk_queue lk) \<noteq> [] \<and> ns_reroute s (lk_name lk) = None
        then Inr (s\<lparr>ns_reroute := (ns_reroute s)(lk_name lk \<mapsto> lp_potential_downtime (lk_params lk) * 1000)\<rparr>)
        else Inr s))"

definition tr_link_available :: "node_env \<Rightarrow> link_id \<Rightarrow> contact_reason \<Rightarrow> node_sys \<Rightarrow> node_sys res" where
  "tr_link_available env l reason s =
     bindR (assertR (\<not> lk_deleted (the_link l s))) (\<lambda>_.
     bindR (if rc_open_discovered_links (ne_cfg env) \<and> \<not> link_isopen (the_link l s) \<and>
               lk_type (the_link l s) = OPPORTUNISTIC \<and> reason = DISCOVERY
            then ns_open_link l s else Inr s) (check_next_hop env l))"

text \<open>\<open>k\<close> is the list of the new deferred list, which is empty.\<close>

definition tr_link_created :: "node_env \<Rightarrow> route_id \<Rightarrow> list_id \<Rightarrow> link_id \<Rightarrow> node_sys \<Rightarrow> node_sys res" where
  "tr_link_created env a k l s =
     bindR (assertR (\<not> lk_deleted (the_link l s))) (\<lambda>_.
     bindR (add_nexthop_route env a l (set_deferred l \<lparr>df_list = k, df_info = Map.empty, df_count = 0\<rparr> s))
       (handle_changed_routes env))"

definition tr_link_deleted :: "link_id \<Rightarrow> node_sys \<Rightarrow> node_sys" where
  "tr_link_deleted l s =
     s\<lparr>ns_routes := snd (rt_del_nexthop l (ns_routes s)), ns_reroute := (ns_reroute s)(lk_name (the_link l s) := None)\<rparr>"

definition tr_custody_timeout :: "node_env \<Rightarrow> bundle_ptr \<Rightarrow> node_sys \<Rightarrow> node_sys res" where
  "tr_custody_timeout env b s = bindR (route_bundle env b s) (\<lambda>(_, s). Inr s)"

end
