(* ===== verification/Daemon.thy ===== *)
theory Daemon
  imports Router
begin

text \<open>
  The part of \<open>servlib/bundling/BundleDaemon.cc\<close> that works on bundles: custody, delivery to
  registrations, the pending list with the expiration timers, duplicates, deletion, the handlers of
  the bundle events, and \<open>handle_event\<close>, which calls the handler of the daemon, the one of the router
  and the clean-up after both. The bundle query extension is left out (\<open>BPQ_ENABLED\<close> is not set).
\<close>

subsection \<open>Bundles and the data store\<close>

definition CUSTODY_NO_ADDTL_INFO :: byte where "CUSTODY_NO_ADDTL_INFO = 0x00"
definition CUSTODY_REDUNDANT_RECEPTION :: byte where "CUSTODY_REDUNDANT_RECEPTION = 0x03"
definition REASON_LIFETIME_EXPIRED :: byte where "REASON_LIFETIME_EXPIRED = 0x01"
definition SESSION_PUBLISH :: u32 where "SESSION_PUBLISH = 32"
definition INT_MAX :: u64 where "INT_MAX = 0x7fffffff"

definition set_data :: "bundle_ptr \<Rightarrow> (dtn_bundle \<Rightarrow> dtn_bundle) \<Rightarrow> node_sys \<Rightarrow> node_sys" where
  "set_data b f s =
     (let x = h_bundles (ns_heap s) b in s\<lparr>ns_heap := set_obj b (x\<lparr>bo_data := f (bo_data x)\<rparr>) (ns_heap s)\<rparr>)"

definition get_data :: "bundle_ptr \<Rightarrow> node_sys \<Rightarrow> dtn_bundle res" where
  "get_data b s = bindR (get_obj b (ns_heap s)) (\<lambda>x. Inr (bo_data x))"

definition do_if :: "bool \<Rightarrow> (node_sys \<Rightarrow> node_sys res) \<Rightarrow> node_sys \<Rightarrow> node_sys res" where
  "do_if c f s = (if c then f s else Inr s)"

definition list_push :: "list_id \<Rightarrow> bundle_ptr \<Rightarrow> node_sys \<Rightarrow> node_sys res" where
  "list_push k b s = bindR (bl_push_back k b (ns_heap s)) (\<lambda>h. Inr (s\<lparr>ns_heap := h\<rparr>))"

definition list_erase :: "list_id \<Rightarrow> bundle_ptr \<Rightarrow> node_sys \<Rightarrow> (bool \<times> node_sys) res" where
  "list_erase k b s = bindR (bl_erase k b (ns_heap s)) (\<lambda>(erased, h). Inr (erased, s\<lparr>ns_heap := h\<rparr>))"

subsection \<open>Custody\<close>

text \<open>Cancelled timers are deleted later; here they are gone.\<close>

definition cancel_custody_timers :: "bundle_ptr \<Rightarrow> node_sys \<Rightarrow> node_sys" where
  "cancel_custody_timers b s = s\<lparr>ns_custody := (ns_custody s)(b := [])\<rparr>"

definition accept_custody :: "node_env \<Rightarrow> bundle_ptr \<Rightarrow> node_sys \<Rightarrow> node_sys res" where
  "accept_custody env b s =
     bindR (get_data b s) (\<lambda>d.
       if b_local_custody d then Inr s
       else if eid_equals (b_custodian d) (ne_local_eid env) then Inr s
       else
         bindR (do_if (\<not> eid_equals (b_custodian d) (NULL_EID (ne_naming env)))
                  (ne_signal env b True CUSTODY_NO_ADDTL_INFO) s) (\<lambda>s.
         bindR (list_push CUSTODY_BUNDLES b
                  (set_data b (\<lambda>d. d\<lparr>b_custodian := ne_local_eid env, b_local_custody := True\<rparr>) s)) (\<lambda>s.
         bindR (get_data b s) (\<lambda>d.
           do_if (b_custody_rcpt d) (ne_report env b SR_CUSTODY_ACCEPTED REASON_NO_ADDTL_INFO) s))))"

definition release_custody :: "node_env \<Rightarrow> bundle_ptr \<Rightarrow> node_sys \<Rightarrow> node_sys res" where
  "release_custody env b s =
     bindR (get_data b s) (\<lambda>d.
       if \<not> b_local_custody d then Inr s
       else
         bindR (list_erase CUSTODY_BUNDLES b
                  (set_data b (\<lambda>d. d\<lparr>b_custodian := NULL_EID (ne_naming env), b_local_custody := False\<rparr>)
                    (cancel_custody_timers b s))) (\<lambda>(_, s). Inr s))"

subsection \<open>Local delivery\<close>

definition reg_get_matching :: "node_env \<Rightarrow> eid \<Rightarrow> node_sys \<Rightarrow> registration list" where
  "reg_get_matching env e s = filter (\<lambda>r. pattern_match (ne_uri env) True (rg_endpoint r) e) (ns_regs s)"

definition reg_get :: "u32 \<Rightarrow> node_sys \<Rightarrow> registration option" where
  "reg_get regid s = find (\<lambda>r. rg_regid r = regid) (ns_regs s)"

text \<open>
  \<open>ne_deliver\<close> is \<open>deliver_if_not_duplicate\<close> of the registration, and for a registration of the
  application interface its \<open>update\<close> as well.
\<close>

definition deliver_to_registration :: "node_env \<Rightarrow> bundle_ptr \<Rightarrow> registration \<Rightarrow> node_sys \<Rightarrow> node_sys res" where
  "deliver_to_registration env b reg s =
     bindR (get_data b s) (\<lambda>d.
     bindR (assertR (\<not> b_is_fragment d)) (\<lambda>_.
     bindR (get_latest_state_reg (ne_naming env) reg (ns_log s b)) (\<lambda>st.
       if st = DELIVERED then Inr s
       else
         let s = (if st = PENDING_DELIVERY then s
                  else set_log b (add_entry_reg (ne_now env) reg FORWARD_ACTION DELIVERED (ns_log s b)) s)
         in
         if rg_session_flags reg = SESSION_PUBLISH then Inr s
         else
           bindR (ne_deliver env (rg_regid reg) b s) (\<lambda>(delivered, s).
             if delivered \<and> rg_api reg
             then bindR (update_reg (ne_now env) reg DELIVERED (ns_log s b)) (\<lambda>(_, log). Inr (set_log b log s))
             else Inr s))))"

definition mark_pending :: "node_env \<Rightarrow> bundle_ptr \<Rightarrow> registration \<Rightarrow> node_sys \<Rightarrow> node_sys" where
  "mark_pending env b reg s =
     ns_post (DeliverBundleToReg b (rg_regid reg))
       (set_log b (add_entry_reg (ne_now env) reg FORWARD_ACTION PENDING_DELIVERY (ns_log s b)) s)"

definition check_local_delivery :: "node_env \<Rightarrow> bundle_ptr \<Rightarrow> bool \<Rightarrow> node_sys \<Rightarrow> (bool \<times> node_sys) res" where
  "check_local_delivery env b deliver s =
     bindR (get_data b s) (\<lambda>d.
       let matches = reg_get_matching env (b_dest d) s; local = (matches \<noteq> [] \<or> ne_subsumes env (b_dest d) (ne_local_eid env))
       in
       if deliver
       then bindR (assertR (\<not> b_is_fragment d)) (\<lambda>_. Inr (local, fold (mark_pending env b) matches s))
       else Inr (local, s))"

text \<open>The entries of a log that was read from the data store.\<close>

definition generate_delivery_events :: "bundle_ptr \<Rightarrow> node_sys \<Rightarrow> node_sys" where
  "generate_delivery_events b s =
     fold (\<lambda>fi s. if fi_regid fi \<noteq> 0 \<and> fi_state fi = PENDING_DELIVERY then ns_post (DeliverBundleToReg b (fi_regid fi)) s else s)
       (ns_log s b) s"

subsection \<open>The pending list\<close>

text \<open>
  The time at which a bundle expires: the sum is one of unsigned 64-bit numbers, and has to fit into
  an \<open>int\<close>. A bundle with an age block or without a creation time expires by its age; that time is
  computed with wrap-around and read as a signed number.
\<close>

definition expiration_sum :: "dtn_bundle \<Rightarrow> u64" where
  "expiration_sum d = ucast TIMEVAL_CONVERSION + seconds (b_creation_ts d) + b_expiration d"

definition age_expiration :: "node_env \<Rightarrow> u32 \<Rightarrow> dtn_bundle \<Rightarrow> u64" where
  "age_expiration env now d =
     ucast (TIMEVAL_CONVERSION + now) + b_expiration d - b_age d - ucast (env_elapsed_ms (ne_bp env) div 1000)"

definition add_to_pending :: "node_env \<Rightarrow> bundle_ptr \<Rightarrow> bool \<Rightarrow> node_sys \<Rightarrow> (bool \<times> node_sys) res" where
  "add_to_pending env b add_to_store s =
     bindR (list_push PENDING_BUNDLES b s) (\<lambda>s.
       let s = (if add_to_store then set_data b (\<lambda>d. d\<lparr>b_in_datastore := True\<rparr>) s else s)
       in
       bindR (get_data b s) (\<lambda>d.
       bindR (assertR (\<not> expiration_sum d > INT_MAX)) (\<lambda>_.
       bindR (bv_find_block (of_nat AGE_BLOCK) (b_recv_blocks d)) (\<lambda>age_block.
       bindR (if seconds (b_creation_ts d) = 0 \<or> age_block \<noteq> None
              then bindR (get_current_time (ucast (fst (ne_now env)))) (\<lambda>now. Inr (age_expiration env now d))
              else Inr (expiration_sum d)) (\<lambda>t.
         let ok_to_route = (sint t - int (unat (fst (ne_now env))) > 0);
             t = (if ok_to_route then t else ucast (fst (ne_now env)))
         in Inr (ok_to_route, s\<lparr>ns_expiry := (ns_expiry s)(b \<mapsto> (t, snd (ne_now env)))\<rparr>))))))"

definition delete_from_pending :: "bundle_ptr \<Rightarrow> node_sys \<Rightarrow> (bool \<times> node_sys) res" where
  "delete_from_pending b s = list_erase PENDING_BUNDLES b (s\<lparr>ns_expiry := (ns_expiry s)(b := None)\<rparr>)"

subsection \<open>Duplicates and deletion\<close>

definition is_duplicate :: "dtn_bundle \<Rightarrow> dtn_bundle \<Rightarrow> bool" where
  "is_duplicate b b2 \<longleftrightarrow>
     eid_equals (b_source b) (b_source b2) \<and> seconds (b_creation_ts b) = seconds (b_creation_ts b2) \<and>
     seqno (b_creation_ts b) = seqno (b_creation_ts b2) \<and> b_is_fragment b = b_is_fragment b2 \<and>
     b_frag_offset b = b_frag_offset b2 \<and> pl_length (b_payload b) = pl_length (b_payload b2)"

fun find_duplicate_loop ::
  "bool \<Rightarrow> dtn_bundle \<Rightarrow> (bundle_ptr \<Rightarrow> dtn_bundle) \<Rightarrow> bundle_ptr list \<Rightarrow> bundle_ptr option \<Rightarrow> bundle_ptr option"
where
  "find_duplicate_loop suppress d objs [] found = found"
| "find_duplicate_loop suppress d objs (b2 # bs) found =
     (if is_duplicate d (objs b2)
      then if suppress \<or> b_local_custody (objs b2) then Some b2 else find_duplicate_loop suppress d objs bs (Some b2)
      else find_duplicate_loop suppress d objs bs found)"

definition find_duplicate :: "node_env \<Rightarrow> dtn_bundle \<Rightarrow> node_sys \<Rightarrow> bundle_ptr option" where
  "find_duplicate env d s =
     find_duplicate_loop (ne_suppress_duplicates env) d (\<lambda>b. bo_data (h_bundles (ns_heap s) b))
       (map snd (h_lists (ns_heap s) PENDING_BUNDLES)) None"

fun cancel_on_links :: "bundle_ptr \<Rightarrow> link_id list \<Rightarrow> node_sys \<Rightarrow> node_sys res" where
  "cancel_on_links b [] s = Inr s"
| "cancel_on_links b (l # ls) s =
     bindR (bl_contains (lk_queue (the_link l s)) b (ns_heap s)) (\<lambda>queued.
     bindR (if queued then Inr True else bl_contains (lk_inflight (the_link l s)) b (ns_heap s)) (\<lambda>on_link.
     bindR (do_if on_link (cancel_bundle b l) s) (cancel_on_links b ls)))"

fun delete_on_regs :: "node_env \<Rightarrow> bundle_ptr \<Rightarrow> registration list \<Rightarrow> node_sys \<Rightarrow> node_sys res" where
  "delete_on_regs env b [] s = Inr s"
| "delete_on_regs env b (r # rs) s = bindR (ne_reg_delete env (rg_regid r) b s) (delete_on_regs env b rs)"

definition daemon_delete_bundle :: "node_env \<Rightarrow> bundle_ptr \<Rightarrow> byte \<Rightarrow> node_sys \<Rightarrow> (bool \<times> node_sys) res" where
  "daemon_delete_bundle env b reason s =
     bindR (get_data b s) (\<lambda>d.
       let s = s\<lparr>ns_stats := (ns_stats s)\<lparr>ds_deleted := ds_deleted (ns_stats s) + 1\<rparr>\<rparr>;
           send_status = (b_local_custody d \<or> b_deletion_rcpt d \<and> reason \<noteq> REASON_NO_ADDTL_INFO)
       in
       bindR (do_if (b_local_custody d) (release_custody env b) s) (\<lambda>s.
       bindR (do_if (b_is_fragment d) (ne_delete_fragment env b) s) (\<lambda>s.
       bindR (tr_delete_bundle env b s) (\<lambda>s.
       bindR (get_obj b (ns_heap s)) (\<lambda>x.
       bindR (if is_queued_on PENDING_BUNDLES x then delete_from_pending b s else Inr (True, s)) (\<lambda>(erased, s).
       bindR (do_if (erased \<and> send_status) (ne_report env b SR_DELETED reason) s) (\<lambda>s.
       bindR (cancel_on_links b (cm_set (ns_cm s)) s) (\<lambda>s.
       bindR (delete_on_regs env b (reg_get_matching env (b_dest d) s) s) (\<lambda>s.
         Inr (erased, s))))))))))"

definition try_to_delete :: "node_env \<Rightarrow> bundle_ptr \<Rightarrow> node_sys \<Rightarrow> (bool \<times> node_sys) res" where
  "try_to_delete env b s =
     bindR (get_obj b (ns_heap s)) (\<lambda>x.
       if \<not> is_queued_on PENDING_BUNDLES x then Inr (False, s)
       else if \<not> ne_early_deletion env then Inr (False, s)
       else
         bindR (tr_can_delete_bundle env b s) (\<lambda>can.
           if \<not> can then Inr (False, s) else daemon_delete_bundle env b REASON_NO_ADDTL_INFO s))"

subsection \<open>A bundle is received\<close>

definition count_received :: "event_source \<Rightarrow> node_sys \<Rightarrow> node_sys" where
  "count_received source s =
     (let st = ns_stats s
      in if source = EVENTSRC_PEER \<or> source = EVENTSRC_APP then s\<lparr>ns_stats := st\<lparr>ds_received := ds_received st + 1\<rparr>\<rparr>
         else if source = EVENTSRC_STORE then s
         else s\<lparr>ns_stats := st\<lparr>ds_generated := ds_generated st + 1\<rparr>\<rparr>)"

definition fill_prevhop :: "node_env \<Rightarrow> bundle_ptr \<Rightarrow> eid \<Rightarrow> node_sys \<Rightarrow> node_sys" where
  "fill_prevhop env b prevhop s =
     set_data b (\<lambda>d. if eid_equals (b_prevhop d) (NULL_EID (ne_naming env)) \<or> eid_str (b_prevhop d) = []
                     then d\<lparr>b_prevhop := prevhop\<rparr> else d) s"

text \<open>
  What is done with a bundle from another node before it is accepted; false when it was deleted.
\<close>

definition receive_from_peer :: "node_env \<Rightarrow> bundle_ptr \<Rightarrow> eid \<Rightarrow> u32 \<Rightarrow> node_sys \<Rightarrow> (bool \<times> node_sys) res" where
  "receive_from_peer env b prevhop bytes_received s =
     (let s = fill_prevhop env b prevhop s
      in
      bindR (assertR (bytes_received \<noteq> 0)) (\<lambda>_.
      bindR (get_data b s) (\<lambda>d.
      bindR (try_to_convert_to_fragment (env_io (ne_bp env)) d) (\<lambda>(_, d).
      bindR (bundle_validate (ne_bp env) (ne_procs env) d
               \<lparr>reception_reason = REASON_NO_ADDTL_INFO, deletion_reason = REASON_NO_ADDTL_INFO\<rparr>) (\<lambda>(valid, reasons, d).
        let s = set_data b (\<lambda>_. d) s
        in
        bindR (do_if (b_receive_rcpt d \<or> reception_reason reasons \<noteq> REASON_NO_ADDTL_INFO)
                 (ne_report env b SR_RECEIVED (reception_reason reasons)) s) (\<lambda>s.
        bindR (get_data b s) (\<lambda>d.
          let (accepted, reason) = (if valid then accept_bundle env d else (False, deletion_reason reasons))
          in if accepted then Inr (True, s)
             else bindR (daemon_delete_bundle env b reason s) (\<lambda>(_, s). Inr (False, s)))))))))"

text \<open>
  What follows for a bundle that is pending; \<open>link\<close> and \<open>reg\<close> are where the bundle came from.
\<close>

definition log_reception ::
  "node_env \<Rightarrow> bundle_ptr \<Rightarrow> event_source \<Rightarrow> link_id option \<Rightarrow> registration option \<Rightarrow> node_sys \<Rightarrow> node_sys"
where
  "log_reception env b source link reg s =
     (case (source, link, reg) of
        (EVENTSRC_PEER, Some l, _) \<Rightarrow> log_add env b l FORWARD_ACTION RECEIVED custody_defaults s
      | (EVENTSRC_APP, _, Some r) \<Rightarrow> set_log b (add_entry_reg (ne_now env) r FORWARD_ACTION RECEIVED (ns_log s b)) s
      | _ \<Rightarrow> s)"

definition take_custody :: "node_env \<Rightarrow> bundle_ptr \<Rightarrow> event_source \<Rightarrow> bundle_ptr option \<Rightarrow> node_sys \<Rightarrow> node_sys res" where
  "take_custody env b source duplicate s =
     bindR (get_data b s) (\<lambda>d.
     bindR (case duplicate of None \<Rightarrow> Inr True | Some c \<Rightarrow> bindR (get_data c s) (\<lambda>dc. Inr (\<not> b_local_custody dc))) (\<lambda>free.
       if b_custody_requested d \<and> ne_accept_custody env \<and> free
       then if source \<noteq> EVENTSRC_STORE then accept_custody env b s
            else do_if (b_local_custody d) (list_push CUSTODY_BUNDLES b) s
       else Inr s))"

definition deliver_locally :: "node_env \<Rightarrow> bundle_ptr \<Rightarrow> event_source \<Rightarrow> node_sys \<Rightarrow> node_sys res" where
  "deliver_locally env b source s =
     bindR (get_data b s) (\<lambda>d.
     bindR (do_if (\<not> b_is_fragment d) (ne_delete_obsoleted env b) s) (\<lambda>s.
       if source = EVENTSRC_STORE then Inr (generate_delivery_events b s)
       else
         bindR (check_local_delivery env b (source \<noteq> EVENTSRC_ROUTER \<and> \<not> b_is_fragment d) s) (\<lambda>(is_local, s).
           do_if (source \<noteq> EVENTSRC_FRAGMENTATION \<and> b_is_fragment d \<and> is_local) (ne_reassemble env b) s)))"

text \<open>The first component of the result is \<open>daemon_only\<close>: the router is not told.\<close>

definition handle_bundle_received ::
  "node_env \<Rightarrow> bundle_ptr \<Rightarrow> event_source \<Rightarrow> link_id option \<Rightarrow> eid \<Rightarrow> registration option \<Rightarrow> u32 \<Rightarrow> node_sys \<Rightarrow>
     (bool \<times> node_sys) res"
where
  "handle_bundle_received env b source link prevhop reg bytes_received s =
     bindR (if source = EVENTSRC_PEER then receive_from_peer env b prevhop bytes_received (count_received source s)
            else Inr (True, count_received source s)) (\<lambda>(accepted, s).
       if \<not> accepted then Inr (True, s)
       else
         bindR (get_data b s) (\<lambda>d.
           let duplicate = find_duplicate env d s;
               s = (if duplicate = None then s
                    else s\<lparr>ns_stats := (ns_stats s)\<lparr>ds_duplicate := ds_duplicate (ns_stats s) + 1\<rparr>\<rparr>)
           in
           bindR (case duplicate of None \<Rightarrow> Inr False
                  | Some c \<Rightarrow> bindR (get_data c s) (\<lambda>dc. Inr (b_custody_requested d \<and> b_local_custody dc))) (\<lambda>redundant.
           bindR (do_if redundant (ne_signal env b False CUSTODY_REDUNDANT_RECEPTION) s) (\<lambda>s.
             if duplicate \<noteq> None \<and> (ne_suppress_duplicates env \<or> redundant) then Inr (True, s)
             else
               bindR (add_to_pending env b (source \<noteq> EVENTSRC_STORE) s) (\<lambda>(ok_to_route, s).
                 if \<not> ok_to_route then Inr (True, s)
                 else
                   bindR (take_custody env b source duplicate (log_reception env b source link reg s)) (\<lambda>s.
                     if duplicate \<noteq> None then Inr (False, s)
                     else bindR (deliver_locally env b source s) (\<lambda>s. Inr (False, s))))))))"

subsection \<open>The other bundle events\<close>

definition handle_deliver_bundle_to_reg :: "node_env \<Rightarrow> bundle_ptr \<Rightarrow> u32 \<Rightarrow> node_sys \<Rightarrow> node_sys res" where
  "handle_deliver_bundle_to_reg env b regid s =
     (case reg_get regid s of None \<Rightarrow> Inr s | Some reg \<Rightarrow> deliver_to_registration env b reg s)"

definition handle_bundle_delivered :: "node_env \<Rightarrow> bundle_ptr \<Rightarrow> node_sys \<Rightarrow> node_sys res" where
  "handle_bundle_delivered env b s =
     (let s = s\<lparr>ns_stats := (ns_stats s)\<lparr>ds_delivered := ds_delivered (ns_stats s) + 1\<rparr>\<rparr>
      in
      bindR (get_data b s) (\<lambda>d.
      bindR (do_if (b_delivery_rcpt d) (ne_report env b SR_DELIVERED REASON_NO_ADDTL_INFO) s) (\<lambda>s.
      bindR (get_data b s) (\<lambda>d.
        if \<not> b_custody_requested d then Inr s
        else if b_local_custody d then release_custody env b s
        else if eid_equals (b_custodian d) (NULL_EID (ne_naming env)) then Inr s
        else ne_signal env b True CUSTODY_NO_ADDTL_INFO s))))"

definition handle_bundle_expired :: "node_env \<Rightarrow> bundle_ptr \<Rightarrow> node_sys \<Rightarrow> node_sys res" where
  "handle_bundle_expired env b s =
     bindR (daemon_delete_bundle env b REASON_LIFETIME_EXPIRED
              (s\<lparr>ns_stats := (ns_stats s)\<lparr>ds_expired := ds_expired (ns_stats s) + 1\<rparr>\<rparr>)) (\<lambda>(_, s). Inr s)"

definition handle_bundle_delete :: "node_env \<Rightarrow> bundle_ptr \<Rightarrow> byte \<Rightarrow> node_sys \<Rightarrow> node_sys res" where
  "handle_bundle_delete env b reason s = bindR (daemon_delete_bundle env b reason s) (\<lambda>(_, s). Inr s)"

fun delete_fragments :: "node_env \<Rightarrow> bundle_ptr list \<Rightarrow> node_sys \<Rightarrow> node_sys res" where
  "delete_fragments env [] s = Inr s"
| "delete_fragments env (f # fs) s =
     bindR (daemon_delete_bundle env f REASON_NO_ADDTL_INFO s) (\<lambda>(_, s). delete_fragments env fs s)"

definition handle_reassembly_completed :: "node_env \<Rightarrow> bundle_ptr \<Rightarrow> bundle_ptr list \<Rightarrow> node_sys \<Rightarrow> node_sys res" where
  "handle_reassembly_completed env b fragments s =
     bindR (delete_fragments env fragments s) (\<lambda>s. Inr (ns_post_at_head (BundleReceived b EVENTSRC_FRAGMENTATION) s))"

definition signal_gbofid :: "custody_signal \<Rightarrow> gbofid" where
  "signal_gbofid sig =
     (let frag = (cs_admin_flags sig AND ADMIN_IS_FRAGMENT \<noteq> 0)
      in \<lparr>g_source = cs_orig_source_eid sig, g_creation_ts = cs_orig_creation_tv sig, g_is_fragment = frag,
          g_frag_length = (if frag then ucast (cs_orig_frag_length sig) else 0),
          g_frag_offset = (if frag then ucast (cs_orig_frag_offset sig) else 0)\<rparr>)"

definition handle_custody_signal :: "node_env \<Rightarrow> custody_signal \<Rightarrow> node_sys \<Rightarrow> node_sys res" where
  "handle_custody_signal env sig s =
     (case find_bundle (match_gbofid (signal_gbofid sig)) (h_bundles (ns_heap s)) (h_lists (ns_heap s) CUSTODY_BUNDLES) of
        None \<Rightarrow> Inr s
      | Some b \<Rightarrow>
          if cs_succeeded sig \<or> cs_reason sig = CUSTODY_REDUNDANT_RECEPTION
          then bindR (release_custody env b s) (\<lambda>s. bindR (try_to_delete env b s) (\<lambda>(_, s). Inr s))
          else Inr s)"

text \<open>The first timer for the link that is not pending is the one that fired.\<close>

fun remove_fired :: "link_id \<Rightarrow> custody_timer list \<Rightarrow> (bool \<times> custody_timer list)" where
  "remove_fired l [] = (False, [])"
| "remove_fired l (t # ts) =
     (if ct_link t = l \<and> \<not> ct_pending t then (True, ts)
      else case remove_fired l ts of (found, ts') \<Rightarrow> (found, t # ts'))"

definition handle_custody_timeout :: "node_env \<Rightarrow> bundle_ptr \<Rightarrow> link_id \<Rightarrow> node_sys \<Rightarrow> node_sys res" where
  "handle_custody_timeout env b l s =
     (case remove_fired l (ns_custody s b) of
        (False, _) \<Rightarrow> Inr s
      | (True, ts) \<Rightarrow>
          bindR (bl_contains PENDING_BUNDLES b (ns_heap s)) (\<lambda>_.
          bindR (log_update env b l CUSTODY_TIMEOUT (s\<lparr>ns_custody := (ns_custody s)(b := ts)\<rparr>)) (\<lambda>(_, s). Inr s)))"

subsection \<open>Handling an event\<close>

text \<open>The events that carry a bundle, with what their handlers read of them.\<close>

datatype bundle_event =
    EvReceived bundle_ptr event_source "link_id option" eid "registration option" u32
  | EvTransmitted bundle_ptr link_id u32 u32
  | EvDelivered bundle_ptr
  | EvExpired bundle_ptr
  | EvCancelled bundle_ptr link_id
  | EvDelete bundle_ptr byte
  | EvDeliverToReg bundle_ptr u32
  | EvReassembled bundle_ptr "bundle_ptr list"
  | EvCustodySignal custody_signal
  | EvCustodyTimeout bundle_ptr link_id

fun dispatch_event :: "node_env \<Rightarrow> bundle_event \<Rightarrow> node_sys \<Rightarrow> (bool \<times> node_sys) res" where
  "dispatch_event env (EvReceived b source link prevhop reg n) s = handle_bundle_received env b source link prevhop reg n s"
| "dispatch_event env (EvTransmitted b l sent acked) s = bindR (handle_bundle_transmitted env b l sent acked s) (\<lambda>s. Inr (False, s))"
| "dispatch_event env (EvDelivered b) s = bindR (handle_bundle_delivered env b s) (\<lambda>s. Inr (False, s))"
| "dispatch_event env (EvExpired b) s = bindR (handle_bundle_expired env b s) (\<lambda>s. Inr (False, s))"
| "dispatch_event env (EvCancelled b l) s = bindR (handle_bundle_cancelled env b l s) (\<lambda>s. Inr (False, s))"
| "dispatch_event env (EvDelete b reason) s = bindR (handle_bundle_delete env b reason s) (\<lambda>s. Inr (True, s))"
| "dispatch_event env (EvDeliverToReg b regid) s = bindR (handle_deliver_bundle_to_reg env b regid s) (\<lambda>s. Inr (False, s))"
| "dispatch_event env (EvReassembled b fragments) s = bindR (handle_reassembly_completed env b fragments s) (\<lambda>s. Inr (False, s))"
| "dispatch_event env (EvCustodySignal sig) s = bindR (handle_custody_signal env sig s) (\<lambda>s. Inr (False, s))"
| "dispatch_event env (EvCustodyTimeout b l) s = bindR (handle_custody_timeout env b l s) (\<lambda>s. Inr (False, s))"

fun router_event :: "node_env \<Rightarrow> bundle_event \<Rightarrow> node_sys \<Rightarrow> node_sys res" where
  "router_event env (EvReceived b source link prevhop reg n) s =
     tr_bundle_received env b (case link of None \<Rightarrow> NULL_EID (ne_naming env) | Some l \<Rightarrow> lk_remote_eid (the_link l s)) s"
| "router_event env (EvTransmitted b l sent acked) s = tr_bundle_transmitted env b l s"
| "router_event env (EvCancelled b l) s = tr_bundle_cancelled env b s"
| "router_event env (EvCustodyTimeout b l) s = tr_custody_timeout env b s"
| "router_event env _ s = Inr s"

fun event_handlers_completed :: "node_env \<Rightarrow> bundle_event \<Rightarrow> node_sys \<Rightarrow> node_sys res" where
  "event_handlers_completed env (EvReceived b source link prevhop reg n) s = bindR (try_to_delete env b s) (\<lambda>(_, s). Inr s)"
| "event_handlers_completed env (EvTransmitted b l sent acked) s = bindR (try_to_delete env b s) (\<lambda>(_, s). Inr s)"
| "event_handlers_completed env (EvDelivered b) s = bindR (try_to_delete env b s) (\<lambda>(_, s). Inr s)"
| "event_handlers_completed env _ s = Inr s"

definition handle_event :: "node_env \<Rightarrow> bundle_event \<Rightarrow> node_sys \<Rightarrow> node_sys res" where
  "handle_event env ev s =
     bindR (dispatch_event env ev s) (\<lambda>(daemon_only, s).
     bindR (do_if (\<not> daemon_only) (router_event env ev) s) (event_handlers_completed env ev))"

end
