(* ===== verification/RouterRuns.thy ===== *)
theory RouterRuns
  imports Router
begin

text \<open>
  The router of \<open>Router\<close> on the node of \<open>TransmissionRuns\<close>: what the decision to forward reads from
  the log, what queueing a bundle changes of the router's state, the invariant of the deferred lists
  and the logs (\<open>rt_inv\<close>), and that routing, rerouting and the events of the router keep it together
  with the books of the links (\<open>tx_inv\<close>) and never fail an assertion.
\<close>

subsection \<open>The decision\<close>

text \<open>Whether a log shows that the bundle was sent, or is about to be, and not given up since.\<close>

definition outgoing :: "fwd_info \<Rightarrow> bool" where
  "outgoing fi \<longleftrightarrow> fi_state fi \<in> {TRANSMITTED, QUEUED} \<and> fi_action fi \<noteq> INVALID_ACTION"

definition suppressed :: "fwd_info \<Rightarrow> bool" where
  "suppressed fi \<longleftrightarrow> fi_state fi = SUPPRESSED \<and> fi_action fi \<noteq> INVALID_ACTION"

definition same_node :: "naming \<Rightarrow> eid \<Rightarrow> fwd_info \<Rightarrow> bool" where
  "same_node nm e fi \<longleftrightarrow> eid_equals (fi_remote_eid fi) (WILDCARD_EID nm) \<or> eid_equals (fi_remote_eid fi) e"

definition forwarded :: "fwd_info \<Rightarrow> bool" where
  "forwarded fi \<longleftrightarrow> outgoing fi \<and> fi_action fi = FORWARD_ACTION"

definition known_states :: "fwd_log \<Rightarrow> bool" where
  "known_states log \<longleftrightarrow> (\<forall>fi\<in>set log. fi_state fi \<noteq> FWD_NONE)"

definition should_fwd_spec :: "naming \<Rightarrow> link \<Rightarrow> fwd_action \<Rightarrow> bool \<Rightarrow> fwd_log \<Rightarrow> bool" where
  "should_fwd_spec nm lk action singleton log \<longleftrightarrow>
     by_name.view log (lk_name lk) \<notin> {Some TRANSMITTED, Some QUEUED} \<and>
     (\<not> eid_equals (lk_remote_eid lk) (NULL_EID nm) \<longrightarrow>
        (\<forall>fi\<in>set log. same_node nm (lk_remote_eid lk) fi \<longrightarrow>
           \<not> outgoing fi \<and> \<not> suppressed fi)) \<and>
     (singleton \<and> action = FORWARD_ACTION \<longrightarrow> (\<forall>fi\<in>set log. \<not> forwarded fi))"

lemma matches_states:
  "fi_matches sent_or_queued ANY_ACTION fi \<longleftrightarrow> outgoing fi"
  "fi_matches sent_or_queued (fwd_action_code FORWARD_ACTION) fi \<longleftrightarrow> forwarded fi"
  "fi_matches (fwd_state_code SUPPRESSED) ANY_ACTION fi \<longleftrightarrow> suppressed fi"
  by (simp_all only: sent_or_queued_def fi_matches_iff action_matches outgoing_def forwarded_def suppressed_def) auto

lemma count_states:
  "0 < get_count_eid nm e sent_or_queued ANY_ACTION log \<longleftrightarrow> (\<exists>fi\<in>set log. same_node nm e fi \<and> outgoing fi)"
  "0 < get_count_eid nm e (fwd_state_code SUPPRESSED) ANY_ACTION log \<longleftrightarrow> (\<exists>fi\<in>set log. same_node nm e fi \<and> suppressed fi)"
  "0 < get_count sent_or_queued (fwd_action_code FORWARD_ACTION) log \<longleftrightarrow> (\<exists>fi\<in>set log. forwarded fi)"
  unfolding neq0_conv [symmetric] get_count_eid_zero get_count_zero matches_states by (auto simp: same_node_def)

lemma br_should_fwd_eq:
  assumes inv: "tx_inv held (ne_naming env) remotes s" "real_link s l" and b: "1 \<le> held b" and st: "known_states (ns_log s b)"
  shows "br_should_fwd env b l action s =
    Inr (should_fwd_spec (ne_naming env) (the_link l s) action (b_singleton_dest (b_data b s)) (ns_log s b))"
proof -
  let ?nm = "ne_naming env" and ?lk = "the_link l s" and ?log = "ns_log s b"
  let ?r = "find (\<lambda>fi. fi_link_name fi = lk_name ?lk) (rev ?log)"
  have r: "get_latest_link ?nm ?lk ?log = Inr ?r"
    by (rule get_latest_link_eq [OF tx_invD(3) [OF inv(1)] tx_invD(6) [OF inv]])
  have "(?r \<noteq> None) = (latest_state ?r \<noteq> FWD_NONE)"
    using st find_SomeD [of _ "rev ?log"] by (fastforce simp: latest_state_def known_states_def split: option.splits)
  then have found: "assertR ((?r \<noteq> None) = (latest_state ?r \<noteq> FWD_NONE)) = Inr ()"
    by simp
  have cnt: "(P \<and> action = FORWARD_ACTION \<and> get_count sent_or_queued (fwd_action_code action) ?log > 0) =
      (P \<and> action = FORWARD_ACTION \<and> (\<exists>fi\<in>set ?log. forwarded fi))" for P
    using count_states(3) [of ?log] by metis
  have view: "latest_state ?r = TRANSMITTED \<or> latest_state ?r = QUEUED \<longleftrightarrow>
      by_name.view ?log (lk_name ?lk) \<in> {Some TRANSMITTED, Some QUEUED}"
    by (auto simp: by_name.view_find latest_state_def split: option.splits)
  have x: "get_obj b (ns_heap s) = Inr (h_bundles (ns_heap s) b)"
    by (rule get_obj_held [OF inv(1) b])
  show ?thesis
    unfolding br_should_fwd_def Let_def r bindR_Inr found view count_states(1,2) x cnt
    by (auto simp: should_fwd_spec_def)
qed

subsection \<open>What queueing a bundle changes\<close>

lemma add_bundle_with_lists:
  assumes "add_bundle_with ref l i b h = Inr h'"
    and "\<And>h h'. ref b h = Inr h' \<Longrightarrow> k \<noteq> ALL_BUNDLES \<Longrightarrow> h_lists h' k = h_lists h k" "k \<noteq> l" "k \<noteq> ALL_BUNDLES"
  shows "h_lists h' k = h_lists h k"
proof -
  let ?n = "h_next h" and ?xs = "h_lists h l" and ?x = "h_bundles h b"
  let ?h1 = "set_obj b (?x\<lparr>bo_mappings := bo_mappings ?x @ [(l, ?n)]\<rparr>)
      ((set_list l (take i ?xs @ (?n, b) # drop i ?xs) h)\<lparr>h_next := ?n + 1\<rparr>)"
  have "h_lists ?h1 k = h_lists h k"
    using assms(3) by (simp add: set_obj_def set_list_def)
  moreover from assms(1) have "h' = h \<or> ref b ?h1 = Inr h'"
    by (auto simp: add_bundle_with_def bindR_eq_Inr get_obj_def Let_def split: if_splits)
  ultimately show ?thesis
    using assms(2) [OF _ assms(4)] by metis
qed

lemma inc_ref_lists: "inc_ref b h = Inr (n, h') \<Longrightarrow> h_lists h' = h_lists h"
  by (auto simp: inc_ref_def bindR_eq_Inr get_obj_def set_obj_def Let_def split: if_splits)

lemma add_ref_lists:
  assumes "add_ref b h = Inr h'" "k \<noteq> ALL_BUNDLES"
  shows "h_lists h' k = h_lists h k"
proof -
  from assms(1) obtain r h1 where h1: "inc_ref b h = Inr (r, h1)" and
    "h' = h1 \<or> add_bundle_with (\<lambda>b h. bindR (inc_ref b h) (\<lambda>(_, h). Inr h)) ALL_BUNDLES (length (h_lists h1 ALL_BUNDLES)) b h1 = Inr h'"
    by (auto simp: add_ref_def bindR_eq_Inr split: if_splits)
  then have "h_lists h' k = h_lists h1 k"
    using add_bundle_with_lists [OF _ _ assms(2,2)] by (fastforce simp: bindR_eq_Inr dest: inc_ref_lists)
  then show ?thesis
    using inc_ref_lists [OF h1] by simp
qed

lemma push_back_lists:
  "bl_push_back l b h = Inr h' \<Longrightarrow> k \<noteq> l \<Longrightarrow> k \<noteq> ALL_BUNDLES \<Longrightarrow> h_lists h' k = h_lists h k"
  using add_bundle_with_lists [of add_ref] add_ref_lists by (fastforce simp: bl_push_back_def add_bundle_def)

text \<open>What of a link the router and its invariants read, apart from the state and the counters.\<close>

definition link_kept :: "link \<Rightarrow> link \<Rightarrow> bool" where
  "link_kept lk lk' \<longleftrightarrow> lk_queue lk' = lk_queue lk \<and> lk_inflight lk' = lk_inflight lk \<and> lk_name lk' = lk_name lk \<and>
     lk_remote_eid lk' = lk_remote_eid lk \<and> lk_params lk' = lk_params lk"

definition rt_kept :: "node_sys \<Rightarrow> node_sys \<Rightarrow> bool" where
  "rt_kept s s' \<longleftrightarrow> (\<forall>l. link_kept (the_link l s) (the_link l s')) \<and> ns_routes s' = ns_routes s \<and> ns_cache s' = ns_cache s \<and>
     cm_set (ns_cm s') = cm_set (ns_cm s)"

definition router_same :: "link_id set \<Rightarrow> node_sys \<Rightarrow> node_sys \<Rightarrow> bool" where
  "router_same ls s s' \<longleftrightarrow> rt_kept s s' \<and> ns_deferred s' = ns_deferred s \<and>
     (\<forall>k. k \<noteq> ALL_BUNDLES \<longrightarrow> (\<forall>l\<in>ls. k \<notin> link_lists s l) \<longrightarrow> h_lists (ns_heap s') k = h_lists (ns_heap s) k)"

text \<open>The fragmentation manager creates bundles and leaves the router, the links and their lists alone.\<close>

definition fragment_kept :: "node_env \<Rightarrow> bool" where
  "fragment_kept env \<longleftrightarrow>
     (\<forall>b l s r s'. ne_fragment env b l s = Inr (r, s') \<longrightarrow> router_same {} s s' \<and> ns_log s' = ns_log s)"

lemma rt_kept_refl [simp]: "rt_kept s s"
  by (simp add: rt_kept_def link_kept_def)

lemma rt_kept_trans: "rt_kept s s1 \<Longrightarrow> rt_kept s1 s2 \<Longrightarrow> rt_kept s s2"
  by (simp add: rt_kept_def link_kept_def)

lemma rt_kept_lists: "rt_kept s s' \<Longrightarrow> link_lists s' l = link_lists s l"
  by (simp add: rt_kept_def link_kept_def link_lists_def)

lemma router_same_refl [simp]: "router_same ls s s"
  by (simp add: router_same_def)

lemma router_same_trans:
  assumes "router_same ls s s1" "router_same ls s1 s2"
  shows "router_same ls s s2"
proof -
  have k: "rt_kept s s1" "rt_kept s1 s2"
    using assms by (simp_all add: router_same_def)
  then show ?thesis
    using assms rt_kept_trans [OF k] by (simp add: router_same_def rt_kept_lists [OF k(1)])
qed

lemma router_same_mono: "router_same ls s s' \<Longrightarrow> ls \<subseteq> ks \<Longrightarrow> router_same ks s s'"
  unfolding router_same_def by blast

lemmas router_defs = router_same_def rt_kept_def link_kept_def

lemma set_xmit_router: "router_same ls s (set_xmit b xs s)"
  by (simp add: router_defs set_xmit_def)

lemma post_router: "router_same ls s (ns_post ev s)" "router_same ls s (ns_post_at_head ev s)"
  by (simp_all add: router_defs ns_post_def ns_post_at_head_def)

lemma fold_post_router: "router_same ls s (fold (\<lambda>f. ns_post_at_head (ev f)) bs s)"
proof (induction bs arbitrary: s)
  case (Cons f bs)
  show ?case
    using router_same_trans [OF post_router(2) Cons.IH] by simp
qed simp

lemma log_add_router:
  "router_same ls s (log_add env b l action st spec s)"
  "ns_log (log_add env b l action st spec s) = (ns_log s)(b := ns_log s b @
     [fwd_info_new (ne_now env) st action (lk_name (the_link l s)) NO_REGID (lk_remote_eid (the_link l s)) spec])"
  by (simp_all add: router_defs log_add_def add_entry_link_def ns_set_link_def set_log_def set_used_in_fwdlog_def)

lemma add_to_queue_router:
  assumes "on_link l (add_to_queue b n) s = Inr (r, s')"
  shows "router_same {l} s s'" "ns_log s' = ns_log s"
proof -
  let ?lk = "the_link l s"
  consider "s' = s" | h where "bl_push_back (lk_queue ?lk) b (ns_heap s) = Inr h"
      "s' = (ns_set_link l (?lk\<lparr>lk_bundles_queued := lk_bundles_queued ?lk + 1, lk_bytes_queued := lk_bytes_queued ?lk + of_nat n\<rparr>) s)
        \<lparr>ns_heap := h\<rparr>"
    using assms by (auto simp: on_link_def add_to_queue_def bindR_eq_Inr ns_set_link_def set_link_def split: if_splits)
  then have "router_same {l} s s' \<and> ns_log s' = ns_log s"
  proof cases
    case (2 h)
    show ?thesis
      using push_back_lists [OF 2(1)] unfolding 2(2) by (simp add: router_defs ns_set_link_def link_lists_def)
  qed simp
  then show "router_same {l} s s'" "ns_log s' = ns_log s"
    by simp_all
qed

text \<open>The log of the bundle has at most one new entry, with the given action; nothing else is logged.\<close>

definition logged :: "bundle_ptr \<Rightarrow> fwd_action \<Rightarrow> node_sys \<Rightarrow> node_sys \<Rightarrow> bool" where
  "logged b action s s' \<longleftrightarrow> ns_log s' = ns_log s \<or>
     (\<exists>fi. ns_log s' = (ns_log s)(b := ns_log s b @ [fi]) \<and> fi_action fi = action \<and> fi_state fi \<in> {QUEUED, SUPPRESSED})"

lemma queue_bundle_effect:
  assumes "queue_bundle env b l action spec s = Inr (ok, s')" and frag: "fragment_kept env"
  shows "router_same {l} s s' \<and> logged b action s s'"
proof (cases "lk_deleted (the_link l s) \<or> lbs_find_blocks l (ns_xmit s b) \<noteq> None")
  case True
  then have "queue_bundle env b l action spec s = Inr (False, s)"
    by (auto simp: queue_bundle_def)
  then show ?thesis
    using assms(1) by (simp add: logged_def)
next
  case False
  then obtain n s1 where s1: "create_xmit_blocks env b l s = Inr (n, s1)"
    using assms(1) by (auto simp: queue_bundle_def bindR_eq_Inr split: if_splits)
  have r1: "router_same {l} s s1" and l1: "ns_log s1 = ns_log s"
    using s1 by (cases rule: create_xmit_blocks_cases; simp add: set_xmit_router)+
  let ?mtu = "\<lambda>s. lp_mtu (lk_params (the_link l s)) \<noteq> 0 \<and> n > unat (lp_mtu (lk_params (the_link l s)))"
  consider "s' = s1" | frags s2 where "ne_fragment env b l s1 = Inr (frags, s2)" "frags = None" "s' = s2"
    | bs s2 where "ne_fragment env b l s1 = Inr (Some bs, s2)"
        "s' = ns_post_at_head (BundleDelete b REASON_NO_ADDTL_INFO) (log_add env b l action SUPPRESSED custody_defaults
           (fold (\<lambda>f. ns_post_at_head (BundleReceived f EVENTSRC_FRAGMENTATION)) bs s2))"
    | r where "on_link l (add_to_queue b n) (log_add env b l action QUEUED spec s1) = Inr (r, s')"
    using assms(1) False s1 by (auto simp: queue_bundle_def bindR_eq_Inr Let_def split: if_splits option.splits)
  then show ?thesis
  proof cases
    case 1
    then show ?thesis using r1 l1 by (simp add: logged_def)
  next
    case 2
    then have "router_same {} s1 s'" "ns_log s' = ns_log s1"
      using frag unfolding fragment_kept_def by blast+
    then show ?thesis
      using router_same_trans [OF r1 router_same_mono [of "{}" s1 s' "{l}"]] l1 by (simp add: logged_def)
  next
    case 3
    then have s2: "router_same {} s1 s2" "ns_log s2 = ns_log s1"
      using frag unfolding fragment_kept_def by blast+
    let ?s3 = "fold (\<lambda>f. ns_post_at_head (BundleReceived f EVENTSRC_FRAGMENTATION)) bs s2"
    have "router_same {l} s1 s'"
      unfolding 3(2)
      by (rule router_same_trans [OF router_same_mono [OF s2(1)]], simp)
         (rule router_same_trans [OF router_same_trans [OF fold_post_router log_add_router(1)] post_router(2)])
    then show ?thesis
      using router_same_trans [OF r1] by (auto simp: logged_def 3(2) log_add_router(2) fold_post_fields s2(2) l1)
  next
    case 4
    note q = add_to_queue_router [OF 4]
    show ?thesis
      using router_same_trans [OF r1 router_same_trans [OF log_add_router(1) q(1)]]
      by (auto simp: logged_def q(2) log_add_router(2) l1)
  qed
qed

subsection \<open>The invariant of the router\<close>

definition deferred_on :: "deferred_list \<Rightarrow> node_sys \<Rightarrow> bundle_ptr set" where
  "deferred_on d s = snd ` set (h_lists (ns_heap s) (df_list d))"

abbreviation bid :: "node_sys \<Rightarrow> bundle_ptr \<Rightarrow> u32" where
  "bid s b \<equiv> b_bundleid (b_data b s)"

text \<open>
  A deferred list belongs to a link and is no list of a link; it counts its bundles, all of which are
  referenced, and has information for exactly these.
\<close>

definition deferred_list_ok :: "(bundle_ptr \<Rightarrow> int) \<Rightarrow> node_sys \<Rightarrow> link_id \<Rightarrow> deferred_list \<Rightarrow> bool" where
  "deferred_list_ok held s l d \<longleftrightarrow>
     real_link s l \<and> df_list d \<noteq> ALL_BUNDLES \<and> (\<forall>k. real_link s k \<longrightarrow> df_list d \<notin> link_lists s k) \<and>
     df_count d = length (h_lists (ns_heap s) (df_list d)) \<and> (\<forall>b\<in>deferred_on d s. 1 \<le> held b) \<and>
     {i. df_info d i \<noteq> None} = bid s ` deferred_on d s"

definition deferred_ok :: "(bundle_ptr \<Rightarrow> int) \<Rightarrow> node_sys \<Rightarrow> bool" where
  "deferred_ok held s \<longleftrightarrow>
     (\<forall>l d. ns_deferred s l = Some d \<longrightarrow> deferred_list_ok held s l d) \<and>
     (\<forall>l k d e. ns_deferred s l = Some d \<and> ns_deferred s k = Some e \<and> l \<noteq> k \<longrightarrow> df_list d \<noteq> df_list e)"

text \<open>No bundle for a single node is forwarded on two links at a time.\<close>

definition logs_ok :: "(bundle_ptr \<Rightarrow> int) \<Rightarrow> node_sys \<Rightarrow> bool" where
  "logs_ok held s \<longleftrightarrow>
     (\<forall>b. known_states (ns_log s b)) \<and>
     (\<forall>b. 1 \<le> held b \<and> b_singleton_dest (b_data b s) \<longrightarrow> length (filter forwarded (ns_log s b)) \<le> 1)"

text \<open>
  What stays as it is: identifiers of bundles are unique, every bundle can be formatted, in at most
  \<open>n\<close> bytes, a queue below its limits has room for that in 32-bit counters, and routes are complete.
\<close>

definition fmt_ok :: "node_env \<Rightarrow> nat \<Rightarrow> dtn_bundle \<Rightarrow> bool" where
  "fmt_ok env n x \<longleftrightarrow>
     (\<exists>r. prepare_blocks (ne_bp env) (ne_procs env) (ne_md_gen env) x = Inr r \<and>
       (\<forall>vec. r = Some vec \<longrightarrow>
          (\<exists>r. generate_blocks (ne_bp env) (ne_procs env) x vec = Inr r \<and> (\<forall>m v. r = Some (m, v) \<longrightarrow> m \<le> n))))"

definition limits_ok :: "nat \<Rightarrow> link \<Rightarrow> bool" where
  "limits_ok n lk \<longleftrightarrow>
     unat (lp_qlimit_bundles_high (lk_params lk)) + 2 < 2 ^ 32 \<and> unat (lp_qlimit_bytes_high (lk_params lk)) + n < 2 ^ 32"

definition rt_ready :: "(bundle_ptr \<Rightarrow> int) \<Rightarrow> node_env \<Rightarrow> nat \<Rightarrow> node_sys \<Rightarrow> bool" where
  "rt_ready held env n s \<longleftrightarrow>
     inj_on (bid s) {b. 1 \<le> held b} \<and> (\<forall>b. 1 \<le> held b \<longrightarrow> fmt_ok env n (b_data b s)) \<and>
     (\<forall>l. real_link s l \<longrightarrow> limits_ok n (the_link l s)) \<and>
     table_ok (ns_routes s) \<and> (\<forall>p\<in>set (ns_routes s). \<forall>l. re_link (snd p) = Some l \<longrightarrow> real_link s l)"

definition rt_inv :: "(bundle_ptr \<Rightarrow> int) \<Rightarrow> node_env \<Rightarrow> nat \<Rightarrow> node_sys \<Rightarrow> bool" where
  "rt_inv held env n s \<longleftrightarrow> deferred_ok held s \<and> logs_ok held s \<and> rt_ready held env n s"

definition rt_step :: "(bundle_ptr \<Rightarrow> int) \<Rightarrow> node_env \<Rightarrow> (bytes \<Rightarrow> eid) \<Rightarrow> nat \<Rightarrow> node_sys \<Rightarrow> node_sys \<Rightarrow> bool" where
  "rt_step held env remotes n s s' \<longleftrightarrow>
     tx_keeps held (ne_naming env) remotes s s' \<and> rt_kept s s' \<and> rt_inv held env n s'"

lemma rt_stepD:
  assumes "rt_step held env remotes n s s'"
  shows "tx_inv held (ne_naming env) remotes s'" "rt_inv held env n s'" "real_link s' l = real_link s l" "rt_kept s s'"
    "1 \<le> held b \<Longrightarrow> b_data b s' = b_data b s"
  using assms by (simp_all add: rt_step_def tx_keeps_def data_kept_def)

lemma rt_step_refl: "tx_inv held (ne_naming env) remotes s \<Longrightarrow> rt_inv held env n s \<Longrightarrow> rt_step held env remotes n s s"
  by (simp add: rt_step_def tx_keeps_refl)

lemma rt_step_trans:
  "rt_step held env remotes n s s1 \<Longrightarrow> rt_step held env remotes n s1 s2 \<Longrightarrow> rt_step held env remotes n s s2"
  using tx_keeps_trans rt_kept_trans unfolding rt_step_def by blast

lemma rt_ready_kept:
  assumes "rt_ready held env n s" "tx_keeps held nm remotes s s'" "rt_kept s s'"
  shows "rt_ready held env n s'"
proof -
  have d: "b_data b s' = b_data b s" if "1 \<le> held b" for b
    using assms(2) that by (simp add: tx_keeps_def data_kept_def)
  have l: "real_link s' l = real_link s l" "limits_ok n (the_link l s') = limits_ok n (the_link l s)" for l
    using assms(2,3) by (simp_all add: tx_keeps_def rt_kept_def link_kept_def limits_ok_def)
  have "inj_on (bid s') {b. 1 \<le> held b} = inj_on (bid s) {b. 1 \<le> held b}"
    by (rule inj_on_cong) (simp add: d)
  moreover have "ns_routes s' = ns_routes s"
    using assms(3) by (simp add: rt_kept_def)
  ultimately show ?thesis
    using assms(1) d l unfolding rt_ready_def by simp
qed

text \<open>A change of a heap, or of the state of links, that leaves the books alone.\<close>

definition books_kept :: "link \<Rightarrow> link \<Rightarrow> bool" where
  "books_kept lk lk' \<longleftrightarrow> link_kept lk lk' \<and> lk_bundles_queued lk' = lk_bundles_queued lk \<and> lk_bytes_queued lk' = lk_bytes_queued lk \<and>
     lk_bundles_inflight lk' = lk_bundles_inflight lk \<and> lk_bytes_inflight lk' = lk_bytes_inflight lk"

lemma tx_inv_change:
  assumes inv: "tx_inv held nm remotes s" and links: "\<And>l. books_kept (the_link l s) (the_link l s')"
    and same: "ns_log s' = ns_log s" "ns_xmit s' = ns_xmit s" and heap: "bl_inv held (ns_heap s')"
    and lists: "\<And>l k. real_link s l \<Longrightarrow> k \<in> link_lists s l \<Longrightarrow> h_lists (ns_heap s') k = h_lists (ns_heap s) k"
  shows "tx_inv held nm remotes s'" "real_link s' l = real_link s l"
proof -
  have lk: "lk_queue (the_link l s') = lk_queue (the_link l s)" "lk_inflight (the_link l s') = lk_inflight (the_link l s)"
    "lk_name (the_link l s') = lk_name (the_link l s)" "lk_remote_eid (the_link l s') = lk_remote_eid (the_link l s)"
    "lk_bundles_queued (the_link l s') = lk_bundles_queued (the_link l s)" "lk_bytes_queued (the_link l s') = lk_bytes_queued (the_link l s)"
    "lk_bundles_inflight (the_link l s') = lk_bundles_inflight (the_link l s)"
    "lk_bytes_inflight (the_link l s') = lk_bytes_inflight (the_link l s)" for l
    using links [of l] by (simp_all add: books_kept_def link_kept_def)
  show real: "real_link s' l = real_link s l" for l
    by (simp add: real_link_def lk)
  have len: "xmit_len s' = xmit_len s" by (rule xmit_len_cong [OF same(2)])
  have ls: "link_lists s' l = link_lists s l" for l
    by (simp add: link_lists_def lk)
  have "link_ok s' l" if "real_link s l" for l
  proof -
    have eq: "h_lists (ns_heap s') (lk_queue (the_link l s)) = h_lists (ns_heap s) (lk_queue (the_link l s))"
      "h_lists (ns_heap s') (lk_inflight (the_link l s)) = h_lists (ns_heap s) (lk_inflight (the_link l s))"
      using lists [OF that] by (simp_all add: link_lists_def)
    then have "queued_on s' l = queued_on s l" "inflight_on s' l = inflight_on s l"
      by (simp_all add: queued_on_def inflight_on_def lk)
    then show ?thesis
      using tx_invD(4) [OF inv that] by (simp add: link_ok_def queue.ok_def inflight.ok_def lk len eq same)
  qed
  then show "tx_inv held nm remotes s'"
    using inv heap by (simp add: tx_inv_def real ls lk same)
qed

lemma books_kept_refl [simp]: "books_kept lk lk"
  by (simp add: books_kept_def link_kept_def)

subsection \<open>Room in a queue that is not full\<close>

lemma create_xmit_blocks_fits:
  assumes inv: "tx_inv held nm remotes s" and b: "1 \<le> held b" and none: "lbs_find_blocks l (ns_xmit s b) = None"
    and fmt: "fmt_ok env n (b_data b s)"
  shows "\<exists>m s'. create_xmit_blocks env b l s = Inr (m, s') \<and> m \<le> n"
proof -
  obtain r where r: "prepare_blocks (ne_bp env) (ne_procs env) (ne_md_gen env) (b_data b s) = Inr r"
    and g: "\<And>vec. r = Some vec \<Longrightarrow> \<exists>q. generate_blocks (ne_bp env) (ne_procs env) (b_data b s) vec = Inr q \<and>
      (\<forall>m v. q = Some (m, v) \<longrightarrow> m \<le> n)"
    using fmt unfolding fmt_ok_def by blast
  show ?thesis
  proof (cases r)
    case None
    then show ?thesis
      by (simp add: create_xmit_blocks_def get_obj_held [OF inv b] lbs_create_blocks_def none r lbs_delete_new)
  next
    case (Some vec)
    then obtain q where q: "generate_blocks (ne_bp env) (ne_procs env) (b_data b s) vec = Inr q" "\<And>m v. q = Some (m, v) \<Longrightarrow> m \<le> n"
      using g by blast
    then show ?thesis
      by (cases q) (auto simp: create_xmit_blocks_def get_obj_held [OF inv b] lbs_create_blocks_def none r Some lbs_delete_new)
  qed
qed

lemma queue_room_not_full:
  assumes inv: "tx_inv held nm remotes s" "real_link s l" and b: "1 \<le> held b" and none: "lbs_find_blocks l (ns_xmit s b) = None"
    and fmt: "fmt_ok env n (b_data b s)" and lim: "limits_ok n (the_link l s)" and full: "\<not> queue_is_full (the_link l s)"
  shows "queue_room env b l s"
proof -
  let ?lk = "the_link l s" and ?q = "h_lists (ns_heap s) (lk_queue (the_link l s))"
  obtain m s' where m: "create_xmit_blocks env b l s = Inr (m, s')" "m \<le> n"
    using create_xmit_blocks_fits [OF inv(1) b none fmt] by blast
  have c: "unat (lk_bundles_queued ?lk) = length ?q" "unat (lk_bytes_queued ?lk) = list_bytes (xmit_len s l) ?q"
    using link_okD(1) [OF tx_invD(4) [OF inv]] by (simp_all add: queue.ok_def counts_def)
  have "lk_bundles_queued ?lk \<le> lp_qlimit_bundles_high (lk_params ?lk)"
    "(ucast (lk_bytes_queued ?lk) :: u64) \<le> lp_qlimit_bytes_high (lk_params ?lk)"
    using full by (simp_all add: queue_is_full_def not_less)
  then have "unat (lk_bundles_queued ?lk) \<le> unat (lp_qlimit_bundles_high (lk_params ?lk))"
    "unat (ucast (lk_bytes_queued ?lk) :: u64) \<le> unat (lp_qlimit_bytes_high (lk_params ?lk))"
    by (simp_all only: word_le_nat_alt)
  moreover have "unat (ucast (lk_bytes_queued ?lk) :: u64) = unat (lk_bytes_queued ?lk)"
    by simp
  ultimately have "list_room s l (lk_queue ?lk) m"
    using lim m(2) by (simp add: list_room_def limits_ok_def c)
  then show ?thesis
    using m(1) unfolding queue_room_def by blast
qed

subsection \<open>Steps that keep the invariant\<close>

lemma deferred_kept:
  assumes "deferred_ok held s" "tx_keeps held nm remotes s s'" "rt_kept s s'" "ns_deferred s' = ns_deferred s"
    and lists: "\<And>l d. ns_deferred s l = Some d \<Longrightarrow> h_lists (ns_heap s') (df_list d) = h_lists (ns_heap s) (df_list d)"
  shows "deferred_ok held s'"
proof -
  have "deferred_list_ok held s' l d" if d: "ns_deferred s l = Some d" for l d
  proof -
    have ok: "deferred_list_ok held s l d"
      using assms(1) d by (simp add: deferred_ok_def)
    have on: "deferred_on d s' = deferred_on d s"
      by (simp add: deferred_on_def lists [OF d])
    have "bid s' ` deferred_on d s = bid s ` deferred_on d s"
      using assms(2) ok by (intro image_cong) (auto simp: deferred_list_ok_def tx_keeps_def data_kept_def)
    then show ?thesis
      using ok assms(2) by (simp add: deferred_list_ok_def on lists [OF d] rt_kept_lists [OF assms(3)] tx_keeps_def)
  qed
  then show ?thesis
    using assms(1) by (simp add: deferred_ok_def assms(4))
qed

lemma deferred_same:
  assumes "deferred_ok held s" "router_same {k} s s'" "real_link s k" "ns_deferred s l = Some d"
  shows "h_lists (ns_heap s') (df_list d) = h_lists (ns_heap s) (df_list d)"
  using assms unfolding deferred_ok_def deferred_list_ok_def router_same_def by blast

lemma logs_kept:
  assumes ok: "logs_ok held s" and data: "data_kept held s s'" and log: "logged b action s s'"
    and fwd: "b_singleton_dest (b_data b s) \<and> action = FORWARD_ACTION \<Longrightarrow> \<forall>fi\<in>set (ns_log s b). \<not> forwarded fi"
  shows "logs_ok held s'"
proof -
  have data: "b_data c s' = b_data c s" if "1 \<le> held c" for c
    using data that by (simp add: data_kept_def)
  consider "ns_log s' = ns_log s" | fi where "ns_log s' = (ns_log s)(b := ns_log s b @ [fi])" "fi_action fi = action"
      "fi_state fi \<in> {QUEUED, SUPPRESSED}"
    using log unfolding logged_def by blast
  then show ?thesis
  proof cases
    case 1
    then show ?thesis using ok data unfolding logs_ok_def by auto
  next
    case (2 fi)
    have known: "known_states (ns_log s' c)" for c
      using ok 2 by (auto simp: logs_ok_def known_states_def)
    have one: "length (filter forwarded (ns_log s' c)) \<le> 1" if c: "1 \<le> held c" "b_singleton_dest (b_data c s)" for c
    proof (cases "c = b \<and> forwarded fi")
      case True
      then have "filter forwarded (ns_log s b) = []"
        using fwd c 2(2) by (simp add: forwarded_def filter_empty_conv)
      then show ?thesis using True 2(1) by simp
    next
      case False
      moreover have "length (filter forwarded (ns_log s c)) \<le> 1"
        using ok c unfolding logs_ok_def by blast
      ultimately show ?thesis using 2(1) by auto
    qed
    show ?thesis
      unfolding logs_ok_def using known one data by auto
  qed
qed

lemma rt_invD:
  assumes "rt_inv held env n s"
  shows "deferred_ok held s" "logs_ok held s" "rt_ready held env n s" "known_states (ns_log s b)"
    "1 \<le> held b \<Longrightarrow> fmt_ok env n (b_data b s)" "real_link s l \<Longrightarrow> limits_ok n (the_link l s)"
    "inj_on (bid s) {b. 1 \<le> held b}" "table_ok (ns_routes s)"
    "p \<in> set (ns_routes s) \<Longrightarrow> re_link (snd p) = Some l \<Longrightarrow> real_link s l"
    "ns_deferred s l = Some d \<Longrightarrow> deferred_list_ok held s l d"
  using assms unfolding rt_inv_def rt_ready_def logs_ok_def deferred_ok_def by blast+

lemma queue_bundle_step:
  assumes calls: "calls_ok held remotes env" "fragment_kept env" and inv: "tx_inv held (ne_naming env) remotes s" "rt_inv held env n s"
    and l: "real_link s l" "\<not> queue_is_full (the_link l s)" and b: "1 \<le> held b"
    and fwd: "should_fwd_spec (ne_naming env) (the_link l s) action (b_singleton_dest (b_data b s)) (ns_log s b)"
  shows "\<exists>ok s'. queue_bundle env b l action spec s = Inr (ok, s') \<and> rt_step held env remotes n s s' \<and>
    router_same {l} s s' \<and> (\<forall>c. c \<noteq> b \<longrightarrow> ns_log s' c = ns_log s c)"
proof -
  have "queue_room env b l s" if "lbs_find_blocks l (ns_xmit s b) = None"
    using queue_room_not_full [OF inv(1) l(1) b that rt_invD(5) [OF inv(2) b] rt_invD(6) [OF inv(2) l(1)] l(2)] .
  from queue_bundle_ok [OF calls(1) inv(1) l(1) b this] obtain ok s' where
    q: "queue_bundle env b l action spec s = Inr (ok, s')" and keeps: "tx_keeps held (ne_naming env) remotes s s'"
    by blast
  have same: "router_same {l} s s'" and log: "logged b action s s'"
    using queue_bundle_effect [OF q calls(2)] by simp_all
  then have kept: "rt_kept s s'" "ns_deferred s' = ns_deferred s"
    by (simp_all add: router_same_def)
  have "deferred_ok held s'"
    by (rule deferred_kept [OF rt_invD(1) [OF inv(2)] keeps kept deferred_same [OF rt_invD(1) [OF inv(2)] same l(1)]])
  moreover have "logs_ok held s'"
    by (rule logs_kept [OF rt_invD(2) [OF inv(2)] _ log]) (use keeps fwd in \<open>simp_all add: tx_keeps_def should_fwd_spec_def\<close>)
  ultimately have "rt_inv held env n s'"
    using rt_ready_kept [OF rt_invD(3) [OF inv(2)] keeps kept(1)] by (simp add: rt_inv_def)
  moreover have "\<forall>c. c \<noteq> b \<longrightarrow> ns_log s' c = ns_log s c"
    using log unfolding logged_def by (auto simp: fun_upd_def)
  ultimately show ?thesis
    using q keeps kept(1) same by (intro exI [of _ ok] exI [of _ s']) (simp add: rt_step_def)
qed

subsection \<open>Opening a link and deferring a bundle\<close>

lemma open_link_books:
  "\<exists>cm. open_link l (ns_cm s) = Inr cm \<and> cm_set cm = cm_set (ns_cm s) \<and> (\<forall>k. books_kept (cm_links (ns_cm s) k) (cm_links cm k))"
proof -
  let ?lk = "cm_links (ns_cm s) l"
  let ?c = "cm_next_contact (ns_cm s)"
  let ?go = "\<not> lk_deleted ?lk \<and> \<not> (link_isopen ?lk \<or> lk_contact ?lk \<noteq> None) \<and> link_isavailable ?lk"
  show ?thesis
  proof (cases ?go)
    case True
    then obtain lk where lk: "link_open ?c ?lk = Inr lk" "books_kept ?lk lk"
      by (cases "lk_state ?lk = AVAILABLE") (simp_all add: link_open_def link_set_state_def Let_def books_kept_def link_kept_def)
    then have "open_link l (ns_cm s) =
        Inr ((set_link l lk (ns_cm s))\<lparr>cm_contact_link := (cm_contact_link (ns_cm s))(?c := l), cm_next_contact := ?c + 1\<rparr>)"
      using True by (simp add: open_link_def Let_def)
    then show ?thesis
      using lk(2) by (simp add: set_link_def)
  next
    case False
    then have "open_link l (ns_cm s) = Inr (ns_cm s)"
      by (auto simp: open_link_def Let_def)
    then show ?thesis by simp
  qed
qed

lemma ns_open_link_step:
  assumes inv: "tx_inv held (ne_naming env) remotes s" "rt_inv held env n s"
  shows "\<exists>s'. ns_open_link l s = Inr s' \<and> rt_step held env remotes n s s' \<and> ns_deferred s' = ns_deferred s \<and>
    ns_log s' = ns_log s \<and> ns_heap s' = ns_heap s \<and> (\<forall>k. books_kept (the_link k s) (the_link k s'))"
proof -
  obtain cm where cm: "open_link l (ns_cm s) = Inr cm" "cm_set cm = cm_set (ns_cm s)" "\<And>k. books_kept (the_link k s) (cm_links cm k)"
    using open_link_books by blast
  define s' where "s' = s\<lparr>ns_cm := cm\<rparr>"
  have books: "books_kept (the_link k s) (the_link k s')" for k
    by (simp add: s'_def cm(3))
  have t: "tx_inv held (ne_naming env) remotes s'" "\<And>l. real_link s' l = real_link s l"
    by (rule tx_inv_change [OF inv(1) books]; simp add: s'_def tx_invD(1) [OF inv(1)])+
  then have keeps: "tx_keeps held (ne_naming env) remotes s s'"
    by (simp add: tx_keeps_def data_kept_def s'_def)
  have kept: "rt_kept s s'"
    using books by (simp add: rt_kept_def books_kept_def s'_def cm(2))
  have "deferred_ok held s'"
    by (rule deferred_kept [OF rt_invD(1) [OF inv(2)] keeps kept]) (simp_all add: s'_def)
  then have "rt_inv held env n s'"
    using rt_ready_kept [OF rt_invD(3) [OF inv(2)] keeps kept] rt_invD(2) [OF inv(2)] by (simp add: rt_inv_def logs_ok_def s'_def)
  then show ?thesis
    using cm(1) keeps kept books by (intro exI [of _ s']) (simp add: ns_open_link_def rt_step_def s'_def)
qed

lemma open_if_needed_step:
  assumes inv: "tx_inv held (ne_naming env) remotes s" "rt_inv held env n s"
  shows "\<exists>s'. open_if_needed l s = Inr s' \<and> rt_step held env remotes n s s' \<and> ns_deferred s' = ns_deferred s \<and>
    ns_log s' = ns_log s \<and> ns_heap s' = ns_heap s \<and> (\<forall>k. books_kept (the_link k s) (the_link k s'))"
proof (cases "link_isavailable (the_link l s) \<and> \<not> link_isopen (the_link l s) \<and> \<not> link_isopening (the_link l s)")
  case True
  then show ?thesis
    using ns_open_link_step [OF inv, of l] by (simp add: open_if_needed_def)
next
  case False
  then have "open_if_needed l s = Inr s"
    unfolding open_if_needed_def by (rule if_not_P)
  then show ?thesis
    using rt_step_refl [OF inv] by simp
qed

text \<open>A change of one deferred list, and of the heap for it.\<close>

lemma deferred_step:
  assumes inv: "tx_inv held (ne_naming env) remotes s" "rt_inv held env n s" and d: "ns_deferred s l = Some d"
    and heap: "bl_inv held h" "same_bundles (ns_heap s) h"
    and lists: "\<And>k. k \<noteq> df_list d \<Longrightarrow> k \<noteq> ALL_BUNDLES \<Longrightarrow> h_lists h k = h_lists (ns_heap s) k"
    and new: "df_list e = df_list d" "df_count e = length (h_lists h (df_list d))"
      "\<And>b. b \<in> snd ` set (h_lists h (df_list d)) \<Longrightarrow> 1 \<le> held b"
      "{i. df_info e i \<noteq> None} = bid s ` snd ` set (h_lists h (df_list d))"
  shows "rt_step held env remotes n s ((set_deferred l e s)\<lparr>ns_heap := h\<rparr>)"
proof -
  define s' where "s' = (set_deferred l e s)\<lparr>ns_heap := h\<rparr>"
  have f: "the_link k s' = the_link k s" "ns_log s' = ns_log s" "ns_xmit s' = ns_xmit s" "ns_heap s' = h"
      "ns_deferred s' = (ns_deferred s)(l \<mapsto> e)" for k
    by (simp_all add: s'_def set_deferred_def)
  note ok = rt_invD(10) [OF inv(2) d]
  have other: "df_list d' \<noteq> df_list d" if "ns_deferred s k = Some d'" "k \<noteq> l" for k d'
    using rt_invD(1) [OF inv(2)] that d unfolding deferred_ok_def by blast
  have "h_lists h k = h_lists (ns_heap s) k" if "real_link s m" "k \<in> link_lists s m" for k m
  proof (rule lists)
    show "k \<noteq> df_list d"
      using ok that by (auto simp: deferred_list_ok_def)
    show "k \<noteq> ALL_BUNDLES"
      using that link_okD(2) [OF tx_invD(4) [OF inv(1) that(1)]]
      by (auto simp: link_lists_def real_link_def inflight.ok_def)
  qed
  then have t: "tx_inv held (ne_naming env) remotes s'" "\<And>l. real_link s' l = real_link s l"
    by (intro tx_inv_change [OF inv(1)]; simp add: f heap)+
  have data: "b_data b s' = b_data b s" for b
    using heap(2) by (simp add: f same_bundles_def)
  have keeps: "tx_keeps held (ne_naming env) remotes s s'"
    using t by (simp add: tx_keeps_def data_kept_def data)
  have kept: "rt_kept s s'"
    by (simp add: rt_kept_def link_kept_def s'_def set_deferred_def)
  have "deferred_list_ok held s' l e"
    using ok new data by (simp add: deferred_list_ok_def t(2) rt_kept_lists [OF kept] f deferred_on_def)
  moreover have "deferred_list_ok held s' k d'" if k: "ns_deferred s k = Some d'" "k \<noteq> l" for k d'
  proof -
    note ok' = rt_invD(10) [OF inv(2) k(1)]
    have "h_lists h (df_list d') = h_lists (ns_heap s) (df_list d')"
      by (rule lists) (use other [OF k] ok' in \<open>simp_all add: deferred_list_ok_def\<close>)
    then show ?thesis
      using ok' data by (simp add: deferred_list_ok_def t(2) rt_kept_lists [OF kept] f deferred_on_def)
  qed
  ultimately have "deferred_ok held s'"
    using rt_invD(1) [OF inv(2)] other new(1) unfolding deferred_ok_def f by (auto split: if_splits dest: sym)
  then have "rt_inv held env n s'"
    using rt_ready_kept [OF rt_invD(3) [OF inv(2)] keeps kept] rt_invD(2) [OF inv(2)] by (simp add: rt_inv_def logs_ok_def f(2) data)
  then show ?thesis
    using keeps kept unfolding s'_def by (simp add: rt_step_def)
qed

lemma deferred_on_list: "b \<in> deferred_on d s \<longleftrightarrow> b \<in> snd ` set (h_lists (ns_heap s) (df_list d))"
  by (simp add: deferred_on_def)

lemma deferred_listD:
  assumes "deferred_list_ok held s l d"
  shows "real_link s l" "df_list d \<noteq> ALL_BUNDLES" "df_count d = length (h_lists (ns_heap s) (df_list d))"
    "b \<in> deferred_on d s \<Longrightarrow> 1 \<le> held b" "{i. df_info d i \<noteq> None} = bid s ` deferred_on d s"
  using assms by (simp_all add: deferred_list_ok_def)

lemma filter_out_one:
  "distinct (map snd xs) \<Longrightarrow> b \<in> snd ` set xs \<Longrightarrow> length (filter (\<lambda>p. snd p \<noteq> b) xs) = length xs - 1"
proof (induction xs)
  case (Cons p xs)
  then show ?case
    by (cases "snd p = b") (auto simp: filter_absent intro: Suc_pred length_pos_if_in_set)
qed simp

text \<open>Deleting a bundle from a deferred list it is on.\<close>

lemma df_del_step:
  assumes inv: "tx_inv held (ne_naming env) remotes s" "rt_inv held env n s" and d: "ns_deferred s l = Some d" "b \<in> deferred_on d s"
  shows "\<exists>e s'. on_deferred l (df_del b) s = Inr (True, s') \<and> rt_step held env remotes n s s' \<and> ns_log s' = ns_log s \<and>
    ns_cm s' = ns_cm s \<and> ns_deferred s' = (ns_deferred s)(l \<mapsto> e) \<and> df_list e = df_list d \<and> deferred_on e s' = deferred_on d s - {b} \<and>
    df_info e = (df_info d)(bid s b := None)"
proof -
  note ok = deferred_listD [OF rt_invD(10) [OF inv(2) d(1)]]
  note b = ok(4) [OF d(2)] and blinv = tx_invD(1) [OF inv(1)]
  obtain h where h: "bl_erase (df_list d) b (ns_heap s) = Inr (b \<in> snd ` set (h_lists (ns_heap s) (df_list d)), h)" "bl_inv held h"
    "same_bundles (ns_heap s) h" "h_lists h (df_list d) = filter (\<lambda>p. snd p \<noteq> b) (h_lists (ns_heap s) (df_list d))"
    "\<And>k. k \<noteq> df_list d \<Longrightarrow> h_lists h k = h_lists (ns_heap s) k"
    using erase_held [OF blinv b ok(2)] by blast
  define e where "e = d\<lparr>df_count := df_count d - 1, df_info := (df_info d)(bid s b := None)\<rparr>"
  let ?xs = "h_lists (ns_heap s) (df_list d)"
  have on: "snd ` set (h_lists h (df_list d)) = deferred_on d s - {b}"
    by (auto simp: h(4) deferred_on_def)
  have pos: "0 < length ?xs"
    using d(2) by (auto simp: deferred_on_def)
  have some: "df_info d (bid s b) \<noteq> None"
    using ok(5) d(2) by blast
  have len: "length (filter (\<lambda>p. snd p \<noteq> b) ?xs) = length ?xs - 1"
    using filter_out_one [OF linked_distinct_bundles [OF bl_inv_linked [OF blinv]]] d(2) by (simp add: deferred_on_def)
  have inj: "bid s c = bid s b \<Longrightarrow> c = b" if "c \<in> deferred_on d s" for c
    using inj_onD [OF rt_invD(7) [OF inv(2)], of c b] ok(4) [OF that] b by simp
  have "{i. df_info e i \<noteq> None} = {i. df_info d i \<noteq> None} - {bid s b}"
    by (auto simp: e_def)
  then have info: "{i. df_info e i \<noteq> None} = bid s ` (deferred_on d s - {b})"
    unfolding ok(5) using inj by blast
  have "on_deferred l (df_del b) s = Inr (True, (set_deferred l e s)\<lparr>ns_heap := h\<rparr>)"
    using d(2) h(1) pos some ok(3)
    by (simp add: on_deferred_def d(1) df_del_def get_obj_held [OF inv(1) b] deferred_on_list Let_def e_def)
  moreover have "rt_step held env remotes n s ((set_deferred l e s)\<lparr>ns_heap := h\<rparr>)"
    by (rule deferred_step [OF inv d(1) h(2,3)]) (use h(5) ok(4) in \<open>simp_all only: info on, simp_all add: e_def h(4) len ok(3)\<close>)
  ultimately show ?thesis
    by (intro exI [of _ e] exI [of _ "(set_deferred l e s)\<lparr>ns_heap := h\<rparr>"])
       (simp add: set_deferred_def deferred_on_def e_def on [unfolded deferred_on_def])
qed

lemma df_add_step:
  assumes inv: "tx_inv held (ne_naming env) remotes s" "rt_inv held env n s" and d: "ns_deferred s l = Some d" "b \<notin> deferred_on d s"
    and b: "1 \<le> held b"
  shows "\<exists>s'. on_deferred l (df_add b fi) s = Inr (True, s') \<and> rt_step held env remotes n s s' \<and> ns_log s' = ns_log s"
proof -
  note ok = deferred_listD [OF rt_invD(10) [OF inv(2) d(1)]] and blinv = tx_invD(1) [OF inv(1)]
  have new: "b \<notin> snd ` set (h_lists (ns_heap s) (df_list d))"
    using d(2) by (simp add: deferred_on_def)
  obtain h where h: "bl_push_back (df_list d) b (ns_heap s) = Inr h" "bl_inv held h" "same_bundles (ns_heap s) h"
    "h_lists h (df_list d) = h_lists (ns_heap s) (df_list d) @ [(h_next (ns_heap s), b)]"
    "\<And>k. k \<noteq> df_list d \<Longrightarrow> k \<noteq> ALL_BUNDLES \<Longrightarrow> h_lists h k = h_lists (ns_heap s) k"
    using push_back_held [OF blinv b ok(2) new] by blast
  let ?f = "if df_info d (bid s b) = None then (df_info d)(bid s b \<mapsto> fi) else df_info d"
  define e where "e = d\<lparr>df_count := df_count d + 1, df_info := ?f\<rparr>"
  have on: "snd ` set (h_lists h (df_list d)) = insert b (deferred_on d s)"
    by (simp add: h(4) deferred_on_def)
  have info: "{i. df_info e i \<noteq> None} = bid s ` insert b (deferred_on d s)"
    using ok(5) by (auto simp: e_def split: if_splits)
  have "get_obj b h = Inr (h_bundles h b)" "bo_data (h_bundles h b) = b_data b s"
    using held_alive(1) [OF h(2) b] h(3) by (simp_all add: get_obj_def same_bundles_def)
  then have "on_deferred l (df_add b fi) s = Inr (True, (set_deferred l e s)\<lparr>ns_heap := h\<rparr>)"
    by (simp add: on_deferred_def d(1) df_add_def contains_held [OF blinv b] new h(1) Let_def e_def)
  moreover have "rt_step held env remotes n s ((set_deferred l e s)\<lparr>ns_heap := h\<rparr>)"
    by (rule deferred_step [OF inv d(1) h(2,3)])
       (use h(5) ok(4) b in \<open>simp_all only: info on, auto simp: e_def h(4) ok(3)\<close>)
  ultimately show ?thesis
    by (simp add: set_deferred_def)
qed

subsection \<open>The routing loops\<close>

lemma should_fwd_held:
  assumes inv: "tx_inv held (ne_naming env) remotes s" "rt_inv held env n s" and "real_link s l" "1 \<le> held b"
  shows "br_should_fwd env b l action s =
    Inr (should_fwd_spec (ne_naming env) (the_link l s) action (b_singleton_dest (b_data b s)) (ns_log s b))"
  using br_should_fwd_eq [OF inv(1) assms(3,4) rt_invD(4) [OF inv(2)]] .

lemma should_fwd_spec_books:
  "link_kept lk lk' \<Longrightarrow> should_fwd_spec nm lk' action sgl log = should_fwd_spec nm lk action sgl log"
  by (simp add: should_fwd_spec_def link_kept_def)

lemma queue_is_full_books: "books_kept lk lk' \<Longrightarrow> queue_is_full lk' = queue_is_full lk"
  by (simp add: queue_is_full_def books_kept_def link_kept_def)

lemma check_next_hop_loop_step:
  assumes calls: "calls_ok held remotes env" "fragment_kept env" and "tx_inv held (ne_naming env) remotes s" "rt_inv held env n s"
    and "ns_deferred s l = Some d" "set bs \<subseteq> deferred_on d s" "distinct bs"
  shows "\<exists>s'. check_next_hop_loop env l bs s = Inr s' \<and> rt_step held env remotes n s s' \<and>
    (\<forall>c. c \<notin> set bs \<longrightarrow> ns_log s' c = ns_log s c) \<and>
    (\<exists>d'. ns_deferred s' l = Some d' \<and> deferred_on d' s' \<subseteq> deferred_on d s \<and> df_info d' \<subseteq>\<^sub>m df_info d) \<and>
    (\<forall>k. k \<noteq> l \<longrightarrow> ns_deferred s' k = ns_deferred s k)"
  using assms(3-)
proof (induction bs arbitrary: s d)
  case Nil
  then show ?case using rt_step_refl [OF Nil(1,2)] by simp
next
  case (Cons b bs)
  note inv = Cons.prems(1,2) and d = Cons.prems(3)
  note ok = deferred_listD [OF rt_invD(10) [OF inv(2) d]]
  let ?nm = "ne_naming env"
  have on: "b \<in> deferred_on d s" and b: "1 \<le> held b"
    using Cons.prems(4) ok(4) by simp_all
  obtain fi where fi: "df_info d (bid s b) = Some fi"
    using ok(5) on by blast
  then have info: "df_get_info b d (ns_heap s) = Inr fi"
    by (simp add: df_get_info_def df_find_def get_obj_held [OF inv(1) b])
  let ?fwd = "should_fwd_spec ?nm (the_link l s) (fi_action fi) (b_singleton_dest (b_data b s)) (ns_log s b)"
  note fwd = should_fwd_held [OF inv ok(1) b, of "fi_action fi"]
  consider "queue_is_full (the_link l s)" | "\<not> queue_is_full (the_link l s)" "\<not> ?fwd" | "\<not> queue_is_full (the_link l s)" ?fwd
    by blast
  then show ?case
  proof cases
    case 1
    then show ?thesis using rt_step_refl [OF inv] d by simp
  next
    case 2
    then have "check_next_hop_loop env l (b # bs) s = check_next_hop_loop env l bs s"
      by (simp add: d info fwd)
    then show ?thesis
      using Cons.IH [OF inv d] Cons.prems(4,5) by auto
  next
    case 3
    obtain s1 where s1: "open_if_needed l s = Inr s1" "rt_step held env remotes n s s1" "ns_deferred s1 = ns_deferred s"
      "ns_log s1 = ns_log s" "ns_heap s1 = ns_heap s" "\<And>k. books_kept (the_link k s) (the_link k s1)"
      using open_if_needed_step [OF inv] by blast
    note inv1 = rt_stepD(1,2) [OF s1(2)]
    have d1: "ns_deferred s1 l = Some d" "b \<in> deferred_on d s1"
      using d on by (simp_all add: s1 deferred_on_def)
    obtain e s2 where s2: "on_deferred l (df_del b) s1 = Inr (True, s2)" "rt_step held env remotes n s1 s2" "ns_log s2 = ns_log s1"
      "ns_cm s2 = ns_cm s1" "ns_deferred s2 = (ns_deferred s1)(l \<mapsto> e)" "deferred_on e s2 = deferred_on d s1 - {b}"
      "df_info e = (df_info d)(bid s1 b := None)"
      using df_del_step [OF inv1 d1] by blast
    note inv2 = rt_stepD(1,2) [OF s2(2)]
    have books: "books_kept (the_link l s) (the_link l s2)"
      using s1(6) by (simp add: s2(4))
    have data: "b_data b s2 = b_data b s"
      using rt_stepD(5) [OF s1(2) b] rt_stepD(5) [OF s2(2) b] by simp
    have pre: "real_link s2 l" "\<not> queue_is_full (the_link l s2)"
      "should_fwd_spec ?nm (the_link l s2) (fi_action fi) (b_singleton_dest (b_data b s2)) (ns_log s2 b)"
      using 3 ok(1) rt_stepD(3) [OF s1(2), of l] rt_stepD(3) [OF s2(2), of l] should_fwd_spec_books [OF books [unfolded books_kept_def, THEN conjunct1]]
      by (simp_all add: queue_is_full_books [OF books] data s2(3) s1(4))
    obtain r s3 where s3: "queue_bundle env b l (fi_action fi) (fi_custody_spec fi) s2 = Inr (r, s3)" "rt_step held env remotes n s2 s3"
      "router_same {l} s2 s3" "\<And>c. c \<noteq> b \<Longrightarrow> ns_log s3 c = ns_log s2 c"
      using queue_bundle_step [OF calls inv2 pre(1,2) b pre(3)] by blast
    note inv3 = rt_stepD(1,2) [OF s3(2)]
    have e: "ns_deferred s2 l = Some e" "ns_deferred s3 = ns_deferred s2"
      using s3(3) by (simp_all add: s2(5) router_same_def)
    have d3: "ns_deferred s3 l = Some e" "deferred_on e s3 = deferred_on d s - {b}"
      using deferred_same [OF rt_invD(1) [OF inv2(2)] s3(3) pre(1) e(1)] s2(6) by (simp_all add: e deferred_on_def s1(5))
    have rest: "set bs \<subseteq> deferred_on e s3"
      using Cons.prems(4,5) d3(2) by auto
    obtain s4 where s4: "check_next_hop_loop env l bs s3 = Inr s4" "rt_step held env remotes n s3 s4"
      "\<forall>c. c \<notin> set bs \<longrightarrow> ns_log s4 c = ns_log s3 c" 
      "\<exists>d'. ns_deferred s4 l = Some d' \<and> deferred_on d' s4 \<subseteq> deferred_on e s3 \<and> df_info d' \<subseteq>\<^sub>m df_info e"
      "\<forall>k. k \<noteq> l \<longrightarrow> ns_deferred s4 k = ns_deferred s3 k"
      using Cons.IH [OF inv3 d3(1) rest] Cons.prems(5) by (simp only: distinct.simps) blast
    have "check_next_hop_loop env l (b # bs) s = Inr s4"
      using 3 by (simp add: d info fwd s1(1) s2(1) s3(1) s4(1))
    moreover have "rt_step held env remotes n s s4"
      by (rule rt_step_trans [OF rt_step_trans [OF rt_step_trans [OF s1(2) s2(2)] s3(2)] s4(2)])
    moreover have "\<forall>c. c \<notin> set (b # bs) \<longrightarrow> ns_log s4 c = ns_log s c"
      using s4(3) s3(4) by (simp add: s2(3) s1(4))
    moreover have "\<forall>k. k \<noteq> l \<longrightarrow> ns_deferred s4 k = ns_deferred s k"
      using s4(5) by (simp add: e(2) s2(5) s1(3))
    moreover have "df_info e \<subseteq>\<^sub>m df_info d"
      by (simp add: s2(7) map_le_def)
    ultimately show ?thesis
      using s4(4) d3(2) map_le_trans by (intro exI [of _ s4]) blast
  qed
qed

lemma check_next_hop_step:
  assumes calls: "calls_ok held remotes env" "fragment_kept env" and inv: "tx_inv held (ne_naming env) remotes s" "rt_inv held env n s"
    and d: "ns_deferred s l = Some d"
  shows "\<exists>s'. check_next_hop env l s = Inr s' \<and> rt_step held env remotes n s s' \<and>
    (\<forall>c. c \<notin> deferred_on d s \<longrightarrow> ns_log s' c = ns_log s c) \<and>
    (\<exists>d'. ns_deferred s' l = Some d' \<and> deferred_on d' s' \<subseteq> deferred_on d s \<and> df_info d' \<subseteq>\<^sub>m df_info d) \<and>
    (\<forall>k. k \<noteq> l \<longrightarrow> ns_deferred s' k = ns_deferred s k)"
proof (cases "link_isopen (the_link l s) \<and> queue_has_space (the_link l s)")
  case True
  then have "check_next_hop env l s = check_next_hop_loop env l (map snd (h_lists (ns_heap s) (df_list d))) s"
    by (simp add: check_next_hop_def d)
  moreover have "set (map snd (h_lists (ns_heap s) (df_list d))) = deferred_on d s"
    by (simp add: deferred_on_def)
  ultimately show ?thesis
    using check_next_hop_loop_step [OF calls inv d, of "map snd (h_lists (ns_heap s) (df_list d))"]
      linked_distinct_bundles [OF bl_inv_linked [OF tx_invD(1) [OF inv(1)]]] by auto
next
  case False
  then have "check_next_hop env l s = Inr s"
    by (auto simp: check_next_hop_def)
  then show ?thesis
    using rt_step_refl [OF inv] d by simp
qed

lemma fwd_to_nexthop_step:
  assumes calls: "calls_ok held remotes env" "fragment_kept env" and inv: "tx_inv held (ne_naming env) remotes s" "rt_inv held env n s"
    and l: "re_link route = Some l" "real_link s l" "ns_deferred s l = Some d" and b: "1 \<le> held b"
    and fwd: "should_fwd_spec (ne_naming env) (the_link l s) (re_action route) (b_singleton_dest (b_data b s)) (ns_log s b)"
  shows "\<exists>ok s'. fwd_to_nexthop env b route s = Inr (ok, s') \<and> rt_step held env remotes n s s'"
proof -
  obtain s1 where s1: "open_if_needed l s = Inr s1" "rt_step held env remotes n s s1" "ns_deferred s1 = ns_deferred s"
    "ns_log s1 = ns_log s" "ns_heap s1 = ns_heap s" "\<And>k. books_kept (the_link k s) (the_link k s1)"
    using open_if_needed_step [OF inv] by blast
  note inv1 = rt_stepD(1,2) [OF s1(2)]
  have l1: "real_link s1 l" "ns_deferred s1 l = Some d"
    using l s1(3) rt_stepD(3) [OF s1(2)] by simp_all
  have kept: "link_kept (the_link l s) (the_link l s1)"
    using s1(6) by (simp add: books_kept_def)
  have fwd1: "should_fwd_spec (ne_naming env) (the_link l s1) (re_action route) (b_singleton_dest (b_data b s1)) (ns_log s1 b)"
    using fwd by (simp add: should_fwd_spec_books [OF kept] s1)
  have x: "get_obj b (ns_heap s1) = Inr (h_bundles (ns_heap s1) b)"
    by (rule get_obj_held [OF inv1(1) b])
  have on: "is_queued_on (df_list d) (h_bundles (ns_heap s1) b) \<longleftrightarrow> b \<in> deferred_on d s1"
    using linked_queued [OF bl_inv_linked held_alive(1)] tx_invD(1) [OF inv1(1)] b by (simp add: deferred_on_def)
  consider "link_isopen (the_link l s1)" "\<not> queue_is_full (the_link l s1)"
    | "\<not> (link_isopen (the_link l s1) \<and> \<not> queue_is_full (the_link l s1))" "b \<in> deferred_on d s1"
    | "\<not> (link_isopen (the_link l s1) \<and> \<not> queue_is_full (the_link l s1))" "b \<notin> deferred_on d s1"
    by blast
  then show ?thesis
  proof cases
    case 1
    obtain r s2 where "queue_bundle env b l (re_action route) (re_custody_spec route) s1 = Inr (r, s2)" "rt_step held env remotes n s1 s2"
      using queue_bundle_step [OF calls inv1 l1(1) 1(2) b fwd1] by blast
    then show ?thesis
      using 1 rt_step_trans [OF s1(2)] by (intro exI [of _ True] exI [of _ s2]) (simp add: fwd_to_nexthop_def l(1) s1(1))
  next
    case 2
    have "fwd_to_nexthop env b route s = Inr (False, s1)"
      using 2(2) by (simp only: fwd_to_nexthop_def l(1) option.case s1(1) bindR_Inr if_not_P [OF 2(1)] l1(2) x on if_True)
    then show ?thesis using s1(2) by blast
  next
    case 3
    let ?fi = "fwd_info_new (ne_now env) FWD_NONE (re_action route) (lk_name (the_link l s1)) NO_REGID
                 (lk_remote_eid (the_link l s1)) (re_custody_spec route)"
    obtain s2 where s2: "on_deferred l (df_add b ?fi) s1 = Inr (True, s2)" "rt_step held env remotes n s1 s2"
      using df_add_step [OF inv1 l1(2) 3(2) b] by blast
    have "fwd_to_nexthop env b route s = Inr (False, s2)"
      using 3(2) by (simp add: fwd_to_nexthop_def l(1) s1(1) if_not_P [OF 3(1)] l1(2) x on s2(1))
    then show ?thesis
      using rt_step_trans [OF s1(2) s2(2)] by blast
  qed
qed

lemma tr_should_fwd_held:
  assumes inv: "tx_inv held (ne_naming env) remotes s" "rt_inv held env n s" and l: "re_link route = Some l" "real_link s l" and b: "1 \<le> held b"
  shows "\<exists>r. tr_should_fwd env b route s = Inr r \<and>
    (r \<longrightarrow> should_fwd_spec (ne_naming env) (the_link l s) (re_action route) (b_singleton_dest (b_data b s)) (ns_log s b))"
  by (auto simp: tr_should_fwd_def l(1) get_obj_held [OF inv(1) b] should_fwd_held [OF inv l(2) b] split: option.split)

lemma route_loop_step:
  assumes calls: "calls_ok held remotes env" "fragment_kept env" and "tx_inv held (ne_naming env) remotes s" "rt_inv held env n s"
    and b: "1 \<le> held b" and "\<forall>p\<in>set routes. \<exists>l. re_link (snd p) = Some l \<and> real_link s l"
  shows "\<exists>k s'. route_loop env b routes (cnt, s) = Inr (k, s') \<and> rt_step held env remotes n s s'"
  using assms(3,4,6)
proof (induction routes arbitrary: cnt s)
  case Nil
  then show ?case using rt_step_refl by simp
next
  case (Cons p routes)
  note inv = Cons.prems(1,2)
  obtain a route l where p: "p = (a, route)" and l: "re_link route = Some l" "real_link s l"
    using Cons.prems(3) by (cases p) auto
  obtain r where r: "tr_should_fwd env b route s = Inr r"
    "r \<Longrightarrow> should_fwd_spec (ne_naming env) (the_link l s) (re_action route) (b_singleton_dest (b_data b s)) (ns_log s b)"
    using tr_should_fwd_held [OF inv l b] by blast
  have skip: ?case if "route_loop env b (p # routes) (cnt, s) = route_loop env b routes (cnt, s)"
    using Cons.IH [OF inv] Cons.prems(3) that by simp
  consider "\<not> r" | "ns_deferred s l = None" | d where "ns_deferred s l = Some d" "b \<in> deferred_on d s"
    | d where r "ns_deferred s l = Some d" "b \<notin> deferred_on d s"
    by (cases "ns_deferred s l") auto
  then show ?case
  proof cases
    case 1
    then show ?thesis by (intro skip) (simp add: p r(1))
  next
    case 2
    then show ?thesis by (intro skip) (simp add: p r(1) l(1))
  next
    case (3 d)
    then show ?thesis
      by (intro skip) (simp add: p r(1) l(1) contains_held [OF tx_invD(1) [OF inv(1)] b] deferred_on_def)
  next
    case (4 d)
    obtain s1 d1 where s1: "check_next_hop env l s = Inr s1" "rt_step held env remotes n s s1" "ns_log s1 b = ns_log s b"
      "ns_deferred s1 l = Some d1"
      using check_next_hop_step [OF calls inv 4(2)] 4(3) by blast
    note inv1 = rt_stepD(1,2) [OF s1(2)]
    have "link_kept (the_link l s) (the_link l s1)"
      using rt_stepD(4) [OF s1(2)] by (simp add: rt_kept_def)
    then have "should_fwd_spec (ne_naming env) (the_link l s1) (re_action route) (b_singleton_dest (b_data b s1)) (ns_log s1 b)"
      using r(2) [OF 4(1)] by (simp add: should_fwd_spec_books rt_stepD(5) [OF s1(2) b] s1(3))
    then obtain ok s2 where s2: "fwd_to_nexthop env b route s1 = Inr (ok, s2)" "rt_step held env remotes n s1 s2"
      using fwd_to_nexthop_step [OF calls inv1 l(1) _ s1(4) b] rt_stepD(3) [OF s1(2)] l(2) by blast
    have s02: "rt_step held env remotes n s s2"
      by (rule rt_step_trans [OF s1(2) s2(2)])
    have eq: "route_loop env b (p # routes) (cnt, s) = route_loop env b routes (if ok then cnt + 1 else cnt, s2)"
      using 4 by (simp add: p r(1) l(1) contains_held [OF tx_invD(1) [OF inv(1)] b] deferred_on_def s1(1) s2(1))
    have "\<forall>p\<in>set routes. \<exists>l. re_link (snd p) = Some l \<and> real_link s2 l"
      using Cons.prems(3) by (simp add: rt_stepD(3) [OF s02])
    then show ?thesis
      using Cons.IH [OF rt_stepD(1,2) [OF s02]] rt_step_trans [OF s02] unfolding eq by blast
  qed
qed

lemma route_bundle_step:
  assumes calls: "calls_ok held remotes env" "fragment_kept env" and inv: "tx_inv held (ne_naming env) remotes s" "rt_inv held env n s"
    and b: "1 \<le> held b"
  shows "\<exists>k s'. route_bundle env b s = Inr (k, s') \<and> rt_step held env remotes n s s'"
proof (cases "get_count_eid (ne_naming env) (WILDCARD_EID (ne_naming env)) (fwd_state_code SUPPRESSED) ANY_ACTION (ns_log s b) > 0")
  case True
  then show ?thesis
    using rt_step_refl [OF inv] by (simp only: route_bundle_def if_True) blast
next
  case False
  let ?m = "pattern_match (ne_uri env) True" and ?e = "b_dest (b_data b s)" and ?tbl = "ns_routes s"
  let ?mx = "rc_max_route_to_chain (ne_cfg env)"
  have "lookup_finds ?m ?mx ?tbl None 0 ?e ?tbl"
    by (rule get_matching_helper_finds [OF rt_invD(8) [OF inv(2)]]) simp
  then obtain vec loop k where vec: "get_matching_helper ?m ?mx ?tbl None 0 ?e ?tbl ([], False, 0) = Inr (vec, loop, k)"
    "set vec = matches_found ?m ?tbl None (nat ?mx) ?e ?tbl"
    by (rule findsD [of ?m ?mx ?tbl None 0 ?e ?tbl "[]" False 0]) auto
  let ?routes = "sort_routes (cm_links (ns_cm s)) vec"
  have routes: "set ?routes = set vec"
    using mset_sort_routes [of "cm_links (ns_cm s)" vec] by (rule mset_eq_setD)
  have "\<forall>p\<in>set ?routes. \<exists>l. re_link (snd p) = Some l \<and> real_link s l"
    unfolding routes vec(2) using rt_invD(9) [OF inv(2)] by (auto simp: matches_found_def next_hop_entry_def)
  from route_loop_step [OF calls inv b this, of 0] show ?thesis
    by (simp only: route_bundle_def if_not_P [OF False] get_obj_held [OF inv(1) b] bindR_Inr get_matching_def vec(1) prod.case)
qed

lemma route_all_step:
  assumes calls: "calls_ok held remotes env" "fragment_kept env" and "tx_inv held (ne_naming env) remotes s" "rt_inv held env n s"
    and "\<forall>b\<in>set bs. 1 \<le> held b"
  shows "\<exists>s'. route_all env bs s = Inr s' \<and> rt_step held env remotes n s s'"
  using assms(3-)
proof (induction bs arbitrary: s)
  case Nil
  then show ?case using rt_step_refl by simp
next
  case (Cons b bs)
  obtain k s1 where s1: "route_bundle env b s = Inr (k, s1)" "rt_step held env remotes n s s1"
    using route_bundle_step [OF calls Cons.prems(1,2)] Cons.prems(3) by (metis list.set_intros(1))
  obtain s2 where s2: "route_all env bs s1 = Inr s2" "rt_step held env remotes n s1 s2"
    using Cons.IH [OF rt_stepD(1,2) [OF s1(2)]] Cons.prems(3) by auto
  show ?case
    using rt_step_trans [OF s1(2) s2(2)] by (simp add: s1(1) s2(1))
qed

subsection \<open>Removing a bundle from the deferred lists\<close>

lemma remove_from_deferred_step:
  assumes "tx_inv held (ne_naming env) remotes s" "rt_inv held env n s" and b: "1 \<le> held b"
  shows "\<exists>s'. remove_from_deferred_loop b actions ls s = Inr s' \<and> rt_step held env remotes n s s' \<and> ns_log s' = ns_log s \<and>
    (\<forall>l d. l \<in> set ls \<longrightarrow> ns_deferred s' l = Some d \<longrightarrow>
       (\<forall>fi. df_info d (bid s b) = Some fi \<longrightarrow> fwd_action_code (fi_action fi) AND actions = 0)) \<and>
    (\<forall>l d'. ns_deferred s' l = Some d' \<longrightarrow> (\<exists>d. ns_deferred s l = Some d \<and> df_info d' \<subseteq>\<^sub>m df_info d))"
  using assms(1,2)
proof (induction ls arbitrary: s)
  case Nil
  then show ?case using rt_step_refl by auto
next
  case (Cons l ls)
  note inv = Cons.prems
  have obj: "df_find b d (ns_heap s) = Inr (df_info d (bid s b))" for d
    by (simp add: df_find_def get_obj_held [OF inv(1) b])
  consider "\<forall>d fi. ns_deferred s l = Some d \<longrightarrow> df_info d (bid s b) = Some fi \<longrightarrow> fwd_action_code (fi_action fi) AND actions = 0"
    | d fi where "ns_deferred s l = Some d" "df_info d (bid s b) = Some fi" "fwd_action_code (fi_action fi) AND actions \<noteq> 0"
    by blast
  then show ?case
  proof cases
    case 1
    then have eq: "remove_from_deferred_loop b actions (l # ls) s = remove_from_deferred_loop b actions ls s"
      by (auto simp: obj split: option.splits)
    obtain s' where s': "remove_from_deferred_loop b actions ls s = Inr s'" "rt_step held env remotes n s s'" "ns_log s' = ns_log s"
      "\<forall>l d. l \<in> set ls \<longrightarrow> ns_deferred s' l = Some d \<longrightarrow>
         (\<forall>fi. df_info d (bid s b) = Some fi \<longrightarrow> fwd_action_code (fi_action fi) AND actions = 0)"
      "\<forall>l d'. ns_deferred s' l = Some d' \<longrightarrow> (\<exists>d. ns_deferred s l = Some d \<and> df_info d' \<subseteq>\<^sub>m df_info d)"
      using Cons.IH [OF inv] by blast
    have "fwd_action_code (fi_action fi) AND actions = 0" if "ns_deferred s' l = Some d'" "df_info d' (bid s b) = Some fi" for d' fi
      using 1 s'(5) that by (metis map_le_def domI)
    then show ?thesis
      unfolding eq using s' by (intro exI [of _ s']) simp
  next
    case (2 d fi)
    note ok = deferred_listD [OF rt_invD(10) [OF inv(2) 2(1)]]
    have "bid s b \<in> bid s ` deferred_on d s"
      using ok(5) 2(2) by blast
    then have on: "b \<in> deferred_on d s"
      using inj_onD [OF rt_invD(7) [OF inv(2)], of b] ok(4) b by auto
    obtain e s1 where s1: "on_deferred l (df_del b) s = Inr (True, s1)" "rt_step held env remotes n s s1" "ns_log s1 = ns_log s"
      "ns_deferred s1 = (ns_deferred s)(l \<mapsto> e)" "df_info e = (df_info d)(bid s b := None)"
      using df_del_step [OF inv 2(1) on] by blast
    have bid1: "bid s1 b = bid s b"
      using rt_stepD(5) [OF s1(2) b] by simp
    obtain s' where s': "remove_from_deferred_loop b actions ls s1 = Inr s'" "rt_step held env remotes n s1 s'" "ns_log s' = ns_log s1"
      "\<forall>l d. l \<in> set ls \<longrightarrow> ns_deferred s' l = Some d \<longrightarrow>
         (\<forall>fi. df_info d (bid s b) = Some fi \<longrightarrow> fwd_action_code (fi_action fi) AND actions = 0)"
      "\<forall>l d'. ns_deferred s' l = Some d' \<longrightarrow> (\<exists>d. ns_deferred s1 l = Some d \<and> df_info d' \<subseteq>\<^sub>m df_info d)"
      using Cons.IH [OF rt_stepD(1,2) [OF s1(2)]] unfolding bid1 by blast
    have eq: "remove_from_deferred_loop b actions (l # ls) s = Inr s'"
      using 2 s1(1) s'(1) by (simp add: obj)
    have le: "df_info e \<subseteq>\<^sub>m df_info d"
      by (simp add: s1(5) map_le_def)
    have sub: "\<exists>d. ns_deferred s k = Some d \<and> df_info d' \<subseteq>\<^sub>m df_info d" if "ns_deferred s' k = Some d'" for k d'
      using s'(5) that 2(1) le map_le_trans by (fastforce simp: s1(4) split: if_splits)
    have "df_info d' (bid s b) = None" if "ns_deferred s' l = Some d'" for d'
    proof -
      from s'(5) that have "df_info d' \<subseteq>\<^sub>m df_info e"
        by (fastforce simp: s1(4))
      then show ?thesis
        by (metis s1(5) fun_upd_same map_le_def domIff)
    qed
    then show ?thesis
      unfolding eq using s'(3,4) s1(3) sub rt_step_trans [OF s1(2) s'(2)] by (intro exI [of _ s']) simp
  qed
qed

subsection \<open>Emptying the queue of a link\<close>

lemma cancel_head:
  assumes inv: "tx_inv held nm remotes s" "real_link s l" and live: "\<not> lk_deleted (the_link l s)"
    and q: "h_lists (ns_heap s) (lk_queue (the_link l s)) = (m, b) # xs" and b: "1 \<le> held b"
  shows "\<exists>n k h s'. cancel_bundle b l s = Inr s' \<and> tx_keeps held nm remotes s s' \<and>
    s' = ns_post (BundleSendCancelled b l) (relist l (the_link l s\<lparr>lk_bundles_queued := n, lk_bytes_queued := k\<rparr>) h s) \<and>
    h_lists h (lk_queue (the_link l s)) = xs \<and> h_lists h (lk_inflight (the_link l s)) = h_lists (ns_heap s) (lk_inflight (the_link l s))"
proof -
  let ?lk = "the_link l s"
  have on: "b \<in> queued_on s l"
    by (simp add: queued_on_def q)
  obtain v where v: "lbs_find_blocks l (ns_xmit s b) = Some v"
    using no_blocks_no_list(1) [OF inv, of b] on by blast
  have pos: "0 < xmit_len s l b"
    by (rule link_okD(3) [OF tx_invD(4) [OF inv] on])
  have mem: "b \<in> snd ` set (h_lists (ns_heap s) (lk_queue ?lk))"
    by (simp add: q)
  obtain h where h: "del_from_queue b (xmit_len s l b) (?lk, ns_heap s) =
      Inr (True, ?lk\<lparr>lk_bundles_queued := lk_bundles_queued ?lk - 1, lk_bytes_queued := lk_bytes_queued ?lk - of_nat (xmit_len s l b)\<rparr>, h)"
    "h_lists h (lk_queue ?lk) = filter (\<lambda>p. snd p \<noteq> b) (h_lists (ns_heap s) (lk_queue ?lk))"
    "\<And>k. k \<noteq> lk_queue ?lk \<Longrightarrow> h_lists h k = h_lists (ns_heap s) k"
    using queue.del_present [OF tx_invD(1) [OF inv(1)] b link_okD(1) [OF tx_invD(4) [OF inv]] mem pos] by blast
  have "distinct (map snd ((m, b) # xs))"
    using linked_distinct_bundles [OF bl_inv_linked [OF tx_invD(1) [OF inv(1)]], of "lk_queue ?lk"] by (simp only: q)
  then have xs: "h_lists h (lk_queue ?lk) = xs"
    by (simp add: h(2) q filter_absent)
  have fl: "h_lists h (lk_inflight ?lk) = h_lists (ns_heap s) (lk_inflight ?lk)"
    using h(3) tx_invD(5) [OF inv] by metis
  obtain s' where s': "cancel_bundle b l s = Inr s'" "tx_keeps held nm remotes s s'"
    using cancel_bundle_ok [OF inv b] by blast
  moreover have "cancel_bundle b l s = Inr (ns_post (BundleSendCancelled b l)
      (relist l (?lk\<lparr>lk_bundles_queued := lk_bundles_queued ?lk - 1, lk_bytes_queued := lk_bytes_queued ?lk - of_nat (xmit_len s l b)\<rparr>) h s))"
    using live h(1) by (simp add: cancel_bundle_def v on_link_def relist_def xmit_len_def)
  ultimately show ?thesis
    using xs fl by (metis Inr_inject)
qed

lemma cancel_queue_ok:
  assumes "tx_inv held nm remotes s" "real_link s l" "\<not> lk_deleted (the_link l s)"
    and "h_lists (ns_heap s) (lk_queue (the_link l s)) = xs" "\<forall>p\<in>set xs. 1 \<le> held (snd p)" "length xs \<le> n"
  shows "\<exists>s'. cancel_queue n l s = Some (Inr s') \<and> tx_keeps held nm remotes s s' \<and>
    h_lists (ns_heap s') (lk_queue (the_link l s')) = [] \<and>
    h_lists (ns_heap s') (lk_inflight (the_link l s')) = h_lists (ns_heap s) (lk_inflight (the_link l s)) \<and>
    cm_events (ns_cm s') = cm_events (ns_cm s) @ map (\<lambda>p. BundleSendCancelled (snd p) l) xs"
  using assms
proof (induction xs arbitrary: s n)
  case Nil
  then show ?case
    using tx_keeps_refl by simp
next
  case (Cons p xs)
  note inv = Cons.prems(1,2)
  obtain m b where p: "p = (m, b)"
    by (cases p)
  then have q: "h_lists (ns_heap s) (lk_queue (the_link l s)) = (m, b) # xs" and b: "1 \<le> held b"
    using Cons.prems(4,5) by simp_all
  obtain k where n: "n = Suc k" and len: "length xs \<le> k"
    using Cons.prems(6) by (cases n) auto
  obtain c y h s' where s': "cancel_bundle b l s = Inr s'" "tx_keeps held nm remotes s s'"
      "s' = ns_post (BundleSendCancelled b l) (relist l (the_link l s\<lparr>lk_bundles_queued := c, lk_bytes_queued := y\<rparr>) h s)"
      "h_lists h (lk_queue (the_link l s)) = xs" "h_lists h (lk_inflight (the_link l s)) = h_lists (ns_heap s) (lk_inflight (the_link l s))"
    using cancel_head [OF inv Cons.prems(3) q b] by blast
  have inv': "tx_inv held nm remotes s'" "real_link s' l"
    using tx_keepsD(1,2) [OF s'(2)] inv(2) by simp_all
  have f: "the_link l s' = the_link l s\<lparr>lk_bundles_queued := c, lk_bytes_queued := y\<rparr>" "ns_heap s' = h"
    "cm_events (ns_cm s') = cm_events (ns_cm s) @ [BundleSendCancelled b l]"
    by (simp_all add: s'(3) ns_post_def post_def relist_def ns_set_link_def set_link_def)
  have "distinct (map snd ((m, b) # xs))"
    using linked_distinct_bundles [OF bl_inv_linked [OF tx_invD(1) [OF inv(1)]], of "lk_queue (the_link l s)"] by (simp only: q)
  then have "\<not> is_queued_on (lk_queue (the_link l s')) (h_bundles (ns_heap s') b)"
    using linked_queued [OF bl_inv_linked held_alive(1)] tx_invD(1) [OF inv'(1)] b by (simp add: f s'(4))
  then have eq: "cancel_queue n l s = cancel_queue k l s'"
    by (subst cancel_queue.simps) (simp add: q n s'(1) get_obj_held [OF inv'(1) b])
  obtain s2 where s2: "cancel_queue k l s' = Some (Inr s2)" "tx_keeps held nm remotes s' s2"
    "h_lists (ns_heap s2) (lk_queue (the_link l s2)) = []"
    "h_lists (ns_heap s2) (lk_inflight (the_link l s2)) = h_lists (ns_heap s') (lk_inflight (the_link l s'))"
    "cm_events (ns_cm s2) = cm_events (ns_cm s') @ map (\<lambda>p. BundleSendCancelled (snd p) l) xs"
    using Cons.IH [OF inv', of k] Cons.prems(3,5) len by (simp add: f s'(4) del: cancel_queue.simps) blast
  then show ?case
    unfolding eq using tx_keeps_trans [OF s'(2) s2(2)] by (intro exI [of _ s2]) (simp add: f s'(5) p del: cancel_queue.simps)
qed

declare cancel_queue.simps [simp del]

subsection \<open>Properties\<close>

text \<open>
  C36: when a link has become unavailable, \<open>reroute_bundles\<close> empties its queue in as many turns as the
  queue has bundles: none of its assertions fails while nothing is in flight, every bundle leaves the
  queue, with the counters of the link kept in step, and for each of them, in the order of the queue,
  the event is posted that its sending was cancelled.
\<close>

theorem reroute_bundles_empties:
  assumes "tx_inv held nm remotes s" "real_link s l" "\<not> lk_deleted (the_link l s)" "lk_state (the_link l s) = UNAVAILABLE"
    and "h_lists (ns_heap s) (lk_queue (the_link l s)) = xs" "\<forall>p\<in>set xs. 1 \<le> held (snd p)" "length xs \<le> n"
    and "h_lists (ns_heap s) (lk_inflight (the_link l s)) = []"
  shows "\<exists>s'. reroute_bundles n l s = Some (Inr s') \<and> tx_inv held nm remotes s' \<and>
    h_lists (ns_heap s') (lk_queue (the_link l s')) = [] \<and>
    cm_events (ns_cm s') = cm_events (ns_cm s) @ map (\<lambda>p. BundleSendCancelled (snd p) l) xs"
proof -
  obtain s' where s': "cancel_queue n l s = Some (Inr s')" "tx_keeps held nm remotes s s'"
    "h_lists (ns_heap s') (lk_queue (the_link l s')) = []" "h_lists (ns_heap s') (lk_inflight (the_link l s')) = []"
    "cm_events (ns_cm s') = cm_events (ns_cm s) @ map (\<lambda>p. BundleSendCancelled (snd p) l) xs"
    using cancel_queue_ok [OF assms(1-3,5-7)] unfolding assms(8) by blast
  then show ?thesis
    using assms(3,4) tx_keepsD(1) [OF s'(2)] by (intro exI [of _ s']) (simp add: reroute_bundles_def)
qed

text \<open>
  C34: the decision to forward is exact. With a log whose entries all have a state, it never fails, and
  the bundle is forwarded on a link exactly when the last entry for the link says neither sent nor
  queued, no entry shows the bundle sent to, queued for or kept from the node behind the link (when
  that is known), and a bundle for a single node is not yet forwarded anywhere.
\<close>

theorem should_fwd_exact:
  assumes "tx_inv held (ne_naming env) remotes s" "real_link s l" "1 \<le> held b" "known_states (ns_log s b)"
  shows "br_should_fwd env b l action s =
    Inr (should_fwd_spec (ne_naming env) (the_link l s) action (b_singleton_dest (b_data b s)) (ns_log s b))"
  by (rule br_should_fwd_eq [OF assms])

text \<open>Handling a bundle changes the cache, and may post an event, before or instead of routing it.\<close>

lemma rt_inv_cache [simp]: "rt_inv held env n (s\<lparr>ns_cache := c\<rparr>) = rt_inv held env n s"
  by (simp add: rt_inv_def deferred_ok_def deferred_list_ok_def logs_ok_def rt_ready_def deferred_on_def real_link_def link_lists_def)

lemma tx_inv_cache: "tx_inv held nm remotes s \<Longrightarrow> tx_inv held nm remotes (s\<lparr>ns_cache := c\<rparr>)"
  by (rule tx_inv_change(1)) (simp_all add: tx_invD(1))

lemma post_step:
  assumes "tx_inv held (ne_naming env) remotes s" "rt_inv held env n s"
  shows "rt_step held env remotes n s (ns_post_at_head ev s)"
proof -
  have keeps: "tx_keeps held (ne_naming env) remotes s (ns_post_at_head ev s)"
    by (rule tx_keeps_cong [OF tx_keeps_refl [OF assms(1)]]) simp_all
  have kept: "rt_kept s (ns_post_at_head ev s)" "ns_deferred (ns_post_at_head ev s) = ns_deferred s"
    using post_router(2) [of "{}"] by (simp_all add: router_same_def)
  have "deferred_ok held (ns_post_at_head ev s)"
    by (rule deferred_kept [OF rt_invD(1) [OF assms(2)] keeps kept]) (simp add: ns_post_at_head_def)
  then have "rt_inv held env n (ns_post_at_head ev s)"
    using rt_ready_kept [OF rt_invD(3) [OF assms(2)] keeps kept(1)] rt_invD(2) [OF assms(2)]
    by (simp add: rt_inv_def logs_ok_def ns_post_at_head_def)
  then show ?thesis
    using keeps kept(1) by (simp add: rt_step_def)
qed


lemma remove_from_deferred_dom:
  "remove_from_deferred b actions s = Inr s' \<Longrightarrow> ns_deferred s l \<noteq> None \<Longrightarrow> \<exists>d. ns_deferred s' l = Some d"
proof -
  have "remove_from_deferred_loop b actions ls s = Inr s' \<Longrightarrow> ns_deferred s l \<noteq> None \<Longrightarrow> \<exists>d. ns_deferred s' l = Some d" for ls
  proof (induction ls arbitrary: s)
    case (Cons k ls)
    consider "remove_from_deferred_loop b actions ls s = Inr s'"
      | r s1 where "on_deferred k (df_del b) s = Inr (r, s1)" "remove_from_deferred_loop b actions ls s1 = Inr s'"
      using Cons.prems(1) by (auto simp: bindR_eq_Inr split: option.splits if_splits)
    then show ?case
    proof cases
      case (2 r s1)
      then have "ns_deferred s1 l \<noteq> None"
        using Cons.prems(2) by (auto simp: on_deferred_def set_deferred_def bindR_eq_Inr split: option.splits)
      then show ?thesis by (rule Cons.IH [OF 2(2)])
    qed (rule Cons.IH [OF _ Cons.prems(2)])
  qed auto
  then show "remove_from_deferred b actions s = Inr s' \<Longrightarrow> ns_deferred s l \<noteq> None \<Longrightarrow> \<exists>d. ns_deferred s' l = Some d"
    by (simp add: remove_from_deferred_def)
qed

text \<open>
  C35: a bundle that was sent is not forwarded again from a deferred list. After the router has handled
  the event that a bundle was transmitted, no link of the node has the bundle deferred for forwarding
  any more; bundles deferred for the link that has room again are queued, and all invariants hold.
\<close>

theorem transmitted_not_deferred:
  assumes "calls_ok held remotes env" "fragment_kept env" "tx_inv held (ne_naming env) remotes s" "rt_inv held env n s" "1 \<le> held b"
    and "ns_deferred s l \<noteq> None"
  shows "\<exists>s'. tr_bundle_transmitted env b l s = Inr s' \<and> tx_inv held (ne_naming env) remotes s' \<and> rt_inv held env n s' \<and>
    (\<forall>k d fi. k \<in> set (cm_set (ns_cm s)) \<and> ns_deferred s' k = Some d \<and> df_info d (bid s b) = Some fi \<longrightarrow>
       fi_action fi \<noteq> FORWARD_ACTION)"
proof -
  let ?P = "\<lambda>t k. \<forall>d fi. ns_deferred t k = Some d \<and> df_info d (bid s b) = Some fi \<longrightarrow>
    fwd_action_code (fi_action fi) AND fwd_action_code FORWARD_ACTION = 0"
  obtain s1 where s1: "remove_from_deferred b (fwd_action_code FORWARD_ACTION) s = Inr s1" "rt_step held env remotes n s s1"
    "\<forall>k\<in>set (cm_set (ns_cm s)). ?P s1 k"
    using remove_from_deferred_step [OF assms(3-5), of "fwd_action_code FORWARD_ACTION" "cm_set (ns_cm s)"]
    unfolding remove_from_deferred_def by blast
  obtain d1 where d1: "ns_deferred s1 l = Some d1"
    using remove_from_deferred_dom [OF s1(1)] assms(6) by blast
  obtain s2 where s2: "check_next_hop env l s1 = Inr s2" "rt_step held env remotes n s1 s2"
    "\<exists>d'. ns_deferred s2 l = Some d' \<and> df_info d' \<subseteq>\<^sub>m df_info d1" "\<forall>k. k \<noteq> l \<longrightarrow> ns_deferred s2 k = ns_deferred s1 k"
    using check_next_hop_step [OF assms(1,2) rt_stepD(1,2) [OF s1(2)] d1] by blast
  have "?P s2 k" if "k \<in> set (cm_set (ns_cm s))" for k
  proof (cases "k = l")
    case True
    then show ?thesis
      using s1(3) that d1 s2(3) by (auto simp: map_le_def dest!: bspec [OF _ domI])
  next
    case False
    then show ?thesis
      using s1(3) that s2(4) by metis
  qed
  then have "fi_action fi \<noteq> FORWARD_ACTION" if "k \<in> set (cm_set (ns_cm s))" "ns_deferred s2 k = Some d" "df_info d (bid s b) = Some fi" for k d fi
    using that by fastforce
  moreover have "tr_bundle_transmitted env b l s = Inr s2"
    by (simp only: tr_bundle_transmitted_def s1(1) bindR_Inr s2(1))
  ultimately show ?thesis
    using rt_stepD(1,2) [OF rt_step_trans [OF s1(2) s2(2)]] by blast
qed

subsection \<open>An example\<close>

text \<open>The link of the sample node is open, has an empty deferred list, and a route leads to it.\<close>

definition sample_router :: node_sys where
  "sample_router =
     (let s = sample_node 0
      in s\<lparr>ns_cm := (set_link 5 ((the_link 5 s)\<lparr>lk_state := OPEN\<rparr>) (ns_cm s))\<lparr>cm_set := [5]\<rparr>,
            ns_deferred := (\<lambda>_. None)(5 \<mapsto> \<lparr>df_list = 9, df_info = Map.empty, df_count = 0\<rparr>),
            ns_routes := [(0, route_to_link simple_naming router_defaults (b_dest sample_sent) 5)]\<rparr>)"

lemma sample_router_fields [simp]:
  "ns_heap sample_router = s_heap sample_run" "ns_log sample_router = (\<lambda>_. [])" "ns_xmit sample_router = (\<lambda>_. [])"
  "the_link l sample_router = (if l = 5 then (the_link 5 (sample_node 0))\<lparr>lk_state := OPEN\<rparr> else the_link l (sample_node 0))"
  "ns_deferred sample_router = (\<lambda>_. None)(5 \<mapsto> \<lparr>df_list = 9, df_info = Map.empty, df_count = 0\<rparr>)"
  "ns_routes sample_router = [(0, route_to_link simple_naming router_defaults (b_dest sample_sent) 5)]"
  "cm_set (ns_cm sample_router) = [5]"
  by (simp_all add: sample_router_def Let_def set_link_def)

lemma sample_router_inv: "tx_inv (s_held sample_run) (ne_naming sample_node_env) (\<lambda>_. NULL_EID simple_naming) sample_router"
  "real_link sample_router l \<longleftrightarrow> l = 5"
proof -
  have books: "books_kept (the_link l (sample_node 0)) (the_link l sample_router)" for l
    by (simp add: books_kept_def link_kept_def)
  note t = tx_inv_change [OF sample_node_inv books, unfolded sample_router_fields sample_node_fields]
  show "tx_inv (s_held sample_run) (ne_naming sample_node_env) (\<lambda>_. NULL_EID simple_naming) sample_router"
    by (rule t(1)) (simp_all add: sample_heap(1))
  show "real_link sample_router l \<longleftrightarrow> l = 5"
    by (simp add: real_link_def sample_node_def cm_init_def no_link_def link_new_def ALL_BUNDLES_def)
qed

lemma sample_run_held:
  assumes "1 \<le> s_held sample_run b"
  shows "b = 7"
proof (rule ccontr)
  assume "b \<noteq> 7"
  then have "s_held sample_run b = 0"
    by (simp add: sample_run_def run_defs)
  then show False using assms by simp
qed

lemma case_found: "(case r of Inr (Some x) \<Rightarrow> P x | _ \<Rightarrow> False) \<Longrightarrow> \<exists>x. r = Inr (Some x) \<and> P x"
  by (simp split: sum.splits option.splits)

lemma sample_fmt: "fmt_ok sample_node_env 100 (sample_sent\<lparr>b_freed := False\<rparr>)"
proof -
  let ?x = "sample_sent\<lparr>b_freed := False\<rparr>"
  have "case prepare_blocks (ne_bp sample_node_env) (ne_procs sample_node_env) (ne_md_gen sample_node_env) ?x of
      Inr (Some vec) \<Rightarrow>
        (case generate_blocks (ne_bp sample_node_env) (ne_procs sample_node_env) ?x vec of Inr (Some q) \<Rightarrow> fst q \<le> 100 | _ \<Rightarrow> False)
    | _ \<Rightarrow> False"
    by code_simp
  from case_found [OF this] show ?thesis
    by (auto simp: fmt_ok_def dest!: case_found)
qed

lemma sample_rt_inv: "rt_inv (s_held sample_run) sample_node_env 100 sample_router"
proof -
  have "deferred_ok (s_held sample_run) sample_router"
    by (simp add: deferred_ok_def deferred_list_ok_def deferred_on_def sample_router_inv(2) sample_heap link_lists_def ALL_BUNDLES_def)
  moreover have "logs_ok (s_held sample_run) sample_router"
    by (simp add: logs_ok_def known_states_def)
  moreover have "limits_ok 100 (the_link 5 sample_router)"
    by (simp add: limits_ok_def link_new_def sample_link_params_def default_params_def)
  moreover have "table_ok (ns_routes sample_router)"
    by (simp add: table_ok_def route_to_link_def)
  moreover have "inj_on (bid sample_router) {b. 1 \<le> s_held sample_run b}"
    by (rule inj_onI) (auto dest!: sample_run_held)
  ultimately show ?thesis
    using sample_fmt by (simp add: rt_inv_def rt_ready_def sample_router_inv(2) route_to_link_def)
      (auto dest!: sample_run_held simp: sample_heap)
qed

lemma sample_fragment_kept: "fragment_kept sample_node_env"
  by (simp add: fragment_kept_def sample_node_env_def)

lemmas sample_ok = sample_calls_ok sample_fragment_kept sample_router_inv(1) sample_rt_inv

theorem should_fwd_exact_witness:
  "br_should_fwd sample_node_env 7 5 FORWARD_ACTION sample_router = Inr True"
proof -
  have "should_fwd_spec (ne_naming sample_node_env) (the_link 5 sample_router) FORWARD_ACTION
      (b_singleton_dest (b_data 7 sample_router)) (ns_log sample_router 7)"
    by (simp add: should_fwd_spec_def)
  then show ?thesis
    using should_fwd_exact [OF sample_router_inv(1), of 5 7 FORWARD_ACTION] by (simp add: sample_router_inv(2) sample_heap known_states_def)
qed


text \<open>The same node when the bundle waits in the deferred list of the link.\<close>

definition sample_deferred :: node_sys where
  "sample_deferred =
     (case on_deferred 5 (df_add 7 (fwd_info_new (1000, 0) FWD_NONE FORWARD_ACTION (lit ''peer'') NO_REGID (NULL_EID simple_naming)
         custody_defaults)) sample_router of Inr (_, s) \<Rightarrow> s | Inl _ \<Rightarrow> sample_router)"

theorem transmitted_not_deferred_witness:
  "\<exists>s d. tr_bundle_transmitted sample_node_env 7 5 sample_deferred = Inr s \<and> ns_deferred s 5 = Some d \<and>
    (\<forall>fi. df_info d (bid sample_deferred 7) = Some fi \<longrightarrow> fi_action fi \<noteq> FORWARD_ACTION) \<and>
    (\<exists>d fi. ns_deferred sample_deferred 5 = Some d \<and> df_info d (bid sample_deferred 7) = Some fi \<and> fi_action fi = FORWARD_ACTION)"
proof -
  let ?d = "\<lparr>df_list = 9, df_info = Map.empty, df_count = 0\<rparr>"
  have "ns_deferred sample_router 5 = Some ?d" "7 \<notin> deferred_on ?d sample_router" "1 \<le> s_held sample_run 7"
    by (simp_all add: deferred_on_def sample_heap ALL_BUNDLES_def)
  from df_add_step [OF sample_ok(3,4) this, of "fwd_info_new (1000, 0) FWD_NONE FORWARD_ACTION (lit ''peer'') NO_REGID
      (NULL_EID simple_naming) custody_defaults"]
  have st: "rt_step (s_held sample_run) sample_node_env (\<lambda>_. NULL_EID simple_naming) 100 sample_router sample_deferred"
    by (auto simp: sample_deferred_def)
  have set: "cm_set (ns_cm sample_deferred) = [5]"
    using rt_stepD(4) [OF st] by (simp add: rt_kept_def)
  have "case ns_deferred sample_deferred 5 of None \<Rightarrow> False
      | Some d \<Rightarrow> (case df_info d (bid sample_deferred 7) of None \<Rightarrow> False | Some fi \<Rightarrow> fi_action fi = FORWARD_ACTION)"
    by code_simp
  then obtain d fi where d: "ns_deferred sample_deferred 5 = Some d" "df_info d (bid sample_deferred 7) = Some fi" "fi_action fi = FORWARD_ACTION"
    by (auto split: option.split_asm)
  have "case tr_bundle_transmitted sample_node_env 7 5 sample_deferred of Inl _ \<Rightarrow> False | Inr s \<Rightarrow> ns_deferred s 5 \<noteq> None"
    by code_simp
  moreover obtain s where "tr_bundle_transmitted sample_node_env 7 5 sample_deferred = Inr s"
    "\<forall>k d fi. k \<in> set (cm_set (ns_cm sample_deferred)) \<and> ns_deferred s k = Some d \<and> df_info d (bid sample_deferred 7) = Some fi \<longrightarrow>
       fi_action fi \<noteq> FORWARD_ACTION"
    using transmitted_not_deferred [OF sample_ok(1,2) rt_stepD(1,2) [OF st], of 7 5] d(1) by (auto simp only: sample_heap(2))
  ultimately show ?thesis
    using d set by auto
qed

definition sample_down :: "node_sys \<Rightarrow> node_sys" where
  "sample_down s = ns_set_link 5 ((the_link 5 s)\<lparr>lk_state := UNAVAILABLE\<rparr>) s"

theorem reroute_bundles_empties_witness:
  "\<exists>s s'. queue_bundle sample_node_env 7 5 FORWARD_ACTION custody_defaults sample_router = Inr (True, s) \<and>
    reroute_bundles 1 5 (sample_down s) = Some (Inr s') \<and> h_lists (ns_heap s') (lk_queue (the_link 5 s')) = [] \<and>
    cm_events (ns_cm s') = cm_events (ns_cm s) @ [BundleSendCancelled 7 5]"
proof -
  have "case queue_bundle sample_node_env 7 5 FORWARD_ACTION custody_defaults sample_router of
      Inl _ \<Rightarrow> False | Inr (ok, s) \<Rightarrow> ok \<and> map snd (h_lists (ns_heap s) (lk_queue (the_link 5 s))) = [7] \<and>
        map snd (h_lists (ns_heap s) (lk_inflight (the_link 5 s))) = [] \<and> \<not> lk_deleted (the_link 5 s)"
    by code_simp
  then obtain s where s: "queue_bundle sample_node_env 7 5 FORWARD_ACTION custody_defaults sample_router = Inr (True, s)"
    "map snd (h_lists (ns_heap s) (lk_queue (the_link 5 s))) = [7]" "h_lists (ns_heap s) (lk_inflight (the_link 5 s)) = []"
    "\<not> lk_deleted (the_link 5 s)"
    by (auto split: sum.split_asm)
  have fwd: "should_fwd_spec (ne_naming sample_node_env) (the_link 5 sample_router) FORWARD_ACTION
      (b_singleton_dest (b_data 7 sample_router)) (ns_log sample_router 7)"
    by (simp add: should_fwd_spec_def)
  have full: "\<not> queue_is_full (the_link 5 sample_router)"
    by (simp add: queue_is_full_def link_new_def sample_link_params_def default_params_def)
  have st: "rt_step (s_held sample_run) sample_node_env (\<lambda>_. NULL_EID simple_naming) 100 sample_router s"
    using queue_bundle_step [OF sample_ok _ full _ fwd, of custody_defaults] s(1) by (simp add: sample_router_inv(2) sample_heap)
  define t where "t = sample_down s"
  have f: "the_link l t = (if l = 5 then (the_link 5 s)\<lparr>lk_state := UNAVAILABLE\<rparr> else the_link l s)" "ns_heap t = ns_heap s"
      "ns_log t = ns_log s" "ns_xmit t = ns_xmit s" "cm_events (ns_cm t) = cm_events (ns_cm s)" for l
    by (simp_all add: t_def sample_down_def ns_set_link_def set_link_def)
  have books: "books_kept (the_link l s) (the_link l t)" for l
    by (simp add: f books_kept_def link_kept_def)
  have inv: "tx_inv (s_held sample_run) (ne_naming sample_node_env) (\<lambda>_. NULL_EID simple_naming) t" "real_link t 5"
    using tx_inv_change [OF rt_stepD(1) [OF st] books f(3,4)] tx_invD(1) [OF rt_stepD(1) [OF st]] rt_stepD(3) [OF st]
    by (simp_all add: f(2) sample_router_inv(2))
  obtain m where q: "h_lists (ns_heap t) (lk_queue (the_link 5 t)) = [(m, 7)]"
    using s(2) by (auto simp: f)
  obtain s' where "reroute_bundles 1 5 t = Some (Inr s')" "h_lists (ns_heap s') (lk_queue (the_link 5 s')) = []"
    "cm_events (ns_cm s') = cm_events (ns_cm s) @ [BundleSendCancelled 7 5]"
    using reroute_bundles_empties [OF inv _ _ q, of 1] s(3,4) by (auto simp: f sample_heap(2))
  then show ?thesis
    using s(1) by (intro exI [of _ s] exI [of _ s']) (simp flip: t_def)
qed

end
