(* ===== verification/DaemonRuns.thy ===== *)
theory DaemonRuns
  imports Daemon RouterRuns
begin

text \<open>
  What holds of the daemon of \<open>Daemon\<close>: the search for duplicates, the pending list with its
  expiration times, the delivery to registrations, the books of custody over any sequence of custody
  operations (\<open>custody_inv\<close>), and the deletion of a bundle, which goes through the router, the pending
  list and every link.
\<close>

subsection \<open>Changing the data of a bundle\<close>

lemma bl_inv_set_data:
  assumes "bl_inv held (ns_heap s)" "\<And>d. b_freed (f d) = b_freed d"
  shows "bl_inv held (ns_heap (set_data b f s))"
proof -
  let ?h = "ns_heap (set_data b f s)"
  have same: "h_live ?h = h_live (ns_heap s)" "h_lists ?h = h_lists (ns_heap s)" "h_next ?h = h_next (ns_heap s)"
    "h_posted ?h = h_posted (ns_heap s)" "\<And>c. bo_mappings (h_bundles ?h c) = bo_mappings (h_bundles (ns_heap s) c)"
    "\<And>c. bo_refcount (h_bundles ?h c) = bo_refcount (h_bundles (ns_heap s) c)"
    "\<And>c. is_freed (h_bundles ?h c) = is_freed (h_bundles (ns_heap s) c)"
    using assms(2) by (simp_all add: set_data_def set_obj_def is_freed_def Let_def)
  have "linked ?h"
    by (rule linked_cong [OF bl_inv_linked [OF assms(1)] same(1-3,5)])
  moreover have "obj_counted k (h_bundles ?h c) = obj_counted k (h_bundles (ns_heap s) c)" for k c
    by (simp add: obj_counted_def is_queued_on_def find_mapping_def same)
  ultimately show ?thesis
    using assms(1) by (simp add: bl_inv_def counted_def same)
qed

lemma set_data_fields [simp]:
  "ns_cm (set_data b f s) = ns_cm s" "ns_log (set_data b f s) = ns_log s" "ns_xmit (set_data b f s) = ns_xmit s"
  "ns_custody (set_data b f s) = ns_custody s" "ns_expiry (set_data b f s) = ns_expiry s" "ns_deferred (set_data b f s) = ns_deferred s"
  "ns_routes (set_data b f s) = ns_routes s" "ns_regs (set_data b f s) = ns_regs s"
  "h_lists (ns_heap (set_data b f s)) = h_lists (ns_heap s)" "h_live (ns_heap (set_data b f s)) = h_live (ns_heap s)"
  "b_data c (set_data b f s) = (if c = b then f (b_data b s) else b_data c s)"
  "h_next (ns_heap (set_data b f s)) = h_next (ns_heap s)"
  by (simp_all add: set_data_def set_obj_def Let_def)

lemma get_data_held: "bl_inv held (ns_heap s) \<Longrightarrow> 1 \<le> held b \<Longrightarrow> get_data b s = Inr (b_data b s)"
  using held_alive(1) [of held "ns_heap s" b] by (simp add: get_data_def get_obj_def)

lemma do_if_False [simp]: "do_if False f s = Inr s"
  by (simp add: do_if_def)

subsection \<open>Duplicates\<close>

definition pending :: "node_sys \<Rightarrow> bundle_ptr list" where
  "pending s = map snd (h_lists (ns_heap s) PENDING_BUNDLES)"

lemma find_duplicate_loop_spec:
  "find_duplicate_loop suppress d objs bs found =
     (case find (\<lambda>b. is_duplicate d (objs b) \<and> (suppress \<or> b_local_custody (objs b))) bs of
        Some b \<Rightarrow> Some b
      | None \<Rightarrow> (case find (\<lambda>b. is_duplicate d (objs b)) (rev bs) of Some b \<Rightarrow> Some b | None \<Rightarrow> found))"
proof (induction bs arbitrary: found)
  case (Cons b bs)
  have "find P (xs @ [b]) = (case find P xs of Some x \<Rightarrow> Some x | None \<Rightarrow> if P b then Some b else None)" for P and xs :: "bundle_ptr list"
    by (induction xs) auto
  then show ?case
    using Cons.IH by (auto split: option.split)
qed simp

text \<open>
  C38: the search for a duplicate is exact. It finds a bundle of the pending list exactly when one has
  the same source, creation timestamp, fragment position and payload length; it finds one in local
  custody whenever there is such a duplicate and duplicates are not suppressed, and the first
  duplicate of the list when they are.
\<close>

theorem find_duplicate_exact:
  "(find_duplicate env d s = None \<longleftrightarrow> (\<forall>b\<in>set (pending s). \<not> is_duplicate d (b_data b s))) \<and>
    (\<forall>b. find_duplicate env d s = Some b \<longrightarrow>
       b \<in> set (pending s) \<and> is_duplicate d (b_data b s) \<and>
       (if ne_suppress_duplicates env then find (\<lambda>b. is_duplicate d (b_data b s)) (pending s) = Some b
        else (\<exists>c\<in>set (pending s). is_duplicate d (b_data c s) \<and> b_local_custody (b_data c s)) \<longrightarrow> b_local_custody (b_data b s)))"
proof -
  let ?P = "\<lambda>b. is_duplicate d (b_data b s)" and ?Q = "\<lambda>b. is_duplicate d (b_data b s) \<and> (ne_suppress_duplicates env \<or> b_local_custody (b_data b s))"
  have eq: "find_duplicate env d s =
      (case find ?Q (pending s) of Some b \<Rightarrow> Some b | None \<Rightarrow> find ?P (rev (pending s)))"
    by (simp add: find_duplicate_def find_duplicate_loop_spec pending_def split: option.split)
  show ?thesis
    unfolding eq
    by (auto simp: find_None_iff dest!: find_SomeD split: option.splits)
qed

subsection \<open>The pending list\<close>

lemma small_sint:
  fixes x :: u64
  assumes "unat x < 2 ^ 31"
  shows "sint x = int (unat x)"
proof -
  have u: "uint x = int (unat x)"
    by simp
  have "int (unat x) < 2 ^ 31"
    using assms by (simp only: of_nat_less_numeral_power_cancel_iff)
  then have "- (2 ^ (LENGTH(64) - Suc 0)) \<le> uint x" "uint x < 2 ^ (LENGTH(64) - Suc 0)"
    using uint_ge_0 [of x] unfolding u [symmetric] by (simp_all add: order_trans [OF _ uint_ge_0])
  then show ?thesis
    unfolding sint_uint u [symmetric] by (rule signed_take_bit_int_eq_self)
qed

text \<open>
  C37: when a bundle becomes pending, its expiration decides. For a bundle with a creation time and
  without an age block, the sum of the epoch, the creation time and the lifetime, which wraps around
  at 64 bits, is compared with the largest \<open>int\<close>: above it the daemon aborts on an assertion.
  Otherwise the bundle is put at the end of the pending list and gets a timer; it may be routed
  exactly when it expires in the future, and if not, the timer fires at once.
\<close>

theorem add_to_pending_exact:
  assumes "bl_inv held (ns_heap s)" "1 \<le> held b" "b \<notin> set (pending s)"
    and "seconds (b_creation_ts (b_data b s)) \<noteq> 0" "bv_find_block (of_nat AGE_BLOCK) (b_recv_blocks (b_data b s)) = Inr None"
  shows "(INT_MAX < expiration_sum (b_data b s) \<longrightarrow> add_to_pending env b store s = Inl ASSERT) \<and>
    (expiration_sum (b_data b s) \<le> INT_MAX \<longrightarrow>
      (\<exists>s'. add_to_pending env b store s = Inr (unat (fst (ne_now env)) < unat (expiration_sum (b_data b s)), s') \<and>
         bl_inv held (ns_heap s') \<and> pending s' = pending s @ [b] \<and>
         ns_expiry s' b = Some (if unat (fst (ne_now env)) < unat (expiration_sum (b_data b s)) then expiration_sum (b_data b s)
           else ucast (fst (ne_now env)), snd (ne_now env))))"
proof -
  let ?d = "b_data b s" and ?now = "fst (ne_now env)"
  have new: "b \<notin> snd ` set (h_lists (ns_heap s) PENDING_BUNDLES)"
    using assms(3) by (simp add: pending_def)
  have "PENDING_BUNDLES \<noteq> ALL_BUNDLES"
    by (simp add: PENDING_BUNDLES_def ALL_BUNDLES_def)
  then obtain h where h: "bl_push_back PENDING_BUNDLES b (ns_heap s) = Inr h" "bl_inv held h" "same_bundles (ns_heap s) h"
    "h_lists h PENDING_BUNDLES = h_lists (ns_heap s) PENDING_BUNDLES @ [(h_next (ns_heap s), b)]"
    using push_back_held [OF assms(1,2) _ new] by blast
  define f :: "dtn_bundle \<Rightarrow> dtn_bundle" where "f = (\<lambda>d. d\<lparr>b_in_datastore := True\<rparr>)"
  define t where "t = (if store then set_data b f (s\<lparr>ns_heap := h\<rparr>) else s\<lparr>ns_heap := h\<rparr>)"
  have push: "list_push PENDING_BUNDLES b s = Inr (s\<lparr>ns_heap := h\<rparr>)"
    by (simp add: list_push_def h(1))
  have inv: "bl_inv held (ns_heap t)"
    unfolding t_def using bl_inv_set_data [of held "s\<lparr>ns_heap := h\<rparr>" f b] h(2) by (simp add: f_def)
  have data: "get_data b t = Inr (b_data b t)"
    by (rule get_data_held [OF inv assms(2)])
  have d: "expiration_sum (b_data b t) = expiration_sum ?d" "b_creation_ts (b_data b t) = b_creation_ts ?d"
      "b_recv_blocks (b_data b t) = b_recv_blocks ?d"
    using h(3) by (simp_all add: t_def f_def expiration_sum_def same_bundles_def)
  have pend: "pending t = pending s @ [b]"
    by (simp add: t_def pending_def h(4))
  have eq: "add_to_pending env b store s =
      bindR (assertR (\<not> INT_MAX < expiration_sum ?d)) (\<lambda>_. let ok = (sint (expiration_sum ?d) - int (unat ?now) > 0)
        in Inr (ok, t\<lparr>ns_expiry := (ns_expiry t)(b \<mapsto> (if ok then expiration_sum ?d else ucast ?now, snd (ne_now env)))\<rparr>))"
    using assms(4,5) by (simp add: add_to_pending_def push Let_def data [unfolded t_def f_def] d [unfolded t_def f_def] t_def f_def)
  have "sint (expiration_sum ?d) - int (unat ?now) > 0 \<longleftrightarrow> unat ?now < unat (expiration_sum ?d)" if "expiration_sum ?d \<le> INT_MAX"
    by (subst small_sint) (use that in \<open>simp_all only: INT_MAX_def word_le_nat_alt diff_gt_0_iff_gt of_nat_less_iff, simp_all\<close>)
  then show ?thesis
    unfolding eq using inv pend by (simp add: pending_def del: diff_gt_0_iff_gt)
qed

subsection \<open>Delivery\<close>


text \<open>
  C40: a bundle for a registration of the node itself stays until it expires. The administrative and the
  ping registration are none of the application interface, so that delivery to them leaves the log
  entry at \<open>PENDING_DELIVERY\<close>; a bundle that was not forwarded either is then never deleted when its
  delivery has been handled, although nothing will happen to it any more.
\<close>

theorem local_bundle_kept:
  assumes "get_data b s = Inr d" "\<not> b_is_fragment d" "reg_get regid s = Some reg" "\<not> rg_api reg"
    and "rg_session_flags reg \<noteq> SESSION_PUBLISH" "get_latest_state_reg (ne_naming env) reg (ns_log s b) = Inr PENDING_DELIVERY"
    and "get_count (fwd_state_code TRANSMITTED OR fwd_state_code DELIVERED) ANY_ACTION (ns_log s b) = 0"
    and "ne_deliver env regid b s = Inr (True, s1)" "ns_log s1 = ns_log s" "ns_heap s1 = ns_heap s"
  shows "handle_deliver_bundle_to_reg env b regid s = Inr s1 \<and> try_to_delete env b s1 = Inr (False, s1)"
proof -
  have regid: "rg_regid reg = regid"
    using assms(3) by (auto simp: reg_get_def dest: find_SomeD)
  obtain x where x: "get_obj b (ns_heap s1) = Inr x"
    using assms(1,10) by (auto simp: get_data_def bindR_eq_Inr)
  then have "try_to_delete env b s1 = Inr (False, s1)"
    using assms(7) by (simp only: try_to_delete_def bindR_Inr tr_can_delete_bundle_def assms(9) if_True) simp
  then show ?thesis
    using assms(2,4,5,8) by (simp add: handle_deliver_bundle_to_reg_def assms(3) deliver_to_registration_def assms(1,6) Let_def regid)
qed

subsection \<open>The books of custody\<close>

definition in_custody :: "node_sys \<Rightarrow> bundle_ptr set" where
  "in_custody s = snd ` set (h_lists (ns_heap s) CUSTODY_BUNDLES)"

text \<open>
  A referenced bundle is on the custody list exactly when it is marked as in local custody, and only
  then has it custody timers.
\<close>

definition custody_inv :: "(bundle_ptr \<Rightarrow> int) \<Rightarrow> naming \<Rightarrow> (bytes \<Rightarrow> eid) \<Rightarrow> node_sys \<Rightarrow> bool" where
  "custody_inv held nm remotes s \<longleftrightarrow>
     tx_inv held nm remotes s \<and> (\<forall>l. real_link s l \<longrightarrow> CUSTODY_BUNDLES \<notin> link_lists s l) \<and>
     (\<forall>b. 1 \<le> held b \<longrightarrow> (b_local_custody (b_data b s) \<longleftrightarrow> b \<in> in_custody s) \<and>
        (ns_custody s b \<noteq> [] \<longrightarrow> b_local_custody (b_data b s)))"

text \<open>What custody signals and status reports, which are new bundles, leave alone.\<close>

definition custody_kept :: "(bundle_ptr \<Rightarrow> int) \<Rightarrow> naming \<Rightarrow> (bytes \<Rightarrow> eid) \<Rightarrow> node_sys \<Rightarrow> node_sys \<Rightarrow> bool" where
  "custody_kept held nm remotes s s' \<longleftrightarrow>
     tx_keeps held nm remotes s s' \<and> (\<forall>l. link_lists s' l = link_lists s l) \<and>
     h_lists (ns_heap s') CUSTODY_BUNDLES = h_lists (ns_heap s) CUSTODY_BUNDLES \<and> ns_custody s' = ns_custody s"

definition custody_calls :: "(bundle_ptr \<Rightarrow> int) \<Rightarrow> (bytes \<Rightarrow> eid) \<Rightarrow> node_env \<Rightarrow> bool" where
  "custody_calls held remotes env \<longleftrightarrow>
     (\<forall>s b ok reason. tx_inv held (ne_naming env) remotes s \<longrightarrow>
        (\<exists>s'. ne_signal env b ok reason s = Inr s' \<and> custody_kept held (ne_naming env) remotes s s')) \<and>
     (\<forall>s b flag reason. tx_inv held (ne_naming env) remotes s \<longrightarrow>
        (\<exists>s'. ne_report env b flag reason s = Inr s' \<and> custody_kept held (ne_naming env) remotes s s'))"

lemma custody_kept_refl: "tx_inv held nm remotes s \<Longrightarrow> custody_kept held nm remotes s s"
  by (simp add: custody_kept_def tx_keeps_refl)

lemma custody_inv_kept:
  assumes "custody_inv held nm remotes s" "custody_kept held nm remotes s s'"
  shows "custody_inv held nm remotes s'"
  using assms by (simp add: custody_inv_def custody_kept_def tx_keeps_def data_kept_def in_custody_def) blast

lemma custody_invD:
  assumes "custody_inv held nm remotes s"
  shows "tx_inv held nm remotes s" "real_link s l \<Longrightarrow> CUSTODY_BUNDLES \<notin> link_lists s l"
    "1 \<le> held b \<Longrightarrow> b_local_custody (b_data b s) \<longleftrightarrow> b \<in> in_custody s" "1 \<le> held b \<Longrightarrow> ns_custody s b \<noteq> [] \<Longrightarrow> b_local_custody (b_data b s)"
  using assms unfolding custody_inv_def by blast+

lemma custody_list: "CUSTODY_BUNDLES \<noteq> ALL_BUNDLES"
  by (simp add: CUSTODY_BUNDLES_def ALL_BUNDLES_def)

text \<open>Entering or leaving custody: the flag, the list and the timers of one bundle change together.\<close>

lemma custody_inv_change:
  assumes inv: "custody_inv held nm remotes s" and heap: "bl_inv held h"
    and data: "\<And>c. c \<noteq> b \<Longrightarrow> bo_data (h_bundles h c) = b_data c s" "b_local_custody (bo_data (h_bundles h b)) = c"
    and lists: "\<And>k. k \<noteq> CUSTODY_BUNDLES \<Longrightarrow> k \<noteq> ALL_BUNDLES \<Longrightarrow> h_lists h k = h_lists (ns_heap s) k"
    and list: "snd ` set (h_lists h CUSTODY_BUNDLES) = (if c then insert b (in_custody s) else in_custody s - {b})"
    and timers: "t b \<noteq> [] \<longrightarrow> c" "\<And>x. x \<noteq> b \<Longrightarrow> t x = ns_custody s x"
  shows "custody_inv held nm remotes (s\<lparr>ns_heap := h, ns_custody := t\<rparr>)"
proof -
  let ?s = "s\<lparr>ns_heap := h, ns_custody := t\<rparr>"
  note tx = custody_invD(1) [OF inv]
  have keep: "h_lists h k = h_lists (ns_heap s) k" if "real_link s l" "k \<in> link_lists s l" for k l
    using that lists [of k] custody_invD(2) [OF inv that(1)] link_okD(2) [OF tx_invD(4) [OF tx that(1)]]
    by (auto simp: link_lists_def real_link_def inflight.ok_def)
  have t: "tx_inv held nm remotes ?s" "real_link ?s l = real_link s l" for l
    by (rule tx_inv_change [OF tx]; simp add: heap keep)+
  have ls: "link_lists ?s l = link_lists s l" for l
    by (simp add: link_lists_def)
  have "(b_local_custody (b_data x ?s) \<longleftrightarrow> x \<in> in_custody ?s) \<and> (ns_custody ?s x \<noteq> [] \<longrightarrow> b_local_custody (b_data x ?s))"
    if "1 \<le> held x" for x
    using custody_invD(3,4) [OF inv that] data timers list by (cases "x = b") (auto simp: in_custody_def)
  then show ?thesis
    unfolding custody_inv_def t(2) ls using t(1) custody_invD(2) [OF inv] by blast
qed

lemma call_ok:
  assumes "custody_calls held remotes env" "custody_inv held (ne_naming env) remotes s"
  shows "\<exists>s'. do_if c (ne_signal env b ok reason) s = Inr s' \<and> custody_kept held (ne_naming env) remotes s s'"
    "\<exists>s'. do_if c (ne_report env b flag reason) s = Inr s' \<and> custody_kept held (ne_naming env) remotes s s'"
  using assms(1) custody_invD(1) [OF assms(2)] custody_kept_refl unfolding custody_calls_def do_if_def by (cases c; simp)+

lemma custody_kept_data: "custody_kept held nm remotes s s' \<Longrightarrow> 1 \<le> held b \<Longrightarrow> b_data b s' = b_data b s"
  by (simp add: custody_kept_def tx_keeps_def data_kept_def)

lemma accept_custody_ok:
  assumes calls: "custody_calls held remotes env" and inv: "custody_inv held (ne_naming env) remotes s" and b: "1 \<le> held b"
  shows "\<exists>s'. accept_custody env b s = Inr s' \<and> custody_inv held (ne_naming env) remotes s' \<and>
    (\<not> eid_equals (b_custodian (b_data b s)) (ne_local_eid env) \<longrightarrow> b_local_custody (b_data b s')) \<and>
    (\<forall>l. real_link s' l = real_link s l)"
proof (cases "b_local_custody (b_data b s) \<or> eid_equals (b_custodian (b_data b s)) (ne_local_eid env)")
  case True
  then have "accept_custody env b s = Inr s"
    using get_data_held [OF tx_invD(1) [OF custody_invD(1) [OF inv]] b] by (auto simp: accept_custody_def)
  then show ?thesis using inv True by auto
next
  case False
  let ?f = "\<lambda>d. d\<lparr>b_custodian := ne_local_eid env, b_local_custody := True\<rparr>"
  obtain s1 where s1: "do_if (\<not> eid_equals (b_custodian (b_data b s)) (NULL_EID (ne_naming env)))
      (ne_signal env b True CUSTODY_NO_ADDTL_INFO) s = Inr s1" "custody_kept held (ne_naming env) remotes s s1"
    using call_ok(1) [OF calls inv] by blast
  note inv1 = custody_inv_kept [OF inv s1(2)]
  note bl1 = tx_invD(1) [OF custody_invD(1) [OF inv1]]
  have bl2: "bl_inv held (ns_heap (set_data b ?f s1))"
    by (rule bl_inv_set_data [OF bl1]) simp
  have new: "b \<notin> snd ` set (h_lists (ns_heap (set_data b ?f s1)) CUSTODY_BUNDLES)"
    using False custody_invD(3) [OF inv b] s1(2) by (simp add: in_custody_def custody_kept_def)
  obtain h where h: "bl_push_back CUSTODY_BUNDLES b (ns_heap (set_data b ?f s1)) = Inr h" "bl_inv held h"
    "same_bundles (ns_heap (set_data b ?f s1)) h"
    "h_lists h CUSTODY_BUNDLES = h_lists (ns_heap (set_data b ?f s1)) CUSTODY_BUNDLES @ [(h_next (ns_heap (set_data b ?f s1)), b)]"
    "\<And>k. k \<noteq> CUSTODY_BUNDLES \<Longrightarrow> k \<noteq> ALL_BUNDLES \<Longrightarrow> h_lists h k = h_lists (ns_heap (set_data b ?f s1)) k"
    using push_back_held [OF bl2 b custody_list new] by blast
  define s2 where "s2 = (set_data b ?f s1)\<lparr>ns_heap := h\<rparr>"
  have eq2: "s2 = s1\<lparr>ns_heap := h, ns_custody := ns_custody s1\<rparr>"
    by (simp add: s2_def set_data_def Let_def)
  have d2: "bo_data (h_bundles h c) = (if c = b then ?f (b_data b s1) else b_data c s1)" for c
    using h(3) by (simp add: same_bundles_def)
  have inv2: "custody_inv held (ne_naming env) remotes s2"
    unfolding eq2 by (rule custody_inv_change [OF inv1 h(2), where c = True and b = b]) (simp_all add: d2 h(4,5) in_custody_def)
  obtain s3 where s3: "do_if (b_custody_rcpt (b_data b s2)) (ne_report env b SR_CUSTODY_ACCEPTED REASON_NO_ADDTL_INFO) s2 = Inr s3"
    "custody_kept held (ne_naming env) remotes s2 s3"
    using call_ok(2) [OF calls inv2] by blast
  have "accept_custody env b s = Inr s3"
    using False get_data_held [OF tx_invD(1) [OF custody_invD(1) [OF inv]] b] s1(1) s3(1)
      get_data_held [OF tx_invD(1) [OF custody_invD(1) [OF inv2]] b]
    by (simp add: accept_custody_def list_push_def h(1) flip: s2_def)
  moreover have "b_local_custody (b_data b s3)"
    using custody_kept_data [OF s3(2) b] by (simp add: eq2 d2)
  moreover have "real_link s3 l = real_link s l" for l
    using s1(2) s3(2) by (simp add: custody_kept_def tx_keeps_def) (simp add: eq2 real_link_def)
  ultimately show ?thesis
    using custody_inv_kept [OF inv2 s3(2)] by blast
qed

lemma release_custody_ok:
  assumes inv: "custody_inv held (ne_naming env) remotes s" and b: "1 \<le> held b"
  shows "\<exists>s'. release_custody env b s = Inr s' \<and> custody_inv held (ne_naming env) remotes s' \<and>
    \<not> b_local_custody (b_data b s') \<and> ns_custody s' b = [] \<and> (\<forall>l. real_link s' l = real_link s l)"
proof (cases "b_local_custody (b_data b s)")
  case False
  then have "release_custody env b s = Inr s"
    using get_data_held [OF tx_invD(1) [OF custody_invD(1) [OF inv]] b] by (simp add: release_custody_def)
  then show ?thesis using inv False custody_invD(4) [OF inv b] by auto
next
  case True
  let ?f = "\<lambda>d. d\<lparr>b_custodian := NULL_EID (ne_naming env), b_local_custody := False\<rparr>"
  let ?s1 = "set_data b ?f (cancel_custody_timers b s)"
  note bl = tx_invD(1) [OF custody_invD(1) [OF inv]]
  have bl1: "bl_inv held (ns_heap ?s1)"
    by (rule bl_inv_set_data) (simp_all add: cancel_custody_timers_def bl)
  obtain h where h: "bl_erase CUSTODY_BUNDLES b (ns_heap ?s1) = Inr (b \<in> snd ` set (h_lists (ns_heap ?s1) CUSTODY_BUNDLES), h)" "bl_inv held h"
    "same_bundles (ns_heap ?s1) h" "h_lists h CUSTODY_BUNDLES = filter (\<lambda>p. snd p \<noteq> b) (h_lists (ns_heap ?s1) CUSTODY_BUNDLES)"
    "\<And>k. k \<noteq> CUSTODY_BUNDLES \<Longrightarrow> h_lists h k = h_lists (ns_heap ?s1) k"
    using erase_held [OF bl1 b custody_list] by blast
  define s2 where "s2 = s\<lparr>ns_heap := h, ns_custody := (ns_custody s)(b := [])\<rparr>"
  have d2: "bo_data (h_bundles h c) = (if c = b then ?f (b_data b s) else b_data c s)" for c
    using h(3) by (simp add: same_bundles_def cancel_custody_timers_def)
  have inv2: "custody_inv held (ne_naming env) remotes s2"
    unfolding s2_def
    by (rule custody_inv_change [OF inv h(2), where c = False and b = b])
       (use d2 h(4,5) in \<open>auto simp: cancel_custody_timers_def in_custody_def\<close>)
  have "release_custody env b s = Inr s2"
    using True get_data_held [OF bl b] by (simp add: release_custody_def list_erase_def h(1))
      (simp add: s2_def set_data_def cancel_custody_timers_def Let_def)
  then show ?thesis
    using inv2 by (intro exI [of _ s2]) (simp add: s2_def d2 real_link_def)
qed

text \<open>A timer that is removed or has fired.\<close>

lemma custody_inv_timers:
  assumes "custody_inv held nm remotes s" "ns_custody s b \<noteq> []"
  shows "custody_inv held nm remotes (s\<lparr>ns_custody := (ns_custody s)(b := ts)\<rparr>)"
proof -
  let ?s = "s\<lparr>ns_custody := (ns_custody s)(b := ts)\<rparr>"
  have "tx_keeps held nm remotes s ?s"
    by (rule tx_keeps_cong [OF tx_keeps_refl [OF custody_invD(1) [OF assms(1)]]]) simp_all
  then show ?thesis
    using assms by (simp add: custody_inv_def tx_keeps_def data_kept_def link_lists_def in_custody_def real_link_def) blast
qed

lemma custody_kept_log:
  assumes "tx_inv held nm remotes (set_log b log s)" "tx_frame l s (set_log b log s)"
  shows "custody_kept held nm remotes s (set_log b log s)"
  using keeps_set_log [OF assms] by (simp add: custody_kept_def link_lists_def set_log_def)

lemma handle_custody_timeout_ok:
  assumes inv: "custody_inv held (ne_naming env) remotes s" and l: "real_link s l" and b: "1 \<le> held b"
  shows "\<exists>s'. handle_custody_timeout env b l s = Inr s' \<and> custody_inv held (ne_naming env) remotes s' \<and> (\<forall>k. real_link s' k = real_link s k)"
proof (cases "remove_fired l (ns_custody s b)")
  case (Pair found ts)
  show ?thesis
  proof (cases found)
    case False
    then show ?thesis using Pair inv by (simp add: handle_custody_timeout_def)
  next
    case True
    let ?s = "s\<lparr>ns_custody := (ns_custody s)(b := ts)\<rparr>"
    have "ns_custody s b \<noteq> []"
      using Pair True by auto
    note inv1 = custody_inv_timers [OF inv this, of ts]
    have l1: "real_link ?s l"
      using l by (simp add: real_link_def)
    obtain log where log: "log_update env b l CUSTODY_TIMEOUT ?s =
        Inr (by_name.view (ns_log ?s b) (lk_name (the_link l ?s)) \<noteq> None, set_log b log ?s)"
      "tx_inv held (ne_naming env) remotes (set_log b log ?s)" "tx_frame l ?s (set_log b log ?s)"
      by (rule log_update_ok [OF custody_invD(1) [OF inv1] l1])
    have "handle_custody_timeout env b l s = Inr (set_log b log ?s)"
      using contains_held [OF tx_invD(1) [OF custody_invD(1) [OF inv]] b]
      by (simp add: handle_custody_timeout_def Pair True log(1) del: fun_upd_apply)
    then show ?thesis
      using custody_inv_kept [OF inv1 custody_kept_log [OF log(2,3)]] by (intro exI [of _ "set_log b log ?s"]) (simp add: real_link_def set_log_def)
  qed
qed

lemma transmitted_tail_custody:
  assumes calls: "custody_calls held remotes env" and inv: "custody_inv held (ne_naming env) remotes s" and b: "1 \<le> held b"
    and t: "b_local_custody (b_data b s) \<Longrightarrow> \<exists>t. calculate_timeout (fi_custody_spec fi) (b_expiration (b_data b s)) = Inr t"
  shows "\<exists>s'. transmitted_tail env b l fi s = Inr s' \<and> custody_inv held (ne_naming env) remotes s' \<and> (\<forall>k. real_link s' k = real_link s k)"
proof -
  obtain s1 where s1: "do_if (b_forward_rcpt (b_data b s)) (ne_report env b SR_FORWARDED REASON_NO_ADDTL_INFO) s = Inr s1"
    "custody_kept held (ne_naming env) remotes s s1"
    using call_ok(2) [OF calls inv] by blast
  note inv1 = custody_inv_kept [OF inv s1(2)]
  have rep: "(if b_forward_rcpt (b_data b s) then ne_report env b SR_FORWARDED REASON_NO_ADDTL_INFO s else Inr s) = Inr s1"
    using s1(1) by (simp add: do_if_def)
  note obj = get_obj_held [OF custody_invD(1) [OF inv] b] get_obj_held [OF custody_invD(1) [OF inv1] b]
  have data: "b_data b s1 = b_data b s"
    by (rule custody_kept_data [OF s1(2) b])
  have real: "real_link s1 k = real_link s k" for k
    using s1(2) by (simp add: custody_kept_def tx_keeps_def)
  show ?thesis
  proof (cases "b_local_custody (b_data b s)")
    case False
    then show ?thesis
      using obj rep data inv1 real by (intro exI [of _ s1]) (simp add: transmitted_tail_def)
  next
    case True
    then obtain d where d: "calculate_timeout (fi_custody_spec fi) (b_expiration (b_data b s)) = Inr d"
      using t by blast
    let ?t = "(ns_custody s1)(b := ns_custody s1 b @ [\<lparr>ct_link = l, ct_due = add_time (fi_timestamp fi) d, ct_pending = True\<rparr>])"
    have "transmitted_tail env b l fi s = Inr (s1\<lparr>ns_custody := ?t\<rparr>)"
      using obj rep data True d by (simp add: transmitted_tail_def)
    moreover have "custody_inv held (ne_naming env) remotes (s1\<lparr>ns_heap := ns_heap s1, ns_custody := ?t\<rparr>)"
      by (rule custody_inv_change [OF inv1, where c = True and b = b])
         (use True custody_invD(3) [OF inv1 b] tx_invD(1) [OF custody_invD(1) [OF inv1]] in \<open>auto simp: data in_custody_def\<close>)
    ultimately show ?thesis
      using real by (intro exI [of _ "s1\<lparr>ns_custody := ?t\<rparr>"]) (simp add: real_link_def)
  qed
qed

subsection \<open>Custody in operation\<close>

text \<open>
  The operations on custody in any order; \<open>FireTimer\<close> is the timer system, for which the timers of
  a bundle for a link are no longer pending when they fire, and \<open>CustodyTimer::timeout\<close> posts the event.
\<close>

datatype custody_op =
    AcceptCustody bundle_ptr
  | ReleaseCustody bundle_ptr
  | StartTimer bundle_ptr link_id fwd_info
  | FireTimer bundle_ptr link_id
  | TimeoutEvent bundle_ptr link_id

definition fire_timer :: "bundle_ptr \<Rightarrow> link_id \<Rightarrow> node_sys \<Rightarrow> node_sys" where
  "fire_timer b l s =
     (if \<exists>t\<in>set (ns_custody s b). ct_link t = l \<and> ct_pending t
      then ns_post (BundleCustodyTimeout b l)
        (s\<lparr>ns_custody := (ns_custody s)(b := map (\<lambda>t. if ct_link t = l then t\<lparr>ct_pending := False\<rparr> else t) (ns_custody s b))\<rparr>)
      else s)"

fun custody_exec :: "node_env \<Rightarrow> custody_op \<Rightarrow> node_sys \<Rightarrow> node_sys res" where
  "custody_exec env (AcceptCustody b) s = accept_custody env b s"
| "custody_exec env (ReleaseCustody b) s = release_custody env b s"
| "custody_exec env (StartTimer b l fi) s = transmitted_tail env b l fi s"
| "custody_exec env (FireTimer b l) s = Inr (fire_timer b l s)"
| "custody_exec env (TimeoutEvent b l) s = handle_custody_timeout env b l s"

fun custody_run :: "node_env \<Rightarrow> custody_op list \<Rightarrow> node_sys \<Rightarrow> node_sys res" where
  "custody_run env [] s = Inr s"
| "custody_run env (x # xs) s = bindR (custody_exec env x s) (custody_run env xs)"

text \<open>Bundles are referenced, links exist, and the timer of a transmission can be computed for any lifetime.\<close>

fun custody_allowed :: "(bundle_ptr \<Rightarrow> int) \<Rightarrow> node_sys \<Rightarrow> custody_op \<Rightarrow> bool" where
  "custody_allowed held s (AcceptCustody b) = (1 \<le> held b)"
| "custody_allowed held s (ReleaseCustody b) = (1 \<le> held b)"
| "custody_allowed held s (StartTimer b l fi) = (1 \<le> held b \<and> (\<forall>e. \<exists>t. calculate_timeout (fi_custody_spec fi) e = Inr t))"
| "custody_allowed held s (FireTimer b l) = (1 \<le> held b)"
| "custody_allowed held s (TimeoutEvent b l) = (1 \<le> held b \<and> real_link s l)"

lemma fire_timer_ok:
  assumes "custody_inv held nm remotes s"
  shows "custody_inv held nm remotes (fire_timer b l s)" "real_link (fire_timer b l s) k = real_link s k"
proof -
  let ?t = "map (\<lambda>t. if ct_link t = l then t\<lparr>ct_pending := False\<rparr> else t) (ns_custody s b)"
  have "custody_inv held nm remotes (ns_post ev t)" if "custody_inv held nm remotes t" for ev t
  proof (rule custody_inv_kept [OF that])
    have "tx_keeps held nm remotes t (ns_post ev t)"
      by (rule tx_keeps_cong [OF tx_keeps_refl [OF custody_invD(1) [OF that]]]) simp_all
    then show "custody_kept held nm remotes t (ns_post ev t)"
      by (simp add: custody_kept_def link_lists_def ns_post_def post_def)
  qed
  note post = this
  show "custody_inv held nm remotes (fire_timer b l s)"
  proof (cases "\<exists>t\<in>set (ns_custody s b). ct_link t = l \<and> ct_pending t")
    case True
    then have "ns_custody s b \<noteq> []"
      by auto
    then show ?thesis
      unfolding fire_timer_def if_P [OF True] by (rule post [OF custody_inv_timers [OF assms]])
  next
    case False
    then show ?thesis
      unfolding fire_timer_def if_not_P [OF False] using assms by simp
  qed
  show "real_link (fire_timer b l s) k = real_link s k"
    by (simp add: fire_timer_def real_link_def)
qed

lemma custody_exec_ok:
  assumes calls: "custody_calls held remotes env" and inv: "custody_inv held (ne_naming env) remotes s" and ok: "custody_allowed held s x"
  shows "\<exists>s'. custody_exec env x s = Inr s' \<and> custody_inv held (ne_naming env) remotes s' \<and> (\<forall>k. real_link s' k = real_link s k)"
proof (cases x)
  case (AcceptCustody b)
  then show ?thesis using accept_custody_ok [OF calls inv, of b] ok by auto
next
  case (ReleaseCustody b)
  then show ?thesis using release_custody_ok [OF inv, of b] ok by auto
next
  case (StartTimer b l fi)
  then show ?thesis using transmitted_tail_custody [OF calls inv, of b fi l] ok by auto
next
  case (FireTimer b l)
  then show ?thesis using fire_timer_ok [OF inv] by simp
next
  case (TimeoutEvent b l)
  then show ?thesis using handle_custody_timeout_ok [OF inv, of l b] ok by auto
qed

text \<open>
  C7: the books of custody are kept. Every sequence of accepting and releasing custody, of starting
  custody timers after a transmission, of timers firing and of handling their events runs without a
  failed assertion, and in the end a bundle is on the list of bundles in custody exactly when it is
  marked as in local custody, with custody timers only then.
\<close>

theorem custody_accounts:
  assumes "custody_calls held remotes env" "custody_inv held (ne_naming env) remotes s" "\<forall>x\<in>set ops. custody_allowed held s x"
  shows "\<exists>s'. custody_run env ops s = Inr s' \<and> custody_inv held (ne_naming env) remotes s' \<and>
    (\<forall>b. 1 \<le> held b \<longrightarrow> (b \<in> in_custody s' \<longleftrightarrow> b_local_custody (b_data b s')) \<and>
       (ns_custody s' b \<noteq> [] \<longrightarrow> b_local_custody (b_data b s')))"
proof -
  have "\<exists>s'. custody_run env ops s = Inr s' \<and> custody_inv held (ne_naming env) remotes s'"
    using assms(2,3)
  proof (induction ops arbitrary: s)
    case (Cons x ops)
    obtain s1 where s1: "custody_exec env x s = Inr s1" "custody_inv held (ne_naming env) remotes s1" "\<And>k. real_link s1 k = real_link s k"
      using custody_exec_ok [OF assms(1) Cons.prems(1), of x] Cons.prems(2) by auto
    have "custody_allowed held s1 y = custody_allowed held s y" for y
      by (cases y) (simp_all add: s1(3))
    then show ?case
      using Cons.IH [OF s1(2)] Cons.prems(2) by (simp add: s1(1))
  qed simp
  then show ?thesis
    using custody_invD(3,4) by blast
qed

subsection \<open>Deleting a bundle\<close>

lemma remove_keeps_list:
  assumes "tx_inv held (ne_naming env) remotes s" "rt_inv held env n s" and b: "1 \<le> held b"
    and "remove_from_deferred_loop b actions ls s = Inr s'" "\<forall>l d. ns_deferred s l = Some d \<longrightarrow> df_list d \<noteq> k"
  shows "h_lists (ns_heap s') k = h_lists (ns_heap s) k \<and> ns_expiry s' = ns_expiry s \<and> ns_cm s' = ns_cm s"
  using assms(1,2,4,5)
proof (induction ls arbitrary: s)
  case (Cons l ls)
  note inv = Cons.prems(1,2)
  have obj: "df_find b d (ns_heap s) = Inr (df_info d (bid s b))" for d
    by (simp add: df_find_def get_obj_held [OF inv(1) b])
  consider "remove_from_deferred_loop b actions ls s = Inr s'"
    | d fi r s1 where "ns_deferred s l = Some d" "df_info d (bid s b) = Some fi" "on_deferred l (df_del b) s = Inr (r, s1)"
        "remove_from_deferred_loop b actions ls s1 = Inr s'"
    using Cons.prems(3) by (auto simp: obj bindR_eq_Inr split: option.splits if_splits)
  then show ?case
  proof cases
    case 1
    then show ?thesis using Cons.IH [OF inv] Cons.prems(4) by blast
  next
    case (2 d fi r s1)
    note ok = deferred_listD [OF rt_invD(10) [OF inv(2) 2(1)]]
    have "bid s b \<in> bid s ` deferred_on d s"
      using ok(5) 2(2) by blast
    then have on: "b \<in> deferred_on d s"
      using inj_onD [OF rt_invD(7) [OF inv(2)], of b] ok(4) b by auto
    have st: "rt_step held env remotes n s s1"
      using df_del_step [OF inv 2(1) on] 2(3) by auto
    obtain h where h: "bl_erase (df_list d) b (ns_heap s) = Inr (b \<in> snd ` set (h_lists (ns_heap s) (df_list d)), h)"
      "\<And>k. k \<noteq> df_list d \<Longrightarrow> h_lists h k = h_lists (ns_heap s) k"
      using erase_held [OF tx_invD(1) [OF inv(1)] b ok(2)] by blast
    then obtain e where e: "s1 = (set_deferred l e s)\<lparr>ns_heap := h\<rparr>" "df_list e = df_list d"
      using 2(3) by (auto simp: on_deferred_def 2(1) df_del_def bindR_eq_Inr get_obj_held [OF inv(1) b] Let_def split: if_splits)
    have k: "df_list d \<noteq> k"
      using Cons.prems(4) 2(1) by blast
    have f: "h_lists (ns_heap s1) k = h_lists (ns_heap s) k" "ns_expiry s1 = ns_expiry s" "ns_cm s1 = ns_cm s"
      using h(2) k by (simp_all add: e(1) set_deferred_def)
    have "\<forall>l d. ns_deferred s1 l = Some d \<longrightarrow> df_list d \<noteq> k"
      using Cons.prems(4) e(2) k by (simp add: e(1) set_deferred_def)
    from Cons.IH [OF rt_stepD(1,2) [OF st] 2(4) this] show ?thesis
      by (simp add: f)
  qed
qed simp

text \<open>Cancelling a bundle on a link changes the queue of the link, its counters and the events.\<close>

lemma cancel_bundle_cases:
  assumes "cancel_bundle b l s = Inr s'"
  obtains "s' = s" | found lk h where "bl_erase (lk_queue (the_link l s)) b (ns_heap s) = Inr (found, h)"
    "lk_queue lk = lk_queue (the_link l s)" "lk_deleted lk = lk_deleted (the_link l s)"
    "s' = relist l lk h s \<or> s' = ns_post (BundleSendCancelled b l) (relist l lk h s)"
proof -
  consider "s' = s" | v :: block_vec and ok t where "on_link l (del_from_queue b (total_length (bv_blocks v))) s = Inr (ok, t)"
      "s' = t \<or> s' = ns_post (BundleSendCancelled b l) t"
  proof (cases "lk_deleted (the_link l s) \<or> lbs_find_blocks l (ns_xmit s b) = None")
    case True
    then have "cancel_bundle b l s = Inr s" by (auto simp: cancel_bundle_def)
    then show thesis using assms that(1) by simp
  next
    case False
    then obtain v where v: "lbs_find_blocks l (ns_xmit s b) = Some v"
      by blast
    obtain ok t where t: "on_link l (del_from_queue b (total_length (bv_blocks v))) s = Inr (ok, t)"
      using assms False by (auto simp: cancel_bundle_def v bindR_eq_Inr split: if_splits)
    then have "s' = t \<or> s' = ns_post (BundleSendCancelled b l) t"
      using assms False by (auto simp: cancel_bundle_def v bindR_eq_Inr split: if_splits)
    then show thesis by (rule that(2) [OF t])
  qed
  then show ?thesis
  proof cases
    case 1
    then show ?thesis by (rule that(1))
  next
    case (2 v ok t)
    from 2(1) obtain lk h where lk: "del_from_queue b (total_length (bv_blocks v)) (the_link l s, ns_heap s) = Inr (ok, lk, h)"
      and t: "t = relist l lk h s"
      by (auto simp: on_link_def bindR_eq_Inr relist_def)
    from lk have "\<exists>found. bl_erase (lk_queue (the_link l s)) b (ns_heap s) = Inr (found, h) \<and>
        lk_queue lk = lk_queue (the_link l s) \<and> lk_deleted lk = lk_deleted (the_link l s)"
      by (auto simp: del_from_queue_def bindR_eq_Inr split: if_splits)
    then show ?thesis
      using that(2) 2(2) t by blast
  qed
qed

text \<open>What a deletion reads and writes besides the queues stays as it is when sending is cancelled.\<close>

definition cancel_frame :: "node_sys \<Rightarrow> node_sys \<Rightarrow> bool" where
  "cancel_frame s s' \<longleftrightarrow>
     ns_deferred s' = ns_deferred s \<and> ns_expiry s' = ns_expiry s \<and> cm_set (ns_cm s') = cm_set (ns_cm s) \<and>
     (\<forall>l. lk_queue (the_link l s') = lk_queue (the_link l s) \<and> lk_deleted (the_link l s') = lk_deleted (the_link l s)) \<and>
     (\<forall>k. set (h_lists (ns_heap s') k) \<subseteq> set (h_lists (ns_heap s) k))"

lemma cancel_frame_trans: "cancel_frame s s1 \<Longrightarrow> cancel_frame s1 s2 \<Longrightarrow> cancel_frame s s2"
  unfolding cancel_frame_def by (simp, meson subset_trans)

lemma cancel_frame_refl [simp]: "cancel_frame s s"
  by (simp add: cancel_frame_def)

lemma cancel_frame_queued: "cancel_frame s s' \<Longrightarrow> queued_on s' l \<subseteq> queued_on s l"
  unfolding cancel_frame_def queued_on_def by (metis image_mono)

lemma cancel_bundle_frame:
  assumes inv: "tx_inv held nm remotes s" "real_link s l" and b: "1 \<le> held b" and c: "cancel_bundle b l s = Inr s'"
  shows "cancel_frame s s'"
  using c
proof (cases rule: cancel_bundle_cases)
  case (2 found lk h)
  have "lk_queue (the_link l s) \<noteq> ALL_BUNDLES"
    using inv(2) by (simp add: real_link_def)
  from erase_held [OF tx_invD(1) [OF inv(1)] b this]
  have "h_lists h (lk_queue (the_link l s)) = filter (\<lambda>p. snd p \<noteq> b) (h_lists (ns_heap s) (lk_queue (the_link l s)))"
    "k \<noteq> lk_queue (the_link l s) \<Longrightarrow> h_lists h k = h_lists (ns_heap s) k" for k
    using 2(1) by auto
  then have "set (h_lists h k) \<subseteq> set (h_lists (ns_heap s) k)" for k
    by (cases "k = lk_queue (the_link l s)") auto
  then have "cancel_frame s (relist l lk h s)" "cancel_frame s (ns_post (BundleSendCancelled b l) (relist l lk h s))"
    using 2(2,3) by (simp_all add: cancel_frame_def relist_def ns_set_link_def set_link_def ns_post_def post_def)
  then show ?thesis
    using 2(4) by blast
qed simp

lemma cancel_on_links_ok:
  assumes "tx_inv held nm remotes s" and b: "1 \<le> held b" and "\<forall>l\<in>set ls. real_link s l \<and> \<not> lk_deleted (the_link l s)"
  shows "\<exists>s'. cancel_on_links b ls s = Inr s' \<and> tx_keeps held nm remotes s s' \<and> cancel_frame s s' \<and> (\<forall>l\<in>set ls. b \<notin> queued_on s' l)"
  using assms(1,3)
proof (induction ls arbitrary: s)
  case Nil
  then show ?case using tx_keeps_refl by auto
next
  case (Cons l ls)
  note inv = Cons.prems(1)
  have l: "real_link s l" "\<not> lk_deleted (the_link l s)"
    using Cons.prems(2) by simp_all
  obtain s1 where s1: "cancel_bundle b l s = Inr s1" "tx_keeps held nm remotes s s1" "queued_on s1 l = queued_on s l - {b}"
    using cancel_bundle_ok [OF inv l(1) b] l(2) by blast
  have fr1: "cancel_frame s s1"
    by (rule cancel_bundle_frame [OF inv l(1) b s1(1)])
  define t where "t = (if b \<in> queued_on s l \<or> b \<in> inflight_on s l then s1 else s)"
  have t: "tx_keeps held nm remotes s t" "cancel_frame s t" "b \<notin> queued_on t l"
    using s1 fr1 tx_keeps_refl [OF inv] by (auto simp: t_def)
  have "\<forall>l\<in>set ls. real_link t l \<and> \<not> lk_deleted (the_link l t)"
    using Cons.prems(2) tx_keepsD(2) [OF t(1)] t(2) by (simp add: cancel_frame_def)
  from Cons.IH [OF tx_keepsD(1) [OF t(1)] this] obtain s2 where
    s2: "cancel_on_links b ls t = Inr s2" "tx_keeps held nm remotes t s2" "cancel_frame t s2" "\<forall>l\<in>set ls. b \<notin> queued_on s2 l"
    by blast
  have "cancel_on_links b (l # ls) s = Inr s2"
    using s2(1) s1(1) by (cases "b \<in> queued_on s l"; cases "b \<in> inflight_on s l")
      (simp_all add: contains_queue [OF inv b] do_if_def t_def)
  moreover have "b \<notin> queued_on s2 l"
    using cancel_frame_queued [OF s2(3)] t(3) by blast
  ultimately show ?case
    using tx_keeps_trans [OF t(1) s2(2)] cancel_frame_trans [OF t(2) s2(3)] s2(4) by auto
qed

text \<open>
  What the fragmentation manager, sessions and registrations do when a bundle is deleted is outside the
  state that is looked at here.
\<close>

definition deletion_calls :: "node_env \<Rightarrow> bool" where
  "deletion_calls env \<longleftrightarrow>
     (\<forall>b s. \<exists>s'. ne_delete_fragment env b s = Inr s' \<and> ns_heap s' = ns_heap s \<and> ns_cm s' = ns_cm s \<and> ns_log s' = ns_log s \<and>
        ns_xmit s' = ns_xmit s \<and> ns_deferred s' = ns_deferred s \<and> ns_routes s' = ns_routes s) \<and>
     (\<forall>b s. \<exists>s'. ne_session_erase env b s = Inr s' \<and> ns_heap s' = ns_heap s \<and> ns_cm s' = ns_cm s \<and> ns_log s' = ns_log s \<and>
        ns_xmit s' = ns_xmit s \<and> ns_deferred s' = ns_deferred s \<and> ns_expiry s' = ns_expiry s) \<and>
     (\<forall>r b s. \<exists>s'. ne_reg_delete env r b s = Inr s' \<and> ns_heap s' = ns_heap s \<and> ns_cm s' = ns_cm s \<and> ns_log s' = ns_log s \<and>
        ns_xmit s' = ns_xmit s \<and> ns_deferred s' = ns_deferred s \<and> ns_expiry s' = ns_expiry s)"

lemma delete_on_regs_ok:
  assumes "deletion_calls env"
  shows "\<exists>s'. delete_on_regs env b rs s = Inr s' \<and> ns_heap s' = ns_heap s \<and> ns_cm s' = ns_cm s \<and> ns_log s' = ns_log s \<and>
    ns_xmit s' = ns_xmit s \<and> ns_deferred s' = ns_deferred s \<and> ns_expiry s' = ns_expiry s"
proof (induction rs arbitrary: s)
  case (Cons r rs)
  obtain s1 where s1: "ne_reg_delete env (rg_regid r) b s = Inr s1" "ns_heap s1 = ns_heap s" "ns_cm s1 = ns_cm s" "ns_log s1 = ns_log s"
    "ns_xmit s1 = ns_xmit s" "ns_deferred s1 = ns_deferred s" "ns_expiry s1 = ns_expiry s"
    using assms unfolding deletion_calls_def by blast
  show ?case
    using Cons.IH [of s1] by (simp add: s1)
qed simp

lemma same_fields:
  assumes "ns_heap s' = ns_heap s" "ns_cm s' = ns_cm s" "ns_log s' = ns_log s" "ns_xmit s' = ns_xmit s"
  shows "tx_inv held nm remotes s' = tx_inv held nm remotes s" "real_link s' l = real_link s l" "queued_on s' l = queued_on s l"
  using tx_inv_cong [of s' s] assms by (simp_all add: queued_on_def real_link_def)

lemma rt_inv_same:
  assumes "ns_heap s' = ns_heap s" "ns_cm s' = ns_cm s" "ns_log s' = ns_log s" "ns_deferred s' = ns_deferred s" "ns_routes s' = ns_routes s"
  shows "rt_inv held env n s' = rt_inv held env n s"
  by (simp add: rt_inv_def deferred_ok_def deferred_list_ok_def logs_ok_def rt_ready_def deferred_on_def real_link_def link_lists_def assms)

text \<open>Erasing a bundle from the pending list.\<close>

lemma delete_from_pending_ok:
  assumes inv: "tx_inv held nm remotes s" and b: "1 \<le> held b" and apart: "\<forall>l. real_link s l \<longrightarrow> PENDING_BUNDLES \<notin> link_lists s l"
  shows "\<exists>s'. delete_from_pending b s = Inr (b \<in> set (pending s), s') \<and> tx_inv held nm remotes s' \<and> b \<notin> set (pending s') \<and>
    ns_cm s' = ns_cm s \<and> ns_deferred s' = ns_deferred s \<and> ns_expiry s' b = None"
proof -
  have "PENDING_BUNDLES \<noteq> ALL_BUNDLES"
    by (simp add: PENDING_BUNDLES_def ALL_BUNDLES_def)
  from erase_held [OF tx_invD(1) [OF inv] b this] obtain h where
    h: "bl_erase PENDING_BUNDLES b (ns_heap s) = Inr (b \<in> snd ` set (h_lists (ns_heap s) PENDING_BUNDLES), h)" "bl_inv held h"
    "h_lists h PENDING_BUNDLES = filter (\<lambda>p. snd p \<noteq> b) (h_lists (ns_heap s) PENDING_BUNDLES)"
    "\<And>k. k \<noteq> PENDING_BUNDLES \<Longrightarrow> h_lists h k = h_lists (ns_heap s) k"
    by blast
  define s' where "s' = s\<lparr>ns_expiry := (ns_expiry s)(b := None), ns_heap := h\<rparr>"
  have "tx_inv held nm remotes s'"
  proof (rule tx_inv_change(1) [OF inv])
    show "h_lists (ns_heap s') k = h_lists (ns_heap s) k" if "real_link s l" "k \<in> link_lists s l" for l k
      using h(4) [of k] apart that by (cases "k = PENDING_BUNDLES") (auto simp: s'_def)
  qed (simp_all add: s'_def h(2))
  moreover have "b \<notin> set (pending s')"
    by (auto simp: s'_def pending_def h(3))
  moreover have "delete_from_pending b s = Inr (b \<in> set (pending s), s')"
    by (simp add: delete_from_pending_def list_erase_def h(1) pending_def s'_def)
  ultimately show ?thesis
    by (intro exI [of _ s']) (simp add: s'_def)
qed

text \<open>
  C4: a deleted bundle is gone from the node. Deleting a pending bundle that is not in local custody
  and asks for no report never fails: afterwards the bundle is not pending and has no
  expiration timer, no link has it in its queue, no link has it deferred, and the books of the links
  are still in order.
\<close>

theorem deleted_bundle_gone:
  assumes "deletion_calls env" "tx_inv held (ne_naming env) remotes s" "rt_inv held env n s" "1 \<le> held b"
    and "\<not> b_local_custody (b_data b s)" "\<not> b_deletion_rcpt (b_data b s)"
    and apart: "\<forall>l. real_link s l \<longrightarrow> PENDING_BUNDLES \<notin> link_lists s l" "\<forall>l d. ns_deferred s l = Some d \<longrightarrow> df_list d \<noteq> PENDING_BUNDLES"
    and links: "\<forall>l\<in>set (cm_set (ns_cm s)). real_link s l \<and> \<not> lk_deleted (the_link l s)" and pend: "b \<in> set (pending s)"
  shows "\<exists>s'. daemon_delete_bundle env b reason s = Inr (True, s') \<and> tx_inv held (ne_naming env) remotes s' \<and>
    b \<notin> set (pending s') \<and> ns_expiry s' b = None \<and>
    (\<forall>l\<in>set (cm_set (ns_cm s)). b \<notin> queued_on s' l \<and>
       (\<forall>d fi. ns_deferred s' l = Some d \<and> df_info d (bid s b) = Some fi \<longrightarrow> fi_action fi = INVALID_ACTION))"
proof -
  have quiet: "\<exists>s'. do_if c (ne_delete_fragment env b) s = Inr s' \<and> ns_heap s' = ns_heap s \<and> ns_cm s' = ns_cm s \<and> ns_log s' = ns_log s \<and>
      ns_xmit s' = ns_xmit s \<and> ns_deferred s' = ns_deferred s \<and> ns_routes s' = ns_routes s" for c s
    using assms(1) unfolding deletion_calls_def do_if_def by (cases c) simp_all
  define t where "t = s\<lparr>ns_stats := (ns_stats s)\<lparr>ds_deleted := ds_deleted (ns_stats s) + 1\<rparr>\<rparr>"
  obtain s0 where f0: "ns_heap s0 = ns_heap s" "ns_cm s0 = ns_cm s" "ns_log s0 = ns_log s" "ns_xmit s0 = ns_xmit s"
    "ns_deferred s0 = ns_deferred s" "ns_routes s0 = ns_routes s" and frag: "do_if (b_is_fragment (b_data b s)) (ne_delete_fragment env b) t = Inr s0"
    using quiet [of "b_is_fragment (b_data b s)" t] by (auto simp: t_def)
  have inv0: "tx_inv held (ne_naming env) remotes s0" "rt_inv held env n s0"
    using assms(2,3) by (simp_all add: same_fields(1) [OF f0(1-4)] rt_inv_same [OF f0(1-3,5,6)])
  obtain s1 where s1: "remove_from_deferred b ANY_ACTION s0 = Inr s1" "rt_step held env remotes n s0 s1"
    "\<forall>l d. l \<in> set (cm_set (ns_cm s)) \<longrightarrow> ns_deferred s1 l = Some d \<longrightarrow>
       (\<forall>fi. df_info d (bid s b) = Some fi \<longrightarrow> fwd_action_code (fi_action fi) AND ANY_ACTION = 0)"
    using remove_from_deferred_step [OF inv0 assms(4), of ANY_ACTION "cm_set (ns_cm s)"]
    unfolding remove_from_deferred_def f0 by blast
  have k1: "h_lists (ns_heap s1) PENDING_BUNDLES = h_lists (ns_heap s) PENDING_BUNDLES" "ns_cm s1 = ns_cm s"
    using remove_keeps_list [OF inv0 assms(4) s1(1) [unfolded remove_from_deferred_def]] apart(2) by (simp_all add: f0)
  obtain s2 where s2: "ne_session_erase env b s1 = Inr s2" "ns_heap s2 = ns_heap s1" "ns_cm s2 = ns_cm s1" "ns_log s2 = ns_log s1"
    "ns_xmit s2 = ns_xmit s1" "ns_deferred s2 = ns_deferred s1"
    using assms(1) unfolding deletion_calls_def by blast
  have inv2: "tx_inv held (ne_naming env) remotes s2"
    using rt_stepD(1) [OF s1(2)] by (simp add: same_fields(1) [OF s2(2-5)])
  have real2: "real_link s2 l = real_link s l" "link_lists s2 l = link_lists s l" for l
    by (simp_all add: real_link_def link_lists_def s2(3) k1(2))
  have pend2: "b \<in> set (pending s2)"
    using pend by (simp add: pending_def s2(2) k1(1))
  obtain s3 where s3: "delete_from_pending b s2 = Inr (True, s3)" "tx_inv held (ne_naming env) remotes s3" "b \<notin> set (pending s3)"
    "ns_cm s3 = ns_cm s2" "ns_deferred s3 = ns_deferred s2" "ns_expiry s3 b = None"
    using delete_from_pending_ok [OF inv2 assms(4)] apart(1) pend2 by (auto simp: real2)
  have "\<forall>l\<in>set (cm_set (ns_cm s)). real_link s3 l \<and> \<not> lk_deleted (the_link l s3)"
    using links by (simp add: real_link_def s3(4) s2(3) k1(2))
  from cancel_on_links_ok [OF s3(2) assms(4) this] obtain s4 where
    s4: "cancel_on_links b (cm_set (ns_cm s)) s3 = Inr s4" "tx_keeps held (ne_naming env) remotes s3 s4" "cancel_frame s3 s4"
    "\<forall>l\<in>set (cm_set (ns_cm s)). b \<notin> queued_on s4 l"
    by blast
  obtain s5 where s5: "delete_on_regs env b (reg_get_matching env (b_dest (b_data b s)) s4) s4 = Inr s5" "ns_heap s5 = ns_heap s4"
    "ns_cm s5 = ns_cm s4" "ns_log s5 = ns_log s4" "ns_xmit s5 = ns_xmit s4" "ns_deferred s5 = ns_deferred s4" "ns_expiry s5 = ns_expiry s4"
    using delete_on_regs_ok [OF assms(1)] by blast
  have x2: "get_obj b (ns_heap s2) = Inr (h_bundles (ns_heap s2) b)" "is_queued_on PENDING_BUNDLES (h_bundles (ns_heap s2) b)"
    using get_obj_held [OF inv2 assms(4)] linked_queued [OF bl_inv_linked held_alive(1)] tx_invD(1) [OF inv2] assms(4) pend2
    by (simp_all add: pending_def)
  have "get_data b s = Inr (b_data b s)"
    by (rule get_data_held [OF tx_invD(1) [OF assms(2)] assms(4)])
  then have "daemon_delete_bundle env b reason s = Inr (True, s5)"
    using assms(5,6) by (simp add: daemon_delete_bundle_def tr_delete_bundle_def frag s1(1) s2(1) x2 s3(1,4) s4(1) s5(1) s2(3) k1(2) flip: t_def)
  moreover have "tx_inv held (ne_naming env) remotes s5"
    using tx_keepsD(1) [OF s4(2)] by (simp add: same_fields(1) [OF s5(2-5)])
  moreover have "b \<notin> set (pending s5)" "ns_expiry s5 b = None"
    using s3(3,6) s4(3) by (auto simp: pending_def s5(2,7) cancel_frame_def)
  moreover have "fi_action fi = INVALID_ACTION"
    if "l \<in> set (cm_set (ns_cm s))" "ns_deferred s5 l = Some d" "df_info d (bid s b) = Some fi" for l d fi
  proof -
    have "ns_deferred s1 l = Some d"
      using that(2) s4(3) s3(5) s2(6) by (simp add: s5(6) cancel_frame_def)
    then have "fwd_action_code (fi_action fi) AND ANY_ACTION = 0"
      using s1(3) that(1,3) by blast
    then show ?thesis
      by (cases "fi_action fi") (simp_all add: ANY_ACTION_def)
  qed
  moreover have "b \<notin> queued_on s5 l" if "l \<in> set (cm_set (ns_cm s))" for l
    using s4(4) that by (simp add: same_fields(3) [OF s5(2-5)])
  ultimately show ?thesis by blast
qed

subsection \<open>Examples\<close>

text \<open>The sample bundle made pending, and with a lifetime that is too long.\<close>

definition sample_pending :: node_sys where
  "sample_pending = (case list_push PENDING_BUNDLES 7 sample_router of Inr s \<Rightarrow> s | Inl _ \<Rightarrow> sample_router)"

definition sample_eternal :: node_sys where
  "sample_eternal = set_data 7 (\<lambda>d. d\<lparr>b_expiration := 0x80000000\<rparr>) sample_router"

theorem find_duplicate_exact_witness:
  "\<exists>b. find_duplicate sample_node_env sample_sent sample_pending = Some b \<and> b \<in> set (pending sample_pending)"
proof -
  have "pending sample_pending = [7] \<and> is_duplicate sample_sent (b_data 7 sample_pending)"
    by code_simp
  then show ?thesis
    using find_duplicate_exact [of sample_node_env sample_sent sample_pending] by auto
qed

theorem add_to_pending_exact_witness:
  "(\<exists>s'. add_to_pending sample_node_env 7 True sample_router = Inr (True, s') \<and> pending s' = [7]) \<and>
    add_to_pending sample_node_env 7 True sample_eternal = Inl ASSERT"
proof -
  have inv: "bl_inv (s_held sample_run) (ns_heap sample_router)" "bl_inv (s_held sample_run) (ns_heap sample_eternal)"
    unfolding sample_eternal_def using tx_invD(1) [OF sample_router_inv(1)] by (simp_all add: bl_inv_set_data)
  have h: "1 \<le> s_held sample_run 7" "pending sample_router = []" "pending sample_eternal = []"
    by (simp_all add: sample_heap pending_def PENDING_BUNDLES_def ALL_BUNDLES_def sample_eternal_def)
  have d: "seconds (b_creation_ts (b_data 7 sample_router)) \<noteq> 0 \<and>
      bv_find_block (of_nat AGE_BLOCK) (b_recv_blocks (b_data 7 sample_router)) = Inr None \<and>
      expiration_sum (b_data 7 sample_router) = 1000003600"
    by code_simp
  have now: "expiration_sum (b_data 7 sample_router) \<le> INT_MAX"
      "unat (fst (ne_now sample_node_env)) < unat (expiration_sum (b_data 7 sample_router))"
    using d by (simp_all add: INT_MAX_def sample_node_env_def)
  have e: "seconds (b_creation_ts (b_data 7 sample_eternal)) \<noteq> 0 \<and>
      bv_find_block (of_nat AGE_BLOCK) (b_recv_blocks (b_data 7 sample_eternal)) = Inr None \<and>
      INT_MAX < expiration_sum (b_data 7 sample_eternal)"
    by code_simp
  show ?thesis
    using add_to_pending_exact [OF inv(1) h(1), of sample_node_env True] add_to_pending_exact [OF inv(2) h(1), of sample_node_env True] d e h(2,3) now
    by auto
qed

text \<open>The bundle, no fragment, marked for delivery to a registration.\<close>

definition sample_reg :: "bool \<Rightarrow> registration" where
  "sample_reg api = \<lparr>rg_regid = 3, rg_endpoint = example_eid, rg_api = api, rg_session_flags = 0\<rparr>"

definition sample_local :: "bool \<Rightarrow> node_sys" where
  "sample_local api =
     (mark_pending sample_node_env 7 (sample_reg api) (set_data 7 (\<lambda>d. d\<lparr>b_is_fragment := False\<rparr>) sample_router))
       \<lparr>ns_regs := [sample_reg api]\<rparr>"

lemma sample_local_facts:
  "get_data 7 (sample_local api) = Inr (b_data 7 (sample_local api))" "\<not> b_is_fragment (b_data 7 (sample_local api))"
  "ns_log (sample_local api) 7 = [fwd_info_new (1000, 0) PENDING_DELIVERY FORWARD_ACTION (reg_link_name 3) 3 example_eid custody_defaults]"
  "ne_deliver sample_node_env r b s = Inr (True, s)" "reg_get 3 (sample_local api) = Some (sample_reg api)"
proof -
  have "bl_inv (s_held sample_run) (ns_heap (set_data 7 (\<lambda>d. d\<lparr>b_is_fragment := False\<rparr>) sample_router))"
    using tx_invD(1) [OF sample_router_inv(1)] by (intro bl_inv_set_data) simp_all
  moreover have "ns_heap (sample_local api) = ns_heap (set_data 7 (\<lambda>d. d\<lparr>b_is_fragment := False\<rparr>) sample_router)"
    by (simp add: sample_local_def mark_pending_def ns_post_def set_log_def)
  ultimately show "get_data 7 (sample_local api) = Inr (b_data 7 (sample_local api))"
    by (intro get_data_held [of "s_held sample_run"]) (simp_all add: sample_heap(2))
qed (simp_all add: sample_local_def mark_pending_def ns_post_def set_log_def add_entry_reg_def sample_reg_def sample_node_env_def reg_get_def)


theorem local_bundle_kept_witness:
  "\<exists>s. handle_deliver_bundle_to_reg sample_node_env 7 3 (sample_local False) = Inr s \<and>
    try_to_delete sample_node_env 7 s = Inr (False, s)"
proof -
  let ?log = "ns_log (sample_local False) 7"
  have "get_latest_state_reg (ne_naming sample_node_env) (sample_reg False) ?log = Inr PENDING_DELIVERY \<and>
      get_count (fwd_state_code TRANSMITTED OR fwd_state_code DELIVERED) ANY_ACTION ?log = 0"
    by code_simp
  then show ?thesis
    using local_bundle_kept [of 7 "sample_local False" "b_data 7 (sample_local False)" 3 "sample_reg False" sample_node_env
        "sample_local False"] sample_local_facts(1,2,5) [of False] sample_local_facts(4)
    by (intro exI [of _ "sample_local False"]) (simp add: sample_reg_def SESSION_PUBLISH_def del: fwd_state_code.simps)
qed

definition sample_custody_env :: node_env where
  "sample_custody_env = sample_node_env\<lparr>ne_local_eid := eid_default\<rparr>"

theorem custody_accounts_witness:
  "\<exists>s. custody_run sample_custody_env [AcceptCustody 7] sample_router = Inr s \<and> 7 \<in> in_custody s"
proof -
  have calls: "custody_calls (s_held sample_run) (\<lambda>_. NULL_EID simple_naming) sample_custody_env"
    by (simp add: custody_calls_def sample_custody_env_def sample_node_env_def custody_kept_refl)
  have "ns_custody sample_router = (\<lambda>_. [])"
    by (simp add: sample_router_def sample_node_def Let_def)
  moreover have "\<not> b_local_custody (sample_sent\<lparr>b_freed := False\<rparr>)"
    by code_simp
  ultimately have inv: "custody_inv (s_held sample_run) (ne_naming sample_custody_env) (\<lambda>_. NULL_EID simple_naming) sample_router"
    using sample_router_inv sample_run_held
    by (auto dest!: sample_run_held simp: custody_inv_def sample_custody_env_def in_custody_def sample_heap CUSTODY_BUNDLES_def ALL_BUNDLES_def link_lists_def)
  have "case custody_run sample_custody_env [AcceptCustody 7] sample_router of Inl _ \<Rightarrow> False | Inr s \<Rightarrow> b_local_custody (b_data 7 s)"
    by code_simp
  then show ?thesis
    using custody_accounts [OF calls inv, of "[AcceptCustody 7]"] sample_heap(2) by (auto split: sum.split_asm)
qed

text \<open>A list that is neither one of a link nor a deferred one.\<close>

lemma list_push_step:
  assumes inv: "tx_inv held (ne_naming env) remotes s" "rt_inv held env n s" and b: "1 \<le> held b" and k: "k \<noteq> ALL_BUNDLES"
    and new: "b \<notin> snd ` set (h_lists (ns_heap s) k)" and apart: "\<forall>l. real_link s l \<longrightarrow> k \<notin> link_lists s l"
    "\<forall>l d. ns_deferred s l = Some d \<longrightarrow> df_list d \<noteq> k"
  shows "\<exists>s'. list_push k b s = Inr s' \<and> rt_step held env remotes n s s' \<and> ns_deferred s' = ns_deferred s \<and> ns_cm s' = ns_cm s \<and>
    h_lists (ns_heap s') k = h_lists (ns_heap s) k @ [(h_next (ns_heap s), b)]"
proof -
  obtain h where h: "bl_push_back k b (ns_heap s) = Inr h" "bl_inv held h" "same_bundles (ns_heap s) h"
    "h_lists h k = h_lists (ns_heap s) k @ [(h_next (ns_heap s), b)]"
    "\<And>j. j \<noteq> k \<Longrightarrow> j \<noteq> ALL_BUNDLES \<Longrightarrow> h_lists h j = h_lists (ns_heap s) j"
    using push_back_held [OF tx_invD(1) [OF inv(1)] b k new] by blast
  define s' where "s' = s\<lparr>ns_heap := h\<rparr>"
  have "h_lists (ns_heap s') j = h_lists (ns_heap s) j" if "real_link s l" "j \<in> link_lists s l" for j l
    using h(5) [of j] apart(1) that link_okD(2) [OF tx_invD(4) [OF inv(1) that(1)]]
    by (auto simp: s'_def link_lists_def real_link_def inflight.ok_def)
  then have t: "tx_inv held (ne_naming env) remotes s'" "\<And>l. real_link s' l = real_link s l"
    by (intro tx_inv_change [OF inv(1)]; simp add: s'_def h(2))+
  have data: "b_data c s' = b_data c s" for c
    using h(3) by (simp add: s'_def same_bundles_def)
  have keeps: "tx_keeps held (ne_naming env) remotes s s'"
    using t by (simp add: tx_keeps_def data_kept_def data)
  have kept: "rt_kept s s'" "ns_deferred s' = ns_deferred s"
    by (simp_all add: rt_kept_def link_kept_def s'_def)
  have "h_lists (ns_heap s') (df_list d) = h_lists (ns_heap s) (df_list d)" if "ns_deferred s l = Some d" for l d
    using h(5) apart(2) that deferred_listD(2) [OF rt_invD(10) [OF inv(2) that]] by (simp add: s'_def)
  from deferred_kept [OF rt_invD(1) [OF inv(2)] keeps kept this]
  have "rt_inv held env n s'"
    using rt_ready_kept [OF rt_invD(3) [OF inv(2)] keeps kept(1)] rt_invD(2) [OF inv(2)]
    by (simp add: rt_inv_def logs_ok_def data) (simp add: s'_def)
  then show ?thesis
    using keeps kept h(1,4) by (intro exI [of _ s']) (simp add: rt_step_def list_push_def s'_def)
qed

theorem deleted_bundle_gone_witness:
  "\<exists>s. daemon_delete_bundle sample_node_env 7 REASON_LIFETIME_EXPIRED sample_pending = Inr (True, s) \<and>
    7 \<in> set (pending sample_pending) \<and> 7 \<notin> set (pending s) \<and> 7 \<notin> queued_on s 5"
proof -
  have "7 \<notin> snd ` set (h_lists (ns_heap sample_router) PENDING_BUNDLES)" "PENDING_BUNDLES \<noteq> ALL_BUNDLES"
    "\<forall>l. real_link sample_router l \<longrightarrow> PENDING_BUNDLES \<notin> link_lists sample_router l"
    "\<forall>l d. ns_deferred sample_router l = Some d \<longrightarrow> df_list d \<noteq> PENDING_BUNDLES" and b: "1 \<le> s_held sample_run 7"
    by (auto simp: sample_heap PENDING_BUNDLES_def ALL_BUNDLES_def sample_router_inv(2) link_lists_def)
  note apart = this
  obtain s' where s': "list_push PENDING_BUNDLES 7 sample_router = Inr s'"
    "rt_step (s_held sample_run) sample_node_env (\<lambda>_. NULL_EID simple_naming) 100 sample_router s'"
    "ns_deferred s' = ns_deferred sample_router" "ns_cm s' = ns_cm sample_router"
    "h_lists (ns_heap s') PENDING_BUNDLES = h_lists (ns_heap sample_router) PENDING_BUNDLES @ [(h_next (ns_heap sample_router), 7)]"
    using list_push_step [OF sample_ok(3,4) b apart(2,1,3,4)] by blast
  have s: "sample_pending = s'"
    by (simp add: sample_pending_def s'(1))
  have calls: "deletion_calls sample_node_env"
    by (simp add: deletion_calls_def sample_node_env_def)
  have flags: "\<not> b_local_custody (b_data 7 s')" "\<not> b_deletion_rcpt (b_data 7 s')"
  proof -
    have "\<not> b_local_custody (sample_sent\<lparr>b_freed := False\<rparr>) \<and> \<not> b_deletion_rcpt (sample_sent\<lparr>b_freed := False\<rparr>)"
      by code_simp
    then show "\<not> b_local_custody (b_data 7 s')" "\<not> b_deletion_rcpt (b_data 7 s')"
      by (simp_all add: rt_stepD(5) [OF s'(2) b] sample_heap(4))
  qed
  have rest: "\<forall>l. real_link s' l \<longrightarrow> PENDING_BUNDLES \<notin> link_lists s' l" "\<forall>l d. ns_deferred s' l = Some d \<longrightarrow> df_list d \<noteq> PENDING_BUNDLES"
    "\<forall>l\<in>set (cm_set (ns_cm s')). real_link s' l \<and> \<not> lk_deleted (the_link l s')" "7 \<in> set (pending s')"
    using apart by (simp_all add: s' rt_stepD(3) [OF s'(2)] sample_router_inv(2) link_lists_def pending_def) (simp add: link_new_def)
  from deleted_bundle_gone [OF calls rt_stepD(1,2) [OF s'(2)] b flags rest, of REASON_LIFETIME_EXPIRED]
  show ?thesis
    unfolding s using rest(4) by (auto simp: s'(4))
qed

end
