(* ===== verification/Spec2Isabelle.thy ===== *)
theory Spec2Isabelle
  imports Validation AdminRecords BundleLists PayloadWalk LinkLifecycle TransmissionRuns DaemonRuns
begin

text \<open>
  A verification of the bundle layer of DTN2, the reference implementation of the Bundle
  Protocol (RFC 5050). The code is C++ under \<open>src/servlib\<close>; this development models the classes
  that turn a bundle into bytes and back, that cut it into fragments and put it together again,
  that store its payload, and that keep it alive in memory (\<open>src/servlib/bundling\<close>), the endpoint
  identifiers and patterns they use (\<open>src/servlib/naming\<close>), the links and the contact manager
  (\<open>src/servlib/contacts\<close>), the route table and the table-based router (\<open>src/servlib/routing\<close>), and
  the daemon with its handlers for bundle, link and contact events.

  \<^bold>\<open>The program.\<close> A \<^emph>\<open>bundle\<close> has header fields, a payload in memory or in a file, and lists of
  \<^emph>\<open>blocks\<close>: the blocks it was received with, the blocks an application asked for, and the blocks
  made for each outgoing link. A block is owned by a \<^emph>\<open>block processor\<close>, one per block type;
  \<open>BundleProtocol\<close> drives the processors of all blocks to receive, validate, prepare, generate and
  produce a bundle. Endpoint identifiers are sent as offsets into a \<^emph>\<open>dictionary\<close> in the primary
  block. The fragment manager splits bundles and reassembles them. Bundles are shared by lists
  and by counted references; when the last one is dropped the daemon gets an event and deletes the
  bundle. The \<^emph>\<open>daemon\<close> handles one event at a time: it puts a received bundle on the pending list,
  takes custody, delivers it to registrations, and passes the event to the \<^emph>\<open>router\<close>, which looks up
  routes and either queues the bundle on a \<^emph>\<open>link\<close> or defers it until the link has room. A
  convergence layer takes bundles from the queue of its link and posts events when they are sent or
  cancelled. Each bundle has a \<^emph>\<open>forwarding log\<close>, from which all these decisions are made.

  \<^bold>\<open>Theories\<close>, in the order of their dependencies.

  \<^item> \<open>DTN_Prelude\<close>: machine types, faults, and generic lemmas. An \<open>ASSERT\<close>, \<open>PANIC\<close>, \<open>NOTREACHED\<close>
    or an access outside an object is a value of type \<open>fault\<close>; code that may end in one returns
    \<open>'a res\<close>. A theorem whose conclusion is an equation \<open>f x = Inr y\<close> thus also says that no
    assertion fails and no access is out of bounds.
  \<^item> \<open>SDNV\<close> (\<open>SDNV.cc\<close>): the self-delimiting numbers of the wire format on 64-bit words. Decoding
    inverts encoding, accepts exactly the complete encodings that fit 64 bits, and the encoding
    is the shortest one.
  \<^item> \<open>Timestamp\<close> (\<open>BundleTimestamp.cc\<close>, \<open>BundleProtocol::set_timestamp\<close>): order, clock
    conversion, and the wire form with its round trip.
  \<^item> \<open>Endpoint\<close> (\<open>EndpointID.cc\<close>): the URI parser of oasys and the table of schemes are the
    parameter \<open>naming\<close>.
  \<^item> \<open>SequenceID\<close> (\<open>SequenceID.cc\<close>): sequence vectors, whose comparison is the pointwise order and
    whose update is the pointwise maximum.
  \<^item> \<open>Dictionary\<close> (\<open>Dictionary.cc\<close>): refines a list of distinct strings; identifiers entered by a
    sender are found by a receiver of its bytes; looking up arbitrary offsets is safe.
  \<^item> \<open>BlockInfo\<close> (\<open>BlockInfo.cc\<close>): blocks, block lists, and the sets of lists per link.
  \<^item> \<open>Payload\<close> (\<open>BundlePayload.cc\<close>): memory and file payloads with the cached file position; reads
    and writes behave like those of an array, except in the two cases shown as errors.
  \<^item> \<open>Bundle\<close> (\<open>Bundle.h\<close>, \<open>Bundle.cc\<close>): the bundle record, its initialisation, \<open>copy_metadata\<close>.
  \<^item> \<open>BlockProcessor\<close> (\<open>BlockProcessor.cc\<close>): the base class. A generated block that is received in
    any pieces gives the same contents, references and lengths.
  \<^item> \<open>PrimaryBlock\<close> (\<open>PrimaryBlockProcessor.cc\<close>): round trip of the header, of the flags and of
    compressed \<open>ipn\<close> identifiers; safety on arbitrary input.
  \<^item> \<open>Fragment\<close> (\<open>FragmentManager.cc\<close>, \<open>FragmentState.cc\<close>): fragments in any order of arrival are
    reassembled to the payload; \<open>check_completed\<close> decides whether they cover it.
  \<^item> \<open>ExtBlocks\<close>, \<open>PayloadWalk\<close>: the payload, unknown, previous-hop, session, age, sequence-id and
    API block processors, and how a payload block is shown to a digest or a cipher in pieces.
  \<^item> \<open>BundleProtocol\<close> (\<open>BundleProtocol.cc\<close>): the table of processors and the loops over the blocks
    of a bundle. The locale \<open>block_receiver\<close> is what the receiving loop relies on for one block;
    the reception of a sequence of blocks is proved once from it.
  \<^item> \<open>Transmission\<close>: interprets \<open>block_receiver\<close> for the primary, previous-hop and payload
    processors (by way of \<open>ext_receiver\<close>, the contract of the processors that parse a complete
    block) and \<open>block_sender\<close> for the methods \<open>produce\<close>, and composes them: a bundle that one node
    prepares, generates and produces is received completely by another one, in any pieces.
  \<^item> \<open>Validation\<close>: the shape of every bundle that \<open>BundleProtocol::validate\<close> accepts.
  \<^item> \<open>AdminRecords\<close> (\<open>BundleStatusReport.cc\<close>, \<open>CustodySignal.cc\<close>): round trips of both records.
  \<^item> \<open>BundleLists\<close> (\<open>BundleList.cc\<close>, \<open>BundleMappings.cc\<close>, \<open>GbofId.cc\<close>, the counter in \<open>Bundle.cc\<close>,
    \<open>BundleDaemon::handle_bundle_free\<close>): an explicit heap of bundles and lists with a step
    function, the invariant of its reachable states by rule induction, that no operation its
    callers may make violates an assertion, and that a bundle without references is deleted.
  \<^item> \<open>ForwardingLog\<close> (\<open>ForwardingLog.cc\<close>, \<open>ForwardingInfo.cc\<close>, \<open>CustodyTimer.cc\<close>): the log refines a
    map from keys to states. The locale \<open>log_key\<close> is the contract of a key, interpreted for the
    names of links and for the identifiers of registrations.
  \<^item> \<open>Link\<close> (\<open>Link.cc\<close>): links with their state, parameters, two lists of bundles and counters. The
    locale \<open>link_list\<close> is the interface of a list with its counters, interpreted for both lists.
  \<^item> \<open>ContactManager\<close> (\<open>ContactManager.cc\<close>, the handlers for links and contacts of
    \<open>BundleDaemon.cc\<close>) and \<open>LinkLifecycle\<close>: the events of links as a step relation; the invariant of
    its reachable states, that no event fails an assertion but for one race, and that a broken link
    is opened again.
  \<^item> \<open>Naming\<close> (\<open>Scheme.cc\<close> and the scheme classes, \<open>EndpointIDPattern\<close>): which endpoints a pattern
    matches.
  \<^item> \<open>RouteTable\<close> (\<open>RouteTable.cc\<close>, \<open>RouteEntry.cc\<close>): the lookup through chains of routes ends and
    is sound and complete for a relation \<open>routed\<close>.
  \<^item> \<open>Actions\<close> (\<open>BundleActions.cc\<close>, the handlers of \<open>BundleDaemon.cc\<close> for sent and cancelled bundles,
    \<open>StreamConvergenceLayer.cc\<close>): the state of a node, and queueing, sending and cancelling on it.
    \<open>TransmissionQueue\<close> and \<open>TransmissionRuns\<close> show that every sequence of these operations keeps
    the books of the links (\<open>tx_inv\<close>); the locale \<open>node_list\<close> extends \<open>link_list\<close> to lists of links
    of a node.
  \<^item> \<open>Router\<close> (\<open>BundleRouter.cc\<close>, \<open>TableBasedRouter.cc\<close>): the decision to forward, deferred lists,
    routing and rerouting. \<open>RouterRuns\<close>: the decision is the specification \<open>should_fwd_spec\<close>, routing
    keeps the books, the deferred lists and the logs (\<open>rt_inv\<close>), a bundle for a single node is
    forwarded once, and the queue of an unavailable link is emptied.
  \<^item> \<open>Daemon\<close> (\<open>BundleDaemon.cc\<close>, \<open>RegistrationTable.cc\<close>): custody, delivery, the pending list,
    duplicates, deletion, the handlers of bundle events and \<open>handle_event\<close>, which calls daemon and
    router in turn. \<open>DaemonRuns\<close>: the books of custody, delivery once, exact expiration, and that a
    deleted bundle is gone from all lists of the node.

  \<^bold>\<open>Correspondence.\<close> A definition has the name of the C++ function it translates, with the prefix
  of its class where the name alone would not do (\<open>pl_\<close> payload, \<open>bi_\<close> block, \<open>bv_\<close> block list, \<open>bl_\<close>
  bundle list, \<open>b_\<close> member of a bundle). Members of a class are fields of a record; a method takes
  the object and returns it. Words keep the width of the code where it can wrap around; a
  \<open>size_t\<close> that counts bytes of an object in memory is a \<open>nat\<close>. Log messages and locks are left out:
  the modelled methods run under the lock of their object. A pointer from a block to its source
  block is a position in the received or API list of the same bundle; \<open>BundleLists\<close>, where
  sharing is the point, has an explicit heap of bundles and lists, and so have the theories on top
  of it, from \<open>Link\<close> to \<open>DaemonRuns\<close>. Links and contacts are addresses into tables; the state of the
  whole node is the record \<open>node_sys\<close>, which every action, router and daemon operation takes and
  returns. The prefix \<open>tr_\<close> marks a method of the router whose name the daemon has as well, \<open>df_\<close>
  one of a deferred list, \<open>cm_\<close> one of the contact manager. Events that a handler posts are appended
  to \<open>cm_events\<close>. The invariants are stated for bundles that the caller holds a reference to
  (\<open>held\<close>), which is what the references in events and on the stack of the C++ code amount to.

  \<^bold>\<open>Parameters.\<close> Code outside the repository is an argument: the buffer growth of
  \<open>oasys::ScratchBuffer\<close> (\<open>rsv\<close>, which may only grow: \<open>scratch_ok\<close>), \<open>naming\<close>, whether the
  descriptor cache hits and what unwritten memory holds (\<open>payload_io\<close>), the clock, \<open>random()\<close>, and
  the callbacks of \<open>process\<close> and \<open>mutate\<close>, the URI class and glob of oasys (\<open>uri_lib\<close>) and its
  cache. The metadata block processor is an argument as well. The record \<open>node_env\<close> holds what the
  operations of a node take from outside: parameters, the clock, and the calls that create other
  bundles or leave the modelled state (fragmentation, status reports, custody signals, delivery to
  an application, sessions). What is relied on of them are the hypotheses \<open>calls_ok\<close>,
  \<open>fragment_kept\<close>, \<open>custody_calls\<close> and \<open>deletion_calls\<close>; the samples show that they can hold.

  \<^bold>\<open>Bounds.\<close> Loops over data are recursive functions that are total. Four have a bound on their
  turns, because the code does not always end: \<open>consume_loop\<close> (a turn may consume nothing; one
  more than the number of bytes suffices, \<open>bundle_consume_terminates\<close>), \<open>fragment_loop\<close> (it diverges
  for some limits, \<open>proactive_fragment_diverges\<close>, and \<open>fragment_roundtrip\<close> shows that it ends
  otherwise), \<open>bl_move_contents\<close> (the length of the list suffices for two different lists,
  \<open>move_contents_moves_all\<close>) and \<open>cancel_queue\<close> (the length of the queue suffices,
  \<open>reroute_bundles_empties\<close>). Loops of the router over a list from which the body removes the current
  bundle are loops over the list at their start.

  \<^bold>\<open>Not modelled.\<close> The vectors of blocks are lists with insertion as the standard library
  specifies it; \<open>BlockInfo::operator=\<close> does not assign, which breaks the requirement of
  \<open>std::vector::insert\<close> on its elements, and what insertion then does depends on the library.
  Of the daemon, the query and report events, injected bundles, registrations with their queues,
  loading from the data store and the bundle query extension (\<open>BPQ_ENABLED\<close>) are left out; of the
  router, sessions, the commands and the flooding, link-state, external and TCA routers. Metadata,
  query and security blocks and the PRoPHET library are not modelled: the first are opaque to the
  modelled code, the next two are compiled only with an option, and the last computes with floating
  point numbers. Discovery, the transports of the convergence layers, storage, commands and the
  application library are input and output; \<open>router.cc\<close>, \<open>CLEvent.cc\<close> and the language bindings
  are generated.
\<close>

subsection \<open>The list of a fragment state\<close>

text \<open>
  \<open>Fragment\<close> keeps the fragments of a bundle as a list of bundles, \<open>BundleLists\<close> has the list with
  its nodes in memory. \<open>list_data\<close> is the abstraction.
\<close>

definition list_data :: "heap \<Rightarrow> list_id \<Rightarrow> dtn_bundle list" where
  "list_data h l = map (\<lambda>(n, c). bo_data (h_bundles h c)) (h_lists h l)"

lemma insert_frag_pos:
  "insert_frag (bo_data (objs b)) (map (\<lambda>(n, c). bo_data (objs c)) xs) =
     map (\<lambda>(n, c). bo_data (objs c))
       (take (sorted_pos objs (b_frag_offset (bo_data (objs b))) xs) xs @ (m, b) #
        drop (sorted_pos objs (b_frag_offset (bo_data (objs b))) xs) xs)"
  by (induction objs "b_frag_offset (bo_data (objs b))" xs rule: sorted_pos.induct) simp_all

lemma add_ref_data: "add_ref b h = Inr h' \<Longrightarrow> bo_data (h_bundles h' c) = bo_data (h_bundles h c)"
  by (auto simp: add_ref_def inc_ref_def add_bundle_with_def get_obj_def bindR_eq_Inr heap_defs split: if_splits)

lemma add_bundle_data: "add_bundle l i b h = Inr h' \<Longrightarrow> bo_data (h_bundles h' c) = bo_data (h_bundles h c)"
  by (auto simp: add_bundle_def add_bundle_with_def get_obj_def bindR_eq_Inr heap_defs dest!: add_ref_data split: if_splits)

text \<open>
  C27: \<open>BundleList::insert_sorted\<close> in any reachable state implements the insertion that the
  reassembly relies on: it leaves the bundles of the list in the order of \<open>insert_frag\<close>, and
  ignores a bundle that is being freed or on the list already.
\<close>

theorem insert_sorted_refines:
  assumes "reachable s" and "l \<noteq> ALL_BUNDLES" and "h_live (s_heap s) b"
  shows "\<exists>h'. bl_insert_sorted l SORT_FRAG_OFFSET b (s_heap s) = Inr h' \<and>
    list_data h' l =
      (if is_freed (h_bundles (s_heap s) b) \<or> is_queued_on l (h_bundles (s_heap s) b) then list_data (s_heap s) l
       else insert_frag (bo_data (h_bundles (s_heap s) b)) (list_data (s_heap s) l))"
proof -
  let ?h = "s_heap s"
  let ?i = "sorted_pos (h_bundles ?h) (b_frag_offset (bo_data (h_bundles ?h b))) (h_lists ?h l)"
  obtain h' where h': "add_bundle l ?i b ?h = Inr h'"
    "h_lists h' l = (if \<not> is_freed (h_bundles ?h b) \<and> \<not> is_queued_on l (h_bundles ?h b)
       then take ?i (h_lists ?h l) @ (h_next ?h, b) # drop ?i (h_lists ?h l) else h_lists ?h l)"
    using bl_inv_add_bundle [OF reachable_inv [OF assms(1)] assms(3,2), of ?i] assms(2) by auto
  have eq: "list_data h' l = map (\<lambda>(n, c). bo_data (h_bundles ?h c)) (h_lists h' l)"
    using add_bundle_data [OF h'(1)] by (simp add: list_data_def)
  have "list_data h' l =
      (if is_freed (h_bundles ?h b) \<or> is_queued_on l (h_bundles ?h b) then list_data ?h l
       else insert_frag (bo_data (h_bundles ?h b)) (list_data ?h l))"
    unfolding eq list_data_def [of ?h] h'(2)
    using insert_frag_pos [of "h_bundles ?h" b "h_lists ?h l" "h_next ?h"] by simp
  moreover have "bl_insert_sorted l SORT_FRAG_OFFSET b ?h = Inr h'"
    using h'(1) assms(3) by (simp add: bl_insert_sorted_def get_obj_def)
  ultimately show ?thesis
    by blast
qed

theorem insert_sorted_refines_witness:
  "\<exists>s h'. exec_all example_ops initial_sys = Inr s \<and> bl_insert_sorted 2 SORT_FRAG_OFFSET 7 (s_heap s) = Inr h' \<and>
     list_data h' 2 = [bo_data (h_bundles (s_heap s) 7)]"
proof -
  obtain s where s: "exec_all example_ops initial_sys = Inr s" "reachable s" "h_live (s_heap s) 7"
    "\<not> is_freed (h_bundles (s_heap s) 7)"
    by (rule example_run)
  have ALL: "(2 :: list_id) \<noteq> ALL_BUNDLES"
    by (simp add: ALL_BUNDLES_def)
  have empty: "h_lists (s_heap s) 2 = []"
    using s(1) by (auto simp: example_ops_def run_defs)
  have "\<not> is_queued_on 2 (h_bundles (s_heap s) 7)"
    using linked_queued [OF bl_inv_linked [OF reachable_inv [OF s(2)]] s(3), of 2] empty by simp
  then show ?thesis
    using insert_sorted_refines [OF s(2) ALL s(3)] s(1,4) empty by (auto simp: list_data_def)
qed

end
